(* ===== verification/Xet_Prelude.thy ===== *)
theory Xet_Prelude
  imports Main "HOL-Library.Word"
begin

text \<open>
  Shared vocabulary of the development: machine integers, byte strings and their little-endian
  layout, in-memory readers, the error values of the core crates, and the generic facts on lists
  that the component theories use.

  Conventions. \<open>u8\<close>, \<open>u32\<close> and \<open>u64\<close> are words of their width, so that \<open>+\<close> and \<open>*\<close> wrap as
  release-mode Rust does. A \<open>usize\<close> that counts elements of a vector or slice in memory is a
  \<open>nat\<close>. The target is little-endian, where \<open>to_le\<close> is the identity and a transmute between
  \<open>[u64; 4]\<close> and \<open>[u8; 32]\<close> is the little-endian layout. A reader over a byte buffer is the list
  of the bytes still to be read; the only I/O failure such a reader has is running out of bytes.
  A fallible operation returns \<open>'e + 'a\<close> with \<open>Inl\<close> for the error.
\<close>

unbundle bit_operations_syntax

type_synonym u8 = "8 word"
type_synonym u32 = "32 word"
type_synonym u64 = "64 word"
type_synonym bytes = "8 word list"

named_theorems reader_simps \<open>evaluation rules of the byte readers and writers\<close>

section \<open>Results\<close>

datatype io_error = UnexpectedEof | OtherIo

text \<open>
  The error enum of \<open>xet_core_structures/src/error.rs\<close>; the text of a message is dropped, as
  the enum's own equality compares the variant only.
\<close>

datatype core_error =
    Io io_error
  | InternalError
  | Other
  | TruncatedHashCollision u64
  | ShardVersion
  | InvalidShard
  | InvalidRange
  | InvalidArguments
  | MalformedData
  | HashMismatch
  | CompressionError
  | HashParsing
  | ChunkHeaderParse

text \<open>The question-mark operator: an error returns early.\<close>

definition rbind :: "'e + 'a \<Rightarrow> ('a \<Rightarrow> 'e + 'b) \<Rightarrow> 'e + 'b" where
  "rbind r f = (case r of Inl e \<Rightarrow> Inl e | Inr x \<Rightarrow> f x)"

lemma rbind_simps [simp]:
  "rbind (Inl e) f = Inl e"
  "rbind (Inr x) f = f x"
  by (simp_all add: rbind_def)

lemma rbind_Inr_iff: "rbind r f = Inr y \<longleftrightarrow> (\<exists>x. r = Inr x \<and> f x = Inr y)"
  by (cases r) auto

lemma rbind_Inl_iff: "rbind r f = Inl e \<longleftrightarrow> r = Inl e \<or> (\<exists>x. r = Inr x \<and> f x = Inl e)"
  by (cases r) auto

lemma rbind_assoc: "rbind (rbind r f) g = rbind r (\<lambda>x. rbind (f x) g)"
  by (cases r) auto

lemma rbind_cong [fundef_cong]:
  "r = r' \<Longrightarrow> (\<And>x. r' = Inr x \<Longrightarrow> f x = g x) \<Longrightarrow> rbind r f = rbind r' g"
  by (cases r') auto

text \<open>The conversion of an I/O error into the crate's error by \<open>From\<close>.\<close>

definition lift_io :: "io_error + 'a \<Rightarrow> core_error + 'a" where
  "lift_io r = (case r of Inl e \<Rightarrow> Inl (Io e) | Inr x \<Rightarrow> Inr x)"

lemma lift_io_simps [simp]:
  "lift_io (Inl e) = Inl (Io e)"
  "lift_io (Inr x) = Inr x"
  by (simp_all add: lift_io_def)

text \<open>\<open>try_into().unwrap()\<close> from a count to \<open>u32\<close>; \<open>None\<close> is the panic.\<close>

definition try_u32 :: "nat \<Rightarrow> u32 option" where
  "try_u32 n = (if n < 2 ^ 32 then Some (of_nat n) else None)"

lemma unat_of_nat_u32 [simp]: "n < 2 ^ 32 \<Longrightarrow> unat (of_nat n :: u32) = n"
  by (simp add: unsigned_of_nat take_bit_nat_eq_self)

lemma try_u32_eq_Some [simp]: "try_u32 n = Some w \<longleftrightarrow> n = unat w"
  using unsigned_less [of w] by (auto simp: try_u32_def)

section \<open>Lists\<close>

lemma take_append_exact [simp]: "length xs = n \<Longrightarrow> take n (xs @ ys) = xs"
  by simp

lemma drop_append_exact [simp]: "length xs = n \<Longrightarrow> drop n (xs @ ys) = ys"
  by simp

lemma list_eq_append_conv_take_drop: "k \<le> length xs \<Longrightarrow> xs = take k xs @ drop k xs"
  by simp

text \<open>\<open>slice xs a b\<close> is the Rust slice \<open>&xs[a..b]\<close> for \<open>a \<le> b \<le> xs.len()\<close>.\<close>

definition slice :: "'a list \<Rightarrow> nat \<Rightarrow> nat \<Rightarrow> 'a list" where
  "slice xs a b = take (b - a) (drop a xs)"

lemma length_slice [simp]: "b \<le> length xs \<Longrightarrow> length (slice xs a b) = b - a"
  by (simp add: slice_def)

lemma slice_append_middle:
  "a = length xs \<Longrightarrow> b = a + length ys \<Longrightarrow> slice (xs @ ys @ zs) a b = ys"
  by (simp add: slice_def)

lemma slice_append_left: "b \<le> length xs \<Longrightarrow> slice (xs @ ys) a b = slice xs a b"
  by (simp add: slice_def)

lemma slice_concat:
  assumes "a \<le> b" and "b \<le> c"
  shows "slice xs a b @ slice xs b c = slice xs a c"
proof -
  have "drop b xs = drop (b - a) (drop a xs)" using assms(1) by simp
  moreover have "c - a = (b - a) + (c - b)" using assms by simp
  ultimately show ?thesis by (simp only: slice_def take_add)
qed

lemmas slice_split = slice_concat [symmetric]

lemma length_concat_take_mono: "a \<le> b \<Longrightarrow> length (concat (take a xs)) \<le> length (concat (take b xs))"
proof -
  assume "a \<le> b"
  then have "take b xs = take a xs @ take (b - a) (drop a xs)" by (simp add: take_add [symmetric])
  then show ?thesis by simp
qed

lemma list_all2_sets:
  "list_all2 P xs ys \<Longrightarrow> x \<in> set xs \<Longrightarrow> \<exists>y \<in> set ys. P x y"
  "list_all2 P xs ys \<Longrightarrow> y \<in> set ys \<Longrightarrow> \<exists>x \<in> set xs. P x y"
  by (induction xs ys rule: list_all2_induct) auto

text \<open>A search through a range of indices, forwards and backwards.\<close>

lemma find_Some_iff_first:
  "find P [a..<b] = Some i \<longleftrightarrow> a \<le> i \<and> i < b \<and> P i \<and> (\<forall>j. a \<le> j \<and> j < i \<longrightarrow> \<not> P j)"
proof -
  have "find P [a..<b] = Some i \<longleftrightarrow>
      (\<exists>k<b - a. P (a + k) \<and> i = a + k \<and> (\<forall>j<k. \<not> P (a + j)))"
    by (auto simp: find_Some_iff)
  also have "\<dots> \<longleftrightarrow> a \<le> i \<and> i < b \<and> P i \<and> (\<forall>j. a \<le> j \<and> j < i \<longrightarrow> \<not> P j)"
  proof safe
    fix k j assume "\<forall>j<k. \<not> P (a + j)" "a \<le> j" "j < a + k" "P j"
    then show False by (metis le_Suc_ex nat_add_left_cancel_less)
  next
    assume "a \<le> i" "i < b" "P i" "\<forall>j. a \<le> j \<and> j < i \<longrightarrow> \<not> P j"
    then show "\<exists>k<b - a. P (a + k) \<and> i = a + k \<and> (\<forall>j<k. \<not> P (a + j))"
      by (intro exI [of _ "i - a"]) auto
  qed auto
  finally show ?thesis .
qed

lemma find_None_iff_upt: "find P [a..<b] = None \<longleftrightarrow> (\<forall>i. a \<le> i \<and> i < b \<longrightarrow> \<not> P i)"
  by (auto simp: find_None_iff)

lemma find_rev_upt_None: "find P (rev [0..<n]) = None \<longleftrightarrow> (\<forall>i<n. \<not> P i)"
  by (induction n) (auto simp: less_Suc_eq)

lemma find_rev_upt_Some:
  "find P (rev [0..<n]) = Some i \<longleftrightarrow> i < n \<and> P i \<and> (\<forall>j. i < j \<and> j < n \<longrightarrow> \<not> P j)"
  by (induction n) (auto simp: less_Suc_eq)

section \<open>Little-endian layout\<close>

text \<open>\<open>to_le_bytes\<close> of a word of \<open>n\<close> bytes, and \<open>from_le_bytes\<close>.\<close>

definition le_bytes :: "nat \<Rightarrow> 'a::len word \<Rightarrow> bytes" where
  "le_bytes n w = map (\<lambda>i. ucast (drop_bit (8 * i) w)) [0..<n]"

fun from_le :: "bytes \<Rightarrow> 'a::len word" where
  "from_le [] = 0"
| "from_le (b # bs) = ucast b OR push_bit 8 (from_le bs)"

lemma length_le_bytes [simp]: "length (le_bytes n w) = n"
  by (simp add: le_bytes_def)

lemma bit_from_le:
  "bit (from_le bs :: 'a::len word) j \<longleftrightarrow>
     j < LENGTH('a) \<and> j div 8 < length bs \<and> bit (bs ! (j div 8)) (j mod 8)"
proof (induction bs arbitrary: j)
  case Nil
  then show ?case by simp
next
  case (Cons b bs)
  show ?case
  proof (cases "j < 8")
    case True
    then show ?thesis
      by (auto simp: bit_or_iff bit_push_bit_iff bit_ucast_iff)
  next
    case False
    then have d: "j div 8 = Suc ((j - 8) div 8)" and m: "j mod 8 = (j - 8) mod 8"
      by (auto simp: le_div_geq le_mod_geq not_less)
    have "\<not> bit b j"
      using False by (auto dest: bit_imp_le_length)
    moreover have "j - 8 < LENGTH('a)" if "j < LENGTH('a)"
      using that by simp
    ultimately show ?thesis
      using False Cons.IH [of "j - 8"]
      by (auto simp: bit_or_iff bit_push_bit_iff bit_ucast_iff d m)
  qed
qed

lemma bit_le_bytes_nth:
  "i < n \<Longrightarrow> bit (le_bytes n w ! i) k \<longleftrightarrow> k < 8 \<and> bit w (8 * i + k)"
  by (auto simp: le_bytes_def bit_ucast_iff bit_drop_bit_eq)

lemma from_le_le_bytes:
  assumes "LENGTH('a) \<le> 8 * n"
  shows "from_le (le_bytes n w) = (w :: 'a::len word)"
proof (rule bit_word_eqI)
  fix j assume j: "j < LENGTH('a)"
  have "8 * (j div 8) + j mod 8 = j" by simp
  with j assms show "bit (from_le (le_bytes n w) :: 'a word) j = bit w j"
    by (auto simp: bit_from_le bit_le_bytes_nth)
qed

lemma le_bytes_from_le:
  assumes "length bs = n" and "8 * n \<le> LENGTH('a)"
  shows "le_bytes n (from_le bs :: 'a::len word) = bs"
proof (rule nth_equalityI)
  show "length (le_bytes n (from_le bs :: 'a word)) = length bs"
    using assms by simp
  fix i assume "i < length (le_bytes n (from_le bs :: 'a word))"
  then have i: "i < n" by simp
  show "le_bytes n (from_le bs :: 'a word) ! i = bs ! i"
  proof (rule bit_word_eqI)
    fix k :: nat assume k: "k < LENGTH(8)"
    then have "8 * i + k < 8 * n" using i by simp
    then have "8 * i + k < LENGTH('a)" using assms(2) by simp
    then show "bit (le_bytes n (from_le bs :: 'a word) ! i) k = bit (bs ! i) k"
      using i k assms(1) by (simp add: bit_le_bytes_nth bit_from_le)
  qed
qed

section \<open>Readers over a byte buffer\<close>

text \<open>\<open>Read::read_exact\<close> on a cursor: the bytes asked for and the rest, or \<open>UnexpectedEof\<close>.\<close>

definition read_exact :: "nat \<Rightarrow> bytes \<Rightarrow> io_error + (bytes \<times> bytes)" where
  "read_exact n bs = (if length bs < n then Inl UnexpectedEof else Inr (take n bs, drop n bs))"

lemma read_exact_append [reader_simps]:
  "length xs = n \<Longrightarrow> read_exact n (xs @ ys) = Inr (xs, ys)"
  by (simp add: read_exact_def)

lemma read_exact_short [reader_simps]:
  "length bs < n \<Longrightarrow> read_exact n bs = Inl UnexpectedEof"
  by (simp add: read_exact_def)

lemma read_exact_Inr_iff:
  "read_exact n bs = Inr (xs, ys) \<longleftrightarrow> length xs = n \<and> bs = xs @ ys"
  by (auto simp: read_exact_def)

end
