(* ===== verification/Data_Hash.thy ===== *)
theory Data_Hash
  imports Xet_Prelude
begin

text \<open>
  The 256-bit hash value of \<open>xet_core_structures/src/merklehash/data_hash.rs\<close>: its order, its
  byte and hexadecimal forms, and the keyed hashes computed from it. The keyed hash of the
  \<open>blake3\<close> crate is the parameter \<open>kh\<close> (key, message, digest of 32 bytes); the codec of the
  \<open>base64\<close> crate is a pair of parameters. Last comes the hashing writer of the same file.
\<close>

section \<open>The value\<close>

datatype data_hash = DataHash (h0: u64) (h1: u64) (h2: u64) (h3: u64)

type_synonym merkle_hash = data_hash
type_synonym keyed_hash = "bytes \<Rightarrow> bytes \<Rightarrow> bytes"

definition default_hash :: data_hash where
  "default_hash = DataHash 0 0 0 0"

text \<open>All bits set: the marker of a xorb not yet cut, and the bookend of a shard section.\<close>

definition marker :: data_hash where
  "marker = DataHash (NOT 0) (NOT 0) (NOT 0) (NOT 0)"

lemma marker_neq_default [simp]: "marker \<noteq> default_hash" "default_hash \<noteq> marker"
  by (simp_all add: marker_def default_hash_def)

text \<open>\<open>Ord\<close> compares the four words in turn.\<close>

instantiation data_hash :: linorder
begin

definition less_eq_data_hash :: "data_hash \<Rightarrow> data_hash \<Rightarrow> bool" where
  "less_eq_data_hash a b \<longleftrightarrow>
     h0 a < h0 b \<or> h0 a = h0 b \<and>
     (h1 a < h1 b \<or> h1 a = h1 b \<and>
     (h2 a < h2 b \<or> h2 a = h2 b \<and> h3 a \<le> h3 b))"

definition less_data_hash :: "data_hash \<Rightarrow> data_hash \<Rightarrow> bool" where
  "less_data_hash a b \<longleftrightarrow>
     h0 a < h0 b \<or> h0 a = h0 b \<and>
     (h1 a < h1 b \<or> h1 a = h1 b \<and>
     (h2 a < h2 b \<or> h2 a = h2 b \<and> h3 a < h3 b))"

instance
proof
  fix x y z :: data_hash
  show "x < y \<longleftrightarrow> x \<le> y \<and> \<not> y \<le> x"
    by (auto simp: less_eq_data_hash_def less_data_hash_def)
  show "x \<le> x"
    by (simp add: less_eq_data_hash_def)
  show "x \<le> y \<Longrightarrow> y \<le> z \<Longrightarrow> x \<le> z"
    by (auto simp: less_eq_data_hash_def)
  show "x \<le> y \<Longrightarrow> y \<le> x \<Longrightarrow> x = y"
    by (cases x; cases y) (auto simp: less_eq_data_hash_def)
  show "x \<le> y \<or> y \<le> x"
    by (auto simp: less_eq_data_hash_def)
qed

end

text \<open>\<open>h % rhs\<close>: the remainder of the last word.\<close>

definition rem_hash :: "data_hash \<Rightarrow> u64 \<Rightarrow> u64" where
  "rem_hash h rhs = h3 h mod rhs"

text \<open>The first word, the key of the shard lookup tables (\<open>metadata_shard/utils.rs\<close>).\<close>

definition truncate_hash :: "data_hash \<Rightarrow> u64" where
  "truncate_hash h = h0 h"

lemma truncate_hash_mono: "a \<le> b \<Longrightarrow> truncate_hash a \<le> truncate_hash b"
  by (auto simp: truncate_hash_def less_eq_data_hash_def)

definition MDB_SHARD_GLOBAL_DEDUP_CHUNK_MODULUS :: u64 where
  "MDB_SHARD_GLOBAL_DEDUP_CHUNK_MODULUS = 1024"

definition hash_is_global_dedup_eligible :: "data_hash \<Rightarrow> bool" where
  "hash_is_global_dedup_eligible h \<longleftrightarrow> rem_hash h MDB_SHARD_GLOBAL_DEDUP_CHUNK_MODULUS = 0"

section \<open>Bytes\<close>

definition as_bytes :: "data_hash \<Rightarrow> bytes" where
  "as_bytes h = le_bytes 8 (h0 h) @ le_bytes 8 (h1 h) @ le_bytes 8 (h2 h) @ le_bytes 8 (h3 h)"

text \<open>\<open>From<[u8; 32]>\<close>: a transmute of the 32 bytes.\<close>

definition from_bytes :: "bytes \<Rightarrow> data_hash" where
  "from_bytes v =
     DataHash (from_le (take 8 v)) (from_le (take 8 (drop 8 v)))
       (from_le (take 8 (drop 16 v))) (from_le (take 8 (drop 24 v)))"

datatype data_hash_error = InvalidHex string | InvalidBytes bytes

definition from_slice :: "bytes \<Rightarrow> data_hash_error + data_hash" where
  "from_slice value = (if length value \<noteq> 32 then Inl (InvalidBytes value) else Inr (from_bytes value))"

text \<open>Bytes in the order of the hexadecimal form: each group of eight is big-endian.\<close>

definition from_be_bytes :: "bytes \<Rightarrow> data_hash" where
  "from_be_bytes v =
     DataHash (from_le (rev (take 8 v))) (from_le (rev (take 8 (drop 8 v))))
       (from_le (rev (take 8 (drop 16 v)))) (from_le (rev (take 8 (drop 24 v))))"

lemma length_as_bytes [simp]: "length (as_bytes h) = 32"
  by (simp add: as_bytes_def)

lemma from_bytes_as_bytes [simp]: "from_bytes (as_bytes h) = h"
  by (cases h) (simp add: from_bytes_def as_bytes_def from_le_le_bytes)

lemma as_bytes_inject [simp]: "as_bytes a = as_bytes b \<longleftrightarrow> a = b"
  by (metis from_bytes_as_bytes)

lemma bytes32_split:
  assumes "length v = 32"
  shows "v = take 8 v @ take 8 (drop 8 v) @ take 8 (drop 16 v) @ take 8 (drop 24 v)"
proof -
  have "v = take 8 v @ drop 8 v" by simp
  also have "drop 8 v = take 8 (drop 8 v) @ drop 16 v"
    by (metis append_take_drop_id drop_drop numeral_Bit0)
  also have "drop 16 v = take 8 (drop 16 v) @ drop 24 v"
    using append_take_drop_id [of 8 "drop 16 v"] by simp
  also have "drop 24 v = take 8 (drop 24 v)"
    using assms by simp
  finally show ?thesis .
qed

lemma as_bytes_from_bytes: "length v = 32 \<Longrightarrow> as_bytes (from_bytes v) = v"
  using bytes32_split [of v] by (simp add: as_bytes_def from_bytes_def le_bytes_from_le)

section \<open>Hexadecimal form\<close>

definition hex_char :: "nat \<Rightarrow> char" where
  "hex_char d = ''0123456789abcdef'' ! d"

text \<open>The value of a hexadecimal digit of either case, as \<open>is_ascii_hexdigit\<close> and
  \<open>from_str_radix\<close> read it.\<close>

definition hex_val :: "char \<Rightarrow> nat option" where
  "hex_val c =
     (let n = of_char c :: nat in
      if 48 \<le> n \<and> n \<le> 57 then Some (n - 48)
      else if 97 \<le> n \<and> n \<le> 102 then Some (n - 87)
      else if 65 \<le> n \<and> n \<le> 70 then Some (n - 55)
      else None)"

text \<open>\<open>{:016x}\<close> of a number: its digits, most significant first, padded with zeros.\<close>

fun hex_digits :: "nat \<Rightarrow> nat \<Rightarrow> nat list" where
  "hex_digits 0 v = []"
| "hex_digits (Suc n) v = hex_digits n (v div 16) @ [v mod 16]"

definition format_016x :: "u64 \<Rightarrow> string" where
  "format_016x w = map hex_char (hex_digits 16 (unat w))"

text \<open>\<open>u64::from_str_radix(s, 16)\<close> on a string of at most 16 hexadecimal digits.\<close>

definition from_str_radix_16 :: "string \<Rightarrow> u64" where
  "from_str_radix_16 s = of_nat (foldl (\<lambda>a c. 16 * a + the (hex_val c)) 0 s)"

definition hex :: "data_hash \<Rightarrow> string" where
  "hex h = format_016x (h0 h) @ format_016x (h1 h) @ format_016x (h2 h) @ format_016x (h3 h)"

definition from_hex :: "string \<Rightarrow> data_hash_error + data_hash" where
  "from_hex h =
     (if length h \<noteq> 64 then Inl (InvalidHex h)
      else if \<not> list_all (\<lambda>c. hex_val c \<noteq> None) h then Inl (InvalidHex h)
      else Inr (DataHash (from_str_radix_16 (slice h 0 16)) (from_str_radix_16 (slice h 16 32))
                         (from_str_radix_16 (slice h 32 48)) (from_str_radix_16 (slice h 48 64))))"

lemma length_hex_digits [simp]: "length (hex_digits n v) = n"
  by (induction n arbitrary: v) auto

lemma hex_digits_less: "d \<in> set (hex_digits n v) \<Longrightarrow> d < 16"
  by (induction n arbitrary: v) auto

lemma hex_val_hex_char: "d < 16 \<Longrightarrow> hex_val (hex_char d) = Some d"
proof -
  assume "d < 16"
  have "list_all (\<lambda>d. hex_val (hex_char d) = Some d) [0..<16]" by code_simp
  with \<open>d < 16\<close> show ?thesis by (simp add: list_all_iff)
qed

lemma foldl_hex_digits: "foldl (\<lambda>a d. 16 * a + d) 0 (hex_digits n v) = v mod 16 ^ n"
proof (induction n arbitrary: v)
  case 0
  then show ?case by simp
next
  case (Suc n)
  have "v mod 16 ^ Suc n = 16 * (v div 16 mod 16 ^ n) + v mod 16"
    by (simp add: mod_mult2_eq)
  with Suc show ?case by simp
qed

lemma foldl_hex_chars:
  "list_all (\<lambda>d. d < 16) ds \<Longrightarrow>
   foldl (\<lambda>a c. 16 * a + the (hex_val c)) a (map hex_char ds) = foldl (\<lambda>a d. 16 * a + d) a ds"
  by (induction ds arbitrary: a) (auto simp: hex_val_hex_char)

lemma from_str_radix_format [simp]: "from_str_radix_16 (format_016x w) = w"
proof -
  have "list_all (\<lambda>d. d < 16) (hex_digits 16 (unat w))"
    by (auto simp: list_all_iff dest: hex_digits_less)
  moreover have "unat w < 2 ^ LENGTH(64)"
    by (rule unsigned_less)
  then have "unat w mod 16 ^ 16 = unat w"
    by simp
  ultimately show ?thesis
    by (simp add: from_str_radix_16_def format_016x_def foldl_hex_chars foldl_hex_digits)
qed

lemma length_format_016x [simp]: "length (format_016x w) = 16"
  by (simp add: format_016x_def)

lemma format_016x_hexdigits: "list_all (\<lambda>c. hex_val c \<noteq> None) (format_016x w)"
  by (auto simp: format_016x_def list_all_iff dest!: hex_digits_less simp: hex_val_hex_char)

lemma from_hex_hex_lemma: "from_hex (hex h) = Inr h"
  by (cases h) (simp add: from_hex_def hex_def slice_def format_016x_hexdigits del: not_None_eq)

text \<open>In the other direction the parser accepts upper case, which \<open>hex\<close> never prints.\<close>

definition lower_hex :: "char \<Rightarrow> char" where
  "lower_hex c = hex_char (the (hex_val c))"

lemma hex_digits_foldl:
  "list_all (\<lambda>d. d < 16) ds \<Longrightarrow> hex_digits (length ds) (foldl (\<lambda>a d. 16 * a + d) 0 ds) = ds"
  by (induction ds rule: rev_induct) (auto simp: mult.commute)

lemma hex_val_less: "hex_val c = Some d \<Longrightarrow> d < 16"
  by (auto simp: hex_val_def Let_def split: if_splits)

lemma foldl_bound: "list_all (\<lambda>d. d < 16) ds \<Longrightarrow> foldl (\<lambda>a d. 16 * a + d) 0 ds < (16::nat) ^ length ds"
  by (induction ds rule: rev_induct) auto

lemma format_from_str_radix:
  assumes "length s = 16" and "list_all (\<lambda>c. hex_val c \<noteq> None) s"
  shows "format_016x (from_str_radix_16 s) = map lower_hex s"
proof -
  let ?ds = "map (the \<circ> hex_val) s"
  have small: "list_all (\<lambda>d. d < 16) ?ds"
    using assms(2) by (fastforce simp: list_all_iff dest: hex_val_less)
  have fold: "foldl (\<lambda>a c. 16 * a + the (hex_val c)) 0 s = foldl (\<lambda>a d. 16 * a + d) 0 ?ds"
    by (simp add: foldl_map)
  have "foldl (\<lambda>a d. 16 * a + d) 0 ?ds < 2 ^ 64"
    using foldl_bound [OF small] assms(1) by simp
  then have "unat (from_str_radix_16 s) = foldl (\<lambda>a d. 16 * a + d) 0 ?ds"
    by (simp add: from_str_radix_16_def fold unat_of_nat)
  then show ?thesis
    using hex_digits_foldl [OF small] assms(1) by (simp add: format_016x_def lower_hex_def)
qed

section \<open>Base64 form\<close>

definition base64 :: "(bytes \<Rightarrow> string) \<Rightarrow> data_hash \<Rightarrow> string" where
  "base64 encode h = encode (as_bytes h)"

definition from_base64 :: "(string \<Rightarrow> bytes option) \<Rightarrow> string \<Rightarrow> data_hash_error + data_hash" where
  "from_base64 decode b64 =
     (case decode b64 of
        None \<Rightarrow> Inl (InvalidBytes (map of_char b64))
      | Some bs \<Rightarrow> from_slice bs)"

section \<open>Keyed hashes\<close>

definition DATA_KEY :: bytes where
  "DATA_KEY = [102, 151, 245, 119, 91, 149, 80, 222, 49, 53, 203, 172, 165, 151, 24, 28, 157, 228,
     33, 16, 155, 235, 43, 88, 180, 208, 176, 75, 147, 173, 242, 41]"

definition INTERNAL_NODE_HASH :: bytes where
  "INTERNAL_NODE_HASH = [1, 126, 197, 199, 165, 71, 41, 150, 253, 148, 102, 102, 180, 138, 2, 230,
     93, 221, 83, 111, 55, 199, 109, 210, 248, 99, 82, 230, 74, 83, 113, 63]"

definition hmac :: "keyed_hash \<Rightarrow> data_hash \<Rightarrow> data_hash \<Rightarrow> data_hash" where
  "hmac kh self key = from_bytes (kh (as_bytes key) (as_bytes self))"

definition compute_data_hash :: "keyed_hash \<Rightarrow> bytes \<Rightarrow> data_hash" where
  "compute_data_hash kh data = from_bytes (kh DATA_KEY data)"

definition compute_internal_node_hash :: "keyed_hash \<Rightarrow> bytes \<Rightarrow> data_hash" where
  "compute_internal_node_hash kh data = from_bytes (kh INTERNAL_NODE_HASH data)"

section \<open>The hashing writer\<close>

text \<open>
  \<open>HashedWrite\<close> feeds every buffer it is given to a keyed hasher and passes it on to the inner
  writer. The state is what the hasher has absorbed and what the inner writer has accepted; the
  inner \<open>Write::write\<close> accepts some number of the bytes offered, which the argument \<open>accept\<close>
  gives.
\<close>

record hashed_write =
  hasher :: bytes
  inner :: bytes

definition new_hashed_write :: hashed_write where
  "new_hashed_write = \<lparr>hasher = [], inner = []\<rparr>"

definition hw_write :: "(bytes \<Rightarrow> nat) \<Rightarrow> hashed_write \<Rightarrow> bytes \<Rightarrow> hashed_write \<times> nat" where
  "hw_write accept s buf =
     (let n = min (accept buf) (length buf) in
      (s\<lparr>hasher := hasher s @ buf, inner := inner s @ take n buf\<rparr>, n))"

definition hw_hash :: "keyed_hash \<Rightarrow> hashed_write \<Rightarrow> data_hash" where
  "hw_hash kh s = compute_data_hash kh (hasher s)"

text \<open>\<open>Write::write_all\<close> of the standard library: write until the buffer is used up; a write that
  accepts nothing is an error.\<close>

function hw_write_all :: "(bytes \<Rightarrow> nat) \<Rightarrow> hashed_write \<Rightarrow> bytes \<Rightarrow> io_error + hashed_write" where
  "hw_write_all accept s buf =
     (if buf = [] then Inr s
      else let (s', n) = hw_write accept s buf in
           if n = 0 then Inl OtherIo else hw_write_all accept s' (drop n buf))"
  by pat_completeness auto
termination
  by (relation "measure (\<lambda>(accept, s, buf). length buf)") (auto simp: hw_write_def Let_def)

declare hw_write_all.simps [simp del]

lemma hw_write_all_full:
  assumes "accept buf = length buf"
  shows "hw_write_all accept s buf = Inr (s\<lparr>hasher := hasher s @ buf, inner := inner s @ buf\<rparr>)"
  using assms
  by (simp add: hw_write_all.simps [of accept s buf] hw_write_all.simps [of accept _ "[]"]
      hw_write_def Let_def)

end
