(* ===== verification/Aggregated_Hashes.thy ===== *)
theory Aggregated_Hashes
  imports Data_Hash
begin

text \<open>
  The aggregated hash of \<open>xet_core_structures/src/merklehash/aggregated_hashes.rs\<close>: a list of
  (hash, size) nodes is cut into groups at hash-dependent points, each group is hashed into one
  parent node, and the pass is repeated until one node is left. \<open>promote_groups\<close> is one pass
  written as a plain recursion; \<open>merge_pass\<close> is the in-place pass of the code, and the two are
  shown equal.
\<close>

type_synonym node = "merkle_hash \<times> u64"

definition AGGREGATED_HASHES_MEAN_TREE_BRANCHING_FACTOR :: nat where
  "AGGREGATED_HASHES_MEAN_TREE_BRANCHING_FACTOR = 4"

definition MIN_GROUP_SIZE :: nat where
  "MIN_GROUP_SIZE = 2"

definition MAX_GROUP_SIZE :: nat where
  "MAX_GROUP_SIZE = 2 * AGGREGATED_HASHES_MEAN_TREE_BRANCHING_FACTOR + 1"

lemmas group_consts =
  AGGREGATED_HASHES_MEAN_TREE_BRANCHING_FACTOR_def MIN_GROUP_SIZE_def MAX_GROUP_SIZE_def

definition is_natural_cut :: "merkle_hash \<Rightarrow> bool" where
  "is_natural_cut h \<longleftrightarrow> rem_hash h (of_nat AGGREGATED_HASHES_MEAN_TREE_BRANCHING_FACTOR) = 0"

abbreviation nat_cut :: "node \<Rightarrow> bool" where
  "nat_cut n \<equiv> is_natural_cut (fst n)"

definition next_merge_cut :: "node list \<Rightarrow> nat" where
  "next_merge_cut hashes =
     (if length hashes \<le> 2 then length hashes
      else
        let end = min (2 * AGGREGATED_HASHES_MEAN_TREE_BRANCHING_FACTOR + 1) (length hashes) in
        case find (\<lambda>i. rem_hash (fst (hashes ! i))
                         (of_nat AGGREGATED_HASHES_MEAN_TREE_BRANCHING_FACTOR) = 0) [2..<end] of
          Some i \<Rightarrow> i + 1
        | None \<Rightarrow> end)"

section \<open>The text that is hashed\<close>

definition HEX_DIGITS :: bytes where
  "HEX_DIGITS = [48, 49, 50, 51, 52, 53, 54, 55, 56, 57, 97, 98, 99, 100, 101, 102]"

text \<open>The writers append to the part of the stack buffer already filled, \<open>buf[..pos]\<close>.\<close>

definition write_hex_u64 :: "bytes \<Rightarrow> u64 \<Rightarrow> bytes" where
  "write_hex_u64 buf val =
     buf @ map (\<lambda>sh. HEX_DIGITS ! unat (drop_bit sh val AND 0xF))
       [60, 56, 52, 48, 44, 40, 36, 32, 28, 24, 20, 16, 12, 8, 4, 0]"

text \<open>The loop that fills \<open>digits[dpos..]\<close> from the right; \<open>acc\<close> is the part filled.\<close>

function dec_loop :: "u64 \<Rightarrow> bytes \<Rightarrow> bytes" where
  "dec_loop v acc = (if 0 < v then dec_loop (v div 10) ((48 + ucast (v mod 10)) # acc) else acc)"
  by pat_completeness auto
termination
  by (relation "measure (\<lambda>(v, acc). unat v)")
    (auto simp: word_less_nat_alt unat_div)

declare dec_loop.simps [simp del]

definition write_decimal_u64 :: "bytes \<Rightarrow> u64 \<Rightarrow> bytes" where
  "write_decimal_u64 buf val = (if val = 0 then buf @ [48] else buf @ dec_loop val [])"

definition MAX_MERGE_BUF_SIZE :: nat where
  "MAX_MERGE_BUF_SIZE = (2 * AGGREGATED_HASHES_MEAN_TREE_BRANCHING_FACTOR + 1) * 88"

definition write_hash_entry :: "bytes \<Rightarrow> u64 \<Rightarrow> merkle_hash \<Rightarrow> u64 \<Rightarrow> bytes \<times> u64" where
  "write_hash_entry buf total_len h s =
     (let buf = write_hex_u64 buf (h0 h);
          buf = write_hex_u64 buf (h1 h);
          buf = write_hex_u64 buf (h2 h);
          buf = write_hex_u64 buf (h3 h);
          buf = buf @ [32, 58, 32];
          buf = write_decimal_u64 buf s;
          buf = buf @ [10]
      in (buf, total_len + s))"

definition merged_hash_of_sequence :: "keyed_hash \<Rightarrow> node list \<Rightarrow> node" where
  "merged_hash_of_sequence kh hash =
     (let (buf, total_len) =
        foldl (\<lambda>(buf, total_len) (h, s). write_hash_entry buf total_len h s) ([], 0) hash
      in (compute_internal_node_hash kh buf, total_len))"

section \<open>Cut points\<close>

lemma next_merge_cut_short: "length xs \<le> 2 \<Longrightarrow> next_merge_cut xs = length xs"
  by (simp add: next_merge_cut_def)

text \<open>The two ways a cut is made on three nodes or more: at the first natural cut from index 2 on,
  or, when there is none among the first nine, at nine or at the end.\<close>

lemma next_merge_cut_natural:
  assumes "2 \<le> i" "i < 9" "i < length xs" "nat_cut (xs ! i)"
    and "\<forall>j. 2 \<le> j \<and> j < i \<longrightarrow> \<not> nat_cut (xs ! j)"
  shows "next_merge_cut xs = Suc i"
proof -
  have "find (\<lambda>i. nat_cut (xs ! i)) [2..<min 9 (length xs)] = Some i"
    using assms by (auto simp: find_Some_iff_first)
  with assms(1,3) show ?thesis
    by (simp add: next_merge_cut_def is_natural_cut_def group_consts)
qed

lemma next_merge_cut_forced:
  assumes "2 < length xs" and "\<forall>j. 2 \<le> j \<and> j < 9 \<and> j < length xs \<longrightarrow> \<not> nat_cut (xs ! j)"
  shows "next_merge_cut xs = min 9 (length xs)"
proof -
  have "find (\<lambda>i. nat_cut (xs ! i)) [2..<min 9 (length xs)] = None"
    using assms by (auto simp: find_None_iff_upt)
  with assms(1) show ?thesis
    by (simp add: next_merge_cut_def is_natural_cut_def group_consts)
qed

lemma next_merge_cut_cases:
  obtains (short) "length xs \<le> 2" "next_merge_cut xs = length xs"
  | (natural) i where "2 \<le> i" "i < 9" "i < length xs" "nat_cut (xs ! i)"
      "\<forall>j. 2 \<le> j \<and> j < i \<longrightarrow> \<not> nat_cut (xs ! j)" "next_merge_cut xs = Suc i"
  | (forced) "2 < length xs" "\<forall>j. 2 \<le> j \<and> j < 9 \<and> j < length xs \<longrightarrow> \<not> nat_cut (xs ! j)"
      "next_merge_cut xs = min 9 (length xs)"
proof (cases "length xs \<le> 2")
  case True
  then show ?thesis using next_merge_cut_short short by blast
next
  case False
  show ?thesis
  proof (cases "\<exists>i. 2 \<le> i \<and> i < 9 \<and> i < length xs \<and> nat_cut (xs ! i)")
    case True
    let ?P = "\<lambda>i. 2 \<le> i \<and> i < 9 \<and> i < length xs \<and> nat_cut (xs ! i)"
    let ?i = "LEAST i. ?P i"
    have i: "?P ?i" using True by (rule LeastI_ex)
    have "\<forall>j. 2 \<le> j \<and> j < ?i \<longrightarrow> \<not> nat_cut (xs ! j)"
    proof (intro allI impI)
      fix j assume j: "2 \<le> j \<and> j < ?i"
      then have "\<not> ?P j" by (blast dest: not_less_Least)
      with i j show "\<not> nat_cut (xs ! j)" by linarith
    qed
    with i show ?thesis using natural next_merge_cut_natural by blast
  next
    case no: False
    with False show ?thesis using forced next_merge_cut_forced by auto
  qed
qed

lemma next_merge_cut_pos: "xs \<noteq> [] \<Longrightarrow> 0 < next_merge_cut xs"
  by (cases xs rule: next_merge_cut_cases) auto

lemma next_merge_cut_le_length: "next_merge_cut xs \<le> length xs"
  by (cases xs rule: next_merge_cut_cases) auto

lemma next_merge_cut_le_max: "next_merge_cut xs \<le> MAX_GROUP_SIZE"
  by (cases xs rule: next_merge_cut_cases) (auto simp: group_consts)

lemma next_merge_cut_ge: "2 < length xs \<Longrightarrow> 2 < next_merge_cut xs"
  by (cases xs rule: next_merge_cut_cases) auto

section \<open>Passes\<close>

text \<open>One pass as a recursion on the list (the loop of \<open>split_and_promote\<close> in
  \<open>merkle_hash_subtree.rs\<close>).\<close>

function promote_groups :: "keyed_hash \<Rightarrow> node list \<Rightarrow> node list" where
  "promote_groups kh mergeable =
     (if mergeable = [] then []
      else let cut_len = next_merge_cut mergeable in
           merged_hash_of_sequence kh (take cut_len mergeable)
             # promote_groups kh (drop cut_len mergeable))"
  by pat_completeness auto
termination
  by (relation "measure (\<lambda>(kh, xs). length xs)") (auto simp: next_merge_cut_pos)

declare promote_groups.simps [simp del]

lemma promote_groups_Nil [simp]: "promote_groups kh [] = []"
  by (simp add: promote_groups.simps)

lemma promote_groups_step:
  "xs \<noteq> [] \<Longrightarrow> promote_groups kh xs =
     merged_hash_of_sequence kh (take (next_merge_cut xs) xs)
       # promote_groups kh (drop (next_merge_cut xs) xs)"
  by (simp add: promote_groups.simps [of kh xs] Let_def)

lemma promote_groups_eq_Nil [simp]: "promote_groups kh xs = [] \<longleftrightarrow> xs = []"
  by (metis list.distinct(1) promote_groups_Nil promote_groups_step)

lemma length_promote_groups_le: "length (promote_groups kh xs) \<le> length xs"
proof (induction kh xs rule: promote_groups.induct)
  case (1 kh xs)
  show ?case
  proof (cases "xs = []")
    case False
    have "length (promote_groups kh (drop (next_merge_cut xs) xs)) \<le> length xs - next_merge_cut xs"
      using 1 [OF False] by simp
    moreover have "0 < next_merge_cut xs" using False by (rule next_merge_cut_pos)
    moreover have "next_merge_cut xs \<le> length xs" by (rule next_merge_cut_le_length)
    ultimately show ?thesis by (simp add: promote_groups_step [OF False])
  qed simp
qed

lemma length_promote_groups_less:
  assumes "1 < length xs"
  shows "length (promote_groups kh xs) < length xs"
proof -
  have ne: "xs \<noteq> []" using assms by auto
  have "1 < next_merge_cut xs"
    using assms next_merge_cut_short [of xs] next_merge_cut_ge [of xs] by linarith
  moreover have "next_merge_cut xs \<le> length xs" by (rule next_merge_cut_le_length)
  moreover have "length (promote_groups kh (drop (next_merge_cut xs) xs)) \<le> length xs - next_merge_cut xs"
    using length_promote_groups_le by (metis length_drop)
  ultimately show ?thesis by (simp add: promote_groups_step [OF ne])
qed

text \<open>The in-place pass: groups are read from \<open>hv[read_idx..]\<close> and their parents are written to
  \<open>hv[write_idx]\<close> of the same vector, which is then cut to \<open>write_idx\<close> elements.\<close>

function merge_pass :: "keyed_hash \<Rightarrow> node list \<Rightarrow> nat \<Rightarrow> nat \<Rightarrow> node list" where
  "merge_pass kh hv write_idx read_idx =
     (if read_idx < length hv then
        let next_cut = read_idx + next_merge_cut (drop read_idx hv);
            hv = hv[write_idx := merged_hash_of_sequence kh (slice hv read_idx next_cut)]
        in merge_pass kh hv (write_idx + 1) next_cut
      else take write_idx hv)"
  by pat_completeness auto
termination
proof (relation "measure (\<lambda>(kh, hv, w, r). length hv - r)")
  show "wf (measure (\<lambda>(kh, hv, w, r). length hv - r))" by simp
next
  fix kh :: keyed_hash and hv hv' :: "node list" and w r next_cut
  assume "r < length hv" "next_cut = r + next_merge_cut (drop r hv)"
    "hv' = hv[w := merged_hash_of_sequence kh (slice hv r next_cut)]"
  moreover from this have "0 < next_merge_cut (drop r hv)"
    by (intro next_merge_cut_pos) simp
  ultimately show "((kh, hv', w + 1, next_cut), kh, hv, w, r) \<in> measure (\<lambda>(kh, hv, w, r). length hv - r)"
    by simp
qed

declare merge_pass.simps [simp del]

lemma merge_pass_eq:
  "w \<le> r \<Longrightarrow> r \<le> length hv \<Longrightarrow> merge_pass kh hv w r = take w hv @ promote_groups kh (drop r hv)"
proof (induction kh hv w r rule: merge_pass.induct)
  case (1 kh hv w r)
  show ?case
  proof (cases "r < length hv")
    case False
    then have "merge_pass kh hv w r = take w hv"
      by (subst merge_pass.simps) simp
    with "1.prems" False show ?thesis by simp
  next
    case True
    let ?n = "next_merge_cut (drop r hv)"
    let ?m = "merged_hash_of_sequence kh (slice hv r (r + ?n))"
    have n: "0 < ?n" "?n \<le> length hv - r"
      using True next_merge_cut_pos [of "drop r hv"] next_merge_cut_le_length [of "drop r hv"]
      by simp_all
    have "merge_pass kh hv w r = merge_pass kh (hv[w := ?m]) (w + 1) (r + ?n)"
      using True by (simp add: merge_pass.simps [of kh hv w r] Let_def)
    also have "\<dots> = take (w + 1) (hv[w := ?m]) @ promote_groups kh (drop (r + ?n) (hv[w := ?m]))"
      using "1.IH" [OF True refl refl] "1.prems" n True by simp
    also have "take (w + 1) (hv[w := ?m]) = take w hv @ [?m]"
      using "1.prems" True by (simp add: take_Suc_conv_app_nth)
    also have "drop (r + ?n) (hv[w := ?m]) = drop ?n (drop r hv)"
      using "1.prems" n by (simp add: add.commute)
    finally show ?thesis
      using True by (simp add: promote_groups_step [of "drop r hv"] slice_def)
  qed
qed

section \<open>The aggregated hash\<close>

function agg_loop :: "keyed_hash \<Rightarrow> node list \<Rightarrow> node list" where
  "agg_loop kh hv = (if 1 < length hv then agg_loop kh (merge_pass kh hv 0 0) else hv)"
  by pat_completeness auto
termination
  by (relation "measure (\<lambda>(kh, hv). length hv)")
    (auto simp: merge_pass_eq length_promote_groups_less)

declare agg_loop.simps [simp del]

definition aggregated_node_hash :: "keyed_hash \<Rightarrow> node list \<Rightarrow> merkle_hash" where
  "aggregated_node_hash kh chunks =
     (if chunks = [] then default_hash else fst (agg_loop kh chunks ! 0))"

definition xorb_hash :: "keyed_hash \<Rightarrow> node list \<Rightarrow> merkle_hash" where
  "xorb_hash kh chunks = (if chunks = [] then default_hash else aggregated_node_hash kh chunks)"

definition file_hash_with_salt :: "keyed_hash \<Rightarrow> node list \<Rightarrow> bytes \<Rightarrow> merkle_hash" where
  "file_hash_with_salt kh chunks salt =
     (if chunks = [] then default_hash
      else hmac kh (aggregated_node_hash kh chunks) (from_bytes salt))"

definition file_hash :: "keyed_hash \<Rightarrow> node list \<Rightarrow> merkle_hash" where
  "file_hash kh chunks = file_hash_with_salt kh chunks (replicate 32 0)"

lemma agg_loop_single: "length xs \<le> 1 \<Longrightarrow> agg_loop kh xs = xs"
  by (simp add: agg_loop.simps [of kh xs])

lemma agg_loop_step: "1 < length xs \<Longrightarrow> agg_loop kh xs = agg_loop kh (promote_groups kh xs)"
  by (simp add: agg_loop.simps [of kh xs] merge_pass_eq)

lemma length_agg_loop: "xs \<noteq> [] \<Longrightarrow> length (agg_loop kh xs) = 1"
proof (induction kh xs rule: agg_loop.induct)
  case (1 kh xs)
  show ?case
  proof (cases "1 < length xs")
    case True
    then show ?thesis
      using 1 by (simp add: agg_loop_step merge_pass_eq)
  next
    case False
    then have "length xs = 1" using "1.prems" by (cases xs) auto
    then show ?thesis by (simp add: agg_loop_single)
  qed
qed

end
