(* ===== verification/Stable_Cuts.thy ===== *)
theory Stable_Cuts
  imports Aggregated_Hashes
begin

text \<open>
  Stable cut points of \<open>xet_core_structures/src/merklehash/merkle_hash_subtree.rs\<close>:
  \<open>find_stable_start\<close> and \<open>find_stable_end\<close> as the code has them, a specification of what they
  find (the first and the last of the positions \<open>stable\<close>), and the fact they exist for: a list
  that ends in two natural cuts at a valid gap ends at a group boundary whatever precedes and
  follows it, so a pass over the concatenation is the concatenation of the passes.
\<close>

definition next_cut_unbounded :: "node list \<Rightarrow> nat option" where
  "next_cut_unbounded hashes = find (\<lambda>i. nat_cut (hashes ! i)) [0..<length hashes]"

definition prev_cut_unbounded :: "node list \<Rightarrow> nat option" where
  "prev_cut_unbounded hashes = find (\<lambda>i. nat_cut (hashes ! i)) (rev [0..<length hashes])"

definition valid_gap :: "nat \<Rightarrow> bool" where
  "valid_gap gap \<longleftrightarrow> MIN_GROUP_SIZE < gap \<and> gap < MAX_GROUP_SIZE - 1"

lemma valid_gap_iff: "valid_gap g \<longleftrightarrow> 3 \<le> g \<and> g \<le> 7"
  by (auto simp: valid_gap_def group_consts)

text \<open>The guard chain of the two scans: both neighbours are known and both gaps are valid.\<close>

definition gaps_valid :: "nat option \<Rightarrow> nat option \<Rightarrow> (nat \<Rightarrow> nat) \<Rightarrow> (nat \<Rightarrow> nat \<Rightarrow> nat) \<Rightarrow> bool" where
  "gaps_valid c cc gap1 gap2 =
     (case c of
        None \<Rightarrow> False
      | Some pc \<Rightarrow> valid_gap (gap1 pc) \<and> (case cc of None \<Rightarrow> False | Some ppc \<Rightarrow> valid_gap (gap2 pc ppc)))"

function fss_loop :: "node list \<Rightarrow> nat option \<Rightarrow> nat option \<Rightarrow> nat \<Rightarrow> nat option" where
  "fss_loop nodes prev_prev_cut prev_cut pos =
     (if pos < length nodes then
        (case next_cut_unbounded (drop pos nodes) of
           Some offset \<Rightarrow>
             let cut_pos = pos + offset in
             if gaps_valid prev_cut prev_prev_cut (\<lambda>pc. cut_pos - pc) (\<lambda>pc ppc. pc - ppc)
             then Some (the prev_cut + 1)
             else fss_loop nodes prev_cut (Some cut_pos) (cut_pos + 1)
         | None \<Rightarrow> None)
      else None)"
  by pat_completeness auto
termination
  by (relation "measure (\<lambda>(nodes, pp, p, pos). length nodes - pos)") auto

definition find_stable_start :: "node list \<Rightarrow> nat option" where
  "find_stable_start nodes =
     (if length nodes < MIN_GROUP_SIZE + 1 then None else fss_loop nodes None None 0)"

function fse_loop :: "node list \<Rightarrow> nat option \<Rightarrow> nat option \<Rightarrow> nat \<Rightarrow> nat option" where
  "fse_loop nodes next_next_cut next_cut pos =
     (if 0 < pos then
        (case prev_cut_unbounded (take pos nodes) of
           Some cut_pos \<Rightarrow>
             if gaps_valid next_cut next_next_cut (\<lambda>nc. nc - cut_pos) (\<lambda>nc nnc. nnc - nc)
             then Some (the next_cut + 1)
             else fse_loop nodes next_cut (Some cut_pos) cut_pos
         | None \<Rightarrow> None)
      else None)"
  by pat_completeness auto
termination
proof (relation "measure (\<lambda>(nodes, nn, n, pos). pos)")
  show "wf (measure (\<lambda>(nodes, nn, n, pos). pos))" by simp
next
  fix nodes :: "node list" and nn n :: "nat option" and pos cut_pos :: nat
  assume "prev_cut_unbounded (take pos nodes) = Some cut_pos"
  then have "cut_pos < pos"
    by (auto simp: prev_cut_unbounded_def find_rev_upt_Some)
  then show "((nodes, n, Some cut_pos, cut_pos), nodes, nn, n, pos) \<in> measure (\<lambda>(nodes, nn, n, pos). pos)"
    by simp
qed

definition find_stable_end :: "node list \<Rightarrow> nat option" where
  "find_stable_end nodes =
     (if length nodes < MIN_GROUP_SIZE + 1 then None else fse_loop nodes None None (length nodes))"

declare fss_loop.simps [simp del]
declare fse_loop.simps [simp del]

lemma fss_loop_step:
  assumes "pos < length nodes" and "next_cut_unbounded (drop pos nodes) = Some off"
  shows "fss_loop nodes pp p pos =
    (if gaps_valid p pp (\<lambda>pc. pos + off - pc) (\<lambda>pc ppc. pc - ppc) then Some (the p + 1)
     else fss_loop nodes p (Some (pos + off)) (pos + off + 1))"
  using assms by (simp add: fss_loop.simps [of nodes pp p pos] Let_def)

lemma fse_loop_step:
  assumes "0 < pos" and "prev_cut_unbounded (take pos nodes) = Some c"
  shows "fse_loop nodes nn n pos =
    (if gaps_valid n nn (\<lambda>nc. nc - c) (\<lambda>nc nnc. nnc - nc) then Some (the n + 1)
     else fse_loop nodes n (Some c) c)"
  using assms by (simp add: fse_loop.simps [of nodes nn n pos])

section \<open>What the scans find\<close>

text \<open>Two consecutive natural cuts, and a cut with a valid gap on both sides.\<close>

definition consec :: "node list \<Rightarrow> nat \<Rightarrow> nat \<Rightarrow> bool" where
  "consec xs a b \<longleftrightarrow> a < b \<and> b < length xs \<and> nat_cut (xs ! a) \<and> nat_cut (xs ! b) \<and>
     (\<forall>j. a < j \<and> j < b \<longrightarrow> \<not> nat_cut (xs ! j))"

definition stable3 :: "node list \<Rightarrow> nat \<Rightarrow> nat \<Rightarrow> nat \<Rightarrow> bool" where
  "stable3 xs a b c \<longleftrightarrow> consec xs a b \<and> consec xs b c \<and> valid_gap (b - a) \<and> valid_gap (c - b)"

definition stable :: "node list \<Rightarrow> nat \<Rightarrow> bool" where
  "stable xs b \<longleftrightarrow> (\<exists>a c. stable3 xs a b c)"

definition last_cut :: "node list \<Rightarrow> nat \<Rightarrow> nat option \<Rightarrow> bool" where
  "last_cut xs pos p =
     (case p of
        None \<Rightarrow> \<forall>j<pos. \<not> nat_cut (xs ! j)
      | Some i \<Rightarrow> i < pos \<and> nat_cut (xs ! i) \<and> (\<forall>j. i < j \<and> j < pos \<longrightarrow> \<not> nat_cut (xs ! j)))"

definition first_cut :: "node list \<Rightarrow> nat \<Rightarrow> nat option \<Rightarrow> bool" where
  "first_cut xs pos p =
     (case p of
        None \<Rightarrow> \<forall>j. pos \<le> j \<and> j < length xs \<longrightarrow> \<not> nat_cut (xs ! j)
      | Some i \<Rightarrow> pos \<le> i \<and> i < length xs \<and> nat_cut (xs ! i) \<and>
                  (\<forall>j. pos \<le> j \<and> j < i \<longrightarrow> \<not> nat_cut (xs ! j)))"

lemma consec_less: "consec xs a b \<Longrightarrow> a < b \<and> b < length xs"
  by (simp add: consec_def)

lemma stable3_cuts:
  assumes "stable3 xs a b c"
  shows "consec xs a b" and "consec xs b c" and "a < b" and "b < c" and "c < length xs"
    and "nat_cut (xs ! a)" and "nat_cut (xs ! b)" and "nat_cut (xs ! c)"
  using assms by (simp_all add: stable3_def consec_def)

lemma consec_unique_right: "consec xs a b \<Longrightarrow> consec xs a b' \<Longrightarrow> b = b'"
  unfolding consec_def by (metis linorder_neqE_nat)

lemma consec_unique_left: "consec xs a b \<Longrightarrow> consec xs a' b \<Longrightarrow> a = a'"
  unfolding consec_def by (metis linorder_neqE_nat)

lemma next_cut_unbounded_drop:
  assumes "pos \<le> length xs"
  shows "next_cut_unbounded (drop pos xs) = Some k \<longleftrightarrow> first_cut xs pos (Some (pos + k))"
    and "next_cut_unbounded (drop pos xs) = None \<longleftrightarrow> first_cut xs pos None"
proof -
  have shift: "(\<forall>j<k. P (pos + j)) \<longleftrightarrow> (\<forall>j. pos \<le> j \<and> j < pos + k \<longrightarrow> P j)" for k P
    by (metis add.commute le_add1 le_add_diff_inverse less_diff_conv2 nat_add_left_cancel_less)
  show "next_cut_unbounded (drop pos xs) = Some k \<longleftrightarrow> first_cut xs pos (Some (pos + k))"
    using assms shift [of k "\<lambda>j. \<not> nat_cut (xs ! j)"]
    by (auto simp: next_cut_unbounded_def find_Some_iff_first first_cut_def)
  show "next_cut_unbounded (drop pos xs) = None \<longleftrightarrow> first_cut xs pos None"
    using assms shift [of "length xs - pos" "\<lambda>j. \<not> nat_cut (xs ! j)"]
    by (auto simp: next_cut_unbounded_def find_None_iff_upt first_cut_def)
qed

lemma prev_cut_unbounded_take:
  assumes "pos \<le> length xs"
  shows "prev_cut_unbounded (take pos xs) = p \<longleftrightarrow> last_cut xs pos p"
  using assms
  by (cases p) (auto simp: prev_cut_unbounded_def find_rev_upt_None find_rev_upt_Some last_cut_def)

lemma last_cut_consec:
  "last_cut xs b (Some a) \<Longrightarrow> b < length xs \<Longrightarrow> nat_cut (xs ! b) \<Longrightarrow> consec xs a b"
  by (auto simp: last_cut_def consec_def)

lemma first_cut_consec:
  "first_cut xs (Suc a) (Some b) \<Longrightarrow> nat_cut (xs ! a) \<Longrightarrow> consec xs a b"
  by (auto simp: first_cut_def consec_def)

lemma last_cut_extend:
  assumes p: "last_cut xs pos p" and c: "first_cut xs pos (Some c)"
  shows "last_cut xs c p"
proof -
  have "\<not> nat_cut (xs ! j)" if "j < c" "\<not> j < pos" for j
    using c that by (simp add: first_cut_def)
  moreover have "pos \<le> c" using c by (simp add: first_cut_def)
  ultimately show ?thesis
    using p by (cases p) (simp_all add: last_cut_def, blast+)
qed

lemma first_cut_extend:
  assumes p: "first_cut xs pos p" and c: "last_cut xs pos (Some c)"
  shows "first_cut xs (Suc c) p"
proof -
  have "\<not> nat_cut (xs ! j)" if "Suc c \<le> j" "\<not> pos \<le> j" for j
    using c that by (simp add: last_cut_def)
  moreover have "Suc c \<le> pos" using c by (simp add: last_cut_def)
  ultimately show ?thesis
    using p by (cases p) (simp_all add: first_cut_def, blast+)
qed

lemma fss_loop_correct:
  assumes "last_cut xs pos p" and "\<forall>i. p = Some i \<longrightarrow> last_cut xs i pp" and "p = None \<longrightarrow> pp = None"
    and "pos \<le> length xs" and "\<forall>a b c. stable3 xs a b c \<longrightarrow> pos \<le> c"
  shows "case fss_loop xs pp p pos of
           None \<Rightarrow> \<forall>b. \<not> stable xs b
         | Some k \<Rightarrow> \<exists>b. k = Suc b \<and> stable xs b \<and> (\<forall>b'. stable xs b' \<longrightarrow> b \<le> b')"
  using assms
proof (induction xs pp p pos rule: fss_loop.induct)
  case (1 xs pp p pos)
  show ?case
  proof (cases "pos < length xs \<and> next_cut_unbounded (drop pos xs) \<noteq> None")
    case False
    then have "first_cut xs pos None"
      using "1.prems"(4) next_cut_unbounded_drop(2) by (auto simp: first_cut_def)
    then have "\<not> stable3 xs a b c" for a b c
      using "1.prems"(5) stable3_cuts(5,8) by (simp add: first_cut_def) blast
    moreover have "fss_loop xs pp p pos = None"
      using False by (auto simp: fss_loop.simps [of xs pp p pos])
    ultimately show ?thesis by (simp add: stable_def)
  next
    case True
    then obtain off where off: "next_cut_unbounded (drop pos xs) = Some off" and pos: "pos < length xs"
      by auto
    let ?c = "pos + off"
    have fc: "first_cut xs pos (Some ?c)"
      using off "1.prems"(4) next_cut_unbounded_drop(1) by blast
    then have c: "?c < length xs" "nat_cut (xs ! ?c)" by (auto simp: first_cut_def)
    have lc: "last_cut xs ?c p"
      using "1.prems"(1) fc by (rule last_cut_extend)
    show ?thesis
    proof (cases "gaps_valid p pp (\<lambda>pc. ?c - pc) (\<lambda>pc ppc. pc - ppc)")
      case True
      then obtain b a where ba: "p = Some b" "pp = Some a" "valid_gap (?c - b)" "valid_gap (b - a)"
        by (auto simp: gaps_valid_def split: option.splits)
      have cb: "consec xs b ?c" using lc c ba(1) by (simp add: last_cut_consec)
      then have "nat_cut (xs ! b)" "b < length xs" by (auto simp: consec_def)
      then have "consec xs a b" using "1.prems"(2) ba(1,2) by (simp add: last_cut_consec)
      with cb ba have "stable xs b" by (auto simp: stable_def stable3_def)
      moreover have "b \<le> b'" if "stable xs b'" for b'
      proof (rule ccontr)
        assume "\<not> b \<le> b'"
        from that obtain a' c' where s: "stable3 xs a' b' c'" by (auto simp: stable_def)
        then have "pos \<le> c'" "consec xs b' c'" using "1.prems"(5) by (auto simp: stable3_def)
        moreover have "b < pos" "nat_cut (xs ! b)"
          using "1.prems"(1) ba(1) by (auto simp: last_cut_def)
        ultimately show False using \<open>\<not> b \<le> b'\<close> by (auto simp: consec_def)
      qed
      moreover have "fss_loop xs pp p pos = Some (Suc b)"
        using True ba(1) fss_loop_step [OF pos off, of pp p] by simp
      ultimately show ?thesis by auto
    next
      case False
      have rec: "fss_loop xs pp p pos = fss_loop xs p (Some ?c) (?c + 1)"
        using False fss_loop_step [OF pos off, of pp p] by simp
      have "Suc ?c \<le> c'" if s: "stable3 xs a' b' c'" for a' b' c'
      proof (rule ccontr)
        assume "\<not> Suc ?c \<le> c'"
        moreover have "pos \<le> c'" "nat_cut (xs ! c')"
          using s "1.prems"(5) by (auto simp: stable3_def consec_def)
        ultimately have c': "c' = ?c" using fc by (auto simp: first_cut_def not_le less_Suc_eq)
        then have "last_cut xs ?c (Some b')"
          using s by (auto simp: stable3_def consec_def last_cut_def)
        then have p: "p = Some b'"
          using lc prev_cut_unbounded_take c(1) by (metis less_imp_le)
        have "last_cut xs b' (Some a')"
          using s by (auto simp: stable3_def consec_def last_cut_def)
        then have "pp = Some a'"
          using "1.prems"(2) p s prev_cut_unbounded_take
          by (metis consec_less less_imp_le stable3_def)
        with p False s c' show False by (auto simp: gaps_valid_def stable3_def)
      qed
      then have "\<forall>a b c'. stable3 xs a b c' \<longrightarrow> ?c + 1 \<le> c'" by simp
      moreover have "last_cut xs (?c + 1) (Some ?c)" using c by (auto simp: last_cut_def)
      ultimately show ?thesis
        using "1.IH" [OF pos off refl False] lc c(1) rec by simp
    qed
  qed
qed

lemma fse_loop_correct:
  assumes "first_cut xs pos p" and "\<forall>i. p = Some i \<longrightarrow> first_cut xs (Suc i) pp" and "p = None \<longrightarrow> pp = None"
    and "pos \<le> length xs" and "\<forall>a b c. stable3 xs a b c \<longrightarrow> a < pos"
  shows "case fse_loop xs pp p pos of
           None \<Rightarrow> \<forall>b. \<not> stable xs b
         | Some k \<Rightarrow> \<exists>b. k = Suc b \<and> stable xs b \<and> (\<forall>b'. stable xs b' \<longrightarrow> b' \<le> b)"
  using assms
proof (induction xs pp p pos rule: fse_loop.induct)
  case (1 xs pp p pos)
  show ?case
  proof (cases "0 < pos \<and> prev_cut_unbounded (take pos xs) \<noteq> None")
    case False
    then have "last_cut xs pos None"
      using "1.prems"(4) prev_cut_unbounded_take by (auto simp: last_cut_def)
    then have "\<not> stable3 xs a b c" for a b c
      using "1.prems"(5) stable3_cuts(6) by (simp add: last_cut_def) blast
    moreover have "fse_loop xs pp p pos = None"
      using False by (auto simp: fse_loop.simps [of xs pp p pos])
    ultimately show ?thesis by (simp add: stable_def)
  next
    case True
    then obtain c where off: "prev_cut_unbounded (take pos xs) = Some c" and pos: "0 < pos"
      by auto
    have lc: "last_cut xs pos (Some c)"
      using off "1.prems"(4) prev_cut_unbounded_take by blast
    then have c: "c < length xs" "nat_cut (xs ! c)" "c < pos"
      using "1.prems"(4) by (auto simp: last_cut_def)
    have fc: "first_cut xs (Suc c) p"
      using "1.prems"(1) lc by (rule first_cut_extend)
    show ?thesis
    proof (cases "gaps_valid p pp (\<lambda>nc. nc - c) (\<lambda>nc nnc. nnc - nc)")
      case True
      then obtain b d where bd: "p = Some b" "pp = Some d" "valid_gap (b - c)" "valid_gap (d - b)"
        by (auto simp: gaps_valid_def split: option.splits)
      have cb: "consec xs c b" using fc c bd(1) by (simp add: first_cut_consec)
      then have "nat_cut (xs ! b)" by (auto simp: consec_def)
      then have "consec xs b d" using "1.prems"(2) bd(1,2) by (simp add: first_cut_consec)
      with cb bd have "stable xs b" by (auto simp: stable_def stable3_def)
      moreover have "b' \<le> b" if "stable xs b'" for b'
      proof (rule ccontr)
        assume "\<not> b' \<le> b"
        from that obtain a' c' where s: "stable3 xs a' b' c'" by (auto simp: stable_def)
        then have "a' < pos" "consec xs a' b'" using "1.prems"(5) by (auto simp: stable3_def)
        moreover have "pos \<le> b" "nat_cut (xs ! b)"
          using "1.prems"(1) bd(1) by (auto simp: first_cut_def)
        ultimately show False using \<open>\<not> b' \<le> b\<close> by (auto simp: consec_def)
      qed
      moreover have "fse_loop xs pp p pos = Some (Suc b)"
        using True bd(1) fse_loop_step [OF pos off, of pp p] by simp
      ultimately show ?thesis by auto
    next
      case False
      have rec: "fse_loop xs pp p pos = fse_loop xs p (Some c) c"
        using False fse_loop_step [OF pos off, of pp p] by simp
      have "a' < c" if s: "stable3 xs a' b' c'" for a' b' c'
      proof (rule ccontr)
        assume "\<not> a' < c"
        moreover have "a' < pos" "nat_cut (xs ! a')"
          using s "1.prems"(5) by (auto simp: stable3_def consec_def)
        ultimately have a': "a' = c" using lc by (auto simp: last_cut_def not_less le_less)
        have ab: "consec xs c b'" and bc: "consec xs b' c'"
          using s a' by (auto simp: stable3_def)
        have p: "p = Some b'"
        proof (cases p)
          case None
          with fc ab show ?thesis by (auto simp: first_cut_def consec_def)
        next
          case (Some i)
          with fc c have "consec xs c i" by (simp add: first_cut_consec)
          with ab Some show ?thesis by (auto dest: consec_unique_right)
        qed
        have pp: "pp = Some c'"
        proof (cases pp)
          case None
          with "1.prems"(2) p bc show ?thesis by (auto simp: first_cut_def consec_def)
        next
          case (Some i)
          have "nat_cut (xs ! b')" using ab by (simp add: consec_def)
          with "1.prems"(2) p Some have "consec xs b' i" by (simp add: first_cut_consec)
          with bc Some show ?thesis by (auto dest: consec_unique_right)
        qed
        with p False s a' show False by (auto simp: gaps_valid_def stable3_def)
      qed
      then have "\<forall>a b c'. stable3 xs a b c' \<longrightarrow> a < c" by simp
      moreover have "first_cut xs c (Some c)" using c by (auto simp: first_cut_def)
      ultimately show ?thesis
        using "1.IH" [OF pos off False] fc c(1) rec by simp
    qed
  qed
qed

lemma stable_length: "stable xs b \<Longrightarrow> 7 \<le> length xs \<and> b < length xs"
  by (auto simp: stable_def stable3_def consec_def valid_gap_iff)

lemma find_stable_start_spec:
  "case find_stable_start xs of
     None \<Rightarrow> \<forall>b. \<not> stable xs b
   | Some k \<Rightarrow> \<exists>b. k = Suc b \<and> stable xs b \<and> (\<forall>b'. stable xs b' \<longrightarrow> b \<le> b')"
proof (cases "length xs < 3")
  case True
  then show ?thesis
    by (auto simp: find_stable_start_def group_consts dest: stable_length)
next
  case False
  then show ?thesis
    using fss_loop_correct [of xs 0 None None]
    by (simp add: find_stable_start_def group_consts last_cut_def)
qed

lemma find_stable_end_spec:
  "case find_stable_end xs of
     None \<Rightarrow> \<forall>b. \<not> stable xs b
   | Some k \<Rightarrow> \<exists>b. k = Suc b \<and> stable xs b \<and> (\<forall>b'. stable xs b' \<longrightarrow> b' \<le> b)"
proof (cases "length xs < 3")
  case True
  then show ?thesis
    by (auto simp: find_stable_end_def group_consts dest: stable_length)
next
  case False
  have "\<forall>a b c. stable3 xs a b c \<longrightarrow> a < length xs"
    by (auto simp: stable3_def consec_def)
  moreover have "first_cut xs (length xs) None" by (auto simp: first_cut_def)
  ultimately show ?thesis
    using False fse_loop_correct [of xs "length xs" None None]
    by (simp add: find_stable_end_def group_consts)
qed

lemma find_stable_start_None: "find_stable_start xs = None \<longleftrightarrow> (\<forall>b. \<not> stable xs b)"
  using find_stable_start_spec [of xs] by (auto split: option.splits)

lemma find_stable_end_None: "find_stable_end xs = None \<longleftrightarrow> (\<forall>b. \<not> stable xs b)"
  using find_stable_end_spec [of xs] by (auto split: option.splits)

lemma find_stable_start_Some:
  "find_stable_start xs = Some k \<longleftrightarrow> (\<exists>b. k = Suc b \<and> stable xs b \<and> (\<forall>b'. stable xs b' \<longrightarrow> b \<le> b'))"
  using find_stable_start_spec [of xs] by (auto split: option.splits intro: antisym)

lemma find_stable_end_Some:
  "find_stable_end xs = Some k \<longleftrightarrow> (\<exists>b. k = Suc b \<and> stable xs b \<and> (\<forall>b'. stable xs b' \<longrightarrow> b' \<le> b))"
  using find_stable_end_spec [of xs] by (auto split: option.splits intro: antisym)

section \<open>Group boundaries that do not depend on the context\<close>

text \<open>A list that ends with two natural cuts at a valid gap; a list whose first natural cut, and only
  natural cut, is its last element, at the distance of a valid gap from a cut just before the list;
  a list whose first natural cut is at such a distance.\<close>

definition good_end :: "node list \<Rightarrow> bool" where
  "good_end W \<longleftrightarrow> (\<exists>a. consec W a (length W - 1) \<and> valid_gap (length W - 1 - a))"

definition first_end :: "node list \<Rightarrow> bool" where
  "first_end W \<longleftrightarrow> valid_gap (length W) \<and> nat_cut (W ! (length W - 1)) \<and>
     (\<forall>j<length W - 1. \<not> nat_cut (W ! j))"

definition good_begin :: "node list \<Rightarrow> bool" where
  "good_begin r \<longleftrightarrow> (\<exists>b<length r. valid_gap (Suc b) \<and> nat_cut (r ! b) \<and> (\<forall>j<b. \<not> nat_cut (r ! j)))"

lemma consec_append_shift:
  "consec (Z @ W) (length Z + a) (length Z + b) \<longleftrightarrow> consec W a b"
proof -
  have "(\<forall>j. length Z + a < j \<and> j < length Z + b \<longrightarrow> \<not> nat_cut ((Z @ W) ! j)) \<longleftrightarrow>
      (\<forall>j. a < j \<and> j < b \<longrightarrow> \<not> nat_cut (W ! j))" (is "?L \<longleftrightarrow> ?R")
  proof
    assume ?L
    show ?R
    proof (intro allI impI)
      fix j assume "a < j \<and> j < b"
      then show "\<not> nat_cut (W ! j)" using \<open>?L\<close> [rule_format, of "length Z + j"] by simp
    qed
  next
    assume ?R
    show ?L
    proof (intro allI impI)
      fix j assume j: "length Z + a < j \<and> j < length Z + b"
      then have "a < j - length Z \<and> j - length Z < b" by auto
      with \<open>?R\<close> have "\<not> nat_cut (W ! (j - length Z))" by blast
      with j show "\<not> nat_cut ((Z @ W) ! j)" by (simp add: nth_append)
    qed
  qed
  then show ?thesis by (simp add: consec_def)
qed

lemma consec_append_left: "b < length W \<Longrightarrow> consec (W @ S) a b \<longleftrightarrow> consec W a b"
  by (auto simp: consec_def nth_append)

lemma good_end_not_Nil [simp]: "\<not> good_end []"
  by (simp add: good_end_def consec_def)

lemma good_begin_not_Nil [simp]: "\<not> good_begin []"
  by (simp add: good_begin_def)

lemma good_end_length: "good_end W \<Longrightarrow> 4 \<le> length W"
  by (auto simp: good_end_def consec_def valid_gap_iff)

lemma good_begin_length: "good_begin r \<Longrightarrow> 3 \<le> length r"
  by (auto simp: good_begin_def valid_gap_iff)

lemma good_end_append [intro]: "good_end W \<Longrightarrow> good_end (Z @ W)"
proof -
  assume W: "good_end W"
  then obtain a where a: "consec W a (length W - 1)" "valid_gap (length W - 1 - a)"
    by (auto simp: good_end_def)
  have l: "length (Z @ W) - 1 = length Z + (length W - 1)" using good_end_length [OF W] by simp
  then have "consec (Z @ W) (length Z + a) (length (Z @ W) - 1)"
    using a(1) by (simp only: consec_append_shift)
  then show ?thesis using a(2) by (auto simp: good_end_def simp flip: l)
qed

lemma good_begin_append [intro]: "good_begin r \<Longrightarrow> good_begin (r @ S)"
proof -
  assume "good_begin r"
  then obtain b where "b < length r" "valid_gap (Suc b)" "nat_cut (r ! b)" "\<forall>j<b. \<not> nat_cut (r ! j)"
    by (auto simp: good_begin_def)
  then show ?thesis
    unfolding good_begin_def by (intro exI [of _ b]) (simp add: nth_append)
qed

lemma good_end_last: "good_end W \<Longrightarrow> nat_cut (W ! (length W - 1))"
  by (auto simp: good_end_def consec_def)

text \<open>What follows a cut decides alone whether it ends well.\<close>

lemma good_end_after_cutD:
  assumes W: "W \<noteq> []" "nat_cut (W ! (length W - 1))" and s: "s \<noteq> []" and ws: "good_end (W @ s)"
  shows "good_end s \<or> first_end s"
proof -
  obtain a where a: "consec (W @ s) a (length W + length s - 1)"
    "valid_gap (length W + length s - 1 - a)"
    using ws by (auto simp: good_end_def)
  show "good_end s \<or> first_end s"
  proof (cases "length W \<le> a")
    case True
    then obtain a' where a': "a = length W + a'" using le_Suc_ex by blast
    moreover have "length W + length s - 1 = length W + (length s - 1)" using s by (cases s) auto
    ultimately have "consec s a' (length s - 1)" using a(1) by (simp only: consec_append_shift)
    with a(2) a' show ?thesis by (auto simp: good_end_def)
  next
    case False
    have "\<not> a < length W - 1"
    proof
      assume "a < length W - 1"
      moreover have "length W - 1 < length W + length s - 1" using W(1) s by (cases W; cases s) auto
      ultimately have "\<not> nat_cut ((W @ s) ! (length W - 1))"
        using a(1) unfolding consec_def by blast
      with W show False by (simp add: nth_append)
    qed
    with False W have al: "a = length W - 1" by (cases W) auto
    have "\<not> nat_cut (s ! j)" if "j < length s - 1" for j
    proof -
      have "a < length W + j \<and> length W + j < length W + length s - 1"
        using al W(1) that by (cases W) auto
      then have "\<not> nat_cut ((W @ s) ! (length W + j))" using a(1) unfolding consec_def by blast
      then show ?thesis by simp
    qed
    moreover have "nat_cut (s ! (length s - 1))"
    proof -
      have "length W + length s - 1 = length W + (length s - 1)" using s by (cases s) auto
      then show ?thesis using a(1) by (simp add: consec_def)
    qed
    moreover have "length W + length s - 1 - a = length s" using al W(1) by (cases W) auto
    ultimately show ?thesis using a(2) by (simp add: first_end_def)
  qed
qed

lemma good_end_first_end:
  assumes W: "W \<noteq> []" "nat_cut (W ! (length W - 1))" and f: "first_end s"
  shows "good_end (W @ s)"
proof -
  have s: "s \<noteq> []" using f by (auto simp: first_end_def valid_gap_iff)
  then have l: "length (W @ s) - 1 = length W + (length s - 1)" by (cases s) auto
  have "consec (W @ s) (length W - 1) (length (W @ s) - 1)"
    unfolding l using W s f by (auto simp: consec_def first_end_def nth_append trans_less_add1)
  moreover have "length (W @ s) - 1 - (length W - 1) = length s" using W(1) by (cases W) auto
  ultimately show ?thesis using f unfolding good_end_def first_end_def by metis
qed

lemma good_end_swap:
  assumes "good_end W" and "good_end M" and "s \<noteq> []" and "good_end (W @ s)"
  shows "good_end (M @ s)"
proof -
  have "W \<noteq> []" "M \<noteq> []" using assms(1,2) by auto
  then show ?thesis
    using assms good_end_after_cutD [of W s] good_end_first_end [of M s] good_end_last by blast
qed

text \<open>A cut is stable when it ends its prefix well and its suffix begins well.\<close>

lemma stable_split:
  assumes "b < length xs"
  shows "stable xs b \<longleftrightarrow> good_end (take (Suc b) xs) \<and> good_begin (drop (Suc b) xs)"
proof -
  have l: "length (take (Suc b) xs) - 1 = b" using assms by simp
  have "consec xs a b \<longleftrightarrow> consec (take (Suc b) xs) a b" for a
    using assms consec_append_left [of b "take (Suc b) xs" "drop (Suc b) xs" a] by simp
  then have left: "good_end (take (Suc b) xs) \<longleftrightarrow> (\<exists>a. consec xs a b \<and> valid_gap (b - a))"
    by (simp only: good_end_def l)
  have right: "good_begin (drop (Suc b) xs) \<longleftrightarrow> (\<exists>c. consec xs b c \<and> valid_gap (c - b))"
    if "nat_cut (xs ! b)"
  proof
    assume "good_begin (drop (Suc b) xs)"
    then obtain d where d: "d < length xs - Suc b" "valid_gap (Suc d)" "nat_cut (xs ! (Suc b + d))"
      "\<forall>j<d. \<not> nat_cut (xs ! (Suc b + j))"
      by (auto simp: good_begin_def)
    have "\<not> nat_cut (xs ! j)" if j: "b < j" "j < Suc b + d" for j
    proof -
      obtain j' where "j = Suc b + j'" using less_imp_Suc_add [OF j(1)] by auto
      then show ?thesis using d(4) j(2) by simp
    qed
    then have "consec xs b (Suc b + d)" using d that by (auto simp: consec_def)
    then show "\<exists>c. consec xs b c \<and> valid_gap (c - b)"
      using d(2) by (intro exI [of _ "Suc b + d"]) simp
  next
    assume "\<exists>c. consec xs b c \<and> valid_gap (c - b)"
    then obtain c where c: "consec xs b c" "valid_gap (c - b)" by blast
    then have "Suc (c - Suc b) = c - b" by (auto simp: consec_def)
    then show "good_begin (drop (Suc b) xs)"
      using c by (auto simp: good_begin_def consec_def intro!: exI [of _ "c - Suc b"])
  qed
  have "stable xs b \<longleftrightarrow> (\<exists>a. consec xs a b \<and> valid_gap (b - a)) \<and> (\<exists>c. consec xs b c \<and> valid_gap (c - b))"
    by (auto simp: stable_def stable3_def)
  also have "\<dots> \<longleftrightarrow> good_end (take (Suc b) xs) \<and> good_begin (drop (Suc b) xs)"
    using left right by (metis consec_def)
  finally show ?thesis .
qed

lemma stable_append: "W \<noteq> [] \<Longrightarrow> r \<noteq> [] \<Longrightarrow> stable (W @ r) (length W - 1) \<longleftrightarrow> good_end W \<and> good_begin r"
  by (subst stable_split) (simp_all add: trans_less_add1)

lemma stable_shift: "stable W b \<Longrightarrow> stable (Z @ W) (length Z + b)"
proof -
  assume "stable W b"
  then obtain a c where "consec W a b" "consec W b c" "valid_gap (b - a)" "valid_gap (c - b)"
    by (auto simp: stable_def stable3_def)
  then have "stable3 (Z @ W) (length Z + a) (length Z + b) (length Z + c)"
    by (simp add: stable3_def consec_append_shift)
  then show ?thesis by (auto simp: stable_def)
qed

definition unstable :: "node list \<Rightarrow> bool" where
  "unstable xs \<longleftrightarrow> (\<forall>b. \<not> stable xs b)"

lemma unstable_short: "length xs < 7 \<Longrightarrow> unstable xs"
  by (auto simp: unstable_def dest: stable_length)

lemma unstable_append:
  assumes "unstable (W @ r)" and "good_end W"
  shows "\<not> good_begin r"
proof
  assume "good_begin r"
  moreover have "W \<noteq> []" "r \<noteq> []" using assms(2) \<open>good_begin r\<close> by auto
  ultimately show False using assms stable_append by (auto simp: unstable_def)
qed

lemma find_stable_start_split:
  assumes "find_stable_start xs = Some k"
  shows "good_end (take k xs)" and "good_begin (drop k xs)" and "k < length xs"
proof -
  obtain b where b: "k = Suc b" "stable xs b" using assms by (auto simp: find_stable_start_Some)
  then have "b < length xs" by (simp add: stable_length)
  with b show "good_end (take k xs)" and g: "good_begin (drop k xs)" by (simp_all add: stable_split)
  from good_begin_length [OF g] show "k < length xs" by simp
qed

lemma find_stable_end_split:
  assumes "find_stable_end xs = Some k"
  shows "good_end (take k xs)" and "good_begin (drop k xs)" and "unstable (drop k xs)" and "k < length xs"
proof -
  obtain b where b: "k = Suc b" "stable xs b" "\<forall>b'. stable xs b' \<longrightarrow> b' \<le> b"
    using assms by (auto simp: find_stable_end_Some)
  then have bl: "b < length xs" by (simp add: stable_length)
  with b show "good_end (take k xs)" and g: "good_begin (drop k xs)" by (simp_all add: stable_split)
  from good_begin_length [OF g] show kl: "k < length xs" by simp
  show "unstable (drop k xs)"
    unfolding unstable_def
  proof (intro allI notI)
    fix b' assume "stable (drop k xs) b'"
    then have "stable (take k xs @ drop k xs) (length (take k xs) + b')" by (rule stable_shift)
    with kl have "stable xs (k + b')" by simp
    with b(1,3) show False by fastforce
  qed
qed

text \<open>The last stable cut is found at the same place behind any other prefix that ends well: this
  is what lets a suffix kept by one range be found again when the range is merged.\<close>

lemma find_stable_end_glue:
  assumes f: "find_stable_end (M @ r) = Some (length M)" and W: "good_end W"
  shows "find_stable_end (W @ r) = Some (length W)"
proof -
  from find_stable_end_split [OF f] have M: "good_end M" and r: "good_begin r" by simp_all
  have ne: "M \<noteq> []" "W \<noteq> []" "r \<noteq> []" using M W r by auto
  obtain b where "length M = Suc b" and max: "\<forall>b'. stable (M @ r) b' \<longrightarrow> b' \<le> b"
    using f by (auto simp: find_stable_end_Some)
  have "b' \<le> length W - 1" if s: "stable (W @ r) b'" for b'
  proof (rule ccontr)
    assume "\<not> b' \<le> length W - 1"
    then have "length W \<le> b'" by linarith
    then obtain k where k: "b' = length W + k" using le_Suc_ex by blast
    then have kr: "k < length r" using stable_length [OF s] by simp
    have "good_end (W @ take (Suc k) r)" "good_begin (drop (Suc k) r)"
      using s kr k by (simp_all add: stable_split)
    then have "good_end (M @ take (Suc k) r)" using good_end_swap [OF W M] kr ne(3) by simp
    with \<open>good_begin (drop (Suc k) r)\<close> have "stable (M @ r) (length M + k)"
      using kr by (simp add: stable_split)
    with max \<open>length M = Suc b\<close> show False by fastforce
  qed
  moreover have "stable (W @ r) (length W - 1)" using stable_append ne W r by blast
  moreover have "length W = Suc (length W - 1)" using ne by (cases W) auto
  ultimately show ?thesis unfolding find_stable_end_Some by blast
qed

section \<open>A pass over a list that ends well\<close>

lemma next_merge_cut_prefix:
  assumes "next_merge_cut (W @ S) \<le> length W"
  shows "next_merge_cut W = next_merge_cut (W @ S)"
proof (cases "W @ S" rule: next_merge_cut_cases)
  case short
  with assms show ?thesis by simp
next
  case (natural i)
  with assms have "i < length W" by simp
  then have "next_merge_cut W = Suc i"
    using natural by (intro next_merge_cut_natural) (auto simp: nth_append)
  with natural show ?thesis by simp
next
  case forced
  show ?thesis
  proof (cases "S = []")
    case False
    with forced assms have l: "9 \<le> length W" by (cases S) (auto simp: min_def split: if_splits)
    then have "next_merge_cut W = min 9 (length W)"
      using forced(2) by (intro next_merge_cut_forced) (auto simp: nth_append)
    with forced l show ?thesis by simp
  qed simp
qed

lemma next_merge_cut_first_end:
  assumes "first_end W"
  shows "next_merge_cut (W @ S) = length W"
proof -
  obtain n where n: "length W = Suc n" "2 \<le> n" "n < 9"
    using assms by (cases "length W") (auto simp: first_end_def valid_gap_iff)
  then have "next_merge_cut (W @ S) = Suc n"
    using assms by (intro next_merge_cut_natural) (auto simp: first_end_def nth_append)
  with n show ?thesis by simp
qed

lemma next_merge_cut_before:
  assumes "2 \<le> a" and "a < length xs" and "nat_cut (xs ! a)"
  shows "next_merge_cut xs \<le> Suc a"
proof (cases xs rule: next_merge_cut_cases)
  case short
  with assms show ?thesis by simp
next
  case (natural i)
  with assms have "\<not> a < i" by blast
  with natural show ?thesis by simp
next
  case forced
  with assms have "\<not> a < 9" by blast
  with forced show ?thesis by simp
qed

lemma next_merge_cut_good_end:
  assumes W: "good_end W" and n_def: "n = next_merge_cut (W @ S)"
  shows "n = length W \<or> n < length W \<and> (good_end (drop n W) \<or> first_end (drop n W))"
proof -
  obtain a b where b: "length W = Suc b" and ab: "consec W a b" and gap: "a + 3 \<le> b" "b \<le> a + 7"
    using W good_end_length [OF W] by (cases "length W") (auto simp: good_end_def valid_gap_iff)
  have bl: "b < length W" using b by simp
  have ncut: "\<not> nat_cut (W ! j)" if "a < j" "j < b" for j using ab that by (simp add: consec_def)
  have cuts: "nat_cut (W ! a)" "nat_cut (W ! b)" using ab by (simp_all add: consec_def)
  show ?thesis
  proof (cases "2 \<le> a")
    case False
    then have "n = Suc b"
      unfolding n_def using bl gap cuts ncut
      by (intro next_merge_cut_natural) (auto simp: nth_append)
    with b show ?thesis by simp
  next
    case True
    have "n \<le> Suc a"
      unfolding n_def using True bl gap cuts by (intro next_merge_cut_before) (auto simp: nth_append)
    then consider "n \<le> a" | "n = Suc a" by linarith
    then show ?thesis
    proof cases
      case 1
      have ln: "length (take n W) = n" using 1 gap bl by simp
      have "consec (take n W @ drop n W) (n + (a - n)) (n + (b - n))"
        using 1 gap ab by simp
      then have "consec (drop n W) (a - n) (b - n)"
        using consec_append_shift [of "take n W"] by (simp only: ln)
      then have "good_end (drop n W)"
        using 1 gap b by (auto simp: good_end_def valid_gap_iff intro!: exI [of _ "a - n"])
      with 1 gap bl show ?thesis by simp
    next
      case 2
      have "first_end (drop n W)"
        using 2 gap b cuts ncut by (auto simp: first_end_def valid_gap_iff)
      with 2 gap bl show ?thesis by simp
    qed
  qed
qed

lemma promote_groups_whole:
  assumes "W \<noteq> []" and "next_merge_cut (W @ S) = length W"
  shows "promote_groups kh (W @ S) = promote_groups kh W @ promote_groups kh S"
  using assms next_merge_cut_prefix [of W S]
  by (simp add: promote_groups_step [of "W @ S"] promote_groups_step [of W])

lemma promote_groups_peel:
  assumes "W \<noteq> []" and "n = next_merge_cut (W @ S)" and "n < length W"
    and "promote_groups kh (drop n W @ S) = promote_groups kh (drop n W) @ promote_groups kh S"
  shows "promote_groups kh (W @ S) = promote_groups kh W @ promote_groups kh S"
  using assms next_merge_cut_prefix [of W S]
  by (simp add: promote_groups_step [of "W @ S"] promote_groups_step [of W])

lemma promote_groups_append:
  "good_end W \<Longrightarrow> promote_groups kh (W @ S) = promote_groups kh W @ promote_groups kh S"
proof (induction "length W" arbitrary: W rule: less_induct)
  case less
  let ?n = "next_merge_cut (W @ S)"
  have ne: "W \<noteq> []" using less.prems by auto
  consider "?n = length W" | "?n < length W" "good_end (drop ?n W)" | "?n < length W" "first_end (drop ?n W)"
    using next_merge_cut_good_end [OF less.prems refl, of S] by blast
  then show ?case
  proof cases
    case 1
    with ne show ?thesis by (rule promote_groups_whole)
  next
    case 2
    then have "promote_groups kh (drop ?n W @ S) = promote_groups kh (drop ?n W) @ promote_groups kh S"
      using less.hyps ne next_merge_cut_pos [of "W @ S"] by simp
    then show ?thesis using promote_groups_peel [OF ne refl] 2(1) by blast
  next
    case 3
    then have "promote_groups kh (drop ?n W @ S) = promote_groups kh (drop ?n W) @ promote_groups kh S"
      using promote_groups_whole next_merge_cut_first_end by (metis drop_eq_Nil not_le)
    then show ?thesis using promote_groups_peel [OF ne refl] 3(1) by blast
  qed
qed

end
