(* ===== verification/Merkle_Subtree.thy ===== *)
theory Merkle_Subtree
  imports Stable_Cuts
begin

text \<open>
  \<open>MerkleHashSubtree\<close> of \<open>xet_core_structures/src/merklehash/merkle_hash_subtree.rs\<close>: the partially
  aggregated hash of a contiguous range of chunks. The struct is a record with the flat node array
  and its offsets as the code stores them; the accumulators that \<open>build_hump\<close> and
  \<open>merge_into_impl\<close> share are a record of their own. The scratch buffers of a merge are cleared on
  entry, so they do not appear in the state; the \<open>debug_assertions\<close> fields are left out.
\<close>

record merkle_hash_subtree =
  nodes :: "node list"
  levels :: "(nat \<times> nat) list"
  left_offsets :: "nat list"
  right_offsets :: "nat list"
  at_start :: bool
  at_end :: bool

section \<open>Offsets and access\<close>

fun left_offsets_loop :: "nat \<Rightarrow> (nat \<times> nat) list \<Rightarrow> nat list" where
  "left_offsets_loop cumulative_left [] = []"
| "left_offsets_loop cumulative_left ((lc, rc) # ls) =
     cumulative_left # left_offsets_loop (cumulative_left + lc) ls"

fun right_offsets_loop :: "nat \<Rightarrow> nat \<Rightarrow> (nat \<times> nat) list \<Rightarrow> nat list" where
  "right_offsets_loop total_left cumulative_right_after [] = []"
| "right_offsets_loop total_left cumulative_right_after ((lc, rc) # ls) =
     (total_left + (cumulative_right_after - rc))
       # right_offsets_loop total_left (cumulative_right_after - rc) ls"

definition compute_offsets :: "(nat \<times> nat) list \<Rightarrow> nat list \<times> nat list" where
  "compute_offsets lv =
     (left_offsets_loop 0 lv,
      right_offsets_loop (sum_list (map fst lv)) (sum_list (map snd lv)) lv)"

definition num_nodes :: "merkle_hash_subtree \<Rightarrow> nat" where
  "num_nodes t = length (nodes t)"

definition num_levels :: "merkle_hash_subtree \<Rightarrow> nat" where
  "num_levels t = length (levels t)"

definition subtree_is_empty :: "merkle_hash_subtree \<Rightarrow> bool" where
  "subtree_is_empty t \<longleftrightarrow> nodes t = []"

definition left_at :: "merkle_hash_subtree \<Rightarrow> nat \<Rightarrow> node list" where
  "left_at t level =
     (let start = left_offsets t ! level in slice (nodes t) start (start + fst (levels t ! level)))"

definition right_at :: "merkle_hash_subtree \<Rightarrow> nat \<Rightarrow> node list" where
  "right_at t level =
     (let start = right_offsets t ! level in slice (nodes t) start (start + snd (levels t ! level)))"

section \<open>Building a hump\<close>

definition split_and_promote :: "keyed_hash \<Rightarrow> node list \<Rightarrow> bool \<Rightarrow> bool \<Rightarrow> nat \<times> nat \<times> node list" where
  "split_and_promote kh ns s e =
     (if length ns \<le> 1 then (length ns, 0, [])
      else case (if s then Some 0 else find_stable_start ns) of
        None \<Rightarrow> (length ns, 0, [])
      | Some stable_start \<Rightarrow>
          (case (if e then Some (length ns)
                 else map_option (\<lambda>idx. stable_start + idx) (find_stable_end (drop stable_start ns))) of
             None \<Rightarrow> (length ns, 0, [])
           | Some stable_end \<Rightarrow>
               if stable_end \<le> stable_start then (length ns, 0, [])
               else (stable_start, length ns - stable_end,
                     promote_groups kh (slice ns stable_start stable_end))))"

record hump_out =
  out_left_nodes :: "node list"
  out_right_nodes :: "node list"
  out_levels :: "(nat \<times> nat) list"
  all_lefts_empty :: bool
  all_rights_empty :: bool

definition empty_hump_out :: hump_out where
  "empty_hump_out = \<lparr>out_left_nodes = [], out_right_nodes = [], out_levels = [],
     all_lefts_empty = True, all_rights_empty = True\<rparr>"

text \<open>The body shared by the three loops: split one level, keep its sides, promote its middle.\<close>

definition push_level :: "keyed_hash \<Rightarrow> bool \<Rightarrow> bool \<Rightarrow> hump_out \<Rightarrow> node list \<Rightarrow> hump_out \<times> node list" where
  "push_level kh s e out current =
     (case split_and_promote kh current (s \<and> all_lefts_empty out) (e \<and> all_rights_empty out) of
        (prefix_len, suffix_len, promoted) \<Rightarrow>
          (out\<lparr>out_left_nodes := out_left_nodes out @ take prefix_len current,
               out_right_nodes := out_right_nodes out @ drop (length current - suffix_len) current,
               out_levels := out_levels out @ [(prefix_len, suffix_len)],
               all_lefts_empty := all_lefts_empty out \<and> prefix_len = 0,
               all_rights_empty := all_rights_empty out \<and> suffix_len = 0\<rparr>,
           promoted))"

text \<open>The single node a pass can end with becomes the left side of one more level.\<close>

definition push_single :: "hump_out \<Rightarrow> node list \<Rightarrow> hump_out" where
  "push_single out ns =
     out\<lparr>out_left_nodes := out_left_nodes out @ ns, out_levels := out_levels out @ [(length ns, 0)]\<rparr>"

lemma length_split_and_promote:
  assumes "split_and_promote kh xs s e = (p, q, promoted)" and "1 < length promoted"
  shows "length promoted < length xs"
proof -
  obtain a b where pr: "promoted = promote_groups kh (slice xs a b)"
    using assms by (auto simp: split_and_promote_def split: option.splits if_splits)
  have "1 < length (slice xs a b)"
    using assms(2) pr length_promote_groups_le [of kh "slice xs a b"] by simp
  then have "length promoted < length (slice xs a b)"
    unfolding pr by (rule length_promote_groups_less)
  also have "\<dots> \<le> length xs" by (simp add: slice_def)
  finally show ?thesis .
qed

lemma length_push_level:
  "push_level kh s e out xs = (out', promoted) \<Longrightarrow> 1 < length promoted \<Longrightarrow> length promoted < length xs"
  by (auto simp: push_level_def split: prod.splits dest: length_split_and_promote)

function build_loop :: "keyed_hash \<Rightarrow> bool \<Rightarrow> bool \<Rightarrow> hump_out \<Rightarrow> node list \<Rightarrow> hump_out" where
  "build_loop kh s e out current =
     (case push_level kh s e out current of
        (out', promoted) \<Rightarrow>
          if promoted = [] then out'
          else if length promoted = 1 then push_single out' promoted
          else build_loop kh s e out' promoted)"
  by pat_completeness auto
termination
proof (relation "measure (\<lambda>(kh, s, e, out, xs). length xs)", goal_cases)
  case (2 kh s e out xs out' promoted)
  then have "1 < length promoted" by (cases promoted) (auto simp: neq_Nil_conv)
  then have "length promoted < length xs"
    using 2 length_push_level [of kh s e out xs out' promoted] by auto
  then show ?case by simp
qed simp

declare build_loop.simps [simp del]

text \<open>The rights are collected in ascending level order and stored in descending order.\<close>

fun append_rights :: "node list \<Rightarrow> nat \<Rightarrow> (nat \<times> nat) list \<Rightarrow> node list" where
  "append_rights out_right end_pos [] = []"
| "append_rights out_right end_pos ((lc, rc) # rev_ls) =
     slice out_right (end_pos - rc) end_pos @ append_rights out_right (end_pos - rc) rev_ls"

definition flat_nodes :: "node list \<Rightarrow> node list \<Rightarrow> (nat \<times> nat) list \<Rightarrow> node list" where
  "flat_nodes out_left out_right lv =
     out_left @ append_rights out_right (length out_right) (rev lv)"

definition build_hump :: "keyed_hash \<Rightarrow> node list \<Rightarrow> bool \<Rightarrow> bool \<Rightarrow> node list \<times> (nat \<times> nat) list" where
  "build_hump kh chunks s e =
     (let out = build_loop kh s e empty_hump_out chunks
      in (flat_nodes (out_left_nodes out) (out_right_nodes out) (out_levels out), out_levels out))"

definition from_chunks :: "keyed_hash \<Rightarrow> bool \<Rightarrow> node list \<Rightarrow> bool \<Rightarrow> merkle_hash_subtree" where
  "from_chunks kh s chunks e =
     (let (ns, lv) = build_hump kh chunks s e;
          (lo, ro) = compute_offsets lv
      in \<lparr>nodes = ns, levels = lv, left_offsets = lo, right_offsets = ro, at_start = s, at_end = e\<rparr>)"

section \<open>Merging\<close>

fun merge_levels ::
  "keyed_hash \<Rightarrow> bool \<Rightarrow> bool \<Rightarrow> merkle_hash_subtree \<Rightarrow> merkle_hash_subtree \<Rightarrow> nat list \<Rightarrow> hump_out \<Rightarrow>
     node list \<Rightarrow> hump_out \<times> node list" where
  "merge_levels kh s e self other [] out carry = (out, carry)"
| "merge_levels kh s e self other (level # ls) out carry =
     (let lr_left = (if level < num_levels self then left_at self level else []);
          lr_right = (if level < num_levels self then right_at self level else []);
          rr_left = (if level < num_levels other then left_at other level else []);
          rr_right = (if level < num_levels other then right_at other level else []);
          full = lr_left @ lr_right @ carry @ rr_left @ rr_right;
          (out', promoted) = push_level kh s e out full
      in merge_levels kh s e self other ls out' promoted)"

function carry_loop :: "keyed_hash \<Rightarrow> bool \<Rightarrow> bool \<Rightarrow> hump_out \<Rightarrow> node list \<Rightarrow> hump_out" where
  "carry_loop kh s e out carry =
     (if carry = [] then out
      else if length carry = 1 then push_single out carry
      else case push_level kh s e out carry of (out', promoted) \<Rightarrow> carry_loop kh s e out' promoted)"
  by pat_completeness auto
termination
proof (relation "measure (\<lambda>(kh, s, e, out, xs). length xs)", goal_cases)
  case (2 kh s e out xs out' promoted)
  then have "1 < length xs" by (cases xs) (auto simp: neq_Nil_conv)
  then have "length promoted < length xs"
    using 2 length_push_level [of kh s e out xs out' promoted] by force
  then show ?case by simp
qed simp

declare carry_loop.simps [simp del]

function trim_levels :: "(nat \<times> nat) list \<Rightarrow> (nat \<times> nat) list" where
  "trim_levels lv = (if 1 < length lv \<and> last lv = (0, 0) then trim_levels (butlast lv) else lv)"
  by pat_completeness auto
termination
  by (relation "measure length") auto

declare trim_levels.simps [simp del]

definition merge_into_impl ::
  "keyed_hash \<Rightarrow> merkle_hash_subtree \<Rightarrow> merkle_hash_subtree \<Rightarrow> core_error + merkle_hash_subtree" where
  "merge_into_impl kh self other =
     (if at_end self then Inl InvalidArguments
      else if at_start other then Inl InvalidArguments
      else
        let combined_at_start = at_start self;
            combined_at_end = at_end other;
            max_levels = max (num_levels self) (num_levels other);
            (out, carry) = merge_levels kh combined_at_start combined_at_end self other [0..<max_levels]
                             empty_hump_out [];
            out = carry_loop kh combined_at_start combined_at_end out carry;
            lv = trim_levels (out_levels out);
            (lo, ro) = compute_offsets lv
        in Inr \<lparr>nodes = flat_nodes (out_left_nodes out) (out_right_nodes out) lv, levels = lv,
                left_offsets = lo, right_offsets = ro,
                at_start = combined_at_start, at_end = combined_at_end\<rparr>)"

definition merge_into ::
  "keyed_hash \<Rightarrow> merkle_hash_subtree \<Rightarrow> merkle_hash_subtree \<Rightarrow> core_error + merkle_hash_subtree" where
  "merge_into kh self other = merge_into_impl kh self other"

fun merge_loop ::
  "keyed_hash \<Rightarrow> merkle_hash_subtree \<Rightarrow> merkle_hash_subtree list \<Rightarrow> core_error + merkle_hash_subtree" where
  "merge_loop kh result [] = Inr result"
| "merge_loop kh result (r # rs) =
     rbind (merge_into_impl kh result r) (\<lambda>result. merge_loop kh result rs)"

definition merge_ranges :: "keyed_hash \<Rightarrow> merkle_hash_subtree list \<Rightarrow> core_error + merkle_hash_subtree" where
  "merge_ranges kh ranges =
     (case ranges of
        [] \<Rightarrow> Inr (from_chunks kh True [] True)
      | [r] \<Rightarrow> Inr r
      | r # rs \<Rightarrow> merge_loop kh r rs)"

text \<open>In Rust \<open>top_left[0]\<close> panics on an empty slice; the correctness theorem states that the slice
  has exactly one element.\<close>

definition final_hash :: "merkle_hash_subtree \<Rightarrow> merkle_hash option" where
  "final_hash t =
     (if \<not> at_start t \<or> \<not> at_end t then None
      else if nodes t = [] then Some default_hash
      else let top = length (levels t) - 1 in Some (fst (left_at t top ! 0)))"

section \<open>The level view of the flat representation\<close>

text \<open>A hump as a list of levels, each a left and a right list of nodes; \<open>tree_of\<close> is the flat
  struct the code builds from it, and \<open>left_at\<close>/\<open>right_at\<close> read the levels back.\<close>

type_synonym hump_levels = "(node list \<times> node list) list"

definition lens :: "hump_levels \<Rightarrow> (nat \<times> nat) list" where
  "lens LR = map (\<lambda>(l, r). (length l, length r)) LR"

definition lefts :: "hump_levels \<Rightarrow> node list" where
  "lefts LR = concat (map fst LR)"

definition rights :: "hump_levels \<Rightarrow> node list" where
  "rights LR = concat (map snd LR)"

definition tree_of :: "hump_levels \<Rightarrow> bool \<Rightarrow> bool \<Rightarrow> merkle_hash_subtree" where
  "tree_of LR s e =
     \<lparr>nodes = flat_nodes (lefts LR) (rights LR) (lens LR), levels = lens LR,
      left_offsets = fst (compute_offsets (lens LR)), right_offsets = snd (compute_offsets (lens LR)),
      at_start = s, at_end = e\<rparr>"

lemma hump_levels_simps [simp]:
  "lens [] = []" "lefts [] = []" "rights [] = []"
  "lens (p # LR) = (length (fst p), length (snd p)) # lens LR"
  "lefts (p # LR) = fst p @ lefts LR" "rights (p # LR) = snd p @ rights LR"
  "lens (LR @ LR') = lens LR @ lens LR'" "lefts (LR @ LR') = lefts LR @ lefts LR'"
  "rights (LR @ LR') = rights LR @ rights LR'" "length (lens LR) = length LR"
  by (auto simp: lens_def lefts_def rights_def split: prod.splits)

lemma nth_lens: "i < length LR \<Longrightarrow> lens LR ! i = (length (fst (LR ! i)), length (snd (LR ! i)))"
  by (simp add: lens_def split: prod.splits)

lemma sum_lens [simp]:
  "sum_list (map fst (lens LR)) = length (lefts LR)" "sum_list (map snd (lens LR)) = length (rights LR)"
  by (induction LR) auto

lemma left_offsets_loop_nth:
  "i < length LR \<Longrightarrow> left_offsets_loop c (lens LR) ! i = c + length (lefts (take i LR))"
  by (induction LR arbitrary: c i) (auto simp: less_Suc_eq_0_disj)

lemma right_offsets_loop_nth:
  "i < length LR \<Longrightarrow>
     right_offsets_loop c (length (rights LR)) (lens LR) ! i = c + length (rights (drop (Suc i) LR))"
  by (induction LR arbitrary: i) (auto simp: less_Suc_eq_0_disj)

lemma append_rights_rev:
  "append_rights (rights LR @ Z) (length (rights LR)) (rev (lens LR)) = rights (rev LR)"
proof (induction LR arbitrary: Z rule: rev_induct)
  case (snoc p LR)
  have "append_rights (rights LR @ snd p @ Z) (length (rights LR)) (rev (lens LR)) = rights (rev LR)"
    using snoc by simp
  then show ?case by (simp add: slice_def)
qed simp

lemma nodes_tree_of: "nodes (tree_of LR s e) = lefts LR @ rights (rev LR)"
  using append_rights_rev [of LR "[]"] by (simp add: tree_of_def flat_nodes_def)

lemma num_levels_tree_of [simp]: "num_levels (tree_of LR s e) = length LR"
  by (simp add: num_levels_def tree_of_def)

lemma flags_tree_of [simp]: "at_start (tree_of LR s e) = s" "at_end (tree_of LR s e) = e"
  by (simp_all add: tree_of_def)

lemma left_at_tree_of:
  assumes "i < length LR"
  shows "left_at (tree_of LR s e) i = fst (LR ! i)"
proof -
  have "nodes (tree_of LR s e) = lefts (take i LR) @ fst (LR ! i) @ lefts (drop (Suc i) LR) @ rights (rev LR)"
    unfolding nodes_tree_of by (subst id_take_nth_drop [OF assms]) (simp del: append_take_drop_id)
  moreover have "left_offsets (tree_of LR s e) ! i = length (lefts (take i LR))"
    using left_offsets_loop_nth [OF assms, of 0] by (simp add: tree_of_def compute_offsets_def)
  moreover have "fst (levels (tree_of LR s e) ! i) = length (fst (LR ! i))"
    using nth_lens [OF assms] by (simp add: tree_of_def)
  ultimately show ?thesis by (simp add: left_at_def slice_def)
qed

lemma right_at_tree_of:
  assumes "i < length LR"
  shows "right_at (tree_of LR s e) i = snd (LR ! i)"
proof -
  have "rights (rev LR) = rights (rev (drop (Suc i) LR)) @ snd (LR ! i) @ rights (rev (take i LR))"
    by (subst id_take_nth_drop [OF assms]) (simp del: append_take_drop_id)
  moreover have "length (rights (rev ls)) = length (rights ls)" for ls
    by (induction ls) auto
  moreover have "right_offsets (tree_of LR s e) ! i = length (lefts LR) + length (rights (drop (Suc i) LR))"
    using right_offsets_loop_nth [OF assms, of "length (lefts LR)"]
    by (simp add: tree_of_def compute_offsets_def)
  moreover have "snd (levels (tree_of LR s e) ! i) = length (snd (LR ! i))"
    using nth_lens [OF assms] by (simp add: tree_of_def)
  ultimately show ?thesis by (simp add: right_at_def slice_def nodes_tree_of)
qed

end
