(* ===== verification/Subtree_Correct.thy ===== *)
theory Subtree_Correct
  imports Merkle_Subtree
begin

text \<open>
  Correctness of \<open>MerkleHashSubtree\<close>: what the levels of a range stand for, that building a range
  from chunks and merging a range into one that starts at the first chunk keep it, and that the
  final hash is the aggregated hash of all the chunks.
\<close>

section \<open>One level\<close>

definition split_ok :: "bool \<Rightarrow> bool \<Rightarrow> node list \<Rightarrow> node list \<Rightarrow> node list \<Rightarrow> node list \<Rightarrow> bool" where
  "split_ok s e cur l m r \<longleftrightarrow> cur = l @ m @ r \<and>
     (if m = [] then r = [] \<and> (length cur \<le> 1 \<or> \<not> s \<or> \<not> e \<and> unstable cur)
      else 1 < length cur \<and> (if s then l = [] else find_stable_start cur = Some (length l)) \<and>
           (if e then r = [] else find_stable_end (m @ r) = Some (length m)))"

lemma split_ok_Nil: "split_ok s e cur l [] r \<Longrightarrow> l = cur \<and> r = []"
  by (simp add: split_ok_def)

lemma split_ok_keep:
  "split_and_promote kh cur s e = (length cur, 0, []) \<Longrightarrow> length cur \<le> 1 \<or> \<not> s \<or> \<not> e \<and> unstable cur \<Longrightarrow>
     \<exists>l m r. split_and_promote kh cur s e = (length l, length r, promote_groups kh m) \<and> split_ok s e cur l m r"
  by (intro exI [of _ cur] exI [of _ "[]"]) (simp add: split_ok_def)

lemma split_and_promote_ok:
  "\<exists>l m r. split_and_promote kh cur s e = (length l, length r, promote_groups kh m) \<and> split_ok s e cur l m r"
proof (cases "length cur \<le> 1 \<or> \<not> s \<and> find_stable_start cur = None")
  case True
  then show ?thesis by (intro split_ok_keep) (auto simp: split_and_promote_def)
next
  case False
  then obtain a where a: "(if s then Some 0 else find_stable_start cur) = Some a" by (cases s) auto
  have al: "a < length cur" using a False by (cases s) (auto dest: find_stable_start_split(3))
  show ?thesis
  proof (cases "\<not> e \<and> find_stable_end (drop a cur) = None")
    case True
    then have "\<not> s \<or> unstable cur"
      using a by (auto simp: find_stable_end_None unstable_def)
    then show ?thesis
      using True False a by (intro split_ok_keep) (auto simp: split_and_promote_def)
  next
    case nofail: False
    define b where "b = (if e then length cur - a else the (find_stable_end (drop a cur)))"
    have be: "\<not> e \<Longrightarrow> find_stable_end (drop a cur) = Some b"
      using nofail by (auto simp: b_def)
    have b: "0 < b" "b \<le> length cur - a"
    proof -
      show "0 < b" using find_stable_end_split(1) [OF be] al by (cases e; cases b) (auto simp: b_def)
      show "b \<le> length cur - a" using find_stable_end_split(4) [OF be] by (cases e) (auto simp: b_def)
    qed
    let ?l = "take a cur" and ?m = "take b (drop a cur)" and ?r = "drop (a + b) cur"
    have eb: "(if e then Some (length cur)
        else map_option (\<lambda>idx. a + idx) (find_stable_end (drop a cur))) = Some (a + b)"
      using al be by (cases e) (simp_all add: b_def)
    have "split_and_promote kh cur s e = (a, length cur - (a + b), promote_groups kh (slice cur a (a + b)))"
      unfolding split_and_promote_def a using False b eb by simp
    moreover have "split_ok s e cur ?l ?m ?r"
    proof -
      have mr: "?m @ ?r = drop a cur" by (metis add.commute append_take_drop_id drop_drop)
      then have "cur = ?l @ ?m @ ?r" by simp
      moreover have "?m \<noteq> []" using b by simp
      moreover have "if s then ?l = [] else find_stable_start cur = Some (length ?l)"
        using a al by (cases s) auto
      moreover have "if e then ?r = [] else find_stable_end (?m @ ?r) = Some (length ?m)"
        unfolding mr using be b al by (cases e) (auto simp: b_def)
      ultimately show ?thesis using False by (simp add: split_ok_def)
    qed
    ultimately show ?thesis
      using al by (intro exI [of _ ?l] exI [of _ ?m] exI [of _ ?r]) (simp add: slice_def)
  qed
qed

section \<open>The accumulators\<close>

definition out_rep :: "hump_out \<Rightarrow> hump_levels \<Rightarrow> bool" where
  "out_rep out LR \<longleftrightarrow> out_left_nodes out = lefts LR \<and> out_right_nodes out = rights LR \<and> out_levels out = lens LR"

definition no_lefts :: "hump_levels \<Rightarrow> bool" where
  "no_lefts LR \<longleftrightarrow> (\<forall>p \<in> set LR. fst p = [])"

definition no_rights :: "hump_levels \<Rightarrow> bool" where
  "no_rights LR \<longleftrightarrow> (\<forall>p \<in> set LR. snd p = [])"

definition out_ok :: "hump_out \<Rightarrow> hump_levels \<Rightarrow> bool" where
  "out_ok out LR \<longleftrightarrow> out_rep out LR \<and> all_lefts_empty out = no_lefts LR \<and> all_rights_empty out = no_rights LR"

lemma no_sides_simps [simp]:
  "no_lefts []" "no_rights []" "no_lefts (LR @ LR') \<longleftrightarrow> no_lefts LR \<and> no_lefts LR'"
  "no_rights (LR @ LR') \<longleftrightarrow> no_rights LR \<and> no_rights LR'"
  "no_lefts (p # LR) \<longleftrightarrow> fst p = [] \<and> no_lefts LR" "no_rights (p # LR) \<longleftrightarrow> snd p = [] \<and> no_rights LR"
  by (auto simp: no_lefts_def no_rights_def)

lemma out_ok_empty: "out_ok empty_hump_out []"
  by (simp add: out_ok_def out_rep_def empty_hump_out_def)

lemma push_level_ok:
  assumes "out_ok out LR"
  obtains out' l m r where "push_level kh s e out cur = (out', promote_groups kh m)"
    and "out_ok out' (LR @ [(l, r)])" and "split_ok (s \<and> no_lefts LR) (e \<and> no_rights LR) cur l m r"
proof -
  obtain l m r where lmr: "split_ok (s \<and> no_lefts LR) (e \<and> no_rights LR) cur l m r"
    "split_and_promote kh cur (s \<and> no_lefts LR) (e \<and> no_rights LR) =
       (length l, length r, promote_groups kh m)"
    using split_and_promote_ok by blast
  then have cur: "cur = l @ m @ r" by (simp add: split_ok_def)
  define out' where "out' = fst (push_level kh s e out cur)"
  have "push_level kh s e out cur = (out', promote_groups kh m)" "out_ok out' (LR @ [(l, r)])"
    using assms lmr(2) unfolding out'_def
    by (simp_all add: push_level_def out_ok_def out_rep_def cur)
  then show thesis using lmr(1) by (rule that)
qed

lemma push_single_rep: "out_ok out LR \<Longrightarrow> out_rep (push_single out [x]) (LR @ [([x], [])])"
  by (simp add: out_ok_def out_rep_def push_single_def)

lemma build_loop_eq:
  "build_loop kh s e out cur = (case push_level kh s e out cur of (out', p) \<Rightarrow> carry_loop kh s e out' p)"
proof (induction kh s e out cur rule: build_loop.induct)
  case (1 kh s e out cur)
  obtain out' p where "push_level kh s e out cur = (out', p)" by fastforce
  with 1 show ?case
    by (simp add: build_loop.simps [of kh s e out cur] carry_loop.simps [of kh s e out' p])
qed

definition trimmed :: "hump_levels \<Rightarrow> bool" where
  "trimmed LR \<longleftrightarrow> length LR \<le> 1 \<or> last LR \<noteq> ([], [])"

text \<open>The contract between the level loops and a meaning \<open>P\<close> of the levels they produce: the empty
  and the one-node hump have the meaning, and splitting one more level below a hump keeps it.
  \<open>Inv\<close> is what the flags of the lower levels say about the nodes that remain.\<close>

locale hump_rep =
  fixes kh :: keyed_hash and s e :: bool
    and P :: "hump_levels \<Rightarrow> node list \<Rightarrow> bool"
    and Inv :: "hump_levels \<Rightarrow> node list \<Rightarrow> bool"
  assumes nil: "P [] []"
    and single: "P [([x], [])] [x]"
    and step: "Inv LR cur \<Longrightarrow> split_ok (s \<and> no_lefts LR) (e \<and> no_rights LR) cur l m r \<Longrightarrow>
      Inv (LR @ [(l, r)]) (promote_groups kh m)"
    and step_rep: "Inv LR cur \<Longrightarrow> split_ok (s \<and> no_lefts LR) (e \<and> no_rights LR) cur l m r \<Longrightarrow>
      P LR' (promote_groups kh m) \<Longrightarrow> P ((l, r) # LR') cur"
begin

lemma carry_rep:
  "Inv LR cur \<Longrightarrow> out_ok out LR \<Longrightarrow>
     \<exists>LR'. out_rep (carry_loop kh s e out cur) (LR @ LR') \<and> P LR' cur \<and>
           (if cur = [] then LR' = [] else LR' \<noteq> [] \<and> last LR' \<noteq> ([], []))"
proof (induction "length cur" arbitrary: LR cur out rule: less_induct)
  case less
  consider "cur = []" | x where "cur = [x]" | "1 < length cur"
    by (cases cur rule: list.exhaust; cases "tl cur") auto
  then show ?case
  proof cases
    case 1
    with less.prems nil show ?thesis
      by (intro exI [of _ "[]"]) (simp add: carry_loop.simps out_ok_def)
  next
    case 2
    with push_single_rep [OF less.prems(2)] single show ?thesis
      by (intro exI [of _ "[([x], [])]"]) (simp add: carry_loop.simps)
  next
    case 3
    obtain out' l m r where pl: "push_level kh s e out cur = (out', promote_groups kh m)"
      "out_ok out' (LR @ [(l, r)])" "split_ok (s \<and> no_lefts LR) (e \<and> no_rights LR) cur l m r"
      using push_level_ok [OF less.prems(2)] .
    have "length (promote_groups kh m) < length cur"
      using length_push_level [OF pl(1)] 3 by fastforce
    then obtain LR' where LR': "out_rep (carry_loop kh s e out' (promote_groups kh m)) ((LR @ [(l, r)]) @ LR')"
      "P LR' (promote_groups kh m)"
      "if promote_groups kh m = [] then LR' = [] else LR' \<noteq> [] \<and> last LR' \<noteq> ([], [])"
      using less.hyps step [OF less.prems(1) pl(3)] pl(2) by blast
    have "carry_loop kh s e out cur = carry_loop kh s e out' (promote_groups kh m)"
      using 3 pl(1) by (subst carry_loop.simps) auto
    moreover have "P ((l, r) # LR') cur" using step_rep less.prems(1) pl(3) LR'(2) .
    moreover have "last ((l, r) # LR') \<noteq> ([], [])"
      using LR'(3) split_ok_Nil pl(3) 3 by (cases "m = []") fastforce+
    ultimately show ?thesis
      using LR'(1) 3 by (intro exI [of _ "(l, r) # LR'"]) auto
  qed
qed

lemma build_rep:
  assumes "Inv [] cur"
  obtains LR where "from_chunks kh s cur e = tree_of LR s e" and "P LR cur"
    and "trimmed LR"
proof -
  obtain out' l m r where pl: "push_level kh s e empty_hump_out cur = (out', promote_groups kh m)"
    "out_ok out' ([] @ [(l, r)])" "split_ok (s \<and> no_lefts []) (e \<and> no_rights []) cur l m r"
    using push_level_ok [OF out_ok_empty] .
  obtain LR' where LR': "out_rep (carry_loop kh s e out' (promote_groups kh m)) (([] @ [(l, r)]) @ LR')"
      "P LR' (promote_groups kh m)"
      "if promote_groups kh m = [] then LR' = [] else LR' \<noteq> [] \<and> last LR' \<noteq> ([], [])"
    using carry_rep [OF step [OF assms pl(3)] pl(2)] by blast
  have "build_loop kh s e empty_hump_out cur = carry_loop kh s e out' (promote_groups kh m)"
    using pl(1) by (simp add: build_loop_eq)
  then have "from_chunks kh s cur e = tree_of ((l, r) # LR') s e"
    using LR'(1) by (simp add: from_chunks_def build_hump_def out_rep_def tree_of_def compute_offsets_def)
  moreover have "P ((l, r) # LR') cur" using step_rep assms pl(3) LR'(2) .
  moreover have "trimmed ((l, r) # LR')"
    using LR'(3) by (cases "m = []") (simp_all add: trimmed_def)
  ultimately show thesis using that by blast
qed

end

section \<open>What the levels stand for\<close>

text \<open>Ranges that start at the first chunk. At each level the nodes are a part \<open>M\<close> that has been
  promoted, followed by what the level stores. While the range is open on the right, \<open>M\<close> ends at
  a cut whatever follows and the stored nodes have no stable cut. When it is closed, everything is
  promoted until one node is left.\<close>

definition level_ok :: "bool \<Rightarrow> node list \<Rightarrow> node list \<Rightarrow> node list \<Rightarrow> node list \<Rightarrow> bool" where
  "level_ok e xs M l r \<longleftrightarrow> xs = M @ l @ r \<and>
     (if e then r = [] \<and> (l = [] \<and> length xs \<noteq> 1 \<or> length l = 1 \<and> M = [])
      else unstable (l @ r) \<and> (M \<noteq> [] \<longrightarrow> good_end M \<and> good_begin (l @ r)))"

fun start_rep :: "keyed_hash \<Rightarrow> bool \<Rightarrow> hump_levels \<Rightarrow> node list \<Rightarrow> bool" where
  "start_rep kh e [] xs \<longleftrightarrow> xs = []"
| "start_rep kh e ((l, r) # LR) xs \<longleftrightarrow>
     (\<exists>M. level_ok e xs M l r \<and> start_rep kh e LR (promote_groups kh M))"

text \<open>Ranges built from chunks that do not start at the first chunk: the promoted part is in the
  middle, after a prefix that ends well and before a suffix that holds no further stable cut.\<close>

definition middle_ok :: "bool \<Rightarrow> node list \<Rightarrow> node list \<Rightarrow> node list \<Rightarrow> node list \<Rightarrow> bool" where
  "middle_ok e ys l M r \<longleftrightarrow> ys = l @ M @ r \<and>
     (if M = [] then r = []
      else good_end l \<and> (if e then r = [] else find_stable_end (M @ r) = Some (length M)))"

fun middle_rep :: "keyed_hash \<Rightarrow> bool \<Rightarrow> hump_levels \<Rightarrow> node list \<Rightarrow> bool" where
  "middle_rep kh e [] ys \<longleftrightarrow> ys = []"
| "middle_rep kh e ((l, r) # LR) ys \<longleftrightarrow>
     (\<exists>M. middle_ok e ys l M r \<and> middle_rep kh e LR (promote_groups kh M))"

text \<open>One level of a merge: \<open>qa\<close> is what the left range stores at the level, \<open>c\<close> the carry, \<open>lb\<close> and
  \<open>rb\<close> what the right range stores, \<open>Ma\<close> and \<open>Mb\<close> what they have promoted. The parts that were
  promoted before and the part promoted now are together what the new level has promoted.\<close>

lemma good_end_promote3:
  assumes "Ma \<noteq> [] \<Longrightarrow> good_end Ma" and "m \<noteq> [] \<Longrightarrow> Mb \<noteq> [] \<Longrightarrow> good_end m"
  shows "promote_groups kh (Ma @ m @ Mb) = promote_groups kh Ma @ promote_groups kh m @ promote_groups kh Mb"
proof -
  have "promote_groups kh (m @ Mb) = promote_groups kh m @ promote_groups kh Mb"
    using assms(2) promote_groups_append by (cases "m = []"; cases "Mb = []") auto
  then show ?thesis
    using assms(1) promote_groups_append [of Ma kh "m @ Mb"] by (cases "Ma = []") auto
qed

lemma merge_level_open:
  assumes A: "unstable qa" "Ma \<noteq> [] \<Longrightarrow> good_end Ma \<and> good_begin qa"
    and B: "middle_ok False ys lb Mb rb" and flag: "s \<or> c = [] \<and> ys = []"
    and sp: "split_ok s False (qa @ c @ lb @ rb) l m r"
  shows "\<exists>M. level_ok False (Ma @ qa @ c @ ys) M l r \<and>
      promote_groups kh M = promote_groups kh Ma @ promote_groups kh m @ promote_groups kh Mb \<and>
      (s \<and> l = [] \<or> m = [] \<and> Mb = [])"
proof (cases "Mb = []")
  case False
  then have mb: "good_end lb" "find_stable_end (Mb @ rb) = Some (length Mb)" and ys: "ys = lb @ Mb @ rb"
    using B by (auto simp: middle_ok_def)
  have s using flag ys False by auto
  have glue: "good_end (qa @ c @ lb)" using mb(1) by (intro good_end_append)
  have "find_stable_end ((qa @ c @ lb) @ rb) = Some (length (qa @ c @ lb))"
    using mb(2) glue by (rule find_stable_end_glue)
  then have fe: "find_stable_end (qa @ c @ lb @ rb) = Some (length (qa @ c @ lb))" by simp
  have "m \<noteq> []"
    using sp \<open>s\<close> fe good_end_length [OF mb(1)]
    by (auto simp: split_ok_def find_stable_end_None [symmetric] unstable_def)
  with sp \<open>s\<close> fe have "l = []" "m @ r = (qa @ c @ lb) @ rb" "length m = length (qa @ c @ lb)"
    by (auto simp: split_ok_def)
  then have lmr: "l = []" "m = qa @ c @ lb" "r = rb" by (metis append_eq_append_conv)+
  have gm: "good_end m" "good_end Mb" "good_begin rb" "unstable rb"
    using lmr mb(1) find_stable_end_split [OF mb(2)] by auto
  show ?thesis
    using A lmr gm ys \<open>s\<close> good_end_promote3 [of Ma m Mb kh]
    by (intro exI [of _ "Ma @ m @ Mb"]) (auto simp: level_ok_def)
next
  case True
  then have ys: "ys = lb" "rb = []" using B by (auto simp: middle_ok_def)
  show ?thesis
  proof (cases "m = []")
    case m: False
    have "s"
    proof (rule ccontr)
      assume "\<not> s"
      with sp m flag ys have "find_stable_start qa = Some (length l)" by (auto simp: split_ok_def)
      with A(1) show False by (auto simp: unstable_def find_stable_start_Some)
    qed
    with sp m ys have lmr: "l = []" "qa @ c @ lb = m @ r" "find_stable_end (m @ r) = Some (length m)"
      by (auto simp: split_ok_def)
    have gm: "good_end m" "good_begin r" "unstable r"
      using find_stable_end_split [OF lmr(3)] by auto
    show ?thesis
      using A lmr gm ys True \<open>s\<close> good_end_promote3 [of Ma m "[]" kh]
      by (intro exI [of _ "Ma @ m"]) (auto simp: level_ok_def)
  next
    case m: True
    then have lr: "l = qa @ c @ lb" "r = []" using sp ys by (auto simp: split_ok_def)
    have "unstable l"
    proof (cases "s \<and> 1 < length l")
      case True
      with sp m lr show ?thesis by (auto simp: split_ok_def)
    next
      case False
      with flag ys A(1) lr show ?thesis by (auto intro: unstable_short)
    qed
    with A lr m True ys show ?thesis
      by (intro exI [of _ Ma]) (auto simp: level_ok_def)
  qed
qed

lemma merge_level_closed:
  assumes A: "unstable qa" "Ma \<noteq> [] \<Longrightarrow> good_end Ma \<and> good_begin qa"
    and B: "middle_ok True ys lb Mb rb" and flag: "s \<or> Ma @ qa @ c @ ys = []"
    and sp: "split_ok s True (qa @ c @ lb @ rb) l m r"
  shows "\<exists>M. level_ok True (Ma @ qa @ c @ ys) M l r \<and>
      promote_groups kh M = promote_groups kh Ma @ promote_groups kh m @ promote_groups kh Mb \<and>
      (s \<and> l = [] \<or> m = [] \<and> Mb = [] \<and> Ma = [])"
proof (cases "m = []")
  case False
  have rb: "rb = []" "ys = lb @ Mb" "Mb \<noteq> [] \<Longrightarrow> good_end lb"
    using B by (auto simp: middle_ok_def split: if_splits)
  have s using flag sp False rb by (auto simp: split_ok_def)
  then have lmr: "l = []" "m = qa @ c @ lb" "r = []" "1 < length m"
    using sp False rb by (auto simp: split_ok_def)
  have "Mb \<noteq> [] \<Longrightarrow> good_end m" unfolding lmr(2) using rb(3) by (intro good_end_append)
  then show ?thesis
    using A lmr rb \<open>s\<close> good_end_promote3 [of Ma m Mb kh]
    by (intro exI [of _ "Ma @ m @ Mb"]) (auto simp: level_ok_def)
next
  case True
  then have l: "l = qa @ c @ lb @ rb" "r = []" "length l \<le> 1 \<or> \<not> s"
    using sp by (auto simp: split_ok_def)
  then have short: "length (qa @ c @ lb @ rb) \<le> 1" using flag B by (auto simp: middle_ok_def)
  have "Ma = []" using A(2) short good_begin_length by fastforce
  moreover have "Mb = []"
    using B short good_end_length by (fastforce simp: middle_ok_def split: if_splits)
  moreover from this have "ys = lb" "rb = []" using B by (auto simp: middle_ok_def)
  ultimately have parts: "Ma = []" "Mb = []" "Ma @ qa @ c @ ys = l" using l by simp_all
  have "length l = 0 \<or> length l = 1" using short unfolding l(1) by linarith
  then have "l = [] \<or> length l = 1" by simp
  with parts(1,2) l(2) True show ?thesis
    unfolding parts(3) by (intro exI [of _ "[]"]) (auto simp: level_ok_def)
qed

lemma merge_level:
  assumes A: "level_ok False xs Ma la ra" and B: "middle_ok e ys lb Mb rb"
    and flag: "s \<or> c = [] \<and> ys = [] \<and> (e \<longrightarrow> xs = [])"
    and sp: "split_ok s e (la @ ra @ c @ lb @ rb) l m r"
  shows "\<exists>M. level_ok e (xs @ c @ ys) M l r \<and>
      promote_groups kh M = promote_groups kh Ma @ promote_groups kh m @ promote_groups kh Mb \<and>
      (s \<and> l = [] \<or> m = [] \<and> Mb = [] \<and> (e \<longrightarrow> Ma = []))"
proof (cases e)
  case True
  then show ?thesis
    using merge_level_closed [of "la @ ra" Ma ys lb Mb rb s c l m r kh] assms
    by (auto simp: level_ok_def)
next
  case False
  then show ?thesis
    using merge_level_open [of "la @ ra" Ma ys lb Mb rb s c l m r kh] assms
    by (auto simp: level_ok_def)
qed

section \<open>Ranges built from chunks\<close>

definition start_inv :: "bool \<Rightarrow> hump_levels \<Rightarrow> node list \<Rightarrow> bool" where
  "start_inv e LR cur \<longleftrightarrow> (no_lefts LR \<or> cur = []) \<and> (e \<longrightarrow> no_rights LR)"

definition middle_inv :: "bool \<Rightarrow> hump_levels \<Rightarrow> node list \<Rightarrow> bool" where
  "middle_inv e LR cur \<longleftrightarrow> (e \<longrightarrow> no_rights LR)"

lemma level_ok_empty: "level_ok False [] [] [] []"
  by (simp add: level_ok_def unstable_short)

lemma middle_ok_empty: "middle_ok e [] [] [] []"
  by (simp add: middle_ok_def)

lemma start_level:
  assumes inv: "start_inv e LR cur" and sp: "split_ok (no_lefts LR) (e \<and> no_rights LR) cur l m r"
  shows "start_inv e (LR @ [(l, r)]) (promote_groups kh m) \<and> level_ok e cur m l r"
proof -
  have e: "(e \<and> no_rights LR) = e" using inv by (auto simp: start_inv_def)
  obtain M where M: "level_ok e cur M l r" "l = [] \<or> m = []"
    "promote_groups kh M = promote_groups kh m"
    using merge_level [OF level_ok_empty middle_ok_empty, of "no_lefts LR" cur e l m r kh] inv sp
    by (auto simp: start_inv_def e)
  have cur: "cur = M @ l @ r" "cur = l @ m @ r" "e \<Longrightarrow> r = []"
    using M(1) sp by (auto simp: level_ok_def split_ok_def)
  then have "M = m" using M(2) by auto
  with M cur inv show ?thesis by (auto simp: start_inv_def)
qed

interpretation start_hump: hump_rep kh True e "start_rep kh e" "start_inv e" for kh e
proof
  show "start_rep kh e [] []" by simp
  show "start_rep kh e [([x], [])] [x]" for x
    by (auto simp: level_ok_def unstable_short)
next
  fix LR cur l m r
  assume "start_inv e LR cur" "split_ok (True \<and> no_lefts LR) (e \<and> no_rights LR) cur l m r"
  then have lev: "start_inv e (LR @ [(l, r)]) (promote_groups kh m) \<and> level_ok e cur m l r"
    using start_level by simp
  then show "start_inv e (LR @ [(l, r)]) (promote_groups kh m)" by blast
  show "start_rep kh e ((l, r) # LR') cur" if "start_rep kh e LR' (promote_groups kh m)" for LR'
    using lev that by auto
qed

interpretation middle_hump: hump_rep kh False e "middle_rep kh e" "middle_inv e" for kh e
proof
  show "middle_rep kh e [] []" by simp
  show "middle_rep kh e [([x], [])] [x]" for x
    by (auto simp: middle_ok_def)
next
  fix LR cur l m r
  assume a: "middle_inv e LR cur" "split_ok (False \<and> no_lefts LR) (e \<and> no_rights LR) cur l m r"
  then have e: "(e \<and> no_rights LR) = e" by (auto simp: middle_inv_def)
  with a(2) have lev: "middle_ok e cur l m r"
    using find_stable_start_split(1) [of cur "length l"]
    by (auto simp: split_ok_def middle_ok_def)
  with a e show "middle_inv e (LR @ [(l, r)]) (promote_groups kh m)"
    by (auto simp: middle_inv_def middle_ok_def split: if_splits)
  show "middle_rep kh e ((l, r) # LR') cur" if "middle_rep kh e LR' (promote_groups kh m)" for LR'
    using lev that by auto
qed

section \<open>Merging\<close>

definition level_at :: "hump_levels \<Rightarrow> nat \<Rightarrow> node list \<times> node list" where
  "level_at LR i = (if i < length LR then LR ! i else ([], []))"

lemma start_rep_level:
  assumes "start_rep kh False (drop i LR) xs"
  obtains M where "level_ok False xs M (fst (level_at LR i)) (snd (level_at LR i))"
    and "start_rep kh False (drop (Suc i) LR) (promote_groups kh M)"
proof (cases "i < length LR")
  case True
  obtain l r where lr: "LR ! i = (l, r)" by fastforce
  then have "drop i LR = (l, r) # drop (Suc i) LR" using True by (simp flip: Cons_nth_drop_Suc)
  with assms lr True that show thesis by (auto simp: level_at_def)
next
  case False
  with assms that [of "[]"] show thesis by (simp add: level_at_def level_ok_empty)
qed

lemma middle_rep_level:
  assumes "middle_rep kh e (drop i LR) ys"
  obtains M where "middle_ok e ys (fst (level_at LR i)) M (snd (level_at LR i))"
    and "middle_rep kh e (drop (Suc i) LR) (promote_groups kh M)"
proof (cases "i < length LR")
  case True
  obtain l r where lr: "LR ! i = (l, r)" by fastforce
  then have "drop i LR = (l, r) # drop (Suc i) LR" using True by (simp flip: Cons_nth_drop_Suc)
  with assms lr True that show thesis by (auto simp: level_at_def)
next
  case False
  with assms that [of "[]"] show thesis by (simp add: level_at_def middle_ok_empty)
qed

lemma merge_levels_Cons:
  "merge_levels kh s e (tree_of LA s' e') (tree_of LB s'' e'') (i # is) out c =
     (case push_level kh s e out
             (fst (level_at LA i) @ snd (level_at LA i) @ c @ fst (level_at LB i) @ snd (level_at LB i)) of
        (out', promoted) \<Rightarrow> merge_levels kh s e (tree_of LA s' e') (tree_of LB s'' e'') is out' promoted)"
  by (simp add: level_at_def left_at_tree_of right_at_tree_of Let_def)

definition merge_inv :: "bool \<Rightarrow> hump_levels \<Rightarrow> node list \<Rightarrow> node list \<Rightarrow> node list \<Rightarrow> bool" where
  "merge_inv e LR xs c ys \<longleftrightarrow>
     (no_lefts LR \<or> c = [] \<and> ys = [] \<and> (e \<longrightarrow> xs = [])) \<and> (e \<longrightarrow> no_rights LR)"

lemma merge_levels_rep:
  assumes "start_rep kh False (drop i LA) xs" and "middle_rep kh e (drop i LB) ys"
    and "out_ok out LR" and "merge_inv e LR xs c ys"
    and "length LA \<le> i + n" and "length LB \<le> i + n"
  shows "\<exists>out' c' LR'.
      merge_levels kh True e (tree_of LA True False) (tree_of LB False e) [i..<i + n] out c = (out', c') \<and>
      out_ok out' (LR @ LR') \<and> start_inv e (LR @ LR') c' \<and>
      (\<forall>LR''. start_rep kh e LR'' c' \<longrightarrow> start_rep kh e (LR' @ LR'') (xs @ c @ ys))"
  using assms
proof (induction n arbitrary: i xs ys c out LR)
  case 0
  then have "xs = []" "ys = []" by simp_all
  with 0 show ?case
    by (intro exI [of _ out] exI [of _ c] exI [of _ "[]"]) (auto simp: merge_inv_def start_inv_def)
next
  case (Suc n)
  obtain Ma where A: "level_ok False xs Ma (fst (level_at LA i)) (snd (level_at LA i))"
    "start_rep kh False (drop (Suc i) LA) (promote_groups kh Ma)"
    using start_rep_level [OF Suc.prems(1)] .
  obtain Mb where B: "middle_ok e ys (fst (level_at LB i)) Mb (snd (level_at LB i))"
    "middle_rep kh e (drop (Suc i) LB) (promote_groups kh Mb)"
    using middle_rep_level [OF Suc.prems(2)] .
  obtain out1 l m r where pl: "push_level kh True e out
      (fst (level_at LA i) @ snd (level_at LA i) @ c @ fst (level_at LB i) @ snd (level_at LB i)) =
        (out1, promote_groups kh m)"
    "out_ok out1 (LR @ [(l, r)])"
    and sp: "split_ok (True \<and> no_lefts LR) (e \<and> no_rights LR)
      (fst (level_at LA i) @ snd (level_at LA i) @ c @ fst (level_at LB i) @ snd (level_at LB i)) l m r"
    using push_level_ok [OF Suc.prems(3)] .
  have e: "(e \<and> no_rights LR) = e" using Suc.prems(4) by (auto simp: merge_inv_def)
  obtain M where M: "level_ok e (xs @ c @ ys) M l r"
    "promote_groups kh M = promote_groups kh Ma @ promote_groups kh m @ promote_groups kh Mb"
    "no_lefts LR \<and> l = [] \<or> m = [] \<and> Mb = [] \<and> (e \<longrightarrow> Ma = [])"
    using merge_level [OF A(1) B(1), of "no_lefts LR" c l m r kh] sp Suc.prems(4)
    by (auto simp: merge_inv_def e)
  have inv: "merge_inv e (LR @ [(l, r)]) (promote_groups kh Ma) (promote_groups kh m) (promote_groups kh Mb)"
    using M(1,3) Suc.prems(4) by (auto simp: merge_inv_def level_ok_def)
  obtain out' c' LR' where IH:
    "merge_levels kh True e (tree_of LA True False) (tree_of LB False e) [Suc i..<Suc i + n] out1
       (promote_groups kh m) = (out', c')"
    "out_ok out' ((LR @ [(l, r)]) @ LR')" "start_inv e ((LR @ [(l, r)]) @ LR') c'"
    "\<forall>LR''. start_rep kh e LR'' c' \<longrightarrow> start_rep kh e (LR' @ LR'') (promote_groups kh M)"
    using Suc.IH [OF A(2) B(2) pl(2) inv] Suc.prems(5,6) unfolding M(2) by auto
  have "[i..<i + Suc n] = i # [Suc i..<Suc i + n]" by (simp add: upt_conv_Cons)
  then have "merge_levels kh True e (tree_of LA True False) (tree_of LB False e) [i..<i + Suc n] out c = (out', c')"
    using IH(1) pl(1) by (simp only: merge_levels_Cons prod.case)
  moreover have "\<forall>LR''. start_rep kh e LR'' c' \<longrightarrow> start_rep kh e (((l, r) # LR') @ LR'') (xs @ c @ ys)"
    using IH(4) M(1) by auto
  ultimately show ?case
    using IH(2,3) by (intro exI [of _ out'] exI [of _ c'] exI [of _ "(l, r) # LR'"]) simp
qed

lemma sides_replicate [simp]:
  "lefts (replicate n ([], [])) = []" "rights (replicate n ([], [])) = []"
  by (induction n) auto

lemma trim_levels_lens:
  "\<exists>LR' n. LR = LR' @ replicate n ([], []) \<and> trim_levels (lens LR) = lens LR' \<and>
     (length LR' \<le> 1 \<or> last LR' \<noteq> ([], []))"
proof (induction LR rule: rev_induct)
  case Nil
  show ?case by (simp add: trim_levels.simps)
next
  case (snoc p LR)
  show ?case
  proof (cases "p = ([], []) \<and> LR \<noteq> []")
    case True
    then have "trim_levels (lens (LR @ [p])) = trim_levels (lens LR)"
      by (subst trim_levels.simps) auto
    with snoc True show ?thesis
      by (metis append_assoc replicate_append_same replicate_Suc)
  next
    case False
    then have "trim_levels (lens (LR @ [p])) = lens (LR @ [p])"
      by (cases p; subst trim_levels.simps) auto
    with False show ?thesis
      by (intro exI [of _ "LR @ [p]"] exI [of _ 0]) auto
  qed
qed

lemma start_rep_trim:
  "start_rep kh e (LR @ replicate n ([], [])) xs \<Longrightarrow> start_rep kh e LR xs"
proof (induction LR arbitrary: xs)
  case Nil
  then show ?case
  proof (induction n arbitrary: xs)
    case (Suc n)
    then obtain M where "level_ok e xs M [] []" "start_rep kh e (replicate n ([], [])) (promote_groups kh M)"
      by auto
    then show ?case using Suc.IH by (fastforce simp: level_ok_def)
  qed simp
next
  case (Cons p LR)
  then show ?case by (cases p) auto
qed

lemma merge_into_rep:
  assumes A: "start_rep kh False LA xs" and B: "middle_rep kh e LB ys"
  obtains LR where "merge_into_impl kh (tree_of LA True False) (tree_of LB False e) = Inr (tree_of LR True e)"
    and "start_rep kh e LR (xs @ ys)" and "trimmed LR"
proof -
  let ?n = "max (length LA) (length LB)"
  obtain out c L1 where L1:
    "merge_levels kh True e (tree_of LA True False) (tree_of LB False e) [0..<0 + ?n] empty_hump_out [] = (out, c)"
    "out_ok out ([] @ L1)" "start_inv e ([] @ L1) c"
    "\<forall>L2. start_rep kh e L2 c \<longrightarrow> start_rep kh e (L1 @ L2) (xs @ [] @ ys)"
    using merge_levels_rep [of kh 0 LA xs e LB ys empty_hump_out "[]" "[]" ?n] A B out_ok_empty
    by (auto simp: merge_inv_def)
  obtain L2 where L2: "out_rep (carry_loop kh True e out c) (([] @ L1) @ L2)" "start_rep kh e L2 c"
    using start_hump.carry_rep [OF L1(3,2)] by blast
  obtain LR n where LR: "L1 @ L2 = LR @ replicate n ([], [])" "trim_levels (lens (L1 @ L2)) = lens LR"
    "length LR \<le> 1 \<or> last LR \<noteq> ([], [])"
    using trim_levels_lens by blast
  have "lefts (L1 @ L2) = lefts LR" "rights (L1 @ L2) = rights LR" unfolding LR(1) by simp_all
  then have "merge_into_impl kh (tree_of LA True False) (tree_of LB False e) = Inr (tree_of LR True e)"
    using L1(1) L2(1) LR(2) by (simp add: merge_into_impl_def out_rep_def tree_of_def [of LR] split_beta Let_def)
  moreover have "start_rep kh e LR (xs @ ys)"
    using L1(4) L2(2) LR(1) start_rep_trim by (metis append_Nil)
  moreover have "trimmed LR" using LR(3) by (simp add: trimmed_def)
  ultimately show thesis by (rule that)
qed

section \<open>The final hash\<close>

lemma closed_shape:
  "start_rep kh True LR xs \<Longrightarrow>
     if xs = [] then set LR \<subseteq> {([], [])}
     else \<exists>pre x post. LR = pre @ ([x], []) # post \<and> set pre \<subseteq> {([], [])} \<and> set post \<subseteq> {([], [])} \<and>
            agg_loop kh xs = [x]"
proof (induction LR arbitrary: xs)
  case (Cons p LR)
  obtain l r where p: "p = (l, r)" by fastforce
  obtain M where lev: "level_ok True xs M l r" and rest: "start_rep kh True LR (promote_groups kh M)"
    using Cons.prems p by auto
  show ?case
  proof (cases "l = []")
    case True
    with lev have xs: "M = xs" "r = []" "length xs \<noteq> 1" by (auto simp: level_ok_def)
    show ?thesis
    proof (cases "xs = []")
      case True
      then show ?thesis using Cons.IH [OF rest] xs p \<open>l = []\<close> by simp
    next
      case False
      then have "1 < length xs" using xs(3) by (cases xs) auto
      then have "agg_loop kh xs = agg_loop kh (promote_groups kh M)"
        unfolding xs(1) by (rule agg_loop_step)
      then obtain pre x post where "LR = pre @ ([x], []) # post" "set pre \<subseteq> {([], [])}" "set post \<subseteq> {([], [])}"
        "agg_loop kh xs = [x]"
        using Cons.IH [OF rest] False xs(1) by (auto split: if_splits)
      with p True xs(2) False show ?thesis
        by (intro iffD2 [OF if_not_P] exI [of _ "([], []) # pre"] exI [of _ x] exI [of _ post]) auto
    qed
  next
    case False
    with lev have xs: "M = []" "r = []" "xs = l" "length l = 1" by (auto simp: level_ok_def)
    then obtain x where "l = [x]" by (auto simp: length_Suc_conv)
    with xs p Cons.IH [OF rest] agg_loop_single [of xs kh] show ?thesis
      by (auto intro!: exI [of _ "[]"])
  qed
qed simp

lemma final_hash_closed:
  assumes "start_rep kh True LR xs" and "trimmed LR"
  shows "final_hash (tree_of LR True True) = Some (aggregated_node_hash kh xs)"
    and "xs \<noteq> [] \<Longrightarrow> length (left_at (tree_of LR True True) (num_levels (tree_of LR True True) - 1)) = 1"
proof -
  have all_empty: "lefts ls = []" "rights ls = []" if "set ls \<subseteq> {([], [])}" for ls
    using that by (induction ls) auto
  show "final_hash (tree_of LR True True) = Some (aggregated_node_hash kh xs)"
    "xs \<noteq> [] \<Longrightarrow> length (left_at (tree_of LR True True) (num_levels (tree_of LR True True) - 1)) = 1"
  proof (cases "xs = []")
    case True
    then have "set LR \<subseteq> {([], [])}" using closed_shape [OF assms(1)] by simp
    then have "nodes (tree_of LR True True) = []" by (simp add: nodes_tree_of all_empty)
    with True show "final_hash (tree_of LR True True) = Some (aggregated_node_hash kh xs)"
      by (simp add: final_hash_def aggregated_node_hash_def)
  next
    case False
    then obtain pre x post where LR: "LR = pre @ ([x], []) # post" "set post \<subseteq> {([], [])}"
      "agg_loop kh xs = [x]"
      using closed_shape [OF assms(1)] by auto
    have "post = []"
    proof (rule ccontr)
      assume "post \<noteq> []"
      then have "last post = ([], [])" using last_in_set LR(2) by blast
      with \<open>post \<noteq> []\<close> have "last LR = ([], [])" unfolding LR(1) by simp
      with assms(2) LR(1) \<open>post \<noteq> []\<close> show False by (simp add: trimmed_def)
    qed
    with LR have top: "left_at (tree_of LR True True) (length LR - 1) = [x]"
      by (subst left_at_tree_of) auto
    have ne: "nodes (tree_of LR True True) \<noteq> []" by (simp add: nodes_tree_of LR(1))
    have lv: "length (levels (tree_of LR True True)) = length LR" by (simp add: tree_of_def)
    show "final_hash (tree_of LR True True) = Some (aggregated_node_hash kh xs)"
      using ne lv top False LR(3) by (simp add: final_hash_def aggregated_node_hash_def)
    show "length (left_at (tree_of LR True True) (num_levels (tree_of LR True True) - 1)) = 1"
      using top by simp
  qed
qed

text \<open>Consecutive pieces of a file's chunk list as ranges: the first knows that it starts the file,
  the last that it ends it.\<close>

definition ranges_of :: "keyed_hash \<Rightarrow> node list list \<Rightarrow> merkle_hash_subtree list" where
  "ranges_of kh pieces =
     map (\<lambda>i. from_chunks kh (i = 0) (pieces ! i) (Suc i = length pieces)) [0..<length pieces]"

fun tail_ranges :: "keyed_hash \<Rightarrow> node list list \<Rightarrow> merkle_hash_subtree list" where
  "tail_ranges kh [] = []"
| "tail_ranges kh (p # ps) = from_chunks kh False p (ps = []) # tail_ranges kh ps"

lemma tail_ranges_eq:
  "tail_ranges kh ps = map (\<lambda>i. from_chunks kh False (ps ! i) (Suc i = length ps)) [0..<length ps]"
proof (induction ps)
  case (Cons p ps)
  show ?case
    by (simp add: Cons map_upt_Suc del: upt_Suc)
qed simp

lemma ranges_of_Cons:
  "ranges_of kh (p # ps) = from_chunks kh True p (ps = []) # tail_ranges kh ps"
  by (simp add: ranges_of_def tail_ranges_eq map_upt_Suc del: upt_Suc)

lemma merge_loop_rep:
  "start_rep kh (ps = []) LR xs \<Longrightarrow> trimmed LR \<Longrightarrow>
     \<exists>LR'. merge_loop kh (tree_of LR True (ps = [])) (tail_ranges kh ps) = Inr (tree_of LR' True True) \<and>
           start_rep kh True LR' (xs @ concat ps) \<and> trimmed LR'"
proof (induction ps arbitrary: LR xs)
  case (Cons p ps)
  obtain LB where LB: "from_chunks kh False p (ps = []) = tree_of LB False (ps = [])"
    "middle_rep kh (ps = []) LB p"
    using middle_hump.build_rep [of "ps = []" p kh] by (auto simp: middle_inv_def)
  obtain LM where LM: "merge_into_impl kh (tree_of LR True False) (tree_of LB False (ps = [])) =
      Inr (tree_of LM True (ps = []))" "start_rep kh (ps = []) LM (xs @ p)" "trimmed LM"
    using merge_into_rep [of kh LR xs "ps = []" LB p] Cons.prems LB(2) by auto
  with Cons.IH [of LM "xs @ p"] LB(1) show ?case by simp
qed auto

lemma merge_ranges_rep:
  assumes "pieces \<noteq> []"
  obtains LR where "merge_ranges kh (ranges_of kh pieces) = Inr (tree_of LR True True)"
    and "start_rep kh True LR (concat pieces)" and "trimmed LR"
proof -
  obtain p ps where pieces: "pieces = p # ps" using assms by (cases pieces) auto
  obtain LA where LA: "from_chunks kh True p (ps = []) = tree_of LA True (ps = [])"
    "start_rep kh (ps = []) LA p" "trimmed LA"
    using start_hump.build_rep [of "ps = []" p kh] by (auto simp: start_inv_def)
  have "merge_ranges kh (ranges_of kh pieces) =
      merge_loop kh (tree_of LA True (ps = [])) (tail_ranges kh ps)"
    unfolding pieces ranges_of_Cons LA(1) by (cases ps) (simp_all add: merge_ranges_def)
  moreover obtain LR where "merge_loop kh (tree_of LA True (ps = [])) (tail_ranges kh ps) = Inr (tree_of LR True True)"
    "start_rep kh True LR (p @ concat ps)" "trimmed LR"
    using merge_loop_rep [OF LA(2,3)] by blast
  ultimately show thesis using that pieces by simp
qed

text \<open>(C1) Splitting the chunk list of a file anywhere into consecutive pieces, building a subtree for
  each piece independently and merging them from left to right never fails and gives the
  aggregated hash of the whole list; the top level then holds exactly one node, so the access to
  its first element does not panic.\<close>

theorem merge_final_hash:
  "\<exists>t. merge_ranges kh (ranges_of kh pieces) = Inr t \<and>
     final_hash t = Some (aggregated_node_hash kh (concat pieces)) \<and>
     (concat pieces = [] \<or> length (left_at t (num_levels t - 1)) = 1)"
proof (cases "pieces = []")
  case True
  obtain LR where "from_chunks kh True [] True = tree_of LR True True" "start_rep kh True LR []" "trimmed LR"
    using start_hump.build_rep [of True "[]" kh] by (auto simp: start_inv_def)
  with True final_hash_closed [of kh LR "[]"] show ?thesis
    by (auto simp: ranges_of_def merge_ranges_def)
next
  case False
  then obtain LR where "merge_ranges kh (ranges_of kh pieces) = Inr (tree_of LR True True)"
    "start_rep kh True LR (concat pieces)" "trimmed LR"
    using merge_ranges_rep by blast
  with final_hash_closed [of kh LR "concat pieces"] show ?thesis by blast
qed

section \<open>Errors, and ranges in the middle of a file\<close>


text \<open>A small keyed hash and a chunk list with a natural cut at every third chunk, for evaluation.\<close>

definition demo_hash :: keyed_hash where
  "demo_hash key data = [foldl (\<lambda>a b. 3 * a + b) 7 data] @ replicate 23 0 @ [1] @ replicate 7 0"

definition demo_nodes :: "nat \<Rightarrow> nat \<Rightarrow> node list" where
  "demo_nodes i j = map (\<lambda>n. (DataHash 0 0 0 (if n mod 3 = 0 then 4 else 1), of_nat n)) [i..<j]"


end
