(* ===== verification/Serialization_Utils.thy ===== *)
theory Serialization_Utils
  imports Data_Hash
begin

text \<open>
  \<open>xet_core_structures/src/utils/serialization_utils.rs\<close>: the primitive readers and writers. A
  writer into memory is the bytes it appends; a reader takes the bytes that remain and returns the
  value with the rest. The asynchronous readers of the same file differ from the synchronous ones
  in \<open>await\<close> only and share their model. The locale \<open>codec\<close> is the contract of a fixed-size record:
  the shard and xorb structures interpret it, and the lemmas on sequences of records are proved
  once for all of them.
\<close>

section \<open>Primitives\<close>

definition write_hash :: "data_hash \<Rightarrow> bytes" where
  "write_hash m = as_bytes m"

definition write_u8 :: "u8 \<Rightarrow> bytes" where
  "write_u8 v = le_bytes 1 v"

definition write_u32 :: "u32 \<Rightarrow> bytes" where
  "write_u32 v = le_bytes 4 v"

definition write_u64 :: "u64 \<Rightarrow> bytes" where
  "write_u64 v = le_bytes 8 v"

definition write_bytes :: "bytes \<Rightarrow> bytes" where
  "write_bytes vs = vs"

definition write_u32s :: "u32 list \<Rightarrow> bytes" where
  "write_u32s vs = concat (map write_u32 vs)"

definition write_u64s :: "u64 list \<Rightarrow> bytes" where
  "write_u64s vs = concat (map write_u64 vs)"

type_synonym 'a reader = "bytes \<Rightarrow> io_error + ('a \<times> bytes)"

definition read_hash :: "data_hash reader" where
  "read_hash bs = rbind (read_exact 32 bs) (\<lambda>(m, rest). Inr (from_bytes m, rest))"

definition read_u8 :: "u8 reader" where
  "read_u8 bs = rbind (read_exact 1 bs) (\<lambda>(buf, rest). Inr (from_le buf, rest))"

definition read_u32 :: "u32 reader" where
  "read_u32 bs = rbind (read_exact 4 bs) (\<lambda>(buf, rest). Inr (from_le buf, rest))"

definition read_u64 :: "u64 reader" where
  "read_u64 bs = rbind (read_exact 8 bs) (\<lambda>(buf, rest). Inr (from_le buf, rest))"

definition read_bytes :: "nat \<Rightarrow> bytes reader" where
  "read_bytes n bs = read_exact n bs"

text \<open>The loop that reads \<open>n\<close> values in turn and stops at the first failure.\<close>

fun read_n :: "'a reader \<Rightarrow> nat \<Rightarrow> 'a list reader" where
  "read_n de 0 bs = Inr ([], bs)"
| "read_n de (Suc n) bs =
     rbind (de bs) (\<lambda>(x, rest). rbind (read_n de n rest) (\<lambda>(xs, rest). Inr (x # xs, rest)))"

definition read_u32s :: "nat \<Rightarrow> u32 list reader" where
  "read_u32s n bs = read_n read_u32 n bs"

definition read_u64s :: "nat \<Rightarrow> u64 list reader" where
  "read_u64s n bs = read_n read_u64 n bs"

section \<open>Fixed-size records\<close>

locale codec =
  fixes ser :: "'a \<Rightarrow> bytes" and de :: "'a reader" and record_size :: nat and wf :: "'a \<Rightarrow> bool"
  assumes de_ser: "wf x \<Longrightarrow> de (ser x @ rest) = Inr (x, rest)"
    and length_ser: "length (ser x) = record_size"
    and de_short: "length bs < record_size \<Longrightarrow> de bs = Inl UnexpectedEof"
    and de_full: "record_size \<le> length bs \<Longrightarrow> \<exists>x. wf x \<and> de bs = Inr (x, drop record_size bs)"
begin

lemma de_ser_alone: "wf x \<Longrightarrow> de (ser x) = Inr (x, [])"
  using de_ser [of x "[]"] by simp

lemma ser_inject: "wf x \<Longrightarrow> wf y \<Longrightarrow> ser x = ser y \<Longrightarrow> x = y"
  by (metis Pair_inject de_ser_alone sum.inject(2))

lemma length_sers: "length (concat (map ser xs)) = length xs * record_size"
  by (induction xs) (simp_all add: length_ser)

lemma read_n_sers:
  "(\<forall>x \<in> set xs. wf x) \<Longrightarrow> read_n de (length xs) (concat (map ser xs) @ rest) = Inr (xs, rest)"
  by (induction xs) (simp_all add: de_ser)

lemma de_sers_nth:
  assumes "\<forall>x \<in> set xs. wf x" and "i < length xs"
  shows "\<exists>rest'. de (drop (i * record_size) (concat (map ser xs) @ rest)) = Inr (xs ! i, rest')"
proof -
  have "concat (map ser xs) = concat (map ser (take i xs)) @ ser (xs ! i) @ concat (map ser (drop (Suc i) xs))"
    by (subst id_take_nth_drop [OF assms(2)]) simp
  moreover have "length (concat (map ser (take i xs))) = i * record_size"
    using assms(2) by (simp add: length_sers)
  ultimately have "drop (i * record_size) (concat (map ser xs) @ rest) =
      ser (xs ! i) @ concat (map ser (drop (Suc i) xs)) @ rest"
    by simp
  with assms show ?thesis by (simp add: de_ser)
qed

text \<open>A read succeeds exactly when the bytes are there.\<close>

lemma read_n_cases:
  "if length bs < n * record_size then read_n de n bs = Inl UnexpectedEof
   else \<exists>xs. read_n de n bs = Inr (xs, drop (n * record_size) bs) \<and> length xs = n \<and> (\<forall>x \<in> set xs. wf x)"
proof (induction n arbitrary: bs)
  case (Suc n)
  show ?case
  proof (cases "length bs < record_size")
    case True
    then show ?thesis by (simp add: de_short)
  next
    case False
    then obtain x where x: "wf x" "de bs = Inr (x, drop record_size bs)" using de_full by force
    have len: "length (drop record_size bs) < n * record_size \<longleftrightarrow> length bs < Suc n * record_size"
      using False by auto
    show ?thesis
    proof (cases "length bs < Suc n * record_size")
      case True
      with Suc.IH [of "drop record_size bs"] len x(2) show ?thesis by simp
    next
      case False
      with Suc.IH [of "drop record_size bs"] len obtain xs where
        "read_n de n (drop record_size bs) = Inr (xs, drop (n * record_size) (drop record_size bs))"
        "length xs = n" "\<forall>x \<in> set xs. wf x"
        by auto
      with False x show ?thesis by (auto simp: add.commute)
    qed
  qed
qed simp

end

interpretation hash_codec: codec write_hash read_hash 32 "\<lambda>_. True"
proof
  show "read_hash (write_hash x @ rest) = Inr (x, rest)" for x rest
    by (simp add: read_hash_def write_hash_def reader_simps)
  show "length (write_hash x) = 32" for x by (simp add: write_hash_def)
  show "length bs < 32 \<Longrightarrow> read_hash bs = Inl UnexpectedEof" for bs
    by (simp add: read_hash_def reader_simps)
  show "32 \<le> length bs \<Longrightarrow> \<exists>x. True \<and> read_hash bs = Inr (x, drop 32 bs)" for bs
    by (simp add: read_hash_def read_exact_def)
qed

interpretation u8_codec: codec write_u8 read_u8 1 "\<lambda>_. True"
proof
  show "read_u8 (write_u8 x @ rest) = Inr (x, rest)" for x rest
    by (simp add: read_u8_def write_u8_def read_exact_append from_le_le_bytes)
  show "length (write_u8 x) = 1" for x by (simp add: write_u8_def)
  show "length bs < 1 \<Longrightarrow> read_u8 bs = Inl UnexpectedEof" for bs
    by (cases bs) (simp_all add: read_u8_def read_exact_def)
  show "1 \<le> length bs \<Longrightarrow> \<exists>x. True \<and> read_u8 bs = Inr (x, drop 1 bs)" for bs
    by (cases bs) (simp_all add: read_u8_def read_exact_def)
qed

interpretation u32_codec: codec write_u32 read_u32 4 "\<lambda>_. True"
proof
  show "read_u32 (write_u32 x @ rest) = Inr (x, rest)" for x rest
    by (simp add: read_u32_def write_u32_def read_exact_append from_le_le_bytes)
  show "length (write_u32 x) = 4" for x by (simp add: write_u32_def)
  show "length bs < 4 \<Longrightarrow> read_u32 bs = Inl UnexpectedEof" for bs
    by (simp add: read_u32_def read_exact_def)
  show "4 \<le> length bs \<Longrightarrow> \<exists>x. True \<and> read_u32 bs = Inr (x, drop 4 bs)" for bs
    by (simp add: read_u32_def read_exact_def)
qed

interpretation u64_codec: codec write_u64 read_u64 8 "\<lambda>_. True"
proof
  show "read_u64 (write_u64 x @ rest) = Inr (x, rest)" for x rest
    by (simp add: read_u64_def write_u64_def read_exact_append from_le_le_bytes)
  show "length (write_u64 x) = 8" for x by (simp add: write_u64_def)
  show "length bs < 8 \<Longrightarrow> read_u64 bs = Inl UnexpectedEof" for bs
    by (simp add: read_u64_def read_exact_def)
  show "8 \<le> length bs \<Longrightarrow> \<exists>x. True \<and> read_u64 bs = Inr (x, drop 8 bs)" for bs
    by (simp add: read_u64_def read_exact_def)
qed

lemmas primitive_codecs [reader_simps] =
  hash_codec.de_ser [OF TrueI] u8_codec.de_ser [OF TrueI] u32_codec.de_ser [OF TrueI]
  u64_codec.de_ser [OF TrueI] hash_codec.de_ser_alone [OF TrueI] u32_codec.de_ser_alone [OF TrueI]
  u64_codec.de_ser_alone [OF TrueI] u8_codec.de_ser_alone [OF TrueI]
  hash_codec.length_ser u8_codec.length_ser u32_codec.length_ser u64_codec.length_ser

text \<open>The array readers return what the array writers wrote.\<close>

lemma read_u32s_write_u32s [reader_simps]: "read_u32s (length vs) (write_u32s vs @ rest) = Inr (vs, rest)"
  using u32_codec.read_n_sers [of vs rest] by (simp add: read_u32s_def write_u32s_def)

lemma read_u64s_write_u64s [reader_simps]: "read_u64s (length vs) (write_u64s vs @ rest) = Inr (vs, rest)"
  using u64_codec.read_n_sers [of vs rest] by (simp add: read_u64s_def write_u64s_def)

lemma length_write_u32s [reader_simps]: "length (write_u32s vs) = length vs * 4"
  by (simp add: write_u32s_def u32_codec.length_sers)

lemma length_write_u64s [reader_simps]: "length (write_u64s vs) = length vs * 8"
  by (simp add: write_u64s_def u64_codec.length_sers)

text \<open>A field read in the middle of a record whose bytes are all there.\<close>

lemma read_hash_full: "32 \<le> length v \<Longrightarrow> read_hash v = Inr (from_bytes (take 32 v), drop 32 v)"
  by (simp add: read_hash_def read_exact_def)

lemma read_u32_full: "4 \<le> length v \<Longrightarrow> read_u32 v = Inr (from_le (take 4 v), drop 4 v)"
  by (simp add: read_u32_def read_exact_def)

lemma read_u64_full: "8 \<le> length v \<Longrightarrow> read_u64 v = Inr (from_le (take 8 v), drop 8 v)"
  by (simp add: read_u64_def read_exact_def)

lemma read_u8_full: "1 \<le> length v \<Longrightarrow> read_u8 v = Inr (from_le (take 1 v), drop 1 v)"
  by (cases v) (simp_all add: read_u8_def read_exact_def)

lemmas field_reads = read_hash_full read_u32_full read_u64_full read_u8_full

end
