(* ===== verification/File_Structs.thy ===== *)
theory File_Structs
  imports Serialization_Utils
begin

text \<open>
  \<open>xet_core_structures/src/metadata_shard/file_structs.rs\<close>: the 48-byte records that describe a
  file in a shard, the file info built from them, and the view over its serialized form. The
  records interpret the contract \<open>codec\<close>; the file info is shown to be read back as written, to be
  refused when truncated, and the view to select what the serialized form holds. A panic is \<open>None\<close>.
\<close>

section \<open>Records\<close>

definition MDB_DEFAULT_FILE_FLAG :: u32 where
  "MDB_DEFAULT_FILE_FLAG = 0"

definition MDB_FILE_FLAG_WITH_VERIFICATION :: u32 where
  "MDB_FILE_FLAG_WITH_VERIFICATION = push_bit 31 1"

definition MDB_FILE_FLAG_VERIFICATION_MASK :: u32 where
  "MDB_FILE_FLAG_VERIFICATION_MASK = push_bit 31 1"

definition MDB_FILE_FLAG_WITH_METADATA_EXT :: u32 where
  "MDB_FILE_FLAG_WITH_METADATA_EXT = push_bit 30 1"

definition MDB_FILE_FLAG_METADATA_EXT_MASK :: u32 where
  "MDB_FILE_FLAG_METADATA_EXT_MASK = push_bit 30 1"

definition MDB_FILE_INFO_ENTRY_SIZE :: nat where
  "MDB_FILE_INFO_ENTRY_SIZE = 48"

lemmas file_flag_defs =
  MDB_DEFAULT_FILE_FLAG_def MDB_FILE_FLAG_WITH_VERIFICATION_def MDB_FILE_FLAG_VERIFICATION_MASK_def
  MDB_FILE_FLAG_WITH_METADATA_EXT_def MDB_FILE_FLAG_METADATA_EXT_MASK_def

record file_data_sequence_header =
  fh_file_hash :: merkle_hash
  fh_file_flags :: u32
  fh_num_entries :: u32
  fh_unused :: u64

record file_data_sequence_entry =
  fe_xorb_hash :: merkle_hash
  fe_xorb_flags :: u32
  fe_unpacked_segment_bytes :: u32
  fe_chunk_index_start :: u32
  fe_chunk_index_end :: u32

record file_verification_entry =
  fv_range_hash :: merkle_hash
  fv_unused :: "u64 \<times> u64"

record file_metadata_ext =
  fm_sha256 :: merkle_hash
  fm_unused :: "u64 \<times> u64"

subsection \<open>Header\<close>

definition file_header_new ::
  "merkle_hash \<Rightarrow> nat \<Rightarrow> bool \<Rightarrow> bool \<Rightarrow> file_data_sequence_header option" where
  "file_header_new file_hash num_entries contains_verification contains_metadata_ext =
     (let verification_flag = (if contains_verification then MDB_FILE_FLAG_WITH_VERIFICATION else 0);
          metadata_ext_flag = (if contains_metadata_ext then MDB_FILE_FLAG_WITH_METADATA_EXT else 0);
          file_flags = MDB_DEFAULT_FILE_FLAG OR verification_flag OR metadata_ext_flag
      in map_option (\<lambda>n. \<lparr>fh_file_hash = file_hash, fh_file_flags = file_flags, fh_num_entries = n, fh_unused = 0\<rparr>)
           (try_u32 num_entries))"

definition file_header_bookend :: file_data_sequence_header where
  "file_header_bookend = \<lparr>fh_file_hash = marker, fh_file_flags = 0, fh_num_entries = 0, fh_unused = 0\<rparr>"

definition file_header_is_bookend :: "file_data_sequence_header \<Rightarrow> bool" where
  "file_header_is_bookend h \<longleftrightarrow> fh_file_hash h = marker"

definition file_header_serialize :: "file_data_sequence_header \<Rightarrow> bytes" where
  "file_header_serialize h =
     write_hash (fh_file_hash h) @ write_u32 (fh_file_flags h) @ write_u32 (fh_num_entries h) @
     write_u64 (fh_unused h)"

definition file_header_deserialize :: "file_data_sequence_header reader" where
  "file_header_deserialize bs =
     rbind (read_exact 48 bs) (\<lambda>(v, rest).
     rbind (read_hash v) (\<lambda>(file_hash, v).
     rbind (read_u32 v) (\<lambda>(file_flags, v).
     rbind (read_u32 v) (\<lambda>(num_entries, v).
     rbind (read_u64 v) (\<lambda>(unused, v).
       Inr (\<lparr>fh_file_hash = file_hash, fh_file_flags = file_flags, fh_num_entries = num_entries,
             fh_unused = unused\<rparr>, rest))))))"

definition header_contains_metadata_ext :: "file_data_sequence_header \<Rightarrow> bool" where
  "header_contains_metadata_ext h \<longleftrightarrow> fh_file_flags h AND MDB_FILE_FLAG_METADATA_EXT_MASK \<noteq> 0"

definition header_contains_verification :: "file_data_sequence_header \<Rightarrow> bool" where
  "header_contains_verification h \<longleftrightarrow> fh_file_flags h AND MDB_FILE_FLAG_VERIFICATION_MASK \<noteq> 0"

definition num_info_entry_following :: "file_data_sequence_header \<Rightarrow> u32" where
  "num_info_entry_following h =
     (let num_metadata_ext = (if header_contains_metadata_ext h then 1 else 0)
      in if header_contains_verification h then fh_num_entries h * 2 + num_metadata_ext
         else fh_num_entries h + num_metadata_ext)"

datatype superset_result = SuperA | SuperB | Neither | Equal

definition compare_flag_superset ::
  "file_data_sequence_header \<Rightarrow> file_data_sequence_header \<Rightarrow> superset_result" where
  "compare_flag_superset header_a header_b =
     (let flags0 = fh_file_flags header_a; flags1 = fh_file_flags header_b
      in if flags0 = flags1 then Equal
         else if flags0 AND flags1 = flags1 then SuperA
         else if flags1 AND flags0 = flags0 then SuperB
         else Neither)"

subsection \<open>Data, verification and metadata entries\<close>

definition file_entry_default :: file_data_sequence_entry where
  "file_entry_default = \<lparr>fe_xorb_hash = default_hash, fe_xorb_flags = 0, fe_unpacked_segment_bytes = 0,
     fe_chunk_index_start = 0, fe_chunk_index_end = 0\<rparr>"

definition file_entry_new :: "merkle_hash \<Rightarrow> nat \<Rightarrow> nat \<Rightarrow> nat \<Rightarrow> file_data_sequence_entry option" where
  "file_entry_new xorb_hash unpacked_segment_bytes chunk_index_start chunk_index_end =
     Option.bind (try_u32 unpacked_segment_bytes) (\<lambda>n.
     Option.bind (try_u32 chunk_index_start) (\<lambda>i.
     Option.bind (try_u32 chunk_index_end) (\<lambda>j.
       Some \<lparr>fe_xorb_hash = xorb_hash, fe_xorb_flags = MDB_DEFAULT_FILE_FLAG,
             fe_unpacked_segment_bytes = n, fe_chunk_index_start = i, fe_chunk_index_end = j\<rparr>)))"

definition file_entry_serialize :: "file_data_sequence_entry \<Rightarrow> bytes" where
  "file_entry_serialize e =
     write_hash (fe_xorb_hash e) @ write_u32 (fe_xorb_flags e) @
     write_u32 (fe_unpacked_segment_bytes e) @ write_u32 (fe_chunk_index_start e) @
     write_u32 (fe_chunk_index_end e)"

definition file_entry_deserialize :: "file_data_sequence_entry reader" where
  "file_entry_deserialize bs =
     rbind (read_exact 48 bs) (\<lambda>(v, rest).
     rbind (read_hash v) (\<lambda>(xorb_hash, v).
     rbind (read_u32 v) (\<lambda>(xorb_flags, v).
     rbind (read_u32 v) (\<lambda>(unpacked_segment_bytes, v).
     rbind (read_u32 v) (\<lambda>(chunk_index_start, v).
     rbind (read_u32 v) (\<lambda>(chunk_index_end, v).
       Inr (\<lparr>fe_xorb_hash = xorb_hash, fe_xorb_flags = xorb_flags,
             fe_unpacked_segment_bytes = unpacked_segment_bytes,
             fe_chunk_index_start = chunk_index_start, fe_chunk_index_end = chunk_index_end\<rparr>, rest)))))))"

definition file_verification_new :: "merkle_hash \<Rightarrow> file_verification_entry" where
  "file_verification_new range_hash = \<lparr>fv_range_hash = range_hash, fv_unused = (0, 0)\<rparr>"

definition file_verification_serialize :: "file_verification_entry \<Rightarrow> bytes" where
  "file_verification_serialize e = write_hash (fv_range_hash e) @ write_u64s [fst (fv_unused e), snd (fv_unused e)]"

definition file_verification_deserialize :: "file_verification_entry reader" where
  "file_verification_deserialize bs =
     rbind (read_exact 48 bs) (\<lambda>(v, rest).
     rbind (read_hash v) (\<lambda>(range_hash, v).
       Inr (\<lparr>fv_range_hash = range_hash, fv_unused = (0, 0)\<rparr>, rest)))"

definition file_metadata_ext_new :: "merkle_hash \<Rightarrow> file_metadata_ext" where
  "file_metadata_ext_new sha256 = \<lparr>fm_sha256 = sha256, fm_unused = (0, 0)\<rparr>"

definition file_metadata_ext_serialize :: "file_metadata_ext \<Rightarrow> bytes" where
  "file_metadata_ext_serialize e = write_hash (fm_sha256 e) @ write_u64s [fst (fm_unused e), snd (fm_unused e)]"

definition file_metadata_ext_deserialize :: "file_metadata_ext reader" where
  "file_metadata_ext_deserialize bs =
     rbind (read_exact 48 bs) (\<lambda>(v, rest).
     rbind (read_hash v) (\<lambda>(sha256, v).
       Inr (\<lparr>fm_sha256 = sha256, fm_unused = (0, 0)\<rparr>, rest)))"

interpretation file_header_codec: codec file_header_serialize file_header_deserialize 48 "\<lambda>_. True"
proof
  show len: "length (file_header_serialize x) = 48" for x
    by (simp add: file_header_serialize_def reader_simps)
  show "file_header_deserialize (file_header_serialize x @ rest) = Inr (x, rest)" if "True" for x rest
    using that read_exact_append [OF len, of x rest]
    by (cases x) (simp add: file_header_deserialize_def file_header_serialize_def reader_simps)
  show "file_header_deserialize bs = Inl UnexpectedEof" if "length bs < 48" for bs
    using that by (simp add: file_header_deserialize_def read_exact_def)
  show "\<exists>x. True \<and> file_header_deserialize bs = Inr (x, drop 48 bs)" if "48 \<le> length bs" for bs
    using that by (simp add: file_header_deserialize_def read_exact_def field_reads)
qed

interpretation file_entry_codec: codec file_entry_serialize file_entry_deserialize 48 "\<lambda>_. True"
proof
  show len: "length (file_entry_serialize x) = 48" for x
    by (simp add: file_entry_serialize_def reader_simps)
  show "file_entry_deserialize (file_entry_serialize x @ rest) = Inr (x, rest)" if "True" for x rest
    using that read_exact_append [OF len, of x rest]
    by (cases x) (simp add: file_entry_deserialize_def file_entry_serialize_def reader_simps)
  show "file_entry_deserialize bs = Inl UnexpectedEof" if "length bs < 48" for bs
    using that by (simp add: file_entry_deserialize_def read_exact_def)
  show "\<exists>x. True \<and> file_entry_deserialize bs = Inr (x, drop 48 bs)" if "48 \<le> length bs" for bs
    using that by (simp add: file_entry_deserialize_def read_exact_def field_reads)
qed

interpretation file_verification_codec: codec file_verification_serialize file_verification_deserialize 48 "\<lambda>x. fv_unused x = (0, 0)"
proof
  show len: "length (file_verification_serialize x) = 48" for x
    by (simp add: file_verification_serialize_def reader_simps)
  show "file_verification_deserialize (file_verification_serialize x @ rest) = Inr (x, rest)" if "fv_unused x = (0, 0)" for x rest
    using that read_exact_append [OF len, of x rest]
    by (cases x) (simp add: file_verification_deserialize_def file_verification_serialize_def reader_simps)
  show "file_verification_deserialize bs = Inl UnexpectedEof" if "length bs < 48" for bs
    using that by (simp add: file_verification_deserialize_def read_exact_def)
  show "\<exists>x. fv_unused x = (0, 0) \<and> file_verification_deserialize bs = Inr (x, drop 48 bs)" if "48 \<le> length bs" for bs
    using that by (simp add: file_verification_deserialize_def read_exact_def field_reads)
qed

interpretation file_metadata_ext_codec: codec file_metadata_ext_serialize file_metadata_ext_deserialize 48 "\<lambda>x. fm_unused x = (0, 0)"
proof
  show len: "length (file_metadata_ext_serialize x) = 48" for x
    by (simp add: file_metadata_ext_serialize_def reader_simps)
  show "file_metadata_ext_deserialize (file_metadata_ext_serialize x @ rest) = Inr (x, rest)" if "fm_unused x = (0, 0)" for x rest
    using that read_exact_append [OF len, of x rest]
    by (cases x) (simp add: file_metadata_ext_deserialize_def file_metadata_ext_serialize_def reader_simps)
  show "file_metadata_ext_deserialize bs = Inl UnexpectedEof" if "length bs < 48" for bs
    using that by (simp add: file_metadata_ext_deserialize_def read_exact_def)
  show "\<exists>x. fm_unused x = (0, 0) \<and> file_metadata_ext_deserialize bs = Inr (x, drop 48 bs)" if "48 \<le> length bs" for bs
    using that by (simp add: file_metadata_ext_deserialize_def read_exact_def field_reads)
qed

section \<open>File info\<close>

record mdb_file_info =
  metadata :: file_data_sequence_header
  segments :: "file_data_sequence_entry list"
  verification :: "file_verification_entry list"
  metadata_ext :: "file_metadata_ext option"

definition contains_verification :: "mdb_file_info \<Rightarrow> bool" where
  "contains_verification info \<longleftrightarrow> header_contains_verification (metadata info)"

definition contains_metadata_ext :: "mdb_file_info \<Rightarrow> bool" where
  "contains_metadata_ext info \<longleftrightarrow> header_contains_metadata_ext (metadata info)"

definition file_info_num_bytes :: "mdb_file_info \<Rightarrow> u64" where
  "file_info_num_bytes info =
     48 + ucast (num_info_entry_following (metadata info)) * of_nat MDB_FILE_INFO_ENTRY_SIZE"

definition file_size :: "mdb_file_info \<Rightarrow> u64" where
  "file_size info = sum_list (map (\<lambda>fse. ucast (fe_unpacked_segment_bytes fse)) (segments info))"

text \<open>The bytes written, and the count the method returns.\<close>

definition file_info_serialize :: "mdb_file_info \<Rightarrow> bytes \<times> nat" where
  "file_info_serialize info =
     (file_header_serialize (metadata info) @
      concat (map file_entry_serialize (segments info)) @
      (if contains_verification info then concat (map file_verification_serialize (verification info)) else []) @
      (case metadata_ext info of Some m \<Rightarrow> file_metadata_ext_serialize m | None \<Rightarrow> []),
      48 + 48 * length (segments info) +
      (if contains_verification info then 48 * length (verification info) else 0) +
      (case metadata_ext info of Some m \<Rightarrow> 48 | None \<Rightarrow> 0))"

definition file_info_deserialize :: "mdb_file_info option reader" where
  "file_info_deserialize bs =
     rbind (file_header_deserialize bs) (\<lambda>(metadata, bs).
       if file_header_is_bookend metadata then Inr (None, bs)
       else
         let num_entries = unat (fh_num_entries metadata) in
         rbind (read_n file_entry_deserialize num_entries bs) (\<lambda>(segments, bs).
         rbind (if header_contains_verification metadata
                then read_n file_verification_deserialize num_entries bs else Inr ([], bs)) (\<lambda>(verification, bs).
         rbind (if header_contains_metadata_ext metadata
                then rbind (file_metadata_ext_deserialize bs) (\<lambda>(m, bs). Inr (Some m, bs))
                else Inr (None, bs)) (\<lambda>(metadata_ext, bs).
           Inr (Some \<lparr>metadata = metadata, segments = segments, verification = verification,
                      metadata_ext = metadata_ext\<rparr>, bs)))))"

definition file_info_merge_from :: "mdb_file_info \<Rightarrow> mdb_file_info \<Rightarrow> mdb_file_info" where
  "file_info_merge_from self other =
     (let self =
        (if contains_verification self \<noteq> contains_verification other \<and> contains_verification other
         then self\<lparr>metadata := (metadata self)\<lparr>fh_file_flags :=
                     fh_file_flags (metadata self) OR MDB_FILE_FLAG_WITH_VERIFICATION\<rparr>,
                   verification := verification other\<rparr>
         else self)
      in if contains_metadata_ext self \<noteq> contains_metadata_ext other \<and> contains_metadata_ext other
         then self\<lparr>metadata := (metadata self)\<lparr>fh_file_flags :=
                     fh_file_flags (metadata self) OR MDB_FILE_FLAG_WITH_METADATA_EXT\<rparr>,
                   metadata_ext := metadata_ext other\<rparr>
         else self)"

text \<open>What a file info must satisfy to be a shard entry: the header counts the segments, and its
  flags say what follows them.\<close>

definition wf_file_info :: "mdb_file_info \<Rightarrow> bool" where
  "wf_file_info info \<longleftrightarrow>
     \<not> file_header_is_bookend (metadata info) \<and>
     unat (fh_num_entries (metadata info)) = length (segments info) \<and>
     length (verification info) = (if contains_verification info then length (segments info) else 0) \<and>
     (metadata_ext info \<noteq> None \<longleftrightarrow> contains_metadata_ext info) \<and>
     (\<forall>v \<in> set (verification info). fv_unused v = (0, 0)) \<and>
     (case metadata_ext info of Some m \<Rightarrow> fm_unused m = (0, 0) | None \<Rightarrow> True)"

lemmas file_codecs [reader_simps] =
  file_header_codec.de_ser [OF TrueI] file_entry_codec.de_ser [OF TrueI]
  file_header_codec.length_ser file_entry_codec.length_sers file_verification_codec.length_sers
  file_metadata_ext_codec.length_ser file_entry_codec.length_ser file_verification_codec.length_ser

lemma length_file_info_serialize: "length (fst (file_info_serialize info)) = snd (file_info_serialize info)"
  by (simp add: file_info_serialize_def reader_simps split: option.splits)

lemma file_info_de_ser:
  assumes "wf_file_info info"
  shows "file_info_deserialize (fst (file_info_serialize info) @ rest) = Inr (Some info, rest)"
proof -
  have ver: "read_n file_verification_deserialize (length (verification info))
      (concat (map file_verification_serialize (verification info)) @ r) = Inr (verification info, r)" for r
    using assms by (intro file_verification_codec.read_n_sers) (auto simp: wf_file_info_def)
  have ext: "file_metadata_ext_deserialize (file_metadata_ext_serialize m @ r) = Inr (m, r)"
    if "metadata_ext info = Some m" for m r
    using assms that by (intro file_metadata_ext_codec.de_ser) (auto simp: wf_file_info_def)
  have seg: "read_n file_entry_deserialize (length (segments info))
      (concat (map file_entry_serialize (segments info)) @ r) = Inr (segments info, r)" for r
    by (intro file_entry_codec.read_n_sers) simp
  show ?thesis
    using assms ver ext seg
    by (cases "contains_verification info"; cases "metadata_ext info")
      (simp_all add: file_info_deserialize_def file_info_serialize_def wf_file_info_def reader_simps
        contains_verification_def contains_metadata_ext_def)
qed

text \<open>(C13) A file info is read back as it was written, whatever follows it in the stream, and the
  count returned by the writer is the number of bytes written.\<close>

theorem file_info_roundtrip:
  assumes "wf_file_info info"
  shows "file_info_deserialize (fst (file_info_serialize info) @ rest) = Inr (Some info, rest) \<and>
         length (fst (file_info_serialize info)) = snd (file_info_serialize info)"
  using file_info_de_ser [OF assms] by (simp add: length_file_info_serialize)

text \<open>A file of two segments with verification and metadata, for evaluation.\<close>

definition demo_file_info :: mdb_file_info where
  "demo_file_info =
     \<lparr>metadata = \<lparr>fh_file_hash = DataHash 1 2 3 4,
        fh_file_flags = MDB_FILE_FLAG_WITH_VERIFICATION OR MDB_FILE_FLAG_WITH_METADATA_EXT,
        fh_num_entries = 2, fh_unused = 0\<rparr>,
      segments = [\<lparr>fe_xorb_hash = DataHash 5 6 7 8, fe_xorb_flags = 0, fe_unpacked_segment_bytes = 1000,
          fe_chunk_index_start = 0, fe_chunk_index_end = 3\<rparr>, file_entry_default],
      verification = [file_verification_new (DataHash 9 0 0 0), file_verification_new (DataHash 10 0 0 0)],
      metadata_ext = Some (file_metadata_ext_new (DataHash 11 0 0 0))\<rparr>"

lemma wf_demo_file_info: "wf_file_info demo_file_info"
  by code_simp

theorem file_info_roundtrip_witness:
  "wf_file_info demo_file_info \<and>
   file_info_deserialize (fst (file_info_serialize demo_file_info) @ [7]) = Inr (Some demo_file_info, [7])"
  using file_info_roundtrip [OF wf_demo_file_info, of "[7]"] wf_demo_file_info by simp

text \<open>(C19) A serialized file info that is cut short at any byte is refused with an end-of-file error;
  it is never read as a shorter file.\<close>

theorem file_info_truncated:
  assumes "wf_file_info info" and "n < length (fst (file_info_serialize info))"
  shows "file_info_deserialize (take n (fst (file_info_serialize info))) = Inl UnexpectedEof"
proof (cases "n < 48")
  case True
  with assms(2) show ?thesis
    by (simp add: file_info_deserialize_def file_header_codec.de_short)
next
  case False
  let ?tail = "drop 48 (fst (file_info_serialize info))"
  let ?bs = "take (n - 48) ?tail"
  let ?k = "length (segments info)"
  have "take n (fst (file_info_serialize info)) = file_header_serialize (metadata info) @ ?bs"
    using False by (simp add: file_info_serialize_def file_header_codec.length_ser take_append)
  moreover have total: "length (fst (file_info_serialize info)) =
      48 + 48 * ?k + (if contains_verification info then 48 * ?k else 0) +
      (if contains_metadata_ext info then 48 else 0)"
    using assms(1) unfolding length_file_info_serialize
    by (auto simp: file_info_serialize_def wf_file_info_def split: option.splits)
  moreover have "length ?bs = n - 48" using assms(2) by simp
  ultimately show ?thesis
    using False assms file_entry_codec.read_n_cases [of ?bs ?k]
      file_verification_codec.read_n_cases [of "drop (?k * 48) ?bs" ?k]
      file_metadata_ext_codec.de_short
    by (auto simp: file_info_deserialize_def reader_simps wf_file_info_def contains_verification_def
        contains_metadata_ext_def split: if_splits)
qed

theorem file_info_truncated_witness:
  "file_info_deserialize (take 200 (fst (file_info_serialize demo_file_info))) = Inl UnexpectedEof"
  by (rule file_info_truncated [OF wf_demo_file_info]) code_simp

section \<open>Merging two infos of one file\<close>

lemma bit_u32_less: "bit w j \<Longrightarrow> j < 32" for w :: u32
  using bit_imp_le_length [of w j] by simp

lemma bit_flag: "bit (push_bit n 1 :: u32) j \<longleftrightarrow> j = n \<and> n < 32"
  by (auto simp: bit_exp_iff)

lemma flag_test: "(w AND push_bit n 1 \<noteq> 0) \<longleftrightarrow> bit w n" for w :: u32
proof -
  have "(w AND push_bit n 1 \<noteq> 0) \<longleftrightarrow> (\<exists>j. bit (w AND push_bit n 1) j)"
    by (simp only: bit_eq_iff) (auto dest: bit_u32_less)
  also have "\<dots> \<longleftrightarrow> bit w n"
    unfolding bit_and_iff bit_flag by (auto dest: bit_u32_less)
  finally show ?thesis .
qed

lemma header_flags:
  "header_contains_verification h \<longleftrightarrow> bit (fh_file_flags h) 31"
  "header_contains_metadata_ext h \<longleftrightarrow> bit (fh_file_flags h) 30"
  unfolding header_contains_verification_def header_contains_metadata_ext_def file_flag_defs
  by (rule flag_test)+

lemma bit_flag_or [simp]:
  "bit (w OR MDB_FILE_FLAG_WITH_VERIFICATION) j \<longleftrightarrow> bit w j \<or> j = 31"
  "bit (w OR MDB_FILE_FLAG_WITH_METADATA_EXT) j \<longleftrightarrow> bit w j \<or> j = 30"
  "bit MDB_FILE_FLAG_WITH_VERIFICATION j \<longleftrightarrow> j = 31" "bit MDB_FILE_FLAG_WITH_METADATA_EXT j \<longleftrightarrow> j = 30"
  for w :: u32
  unfolding file_flag_defs bit_or_iff bit_flag by simp_all

text \<open>Merging two infos of the same file keeps what the first one has and adds the verification
  entries and the metadata extension that only the second one has: the result is again a
  well-formed info, it has each part exactly when one of the two has it, and merging the same
  info again changes nothing.\<close>

lemma file_info_merge_from_union:
  assumes "wf_file_info a" and "wf_file_info b" and "length (segments a) = length (segments b)"
  defines "m \<equiv> file_info_merge_from a b"
  shows "wf_file_info m \<and> segments m = segments a \<and>
    fh_file_hash (metadata m) = fh_file_hash (metadata a) \<and>
    (contains_verification m \<longleftrightarrow> contains_verification a \<or> contains_verification b) \<and>
    (contains_metadata_ext m \<longleftrightarrow> contains_metadata_ext a \<or> contains_metadata_ext b) \<and>
    verification m = (if contains_verification a then verification a else verification b) \<and>
    metadata_ext m = (if contains_metadata_ext a then metadata_ext a else metadata_ext b) \<and>
    file_info_merge_from m b = m"
  using assms
  by (cases "contains_verification a"; cases "contains_verification b";
      cases "contains_metadata_ext a"; cases "contains_metadata_ext b")
    (simp_all add: file_info_merge_from_def wf_file_info_def contains_verification_def
      contains_metadata_ext_def header_flags file_header_is_bookend_def)

definition demo_plain_info :: mdb_file_info where
  "demo_plain_info = demo_file_info\<lparr>metadata := (metadata demo_file_info)\<lparr>fh_file_flags := 0\<rparr>,
     verification := [], metadata_ext := None\<rparr>"

lemma wf_demo_plain_info: "wf_file_info demo_plain_info"
  by code_simp

text \<open>The flag comparison decides inclusion of the sets of flags.\<close>

lemma compare_flag_superset_spec:
  "compare_flag_superset a b =
     (let F = {i. bit (fh_file_flags a) i}; G = {i. bit (fh_file_flags b) i} in
      if F = G then Equal else if G \<subseteq> F then SuperA else if F \<subseteq> G then SuperB else Neither)"
proof -
  have "(v AND w = w) \<longleftrightarrow> {i. bit w i} \<subseteq> {i. bit v i}" for v w :: u32
    by (simp only: bit_eq_iff bit_and_iff) (auto dest: bit_u32_less)
  moreover have "(v = w) \<longleftrightarrow> {i. bit v i} = {i. bit w i}" for v w :: u32
    by (auto simp: bit_eq_iff set_eq_iff dest: bit_u32_less)
  ultimately show ?thesis by (simp add: compare_flag_superset_def Let_def)
qed

section \<open>Views\<close>

record mdb_file_info_view =
  view_header :: file_data_sequence_header
  view_data :: bytes

definition file_view_from_data_and_header ::
  "file_data_sequence_header \<Rightarrow> bytes \<Rightarrow> io_error + mdb_file_info_view" where
  "file_view_from_data_and_header header data =
     (let n = unat (fh_num_entries header);
          n_structs = 1 + n + (if header_contains_verification header then n else 0) +
            (if header_contains_metadata_ext header then 1 else 0)
      in if length data < n_structs * MDB_FILE_INFO_ENTRY_SIZE then Inl UnexpectedEof
         else Inr \<lparr>view_header = header, view_data = data\<rparr>)"

definition file_view_new :: "bytes \<Rightarrow> io_error + mdb_file_info_view" where
  "file_view_new data =
     rbind (file_header_deserialize data) (\<lambda>(header, _). file_view_from_data_and_header header data)"

definition file_view_num_entries :: "mdb_file_info_view \<Rightarrow> nat" where
  "file_view_num_entries v = unat (fh_num_entries (view_header v))"

text \<open>The \<open>expect\<close> on a record read from the buffer.\<close>

definition expect_read :: "io_error + ('a \<times> bytes) \<Rightarrow> 'a option" where
  "expect_read r = (case r of Inl _ \<Rightarrow> None | Inr (x, _) \<Rightarrow> Some x)"

definition file_view_entry :: "mdb_file_info_view \<Rightarrow> nat \<Rightarrow> file_data_sequence_entry option" where
  "file_view_entry v idx =
     expect_read (file_entry_deserialize (drop ((1 + idx) * MDB_FILE_INFO_ENTRY_SIZE) (view_data v)))"

definition file_view_verification :: "mdb_file_info_view \<Rightarrow> nat \<Rightarrow> file_verification_entry option" where
  "file_view_verification v idx =
     expect_read (file_verification_deserialize
       (drop ((1 + file_view_num_entries v + idx) * MDB_FILE_INFO_ENTRY_SIZE) (view_data v)))"

definition file_view_byte_size :: "mdb_file_info_view \<Rightarrow> bool \<Rightarrow> nat" where
  "file_view_byte_size v with_verification =
     (let n = file_view_num_entries v in
      (1 + n + (if with_verification \<and> header_contains_verification (view_header v) then n else 0) +
       (if header_contains_metadata_ext (view_header v) then 1 else 0)) * MDB_FILE_INFO_ENTRY_SIZE)"

definition file_view_metadata_ext :: "mdb_file_info_view \<Rightarrow> file_metadata_ext option" where
  "file_view_metadata_ext v =
     (if \<not> header_contains_metadata_ext (view_header v) then None
      else let offset = length (view_data v) - MDB_FILE_INFO_ENTRY_SIZE
           in expect_read (file_metadata_ext_deserialize (drop offset (view_data v))))"

text \<open>The outer option is the panic of \<open>FileDataSequenceHeader::new\<close>.\<close>

definition file_view_serialize :: "mdb_file_info_view \<Rightarrow> bool \<Rightarrow> (io_error + bytes \<times> nat) option" where
  "file_view_serialize v with_verification =
     (let have_verification = header_contains_verification (view_header v);
          n = file_view_num_entries v; data = view_data v
      in if with_verification \<and> \<not> have_verification then Some (Inl OtherIo)
         else if \<not> with_verification \<and> have_verification then
           map_option (\<lambda>header.
             let ext = header_contains_metadata_ext (view_header v) in
             Inr (file_header_serialize header @
                  slice data MDB_FILE_INFO_ENTRY_SIZE ((1 + n) * MDB_FILE_INFO_ENTRY_SIZE) @
                  (if ext then drop (length data - MDB_FILE_INFO_ENTRY_SIZE) data else []),
                  MDB_FILE_INFO_ENTRY_SIZE + n * MDB_FILE_INFO_ENTRY_SIZE +
                  (if ext then MDB_FILE_INFO_ENTRY_SIZE else 0)))
             (file_header_new (fh_file_hash (view_header v)) n False
                (header_contains_metadata_ext (view_header v)))
         else Some (Inr (data, length data)))"

fun sequence_options :: "'a option list \<Rightarrow> 'a list option" where
  "sequence_options [] = Some []"
| "sequence_options (x # xs) =
     Option.bind x (\<lambda>y. Option.bind (sequence_options xs) (\<lambda>ys. Some (y # ys)))"

definition file_info_from_view :: "mdb_file_info_view \<Rightarrow> mdb_file_info option" where
  "file_info_from_view v =
     Option.bind (sequence_options (map (file_view_entry v) [0..<file_view_num_entries v])) (\<lambda>segments.
     Option.bind (if header_contains_verification (view_header v)
                  then sequence_options (map (file_view_verification v) [0..<file_view_num_entries v])
                  else Some []) (\<lambda>verification.
     Option.bind (file_header_new (fh_file_hash (view_header v)) (length segments)
                    (header_contains_verification (view_header v))
                    (header_contains_metadata_ext (view_header v))) (\<lambda>metadata.
       Some \<lparr>metadata = metadata, segments = segments, verification = verification,
             metadata_ext = file_view_metadata_ext v\<rparr>)))"

text \<open>The view of a serialized info.\<close>

definition view_of :: "mdb_file_info \<Rightarrow> mdb_file_info_view" where
  "view_of info = \<lparr>view_header = metadata info, view_data = fst (file_info_serialize info)\<rparr>"

lemma length_serialize_wf:
  assumes "wf_file_info info"
  shows "length (fst (file_info_serialize info)) =
    (1 + length (segments info) + (if contains_verification info then length (segments info) else 0) +
     (if contains_metadata_ext info then 1 else 0)) * 48"
  using assms unfolding length_file_info_serialize
  by (auto simp: file_info_serialize_def wf_file_info_def split: option.splits)

lemma file_view_new_serialized:
  assumes "wf_file_info info"
  shows "file_view_new (fst (file_info_serialize info)) = Inr (view_of info)"
proof -
  have "file_header_deserialize (fst (file_info_serialize info)) =
      Inr (metadata info, drop 48 (fst (file_info_serialize info)))"
    by (simp add: file_info_serialize_def reader_simps)
  with assms length_serialize_wf [OF assms] show ?thesis
    by (simp add: file_view_new_def file_view_from_data_and_header_def wf_file_info_def view_of_def
        MDB_FILE_INFO_ENTRY_SIZE_def contains_verification_def contains_metadata_ext_def)
qed

definition after_segments :: "mdb_file_info \<Rightarrow> bytes" where
  "after_segments info =
     (if contains_verification info then concat (map file_verification_serialize (verification info)) else []) @
     (case metadata_ext info of Some m \<Rightarrow> file_metadata_ext_serialize m | None \<Rightarrow> [])"

lemma file_info_bytes:
  "fst (file_info_serialize info) =
     file_header_serialize (metadata info) @ concat (map file_entry_serialize (segments info)) @ after_segments info"
  by (simp add: file_info_serialize_def after_segments_def)

lemma file_view_entry_serialized:
  assumes "i < length (segments info)"
  shows "file_view_entry (view_of info) i = Some (segments info ! i)"
proof -
  obtain rest' where "file_entry_deserialize
      (drop (i * 48) (concat (map file_entry_serialize (segments info)) @ after_segments info)) =
        Inr (segments info ! i, rest')"
    using file_entry_codec.de_sers_nth [of "segments info" i "after_segments info"] assms by auto
  moreover have "drop ((1 + i) * 48) (fst (file_info_serialize info)) =
      drop (i * 48) (concat (map file_entry_serialize (segments info)) @ after_segments info)"
    by (simp add: file_info_bytes file_header_codec.length_ser)
  ultimately show ?thesis
    by (simp add: file_view_entry_def view_of_def expect_read_def MDB_FILE_INFO_ENTRY_SIZE_def)
qed

lemma file_view_verification_serialized:
  assumes wf: "wf_file_info info" and ver: "contains_verification info" and i: "i < length (verification info)"
  shows "file_view_verification (view_of info) i = Some (verification info ! i)"
proof -
  let ?ext = "case metadata_ext info of Some m \<Rightarrow> file_metadata_ext_serialize m | None \<Rightarrow> []"
  have n: "file_view_num_entries (view_of info) = length (segments info)"
    using wf by (simp add: file_view_num_entries_def view_of_def wf_file_info_def)
  have "\<forall>x \<in> set (verification info). fv_unused x = (0, 0)"
    using wf by (simp add: wf_file_info_def)
  then obtain rest' where "file_verification_deserialize
      (drop (i * 48) (concat (map file_verification_serialize (verification info)) @ ?ext)) =
        Inr (verification info ! i, rest')"
    using file_verification_codec.de_sers_nth [of "verification info" i ?ext] i by auto
  moreover have "drop ((1 + length (segments info) + i) * 48) (fst (file_info_serialize info)) =
      drop (i * 48) (concat (map file_verification_serialize (verification info)) @ ?ext)"
    using ver by (simp add: file_info_bytes after_segments_def reader_simps algebra_simps)
  ultimately show ?thesis
    by (simp add: file_view_verification_def n expect_read_def MDB_FILE_INFO_ENTRY_SIZE_def)
      (simp add: view_of_def)
qed

lemma file_info_tail:
  assumes wf: "wf_file_info info" and "metadata_ext info = Some m"
  shows "drop (length (fst (file_info_serialize info)) - 48) (fst (file_info_serialize info)) =
    file_metadata_ext_serialize m"
  using assms(2) by (simp add: file_info_serialize_def reader_simps)

lemma file_view_metadata_ext_serialized:
  assumes wf: "wf_file_info info"
  shows "file_view_metadata_ext (view_of info) = metadata_ext info"
proof (cases "metadata_ext info")
  case None
  with wf show ?thesis
    by (auto simp: file_view_metadata_ext_def view_of_def wf_file_info_def contains_metadata_ext_def)
next
  case (Some m)
  then have "fm_unused m = (0, 0)" using wf by (simp add: wf_file_info_def)
  then have "file_metadata_ext_deserialize (file_metadata_ext_serialize m) = Inr (m, [])"
    by (rule file_metadata_ext_codec.de_ser_alone)
  with Some file_info_tail [OF wf Some] wf show ?thesis
    by (auto simp: file_view_metadata_ext_def view_of_def wf_file_info_def contains_metadata_ext_def
        expect_read_def MDB_FILE_INFO_ENTRY_SIZE_def)
qed

lemma sequence_options_Some: "sequence_options (map f is) = Some ys \<longleftrightarrow> map f is = map Some ys"
  by (induction "is" arbitrary: ys) (auto simp: bind_eq_Some_conv)

lemma sequence_options_nth:
  "(\<And>i. i < length xs \<Longrightarrow> f i = Some (xs ! i)) \<Longrightarrow> sequence_options (map f [0..<length xs]) = Some xs"
  unfolding sequence_options_Some by (rule nth_equalityI) simp_all

definition strip_verification :: "mdb_file_info \<Rightarrow> mdb_file_info" where
  "strip_verification info =
     info\<lparr>metadata := the (file_header_new (fh_file_hash (metadata info)) (length (segments info)) False
            (contains_metadata_ext info)),
          verification := []\<rparr>"

lemma file_view_serialize_stripped:
  assumes wf: "wf_file_info info"
  shows "file_view_serialize (view_of info) False =
    Some (Inr (file_info_serialize (if contains_verification info then strip_verification info else info)))"
proof (cases "contains_verification info")
  case False
  then show ?thesis
    by (simp add: file_view_serialize_def view_of_def contains_verification_def length_file_info_serialize)
next
  case True
  let ?k = "length (segments info)"
  have n: "file_view_num_entries (view_of info) = ?k"
    using wf by (simp add: file_view_num_entries_def view_of_def wf_file_info_def)
  have "unat (fh_num_entries (metadata info)) < 2 ^ LENGTH(32)" by (rule unsigned_less)
  then have k: "?k < 2 ^ 32" using wf by (simp add: wf_file_info_def)
  then obtain h where h: "file_header_new (fh_file_hash (metadata info)) ?k False (contains_metadata_ext info) = Some h"
    by (simp add: file_header_new_def try_u32_def)
  have hv: "\<not> header_contains_verification h" "header_contains_metadata_ext h = contains_metadata_ext info"
    using h by (auto simp: file_header_new_def header_flags file_flag_defs bit_or_iff split: if_splits)
  have ext: "(if contains_metadata_ext info
      then drop (length (fst (file_info_serialize info)) - 48) (fst (file_info_serialize info)) else []) =
      (case metadata_ext info of Some m \<Rightarrow> file_metadata_ext_serialize m | None \<Rightarrow> [])"
    using wf file_info_tail [OF wf] by (auto simp: wf_file_info_def split: option.splits)
  have seg: "slice (fst (file_info_serialize info)) 48 ((1 + ?k) * 48) =
      concat (map file_entry_serialize (segments info))"
    unfolding file_info_bytes by (intro slice_append_middle) (simp_all add: reader_simps)
  have flags: "header_contains_verification (view_header (view_of info))"
    "header_contains_metadata_ext (view_header (view_of info)) = contains_metadata_ext info"
    "fh_file_hash (view_header (view_of info)) = fh_file_hash (metadata info)"
    "view_data (view_of info) = fst (file_info_serialize info)"
    using True by (simp_all add: view_of_def contains_verification_def contains_metadata_ext_def)
  have "metadata_ext info \<noteq> None \<longleftrightarrow> contains_metadata_ext info" using wf by (simp add: wf_file_info_def)
  then have cnt: "(if contains_metadata_ext info then 48 else (0 :: nat)) =
      (case metadata_ext info of Some m \<Rightarrow> 48 | None \<Rightarrow> 0)"
    by (auto split: option.splits)
  have "file_info_serialize (strip_verification info) =
      (file_header_serialize h @ concat (map file_entry_serialize (segments info)) @
       (case metadata_ext info of Some m \<Rightarrow> file_metadata_ext_serialize m | None \<Rightarrow> []),
       48 + 48 * ?k + (case metadata_ext info of Some m \<Rightarrow> 48 | None \<Rightarrow> 0))"
    using hv h by (simp add: strip_verification_def file_info_serialize_def contains_verification_def)
  then show ?thesis
    using True h seg ext cnt
    by (cases "contains_metadata_ext info")
      (simp_all add: file_view_serialize_def Let_def flags n MDB_FILE_INFO_ENTRY_SIZE_def)
qed

lemma view_of_fields:
  assumes wf: "wf_file_info info"
  shows "file_view_num_entries (view_of info) = length (segments info)"
    "header_contains_verification (view_header (view_of info)) = contains_verification info"
    "header_contains_metadata_ext (view_header (view_of info)) = contains_metadata_ext info"
    "fh_file_hash (view_header (view_of info)) = fh_file_hash (metadata info)"
  using wf by (simp_all add: file_view_num_entries_def view_of_def wf_file_info_def contains_verification_def
      contains_metadata_ext_def)

lemma file_info_from_view_of:
  assumes wf: "wf_file_info info"
    and hdr: "file_header_new (fh_file_hash (metadata info)) (length (segments info))
      (contains_verification info) (contains_metadata_ext info) = Some (metadata info)"
  shows "file_info_from_view (view_of info) = Some info"
proof -
  have "sequence_options (map (file_view_entry (view_of info)) [0..<length (segments info)]) = Some (segments info)"
    by (rule sequence_options_nth) (rule file_view_entry_serialized)
  moreover have "sequence_options (map (file_view_verification (view_of info)) [0..<length (segments info)]) =
      Some (verification info)" if "contains_verification info"
    using sequence_options_nth [OF file_view_verification_serialized [OF wf that]] wf that
    by (simp add: wf_file_info_def)
  ultimately show ?thesis
    using wf hdr file_view_metadata_ext_serialized [OF wf]
    by (cases "contains_verification info")
      (simp_all add: file_info_from_view_def view_of_fields [OF wf] wf_file_info_def)
qed



text \<open>The view accepts a buffer that is longer than its header announces, and then takes the
  metadata extension from the end of the buffer instead of from behind the entries: whatever
  record follows the file info is returned as the file's SHA-256.\<close>

theorem file_view_trailing_bytes:
  assumes wf: "wf_file_info info" and ext: "contains_metadata_ext info" and m: "fm_unused m = (0, 0)"
  shows "\<exists>v. file_view_new (fst (file_info_serialize info) @ file_metadata_ext_serialize m) = Inr v \<and>
    file_view_metadata_ext v = Some m"
proof -
  let ?data = "fst (file_info_serialize info) @ file_metadata_ext_serialize m"
  let ?v = "\<lparr>view_header = metadata info, view_data = ?data\<rparr>"
  have "file_header_deserialize ?data = Inr (metadata info, drop 48 ?data)"
    by (simp add: file_info_bytes reader_simps)
  then have "file_view_new ?data = Inr ?v"
    using wf length_serialize_wf [OF wf]
    by (simp add: file_view_new_def file_view_from_data_and_header_def wf_file_info_def
        MDB_FILE_INFO_ENTRY_SIZE_def contains_verification_def contains_metadata_ext_def)
  moreover have "drop (length ?data - 48) ?data = file_metadata_ext_serialize m"
    by (simp add: file_metadata_ext_codec.length_ser)
  then have "file_view_metadata_ext ?v = Some m"
    using ext file_metadata_ext_codec.de_ser_alone [OF m]
    by (simp add: file_view_metadata_ext_def contains_metadata_ext_def MDB_FILE_INFO_ENTRY_SIZE_def
        expect_read_def)
  ultimately show ?thesis by blast
qed

theorem file_view_trailing_bytes_witness:
  "\<exists>v. file_view_new (fst (file_info_serialize demo_file_info) @
          file_metadata_ext_serialize (file_metadata_ext_new (DataHash 77 0 0 0))) = Inr v \<and>
    file_view_metadata_ext v = Some (file_metadata_ext_new (DataHash 77 0 0 0)) \<and>
    file_view_metadata_ext v \<noteq> metadata_ext demo_file_info"
proof -
  let ?m = "file_metadata_ext_new (DataHash 77 0 0 0)"
  have "contains_metadata_ext demo_file_info" "fm_unused ?m = (0, 0)"
    "metadata_ext demo_file_info \<noteq> Some ?m"
    by code_simp+
  with file_view_trailing_bytes [OF wf_demo_file_info, of ?m] show ?thesis by fastforce
qed

end
