(* ===== verification/Xorb_Structs.thy ===== *)
theory Xorb_Structs
  imports File_Structs
begin

text \<open>
  \<open>xet_core_structures/src/metadata_shard/xorb_structs.rs\<close>: the 48-byte records that describe a
  xorb and its chunks in a shard, the xorb info built from them, and the view over its serialized
  form; also \<open>FileDataSequenceEntry::from_xorb_entries\<close>, which makes a file segment out of them.
\<close>

section \<open>Records\<close>

definition MDB_DEFAULT_XORB_FLAG :: u32 where
  "MDB_DEFAULT_XORB_FLAG = 0"

definition MDB_CHUNK_WITH_GLOBAL_DEDUP_FLAG :: u32 where
  "MDB_CHUNK_WITH_GLOBAL_DEDUP_FLAG = push_bit 31 1"

record xorb_chunk_sequence_header =
  xh_xorb_hash :: merkle_hash
  xh_xorb_flags :: u32
  xh_num_entries :: u32
  xh_num_bytes_in_xorb :: u32
  xh_num_bytes_on_disk :: u32

record xorb_chunk_sequence_entry =
  xe_chunk_hash :: merkle_hash
  xe_chunk_byte_range_start :: u32
  xe_unpacked_segment_bytes :: u32
  xe_flags :: u32
  xe_unused :: u32

definition xorb_header_new :: "merkle_hash \<Rightarrow> nat \<Rightarrow> nat \<Rightarrow> xorb_chunk_sequence_header option" where
  "xorb_header_new xorb_hash num_entries num_bytes_in_xorb =
     Option.bind (try_u32 num_entries) (\<lambda>n.
     Option.bind (try_u32 num_bytes_in_xorb) (\<lambda>b.
       Some \<lparr>xh_xorb_hash = xorb_hash, xh_xorb_flags = MDB_DEFAULT_XORB_FLAG, xh_num_entries = n,
             xh_num_bytes_in_xorb = b, xh_num_bytes_on_disk = 0\<rparr>))"

definition xorb_header_bookend :: xorb_chunk_sequence_header where
  "xorb_header_bookend = \<lparr>xh_xorb_hash = marker, xh_xorb_flags = 0, xh_num_entries = 0,
     xh_num_bytes_in_xorb = 0, xh_num_bytes_on_disk = 0\<rparr>"

definition xorb_header_is_bookend :: "xorb_chunk_sequence_header \<Rightarrow> bool" where
  "xorb_header_is_bookend h \<longleftrightarrow> xh_xorb_hash h = marker"

definition xorb_header_serialize :: "xorb_chunk_sequence_header \<Rightarrow> bytes" where
  "xorb_header_serialize h =
     write_hash (xh_xorb_hash h) @ write_u32 (xh_xorb_flags h) @ write_u32 (xh_num_entries h) @
     write_u32 (xh_num_bytes_in_xorb h) @ write_u32 (xh_num_bytes_on_disk h)"

definition xorb_header_deserialize :: "xorb_chunk_sequence_header reader" where
  "xorb_header_deserialize bs =
     rbind (read_exact 48 bs) (\<lambda>(v, rest).
     rbind (read_hash v) (\<lambda>(xorb_hash, v).
     rbind (read_u32 v) (\<lambda>(xorb_flags, v).
     rbind (read_u32 v) (\<lambda>(num_entries, v).
     rbind (read_u32 v) (\<lambda>(num_bytes_in_xorb, v).
     rbind (read_u32 v) (\<lambda>(num_bytes_on_disk, v).
       Inr (\<lparr>xh_xorb_hash = xorb_hash, xh_xorb_flags = xorb_flags, xh_num_entries = num_entries,
             xh_num_bytes_in_xorb = num_bytes_in_xorb, xh_num_bytes_on_disk = num_bytes_on_disk\<rparr>, rest)))))))"

definition xorb_entry_new :: "merkle_hash \<Rightarrow> nat \<Rightarrow> nat \<Rightarrow> xorb_chunk_sequence_entry option" where
  "xorb_entry_new chunk_hash unpacked_segment_bytes chunk_byte_range_start =
     Option.bind (try_u32 unpacked_segment_bytes) (\<lambda>n.
     Option.bind (try_u32 chunk_byte_range_start) (\<lambda>b.
       Some \<lparr>xe_chunk_hash = chunk_hash, xe_chunk_byte_range_start = b, xe_unpacked_segment_bytes = n,
             xe_flags = 0, xe_unused = 0\<rparr>))"

definition with_global_dedup_flag :: "xorb_chunk_sequence_entry \<Rightarrow> bool \<Rightarrow> xorb_chunk_sequence_entry" where
  "with_global_dedup_flag self is_global_dedup_chunk =
     (if is_global_dedup_chunk
      then self\<lparr>xe_flags := xe_flags self OR MDB_CHUNK_WITH_GLOBAL_DEDUP_FLAG\<rparr>
      else self\<lparr>xe_flags := xe_flags self AND NOT MDB_CHUNK_WITH_GLOBAL_DEDUP_FLAG\<rparr>)"

definition is_global_dedup_eligible :: "xorb_chunk_sequence_entry \<Rightarrow> bool" where
  "is_global_dedup_eligible self \<longleftrightarrow>
     xe_flags self AND MDB_CHUNK_WITH_GLOBAL_DEDUP_FLAG \<noteq> 0 \<or>
     hash_is_global_dedup_eligible (xe_chunk_hash self)"

definition xorb_entry_serialize :: "xorb_chunk_sequence_entry \<Rightarrow> bytes" where
  "xorb_entry_serialize e =
     write_hash (xe_chunk_hash e) @ write_u32 (xe_chunk_byte_range_start e) @
     write_u32 (xe_unpacked_segment_bytes e) @ write_u32 (xe_flags e) @ write_u32 (xe_unused e)"

definition xorb_entry_deserialize :: "xorb_chunk_sequence_entry reader" where
  "xorb_entry_deserialize bs =
     rbind (read_exact 48 bs) (\<lambda>(v, rest).
     rbind (read_hash v) (\<lambda>(chunk_hash, v).
     rbind (read_u32 v) (\<lambda>(chunk_byte_range_start, v).
     rbind (read_u32 v) (\<lambda>(unpacked_segment_bytes, v).
     rbind (read_u32 v) (\<lambda>(flags, v).
     rbind (read_u32 v) (\<lambda>(unused, v).
       Inr (\<lparr>xe_chunk_hash = chunk_hash, xe_chunk_byte_range_start = chunk_byte_range_start,
             xe_unpacked_segment_bytes = unpacked_segment_bytes, xe_flags = flags,
             xe_unused = unused\<rparr>, rest)))))))"

text \<open>In \<open>file_structs.rs\<close>; the byte counts are summed in \<open>u32\<close>.\<close>

definition file_entry_from_xorb_entries ::
  "xorb_chunk_sequence_header \<Rightarrow> xorb_chunk_sequence_entry list \<Rightarrow> nat \<Rightarrow> nat \<Rightarrow> file_data_sequence_entry option" where
  "file_entry_from_xorb_entries md chunks chunk_index_start chunk_index_end =
     (if chunks = [] then Some file_entry_default
      else Option.bind (try_u32 chunk_index_start) (\<lambda>i.
           Option.bind (try_u32 chunk_index_end) (\<lambda>j.
             Some \<lparr>fe_xorb_hash = xh_xorb_hash md, fe_xorb_flags = xh_xorb_flags md,
                   fe_unpacked_segment_bytes = sum_list (map xe_unpacked_segment_bytes chunks),
                   fe_chunk_index_start = i, fe_chunk_index_end = j\<rparr>)))"

interpretation xorb_header_codec: codec xorb_header_serialize xorb_header_deserialize 48 "\<lambda>_. True"
proof
  show len: "length (xorb_header_serialize x) = 48" for x
    by (simp add: xorb_header_serialize_def reader_simps)
  show "xorb_header_deserialize (xorb_header_serialize x @ rest) = Inr (x, rest)" for x rest
    using read_exact_append [OF len, of x rest]
    by (cases x) (simp add: xorb_header_deserialize_def xorb_header_serialize_def reader_simps)
  show "xorb_header_deserialize bs = Inl UnexpectedEof" if "length bs < 48" for bs
    using that by (simp add: xorb_header_deserialize_def read_exact_def)
  show "\<exists>x. True \<and> xorb_header_deserialize bs = Inr (x, drop 48 bs)" if "48 \<le> length bs" for bs
    using that by (simp add: xorb_header_deserialize_def read_exact_def field_reads)
qed

interpretation xorb_entry_codec: codec xorb_entry_serialize xorb_entry_deserialize 48 "\<lambda>_. True"
proof
  show len: "length (xorb_entry_serialize x) = 48" for x
    by (simp add: xorb_entry_serialize_def reader_simps)
  show "xorb_entry_deserialize (xorb_entry_serialize x @ rest) = Inr (x, rest)" for x rest
    using read_exact_append [OF len, of x rest]
    by (cases x) (simp add: xorb_entry_deserialize_def xorb_entry_serialize_def reader_simps)
  show "xorb_entry_deserialize bs = Inl UnexpectedEof" if "length bs < 48" for bs
    using that by (simp add: xorb_entry_deserialize_def read_exact_def)
  show "\<exists>x. True \<and> xorb_entry_deserialize bs = Inr (x, drop 48 bs)" if "48 \<le> length bs" for bs
    using that by (simp add: xorb_entry_deserialize_def read_exact_def field_reads)
qed

lemmas xorb_codecs [reader_simps] =
  xorb_header_codec.de_ser [OF TrueI] xorb_entry_codec.de_ser [OF TrueI]
  xorb_header_codec.length_ser xorb_entry_codec.length_ser xorb_entry_codec.length_sers

section \<open>Xorb info\<close>

record mdb_xorb_info =
  xorb_metadata :: xorb_chunk_sequence_header
  xorb_chunks :: "xorb_chunk_sequence_entry list"

definition xorb_info_num_bytes :: "mdb_xorb_info \<Rightarrow> u64" where
  "xorb_info_num_bytes info = of_nat (48 + length (xorb_chunks info) * 48)"

definition xorb_info_serialize :: "mdb_xorb_info \<Rightarrow> bytes \<times> nat" where
  "xorb_info_serialize info =
     (xorb_header_serialize (xorb_metadata info) @ concat (map xorb_entry_serialize (xorb_chunks info)),
      48 + 48 * length (xorb_chunks info))"

definition xorb_info_deserialize :: "mdb_xorb_info option reader" where
  "xorb_info_deserialize bs =
     rbind (xorb_header_deserialize bs) (\<lambda>(metadata, bs).
       if xorb_header_is_bookend metadata then Inr (None, bs)
       else rbind (read_n xorb_entry_deserialize (unat (xh_num_entries metadata)) bs) (\<lambda>(chunks, bs).
         Inr (Some \<lparr>xorb_metadata = metadata, xorb_chunks = chunks\<rparr>, bs)))"

definition chunks_and_boundaries :: "mdb_xorb_info \<Rightarrow> (merkle_hash \<times> u32) list" where
  "chunks_and_boundaries info =
     map (\<lambda>entry. (xe_chunk_hash entry, xe_chunk_byte_range_start entry + xe_unpacked_segment_bytes entry))
       (xorb_chunks info)"

definition wf_xorb_info :: "mdb_xorb_info \<Rightarrow> bool" where
  "wf_xorb_info info \<longleftrightarrow> \<not> xorb_header_is_bookend (xorb_metadata info) \<and>
     unat (xh_num_entries (xorb_metadata info)) = length (xorb_chunks info)"

lemma xorb_info_de_ser:
  assumes "wf_xorb_info info"
  shows "xorb_info_deserialize (fst (xorb_info_serialize info) @ rest) = Inr (Some info, rest)"
proof -
  have "read_n xorb_entry_deserialize (length (xorb_chunks info))
      (concat (map xorb_entry_serialize (xorb_chunks info)) @ rest) = Inr (xorb_chunks info, rest)"
    by (intro xorb_entry_codec.read_n_sers) simp
  with assms show ?thesis
    by (simp add: xorb_info_deserialize_def xorb_info_serialize_def wf_xorb_info_def reader_simps)
qed

text \<open>(C15) A xorb info is read back as written whatever follows it, and a serialized xorb info that
  is cut short at any byte is refused with an end-of-file error.\<close>

theorem xorb_info_roundtrip:
  assumes "wf_xorb_info info"
  shows "xorb_info_deserialize (fst (xorb_info_serialize info) @ rest) = Inr (Some info, rest) \<and>
    length (fst (xorb_info_serialize info)) = snd (xorb_info_serialize info) \<and>
    (n < snd (xorb_info_serialize info) \<longrightarrow>
      xorb_info_deserialize (take n (fst (xorb_info_serialize info))) = Inl UnexpectedEof)"
proof (intro conjI impI)
  show "xorb_info_deserialize (fst (xorb_info_serialize info) @ rest) = Inr (Some info, rest)"
    by (rule xorb_info_de_ser [OF assms])
  show "length (fst (xorb_info_serialize info)) = snd (xorb_info_serialize info)"
    by (simp add: xorb_info_serialize_def reader_simps)
  assume n: "n < snd (xorb_info_serialize info)"
  show "xorb_info_deserialize (take n (fst (xorb_info_serialize info))) = Inl UnexpectedEof"
  proof (cases "n < 48")
    case True
    then show ?thesis by (simp add: xorb_info_deserialize_def xorb_header_codec.de_short)
  next
    case False
    let ?tail = "take (n - 48) (concat (map xorb_entry_serialize (xorb_chunks info)))"
    have "length ?tail < length (xorb_chunks info) * 48"
      using n False by (simp add: xorb_info_serialize_def reader_simps)
    then have "read_n xorb_entry_deserialize (length (xorb_chunks info)) ?tail = Inl UnexpectedEof"
      using xorb_entry_codec.read_n_cases [of ?tail "length (xorb_chunks info)"] by simp
    moreover have "take n (fst (xorb_info_serialize info)) = xorb_header_serialize (xorb_metadata info) @ ?tail"
      using False by (simp add: xorb_info_serialize_def reader_simps)
    ultimately show ?thesis
      using assms by (simp add: xorb_info_deserialize_def wf_xorb_info_def reader_simps)
  qed
qed

definition demo_xorb_info :: mdb_xorb_info where
  "demo_xorb_info =
     \<lparr>xorb_metadata = \<lparr>xh_xorb_hash = DataHash 1 2 3 4, xh_xorb_flags = 0, xh_num_entries = 2,
        xh_num_bytes_in_xorb = 300, xh_num_bytes_on_disk = 200\<rparr>,
      xorb_chunks =
        [\<lparr>xe_chunk_hash = DataHash 5 0 0 0, xe_chunk_byte_range_start = 0, xe_unpacked_segment_bytes = 100,
          xe_flags = 0, xe_unused = 0\<rparr>,
         \<lparr>xe_chunk_hash = DataHash 6 0 0 0, xe_chunk_byte_range_start = 100, xe_unpacked_segment_bytes = 200,
          xe_flags = 0, xe_unused = 0\<rparr>]\<rparr>"

lemma wf_demo_xorb_info: "wf_xorb_info demo_xorb_info"
  by code_simp

theorem xorb_info_roundtrip_witness:
  "xorb_info_deserialize (fst (xorb_info_serialize demo_xorb_info) @ [1, 2]) = Inr (Some demo_xorb_info, [1, 2]) \<and>
   xorb_info_deserialize (take 143 (fst (xorb_info_serialize demo_xorb_info))) = Inl UnexpectedEof"
proof -
  have "143 < snd (xorb_info_serialize demo_xorb_info)"
    by (simp add: xorb_info_serialize_def demo_xorb_info_def)
  with xorb_info_roundtrip [OF wf_demo_xorb_info, of "[1, 2]" 143] show ?thesis by simp
qed

text \<open>The global deduplication flag is set and cleared without touching the rest of the entry.\<close>

lemma with_global_dedup_flag_spec:
  "is_global_dedup_eligible (with_global_dedup_flag e b) \<longleftrightarrow> b \<or> hash_is_global_dedup_eligible (xe_chunk_hash e)"
proof -
  have "bit (xe_flags (with_global_dedup_flag e b)) 31 \<longleftrightarrow> b"
    by (simp add: with_global_dedup_flag_def MDB_CHUNK_WITH_GLOBAL_DEDUP_FLAG_def bit_or_iff bit_and_iff
        bit_not_iff bit_flag del: push_bit_of_1)
  moreover have "xe_chunk_hash (with_global_dedup_flag e b) = xe_chunk_hash e"
    by (simp add: with_global_dedup_flag_def)
  ultimately show ?thesis
    unfolding is_global_dedup_eligible_def MDB_CHUNK_WITH_GLOBAL_DEDUP_FLAG_def flag_test by simp
qed

section \<open>Views\<close>

record mdb_xorb_info_view =
  xview_header :: xorb_chunk_sequence_header
  xview_data :: bytes

definition xorb_view_from_data_and_header ::
  "xorb_chunk_sequence_header \<Rightarrow> bytes \<Rightarrow> io_error + mdb_xorb_info_view" where
  "xorb_view_from_data_and_header header data =
     (let n = unat (xh_num_entries header); n_bytes = 48 + n * 48
      in if length data < n_bytes then Inl UnexpectedEof
         else Inr \<lparr>xview_header = header, xview_data = data\<rparr>)"

definition xorb_view_new :: "bytes \<Rightarrow> io_error + mdb_xorb_info_view" where
  "xorb_view_new data =
     rbind (xorb_header_deserialize data) (\<lambda>(header, _). xorb_view_from_data_and_header header data)"

definition xorb_view_num_entries :: "mdb_xorb_info_view \<Rightarrow> nat" where
  "xorb_view_num_entries v = unat (xh_num_entries (xview_header v))"

definition xorb_view_chunk :: "mdb_xorb_info_view \<Rightarrow> nat \<Rightarrow> xorb_chunk_sequence_entry option" where
  "xorb_view_chunk v idx = expect_read (xorb_entry_deserialize (drop (48 + idx * 48) (xview_data v)))"

definition xorb_view_byte_size :: "mdb_xorb_info_view \<Rightarrow> nat" where
  "xorb_view_byte_size v = 48 + xorb_view_num_entries v * 48"

definition xorb_view_serialize :: "mdb_xorb_info_view \<Rightarrow> bytes \<times> nat" where
  "xorb_view_serialize v = (take (xorb_view_byte_size v) (xview_data v), xorb_view_byte_size v)"

text \<open>The loop writes the header and then each chunk as the callback rewrites it.\<close>

definition xorb_view_serialize_with_chunk_rewrite ::
  "mdb_xorb_info_view \<Rightarrow> (nat \<Rightarrow> xorb_chunk_sequence_entry \<Rightarrow> xorb_chunk_sequence_entry) \<Rightarrow>
     (bytes \<times> nat) option" where
  "xorb_view_serialize_with_chunk_rewrite v chunk_rewrite_fn =
     map_option (\<lambda>chunks.
       (xorb_header_serialize (xview_header v) @ concat (map xorb_entry_serialize chunks),
        48 + 48 * length chunks))
       (sequence_options
          (map (\<lambda>idx. map_option (chunk_rewrite_fn idx) (xorb_view_chunk v idx)) [0..<xorb_view_num_entries v]))"

definition xorb_info_from_view :: "mdb_xorb_info_view \<Rightarrow> mdb_xorb_info option" where
  "xorb_info_from_view v =
     Option.bind (sequence_options (map (xorb_view_chunk v) [0..<xorb_view_num_entries v])) (\<lambda>chunks.
       let total_bytes = (if chunks = [] then 0
             else xe_chunk_byte_range_start (last chunks) + xe_unpacked_segment_bytes (last chunks))
       in Option.bind (xorb_header_new (xh_xorb_hash (xview_header v)) (length chunks) (unat total_bytes)) (\<lambda>metadata.
         Some \<lparr>xorb_metadata = metadata, xorb_chunks = chunks\<rparr>))"

definition xview_of :: "mdb_xorb_info \<Rightarrow> mdb_xorb_info_view" where
  "xview_of info = \<lparr>xview_header = xorb_metadata info, xview_data = fst (xorb_info_serialize info)\<rparr>"

lemma xorb_view_chunk_serialized:
  assumes "i < length (xorb_chunks info)"
  shows "xorb_view_chunk (xview_of info) i = Some (xorb_chunks info ! i)"
proof -
  obtain rest' where "xorb_entry_deserialize
      (drop (i * 48) (concat (map xorb_entry_serialize (xorb_chunks info)) @ [])) = Inr (xorb_chunks info ! i, rest')"
    using xorb_entry_codec.de_sers_nth [of "xorb_chunks info" i "[]"] assms by auto
  then show ?thesis
    by (simp add: xorb_view_chunk_def xview_of_def xorb_info_serialize_def reader_simps expect_read_def)
qed

lemma xview_num_entries: "wf_xorb_info info \<Longrightarrow> xorb_view_num_entries (xview_of info) = length (xorb_chunks info)"
  by (simp add: xorb_view_num_entries_def xview_of_def wf_xorb_info_def)

lemma xorb_info_from_view_of:
  assumes wf: "wf_xorb_info info"
  shows "xorb_info_from_view (xview_of info) =
    Some (info\<lparr>xorb_metadata := (xorb_metadata info)\<lparr>xh_xorb_flags := 0,
      xh_num_bytes_in_xorb := (if xorb_chunks info = [] then 0 else
        xe_chunk_byte_range_start (last (xorb_chunks info)) + xe_unpacked_segment_bytes (last (xorb_chunks info))),
      xh_num_bytes_on_disk := 0\<rparr>\<rparr>)"
proof -
  have all: "sequence_options (map (xorb_view_chunk (xview_of info)) [0..<length (xorb_chunks info)]) = Some (xorb_chunks info)"
    by (rule sequence_options_nth) (rule xorb_view_chunk_serialized)
  have "try_u32 (length (xorb_chunks info)) = Some (xh_num_entries (xorb_metadata info))"
    using wf by (simp add: wf_xorb_info_def)
  moreover have "try_u32 (unat w) = Some w" for w by simp
  moreover have "xh_xorb_hash (xview_header (xview_of info)) = xh_xorb_hash (xorb_metadata info)"
    by (simp add: xview_of_def)
  ultimately show ?thesis
    by (simp add: xorb_info_from_view_def xview_num_entries [OF wf] all xorb_header_new_def MDB_DEFAULT_XORB_FLAG_def
        Let_def del: try_u32_eq_Some)
qed

text \<open>(C17) The view over a serialized xorb info is accepted; each chunk is read back; serializing it
  gives the same bytes; rewriting its chunks writes the info with the rewritten chunks. Converting
  it to an info keeps the hash and the chunks but recomputes the header: the byte count is the end
  of the last chunk, and the flags and the size on disk become zero.\<close>

theorem xorb_view_faithful:
  assumes wf: "wf_xorb_info info"
  shows "\<exists>v. xorb_view_new (fst (xorb_info_serialize info)) = Inr v \<and>
    (\<forall>i<length (xorb_chunks info). xorb_view_chunk v i = Some (xorb_chunks info ! i)) \<and>
    xorb_view_serialize v = xorb_info_serialize info \<and>
    xorb_view_serialize_with_chunk_rewrite v f = Some (xorb_info_serialize (info\<lparr>xorb_chunks :=
      map (\<lambda>i. f i (xorb_chunks info ! i)) [0..<length (xorb_chunks info)]\<rparr>)) \<and>
    xorb_info_from_view v = Some (info\<lparr>xorb_metadata := (xorb_metadata info)\<lparr>xh_xorb_flags := 0,
      xh_num_bytes_in_xorb := (if xorb_chunks info = [] then 0 else
        xe_chunk_byte_range_start (last (xorb_chunks info)) + xe_unpacked_segment_bytes (last (xorb_chunks info))),
      xh_num_bytes_on_disk := 0\<rparr>\<rparr>)"
proof (intro exI conjI allI impI)
  let ?n = "length (xorb_chunks info)"
  have n: "xorb_view_num_entries (xview_of info) = ?n" by (rule xview_num_entries [OF wf])
  have hdr: "xorb_header_deserialize (fst (xorb_info_serialize info)) =
      Inr (xorb_metadata info, concat (map xorb_entry_serialize (xorb_chunks info)))"
    by (simp add: xorb_info_serialize_def reader_simps)
  then show "xorb_view_new (fst (xorb_info_serialize info)) = Inr (xview_of info)"
    using wf by (simp add: xorb_view_new_def xorb_view_from_data_and_header_def wf_xorb_info_def xview_of_def
        xorb_info_serialize_def reader_simps)
  show "xorb_view_chunk (xview_of info) i = Some (xorb_chunks info ! i)" if "i < ?n" for i
    using that by (rule xorb_view_chunk_serialized)
  show "xorb_view_serialize (xview_of info) = xorb_info_serialize info"
    by (simp add: xorb_view_serialize_def xorb_view_byte_size_def n)
      (simp add: xview_of_def xorb_info_serialize_def reader_simps)
  let ?cs = "map (\<lambda>i. f i (xorb_chunks info ! i)) [0..<?n]"
  have "sequence_options (map (\<lambda>idx. map_option (f idx) (xorb_view_chunk (xview_of info) idx)) [0..<?n]) = Some ?cs"
    unfolding sequence_options_Some by (simp add: xorb_view_chunk_serialized)
  then show "xorb_view_serialize_with_chunk_rewrite (xview_of info) f =
      Some (xorb_info_serialize (info\<lparr>xorb_chunks := ?cs\<rparr>))"
    by (simp add: xorb_view_serialize_with_chunk_rewrite_def n)
      (simp add: xview_of_def xorb_info_serialize_def)
  show "xorb_info_from_view (xview_of info) =
    Some (info\<lparr>xorb_metadata := (xorb_metadata info)\<lparr>xh_xorb_flags := 0,
      xh_num_bytes_in_xorb := (if xorb_chunks info = [] then 0 else
        xe_chunk_byte_range_start (last (xorb_chunks info)) + xe_unpacked_segment_bytes (last (xorb_chunks info))),
      xh_num_bytes_on_disk := 0\<rparr>\<rparr>)"
    by (rule xorb_info_from_view_of [OF wf])
qed

theorem xorb_view_faithful_witness:
  "\<exists>v. xorb_view_new (fst (xorb_info_serialize demo_xorb_info)) = Inr v \<and>
    xorb_view_chunk v 1 = Some (xorb_chunks demo_xorb_info ! 1)"
proof -
  have "1 < length (xorb_chunks demo_xorb_info)" by (simp add: demo_xorb_info_def)
  with xorb_view_faithful [OF wf_demo_xorb_info] show ?thesis by blast
qed

end
