(* ===== verification/Interpolation_Search.thy ===== *)
theory Interpolation_Search
  imports Serialization_Utils "HOL-Library.Multiset"
begin

text \<open>
  \<open>search_on_sorted_u64s\<close> of \<open>xet_core_structures/src/metadata_shard/interpolation_search.rs\<close>: the
  search of a shard's lookup tables. A seek is \<open>drop\<close> on the file's bytes. The position computed
  in \<open>f64\<close> arithmetic is a parameter \<open>interp\<close> that may return anything, since the code clamps it
  into the current window; the results hold for every such function. Indices into the table are
  unbounded. The probing loop takes fuel; the window shrinks with every probe, so the number of
  entries plus one is enough, and this is part of the theorem.
\<close>

section \<open>The code\<close>

definition READ_WINDOW_SIZE :: nat where
  "READ_WINDOW_SIZE = 256"

definition EXPECTED_MAX_NUM_DUPLICATES :: nat where
  "EXPECTED_MAX_NUM_DUPLICATES = 4"

definition write_result :: "nat \<Rightarrow> 'v list \<Rightarrow> 'v \<Rightarrow> 'v list" where
  "write_result cap out v = (if length out < cap then out @ [v] else out)"

type_synonym interp = "nat \<Rightarrow> u64 \<Rightarrow> nat \<Rightarrow> u64 \<Rightarrow> nat"

definition compute_probe_location :: "interp \<Rightarrow> nat \<Rightarrow> u64 \<Rightarrow> nat \<Rightarrow> u64 \<Rightarrow> nat" where
  "compute_probe_location interp lo lo_key hi hi_key =
     min (max (lo + interp lo lo_key hi hi_key) (lo + 1)) (hi - 1)"

text \<open>The loop that follows a block of equal keys forward.\<close>

fun read_ahead :: "'v reader \<Rightarrow> u64 \<Rightarrow> nat \<Rightarrow> nat \<Rightarrow> bytes \<Rightarrow> 'v list \<Rightarrow> io_error + 'v list" where
  "read_ahead de key cap 0 rd out = Inr out"
| "read_ahead de key cap (Suc cnt) rd out =
     rbind (read_u64 rd) (\<lambda>(k, rd).
       if k \<noteq> key then Inr out
       else rbind (de rd) (\<lambda>(v, rd). read_ahead de key cap cnt rd (write_result cap out v)))"

text \<open>The sequential read of the last window.\<close>

fun scan_window :: "'v reader \<Rightarrow> u64 \<Rightarrow> nat \<Rightarrow> nat \<Rightarrow> bytes \<Rightarrow> 'v list \<Rightarrow> io_error + 'v list" where
  "scan_window de key cap 0 rd out = Inr out"
| "scan_window de key cap (Suc cnt) rd out =
     rbind (read_u64 rd) (\<lambda>(probe_key, rd).
     rbind (de rd) (\<lambda>(probe_value, rd).
       if key < probe_key then Inr out
       else if key = probe_key then scan_window de key cap cnt rd (write_result cap out probe_value)
       else scan_window de key cap cnt rd out))"

fun probe_loop ::
  "interp \<Rightarrow> 'v reader \<Rightarrow> nat \<Rightarrow> bytes \<Rightarrow> nat \<Rightarrow> u64 \<Rightarrow> nat \<Rightarrow> nat \<Rightarrow>
     nat \<Rightarrow> u64 \<Rightarrow> nat \<Rightarrow> u64 \<Rightarrow> nat \<Rightarrow> 'v list \<Rightarrow> (io_error + nat \<times> nat \<times> 'v list) option" where
  "probe_loop interp de pair_size file read_start key cap 0 lo lo_key hi hi_key probe_index out = None"
| "probe_loop interp de pair_size file read_start key cap (Suc fuel) lo lo_key hi hi_key probe_index out =
     (if lo + READ_WINDOW_SIZE < hi then
        (case read_u64 (drop (read_start + (probe_index - 1) * pair_size) file) of
           Inl e \<Rightarrow> Some (Inl e)
         | Inr (probe_key, rd) \<Rightarrow>
             if key < probe_key then
               let hi = probe_index; hi_key = probe_key;
                   candidate = compute_probe_location interp lo lo_key hi hi_key;
                   probe_index = (if probe_index < candidate + READ_WINDOW_SIZE
                     then probe_index - min READ_WINDOW_SIZE (probe_index - (lo + 1)) else candidate)
               in probe_loop interp de pair_size file read_start key cap fuel lo lo_key hi hi_key probe_index out
             else if key = probe_key then
               (case rbind (de rd) (\<lambda>(v, rd).
                       read_ahead de key cap (hi - (probe_index + 1)) rd (write_result cap out v)) of
                  Inl e \<Rightarrow> Some (Inl e)
                | Inr out \<Rightarrow>
                    let hi = probe_index; hi_key = probe_key;
                        probe_index = probe_index - min EXPECTED_MAX_NUM_DUPLICATES (probe_index - (lo + 1))
                    in probe_loop interp de pair_size file read_start key cap fuel lo lo_key hi hi_key
                         probe_index out)
             else
               let lo = probe_index; lo_key = probe_key;
                   candidate = compute_probe_location interp lo lo_key hi hi_key;
                   probe_index = (if candidate - probe_index \<le> READ_WINDOW_SIZE
                     then min (lo + READ_WINDOW_SIZE) (hi - 1) else candidate)
               in probe_loop interp de pair_size file read_start key cap fuel lo lo_key hi hi_key probe_index out)
      else Some (Inr (lo, hi, out)))"

definition search_on_sorted_u64s ::
  "interp \<Rightarrow> 'v reader \<Rightarrow> nat \<Rightarrow> bytes \<Rightarrow> nat \<Rightarrow> nat \<Rightarrow> u64 \<Rightarrow> nat \<Rightarrow> nat \<Rightarrow> (io_error + 'v list) option" where
  "search_on_sorted_u64s interp de value_size file read_start num_entries key cap fuel =
     (let pair_size = value_size + 8 in
      if cap = 0 then Some (Inr [])
      else
        let lo = 0; lo_key = 0; hi = num_entries + 1; hi_key = - 1;
            probe_index = compute_probe_location interp lo lo_key hi hi_key
        in case probe_loop interp de pair_size file read_start key cap fuel lo lo_key hi hi_key probe_index [] of
             None \<Rightarrow> None
           | Some (Inl e) \<Rightarrow> Some (Inl e)
           | Some (Inr (lo, hi, out)) \<Rightarrow>
               Some (scan_window de key cap (hi - (lo + 1)) (drop (read_start + lo * pair_size) file) out))"

section \<open>Tables\<close>

definition enc_pair :: "('v \<Rightarrow> bytes) \<Rightarrow> u64 \<times> 'v \<Rightarrow> bytes" where
  "enc_pair ser p = write_u64 (fst p) @ ser (snd p)"

definition enc_table :: "('v \<Rightarrow> bytes) \<Rightarrow> (u64 \<times> 'v) list \<Rightarrow> bytes" where
  "enc_table ser kvs = concat (map (enc_pair ser) kvs)"

definition matches :: "u64 \<Rightarrow> (u64 \<times> 'v) list \<Rightarrow> 'v list" where
  "matches key kvs = map snd (filter (\<lambda>p. fst p = key) kvs)"

definition sorted_keys :: "(u64 \<times> 'v) list \<Rightarrow> bool" where
  "sorted_keys kvs \<longleftrightarrow> sorted (map fst kvs)"

lemma matches_simps [simp]:
  "matches key [] = []"
  "matches key (p # kvs) = (if fst p = key then snd p # matches key kvs else matches key kvs)"
  "matches key (kvs @ kvs') = matches key kvs @ matches key kvs'"
  by (simp_all add: matches_def)

lemma matches_greater: "\<forall>p \<in> set kvs. key < fst p \<Longrightarrow> matches key kvs = []"
  by (induction kvs) auto

lemma matches_less: "\<forall>p \<in> set kvs. fst p < key \<Longrightarrow> matches key kvs = []"
  by (induction kvs) auto

text \<open>Writing a sequence of results: as many of them as there is room for.\<close>

lemma write_results: "length out \<le> cap \<Longrightarrow> foldl (write_result cap) out vs = take cap (out @ vs)"
proof (induction vs arbitrary: out)
  case (Cons v vs)
  show ?case
  proof (cases "length out < cap")
    case True
    then show ?thesis using Cons.IH [of "out @ [v]"] by (simp add: write_result_def)
  next
    case False
    then show ?thesis using Cons.IH [of out] Cons.prems by (simp add: write_result_def)
  qed
qed simp

lemma write_results_take: "foldl (write_result cap) (take cap w) vs = take cap (w @ vs)"
proof -
  have "foldl (write_result cap) (take cap w) vs = take cap (take cap w @ vs)"
    by (rule write_results) simp
  also have "\<dots> = take cap (w @ vs)" by (cases "length w \<le> cap") auto
  finally show ?thesis .
qed

definition window_inv :: "u64 \<Rightarrow> (u64 \<times> 'v) list \<Rightarrow> nat \<Rightarrow> nat \<Rightarrow> 'v list \<Rightarrow> bool" where
  "window_inv key kvs lo hi w \<longleftrightarrow> lo < hi \<and> hi \<le> length kvs + 1 \<and>
     (\<forall>p \<in> set (take lo kvs). fst p < key) \<and> (\<forall>p \<in> set (drop (hi - 1) kvs). key \<le> fst p) \<and>
     mset w = mset (matches key (drop (hi - 1) kvs))"

text \<open>Moving an end of the window to a probed entry.\<close>

lemma sorted_keys_take: "sorted_keys kvs \<Longrightarrow> i < length kvs \<Longrightarrow> p \<in> set (take (Suc i) kvs) \<Longrightarrow> fst p \<le> fst (kvs ! i)"
  by (auto simp: sorted_keys_def sorted_iff_nth_mono in_set_conv_nth)

lemma sorted_keys_drop: "sorted_keys kvs \<Longrightarrow> i < length kvs \<Longrightarrow> p \<in> set (drop i kvs) \<Longrightarrow> fst (kvs ! i) \<le> fst p"
  by (auto simp: sorted_keys_def sorted_iff_nth_mono in_set_conv_nth)

lemma drop_split: "i \<le> j \<Longrightarrow> drop i xs = take (j - i) (drop i xs) @ drop j xs"
  by (metis add.commute append_take_drop_id drop_drop le_add_diff_inverse2)

lemma window_less:
  assumes "window_inv key kvs lo hi w" "sorted_keys kvs" "lo < i" "i < hi" "key < fst (kvs ! (i - 1))"
  shows "window_inv key kvs lo i w"
proof -
  have i: "i - 1 < length kvs" "i - 1 \<le> hi - 1" using assms by (auto simp: window_inv_def)
  then have gt: "\<forall>p \<in> set (drop (i - 1) kvs). key < fst p"
    using sorted_keys_drop [OF assms(2) i(1)] assms(5) by fastforce
  then have "matches key (drop (i - 1) kvs) = []" by (rule matches_greater)
  moreover have "set (drop (hi - 1) kvs) \<subseteq> set (drop (i - 1) kvs)"
    using i(2) by (rule set_drop_subset_set_drop)
  then have "matches key (drop (hi - 1) kvs) = []" using gt by (intro matches_greater) blast
  ultimately show ?thesis using assms gt by (auto simp: window_inv_def less_imp_le)
qed

lemma window_greater:
  assumes "window_inv key kvs lo hi w" "sorted_keys kvs" "lo < i" "i < hi" "fst (kvs ! (i - 1)) < key"
  shows "window_inv key kvs i hi w"
proof -
  have i: "i - 1 < length kvs" "Suc (i - 1) = i" using assms by (auto simp: window_inv_def)
  then have "\<forall>p \<in> set (take i kvs). fst p < key"
    using sorted_keys_take [OF assms(2) i(1)] assms(5) by fastforce
  then show ?thesis using assms by (simp add: window_inv_def)
qed

lemma window_equal:
  assumes "window_inv key kvs lo hi w" "sorted_keys kvs" "lo < i" "i < hi" "fst (kvs ! (i - 1)) = key"
  shows "window_inv key kvs lo i (w @ matches key (take (hi - i) (drop (i - 1) kvs)))"
proof -
  have i: "i - 1 < length kvs" using assms by (auto simp: window_inv_def)
  then have "\<forall>p \<in> set (drop (i - 1) kvs). key \<le> fst p"
    using sorted_keys_drop [OF assms(2) i] assms(5) by fastforce
  moreover have "drop (i - 1) kvs = take (hi - i) (drop (i - 1) kvs) @ drop (hi - 1) kvs"
    using drop_split [of "i - 1" "hi - 1" kvs] assms(3,4) by simp
  then have "matches key (drop (i - 1) kvs) =
      matches key (take (hi - i) (drop (i - 1) kvs)) @ matches key (drop (hi - 1) kvs)"
    using matches_simps(3) by metis
  ultimately show ?thesis using assms by (simp add: window_inv_def)
qed

lemma window_done:
  assumes "window_inv key kvs lo hi w"
  shows "mset (w @ matches key (take (hi - (lo + 1)) (drop lo kvs))) = mset (matches key kvs)"
proof -
  have lo: "lo \<le> hi - 1" using assms by (auto simp: window_inv_def)
  have "matches key (take lo kvs) = []"
    using assms by (intro matches_less) (simp add: window_inv_def)
  moreover have "kvs = take lo kvs @ take (hi - (lo + 1)) (drop lo kvs) @ drop (hi - 1) kvs"
    using drop_split [OF lo, of kvs] by simp
  then have "matches key kvs = matches key (take lo kvs) @
      matches key (take (hi - (lo + 1)) (drop lo kvs)) @ matches key (drop (hi - 1) kvs)"
    using matches_simps(3) by metis
  ultimately show ?thesis using assms by (simp add: window_inv_def)
qed

section \<open>Correctness of the search\<close>

context codec
begin

lemma length_enc_table: "length (enc_table ser kvs) = length kvs * (record_size + 8)"
  by (induction kvs) (simp_all add: enc_table_def enc_pair_def length_ser reader_simps)

lemma drop_enc_table:
  assumes "i \<le> length kvs"
  shows "drop (i * (record_size + 8)) (enc_table ser kvs @ rest) = enc_table ser (drop i kvs) @ rest"
proof -
  have "enc_table ser kvs = enc_table ser (take i kvs) @ enc_table ser (drop i kvs)"
    by (simp add: enc_table_def flip: concat_append map_append)
  moreover have "length (enc_table ser (take i kvs)) = i * (record_size + 8)"
    using assms by (simp add: length_enc_table)
  ultimately show ?thesis by simp
qed

lemma enc_table_Cons: "enc_table ser (p # kvs) @ rest = write_u64 (fst p) @ ser (snd p) @ enc_table ser kvs @ rest"
  by (simp add: enc_table_def enc_pair_def)

lemma read_ahead_eq:
  "cnt \<le> length kvs \<Longrightarrow> \<forall>p \<in> set kvs. wf (snd p) \<Longrightarrow> sorted_keys kvs \<Longrightarrow> \<forall>p \<in> set kvs. key \<le> fst p \<Longrightarrow>
     read_ahead de key cap cnt (enc_table ser kvs @ rest) out =
       Inr (foldl (write_result cap) out (matches key (take cnt kvs)))"
proof (induction cnt arbitrary: kvs out)
  case (Suc cnt)
  then obtain p kvs' where kvs: "kvs = p # kvs'" by (cases kvs) auto
  show ?case
  proof (cases "fst p = key")
    case True
    with Suc kvs show ?thesis
      by (simp add: enc_table_Cons reader_simps de_ser sorted_keys_def)
  next
    case False
    with Suc.prems kvs have "\<forall>q \<in> set kvs. key < fst q"
      by (fastforce simp: sorted_keys_def)
    then have "matches key (take (Suc cnt) kvs) = []"
      by (intro matches_greater) (meson in_set_takeD)
    with False kvs show ?thesis by (simp add: enc_table_Cons reader_simps)
  qed
qed simp

lemma scan_window_eq:
  "cnt \<le> length kvs \<Longrightarrow> \<forall>p \<in> set kvs. wf (snd p) \<Longrightarrow> sorted_keys kvs \<Longrightarrow>
     scan_window de key cap cnt (enc_table ser kvs @ rest) out =
       Inr (foldl (write_result cap) out (matches key (take cnt kvs)))"
proof (induction cnt arbitrary: kvs out)
  case (Suc cnt)
  then obtain p kvs' where kvs: "kvs = p # kvs'" by (cases kvs) auto
  show ?case
  proof (cases "key < fst p")
    case False
    with Suc kvs show ?thesis
      by (auto simp: enc_table_Cons reader_simps de_ser sorted_keys_def)
  next
    case True
    with Suc.prems kvs have "\<forall>q \<in> set kvs. key < fst q"
      by (fastforce simp: sorted_keys_def)
    then have "matches key (take (Suc cnt) kvs) = []"
      by (intro matches_greater) (meson in_set_takeD)
    with True Suc.prems kvs show ?thesis by (simp add: enc_table_Cons reader_simps de_ser)
  qed
qed simp

lemma read_probe:
  assumes "drop read_start file = enc_table ser kvs @ rest" and "0 < i" and "i \<le> length kvs"
  shows "read_u64 (drop (read_start + (i - 1) * (record_size + 8)) file) =
    Inr (fst (kvs ! (i - 1)), ser (snd (kvs ! (i - 1))) @ enc_table ser (drop i kvs) @ rest)"
proof -
  have "drop (read_start + (i - 1) * (record_size + 8)) file =
      drop ((i - 1) * (record_size + 8)) (drop read_start file)"
    by (simp add: add.commute)
  also have "\<dots> = enc_table ser (drop (i - 1) kvs) @ rest"
    unfolding assms(1) using assms(3) by (intro drop_enc_table) simp
  also have "drop (i - 1) kvs = kvs ! (i - 1) # drop i kvs"
    using assms(2,3) Cons_nth_drop_Suc [of "i - 1" kvs] by simp
  finally show ?thesis by (simp add: enc_table_Cons reader_simps)
qed

lemma probe_block:
  assumes kvs: "sorted_keys kvs" "\<forall>p \<in> set kvs. wf (snd p)" and i: "0 < i" "i < hi" "hi \<le> length kvs + 1"
    and key: "fst (kvs ! (i - 1)) = key"
  shows "rbind (de (ser (snd (kvs ! (i - 1))) @ enc_table ser (drop i kvs) @ rest))
      (\<lambda>(v, rd). read_ahead de key cap (hi - (i + 1)) rd (write_result cap out v)) =
    Inr (foldl (write_result cap) out (matches key (take (hi - i) (drop (i - 1) kvs))))"
proof -
  have il: "i - 1 < length kvs" using i by simp
  have cons: "drop (i - 1) kvs = kvs ! (i - 1) # drop i kvs"
    using i Cons_nth_drop_Suc [OF il] by simp
  have "read_ahead de key cap (hi - (i + 1)) (enc_table ser (drop i kvs) @ rest) out' =
      Inr (foldl (write_result cap) out' (matches key (take (hi - (i + 1)) (drop i kvs))))" for out'
  proof (rule read_ahead_eq)
    show "hi - (i + 1) \<le> length (drop i kvs)" using i by simp
    show "\<forall>p \<in> set (drop i kvs). wf (snd p)" using kvs(2) by (meson in_set_dropD)
    show "sorted_keys (drop i kvs)" using kvs(1) by (simp add: sorted_keys_def drop_map [symmetric] sorted_wrt_drop)
    have "set (drop i kvs) \<subseteq> set (drop (i - 1) kvs)" by (rule set_drop_subset_set_drop) simp
    then show "\<forall>p \<in> set (drop i kvs). key \<le> fst p"
      using sorted_keys_drop [OF kvs(1) il] key by blast
  qed
  moreover have "wf (snd (kvs ! (i - 1)))" using kvs(2) il by simp
  moreover have "hi - i = Suc (hi - (i + 1))" using i by simp
  ultimately show ?thesis using key by (simp add: de_ser cons [simplified])
qed

lemma probe_loop_correct:
  assumes tab: "drop read_start file = enc_table ser kvs @ rest"
    and kvs: "sorted_keys kvs" "\<forall>p \<in> set kvs. wf (snd p)"
  shows "window_inv key kvs lo hi w \<Longrightarrow> (lo + 256 < hi \<longrightarrow> lo < i \<and> i < hi) \<Longrightarrow> hi - lo \<le> fuel \<Longrightarrow>
    \<exists>lo' hi' w'. probe_loop interp de (record_size + 8) file read_start key cap fuel lo lo_key hi hi_key i (take cap w) =
        Some (Inr (lo', hi', take cap w')) \<and> window_inv key kvs lo' hi' w'"
proof (induction fuel arbitrary: lo lo_key hi hi_key i w)
  case 0
  then show ?case by (simp add: window_inv_def)
next
  case (Suc fuel)
  show ?case
  proof (cases "lo + 256 < hi")
    case False
    with Suc.prems show ?thesis by (auto simp: READ_WINDOW_SIZE_def)
  next
    case True
    then have i: "lo < i" "i < hi" "0 < i" "i \<le> length kvs"
      using Suc.prems by (auto simp: window_inv_def)
    have rd: "read_u64 (drop (read_start + (i - 1) * (record_size + 8)) file) =
      Inr (fst (kvs ! (i - 1)), ser (snd (kvs ! (i - 1))) @ enc_table ser (drop i kvs) @ rest)"
      using tab i(3,4) by (rule read_probe)
    consider "key < fst (kvs ! (i - 1))" | "fst (kvs ! (i - 1)) = key" | "fst (kvs ! (i - 1)) < key"
      by fastforce
    then show ?thesis
    proof cases
      case 1
      from window_less [OF Suc.prems(1) kvs(1) i(1,2) this] show ?thesis
        using True rd 1 i Suc.prems(3)
        by (auto simp: READ_WINDOW_SIZE_def compute_probe_location_def Let_def intro!: Suc.IH)
    next
      case 2
      let ?w = "w @ matches key (take (hi - i) (drop (i - 1) kvs))"
      have "hi \<le> length kvs + 1" using Suc.prems(1) by (simp add: window_inv_def)
      then have blk: "rbind (de (ser (snd (kvs ! (i - 1))) @ enc_table ser (drop i kvs) @ rest))
          (\<lambda>(v, rd). read_ahead de key cap (hi - (i + 1)) rd (write_result cap (take cap w) v)) =
        Inr (take cap ?w)"
        unfolding write_results_take [symmetric] by (rule probe_block [OF kvs i(3,2) _ 2])
      have "probe_loop interp de (record_size + 8) file read_start key cap (Suc fuel) lo lo_key hi hi_key i (take cap w) =
          probe_loop interp de (record_size + 8) file read_start key cap fuel lo lo_key i key
            (i - min 4 (i - (lo + 1))) (take cap ?w)"
        using True rd 2 blk
        by (simp add: READ_WINDOW_SIZE_def EXPECTED_MAX_NUM_DUPLICATES_def Let_def del: take_append)
      moreover have "\<exists>lo' hi' w'. probe_loop interp de (record_size + 8) file read_start key cap fuel lo lo_key i key
            (i - min 4 (i - (lo + 1))) (take cap ?w) =
          Some (Inr (lo', hi', take cap w')) \<and> window_inv key kvs lo' hi' w'"
        using i Suc.prems(3) by (intro Suc.IH window_equal [OF Suc.prems(1) kvs(1) i(1,2) 2]) auto
      ultimately show ?thesis by (simp only:)
    next
      case 3
      from window_greater [OF Suc.prems(1) kvs(1) i(1,2) this] show ?thesis
        using True rd 3 i Suc.prems(3)
        by (auto simp: READ_WINDOW_SIZE_def compute_probe_location_def Let_def intro!: Suc.IH)
    qed
  qed
qed

lemma search_correct:
  assumes tab: "drop read_start file = enc_table ser kvs @ rest"
    and kvs: "sorted_keys kvs" "\<forall>p \<in> set kvs. wf (snd p)" and fuel: "length kvs < fuel"
  shows "\<exists>w. search_on_sorted_u64s interp de record_size file read_start (length kvs) key cap fuel =
    Some (Inr (take cap w)) \<and> mset w = mset (matches key kvs)"
proof (cases "cap = 0")
  case True
  then show ?thesis by (auto simp: search_on_sorted_u64s_def)
next
  case False
  let ?i = "compute_probe_location interp 0 0 (length kvs + 1) (- 1)"
  have "window_inv key kvs 0 (length kvs + 1) []" by (simp add: window_inv_def)
  moreover have "0 + 256 < length kvs + 1 \<longrightarrow> 0 < ?i \<and> ?i < length kvs + 1"
    by (auto simp: compute_probe_location_def)
  moreover have "length kvs + 1 - 0 \<le> fuel" using fuel by simp
  ultimately obtain lo hi w where loop: "probe_loop interp de (record_size + 8) file read_start key cap fuel 0 0
      (length kvs + 1) (- 1) ?i (take cap []) = Some (Inr (lo, hi, take cap w))"
    and inv: "window_inv key kvs lo hi w"
    using probe_loop_correct [OF tab kvs] by blast
  have lo: "lo \<le> length kvs" "hi - (lo + 1) \<le> length kvs - lo" using inv by (auto simp: window_inv_def)
  have "drop (read_start + lo * (record_size + 8)) file = drop (lo * (record_size + 8)) (drop read_start file)"
    by (simp add: add.commute)
  also have "\<dots> = enc_table ser (drop lo kvs) @ rest"
    unfolding tab using lo(1) by (rule drop_enc_table)
  finally have "scan_window de key cap (hi - (lo + 1)) (drop (read_start + lo * (record_size + 8)) file) (take cap w) =
      Inr (take cap (w @ matches key (take (hi - (lo + 1)) (drop lo kvs))))"
    using scan_window_eq [of "hi - (lo + 1)" "drop lo kvs" key cap rest "take cap w"] lo(2) kvs
    by (auto simp: write_results_take sorted_keys_def drop_map [symmetric] sorted_wrt_drop dest: in_set_dropD)
  with loop window_done [OF inv] False show ?thesis
    by (intro exI [of _ "w @ matches key (take (hi - (lo + 1)) (drop lo kvs))"] conjI)
      (simp_all add: search_on_sorted_u64s_def Let_def del: take_append)
qed

end

text \<open>(C7) Searching a sorted table of key and \<open>u32\<close> pairs stored anywhere in a shard file: the search
  ends without an I/O error and finds every value stored under the key and no other, limited only
  by the room in the result buffer, whatever the interpolated positions are.\<close>

theorem search_u32_table:
  assumes "drop read_start f = enc_table write_u32 kvs @ rest" and "sorted_keys kvs" and "length kvs < fuel"
  shows "\<exists>w. search_on_sorted_u64s interp read_u32 4 f read_start (length kvs) key cap fuel =
    Some (Inr (take cap w)) \<and> mset w = mset (matches key kvs)"
  using u32_codec.search_correct [OF assms(1,2) _ assms(3)] by blast

theorem search_u32_table_witness:
  "\<exists>w. search_on_sorted_u64s (\<lambda>_ _ _ _. 0) read_u32 4
       ([9, 9] @ enc_table write_u32 [(1, 10), (5, 20), (5, 30), (8, 40)] @ [7]) 2 4 5 8 5 =
    Some (Inr (take 8 w)) \<and> mset w = {#20, 30#}"
proof -
  let ?kvs = "[(1, 10), (5, 20), (5, 30), (8, 40)] :: (u64 \<times> u32) list"
  have "drop 2 ([9, 9] @ enc_table write_u32 ?kvs @ [7]) = enc_table write_u32 ?kvs @ [7]" by simp
  moreover have "sorted_keys ?kvs" by (simp add: sorted_keys_def)
  moreover have "length ?kvs < 5" by simp
  ultimately have "\<exists>w. search_on_sorted_u64s (\<lambda>_ _ _ _. 0) read_u32 4
       ([9, 9] @ enc_table write_u32 ?kvs @ [7]) 2 (length ?kvs) 5 8 5 =
    Some (Inr (take 8 w)) \<and> mset w = mset (matches 5 ?kvs)"
    by (rule search_u32_table)
  moreover have "length ?kvs = 4" and "matches 5 ?kvs = [20, 30]" by simp_all
  ultimately show ?thesis by (simp only: mset.simps)
qed

end
