(* ===== verification/Chunking.thy ===== *)
theory Chunking
  imports Data_Hash
begin

text \<open>
  Content-defined chunking, \<open>xet_data/src/deduplication/chunking.rs\<close>, with the chunk type and the
  stability rule of \<open>xet_core_structures/src/xorb_object\<close>. The rolling hash of the \<open>gearhash\<close> crate
  is the parameter \<open>nm\<close> (state, buffer, mask; new state and offset of the first match). What the
  crate documents about it is the locale \<open>gear_hasher\<close>: bytes are rolled into the state one at a
  time, a match is reported behind the first byte after which the masked state is zero, and the
  state after 64 bytes does not depend on what was rolled in before them. The two loops of the code
  whose termination rests on the state are partial functions with value \<open>None\<close> for not returning.
\<close>

section \<open>Constants and the chunk type\<close>

definition TARGET_CHUNK_SIZE :: nat where
  "TARGET_CHUNK_SIZE = 64 * 1024"

definition MINIMUM_CHUNK_DIVISOR :: nat where
  "MINIMUM_CHUNK_DIVISOR = 8"

definition MAXIMUM_CHUNK_MULTIPLIER :: nat where
  "MAXIMUM_CHUNK_MULTIPLIER = 2"

definition MAX_XORB_BYTES :: nat where
  "MAX_XORB_BYTES = 64 * 1024 * 1024"

definition MAX_XORB_CHUNKS :: nat where
  "MAX_XORB_CHUNKS = 8 * 1024"

record chunk =
  chunk_hash :: merkle_hash
  chunk_data :: bytes

definition chunk_new :: "keyed_hash \<Rightarrow> bytes \<Rightarrow> chunk" where
  "chunk_new kh d = \<lparr>chunk_hash = compute_data_hash kh d, chunk_data = d\<rparr>"

section \<open>The chunker\<close>

type_synonym next_match = "u64 \<Rightarrow> bytes \<Rightarrow> u64 \<Rightarrow> u64 \<times> nat option"

record chunker =
  hash :: u64
  minimum_chunk :: nat
  maximum_chunk :: nat
  mask :: u64
  chunkbuf :: bytes

definition leading_zeros :: "u64 \<Rightarrow> nat" where
  "leading_zeros w = length (takeWhile (\<lambda>i. \<not> bit w (63 - i)) [0..<64])"

definition count_ones :: "u64 \<Rightarrow> nat" where
  "count_ones w = length (filter (\<lambda>i. bit w i) [0..<64])"

text \<open>\<open>None\<close> is a failed assertion.\<close>

definition chunker_new :: "nat \<Rightarrow> chunker option" where
  "chunker_new target_chunk_size =
     (if count_ones (of_nat target_chunk_size) \<noteq> 1 then None
      else if \<not> 64 < target_chunk_size then None
      else if \<not> target_chunk_size < 2 ^ 32 - 1 then None
      else
        let m = of_nat (target_chunk_size - 1) :: u64;
            m = push_bit (leading_zeros m) m;
            min_chunk = target_chunk_size div MINIMUM_CHUNK_DIVISOR;
            max_chunk = target_chunk_size * MAXIMUM_CHUNK_MULTIPLIER
        in if \<not> min_chunk < max_chunk then None
           else Some \<lparr>hash = 0, minimum_chunk = min_chunk, maximum_chunk = max_chunk, mask = m, chunkbuf = []\<rparr>)"

definition chunker_new_with_min :: "nat \<Rightarrow> nat \<Rightarrow> chunker option" where
  "chunker_new_with_min target_chunk_size min_chunk_size =
     map_option (\<lambda>c. c\<lparr>minimum_chunk := min_chunk_size\<rparr>) (chunker_new target_chunk_size)"

definition HASH_WINDOW_SIZE :: nat where
  "HASH_WINDOW_SIZE = 64"

text \<open>The inner loop of \<open>next_boundary\<close>: skip matches that are too early.\<close>

partial_function (option) match_loop ::
  "next_match \<Rightarrow> chunker \<Rightarrow> bytes \<Rightarrow> nat \<Rightarrow> nat \<Rightarrow> u64 \<Rightarrow> (u64 \<times> nat \<times> bool) option" where
  "match_loop nm c d read_end cur_index h =
     (case nm h (slice d cur_index read_end) (mask c) of
        (h', Some next_match) \<Rightarrow>
          (let cur_index = cur_index + next_match in
           if cur_index + length (chunkbuf c) < minimum_chunk c
           then match_loop nm c d read_end cur_index h'
           else Some (h', cur_index, True))
      | (h', None) \<Rightarrow> Some (h', read_end, False))"

declare match_loop.simps [code]

definition next_boundary :: "next_match \<Rightarrow> chunker \<Rightarrow> bytes \<Rightarrow> (chunker \<times> nat option) option" where
  "next_boundary nm c d =
     (let n_bytes = length d in
      if n_bytes = 0 then Some (c, None)
      else
        let previous_len = length (chunkbuf c);
            cur_index = (if previous_len + HASH_WINDOW_SIZE < minimum_chunk c
              then min (minimum_chunk c - previous_len - HASH_WINDOW_SIZE - 1) n_bytes else 0);
            read_end = min n_bytes (cur_index + maximum_chunk c - previous_len)
        in Option.bind (match_loop nm c d read_end cur_index (hash c)) (\<lambda>(h, cur_index, create_chunk).
             let at_max = maximum_chunk c \<le> cur_index + previous_len;
                 cur_index = (if at_max then maximum_chunk c - previous_len else cur_index);
                 create_chunk = (at_max \<or> create_chunk)
             in if create_chunk then Some (c\<lparr>hash := 0\<rparr>, Some cur_index)
                else Some (c\<lparr>hash := h\<rparr>, None)))"

definition chunker_next ::
  "next_match \<Rightarrow> keyed_hash \<Rightarrow> chunker \<Rightarrow> bytes \<Rightarrow> bool \<Rightarrow> (chunker \<times> chunk option \<times> nat) option" where
  "chunker_next nm kh c d is_final =
     Option.bind (next_boundary nm c d) (\<lambda>(c, boundary).
       let emit = (\<lambda>c chunk_data consume.
             if chunk_data = [] then (c, None, 0) else (c, Some (chunk_new kh chunk_data), consume))
       in case boundary of
            Some b \<Rightarrow> Some (emit (c\<lparr>chunkbuf := []\<rparr>) (chunkbuf c @ take b d) b)
          | None \<Rightarrow>
              if is_final then Some (emit (c\<lparr>chunkbuf := [], hash := 0\<rparr>) (chunkbuf c @ d) (length d))
              else Some (c\<lparr>chunkbuf := chunkbuf c @ d\<rparr>, None, length d))"

partial_function (option) next_block_loop ::
  "next_match \<Rightarrow> keyed_hash \<Rightarrow> bytes \<Rightarrow> bool \<Rightarrow> chunker \<Rightarrow> nat \<Rightarrow> chunk list \<Rightarrow> (chunker \<times> chunk list) option" where
  "next_block_loop nm kh d is_final c pos ret =
     (if pos = length d then Some (if is_final then c\<lparr>hash := 0\<rparr> else c, ret)
      else Option.bind (chunker_next nm kh c (drop pos d) is_final) (\<lambda>(c, maybe_chunk, bytes_consumed).
        next_block_loop nm kh d is_final c (pos + bytes_consumed)
          (ret @ (case maybe_chunk of Some ch \<Rightarrow> [ch] | None \<Rightarrow> []))))"

declare next_block_loop.simps [code]

definition next_block ::
  "next_match \<Rightarrow> keyed_hash \<Rightarrow> chunker \<Rightarrow> bytes \<Rightarrow> bool \<Rightarrow> (chunker \<times> chunk list) option" where
  "next_block nm kh c d is_final = next_block_loop nm kh d is_final c 0 []"

partial_function (option) next_block_bytes_loop ::
  "next_match \<Rightarrow> keyed_hash \<Rightarrow> bytes \<Rightarrow> bool \<Rightarrow> chunker \<Rightarrow> nat \<Rightarrow> chunk list \<Rightarrow> (chunker \<times> chunk list) option" where
  "next_block_bytes_loop nm kh d is_final c pos ret =
     (if pos < length d then
        Option.bind (next_boundary nm c (drop pos d)) (\<lambda>(c, maybe_next_boundary).
          case maybe_next_boundary of
            Some chunk_size \<Rightarrow>
              next_block_bytes_loop nm kh d is_final c (pos + chunk_size)
                (ret @ [chunk_new kh (slice d pos (pos + chunk_size))])
          | None \<Rightarrow>
              if is_final then Some (c, ret @ [chunk_new kh (drop pos d)])
              else Some (c\<lparr>chunkbuf := chunkbuf c @ drop pos d\<rparr>, ret))
      else Some (c, ret))"

declare next_block_bytes_loop.simps [code]

definition next_block_bytes ::
  "next_match \<Rightarrow> keyed_hash \<Rightarrow> chunker \<Rightarrow> bytes \<Rightarrow> bool \<Rightarrow> (chunker \<times> chunk list) option" where
  "next_block_bytes nm kh c d is_final =
     Option.bind
       (if chunkbuf c \<noteq> [] then
          Option.bind (chunker_next nm kh c d is_final) (\<lambda>(c, maybe_chunk, skip_idx).
            next_block_bytes_loop nm kh d is_final c skip_idx
              (case maybe_chunk of Some ch \<Rightarrow> [ch] | None \<Rightarrow> []))
        else next_block_bytes_loop nm kh d is_final c 0 [])
       (\<lambda>(c, ret). Some (if is_final then c\<lparr>hash := 0\<rparr> else c, ret))"

definition chunker_finish :: "next_match \<Rightarrow> keyed_hash \<Rightarrow> chunker \<Rightarrow> (chunker \<times> chunk option) option" where
  "chunker_finish nm kh c = map_option (\<lambda>(c, ch, _). (c, ch)) (chunker_next nm kh c [] True)"

section \<open>Stable boundaries\<close>

definition is_stable_chunk_size :: "nat \<Rightarrow> bool" where
  "is_stable_chunk_size sz =
     (let min_chunk = TARGET_CHUNK_SIZE div MINIMUM_CHUNK_DIVISOR;
          max_chunk = TARGET_CHUNK_SIZE * MAXIMUM_CHUNK_MULTIPLIER
      in 2 * min_chunk \<le> sz \<and> sz < max_chunk - min_chunk)"

text \<open>\<open>partition_point\<close> on the sorted list of boundaries, then the scan for two stable chunks.\<close>

definition next_stable_chunk_boundary :: "nat \<Rightarrow> nat list \<Rightarrow> nat option" where
  "next_stable_chunk_boundary starting_position chunk_boundaries =
     (let start_idx = length (takeWhile (\<lambda>x. x < starting_position) chunk_boundaries) in
      map_option (\<lambda>i. chunk_boundaries ! (i + 2))
        (find (\<lambda>i. is_stable_chunk_size (chunk_boundaries ! (i + 1) - chunk_boundaries ! i) \<and>
                   is_stable_chunk_size (chunk_boundaries ! (i + 2) - chunk_boundaries ! (i + 1)))
           [start_idx..<length chunk_boundaries - 2]))"

section \<open>Partitions for parallel chunking\<close>

text \<open>
  \<open>find_partitions\<close>: the reader is the contents of the file, an I/O error and a panic (a failed
  assertion, an index out of bounds) are the two errors. \<open>None\<close> is a call that does not return.
\<close>

datatype partition_error = Partition_Io io_error | Partition_Panic

text \<open>The scan over the chunks of one window, from index 2 on, with the offset of the chunk before.\<close>

fun scan_chunks :: "nat \<Rightarrow> nat \<Rightarrow> nat \<Rightarrow> nat \<Rightarrow> nat list \<Rightarrow> nat option" where
  "scan_chunks min_chunk max_chunk offset cprev [] = None"
| "scan_chunks min_chunk max_chunk offset cprev (sz # szs) =
     (let offset = offset + sz in
      if min_chunk < cprev \<and> cprev < max_chunk - min_chunk \<and> min_chunk < sz \<and> sz < max_chunk - min_chunk
      then Some offset
      else scan_chunks min_chunk max_chunk offset sz szs)"

partial_function (option) find_partitions_loop ::
  "next_match \<Rightarrow> keyed_hash \<Rightarrow> bytes \<Rightarrow> nat \<Rightarrow> nat \<Rightarrow> nat \<Rightarrow> nat \<Rightarrow> nat \<Rightarrow> nat list \<Rightarrow> (partition_error + nat list) option" where
  "find_partitions_loop nm kh f file_size target_chunk_size min_partition_size partition_scan_bytes curpos partitions =
     (if curpos < file_size then
        let curpos = curpos + min_partition_size in
        if file_size \<le> curpos + min_partition_size \<or> file_size \<le> curpos + partition_scan_bytes
        then Some (Inr partitions)
        else case read_exact partition_scan_bytes (drop curpos f) of
          Inl e \<Rightarrow> Some (Inl (Partition_Io e))
        | Inr (buf, _) \<Rightarrow>
            (case chunker_new_with_min target_chunk_size 0 of
               None \<Rightarrow> Some (Inl Partition_Panic)
             | Some c \<Rightarrow>
                 Option.bind (next_block nm kh c buf False) (\<lambda>(_, chunks).
                   case map (\<lambda>x. length (chunk_data x)) chunks of
                     [] \<Rightarrow> find_partitions_loop nm kh f file_size target_chunk_size min_partition_size
                             partition_scan_bytes curpos partitions
                   | [_] \<Rightarrow> Some (Inl Partition_Panic)
                   | c0 # c1 # szs \<Rightarrow>
                       find_partitions_loop nm kh f file_size target_chunk_size min_partition_size
                         partition_scan_bytes curpos
                         (case scan_chunks (target_chunk_size div MINIMUM_CHUNK_DIVISOR)
                             (target_chunk_size * MAXIMUM_CHUNK_MULTIPLIER) (c0 + c1) c1 szs of
                            Some offset \<Rightarrow> partitions @ [curpos + offset]
                          | None \<Rightarrow> partitions)))
      else Some (Inr partitions))"

declare find_partitions_loop.simps [code]

definition find_partitions ::
  "next_match \<Rightarrow> keyed_hash \<Rightarrow> bytes \<Rightarrow> nat \<Rightarrow> nat \<Rightarrow> nat \<Rightarrow> nat \<Rightarrow> (partition_error + nat list) option" where
  "find_partitions nm kh f file_size target_chunk_size min_partition_size partition_scan_bytes =
     (if min_partition_size = 0 then Some (Inl Partition_Panic)
      else
        let min_chunk = target_chunk_size div MINIMUM_CHUNK_DIVISOR;
            max_chunk = target_chunk_size * MAXIMUM_CHUNK_MULTIPLIER
        in if \<not> 64 < min_chunk then Some (Inl Partition_Panic)
           else if min_partition_size \<le> max_chunk then Some (Inr [0])
           else find_partitions_loop nm kh f file_size target_chunk_size min_partition_size
                  partition_scan_bytes 0 [0])"

end
