(* ===== verification/Chunking_Correct.thy ===== *)
theory Chunking_Correct
  imports Chunking
begin

text \<open>
  Correctness of the chunker. The reference definition \<open>ref_chunks\<close> says where a byte string is cut:
  at the first length at which the hash of the bytes from 65 before the minimum matches, or at the
  maximum. The chunker is shown to cut any sequence of blocks exactly there, and a stable boundary
  is shown to survive every change of the data before it.
\<close>

section \<open>The rolling hash\<close>

locale gear_hasher =
  fixes nm :: next_match and roll :: "u64 \<Rightarrow> u8 \<Rightarrow> u64"
  assumes nm_Nil: "nm h [] m = (h, None)"
    and nm_Cons: "nm h (b # bs) m =
      (if roll h b AND m = 0 then (roll h b, Some 1)
       else case nm (roll h b) bs m of (h', k) \<Rightarrow> (h', map_option Suc k))"
    and window: "64 \<le> length bs \<Longrightarrow> foldl roll h bs = foldl roll h' bs"

text \<open>The scalar search for a match, and the gear hash with an arbitrary table, satisfy the contract.\<close>

fun roll_match :: "(u64 \<Rightarrow> u8 \<Rightarrow> u64) \<Rightarrow> next_match" where
  "roll_match roll h [] m = (h, None)"
| "roll_match roll h (b # bs) m =
     (let h' = roll h b in
      if h' AND m = 0 then (h', Some 1)
      else case roll_match roll h' bs m of (h'', k) \<Rightarrow> (h'', map_option Suc k))"

lemma roll_match_hasher:
  "(\<And>h h' bs. 64 \<le> length bs \<Longrightarrow> foldl roll h bs = foldl roll h' bs) \<Longrightarrow> gear_hasher (roll_match roll) roll"
  by unfold_locales (simp_all add: Let_def)

definition gear_roll :: "(u8 \<Rightarrow> u64) \<Rightarrow> u64 \<Rightarrow> u8 \<Rightarrow> u64" where
  "gear_roll table h b = push_bit 1 h + table b"

lemma foldl_gear_roll:
  "foldl (gear_roll table) h bs = 2 ^ length bs * h + foldl (gear_roll table) 0 bs"
proof (induction bs arbitrary: h)
  case (Cons b bs)
  have roll: "gear_roll table h b = 2 * h + table b" for h
    by (simp add: gear_roll_def push_bit_eq_mult mult.commute)
  have "foldl (gear_roll table) h (b # bs) =
      2 ^ length bs * (2 * h + table b) + foldl (gear_roll table) 0 bs"
    using Cons.IH [of "gear_roll table h b"] by (simp only: foldl_Cons roll)
  moreover have "foldl (gear_roll table) 0 (b # bs) = 2 ^ length bs * table b + foldl (gear_roll table) 0 bs"
    using Cons.IH [of "gear_roll table 0 b"] by (simp only: foldl_Cons roll) simp
  ultimately show ?case by (simp add: algebra_simps)
qed simp

interpretation gear: gear_hasher "roll_match (gear_roll table)" "gear_roll table" for table
proof (rule roll_match_hasher)
  fix h h' :: u64 and bs :: bytes
  assume "64 \<le> length bs"
  then have z: "(2 :: u64) ^ length bs = 0" by simp
  show "foldl (gear_roll table) h bs = foldl (gear_roll table) h' bs"
    unfolding foldl_gear_roll [of table h bs] foldl_gear_roll [of table h' bs] z by simp
qed

section \<open>Where a byte string is cut\<close>

definition hash_after :: "(u64 \<Rightarrow> u8 \<Rightarrow> u64) \<Rightarrow> chunker \<Rightarrow> bytes \<Rightarrow> nat \<Rightarrow> u64" where
  "hash_after roll c bs L = foldl roll 0 (slice bs (minimum_chunk c - 65) L)"

definition cut_at :: "(u64 \<Rightarrow> u8 \<Rightarrow> u64) \<Rightarrow> chunker \<Rightarrow> bytes \<Rightarrow> nat \<Rightarrow> bool" where
  "cut_at roll c bs L \<longleftrightarrow>
     minimum_chunk c \<le> L \<and> hash_after roll c bs L AND mask c = 0 \<or> maximum_chunk c \<le> L"

definition first_cut_len :: "(u64 \<Rightarrow> u8 \<Rightarrow> u64) \<Rightarrow> chunker \<Rightarrow> bytes \<Rightarrow> nat option" where
  "first_cut_len roll c bs = find (cut_at roll c bs) [1..<Suc (length bs)]"

function ref_chunks :: "(u64 \<Rightarrow> u8 \<Rightarrow> u64) \<Rightarrow> chunker \<Rightarrow> bytes \<Rightarrow> bytes list" where
  "ref_chunks roll c bs =
     (if bs = [] then []
      else case first_cut_len roll c bs of
        Some L \<Rightarrow> take L bs # ref_chunks roll c (drop L bs)
      | None \<Rightarrow> [bs])"
  by pat_completeness auto
termination
  by (relation "measure (\<lambda>(roll, c, bs). length bs)")
    (auto simp: first_cut_len_def find_Some_iff_first simp del: upt_Suc)

declare ref_chunks.simps [simp del]

text \<open>The complete chunks of a prefix of the data, and the bytes that are left.\<close>

function ref_split :: "(u64 \<Rightarrow> u8 \<Rightarrow> u64) \<Rightarrow> chunker \<Rightarrow> bytes \<Rightarrow> bytes list \<times> bytes" where
  "ref_split roll c bs =
     (case first_cut_len roll c bs of
        Some L \<Rightarrow> (case ref_split roll c (drop L bs) of (cs, r) \<Rightarrow> (take L bs # cs, r))
      | None \<Rightarrow> ([], bs))"
  by pat_completeness auto
termination
  by (relation "measure (\<lambda>(roll, c, bs). length bs)")
    (auto simp: first_cut_len_def find_Some_iff_first simp del: upt_Suc)

declare ref_split.simps [simp del]

lemma slice_full: "slice xs a (length xs) = drop a xs"
  by (simp add: slice_def)

lemma slice_empty: "b \<le> a \<Longrightarrow> slice xs a b = []"
  by (simp add: slice_def)

lemma hash_after_append: "L \<le> length bs \<Longrightarrow> hash_after roll c (bs @ xs) L = hash_after roll c bs L"
  by (simp add: hash_after_def slice_append_left)

lemma cut_at_append: "L \<le> length bs \<Longrightarrow> cut_at roll c (bs @ xs) L = cut_at roll c bs L"
  by (simp add: cut_at_def hash_after_append)

lemma ref_Nil [simp]: "first_cut_len roll c [] = None" "ref_chunks roll c [] = []"
  by (simp_all add: first_cut_len_def ref_chunks.simps [of roll c "[]"])

text \<open>A boundary depends only on the configuration of the chunker, not on its state.\<close>

lemma cut_at_config [simp]:
  "cut_at roll (c\<lparr>hash := h\<rparr>) = cut_at roll c" "cut_at roll (c\<lparr>chunkbuf := b\<rparr>) = cut_at roll c"
  "hash_after roll (c\<lparr>hash := h\<rparr>) = hash_after roll c" "hash_after roll (c\<lparr>chunkbuf := b\<rparr>) = hash_after roll c"
  "first_cut_len roll (c\<lparr>hash := h\<rparr>) = first_cut_len roll c"
  "first_cut_len roll (c\<lparr>chunkbuf := b\<rparr>) = first_cut_len roll c"
  by (simp_all add: cut_at_def [abs_def] hash_after_def [abs_def] first_cut_len_def [abs_def] del: upt_Suc)

lemma first_cut_len_Some:
  "first_cut_len roll c bs = Some L \<longleftrightarrow>
     0 < L \<and> L \<le> length bs \<and> cut_at roll c bs L \<and> (\<forall>j. 0 < j \<and> j < L \<longrightarrow> \<not> cut_at roll c bs j)"
  by (auto simp: first_cut_len_def find_Some_iff_first simp del: upt_Suc)

lemma first_cut_len_None:
  "first_cut_len roll c bs = None \<longleftrightarrow> (\<forall>j. 0 < j \<and> j \<le> length bs \<longrightarrow> \<not> cut_at roll c bs j)"
  by (auto simp: first_cut_len_def find_None_iff_upt simp del: upt_Suc)

text \<open>Between calls: the buffer holds no cut and the hash state is that of the buffered bytes.\<close>

definition chunker_inv :: "(u64 \<Rightarrow> u8 \<Rightarrow> u64) \<Rightarrow> chunker \<Rightarrow> bool" where
  "chunker_inv roll c \<longleftrightarrow> minimum_chunk c \<le> maximum_chunk c \<and> 0 < maximum_chunk c \<and>
     first_cut_len roll c (chunkbuf c) = None \<and>
     hash c = hash_after roll c (chunkbuf c) (length (chunkbuf c))"

lemma chunker_inv_length: "chunker_inv roll c \<Longrightarrow> length (chunkbuf c) < maximum_chunk c"
  by (cases "chunkbuf c") (auto simp: chunker_inv_def first_cut_len_None cut_at_def not_le)

lemma chunker_inv_reset:
  "minimum_chunk c \<le> maximum_chunk c \<Longrightarrow> 0 < maximum_chunk c \<Longrightarrow> chunkbuf c = [] \<Longrightarrow> hash c = 0 \<Longrightarrow>
     chunker_inv roll c"
  by (simp add: chunker_inv_def first_cut_len_def hash_after_def slice_def)

definition skip_len :: "chunker \<Rightarrow> bytes \<Rightarrow> nat" where
  "skip_len c d =
     (if length (chunkbuf c) + HASH_WINDOW_SIZE < minimum_chunk c
      then min (minimum_chunk c - length (chunkbuf c) - HASH_WINDOW_SIZE - 1) (length d) else 0)"

definition no_match :: "(u64 \<Rightarrow> u8 \<Rightarrow> u64) \<Rightarrow> chunker \<Rightarrow> u64 \<Rightarrow> bytes \<Rightarrow> nat \<Rightarrow> nat \<Rightarrow> bool" where
  "no_match roll c h d i j \<longleftrightarrow>
     \<not> (minimum_chunk c \<le> j + length (chunkbuf c) \<and> foldl roll h (slice d i j) AND mask c = 0)"

lemma slice_take: "i + j \<le> k \<Longrightarrow> take j (slice d i k) = slice d i (i + j)"
  by (simp add: slice_def)

context gear_hasher
begin

lemma nm_spec:
  "case nm h bs m of
     (h', Some k) \<Rightarrow> 0 < k \<and> k \<le> length bs \<and> h' = foldl roll h (take k bs) \<and> h' AND m = 0 \<and>
       (\<forall>j. 0 < j \<and> j < k \<longrightarrow> foldl roll h (take j bs) AND m \<noteq> 0)
   | (h', None) \<Rightarrow> h' = foldl roll h bs \<and> (\<forall>j. 0 < j \<and> j \<le> length bs \<longrightarrow> foldl roll h (take j bs) AND m \<noteq> 0)"
proof (induction bs arbitrary: h)
  case Nil
  then show ?case by (simp add: nm_Nil)
next
  case (Cons b bs)
  show ?case
  proof (cases "roll h b AND m = 0")
    case True
    then show ?thesis by (simp add: nm_Cons)
  next
    case False
    have step: "foldl roll h (take j (b # bs)) AND m \<noteq> 0"
      if "0 < j" "j - 1 = 0 \<or> foldl roll (roll h b) (take (j - 1) bs) AND m \<noteq> 0" for j
      using that False by (cases j) auto
    obtain h' k where hk: "nm (roll h b) bs m = (h', k)" by fastforce
    then have nm: "nm h (b # bs) m = (h', map_option Suc k)" using False by (simp add: nm_Cons)
    show ?thesis
    proof (cases k)
      case None
      with Cons.IH [of "roll h b"] hk have f: "h' = foldl roll (roll h b) bs"
        "\<forall>j. 0 < j \<and> j \<le> length bs \<longrightarrow> foldl roll (roll h b) (take j bs) AND m \<noteq> 0"
        by simp_all
      have "foldl roll h (take j (b # bs)) AND m \<noteq> 0" if "0 < j" "j \<le> Suc (length bs)" for j
        using that f(2) by (intro step) (cases j; cases "j - 1"; auto)+
      with f(1) show ?thesis unfolding nm None by simp
    next
      case (Some i)
      with Cons.IH [of "roll h b"] hk have f: "0 < i" "i \<le> length bs" "h' = foldl roll (roll h b) (take i bs)"
        "h' AND m = 0" "\<forall>j. 0 < j \<and> j < i \<longrightarrow> foldl roll (roll h b) (take j bs) AND m \<noteq> 0"
        by auto
      have "foldl roll h (take j (b # bs)) AND m \<noteq> 0" if "0 < j" "j < Suc i" for j
        using that f(5) by (intro step) (cases j; cases "j - 1"; auto)+
      with f show ?thesis unfolding nm Some by simp
    qed
  qed
qed

lemma match_loop_spec:
  "i \<le> k \<Longrightarrow> k \<le> length d \<Longrightarrow>
    \<exists>j created. match_loop nm c d k i h = Some (foldl roll h (slice d i j), j, created) \<and> i \<le> j \<and> j \<le> k \<and>
      (\<forall>n. i < n \<and> n < j \<longrightarrow> no_match roll c h d i n) \<and>
      (if created then i < j \<and> \<not> no_match roll c h d i j else j = k \<and> (i < j \<longrightarrow> no_match roll c h d i j))"
proof (induction "k - i" arbitrary: i h rule: less_induct)
  case less
  have len: "length (slice d i k) = k - i" using less.prems by simp
  obtain h' r where nm: "nm h (slice d i k) (mask c) = (h', r)" by fastforce
  show ?case
  proof (cases r)
    case None
    have f: "h' = foldl roll h (slice d i k)"
      "\<forall>j. 0 < j \<and> j \<le> k - i \<longrightarrow> foldl roll h (take j (slice d i k)) AND mask c \<noteq> 0"
      using nm_spec [of h "slice d i k" "mask c"] len unfolding nm None by simp_all
    have "no_match roll c h d i n" if "i < n" "n \<le> k" for n
      using that f(2) [rule_format, of "n - i"] slice_take [of i "n - i" k d] by (simp add: no_match_def)
    with f(1) nm None less.prems show ?thesis
      by (intro exI [of _ k] exI [of _ False]) (simp add: match_loop.simps [of nm c d k i h])
  next
    case (Some m)
    have m: "0 < m" "m \<le> k - i" "h' = foldl roll h (take m (slice d i k))" "h' AND mask c = 0"
      "\<forall>j. 0 < j \<and> j < m \<longrightarrow> foldl roll h (take j (slice d i k)) AND mask c \<noteq> 0"
      using nm_spec [of h "slice d i k" "mask c"] len unfolding nm Some by auto
    have h': "h' = foldl roll h (slice d i (i + m))" using m less.prems slice_take [of i m k d] by simp
    have before: "no_match roll c h d i n" if "i < n" "n < i + m" for n
      using that m(5) [rule_format, of "n - i"] m(2) slice_take [of i "n - i" k d] by (auto simp: no_match_def)
    show ?thesis
    proof (cases "i + m + length (chunkbuf c) < minimum_chunk c")
      case False
      with m h' before nm Some less.prems show ?thesis
        by (intro exI [of _ "i + m"] exI [of _ True])
          (simp add: match_loop.simps [of nm c d k i h] no_match_def Let_def)
    next
      case True
      have rec: "match_loop nm c d k i h = match_loop nm c d k (i + m) h'"
        using True nm Some by (simp add: match_loop.simps [of nm c d k i h] Let_def)
      have shift: "no_match roll c h' d (i + m) n = no_match roll c h d i n"
        "foldl roll h' (slice d (i + m) n) = foldl roll h (slice d i n)" if "i + m \<le> n" for n
        using that slice_split [of i "i + m" n d] by (simp_all add: no_match_def h')
      have at: "no_match roll c h d i (i + m)" using True by (simp add: no_match_def)
      have lt: "k - (i + m) < k - i" and le: "i + m \<le> k" using m(1,2) less.prems by linarith+
      obtain j created where j: "match_loop nm c d k (i + m) h' = Some (foldl roll h' (slice d (i + m) j), j, created)"
        "i + m \<le> j" "j \<le> k" "\<forall>n. i + m < n \<and> n < j \<longrightarrow> no_match roll c h' d (i + m) n"
        "if created then i + m < j \<and> \<not> no_match roll c h' d (i + m) j
         else j = k \<and> (i + m < j \<longrightarrow> no_match roll c h' d (i + m) j)"
        using less.hyps [OF lt le less.prems(2), of h'] by blast
      have "no_match roll c h d i n" if "i < n" "n < j" for n
        using that before [of n] at j(4) shift(1) [of n] by (cases n "i + m" rule: linorder_cases) auto
      with j m(1) at shift rec show ?thesis
        by (intro exI [of _ j] exI [of _ created]) (cases "j = i + m"; auto split: if_splits)
    qed
  qed
qed

lemma hash_after_skip:
  assumes inv: "chunker_inv roll c" and j: "skip_len c d \<le> j" "j \<le> length d"
  shows "hash_after roll c (chunkbuf c @ d) (length (chunkbuf c) + j) = foldl roll (hash c) (slice d (skip_len c d) j)"
proof -
  let ?p = "length (chunkbuf c)" and ?m = "minimum_chunk c - 65"
  have h: "hash c = foldl roll 0 (slice (chunkbuf c) ?m ?p)"
    using inv by (simp add: chunker_inv_def hash_after_def)
  show ?thesis
  proof (cases "?p \<le> ?m \<and> 0 < ?m")
    case False
    then have p: "?m \<le> ?p" "skip_len c d = 0" by (auto simp: skip_len_def HASH_WINDOW_SIZE_def)
    then have "slice (chunkbuf c @ d) ?m (?p + j) = slice (chunkbuf c) ?m ?p @ slice d 0 j"
      by (simp add: slice_def)
    with p h show ?thesis by (simp add: hash_after_def)
  next
    case True
    then have h0: "hash c = 0" using h by (simp add: slice_empty)
    have sk: "skip_len c d = min (?m - ?p) (length d)" using True by (auto simp: skip_len_def HASH_WINDOW_SIZE_def)
    show ?thesis
    proof (cases "length d \<le> ?m - ?p")
      case True
      with sk j have "skip_len c d = length d" "j = length d" by auto
      moreover have "?p + length d \<le> ?m" using True \<open>?p \<le> ?m \<and> 0 < ?m\<close> by linarith
      ultimately show ?thesis using h0 by (simp add: hash_after_def slice_empty)
    next
      case False
      with sk have "skip_len c d = ?m - ?p" by simp
      moreover have "?p + j - ?m = j - (?m - ?p)" using True by arith
      then have "slice (chunkbuf c @ d) ?m (?p + j) = slice d (?m - ?p) j"
        unfolding slice_def using True by simp
      ultimately show ?thesis using h0 by (simp add: hash_after_def)
    qed
  qed
qed

lemma skip_len_less:
  assumes "chunker_inv roll c"
  shows "length (chunkbuf c) + skip_len c d < minimum_chunk c \<or> skip_len c d = 0"
    and "skip_len c d \<le> length d"
  by (auto simp: skip_len_def HASH_WINDOW_SIZE_def)

lemma cut_at_new:
  assumes inv: "chunker_inv roll c" and j: "0 < j" "j \<le> length d"
  shows "cut_at roll c (chunkbuf c @ d) (length (chunkbuf c) + j) \<longleftrightarrow>
    skip_len c d < j \<and> \<not> no_match roll c (hash c) d (skip_len c d) j \<or> maximum_chunk c \<le> length (chunkbuf c) + j"
proof (cases "skip_len c d < j")
  case True
  then show ?thesis
    using hash_after_skip [OF inv, of d j] j by (simp add: cut_at_def no_match_def add.commute)
next
  case False
  then have "length (chunkbuf c) + j < minimum_chunk c" using skip_len_less(1) [OF inv, of d] j by auto
  moreover have "minimum_chunk c \<le> maximum_chunk c" using inv by (simp add: chunker_inv_def)
  ultimately show ?thesis using False by (simp add: cut_at_def)
qed

lemma cut_at_old:
  "chunker_inv roll c \<Longrightarrow> 0 < L \<Longrightarrow> L \<le> length (chunkbuf c) \<Longrightarrow> \<not> cut_at roll c (chunkbuf c @ d) L"
  by (simp add: chunker_inv_def first_cut_len_None cut_at_append)

lemma first_cut_len_new:
  assumes inv: "chunker_inv roll c"
  shows "first_cut_len roll c (chunkbuf c @ d) = Some (length (chunkbuf c) + j) \<longleftrightarrow>
      0 < j \<and> j \<le> length d \<and> cut_at roll c (chunkbuf c @ d) (length (chunkbuf c) + j) \<and>
      (\<forall>n. 0 < n \<and> n < j \<longrightarrow> \<not> cut_at roll c (chunkbuf c @ d) (length (chunkbuf c) + n))"
    and "first_cut_len roll c (chunkbuf c @ d) = None \<longleftrightarrow>
      (\<forall>n. 0 < n \<and> n \<le> length d \<longrightarrow> \<not> cut_at roll c (chunkbuf c @ d) (length (chunkbuf c) + n))"
proof -
  let ?p = "length (chunkbuf c)" and ?b = "chunkbuf c @ d"
  have split: "(\<forall>L. 0 < L \<and> L < ?p + j \<longrightarrow> \<not> cut_at roll c ?b L) \<longleftrightarrow>
      (\<forall>n. 0 < n \<and> n < j \<longrightarrow> \<not> cut_at roll c ?b (?p + n))" for j
  proof
    assume r: "\<forall>n. 0 < n \<and> n < j \<longrightarrow> \<not> cut_at roll c ?b (?p + n)"
    show "\<forall>L. 0 < L \<and> L < ?p + j \<longrightarrow> \<not> cut_at roll c ?b L"
    proof (intro allI impI)
      fix L assume L: "0 < L \<and> L < ?p + j"
      show "\<not> cut_at roll c ?b L"
      proof (cases "L \<le> ?p")
        case True
        then show ?thesis using cut_at_old [OF inv] L by blast
      next
        case False
        then show ?thesis using r [rule_format, of "L - ?p"] L by simp
      qed
    qed
  qed auto
  have zero: "0 < j" if "0 < ?p + j" "cut_at roll c ?b (?p + j)"
    using that cut_at_old [OF inv, of "?p + j" d] by (cases j) auto
  show "first_cut_len roll c ?b = Some (?p + j) \<longleftrightarrow>
      0 < j \<and> j \<le> length d \<and> cut_at roll c ?b (?p + j) \<and>
      (\<forall>n. 0 < n \<and> n < j \<longrightarrow> \<not> cut_at roll c ?b (?p + n))"
    unfolding first_cut_len_Some split using zero by auto
  show "first_cut_len roll c ?b = None \<longleftrightarrow>
      (\<forall>n. 0 < n \<and> n \<le> length d \<longrightarrow> \<not> cut_at roll c ?b (?p + n))"
    unfolding first_cut_len_None using split [of "Suc (length d)"] by (simp add: less_Suc_eq_le)
qed

lemma next_boundary_unfold:
  assumes "d \<noteq> []" and "match_loop nm c d (min (length d) (skip_len c d + maximum_chunk c - length (chunkbuf c)))
      (skip_len c d) (hash c) = Some (h, j, created)"
  shows "next_boundary nm c d =
    (if maximum_chunk c \<le> j + length (chunkbuf c) then Some (c\<lparr>hash := 0\<rparr>, Some (maximum_chunk c - length (chunkbuf c)))
     else if created then Some (c\<lparr>hash := 0\<rparr>, Some j) else Some (c\<lparr>hash := h\<rparr>, None))"
  using assms by (simp add: next_boundary_def Let_def skip_len_def)

lemma next_boundary_spec:
  assumes inv: "chunker_inv roll c" and d: "d \<noteq> []"
  shows "case first_cut_len roll c (chunkbuf c @ d) of
      None \<Rightarrow> next_boundary nm c d =
        Some (c\<lparr>hash := hash_after roll c (chunkbuf c @ d) (length (chunkbuf c @ d))\<rparr>, None)
    | Some L \<Rightarrow> length (chunkbuf c) < L \<and>
        next_boundary nm c d = Some (c\<lparr>hash := 0\<rparr>, Some (L - length (chunkbuf c)))"
proof -
  let ?p = "length (chunkbuf c)" and ?s = "skip_len c d" and ?M = "maximum_chunk c"
  let ?k = "min (length d) (?s + ?M - ?p)"
  have pM: "?p < ?M" by (rule chunker_inv_length [OF inv])
  have sk: "?s \<le> ?k" using pM skip_len_less(2) [OF inv, of d] by simp
  obtain j created where ml: "match_loop nm c d ?k ?s (hash c) = Some (foldl roll (hash c) (slice d ?s j), j, created)"
    and j: "?s \<le> j" "j \<le> ?k" "\<forall>n. ?s < n \<and> n < j \<longrightarrow> no_match roll c (hash c) d ?s n"
    and jc: "if created then ?s < j \<and> \<not> no_match roll c (hash c) d ?s j
      else j = ?k \<and> (?s < j \<longrightarrow> no_match roll c (hash c) d ?s j)"
    using match_loop_spec [OF sk, of d c "hash c"] by auto
  have jd: "j \<le> length d" using j(2) by simp
  have no_cut: "\<not> cut_at roll c (chunkbuf c @ d) (?p + n)" if "0 < n" "n < j" "?p + n < ?M" for n
    using that jd j(3) cut_at_new [OF inv, of n d] by auto
  consider (max) "?M \<le> j + ?p" | (hit) "j + ?p < ?M" created | (none) "j + ?p < ?M" "\<not> created" by linarith
  then show ?thesis
  proof cases
    case max
    have "first_cut_len roll c (chunkbuf c @ d) = Some (?p + (?M - ?p))"
      unfolding first_cut_len_new(1) [OF inv] using max pM jd no_cut by (auto simp: cut_at_def)
    with max pM next_boundary_unfold [OF d ml] show ?thesis by simp
  next
    case hit
    then have "first_cut_len roll c (chunkbuf c @ d) = Some (?p + j)"
      unfolding first_cut_len_new(1) [OF inv] using jc jd no_cut cut_at_new [OF inv, of j d] by auto
    with hit jc next_boundary_unfold [OF d ml] show ?thesis by simp
  next
    case none
    then have jk: "j = length d" using jc pM by (auto simp: min_def split: if_splits)
    have "\<not> cut_at roll c (chunkbuf c @ d) (?p + n)" if "0 < n" "n \<le> length d" for n
      using that no_cut [of n] cut_at_new [OF inv, of n d] none jk jc
      by (cases "n = length d") auto
    then have "first_cut_len roll c (chunkbuf c @ d) = None"
      unfolding first_cut_len_new(2) [OF inv] by blast
    moreover have "hash_after roll c (chunkbuf c @ d) (?p + length d) = foldl roll (hash c) (slice d ?s (length d))"
      using hash_after_skip [OF inv, of d "length d"] skip_len_less(2) [OF inv, of d] by simp
    ultimately show ?thesis using none jk next_boundary_unfold [OF d ml] by simp
  qed
qed

end

section \<open>Splitting a stream into blocks\<close>

lemma ref_split_None: "first_cut_len roll c bs = None \<Longrightarrow> ref_split roll c bs = ([], bs)"
  by (simp add: ref_split.simps [of roll c bs])

lemma ref_split_Some:
  "first_cut_len roll c bs = Some L \<Longrightarrow>
     ref_split roll c bs = (take L bs # fst (ref_split roll c (drop L bs)), snd (ref_split roll c (drop L bs)))"
  by (simp add: ref_split.simps [of roll c bs] split_beta)

lemma ref_chunks_split:
  "ref_chunks roll c bs =
     fst (ref_split roll c bs) @ (if snd (ref_split roll c bs) = [] then [] else [snd (ref_split roll c bs)])"
proof (induction roll c bs rule: ref_split.induct)
  case (1 roll c bs)
  show ?case
  proof (cases "first_cut_len roll c bs")
    case None
    then show ?thesis by (simp add: ref_chunks.simps [of roll c bs] ref_split_None)
  next
    case (Some L)
    then have "bs \<noteq> []" by (auto simp: first_cut_len_Some)
    with Some 1 [OF Some] show ?thesis
      by (simp add: ref_chunks.simps [of roll c bs] ref_split_Some)
  qed
qed

lemma first_cut_len_append: "first_cut_len roll c bs = Some L \<Longrightarrow> first_cut_len roll c (bs @ xs) = Some L"
  by (auto simp: first_cut_len_Some cut_at_append)

lemma ref_split_append:
  "ref_split roll c (bs @ xs) =
     (fst (ref_split roll c bs) @ fst (ref_split roll c (snd (ref_split roll c bs) @ xs)),
      snd (ref_split roll c (snd (ref_split roll c bs) @ xs)))"
proof (induction roll c bs rule: ref_split.induct)
  case (1 roll c bs)
  show ?case
  proof (cases "first_cut_len roll c bs")
    case None
    then show ?thesis by (simp add: ref_split_None)
  next
    case (Some L)
    then have "L \<le> length bs" by (simp add: first_cut_len_Some)
    with 1 [OF Some] show ?thesis
      by (simp add: ref_split_Some [OF Some] ref_split_Some [OF first_cut_len_append [OF Some]])
  qed
qed

lemma ref_split_rest: "first_cut_len roll c (snd (ref_split roll c bs)) = None"
proof (induction roll c bs rule: ref_split.induct)
  case (1 roll c bs)
  then show ?case by (cases "first_cut_len roll c bs") (simp_all add: ref_split_None ref_split_Some)
qed

lemma ref_config [simp]:
  "ref_split roll (c\<lparr>hash := h\<rparr>) bs = ref_split roll c bs" "ref_split roll (c\<lparr>chunkbuf := b\<rparr>) bs = ref_split roll c bs"
proof -
  show "ref_split roll (c\<lparr>hash := h\<rparr>) bs = ref_split roll c bs"
  proof (induction roll c bs rule: ref_split.induct)
    case (1 roll c bs)
    then show ?case by (cases "first_cut_len roll c bs") (simp_all add: ref_split_None ref_split_Some)
  qed
  show "ref_split roll (c\<lparr>chunkbuf := b\<rparr>) bs = ref_split roll c bs"
  proof (induction roll c bs rule: ref_split.induct)
    case (1 roll c bs)
    then show ?case by (cases "first_cut_len roll c bs") (simp_all add: ref_split_None ref_split_Some)
  qed
qed

text \<open>The state of the chunker after a block.\<close>

definition with_buf :: "(u64 \<Rightarrow> u8 \<Rightarrow> u64) \<Rightarrow> chunker \<Rightarrow> bytes \<Rightarrow> chunker" where
  "with_buf roll c r = c\<lparr>chunkbuf := r, hash := hash_after roll c r (length r)\<rparr>"

lemma with_buf_simps [simp]:
  "chunkbuf (with_buf roll c r) = r" "with_buf roll (with_buf roll c r) r' = with_buf roll c r'"
  "first_cut_len roll (with_buf roll' c r) = first_cut_len roll c"
  "ref_split roll (with_buf roll' c r) = ref_split roll c"
  "with_buf roll (c\<lparr>hash := h\<rparr>) r = with_buf roll c r" "with_buf roll (c\<lparr>chunkbuf := b\<rparr>) r = with_buf roll c r"
  by (simp_all add: with_buf_def fun_eq_iff)

lemma with_buf_Nil: "with_buf roll c [] = c\<lparr>chunkbuf := [], hash := 0\<rparr>"
  by (simp add: with_buf_def hash_after_def slice_def)

lemma chunker_inv_with_buf:
  "chunker_inv roll c \<Longrightarrow> first_cut_len roll c r = None \<Longrightarrow> chunker_inv roll (with_buf roll c r)"
  by (simp add: chunker_inv_def with_buf_def)

lemma with_buf_self: "chunker_inv roll c \<Longrightarrow> with_buf roll c (chunkbuf c) = c"
  by (simp add: chunker_inv_def with_buf_def)

context gear_hasher
begin

lemma chunker_next_cut:
  assumes inv: "chunker_inv roll c" and d: "d \<noteq> []" and L: "first_cut_len roll c (chunkbuf c @ d) = Some L"
  shows "chunker_next nm kh c d fin =
      Some (with_buf roll c [], Some (chunk_new kh (take L (chunkbuf c @ d))), L - length (chunkbuf c))"
    and "length (chunkbuf c) < L" and "L \<le> length (chunkbuf c) + length d"
proof -
  from next_boundary_spec [OF inv d] L have nb: "length (chunkbuf c) < L"
    "next_boundary nm c d = Some (c\<lparr>hash := 0\<rparr>, Some (L - length (chunkbuf c)))" by simp_all
  then show "length (chunkbuf c) < L" by simp
  have "take L (chunkbuf c @ d) \<noteq> []" using nb(1) d by (cases L) auto
  then show "chunker_next nm kh c d fin =
      Some (with_buf roll c [], Some (chunk_new kh (take L (chunkbuf c @ d))), L - length (chunkbuf c))"
    using nb by (simp add: chunker_next_def with_buf_Nil Let_def)
  show "L \<le> length (chunkbuf c) + length d" using L by (simp add: first_cut_len_Some)
qed

lemma chunker_next_rest:
  assumes inv: "chunker_inv roll c" and d: "d \<noteq> []" and L: "first_cut_len roll c (chunkbuf c @ d) = None"
  shows "chunker_next nm kh c d False = Some (with_buf roll c (chunkbuf c @ d), None, length d)"
    and "chunker_next nm kh c d True =
      Some (with_buf roll c [], Some (chunk_new kh (chunkbuf c @ d)), length d)"
  using next_boundary_spec [OF inv d] L d
  by (simp_all add: chunker_next_def with_buf_Nil Let_def) (simp_all add: with_buf_def)

lemma next_block_loop_open:
  "chunker_inv roll c \<Longrightarrow> pos \<le> length d \<Longrightarrow>
     next_block_loop nm kh d False c pos ret =
       Some (with_buf roll c (snd (ref_split roll c (chunkbuf c @ drop pos d))),
             ret @ map (chunk_new kh) (fst (ref_split roll c (chunkbuf c @ drop pos d))))"
proof (induction "length d - pos" arbitrary: c pos ret rule: less_induct)
  case less
  show ?case
  proof (cases "pos = length d")
    case True
    then show ?thesis
      using less.prems by (simp add: next_block_loop.simps ref_split_None with_buf_self chunker_inv_def)
  next
    case False
    then have d: "drop pos d \<noteq> []" using less.prems by simp
    show ?thesis
    proof (cases "first_cut_len roll c (chunkbuf c @ drop pos d)")
      case None
      have "next_block_loop nm kh d False c pos ret =
          next_block_loop nm kh d False (with_buf roll c (chunkbuf c @ drop pos d)) (length d) ret"
        using False less.prems chunker_next_rest(1) [OF less.prems(1) d None]
        by (subst next_block_loop.simps) simp
      also have "\<dots> = Some (with_buf roll c (chunkbuf c @ drop pos d), ret)"
        by (simp add: next_block_loop.simps)
      finally show ?thesis by (simp add: ref_split_None [OF None])
    next
      case (Some L)
      note cut = chunker_next_cut [OF less.prems(1) d Some]
      let ?pos = "pos + (L - length (chunkbuf c))"
      have "next_block_loop nm kh d False c pos ret =
          next_block_loop nm kh d False (with_buf roll c []) ?pos (ret @ [chunk_new kh (take L (chunkbuf c @ drop pos d))])"
        using False cut(1) by (subst next_block_loop.simps) simp
      also have "\<dots> = Some (with_buf roll c (snd (ref_split roll c (drop ?pos d))),
          (ret @ [chunk_new kh (take L (chunkbuf c @ drop pos d))]) @
          map (chunk_new kh) (fst (ref_split roll c (drop ?pos d))))"
        using less.hyps [of ?pos "with_buf roll c []"] cut(2,3) less.prems
          chunker_inv_with_buf [OF less.prems(1), of "[]"] by (simp add: first_cut_len_def)
      also have "drop ?pos d = drop L (chunkbuf c @ drop pos d)" using cut(2) by (simp add: add.commute)
      finally show ?thesis by (simp add: ref_split_Some [OF Some])
    qed
  qed
qed

lemma next_block_loop_final:
  "chunker_inv roll c \<Longrightarrow> pos < length d \<Longrightarrow>
     next_block_loop nm kh d True c pos ret =
       Some (with_buf roll c [], ret @ map (chunk_new kh) (ref_chunks roll c (chunkbuf c @ drop pos d)))"
proof (induction "length d - pos" arbitrary: c pos ret rule: less_induct)
  case less
  have d: "drop pos d \<noteq> []" using less.prems by simp
  have fin: "next_block_loop nm kh d True (with_buf roll c []) (length d) ret' = Some (with_buf roll c [], ret')"
    for ret' by (simp add: next_block_loop.simps with_buf_Nil)
  show ?case
  proof (cases "first_cut_len roll c (chunkbuf c @ drop pos d)")
    case None
    then show ?thesis
      using less.prems chunker_next_rest(2) [OF less.prems(1) d None]
      by (subst next_block_loop.simps) (simp add: fin ref_chunks_split ref_split_None)
  next
    case (Some L)
    note cut = chunker_next_cut [OF less.prems(1) d Some]
    let ?pos = "pos + (L - length (chunkbuf c))"
    let ?ret = "ret @ [chunk_new kh (take L (chunkbuf c @ drop pos d))]"
    have step: "next_block_loop nm kh d True c pos ret = next_block_loop nm kh d True (with_buf roll c []) ?pos ?ret"
      using less.prems cut(1) by (subst next_block_loop.simps) simp
    have drop: "drop ?pos d = drop L (chunkbuf c @ drop pos d)" using cut(2) by (simp add: add.commute)
    have chunks: "ref_chunks roll c (chunkbuf c @ drop pos d) =
        take L (chunkbuf c @ drop pos d) # ref_chunks roll c (drop ?pos d)"
      using d Some by (subst ref_chunks.simps) (simp add: drop)
    show ?thesis
    proof (cases "?pos = length d")
      case True
      then have "ref_chunks roll c (drop ?pos d) = []" by (simp add: ref_chunks.simps [of roll c "[]"])
      with True show ?thesis by (simp only: step fin chunks) simp
    next
      case False
      have "next_block_loop nm kh d True (with_buf roll c []) ?pos ?ret =
          Some (with_buf roll c [], ?ret @ map (chunk_new kh) (ref_chunks roll c (drop ?pos d)))"
        using less.hyps [of ?pos "with_buf roll c []"] cut(2,3) less.prems False
          chunker_inv_with_buf [OF less.prems(1), of "[]"] by (simp add: first_cut_len_def ref_chunks_split)
      then show ?thesis by (simp only: step chunks) simp
    qed
  qed
qed

lemma next_block_open:
  "chunker_inv roll c \<Longrightarrow> next_block nm kh c d False =
     Some (with_buf roll c (snd (ref_split roll c (chunkbuf c @ d))),
           map (chunk_new kh) (fst (ref_split roll c (chunkbuf c @ d))))"
  using next_block_loop_open [of c 0 d kh "[]"] by (simp add: next_block_def)

lemma next_block_final:
  "chunker_inv roll c \<Longrightarrow> d \<noteq> [] \<Longrightarrow> next_block nm kh c d True =
     Some (with_buf roll c [], map (chunk_new kh) (ref_chunks roll c (chunkbuf c @ d)))"
  using next_block_loop_final [of c 0 d kh "[]"] by (simp add: next_block_def)

lemma chunker_finish_spec:
  "chunker_inv roll c \<Longrightarrow> chunker_finish nm kh c =
     Some (with_buf roll c [], if chunkbuf c = [] then None else Some (chunk_new kh (chunkbuf c)))"
  by (simp add: chunker_finish_def chunker_next_def next_boundary_def Let_def with_buf_Nil)

text \<open>The zero-copy variant starts each round with an empty buffer.\<close>

lemma next_block_bytes_loop_spec:
  "chunker_inv roll c \<Longrightarrow> chunkbuf c = [] \<Longrightarrow> pos \<le> length d \<Longrightarrow>
     Option.bind (next_block_bytes_loop nm kh d fin c pos ret)
       (\<lambda>(c, ret). Some (if fin then c\<lparr>hash := 0\<rparr> else c, ret)) =
     next_block_loop nm kh d fin c pos ret"
proof (induction "length d - pos" arbitrary: c pos ret rule: less_induct)
  case less
  show ?case
  proof (cases "pos < length d")
    case False
    then show ?thesis
      using less.prems by (simp add: next_block_bytes_loop.simps next_block_loop.simps)
  next
    case True
    then have d: "drop pos d \<noteq> []" by simp
    note spec = next_boundary_spec [OF less.prems(1) d]
    show ?thesis
    proof (cases "first_cut_len roll c (chunkbuf c @ drop pos d)")
      case None
      with spec chunker_next_rest [OF less.prems(1) d None] True less.prems(2) show ?thesis
        by (cases fin; subst next_block_bytes_loop.simps; subst next_block_loop.simps)
          (simp_all add: next_block_loop.simps with_buf_Nil, simp_all add: with_buf_def)
    next
      case (Some L)
      note cut = chunker_next_cut [OF less.prems(1) d Some]
      have c0: "c\<lparr>hash := 0\<rparr> = with_buf roll c []"
        using less.prems(2) by (cases c) (simp add: with_buf_Nil)
      have "next_block_bytes_loop nm kh d fin c pos ret =
          next_block_bytes_loop nm kh d fin (with_buf roll c []) (pos + L) (ret @ [chunk_new kh (take L (drop pos d))])"
        using spec True less.prems(2) Some
        by (subst next_block_bytes_loop.simps) (simp add: c0 slice_def drop_take)
      moreover have "next_block_loop nm kh d fin c pos ret =
          next_block_loop nm kh d fin (with_buf roll c []) (pos + L) (ret @ [chunk_new kh (take L (drop pos d))])"
        using cut(1) True less.prems(2) by (subst next_block_loop.simps) simp
      ultimately show ?thesis
        using less.hyps [of "pos + L" "with_buf roll c []"] cut(2,3) True less.prems
          chunker_inv_with_buf [OF less.prems(1), of "[]"] by (simp add: first_cut_len_def)
    qed
  qed
qed

lemma next_block_bytes_eq:
  assumes inv: "chunker_inv roll c" and d: "d \<noteq> []"
  shows "next_block_bytes nm kh c d fin = next_block nm kh c d fin"
proof (cases "chunkbuf c = []")
  case True
  then show ?thesis
    using next_block_bytes_loop_spec [OF inv True, of 0 d kh fin "[]"]
    by (simp add: next_block_bytes_def next_block_def)
next
  case buf: False
  have inv0: "chunker_inv roll (with_buf roll c [])"
    using chunker_inv_with_buf [OF inv, of "[]"] by (simp add: first_cut_len_def)
  show ?thesis
  proof (cases "first_cut_len roll c (chunkbuf c @ d)")
    case None
    show ?thesis
      using chunker_next_rest [OF inv d None] buf d
      by (cases fin) (simp_all add: next_block_bytes_def next_block_def
          next_block_loop.simps [of nm kh d _ c 0] next_block_loop.simps [of nm kh d _ _ "length d"]
          next_block_bytes_loop.simps with_buf_Nil)
  next
    case (Some L)
    note cut = chunker_next_cut [OF inv d Some]
    show ?thesis
      using cut buf d next_block_bytes_loop_spec [OF inv0, of "L - length (chunkbuf c)" d kh fin
          "[chunk_new kh (take L (chunkbuf c @ d))]"]
      by (simp add: next_block_bytes_def next_block_def next_block_loop.simps [of nm kh d _ c 0] del: take_append)
  qed
qed

end

section \<open>Chunking a stream\<close>

text \<open>
  The use of the chunker by the upload path: any number of blocks, each through \<open>next_block\<close>, then
  \<open>finish\<close>.
\<close>

fun chunk_blocks :: "next_match \<Rightarrow> keyed_hash \<Rightarrow> chunker \<Rightarrow> bytes list \<Rightarrow> chunk list option" where
  "chunk_blocks nm kh c [] =
     map_option (\<lambda>(c, ch). case ch of Some x \<Rightarrow> [x] | None \<Rightarrow> []) (chunker_finish nm kh c)"
| "chunk_blocks nm kh c (d # ds) =
     Option.bind (next_block nm kh c d False) (\<lambda>(c, cs). map_option ((@) cs) (chunk_blocks nm kh c ds))"

lemma ref_chunks_with_buf [simp]: "ref_chunks roll (with_buf roll' c r) = ref_chunks roll c"
  by (simp add: fun_eq_iff ref_chunks_split)

context gear_hasher
begin

lemma chunk_blocks_inv:
  "chunker_inv roll c \<Longrightarrow>
     chunk_blocks nm kh c blocks = Some (map (chunk_new kh) (ref_chunks roll c (chunkbuf c @ concat blocks)))"
proof (induction blocks arbitrary: c)
  case Nil
  then have "ref_split roll c (chunkbuf c) = ([], chunkbuf c)"
    by (intro ref_split_None) (simp add: chunker_inv_def)
  with Nil show ?case by (simp add: chunker_finish_spec ref_chunks_split)
next
  case (Cons d ds)
  have "chunker_inv roll (with_buf roll c (snd (ref_split roll c (chunkbuf c @ d))))"
    by (intro chunker_inv_with_buf Cons.prems ref_split_rest)
  from Cons.IH [OF this] show ?case
    using ref_split_append [of roll c "chunkbuf c @ d" "concat ds"]
    by (simp add: next_block_open [OF Cons.prems] ref_chunks_split)
qed

end

lemma chunker_new_config:
  assumes "chunker_new t = Some c"
  shows "hash c = 0" "chunkbuf c = []" "minimum_chunk c = t div 8" "maximum_chunk c = t * 2" "64 < t"
    "mask c = push_bit (leading_zeros (of_nat (t - 1))) (of_nat (t - 1))"
  using assms
  by (auto simp: chunker_new_def Let_def MINIMUM_CHUNK_DIVISOR_def MAXIMUM_CHUNK_MULTIPLIER_def split: if_splits)

lemma chunker_new_inv: "chunker_new t = Some c \<Longrightarrow> chunker_inv roll c"
  using chunker_new_config [of t c] by (intro chunker_inv_reset) auto

lemma concat_ref_chunks [simp]: "concat (ref_chunks roll c bs) = bs"
proof (induction roll c bs rule: ref_chunks.induct)
  case (1 roll c bs)
  then show ?case by (subst ref_chunks.simps) (auto split: option.split)
qed

lemma ref_chunks_bounds:
  assumes "0 < maximum_chunk c" and "minimum_chunk c \<le> maximum_chunk c"
  shows "x \<in> set (ref_chunks roll c bs) \<Longrightarrow> x \<noteq> [] \<and> length x \<le> maximum_chunk c"
    and "x \<in> set (butlast (ref_chunks roll c bs)) \<Longrightarrow> minimum_chunk c \<le> length x"
proof -
  have len: "L \<le> maximum_chunk c" "minimum_chunk c \<le> L" if L: "first_cut_len roll c bs = Some L" for bs L
  proof -
    have "\<not> maximum_chunk c < L"
      using L assms(1) by (auto simp: first_cut_len_Some cut_at_def)
    then show "L \<le> maximum_chunk c" by simp
    show "minimum_chunk c \<le> L" using L assms(2) by (auto simp: first_cut_len_Some cut_at_def)
  qed
  have none: "length bs \<le> maximum_chunk c" if "first_cut_len roll c bs = None" for bs
    using that assms(1) by (fastforce simp: first_cut_len_None cut_at_def not_le)
  show "x \<in> set (ref_chunks roll c bs) \<Longrightarrow> x \<noteq> [] \<and> length x \<le> maximum_chunk c"
  proof (induction bs rule: measure_induct_rule [of length])
    case (less bs)
    from less.prems have bs: "bs \<noteq> []" by (auto simp: ref_chunks.simps [of roll c "[]"])
    show ?case
    proof (cases "first_cut_len roll c bs")
      case None
      with less.prems bs none show ?thesis by (simp add: ref_chunks.simps [of roll c bs])
    next
      case (Some L)
      then have L: "0 < L" by (simp add: first_cut_len_Some)
      consider "x = take L bs" | "x \<in> set (ref_chunks roll c (drop L bs))"
        using less.prems bs Some by (auto simp: ref_chunks.simps [of roll c bs])
      then show ?thesis
        by cases (use bs L len [OF Some] less.IH [of "drop L bs"] in auto)
    qed
  qed
  show "x \<in> set (butlast (ref_chunks roll c bs)) \<Longrightarrow> minimum_chunk c \<le> length x"
  proof (induction bs rule: measure_induct_rule [of length])
    case (less bs)
    show ?case
    proof (cases "bs = [] \<or> first_cut_len roll c bs = None")
      case True
      with less.prems show ?thesis by (cases "bs = []") (auto simp: ref_chunks.simps [of roll c bs])
    next
      case False
      then obtain L where L: "first_cut_len roll c bs = Some L" and bs: "bs \<noteq> []" by auto
      then have "0 < L" "L \<le> length bs" by (simp_all add: first_cut_len_Some)
      with less.prems L bs less.IH [of "drop L bs"] len [OF L] show ?thesis
        by (subst (asm) ref_chunks.simps) (auto split: if_splits)
    qed
  qed
qed

section \<open>Properties\<close>

text \<open>
  (C3) Cutting a file into chunks does not depend on how it is read. For every sequence of blocks,
  \<open>next_block\<close> on each and then \<open>finish\<close> terminate and give the chunks of the reference definition
  on the concatenated bytes; the rolling hash is any one that meets the contract of \<open>gearhash\<close>.
\<close>

theorem chunk_blocks_ref:
  assumes "gear_hasher nm roll" and "chunker_new t = Some c"
  shows "chunk_blocks nm kh c blocks = Some (map (chunk_new kh) (ref_chunks roll c (concat blocks)))"
  using gear_hasher.chunk_blocks_inv [OF assms(1) chunker_new_inv [OF assms(2)], of kh blocks]
    chunker_new_config(2) [OF assms(2)] by simp

definition demo_chunker :: chunker where
  "demo_chunker = \<lparr>hash = 0, minimum_chunk = 8192, maximum_chunk = 131072,
     mask = push_bit 48 65535, chunkbuf = []\<rparr>"

lemma demo_chunker_new: "chunker_new TARGET_CHUNK_SIZE = Some demo_chunker"
proof -
  have ones: "count_ones 65536 = 1" and zeros: "leading_zeros 65535 = 48"
    unfolding count_ones_def leading_zeros_def by code_simp+
  then show ?thesis
    by (simp add: chunker_new_def demo_chunker_def TARGET_CHUNK_SIZE_def Let_def MINIMUM_CHUNK_DIVISOR_def
        MAXIMUM_CHUNK_MULTIPLIER_def)
qed

theorem chunk_blocks_ref_witness:
  "chunk_blocks (roll_match (gear_roll ucast)) (\<lambda>_ _. replicate 32 0) demo_chunker [[1, 2], [], [3]] =
     Some (map (chunk_new (\<lambda>_ _. replicate 32 0)) (ref_chunks (gear_roll ucast) demo_chunker [1, 2, 3]))"
  using chunk_blocks_ref [OF gear.gear_hasher_axioms demo_chunker_new, of ucast "\<lambda>_ _. replicate 32 0" "[[1, 2], [], [3]]"]
  by simp

text \<open>
  (C16) No byte is lost and every chunk is in bounds. The chunks of a file, in order, are the file;
  none is empty or longer than twice the target size, and only the last one may be shorter than the
  target size divided by eight.
\<close>

theorem chunk_blocks_bounds:
  assumes "gear_hasher nm roll" and "chunker_new t = Some c"
  shows "\<exists>cs. chunk_blocks nm kh c blocks = Some cs \<and> concat (map chunk_data cs) = concat blocks \<and>
    list_all (\<lambda>x. chunk_data x \<noteq> [] \<and> length (chunk_data x) \<le> 2 * t) cs \<and>
    list_all (\<lambda>x. t div 8 \<le> length (chunk_data x)) (butlast cs) \<and>
    list_all (\<lambda>x. chunk_hash x = compute_data_hash kh (chunk_data x)) cs"
proof -
  let ?bs = "ref_chunks roll c (concat blocks)"
  have data: "map chunk_data (map (chunk_new kh) xs) = xs" for xs
    by (induction xs) (simp_all add: chunk_new_def)
  note cfg = chunker_new_config [OF assms(2)]
  have m: "0 < maximum_chunk c" "minimum_chunk c \<le> maximum_chunk c" using cfg by auto
  have "chunk_blocks nm kh c blocks = Some (map (chunk_new kh) ?bs)"
    using gear_hasher.chunk_blocks_inv [OF assms(1) chunker_new_inv [OF assms(2)], of kh blocks] cfg by simp
  moreover have "list_all (\<lambda>x. chunk_data x \<noteq> [] \<and> length (chunk_data x) \<le> 2 * t) (map (chunk_new kh) ?bs)"
    using ref_chunks_bounds(1) [OF m] cfg by (auto simp: list_all_iff chunk_new_def mult.commute)
  moreover have "list_all (\<lambda>x. t div 8 \<le> length (chunk_data x)) (butlast (map (chunk_new kh) ?bs))"
    using ref_chunks_bounds(2) [OF m] cfg by (auto simp: list_all_iff chunk_new_def map_butlast [symmetric])
  moreover have "list_all (\<lambda>x. chunk_hash x = compute_data_hash kh (chunk_data x)) (map (chunk_new kh) ?bs)"
    by (auto simp: list_all_iff chunk_new_def)
  ultimately show ?thesis by (simp only: option.inject ex_simps data concat_ref_chunks) (auto simp: data simp del: map_map)
qed

theorem chunk_blocks_bounds_witness:
  "\<exists>cs. chunk_blocks (roll_match (gear_roll ucast)) (\<lambda>_ _. replicate 32 0) demo_chunker [[1, 2], [3]] = Some cs \<and>
    concat (map chunk_data cs) = [1, 2, 3] \<and>
    list_all (\<lambda>x. chunk_data x \<noteq> [] \<and> length (chunk_data x) \<le> 131072) cs"
  using chunk_blocks_bounds [OF gear.gear_hasher_axioms demo_chunker_new, of ucast "\<lambda>_ _. replicate 32 0" "[[1, 2], [3]]"]
  by (auto simp: TARGET_CHUNK_SIZE_def)

text \<open>
  The zero-copy path is the same function: on every non-empty block \<open>next_block_bytes\<close> returns
  the chunks of \<open>next_block\<close> and leaves the chunker in the same state, in every state reached by blocks.
\<close>

lemma next_block_bytes_same:
  assumes "gear_hasher nm roll" and "chunker_inv roll c" and "d \<noteq> []"
  shows "next_block_bytes nm kh c d is_final = next_block nm kh c d is_final \<and>
    (\<exists>c' cs. next_block nm kh c d is_final = Some (c', cs) \<and> chunker_inv roll c')"
proof (intro conjI)
  show "next_block_bytes nm kh c d is_final = next_block nm kh c d is_final"
    by (rule gear_hasher.next_block_bytes_eq [OF assms])
  have "chunker_inv roll (with_buf roll c r)" if "first_cut_len roll c r = None" for r
    using chunker_inv_with_buf [OF assms(2) that] .
  then show "\<exists>c' cs. next_block nm kh c d is_final = Some (c', cs) \<and> chunker_inv roll c'"
    using gear_hasher.next_block_open [OF assms(1,2), of kh d] gear_hasher.next_block_final [OF assms, of kh]
    by (cases is_final) (auto simp: ref_split_rest)
qed

text \<open>
  (C22) An empty final block is not final for \<open>next_block\<close>. Whatever is buffered, the call returns no
  chunk and keeps the buffer, while \<open>next_block_bytes\<close> returns the buffered bytes as the last chunk.
\<close>

theorem next_block_empty_final:
  "next_block nm kh c [] True = Some (c\<lparr>hash := 0\<rparr>, []) \<and>
   next_block_bytes nm kh c [] True =
     Some (c\<lparr>hash := 0, chunkbuf := []\<rparr>, if chunkbuf c = [] then [] else [chunk_new kh (chunkbuf c)])"
  by (cases c) (simp add: next_block_def next_block_loop.simps next_block_bytes_def chunker_next_def next_boundary_def
      next_block_bytes_loop.simps Let_def)

end
