(* ===== verification/Chunking_Stable.thy ===== *)
theory Chunking_Stable
  imports Chunking_Correct
begin

text \<open>
  Stable chunk boundaries: \<open>next_stable_chunk_boundary\<close> of
  \<open>xet_core_structures/src/xorb_object/constants.rs\<close> against the chunker. A boundary it returns is
  reached by the chunker again whatever the bytes before the starting position are replaced with,
  and all later boundaries are the same.
\<close>

section \<open>Boundaries as positions\<close>

inductive boundary :: "(u64 \<Rightarrow> u8 \<Rightarrow> u64) \<Rightarrow> chunker \<Rightarrow> bytes \<Rightarrow> nat \<Rightarrow> bool" for roll c X where
  boundary_0: "boundary roll c X 0"
| boundary_cut: "boundary roll c X q \<Longrightarrow> first_cut_len roll c (drop q X) = Some L \<Longrightarrow> boundary roll c X (q + L)"

lemma boundary_le: "boundary roll c X p \<Longrightarrow> p \<le> length X"
  by (induction rule: boundary.induct) (auto simp: first_cut_len_Some)

lemma ref_chunks_cut:
  "first_cut_len roll c bs = Some L \<Longrightarrow> ref_chunks roll c bs = take L bs # ref_chunks roll c (drop L bs)"
  by (cases "bs = []") (simp_all add: ref_chunks.simps [of roll c bs])

lemma first_cut_le:
  assumes "cut_at roll c bs k" and "0 < k" and "k \<le> length bs"
  obtains L where "first_cut_len roll c bs = Some L" "L \<le> k"
proof (cases "first_cut_len roll c bs")
  case None
  with assms show thesis by (simp add: first_cut_len_None)
next
  case (Some L)
  with assms have "\<not> k < L" by (auto simp: first_cut_len_Some)
  with Some show thesis by (intro that) auto
qed

lemma boundary_chunks:
  "boundary roll c X p \<Longrightarrow>
     \<exists>cs. ref_chunks roll c X = cs @ ref_chunks roll c (drop p X) \<and> length (concat cs) = p"
proof (induction rule: boundary.induct)
  case boundary_0
  show ?case by (rule exI [of _ "[]"]) simp
next
  case (boundary_cut q L)
  then obtain cs where cs: "ref_chunks roll c X = cs @ ref_chunks roll c (drop q X)" "length (concat cs) = q" by blast
  have L: "L \<le> length X - q" using boundary_cut.hyps(2) by (simp add: first_cut_len_Some)
  show ?case
    using cs L by (intro exI [of _ "cs @ [take L (drop q X)]"])
      (simp add: ref_chunks_cut [OF boundary_cut.hyps(2)] add.commute)
qed

text \<open>The hash of the 64 bytes before a position.\<close>

definition hit :: "(u64 \<Rightarrow> u8 \<Rightarrow> u64) \<Rightarrow> chunker \<Rightarrow> bytes \<Rightarrow> nat \<Rightarrow> bool" where
  "hit roll c X p \<longleftrightarrow> foldl roll 0 (slice X (p - 64) p) AND mask c = 0"

lemma hit_shift: "64 \<le> s \<Longrightarrow> hit roll c (P @ S) (length P + s) = hit roll c S s"
  by (simp add: hit_def slice_def)

context gear_hasher
begin

lemma hash_after_drop:
  assumes "65 \<le> minimum_chunk c" and "q + minimum_chunk c \<le> p" and "p \<le> length X"
  shows "hash_after roll c (drop q X) (p - q) AND mask c = 0 \<longleftrightarrow> hit roll c X p"
proof -
  let ?a = "q + (minimum_chunk c - 65)"
  have "slice (drop q X) (minimum_chunk c - 65) (p - q) = slice X ?a p"
    using assms by (simp add: slice_def drop_take add.commute)
  also have "\<dots> = slice X ?a (p - 64) @ slice X (p - 64) p"
    using assms by (intro slice_split) auto
  finally have "foldl roll 0 (slice (drop q X) (minimum_chunk c - 65) (p - q)) =
      foldl roll (foldl roll 0 (slice X ?a (p - 64))) (slice X (p - 64) p)" by simp
  also have "\<dots> = foldl roll 0 (slice X (p - 64) p)"
    using assms by (intro window) (simp add: slice_def)
  finally show ?thesis by (simp add: hash_after_def hit_def)
qed

lemma cut_at_drop:
  assumes "65 \<le> minimum_chunk c" and "q < p" and "p \<le> length X" and "p < q + maximum_chunk c"
  shows "cut_at roll c (drop q X) (p - q) \<longleftrightarrow> q + minimum_chunk c \<le> p \<and> hit roll c X p"
  using hash_after_drop [of c q p X] assms by (auto simp: cut_at_def)

text \<open>The first hit in reach ends the chunk.\<close>

lemma boundary_next_hit:
  assumes m: "65 \<le> minimum_chunk c" and q: "boundary roll c X q"
    and p: "q + minimum_chunk c \<le> p" "p < q + maximum_chunk c" "p \<le> length X" "hit roll c X p"
  obtains r where "boundary roll c X r" "q + minimum_chunk c \<le> r" "r \<le> p" "hit roll c X r"
proof -
  have cut: "cut_at roll c (drop q X) (p - q)" using cut_at_drop [OF m, of q p X] p m by simp
  obtain L where L: "first_cut_len roll c (drop q X) = Some L" "L \<le> p - q"
    using first_cut_le [OF cut] p m by (metis add_leD1 diff_le_mono length_drop le_add_diff_inverse less_le_trans nat_add_left_cancel_le zero_less_numeral)
  then have "0 < L" "cut_at roll c (drop q X) ((q + L) - q)" by (simp_all add: first_cut_len_Some)
  with cut_at_drop [OF m, of q "q + L" X] L p
  have "q + minimum_chunk c \<le> q + L \<and> hit roll c X (q + L)" by simp
  then show thesis
    using boundary_cut [OF q L(1)] L(2) p by (intro that [of "q + L"]) auto
qed

text \<open>Every position with a hit at least the minimum behind a boundary has a boundary in between.\<close>

lemma boundary_between:
  assumes m: "65 \<le> minimum_chunk c" and q: "boundary roll c X q"
    and p: "q + minimum_chunk c \<le> p" "p \<le> length X" "hit roll c X p"
  obtains r where "boundary roll c X r" "q < r" "r \<le> p"
proof -
  have cut: "cut_at roll c (drop q X) (p - q)"
    using hash_after_drop [OF m p(1,2)] p by (auto simp: cut_at_def)
  obtain L where L: "first_cut_len roll c (drop q X) = Some L" "L \<le> p - q"
    using first_cut_le [OF cut] p m by (metis add_leD1 diff_le_mono length_drop le_add_diff_inverse less_le_trans nat_add_left_cancel_le zero_less_numeral)
  then show thesis
    using boundary_cut [OF q L(1)] p by (intro that [of "q + L"]) (auto simp: first_cut_len_Some)
qed

lemma last_boundary_before:
  assumes "0 < p"
  obtains q where "boundary roll c X q" "q < p" "\<And>r. boundary roll c X r \<Longrightarrow> r < p \<Longrightarrow> r \<le> q"
proof -
  let ?B = "{q. boundary roll c X q \<and> q < p}"
  have fin: "finite ?B" "0 \<in> ?B" using assms by (auto intro: boundary_0)
  then have "Max ?B \<in> ?B" by (intro Max_in) auto
  then show thesis using fin by (intro that [of "Max ?B"]) auto
qed

text \<open>
  The heart of the matter: whatever precedes \<open>S\<close>, the chunker cuts at one of two hits that are far
  enough apart, with no hit between the skip zone of the first and the second.
\<close>

lemma resync:
  assumes m: "65 \<le> minimum_chunk c" and s1: "2 * minimum_chunk c \<le> s1" "hit roll c S s1"
    and s2: "s1 + 2 * minimum_chunk c \<le> s2" "s2 + minimum_chunk c < s1 + maximum_chunk c" "s2 \<le> length S" "hit roll c S s2"
    and none: "\<And>s. s1 + minimum_chunk c \<le> s \<Longrightarrow> s < s2 \<Longrightarrow> \<not> hit roll c S s"
  shows "boundary roll c (P @ S) (length P + s1) \<or> boundary roll c (P @ S) (length P + s2)"
proof -
  let ?X = "P @ S" and ?n = "length P"
  let ?m = "minimum_chunk c"
  have hitX: "hit roll c ?X p \<longleftrightarrow> hit roll c S (p - ?n)" if "?n + 64 \<le> p" for p
    using hit_shift [of "p - ?n" roll c P S] that by simp
  obtain q where q: "boundary roll c ?X q" "q < ?n + s1"
    "\<And>r. boundary roll c ?X r \<Longrightarrow> r < ?n + s1 \<Longrightarrow> r \<le> q"
    using last_boundary_before [of "?n + s1" c ?X] s1 m by auto
  show ?thesis
  proof (cases "q + ?m \<le> ?n + s1")
    case True
    then obtain r where "boundary roll c ?X r" "q < r" "r \<le> ?n + s1"
      using boundary_between [OF m q(1) True] s1 s2 m hitX [of "?n + s1"] by auto
    with q(3) [of r] show ?thesis by (cases "r = ?n + s1") auto
  next
    case False
    obtain r where r: "boundary roll c ?X r" "q + ?m \<le> r" "r \<le> ?n + s2" "hit roll c ?X r"
      using boundary_next_hit [OF m q(1), of "?n + s2"] False s1 s2 m q(2) hitX [of "?n + s2"] by auto
    have late: "p = ?n + s2" if "boundary roll c ?X p" "?n + s1 + ?m \<le> p" "p \<le> ?n + s2" "hit roll c ?X p" for p
    proof (rule ccontr)
      assume "p \<noteq> ?n + s2"
      with that have "s1 + ?m \<le> p - ?n" "p - ?n < s2" by arith+
      with none have "\<not> hit roll c S (p - ?n)" by blast
      with hitX [of p] that s1 m show False by simp
    qed
    show ?thesis
    proof (cases "?n + s1 + ?m \<le> r")
      case True
      with late r show ?thesis by auto
    next
      case near: False
      obtain p where p: "boundary roll c ?X p" "r + ?m \<le> p" "p \<le> ?n + s2" "hit roll c ?X p"
        using boundary_next_hit [OF m r(1), of "?n + s2"] near False r s1 s2 m hitX [of "?n + s2"] by auto
      with late [of p] False r show ?thesis by simp
    qed
  qed
qed

end

section \<open>The chunks around a boundary\<close>

lemma ref_chunks_drop:
  "k \<le> length (ref_chunks roll c X) \<Longrightarrow>
     ref_chunks roll c (drop (length (concat (take k (ref_chunks roll c X)))) X) = drop k (ref_chunks roll c X)"
proof (induction k arbitrary: X)
  case (Suc k)
  then have X: "X \<noteq> []" by auto
  show ?case
  proof (cases "first_cut_len roll c X")
    case None
    with X show ?thesis by (simp add: ref_chunks.simps [of roll c X])
  next
    case (Some L)
    then have "L \<le> length X" by (simp add: first_cut_len_Some)
    moreover have "k \<le> length (ref_chunks roll c (drop L X))"
      using Suc.prems by (simp add: ref_chunks_cut [OF Some])
    ultimately show ?thesis
      using Suc.IH [of "drop L X"] by (simp add: ref_chunks_cut [OF Some] add.commute)
  qed
qed simp

lemma ref_chunks_head:
  assumes "ref_chunks roll c X = x # xs"
  shows "xs \<noteq> [] \<Longrightarrow> first_cut_len roll c X = Some (length x)"
    and "0 < j \<Longrightarrow> j < length x \<Longrightarrow> \<not> cut_at roll c X j"
    and "x \<noteq> []" and "length x \<le> length X"
proof -
  have X: "X \<noteq> []" using assms by auto
  have "first_cut_len roll c X = Some (length x) \<or> first_cut_len roll c X = None \<and> xs = [] \<and> x = X"
    using assms X by (cases "first_cut_len roll c X") (auto simp: ref_chunks.simps [of roll c X] first_cut_len_Some)
  then show "xs \<noteq> [] \<Longrightarrow> first_cut_len roll c X = Some (length x)"
    and "0 < j \<Longrightarrow> j < length x \<Longrightarrow> \<not> cut_at roll c X j" and "x \<noteq> []" and "length x \<le> length X"
    using X by (auto simp: first_cut_len_Some first_cut_len_None)
qed

context gear_hasher
begin

lemma chunk_hits:
  assumes m: "65 \<le> minimum_chunk c" and x: "ref_chunks roll c (drop b X) = x # xs"
    and len: "length x < maximum_chunk c" and b: "b \<le> length X"
  shows "xs \<noteq> [] \<Longrightarrow> hit roll c X (b + length x)"
    and "b + minimum_chunk c \<le> p \<Longrightarrow> p < b + length x \<Longrightarrow> \<not> hit roll c X p"
proof -
  note hd = ref_chunks_head [OF x]
  show "hit roll c X (b + length x)" if "xs \<noteq> []"
    using hd(1) [OF that] hd(3,4) cut_at_drop [OF m, of b "b + length x" X] len b
    by (auto simp: first_cut_len_Some)
  show "\<not> hit roll c X p" if "b + minimum_chunk c \<le> p" "p < b + length x"
    using hd(2) [of "p - b"] hd(4) cut_at_drop [OF m, of b p X] len b that m by simp
qed

lemma stable_chunks:
  assumes cs_def: "cs = ref_chunks roll c (P @ S)" and m: "65 \<le> minimum_chunk c" and i: "i + 2 < length cs"
    and P: "length P \<le> length (concat (take (Suc i) cs))"
    and a: "2 * minimum_chunk c \<le> length (cs ! (i + 1))" "length (cs ! (i + 1)) + minimum_chunk c < maximum_chunk c"
    and b: "2 * minimum_chunk c \<le> length (cs ! (i + 2))" "length (cs ! (i + 2)) + minimum_chunk c < maximum_chunk c"
  shows "\<exists>k. drop k (ref_chunks roll c (P' @ S)) = drop (i + 3) cs"
proof (cases "i + 3 = length cs")
  case True
  then show ?thesis by (intro exI [of _ "length (ref_chunks roll c (P' @ S))"]) simp
next
  case more: False
  let ?X = "P @ S" and ?n = "length P"
  define b0 where "b0 = length (concat (take (Suc i) cs))"
  define b1 where "b1 = b0 + length (cs ! (i + 1))"
  define b2 where "b2 = b1 + length (cs ! (i + 2))"
  have b1_take: "b1 = length (concat (take (i + 2) cs))" and b2_take: "b2 = length (concat (take (i + 3) cs))"
    using i by (simp_all add: b0_def b1_def b2_def take_Suc_conv_app_nth numeral_3_eq_3)
  have at: "ref_chunks roll c (drop (length (concat (take k cs))) ?X) = drop k cs" if "k \<le> length cs" for k
    using ref_chunks_drop [of k roll c ?X] that by (simp add: cs_def)
  have x1: "ref_chunks roll c (drop b0 ?X) = cs ! (i + 1) # drop (i + 2) cs"
    using at [of "Suc i"] i by (simp add: b0_def Cons_nth_drop_Suc)
  have x2: "ref_chunks roll c (drop b1 ?X) = cs ! (i + 2) # drop (i + 3) cs"
    using at [of "i + 2"] i by (simp add: b1_take Cons_nth_drop_Suc numeral_3_eq_3)
  have x3: "ref_chunks roll c (drop b2 ?X) = drop (i + 3) cs"
    using at [of "i + 3"] i by (simp add: b2_take)
  have le: "b2 \<le> length ?X"
    using arg_cong [OF append_take_drop_id [of "i + 3" cs], of "\<lambda>l. length (concat l)"]
    by (simp add: b2_take cs_def del: append_take_drop_id)
  have s: "?n + (b1 - ?n) = b1" "?n + (b2 - ?n) = b2" using P by (simp_all add: b1_def b2_def b0_def)
  have hitS: "hit roll c S (p - ?n) \<longleftrightarrow> hit roll c ?X p" if "b1 \<le> p" for p
    using hit_shift [of "p - ?n" roll c P S] that m a P by (simp add: b1_def b0_def)
  have "boundary roll c (P' @ S) (length P' + (b1 - ?n)) \<or> boundary roll c (P' @ S) (length P' + (b2 - ?n))"
  proof (rule resync [OF m])
    show "hit roll c S (b1 - ?n)"
      using chunk_hits(1) [OF m x1] a i le by (simp add: hitS b1_def b2_def)
    show "hit roll c S (b2 - ?n)"
      using chunk_hits(1) [OF m x2] b i le more by (simp add: hitS b2_def)
    show "\<not> hit roll c S p" if "b1 - ?n + minimum_chunk c \<le> p" "p < b2 - ?n" for p
      using chunk_hits(2) [OF m x2, of "p + ?n"] hitS [of "p + ?n"] that b i le s by (simp add: b2_def)
    show "2 * minimum_chunk c \<le> b1 - ?n" using a P by (simp add: b1_def b0_def)
  qed (use a b P le s in \<open>simp_all add: b2_def b1_def b0_def\<close>)
  moreover have "drop (length P' + (q - ?n)) (P' @ S) = drop q ?X" if "?n \<le> q" for q
    using that by simp
  ultimately obtain q where q: "q = b1 \<or> q = b2" "boundary roll c (P' @ S) (length P' + (q - ?n))"
    "drop (length P' + (q - ?n)) (P' @ S) = drop q ?X"
    using P unfolding b2_def b1_def b0_def by (metis trans_le_add1)
  then obtain cs1 where cs1: "ref_chunks roll c (P' @ S) = cs1 @ ref_chunks roll c (drop q ?X)"
    using boundary_chunks [OF q(2)] by auto
  show ?thesis
    using q(1) x2 x3 by (auto simp: cs1 intro: exI [of _ "length cs1"] exI [of _ "Suc (length cs1)"])
qed

end

section \<open>The theorem on the code's function\<close>

text \<open>The chunk boundaries the callers pass: the end of each chunk.\<close>

definition chunk_ends :: "chunk list \<Rightarrow> nat list" where
  "chunk_ends cs = map (\<lambda>k. length (concat (map chunk_data (take (Suc k) cs)))) [0..<length cs]"

lemma find_SomeD: "find Q xs = Some x \<Longrightarrow> Q x \<and> x \<in> set xs"
  by (induction xs) (auto split: if_splits)

lemma next_stable_chunk_boundary_Some:
  assumes "next_stable_chunk_boundary p (chunk_ends (map (chunk_new kh) cs)) = Some b"
  obtains i where "i + 2 < length cs" "p \<le> length (concat (take (Suc i) cs))"
    "is_stable_chunk_size (length (cs ! (i + 1)))" "is_stable_chunk_size (length (cs ! (i + 2)))"
    "b = length (concat (take (i + 3) cs))"
proof -
  let ?e = "chunk_ends (map (chunk_new kh) cs)"
  have data: "map chunk_data (take k (map (chunk_new kh) cs)) = take k cs" for k
    by (simp add: take_map [symmetric] comp_def chunk_new_def)
  have len: "length ?e = length cs" by (simp add: chunk_ends_def)
  have e: "?e ! k = length (concat (take (Suc k) cs))" if "k < length cs" for k
    using that by (simp add: chunk_ends_def data del: take_Suc)
  let ?start = "length (takeWhile (\<lambda>x. x < p) ?e)"
  obtain i where i: "?start \<le> i" "i < length cs - 2" "b = ?e ! (i + 2)"
    "is_stable_chunk_size (?e ! (i + 1) - ?e ! i)" "is_stable_chunk_size (?e ! (i + 2) - ?e ! (i + 1))"
    using assms by (auto simp: next_stable_chunk_boundary_def Let_def len dest!: find_SomeD)
  have "\<not> ?e ! ?start < p" using i len by (intro nth_length_takeWhile) simp
  then have "p \<le> length (concat (take (Suc i) cs))"
    using e [of ?start] i length_concat_take_mono [of "Suc ?start" "Suc i" cs] by simp
  moreover have "?e ! (i + 1) - ?e ! i = length (cs ! (i + 1))" "?e ! (i + 2) - ?e ! (i + 1) = length (cs ! (i + 2))"
    using i by (simp_all add: e take_Suc_conv_app_nth del: take_Suc)
  ultimately show thesis
    using i e [of "i + 2"] by (intro that [of i]) (auto simp: numeral_3_eq_3)
qed

text \<open>
  (C2) A stable chunk boundary is stable. Let the chunks of a file \<open>P @ S\<close> have a stable boundary
  \<open>b\<close> for the starting position at the end of \<open>P\<close>. Replace \<open>P\<close> by any bytes \<open>P'\<close> of any length: the
  new file has a chunk boundary at the same place of \<open>S\<close>, and all chunks behind it are those of the
  old file.
\<close>

theorem stable_boundary_sound:
  assumes hasher: "gear_hasher nm roll" and c: "chunker_new TARGET_CHUNK_SIZE = Some c"
    and cs: "chunk_blocks nm kh c [P @ S] = Some cs"
    and b: "next_stable_chunk_boundary (length P) (chunk_ends cs) = Some b"
  shows "\<exists>k k' cs'. chunk_blocks nm kh c [P' @ S] = Some cs' \<and> drop k' cs' = drop k cs \<and>
    length (concat (map chunk_data (take k cs))) = b \<and>
    length (concat (map chunk_data (take k' cs'))) + length P = b + length P' \<and> length P \<le> b"
proof -
  let ?r = "ref_chunks roll c (P @ S)" and ?r' = "ref_chunks roll c (P' @ S)"
  have blocks: "chunk_blocks nm kh c [X] = Some (map (chunk_new kh) (ref_chunks roll c X))" for X
    using gear_hasher.chunk_blocks_inv [OF hasher chunker_new_inv [OF c], of kh "[X]"]
      chunker_new_config(2) [OF c] by simp
  have data: "map chunk_data (take k (map (chunk_new kh) xs)) = take k xs" for k xs
    by (simp add: take_map [symmetric] comp_def chunk_new_def)
  have cs_def: "cs = map (chunk_new kh) ?r" using cs blocks by simp
  obtain i where i: "i + 2 < length ?r" "length P \<le> length (concat (take (Suc i) ?r))"
    "is_stable_chunk_size (length (?r ! (i + 1)))" "is_stable_chunk_size (length (?r ! (i + 2)))"
    "b = length (concat (take (i + 3) ?r))"
    using b unfolding cs_def by (rule next_stable_chunk_boundary_Some)
  have m: "minimum_chunk c = 8192" "maximum_chunk c = 131072"
    using chunker_new_config [OF c] by (simp_all add: TARGET_CHUNK_SIZE_def)
  have stable: "2 * minimum_chunk c \<le> n \<and> n + minimum_chunk c < maximum_chunk c" if "is_stable_chunk_size n" for n
    using that by (simp add: m is_stable_chunk_size_def TARGET_CHUNK_SIZE_def MINIMUM_CHUNK_DIVISOR_def
        MAXIMUM_CHUNK_MULTIPLIER_def)
  obtain k' where k': "drop k' ?r' = drop (i + 3) ?r"
    using gear_hasher.stable_chunks [OF hasher refl, of c i P S P'] i stable m by auto
  have tot: "length (concat (take k xs)) + length (concat (drop k xs)) = length (concat xs)" for k and xs :: "bytes list"
    by (metis append_take_drop_id concat_append length_append)
  have "length (concat (take k' ?r')) + length P = b + length P'"
    using tot [of k' ?r'] tot [of "i + 3" ?r] by (simp add: k' i(5))
  moreover have "length P \<le> b" using i(2,5) length_concat_take_mono [of "Suc i" "i + 3" ?r] by simp
  ultimately have "chunk_blocks nm kh c [P' @ S] = Some (map (chunk_new kh) ?r') \<and>
      drop k' (map (chunk_new kh) ?r') = drop (i + 3) cs \<and> length (concat (map chunk_data (take (i + 3) cs))) = b \<and>
      length (concat (map chunk_data (take k' (map (chunk_new kh) ?r')))) + length P = b + length P' \<and> length P \<le> b"
    using k' i(5) by (simp add: blocks cs_def data drop_map del: chunk_blocks.simps)
  then show ?thesis by blast
qed

text \<open>
  A hash of the last byte only meets the contract of the rolling hash; with it, a chunk ends behind
  every byte 1 that is at least the minimum behind the last boundary.
\<close>

definition last_roll :: "u64 \<Rightarrow> u8 \<Rightarrow> u64" where
  "last_roll h b = (if b = 1 then 0 else - 1)"

lemma foldl_last_roll: "bs \<noteq> [] \<Longrightarrow> foldl last_roll h bs = (if last bs = 1 then 0 else - 1)"
  by (induction bs rule: rev_induct) (simp_all add: last_roll_def)

lemma last_roll_hasher: "gear_hasher (roll_match last_roll) last_roll"
proof (rule roll_match_hasher)
  fix h h' :: u64 and bs :: bytes
  assume "64 \<le> length bs"
  then have "bs \<noteq> []" by auto
  then show "foldl last_roll h bs = foldl last_roll h' bs" by (simp add: foldl_last_roll)
qed

definition block16k :: bytes where
  "block16k = replicate 16383 0 @ [1]"

lemma length_block16k [simp]: "length block16k = 16384"
  by (simp add: block16k_def)

lemma demo_cut: "first_cut_len last_roll demo_chunker (block16k @ bs) = Some 16384"
proof -
  have "last (slice (block16k @ bs) 8127 j) = (block16k @ bs) ! (j - 1)" if "8192 \<le> j" "j \<le> 16384" for j
    using that by (auto simp: slice_def last_conv_nth nth_append)
  moreover have "(block16k @ bs) ! (j - 1) = (if j = 16384 then 1 else 0)" if "8192 \<le> j" "j \<le> 16384" for j
    using that by (auto simp: block16k_def nth_append)
  moreover have "slice (block16k @ bs) 8127 j \<noteq> []" if "8192 \<le> j" "j \<le> 16384" for j
    using that by (simp add: slice_def)
  ultimately have "cut_at last_roll demo_chunker (block16k @ bs) j \<longleftrightarrow> j = 16384" if "j \<le> 16384" for j
    using that by (cases "j = 16384") (auto simp: cut_at_def hash_after_def foldl_last_roll demo_chunker_def)
  then show ?thesis by (simp add: first_cut_len_Some)
qed

lemma demo_chunks:
  "ref_chunks last_roll demo_chunker (concat (replicate n block16k)) = replicate n block16k"
  by (induction n) (simp_all add: ref_chunks_cut [OF demo_cut])

lemma demo_blocks:
  "chunk_blocks (roll_match last_roll) kh demo_chunker [concat (replicate n block16k)] =
     Some (map (chunk_new kh) (replicate n block16k))"
  using gear_hasher.chunk_blocks_inv [OF last_roll_hasher chunker_new_inv [OF demo_chunker_new],
      of kh "[concat (replicate n block16k)]"] chunker_new_config(2) [OF demo_chunker_new]
  by (simp add: demo_chunks del: chunk_blocks.simps)

theorem stable_boundary_sound_witness:
  "\<exists>k k' cs'. chunk_blocks (roll_match last_roll) (\<lambda>_ _. replicate 32 0) demo_chunker
        [[1, 2, 3] @ drop 5 (concat (replicate 4 block16k))] = Some cs' \<and>
    drop k' cs' = drop k (map (chunk_new (\<lambda>_ _. replicate 32 0)) (replicate 4 block16k)) \<and>
    length (concat (map chunk_data (take k' cs'))) + 5 = 49152 + 3"
proof -
  let ?X = "concat (replicate 4 block16k)" and ?kh = "\<lambda>_ _. replicate 32 0 :: bytes"
  let ?cs = "map (chunk_new ?kh) (replicate 4 block16k)"
  have ends: "chunk_ends [a, b, c, d] = [length (chunk_data a), length (chunk_data a) + length (chunk_data b),
      length (chunk_data a) + length (chunk_data b) + length (chunk_data c),
      length (chunk_data a) + length (chunk_data b) + length (chunk_data c) + length (chunk_data d)]" for a b c d
    by (simp add: chunk_ends_def upt_rec)
  have len: "length ?X = 65536" by (simp add: length_concat sum_list_replicate)
  have "replicate 4 block16k = [block16k, block16k, block16k, block16k]" by (simp add: eval_nat_numeral)
  then have "chunk_ends ?cs = [16384, 32768, 49152, 65536]"
    by (simp add: ends chunk_new_def)
  then have "next_stable_chunk_boundary 5 (chunk_ends ?cs) = Some 49152"
    by (simp add: next_stable_chunk_boundary_def is_stable_chunk_size_def TARGET_CHUNK_SIZE_def
        MINIMUM_CHUNK_DIVISOR_def MAXIMUM_CHUNK_MULTIPLIER_def upt_rec)
  then show ?thesis
    using stable_boundary_sound [OF last_roll_hasher demo_chunker_new, of ?kh "take 5 ?X" "drop 5 ?X" ?cs 49152 "[1, 2, 3]"]
      demo_blocks [of ?kh 4] len by (auto simp del: chunk_blocks.simps)
qed

end
