(* ===== verification/Byte_Grouping.thy ===== *)
theory Byte_Grouping
  imports Xet_Prelude
begin

text \<open>
  Byte grouping, \<open>xet_core_structures/src/xorb_object/byte_grouping/bg4.rs\<close>: the bytes of a chunk are
  regrouped by their position modulo four before compression. The functions that work on raw
  pointers are modelled as the sequence of their stores, each a destination index and the index the
  byte is loaded from; \<open>run_stores\<close> performs them on a zeroed buffer. The regrouping undoes the
  splitting, the variants agree, and every access of the unsafe code is in bounds.
\<close>

section \<open>Stores\<close>

definition run_stores :: "bytes \<Rightarrow> (nat \<times> nat) list \<Rightarrow> bytes \<Rightarrow> bytes" where
  "run_stores src stores dst = fold (\<lambda>(p, q) d. d[p := src ! q]) stores dst"

lemma length_run_stores [simp]: "length (run_stores src st d) = length d"
  unfolding run_stores_def by (induction st arbitrary: d) auto

lemma run_stores_append [simp]: "run_stores src (st @ st') d = run_stores src st' (run_stores src st d)"
  by (simp add: run_stores_def)

lemma run_stores_nth:
  "(\<And>q'. (p, q') \<in> set st \<Longrightarrow> q' = q) \<Longrightarrow> p < length d \<Longrightarrow>
     run_stores src st d ! p = (if (p, q) \<in> set st then src ! q else d ! p)"
proof (induction st arbitrary: d)
  case (Cons s st)
  obtain a b where s: "s = (a, b)" by force
  have ih: "run_stores src st (d[a := src ! b]) ! p = (if (p, q) \<in> set st then src ! q else d[a := src ! b] ! p)"
    using Cons.prems by (intro Cons.IH) simp_all
  have step: "run_stores src (s # st) d = run_stores src st (d[a := src ! b])" by (simp add: run_stores_def s)
  show ?case
  proof (cases "p = a")
    case True
    then have "b = q" using Cons.prems(1) [of b] s by simp
    with True Cons.prems(2) show ?thesis unfolding step ih by (simp add: s)
  next
    case False
    then show ?thesis unfolding step ih by (simp add: s)
  qed
qed (simp add: run_stores_def)

text \<open>The start of group \<open>r\<close> in a buffer of \<open>n\<close> bytes, as the pointers \<open>d0\<close>, \<open>d1\<close>, \<open>d2\<close>, \<open>d3\<close>.\<close>

definition d1 :: "nat \<Rightarrow> nat" where
  "d1 n = n div 4 + min 1 (n mod 4)"

definition d2 :: "nat \<Rightarrow> nat" where
  "d2 n = d1 n + (n div 4 + min 1 (n mod 4 - 1))"

definition d3 :: "nat \<Rightarrow> nat" where
  "d3 n = d2 n + (n div 4 + min 1 (n mod 4 - 2))"

section \<open>Splitting\<close>

definition bg4_split_separate :: "bytes \<Rightarrow> bytes list" where
  "bg4_split_separate bs =
     (let n = length bs; split = n div 4; rem = n mod 4;
          g = (\<lambda>r. map (\<lambda>i. bs ! (4 * i + r)) [0..<split]);
          tail = (\<lambda>r. if r < rem then [bs ! (4 * split + r)] else [])
      in [g 0 @ tail 0, g 1 @ tail 1, g 2 @ tail 2, g 3])"

definition split_stores :: "nat \<Rightarrow> (nat \<times> nat) list" where
  "split_stores n =
     (let split = n div 4; rem = n mod 4 in
      concat (map (\<lambda>i. [(i, 4 * i), (d1 n + i, 4 * i + 1), (d2 n + i, 4 * i + 2), (d3 n + i, 4 * i + 3)]) [0..<split]) @
      (if rem = 1 then [(split, 4 * split)]
       else if rem = 2 then [(split, 4 * split), (d1 n + split, 4 * split + 1)]
       else if rem = 3 then [(split, 4 * split), (d1 n + split, 4 * split + 1), (d2 n + split, 4 * split + 2)]
       else []))"

definition bg4_split_together :: "bytes \<Rightarrow> bytes" where
  "bg4_split_together bs = run_stores bs (split_stores (length bs)) (replicate (length bs) 0)"

definition bg4_split :: "bytes \<Rightarrow> bytes" where
  "bg4_split bs = bg4_split_together bs"

section \<open>Regrouping\<close>

definition bg4_regroup_separate :: "bytes list \<Rightarrow> bytes" where
  "bg4_regroup_separate groups =
     (let n = sum_list (map length groups); split = n div 4; rem = n mod 4 in
      concat (map (\<lambda>i. [groups ! 0 ! i, groups ! 1 ! i, groups ! 2 ! i, groups ! 3 ! i]) [0..<split]) @
      (if rem = 1 then [groups ! 0 ! split]
       else if rem = 2 then [groups ! 0 ! split, groups ! 1 ! split]
       else if rem = 3 then [groups ! 0 ! split, groups ! 1 ! split, groups ! 2 ! split]
       else []))"

definition regroup_tail_stores :: "nat \<Rightarrow> (nat \<times> nat) list" where
  "regroup_tail_stores n =
     (let split = n div 4; rem = n mod 4 in
      if rem = 1 then [(4 * split, split)]
      else if rem = 2 then [(4 * split, split), (4 * split + 1, d1 n + split)]
      else if rem = 3 then [(4 * split, split), (4 * split + 1, d1 n + split), (4 * split + 2, d2 n + split)]
      else [])"

definition regroup_together_stores :: "nat \<Rightarrow> (nat \<times> nat) list" where
  "regroup_together_stores n =
     concat (map (\<lambda>i. [(4 * i, i), (4 * i + 1, d1 n + i), (4 * i + 2, d2 n + i), (4 * i + 3, d3 n + i)])
       [0..<n div 4]) @ regroup_tail_stores n"

definition bg4_regroup_together :: "bytes \<Rightarrow> bytes" where
  "bg4_regroup_together g = run_stores g (regroup_together_stores (length g)) (replicate (length g) 0)"

text \<open>\<open>copy_nonoverlapping\<close> of a block of bytes that was gathered first.\<close>

definition copy_block :: "nat \<Rightarrow> nat list \<Rightarrow> (nat \<times> nat) list" where
  "copy_block dst srcs = map (\<lambda>k. (dst + k, srcs ! k)) [0..<length srcs]"

definition combined_write_4_stores :: "nat \<Rightarrow> (nat \<times> nat) list" where
  "combined_write_4_stores n =
     concat (map (\<lambda>i. copy_block (4 * i) [i, d1 n + i, d2 n + i, d3 n + i]) [0..<n div 4]) @ regroup_tail_stores n"

definition bg4_regroup_together_combined_write_4 :: "bytes \<Rightarrow> bytes" where
  "bg4_regroup_together_combined_write_4 g =
     run_stores g (combined_write_4_stores (length g)) (replicate (length g) 0)"

definition combined_write_8_stores :: "nat \<Rightarrow> (nat \<times> nat) list" where
  "combined_write_8_stores n =
     (let split = n div 4 in
      concat (map (\<lambda>i. let j = i * 2; k = j + 1 in
        copy_block (8 * i) [j, d1 n + j, d2 n + j, d3 n + j, k, d1 n + k, d2 n + k, d3 n + k]) [0..<split div 2]) @
      (if split mod 2 \<noteq> 0
       then let i = split - 1 in copy_block (4 * i) [i, d1 n + i, d2 n + i, d3 n + i] else []) @
      regroup_tail_stores n)"

definition bg4_regroup_together_combined_write_8 :: "bytes \<Rightarrow> bytes" where
  "bg4_regroup_together_combined_write_8 g =
     run_stores g (combined_write_8_stores (length g)) (replicate (length g) 0)"

definition bg4_regroup :: "bytes \<Rightarrow> bytes" where
  "bg4_regroup g = bg4_regroup_together g"

section \<open>The permutation\<close>

text \<open>The place of byte \<open>j\<close> of the data in the grouped buffer.\<close>

definition group_start :: "nat \<Rightarrow> nat \<Rightarrow> nat" where
  "group_start n r = (if r = 0 then 0 else if r = 1 then d1 n else if r = 2 then d2 n else d3 n)"

definition pos :: "nat \<Rightarrow> nat \<Rightarrow> nat" where
  "pos n j = group_start n (j mod 4) + j div 4"

lemma pos_group: "r < 4 \<Longrightarrow> pos n (4 * i + r) = group_start n r + i"
  by (simp add: pos_def)

lemma upt_small: "[0..<1] = [0]" "[0..<2] = [0, 1]" "[0..<3] = [0, 1, 2 :: nat]" "[0..<4] = [0, 1, 2, 3 :: nat]"
  by (simp_all add: upt_conv_Cons)

text \<open>A list over all positions, written as blocks of four and a tail.\<close>

lemma upt_shift: "[0..<a + m] = [0..<a] @ map (\<lambda>r. a + r) [0..<m]"
proof -
  have "[a..<a + m] = map (\<lambda>r. a + r) [0..<m]" using map_add_upt [of a m] by (simp add: add.commute)
  then show ?thesis using upt_add_eq_append [of 0 a m] by simp
qed

lemma blocks_of_four:
  "concat (map (\<lambda>i. map (\<lambda>r. f (4 * i + r)) [0, 1, 2, 3]) [0..<s]) @ map (\<lambda>r. f (4 * s + r)) [0..<m] =
     map f [0..<4 * s + m]"
proof -
  have "concat (map (\<lambda>i. map (\<lambda>r. f (4 * i + r)) [0, 1, 2, 3]) [0..<s]) = map f [0..<4 * s]"
  proof (induction s)
    case (Suc s)
    have "4 * Suc s = 4 * s + 4" by simp
    then have "map f [0..<4 * Suc s] = map f [0..<4 * s] @ map (\<lambda>r. f (4 * s + r)) [0, 1, 2, 3]"
      by (simp only: upt_shift upt_small map_append map_map comp_def)
    with Suc show ?case by (simp only: upt_Suc_append [OF le0] map_append concat_append) simp
  qed simp
  then show ?thesis by (simp only: upt_shift map_append map_map comp_def)
qed

text \<open>A tail of fewer than four elements, as the code's match on the remainder.\<close>

lemma tail_of_four:
  "m < 4 \<Longrightarrow> (if m = 1 then [f 0] else if m = 2 then [f 0, f 1] else if m = 3 then [f 0, f 1, f 2] else []) =
     map f [0..<m :: nat]"
proof -
  assume "m < 4"
  then consider "m = 0" | "m = 1" | "m = 2" | "m = 3" by linarith
  then show ?thesis by cases (simp_all add: upt_small)
qed

lemma split_stores_pos: "split_stores n = map (\<lambda>j. (pos n j, j)) [0..<n]"
proof -
  let ?f = "\<lambda>j. (pos n j, j)" and ?s = "n div 4"
  have f: "?f (4 * i) = (i, 4 * i)" "?f (4 * i + 1) = (d1 n + i, 4 * i + 1)"
    "?f (4 * i + 2) = (d2 n + i, 4 * i + 2)" "?f (4 * i + 3) = (d3 n + i, 4 * i + 3)" for i
    using pos_group [of 0 n i] pos_group [of 1 n i] pos_group [of 2 n i] pos_group [of 3 n i]
    by (simp_all add: group_start_def)
  have "n mod 4 < 4" by simp
  note tail = tail_of_four [OF this, of "\<lambda>r. ?f (4 * ?s + r)", symmetric]
  have "split_stores n = concat (map (\<lambda>i. map (\<lambda>r. ?f (4 * i + r)) [0, 1, 2, 3]) [0..<?s]) @
      map (\<lambda>r. ?f (4 * ?s + r)) [0..<n mod 4]"
    unfolding split_stores_def Let_def tail by (simp only: f add_0_right list.map)
  also have "\<dots> = map ?f [0..<n]" using blocks_of_four [of ?f ?s "n mod 4"] by simp
  finally show ?thesis .
qed

text \<open>The loads and stores of the regrouping loop, by output position.\<close>

definition regroup_stores :: "nat \<Rightarrow> (nat \<times> nat) list" where
  "regroup_stores n = map (\<lambda>j. (j, pos n j)) [0..<n]"

definition regroup_block :: "nat \<Rightarrow> nat \<Rightarrow> (nat \<times> nat) list" where
  "regroup_block n i = [(4 * i, i), (4 * i + 1, d1 n + i), (4 * i + 2, d2 n + i), (4 * i + 3, d3 n + i)]"

lemma regroup_stores_blocks:
  "concat (map (regroup_block n) [0..<n div 4]) @ regroup_tail_stores n = regroup_stores n"
proof -
  let ?f = "\<lambda>j. (j, pos n j)" and ?s = "n div 4"
  have f: "?f (4 * i) = (4 * i, i)" "?f (4 * i + 1) = (4 * i + 1, d1 n + i)"
    "?f (4 * i + 2) = (4 * i + 2, d2 n + i)" "?f (4 * i + 3) = (4 * i + 3, d3 n + i)" for i
    using pos_group [of 0 n i] pos_group [of 1 n i] pos_group [of 2 n i] pos_group [of 3 n i]
    by (simp_all add: group_start_def)
  have "n mod 4 < 4" by simp
  note tail = tail_of_four [OF this, of "\<lambda>r. ?f (4 * ?s + r)", symmetric]
  have "regroup_tail_stores n = map (\<lambda>r. ?f (4 * ?s + r)) [0..<n mod 4]"
    unfolding regroup_tail_stores_def Let_def tail by (simp only: f add_0_right)
  moreover have "regroup_block n = (\<lambda>i. map (\<lambda>r. ?f (4 * i + r)) [0, 1, 2, 3])"
    unfolding regroup_block_def by (simp only: f add_0_right list.map)
  ultimately show ?thesis
    using blocks_of_four [of ?f ?s "n mod 4"] by (simp add: regroup_stores_def)
qed

lemma copy_block_4: "copy_block (4 * i) [i, d1 n + i, d2 n + i, d3 n + i] = regroup_block n i"
proof -
  have "copy_block p [a, b, c, d] = [(p, a), (p + 1, b), (p + 2, c), (p + 3, d)]" for p a b c d
    by (simp add: copy_block_def upt_conv_Cons)
  then show ?thesis by (simp only: regroup_block_def)
qed

lemma copy_block_8:
  "copy_block (8 * i) [i * 2, d1 n + i * 2, d2 n + i * 2, d3 n + i * 2,
     i * 2 + 1, d1 n + (i * 2 + 1), d2 n + (i * 2 + 1), d3 n + (i * 2 + 1)] =
   regroup_block n (2 * i) @ regroup_block n (2 * i + 1)"
proof -
  have "copy_block p [a, b, c, d, e, f, g, h] =
      [(p, a), (p + 1, b), (p + 2, c), (p + 3, d)] @ [(p + 4, e), (p + 5, f), (p + 6, g), (p + 7, h)]"
    for p a b c d e f g h by (simp add: copy_block_def upt_conv_Cons)
  then show ?thesis by (simp add: regroup_block_def)
qed

lemma pairs_of_blocks:
  "concat (map (\<lambda>i. F (2 * i) @ F (2 * i + 1)) [0..<s div 2]) @ (if s mod 2 \<noteq> 0 then F (s - 1) else []) =
     concat (map F [0..<s])"
proof -
  have even: "concat (map (\<lambda>i. F (2 * i) @ F (2 * i + 1)) [0..<t]) = concat (map F [0..<2 * t])" for t
    by (induction t) auto
  show ?thesis
  proof (cases "s mod 2 = 0")
    case True
    then have "2 * (s div 2) = s" by presburger
    with even [of "s div 2"] True show ?thesis by simp
  next
    case False
    then obtain t where s: "s = Suc (2 * t)" by (metis mod2_eq_if oddE Suc_eq_plus1)
    with even [of t] show ?thesis by simp
  qed
qed

lemma regroup_variants:
  "regroup_together_stores n = regroup_stores n"
  "combined_write_4_stores n = regroup_stores n"
  "combined_write_8_stores n = regroup_stores n"
proof -
  show "regroup_together_stores n = regroup_stores n"
    unfolding regroup_together_stores_def Let_def regroup_block_def [symmetric] regroup_stores_blocks ..
  show "combined_write_4_stores n = regroup_stores n"
    unfolding combined_write_4_stores_def copy_block_4 regroup_stores_blocks ..
  show "combined_write_8_stores n = regroup_stores n"
    unfolding combined_write_8_stores_def Let_def copy_block_4 copy_block_8 append_assoc [symmetric]
      pairs_of_blocks regroup_stores_blocks ..
qed

lemma bg4_regroup_stores: "bg4_regroup_together g = run_stores g (regroup_stores (length g)) (replicate (length g) 0)"
  by (simp add: bg4_regroup_together_def regroup_variants)

section \<open>The permutation is one\<close>

definition group_end :: "nat \<Rightarrow> nat \<Rightarrow> nat" where
  "group_end n r = (if r = 0 then d1 n else if r = 1 then d2 n else if r = 2 then d3 n else n)"

lemma group_order: "d1 n \<le> d2 n" "d2 n \<le> d3 n" "d3 n + n div 4 = n"
proof -
  show "d1 n \<le> d2 n" "d2 n \<le> d3 n" by (simp_all add: d2_def d3_def)
  have "n = 4 * (n div 4) + n mod 4" by simp
  moreover have "min 1 (n mod 4) + min 1 (n mod 4 - 1) + min 1 (n mod 4 - 2) = n mod 4"
    by (simp add: min_def) linarith
  ultimately show "d3 n + n div 4 = n" unfolding d3_def d2_def d1_def by linarith
qed

lemma div_mod_less: "j < n \<Longrightarrow> j div 4 < n div 4 \<or> j div 4 = n div 4 \<and> j mod 4 < n mod (4 :: nat)"
  using div_mult_mod_eq [of j 4] div_mult_mod_eq [of n 4] div_le_mono [of j n 4] by linarith

lemma group_width:
  assumes "r < 4"
  shows "group_end n r = group_start n r + n div 4 + (if r < n mod 4 then 1 else 0)"
proof -
  have m: "\<not> 3 < n mod 4" by linarith
  have d: "d2 n = d1 n + n div 4 + (if 1 < n mod 4 then 1 else 0)" "d3 n = d2 n + n div 4 + (if 2 < n mod 4 then 1 else 0)"
    "d1 n = n div 4 + (if 0 < n mod 4 then 1 else 0)"
    by (simp_all add: d1_def d2_def d3_def min_def) linarith+
  consider "r = 0" | "r = 1" | "r = 2" | "r = 3" using assms by linarith
  then show ?thesis
  proof cases
    case 4
    with group_order(3) [of n] m show ?thesis by (simp add: group_start_def group_end_def)
  qed (simp_all add: group_start_def group_end_def d)
qed

lemma pos_group_bounds:
  assumes "j < n"
  shows "group_start n (j mod 4) \<le> pos n j" and "pos n j < group_end n (j mod 4)"
  using div_mod_less [OF assms] group_width [of "j mod 4" n] by (auto simp: pos_def)

lemma group_chain: "d1 n \<le> d2 n" "d2 n \<le> d3 n" "d3 n \<le> n"
  using group_order [of n] by linarith+

lemma group_end_le: "group_end n r \<le> n"
  using group_chain [of n] by (auto simp: group_end_def)

lemma pos_less: "j < n \<Longrightarrow> pos n j < n"
  using pos_group_bounds(2) [of j n] group_end_le [of n "j mod 4"] by linarith

lemma group_disjoint: "r < r' \<Longrightarrow> r' < 4 \<Longrightarrow> group_end n r \<le> group_start n r'"
  using group_chain [of n] by (auto simp: group_end_def group_start_def)

lemma pos_inj:
  assumes "j < n" "k < n" "pos n j = pos n k"
  shows "j = k"
proof -
  have "j mod 4 = k mod 4"
  proof (rule ccontr)
    assume "j mod 4 \<noteq> k mod 4"
    then have "group_end n (j mod 4) \<le> group_start n (k mod 4) \<or> group_end n (k mod 4) \<le> group_start n (j mod 4)"
      using group_disjoint [of "j mod 4" "k mod 4" n] group_disjoint [of "k mod 4" "j mod 4" n] by (cases "j mod 4 < k mod 4") auto
    with pos_group_bounds [OF assms(1)] pos_group_bounds [OF assms(2)] assms(3) show False by linarith
  qed
  moreover from this have "j div 4 = k div 4" using assms(3) by (simp add: pos_def)
  ultimately show ?thesis by (metis div_mult_mod_eq)
qed

lemma pos_surj: "p < n \<Longrightarrow> \<exists>j < n. pos n j = p"
proof -
  have "inj_on (pos n) {..<n}" by (auto intro: inj_onI pos_inj)
  moreover have "pos n ` {..<n} \<subseteq> {..<n}" by (auto simp: pos_less)
  ultimately have "pos n ` {..<n} = {..<n}" by (intro endo_inj_surj) auto
  then show "p < n \<Longrightarrow> \<exists>j < n. pos n j = p" by (metis imageE lessThan_iff)
qed

lemma split_nth:
  assumes "j < length bs"
  shows "bg4_split_together bs ! pos (length bs) j = bs ! j"
proof -
  have "q' = j" if "(pos (length bs) j, q') \<in> set (split_stores (length bs))" for q'
    using that pos_inj [of q' "length bs" j] assms by (auto simp: split_stores_pos)
  then have "run_stores bs (split_stores (length bs)) d ! pos (length bs) j = bs ! j" if "length d = length bs" for d
    using run_stores_nth [of "pos (length bs) j" "split_stores (length bs)" j d bs] assms pos_less [OF assms] that
    by (auto simp: split_stores_pos)
  then show ?thesis by (simp add: bg4_split_together_def)
qed

lemma regroup_nth:
  assumes "j < length g"
  shows "bg4_regroup_together g ! j = g ! pos (length g) j"
proof -
  have "q' = pos (length g) j" if "(j, q') \<in> set (regroup_stores (length g))" for q'
    using that by (auto simp: regroup_stores_def)
  then have "run_stores g (regroup_stores (length g)) d ! j = g ! pos (length g) j" if "length d = length g" for d
    using run_stores_nth [of j "regroup_stores (length g)" "pos (length g) j" d g] assms that
    by (auto simp: regroup_stores_def)
  then show ?thesis by (simp add: bg4_regroup_stores)
qed

lemma length_bg4 [simp]: "length (bg4_split_together bs) = length bs" "length (bg4_regroup_together g) = length g"
  by (simp_all add: bg4_split_together_def bg4_regroup_stores)

definition sep_group :: "bytes \<Rightarrow> nat \<Rightarrow> bytes" where
  "sep_group bs r = map (\<lambda>i. bs ! (4 * i + r)) [0..<length bs div 4] @
     (if r < length bs mod 4 then [bs ! (4 * (length bs div 4) + r)] else [])"

lemma separate_groups:
  "bg4_split_separate bs = [sep_group bs 0, sep_group bs 1, sep_group bs 2, sep_group bs 3]"
proof -
  have "\<not> 3 < length bs mod 4" by linarith
  then show ?thesis by (simp add: bg4_split_separate_def sep_group_def Let_def)
qed

lemma length_sep_group:
  "length (sep_group bs 0) = d1 (length bs)" "d1 (length bs) + length (sep_group bs 1) = d2 (length bs)"
  "d2 (length bs) + length (sep_group bs 2) = d3 (length bs)" "length (sep_group bs 3) = length bs div 4"
proof -
  have "\<not> 3 < length bs mod 4" by linarith
  then show "length (sep_group bs 0) = d1 (length bs)" "d1 (length bs) + length (sep_group bs 1) = d2 (length bs)"
    "d2 (length bs) + length (sep_group bs 2) = d3 (length bs)" "length (sep_group bs 3) = length bs div 4"
    by (auto simp: sep_group_def d1_def d2_def d3_def min_def)
qed

lemma sep_group_nth: "j < length bs \<Longrightarrow> sep_group bs (j mod 4) ! (j div 4) = bs ! j"
proof (cases "j div 4 < length bs div 4")
  case True
  then show ?thesis by (simp add: sep_group_def nth_append)
next
  case False
  assume "j < length bs"
  with False have d: "length bs div 4 = j div 4" "j mod 4 < length bs mod 4"
    using div_mod_less [of j "length bs"] by auto
  have "4 * (j div 4) + j mod 4 = j" by simp
  with d(2) show ?thesis by (simp only: sep_group_def d(1)) (simp add: nth_append)
qed

lemma mod4_cases: "j mod 4 = 0 \<or> j mod 4 = 1 \<or> j mod 4 = 2 \<or> j mod (4 :: nat) = 3"
  using mod_less_divisor [of 4 j] by linarith

lemma separate_nth:
  assumes "j < length bs"
  shows "bg4_split_separate bs ! (j mod 4) ! (j div 4) = bs ! j"
    and "concat (bg4_split_separate bs) ! pos (length bs) j = bs ! j"
proof -
  have g: "j mod 4 = r \<Longrightarrow> sep_group bs r ! (j div 4) = bs ! j" for r using sep_group_nth [OF assms] by auto
  show "bg4_split_separate bs ! (j mod 4) ! (j div 4) = bs ! j"
    using mod4_cases [of j] g by (auto simp: separate_groups)
  have app: "(xs @ ys) ! (length xs + i) = ys ! i" for xs ys :: bytes and i by simp
  have app1: "i < length xs \<Longrightarrow> (xs @ ys) ! i = xs ! i" for xs ys :: bytes and i by (simp add: nth_append)
  note l = length_sep_group [of bs]
  have bound: "group_start (length bs) (j mod 4) + j div 4 < group_end (length bs) (j mod 4)"
    using pos_group_bounds(2) [OF assms] by (simp add: pos_def)
  from mod4_cases [of j] show "concat (bg4_split_separate bs) ! pos (length bs) j = bs ! j"
  proof (elim disjE)
    assume r: "j mod 4 = 0"
    with bound show ?thesis
      using app1 [of "j div 4" "sep_group bs 0"] l g [OF r]
      by (simp add: separate_groups pos_def group_start_def group_end_def)
  next
    assume r: "j mod 4 = 1"
    have "concat (bg4_split_separate bs) = sep_group bs 0 @ (sep_group bs 1 @ (sep_group bs 2 @ sep_group bs 3))"
      by (simp add: separate_groups)
    with r bound show ?thesis
      using app [of "sep_group bs 0" "sep_group bs 1 @ (sep_group bs 2 @ sep_group bs 3)" "j div 4"]
        app1 [of "j div 4" "sep_group bs 1"] l g [OF r]
      by (simp add: pos_def group_start_def group_end_def)
  next
    assume r: "j mod 4 = 2"
    have "concat (bg4_split_separate bs) = (sep_group bs 0 @ sep_group bs 1) @ (sep_group bs 2 @ sep_group bs 3)"
      by (simp add: separate_groups)
    with r bound show ?thesis
      using app [of "sep_group bs 0 @ sep_group bs 1" "sep_group bs 2 @ sep_group bs 3" "j div 4"]
        app1 [of "j div 4" "sep_group bs 2"] l g [OF r]
      by (simp add: pos_def group_start_def group_end_def del: append_assoc)
  next
    assume r: "j mod 4 = 3"
    have "concat (bg4_split_separate bs) = ((sep_group bs 0 @ sep_group bs 1) @ sep_group bs 2) @ sep_group bs 3"
      by (simp add: separate_groups)
    with r show ?thesis
      using app [of "(sep_group bs 0 @ sep_group bs 1) @ sep_group bs 2" "sep_group bs 3" "j div 4"] l g [OF r]
      by (simp add: pos_def group_start_def del: append_assoc)
  qed
qed

lemma separate_eq: "concat (bg4_split_separate bs) = bg4_split_together bs"
proof (rule nth_equalityI)
  show len: "length (concat (bg4_split_separate bs)) = length (bg4_split_together bs)"
  proof -
    have "length (concat (bg4_split_separate bs)) =
        length (sep_group bs 0) + (length (sep_group bs 1) + (length (sep_group bs 2) + length (sep_group bs 3)))"
      by (simp only: separate_groups concat.simps length_append append_Nil2)
    also have "\<dots> = length bs" using group_order(3) [of "length bs"] length_sep_group [of bs] by linarith
    finally show ?thesis by simp
  qed
  fix p
  assume "p < length (concat (bg4_split_separate bs))"
  with len obtain j where "j < length bs" "p = pos (length bs) j" using pos_surj [of p "length bs"] by auto
  then show "concat (bg4_split_separate bs) ! p = bg4_split_together bs ! p"
    by (simp add: split_nth separate_nth(2))
qed

lemma regroup_separate_map:
  "bg4_regroup_separate gs = map (\<lambda>j. gs ! (j mod 4) ! (j div 4)) [0..<sum_list (map length gs)]"
proof -
  let ?n = "sum_list (map length gs)" and ?f = "\<lambda>j. gs ! (j mod 4) ! (j div 4)"
  have f: "?f (4 * i + r) = gs ! r ! i" if "r < 4" for i r using that by simp
  have "?n mod 4 < 4" by simp
  note tail = tail_of_four [OF this, of "\<lambda>r. ?f (4 * (?n div 4) + r)", symmetric]
  have "bg4_regroup_separate gs = concat (map (\<lambda>i. map (\<lambda>r. ?f (4 * i + r)) [0, 1, 2, 3]) [0..<?n div 4]) @
      map (\<lambda>r. ?f (4 * (?n div 4) + r)) [0..<?n mod 4]"
    unfolding bg4_regroup_separate_def Let_def tail using f [of 0] f [of 1] f [of 2] f [of 3] by simp
  also have "\<dots> = map ?f [0..<?n]" using blocks_of_four [of ?f "?n div 4" "?n mod 4"] by simp
  finally show ?thesis .
qed

lemma length_concat_separate: "sum_list (map length (bg4_split_separate bs)) = length bs"
  using separate_eq [of bs] by (metis length_bg4(1) length_concat)

section \<open>Properties\<close>

text \<open>
  (C24) Byte grouping is a permutation: regrouping undoes splitting and splitting undoes regrouping,
  for every length. The two regrouping routines with combined writes and the version on separate
  buffers compute the same.
\<close>

theorem bg4_inverse:
  "bg4_regroup (bg4_split bs) = bs \<and> bg4_split (bg4_regroup bs) = bs \<and>
   bg4_regroup_together_combined_write_4 bs = bg4_regroup bs \<and>
   bg4_regroup_together_combined_write_8 bs = bg4_regroup bs \<and>
   concat (bg4_split_separate bs) = bg4_split bs \<and> bg4_regroup_separate (bg4_split_separate bs) = bs"
proof (intro conjI)
  show "bg4_regroup (bg4_split bs) = bs"
    unfolding bg4_regroup_def bg4_split_def
    by (rule nth_equalityI) (simp_all add: regroup_nth split_nth)
  show "bg4_split (bg4_regroup bs) = bs"
  proof (rule nth_equalityI)
    fix p
    assume "p < length (bg4_split (bg4_regroup bs))"
    then obtain j where "j < length bs" "p = pos (length bs) j"
      using pos_surj [of p "length bs"] by (auto simp: bg4_split_def bg4_regroup_def)
    then show "bg4_split (bg4_regroup bs) ! p = bs ! p"
      using split_nth [of j "bg4_regroup_together bs"] by (simp add: bg4_split_def bg4_regroup_def regroup_nth)
  qed (simp add: bg4_split_def bg4_regroup_def)
  show "bg4_regroup_together_combined_write_4 bs = bg4_regroup bs"
    "bg4_regroup_together_combined_write_8 bs = bg4_regroup bs"
    by (simp_all add: bg4_regroup_together_combined_write_4_def bg4_regroup_together_combined_write_8_def
        bg4_regroup_def bg4_regroup_together_def regroup_variants)
  show "concat (bg4_split_separate bs) = bg4_split bs" by (simp add: separate_eq bg4_split_def)
  show "bg4_regroup_separate (bg4_split_separate bs) = bs"
    by (rule nth_equalityI) (simp_all add: regroup_separate_map length_concat_separate separate_nth(1))
qed

text \<open>
  (C25) The pointer accesses of the unsafe blocks are in bounds: every load and every store of the
  splitting loop and of the three regrouping loops is inside the buffer of \<open>n\<close> bytes, no byte is
  stored twice, and every byte of the output is stored.
\<close>

theorem bg4_accesses_in_bounds:
  "list_all (\<lambda>st. list_all (\<lambda>(p, q). p < n \<and> q < n) st \<and> distinct (map fst st) \<and> set (map fst st) = {0..<n})
     [split_stores n, regroup_together_stores n, combined_write_4_stores n, combined_write_8_stores n]"
proof -
  have inj: "inj_on (pos n) {0..<n}" by (rule inj_onI) (simp add: pos_inj)
  then have "pos n ` {0..<n} = {0..<n}" by (intro endo_inj_surj) (auto simp: pos_less)
  moreover have "map fst (split_stores n) = map (pos n) [0..<n]" "map fst (regroup_stores n) = [0..<n]"
    by (simp_all add: split_stores_pos regroup_stores_def comp_def)
  moreover have "list_all (\<lambda>(p, q). p < n \<and> q < n) (split_stores n)" "list_all (\<lambda>(p, q). p < n \<and> q < n) (regroup_stores n)"
    by (auto simp: split_stores_pos regroup_stores_def list_all_iff pos_less)
  ultimately show ?thesis
    using inj by (simp only: regroup_variants list.pred_inject) (simp add: distinct_map)
qed

end
