(* ===== verification/Bg4_Prediction.thy ===== *)
theory Bg4_Prediction
  imports Xet_Prelude
begin

unbundle bit_operations_syntax

text \<open>
  The histograms behind the choice of a compression scheme,
  \<open>xet_core_structures/src/xorb_object/byte_grouping/bg4_prediction.rs\<close>: for each position modulo
  four, how many bytes have how many one bits. The four histograms of nine counters are one list of
  36 counters, laid out as the raw pointer of the code sees them. The code counts 16 bytes at a time
  with shifts and masks on a \<open>u128\<close>; the result is shown to be that of the reference loop for every
  alignment of the data. The address of the data is only used modulo 16 and is the parameter
  \<open>n_align_bytes\<close>. The decision itself (\<open>bg4_recommended\<close>) is floating-point arithmetic on the
  counters and is not modelled.
\<close>

type_synonym u128 = "128 word"

section \<open>The code\<close>

definition count_ones_u8 :: "u8 \<Rightarrow> nat" where
  "count_ones_u8 x = length (filter (bit x) [0..<8])"

definition hist_inc :: "u32 list \<Rightarrow> nat \<Rightarrow> u32 list" where
  "hist_inc h loc = h[loc := h ! loc + 1]"

fun add_data_reference_loop :: "nat \<Rightarrow> nat \<Rightarrow> bytes \<Rightarrow> u32 list \<Rightarrow> u32 list" where
  "add_data_reference_loop offset i [] h = h"
| "add_data_reference_loop offset i (x # xs) h =
     add_data_reference_loop offset (Suc i) xs (hist_inc h ((i + offset) mod 4 * 9 + count_ones_u8 x))"

definition add_data_reference :: "u32 list \<Rightarrow> nat \<Rightarrow> bytes \<Rightarrow> u32 list" where
  "add_data_reference h offset bs = add_data_reference_loop offset 0 bs h"

fun add_data_v1_loop :: "u32 \<Rightarrow> bytes \<Rightarrow> u32 list \<Rightarrow> u32 list" where
  "add_data_v1_loop idx [] h = h"
| "add_data_v1_loop idx (x # xs) h =
     (let n_ones = of_nat (count_ones_u8 x) :: u32;
          loc = (idx mod 4) * 9 + n_ones
      in add_data_v1_loop (idx + 1) xs (hist_inc h (unat loc)))"

definition add_data_v1 :: "u32 list \<Rightarrow> nat \<Rightarrow> bytes \<Rightarrow> u32 list" where
  "add_data_v1 h offset bs = add_data_v1_loop (of_nat (offset mod 4)) bs h"

definition apply_perbyte_popcounts :: "u32 list \<Rightarrow> u128 \<Rightarrow> nat \<Rightarrow> nat \<Rightarrow> nat \<Rightarrow> u32 list" where
  "apply_perbyte_popcounts h per_byte_popcount offset lo hi =
     (let per_byte_popcnt = le_bytes 16 per_byte_popcount in
      fold (\<lambda>i h. hist_inc h ((i + offset) mod 4 * 9 + unat (per_byte_popcnt ! i))) [lo..<hi] h)"

definition M1 :: u128 where
  "M1 = 0x55555555555555555555555555555555"

definition M2 :: u128 where
  "M2 = 0x33333333333333333333333333333333"

definition M3 :: u128 where
  "M3 = 0x0F0F0F0F0F0F0F0F0F0F0F0F0F0F0F0F"

definition popcnt_u128_swar :: "u128 \<Rightarrow> u128" where
  "popcnt_u128_swar v =
     (let v = v - (drop_bit 1 v AND M1);
          v = (v AND M2) + (drop_bit 2 v AND M2)
      in (v + drop_bit 4 v) AND M3)"

text \<open>The two loops of the body: blocks of four words, then single words; then the tail.\<close>

function add_data_blocks :: "(u128 \<Rightarrow> u128) \<Rightarrow> nat \<Rightarrow> bytes \<Rightarrow> u32 list \<Rightarrow> bytes \<times> u32 list" where
  "add_data_blocks calc off bs h =
     (if 64 \<le> length bs then
        let popcnt_v = map (\<lambda>i. calc (from_le (take 16 (drop (16 * i) bs)))) [0..<4]
        in add_data_blocks calc off (drop 64 bs) (fold (\<lambda>p h. apply_perbyte_popcounts h p off 0 16) popcnt_v h)
      else (bs, h))"
  by pat_completeness auto
termination
  by (relation "measure (\<lambda>(calc, off, bs, h). length bs)") auto

function add_data_words :: "(u128 \<Rightarrow> u128) \<Rightarrow> nat \<Rightarrow> bytes \<Rightarrow> u32 list \<Rightarrow> bytes \<times> u32 list" where
  "add_data_words calc off bs h =
     (if 16 \<le> length bs then
        add_data_words calc off (drop 16 bs)
          (apply_perbyte_popcounts h (calc (from_le (take 16 bs))) off 0 16)
      else (bs, h))"
  by pat_completeness auto
termination
  by (relation "measure (\<lambda>(calc, off, bs, h). length bs)") auto

declare add_data_blocks.simps [simp del] add_data_words.simps [simp del]

definition add_data_tail :: "(u128 \<Rightarrow> u128) \<Rightarrow> nat \<Rightarrow> bytes \<Rightarrow> u32 list \<Rightarrow> u32 list" where
  "add_data_tail calc off bs h =
     apply_perbyte_popcounts h (calc (from_le (bs @ replicate (16 - length bs) 0))) off 0 (length bs)"

definition add_data_impl :: "u32 list \<Rightarrow> nat \<Rightarrow> nat \<Rightarrow> bytes \<Rightarrow> (u128 \<Rightarrow> u128) \<Rightarrow> u32 list" where
  "add_data_impl h n_align_bytes offset bs calc =
     (if bs = [] then h
      else if length bs \<le> 16 then add_data_tail calc offset bs h
      else
        let off = offset + n_align_bytes;
            (bs, h) =
              (if n_align_bytes \<noteq> 0 then
                 let head_bytes = 16 - n_align_bytes;
                     buffer = replicate head_bytes 0 @ take n_align_bytes bs
                 in (drop n_align_bytes bs, apply_perbyte_popcounts h (calc (from_le buffer)) off head_bytes 16)
               else (bs, h));
            (bs, h) = add_data_blocks calc off bs h;
            (bs, h) = add_data_words calc off bs h
        in if bs \<noteq> [] then add_data_tail calc off bs h else h)"

definition add_data_swar :: "u32 list \<Rightarrow> nat \<Rightarrow> nat \<Rightarrow> bytes \<Rightarrow> u32 list" where
  "add_data_swar h n_align_bytes offset bs = add_data_impl h n_align_bytes offset bs popcnt_u128_swar"

section \<open>Arithmetic on the bytes of an integer\<close>

fun ile :: "int list \<Rightarrow> int" where
  "ile [] = 0"
| "ile (b # bs) = b + 256 * ile bs"

definition is_byte :: "int \<Rightarrow> bool" where
  "is_byte b \<longleftrightarrow> 0 \<le> b \<and> b < 256"

lemma ile_bounds: "list_all is_byte bs \<Longrightarrow> 0 \<le> ile bs \<and> ile bs < 256 ^ length bs"
  by (induction bs) (auto simp: is_byte_def)

lemma byte_concat: "is_byte b \<Longrightarrow> b + 256 * V = concat_bit 8 b V"
  by (simp add: is_byte_def concat_bit_eq take_bit_int_eq_self push_bit_eq_mult)

lemma byte_and:
  assumes "is_byte b" "is_byte c"
  shows "(b + 256 * V) AND (c + 256 * D) = (b AND c) + 256 * (V AND D)"
proof -
  have bc: "is_byte (b AND c)"
    using assms AND_upper1 [of b c] by (auto simp: is_byte_def)
  show ?thesis
    unfolding byte_concat [OF assms(1)] byte_concat [OF assms(2)] byte_concat [OF bc]
    by (rule bit_eqI) (auto simp: bit_concat_bit_iff bit_and_iff)
qed

lemma byte_shift_and:
  assumes b: "is_byte b" and m: "0 \<le> m" "m < 2 ^ (8 - k)" and k: "k \<le> 8"
  shows "drop_bit k (b + 256 * V) AND (m + 256 * R) = (drop_bit k b AND m) + 256 * (drop_bit k V AND R)"
proof -
  have low: "i < 8 - k" if "bit m i" for i
    using that m take_bit_int_eq_self [of m "8 - k"] by (metis bit_take_bit_iff)
  have "m < 256" using m(2) power_increasing [of "8 - k" 8 "2 :: int"] by simp
  then have mb: "is_byte m" using m(1) by (simp add: is_byte_def)
  have bm: "is_byte (drop_bit k b AND m)"
    using m(1) AND_upper2 [of m "drop_bit k b"] \<open>m < 256\<close> by (simp add: is_byte_def)
  show ?thesis
    unfolding byte_concat [OF b] byte_concat [OF mb] byte_concat [OF bm]
    by (rule bit_eqI) (auto simp: bit_concat_bit_iff bit_and_iff bit_drop_bit_eq dest: low)
qed

definition s1 :: "int \<Rightarrow> int" where
  "s1 b = b - (drop_bit 1 b AND 0x55)"

definition s2 :: "int \<Rightarrow> int" where
  "s2 b = (b AND 0x33) + (drop_bit 2 b AND 0x33)"

definition s3 :: "int \<Rightarrow> int" where
  "s3 b = (b + drop_bit 4 b) AND 0x0F"

definition nice :: "int \<Rightarrow> bool" where
  "nice b \<longleftrightarrow> is_byte b \<and> b mod 16 \<le> 4 \<and> b div 16 \<le> 4"

text \<open>One byte, by evaluation of all 256 values.\<close>

lemma byte_table:
  "list_all (\<lambda>b. is_byte (s1 b) \<and> nice (s2 (s1 b)) \<and> s3 (s2 (s1 b)) = int (length (filter (bit b) [0..<8]))) [0..255]"
  by code_simp

lemma byte_steps:
  assumes "is_byte b"
  shows "is_byte (s1 b)" "nice (s2 (s1 b))" "s3 (s2 (s1 b)) = int (length (filter (bit b) [0..<8]))"
  using assms byte_table by (auto simp: list_all_iff is_byte_def)

abbreviation rep :: "int \<Rightarrow> int list \<Rightarrow> int" where
  "rep m bs \<equiv> ile (replicate (length bs) m)"

lemma step1_bytes: "list_all is_byte bs \<Longrightarrow> ile bs - (drop_bit 1 (ile bs) AND rep 0x55 bs) = ile (map s1 bs)"
proof (induction bs)
  case (Cons b bs)
  have "drop_bit 1 (b + 256 * ile bs) AND (0x55 + 256 * rep 0x55 bs) =
      (drop_bit 1 b AND 0x55) + 256 * (drop_bit 1 (ile bs) AND rep 0x55 bs)"
    using Cons.prems by (intro byte_shift_and) simp_all
  with Cons show ?case by (simp add: s1_def algebra_simps)
qed simp

lemma step2_bytes:
  "list_all is_byte bs \<Longrightarrow> (ile bs AND rep 0x33 bs) + (drop_bit 2 (ile bs) AND rep 0x33 bs) = ile (map s2 bs)"
proof (induction bs)
  case (Cons b bs)
  have "drop_bit 2 (b + 256 * ile bs) AND (0x33 + 256 * rep 0x33 bs) =
      (drop_bit 2 b AND 0x33) + 256 * (drop_bit 2 (ile bs) AND rep 0x33 bs)"
    using Cons.prems by (intro byte_shift_and) simp_all
  moreover have "(b + 256 * ile bs) AND (0x33 + 256 * rep 0x33 bs) = (b AND 0x33) + 256 * (ile bs AND rep 0x33 bs)"
    using Cons.prems by (intro byte_and) (simp_all add: is_byte_def)
  ultimately show ?case using Cons by (simp add: s2_def algebra_simps)
qed simp

lemma step3_bytes: "list_all nice bs \<Longrightarrow> (ile bs + drop_bit 4 (ile bs)) AND rep 0x0F bs = ile (map s3 bs)"
proof (induction bs)
  case (Cons b bs)
  let ?V = "ile bs"
  have b: "0 \<le> b" "b mod 16 \<le> 4" "b div 16 \<le> 4" using Cons.prems by (simp_all add: nice_def is_byte_def)
  have V: "0 \<le> ?V mod 16" "?V mod 16 \<le> 4"
  proof -
    have "ile xs mod 16 \<le> 4" if "list_all nice xs" for xs
      using that by (cases xs) (auto simp: nice_def mod_add_eq [symmetric] mod_mult_left_eq [symmetric])
    then show "?V mod 16 \<le> 4" using Cons.prems by simp
  qed simp
  let ?x = "b + b div 16 + 16 * (?V mod 16)"
  have "(b + 256 * ?V) div 16 = b div 16 + 16 * ?V" by simp
  moreover have "16 * ?V = 16 * (?V mod 16) + 256 * (?V div 16)" using mult_div_mod_eq [of 16 ?V] by linarith
  ultimately have sum: "(b + 256 * ?V) + drop_bit 4 (b + 256 * ?V) = ?x + 256 * (?V + drop_bit 4 ?V)"
    by (simp add: drop_bit_eq_div algebra_simps)
  have bsmall: "b \<le> 68" using b mult_div_mod_eq [of 16 b] by linarith
  have xb: "is_byte ?x" using b V bsmall by (simp add: is_byte_def)
  have "(?x + 256 * (?V + drop_bit 4 ?V)) AND (0x0F + 256 * rep 0x0F bs) =
      (?x AND 0x0F) + 256 * ((?V + drop_bit 4 ?V) AND rep 0x0F bs)"
    using xb by (intro byte_and) (simp_all add: is_byte_def)
  moreover have "z AND 0x0F = z mod 16" for z :: int
    using take_bit_eq_mask [of 4 z] by (simp add: take_bit_eq_mod mask_eq_exp_minus_1)
  then have "?x AND 0x0F = s3 b" by (simp add: s3_def drop_bit_eq_div) 
  ultimately show ?case using Cons by (simp only: ile.simps list.map length_Cons replicate_Suc sum) simp
qed simp

section \<open>The population counts of a word\<close>

lemma ile_snoc: "ile (xs @ [y]) = ile xs + 256 ^ length xs * y"
  by (induction xs) (simp_all add: algebra_simps)

lemma is_byte_uint: "is_byte (uint (b :: u8))"
  using uint_bounded [of b] by (simp add: is_byte_def)

lemma ile_le_bytes: "take_bit (8 * n) (uint v) = ile (map uint (le_bytes n v))"
proof (induction n)
  case (Suc n)
  let ?b = "take_bit 8 (drop_bit (8 * n) (uint v))"
  have "take_bit (8 * Suc n) (uint v) = concat_bit (8 * n) (uint v) ?b"
    by (rule bit_eqI) (auto simp: bit_concat_bit_iff bit_take_bit_iff bit_drop_bit_eq)
  also have "\<dots> = take_bit (8 * n) (uint v) + 256 ^ n * ?b"
    by (simp add: concat_bit_eq push_bit_eq_mult power_mult)
  finally have "take_bit (8 * Suc n) (uint v) = ile (map uint (le_bytes n v)) + 256 ^ n * ?b"
    by (simp only: Suc.IH)
  moreover have "uint (ucast (drop_bit (8 * n) v) :: u8) = ?b"
    by (rule bit_eqI) (auto simp: bit_simps)
  then have "map uint (le_bytes (Suc n) v) = map uint (le_bytes n v) @ [?b]"
    by (simp add: le_bytes_def)
  ultimately show ?case by (simp add: ile_snoc)
qed (simp add: le_bytes_def)

lemma uint_u128_ile: "uint (v :: u128) = ile (map uint (le_bytes 16 v))"
  using ile_le_bytes [of 16 v] uint_bounded [of v] by (simp add: take_bit_int_eq_self)

lemma ile_inj:
  "list_all is_byte xs \<Longrightarrow> list_all is_byte ys \<Longrightarrow> length xs = length ys \<Longrightarrow> ile xs = ile ys \<Longrightarrow> xs = ys"
proof (induction xs ys rule: list_induct2')
  case (4 x xs y ys)
  then have b: "is_byte x" "is_byte y" and eq: "x + 256 * ile xs = y + 256 * ile ys" by simp_all
  from b have "x = (x + 256 * ile xs) mod 256" "y = (y + 256 * ile ys) mod 256" by (simp_all add: is_byte_def)
  with eq have "x = y" by simp
  with 4 show ?case by simp
qed auto

lemma mask_reps: "length bs = 16 \<Longrightarrow> uint M1 = rep 0x55 bs" "length bs = 16 \<Longrightarrow> uint M2 = rep 0x33 bs"
  "length bs = 16 \<Longrightarrow> uint M3 = rep 0x0F bs"
proof -
  have "replicate 16 m = [m, m, m, m, m, m, m, m, m, m, m, m, m, m, m, m]" for m :: int
    by (simp add: eval_nat_numeral)
  then have rep16: "ile (replicate 16 m) = m * 0x01010101010101010101010101010101" for m by simp
  show "length bs = 16 \<Longrightarrow> uint M1 = rep 0x55 bs" "length bs = 16 \<Longrightarrow> uint M2 = rep 0x33 bs"
    "length bs = 16 \<Longrightarrow> uint M3 = rep 0x0F bs"
    by (simp_all add: rep16 M1_def M2_def M3_def)
qed

lemma ile_nice_bound: "list_all nice bs \<Longrightarrow> length bs = 16 \<Longrightarrow> ile bs < 2 ^ 127"
proof -
  have "2 * ile bs < 256 ^ length bs \<or> bs = []" if "list_all nice bs" for bs
    using that
  proof (induction bs)
    case (Cons b bs)
    have "b mod 16 \<le> 4" "b div 16 \<le> 4" using Cons.prems by (simp_all add: nice_def)
    then have "b \<le> 68" using mult_div_mod_eq [of 16 b] by linarith
    with Cons show ?case by (cases bs) auto
  qed simp
  then show "list_all nice bs \<Longrightarrow> length bs = 16 \<Longrightarrow> ile bs < 2 ^ 127" by fastforce
qed

lemma div_le_self_int: "0 \<le> x \<Longrightarrow> x div 16 \<le> (x :: int)"
  by linarith

lemma uint_drop_bit: "uint (drop_bit n (w :: u128)) = drop_bit n (uint w)"
  using uint_bounded [of w] by (simp add: unsigned_drop_bit_eq take_bit_int_eq_self)

lemma popcnt_swar_ile:
  fixes v :: u128
  defines "bs \<equiv> map uint (le_bytes 16 v)"
  shows "uint (popcnt_u128_swar v) = ile (map (\<lambda>b. s3 (s2 (s1 b))) bs)"
proof -
  have len: "length bs = 16" and bytes: "list_all is_byte bs"
    by (simp_all add: bs_def list_all_iff is_byte_uint)
  have V: "uint v = ile bs" unfolding bs_def by (rule uint_u128_ile)
  have b1: "list_all is_byte (map s1 bs)" and b2: "list_all nice (map s2 (map s1 bs))"
    using bytes by (auto simp: list_all_iff byte_steps)
  then have b2': "list_all is_byte (map s2 (map s1 bs))" by (auto simp: list_all_iff nice_def)
  have bound: "0 \<le> ile xs \<and> ile xs < 2 ^ 128" if "list_all is_byte xs" "length xs = 16" for xs
    using ile_bounds [OF that(1)] that(2) by simp
  define v1 where "v1 = v - (drop_bit 1 v AND M1)"
  define v2 where "v2 = (v1 AND M2) + (drop_bit 2 v1 AND M2)"
  have u1: "uint v1 = ile (map s1 bs)"
    using step1_bytes [OF bytes] bound [OF b1] len mask_reps(1) [OF len]
    by (simp add: v1_def uint_word_ariths unsigned_and_eq uint_drop_bit V)
  have u2: "uint v2 = ile (map s2 (map s1 bs))"
    using step2_bytes [OF b1] bound [OF b2'] len mask_reps(2) [of "map s1 bs"]
    by (simp add: v2_def uint_word_ariths unsigned_and_eq uint_drop_bit u1)
  have "uint v2 < 2 ^ 127" using ile_nice_bound [OF b2] len by (simp add: u2)
  moreover have "0 \<le> uint v2" by simp
  moreover have "drop_bit 4 (uint v2) \<le> uint v2" "0 \<le> drop_bit 4 (uint v2)"
    using \<open>0 \<le> uint v2\<close> by (simp_all add: drop_bit_eq_div div_le_self_int pos_imp_zdiv_nonneg_iff)
  ultimately have "uint (v2 + drop_bit 4 v2) = uint v2 + drop_bit 4 (uint v2)"
    by (simp add: uint_word_ariths uint_drop_bit)
  then have "uint ((v2 + drop_bit 4 v2) AND M3) = ile (map s3 (map s2 (map s1 bs)))"
    using step3_bytes [OF b2] len mask_reps(3) [of "map s2 (map s1 bs)"] by (simp add: unsigned_and_eq u2)
  then show ?thesis by (simp add: popcnt_u128_swar_def Let_def v2_def v1_def comp_def)
qed

lemma count_ones_u8_le: "count_ones_u8 b \<le> 8"
  using length_filter_le [of "bit b" "[0..<8]"] by (simp add: count_ones_u8_def)

lemma popcnt_swar_bytes:
  "le_bytes 16 (popcnt_u128_swar v) = map (\<lambda>b. of_nat (count_ones_u8 b)) (le_bytes 16 v)"
proof -
  let ?f = "\<lambda>b :: u8. of_nat (count_ones_u8 b) :: u8"
  have pc: "s3 (s2 (s1 (uint b))) = uint (?f b)" for b :: u8
  proof -
    have "bit (uint b) = bit b" by (auto simp: fun_eq_iff bit_uint_iff dest: bit_imp_le_length)
    then show ?thesis
      using byte_steps(3) [OF is_byte_uint [of b]] count_ones_u8_le [of b]
      by (simp add: count_ones_u8_def unsigned_of_nat take_bit_nat_eq_self)
  qed
  have "ile (map uint (le_bytes 16 (popcnt_u128_swar v))) = ile (map uint (map ?f (le_bytes 16 v)))"
    unfolding uint_u128_ile [symmetric] popcnt_swar_ile by (simp add: comp_def pc)
  then have "map uint (le_bytes 16 (popcnt_u128_swar v)) = map uint (map ?f (le_bytes 16 v))"
    by (intro ile_inj) (simp_all add: list_all_iff is_byte_uint)
  then show ?thesis by (rule map_injective) (auto intro: injI)
qed

section \<open>The loops\<close>

lemma apply_popcounts_fold:
  assumes "length buf = 16" and "hi \<le> 16"
  shows "apply_perbyte_popcounts h (popcnt_u128_swar (from_le buf)) off lo hi =
    fold (\<lambda>i h. hist_inc h ((i + off) mod 4 * 9 + count_ones_u8 (buf ! i))) [lo..<hi] h"
proof -
  have bytes: "le_bytes 16 (from_le buf :: u128) = buf" using assms by (intro le_bytes_from_le) simp_all
  have "unat (le_bytes 16 (popcnt_u128_swar (from_le buf)) ! i) = count_ones_u8 (buf ! i)" if "i < 16" for i
    using that assms(1) count_ones_u8_le [of "buf ! i"]
    by (simp add: popcnt_swar_bytes bytes unsigned_of_nat take_bit_nat_eq_self)
  then show ?thesis
    unfolding apply_perbyte_popcounts_def Let_def using assms(2) by (intro fold_cong) auto
qed

lemma ref_loop_fold:
  "lo + n \<le> length buf \<Longrightarrow>
     fold (\<lambda>i h. hist_inc h ((i + off) mod 4 * 9 + count_ones_u8 (buf ! i))) [lo..<lo + n] h =
     add_data_reference_loop off lo (take n (drop lo buf)) h"
proof (induction n arbitrary: lo h)
  case (Suc n)
  have "take (Suc n) (drop lo buf) = buf ! lo # take n (drop (Suc lo) buf)"
    using Suc.prems Cons_nth_drop_Suc [of lo buf, symmetric] by simp
  moreover have "[lo..<lo + Suc n] = lo # [Suc lo..<Suc lo + n]" by (simp add: upt_conv_Cons)
  ultimately show ?case using Suc.IH [of "Suc lo"] Suc.prems by (simp del: upt_Suc)
qed simp

lemma ref_loop_append:
  "add_data_reference_loop off i (xs @ ys) h =
     add_data_reference_loop off (i + length xs) ys (add_data_reference_loop off i xs h)"
  by (induction xs arbitrary: i h) simp_all

lemma ref_loop_cong:
  "(i + off) mod 4 = (i' + off') mod 4 \<Longrightarrow> add_data_reference_loop off i bs h = add_data_reference_loop off' i' bs h"
proof (induction bs arbitrary: i i' h)
  case (Cons b bs)
  then have "(Suc i + off) mod 4 = (Suc i' + off') mod 4" by (metis add_Suc mod_Suc_eq)
  with Cons show ?case by simp
qed simp

lemma ref_loop_16: "16 dvd k \<Longrightarrow> add_data_reference_loop off (i + k) bs h = add_data_reference_loop off i bs h"
proof (rule ref_loop_cong)
  assume "16 dvd k"
  then obtain m where "k = 16 * m" by (elim dvdE)
  then have "i + k + off = (i + off) + 4 * (4 * m)" by simp
  then show "(i + k + off) mod 4 = (i + off) mod 4" by (simp only: mod_mult_self2)
qed

lemma apply_ref:
  "length buf = 16 \<Longrightarrow> lo + n \<le> 16 \<Longrightarrow>
     apply_perbyte_popcounts h (popcnt_u128_swar (from_le buf)) off lo (lo + n) =
     add_data_reference_loop off lo (take n (drop lo buf)) h"
  using ref_loop_fold [of lo n buf off h] by (simp add: apply_popcounts_fold)

lemma apply_word_ref:
  "16 \<le> length bs \<Longrightarrow>
     apply_perbyte_popcounts h (popcnt_u128_swar (from_le (take 16 bs))) off 0 16 =
     add_data_reference_loop off 0 (take 16 bs) h"
  using apply_ref [of "take 16 bs" 0 16 h off] by simp

lemma tail_ref: "length bs \<le> 16 \<Longrightarrow> add_data_tail popcnt_u128_swar off bs h = add_data_reference_loop off 0 bs h"
  using apply_ref [of "bs @ replicate (16 - length bs) 0" 0 "length bs" h off] by (simp add: add_data_tail_def)

lemma ref_loop_word:
  "16 \<le> length bs \<Longrightarrow> add_data_reference_loop off 0 bs h =
     add_data_reference_loop off 0 (drop 16 bs) (add_data_reference_loop off 0 (take 16 bs) h)"
  using ref_loop_append [of off 0 "take 16 bs" "drop 16 bs" h] ref_loop_16 [of 16 off 0] by simp

lemma words_ref:
  "case add_data_words popcnt_u128_swar off bs h of (bs', h') \<Rightarrow>
     length bs' < 16 \<and> add_data_reference_loop off 0 bs' h' = add_data_reference_loop off 0 bs h"
proof (induction bs arbitrary: h rule: measure_induct_rule [of length])
  case (less bs)
  show ?case
  proof (cases "16 \<le> length bs")
    case True
    note ref_loop_word [OF True, of off h]
    with less.IH [of "drop 16 bs"] True show ?thesis
      by (subst add_data_words.simps) (simp add: apply_word_ref)
  next
    case False
    then show ?thesis by (subst add_data_words.simps) simp
  qed
qed

lemma blocks_ref:
  "case add_data_blocks popcnt_u128_swar off bs h of (bs', h') \<Rightarrow>
     add_data_reference_loop off 0 bs' h' = add_data_reference_loop off 0 bs h"
proof (induction bs arbitrary: h rule: measure_induct_rule [of length])
  case (less bs)
  show ?case
  proof (cases "64 \<le> length bs")
    case True
    have four: "[0..<4] = [0, 1, 2, 3 :: nat]" by (simp add: upt_conv_Cons)
    have "fold (\<lambda>p h. apply_perbyte_popcounts h p off 0 16)
        (map (\<lambda>i. popcnt_u128_swar (from_le (take 16 (drop (16 * i) bs)))) [0..<4]) h =
      add_data_reference_loop off 0 (take 16 (drop 48 bs)) (add_data_reference_loop off 0 (take 16 (drop 32 bs))
        (add_data_reference_loop off 0 (take 16 (drop 16 bs)) (add_data_reference_loop off 0 (take 16 bs) h)))"
      using True apply_word_ref [of bs] apply_word_ref [of "drop 16 bs"] apply_word_ref [of "drop 32 bs"]
        apply_word_ref [of "drop 48 bs"] by (simp add: four)
    moreover have "add_data_reference_loop off 0 bs h = add_data_reference_loop off 0 (drop 64 bs) \<dots>"
      using True ref_loop_word [of bs] ref_loop_word [of "drop 16 bs"] ref_loop_word [of "drop 32 bs"]
        ref_loop_word [of "drop 48 bs"] by simp
    ultimately show ?thesis
      using less.IH [of "drop 64 bs"] True by (subst add_data_blocks.simps) (simp add: Let_def del: upt_Suc)
  next
    case False
    then show ?thesis by (subst add_data_blocks.simps) simp
  qed
qed

lemma add_data_swar_ref:
  assumes "na < 16"
  shows "add_data_swar h na offset bs = add_data_reference_loop offset 0 bs h"
proof (cases "length bs \<le> 16")
  case True
  then show ?thesis by (simp add: add_data_swar_def add_data_impl_def tail_ref)
next
  case False
  let ?off = "offset + na"
  define h0 where "h0 = (if na = 0 then h else add_data_reference_loop offset 0 (take na bs) h)"
  have head: "apply_perbyte_popcounts h (popcnt_u128_swar (from_le (replicate (16 - na) 0 @ take na bs))) ?off (16 - na) 16 =
      add_data_reference_loop offset 0 (take na bs) h"
  proof -
    have "(16 - na) + na = 16" using assms by simp
    then have "apply_perbyte_popcounts h (popcnt_u128_swar (from_le (replicate (16 - na) 0 @ take na bs))) ?off (16 - na) 16 =
        add_data_reference_loop ?off (16 - na) (take na bs) h"
      using apply_ref [of "replicate (16 - na) 0 @ take na bs" "16 - na" na h ?off] False assms by simp
    also have "\<dots> = add_data_reference_loop offset 0 (take na bs) h"
    proof (rule ref_loop_cong)
      have "16 - na + (offset + na) = offset + 4 * 4" using assms by simp
      then show "(16 - na + (offset + na)) mod 4 = (0 + offset) mod 4" by (simp only: mod_mult_self2 add_0)
    qed
    finally show ?thesis .
  qed
  obtain bs1 h1 where w1: "add_data_blocks popcnt_u128_swar ?off (drop na bs) h0 = (bs1, h1)" by force
  obtain bs2 h2 where w2: "add_data_words popcnt_u128_swar ?off bs1 h1 = (bs2, h2)" by force
  have "add_data_swar h na offset bs = add_data_reference_loop ?off 0 bs2 h2"
    using False w1 w2 words_ref [of ?off bs1 h1] by (auto simp: add_data_swar_def add_data_impl_def Let_def head h0_def tail_ref)
  also have "\<dots> = add_data_reference_loop ?off 0 (drop na bs) h0"
    using words_ref [of ?off bs1 h1] blocks_ref [of ?off "drop na bs" h0] w1 w2 by simp
  also have "\<dots> = add_data_reference_loop offset na (drop na bs) h0"
    by (rule ref_loop_cong) (simp add: add.commute)
  also have "\<dots> = add_data_reference_loop offset 0 bs h"
  proof -
    have "length (take na bs) = na" using False assms by simp
    then show ?thesis
      using ref_loop_append [of offset 0 "take na bs" "drop na bs" h] by (cases "na = 0") (simp_all add: h0_def)
  qed
  finally show ?thesis .
qed

lemma add_data_v1_ref:
  "unat idx mod 4 = (i + offset) mod 4 \<Longrightarrow> add_data_v1_loop idx bs h = add_data_reference_loop offset i bs h"
proof (induction bs arbitrary: idx i h)
  case (Cons b bs)
  have "unat (idx + 1) = (unat idx + 1) mod 2 ^ 32" by (simp add: unat_word_ariths)
  then have "unat (idx + 1) mod 4 = (unat idx + 1) mod 4" by (simp add: mod_mod_cancel)
  also have "\<dots> = (Suc i + offset) mod 4" using Cons.prems by (metis Suc_eq_plus1 add_Suc mod_Suc_eq)
  finally have next_idx: "unat (idx + 1) mod 4 = (Suc i + offset) mod 4" .
  have "unat idx mod 4 < 4" by simp
  then have "unat idx mod 4 * 9 + count_ones_u8 b < 2 ^ 32" using count_ones_u8_le [of b] by simp
  then have "unat ((idx mod 4) * 9 + of_nat (count_ones_u8 b)) = (i + offset) mod 4 * 9 + count_ones_u8 b"
    using Cons.prems count_ones_u8_le [of b] \<open>unat idx mod 4 < 4\<close>
    by (simp add: unat_word_ariths unat_mod unsigned_of_nat take_bit_nat_eq_self)
  with Cons.IH [OF next_idx] show ?case by (simp add: Let_def)
qed simp

section \<open>Properties\<close>

text \<open>
  (C26) The population counts computed with shifts and masks on sixteen bytes at once are those of the
  single bytes: no carry crosses a byte.
\<close>

theorem popcnt_u128_swar_correct:
  "le_bytes 16 (popcnt_u128_swar v) = map (\<lambda>b. of_nat (count_ones_u8 b)) (le_bytes 16 v)"
  by (rule popcnt_swar_bytes)

text \<open>
  (C27) The optimised histogram update is the reference loop: for every alignment of the data, every
  starting offset and every state of the counters, \<open>add_data\<close> and the older \<open>add_data_v1\<close> leave the
  histograms that counting byte by byte leaves.
\<close>

theorem add_data_reference_eq:
  assumes "n_align_bytes < 16"
  shows "add_data_swar h n_align_bytes offset bs = add_data_reference h offset bs \<and>
    add_data_v1 h offset bs = add_data_reference h offset bs"
  using add_data_swar_ref [OF assms] add_data_v1_ref [of "of_nat (offset mod 4)" 0 offset bs h]
  by (simp add: add_data_v1_def add_data_reference_def unsigned_of_nat take_bit_nat_eq_self)

theorem add_data_reference_eq_witness:
  "add_data_swar (replicate 36 0) 3 1 [1, 255, 7] = add_data_reference (replicate 36 0) 1 [1, 255, 7]"
  using add_data_reference_eq [of 3 "replicate 36 0" 1 "[1, 255, 7]"] by simp

end
