(* ===== verification/Chunk_Format.thy ===== *)
theory Chunk_Format
  imports Byte_Grouping Bg4_Prediction Chunking Serialization_Utils
begin

text \<open>
  Compression and the chunk format of a xorb: \<open>xet_core_structures/src/xorb_object/compression_scheme.rs\<close>,
  \<open>xorb_chunk_format.rs\<close> and \<open>xorb_chunk_format/deserialize_async.rs\<close>. The LZ4 frame format is the
  parameter pair \<open>enc\<close>, \<open>dec\<close>; the decoder returns the bytes of the frame and how many bytes of its
  input it read. What the code relies on is \<open>lz4_ok\<close>: a frame is decoded to what was encoded, and the
  whole frame is read. The predictor's floating-point decision is the parameter \<open>recommended\<close>.
\<close>

section \<open>Compression schemes\<close>

type_synonym lz4_enc = "bytes \<Rightarrow> core_error + bytes"
type_synonym lz4_dec = "bytes \<Rightarrow> core_error + (bytes \<times> nat)"

definition lz4_ok :: "lz4_enc \<Rightarrow> lz4_dec \<Rightarrow> bool" where
  "lz4_ok enc dec \<longleftrightarrow> (\<forall>xs ys. enc xs = Inr ys \<longrightarrow> dec ys = Inr (xs, length ys))"

datatype compression_scheme = Scheme_None | LZ4 | ByteGrouping4LZ4 | Auto

definition scheme_as_u8 :: "compression_scheme \<Rightarrow> u8" where
  "scheme_as_u8 s = (case s of Scheme_None \<Rightarrow> 0 | LZ4 \<Rightarrow> 1 | ByteGrouping4LZ4 \<Rightarrow> 2 | Auto \<Rightarrow> 99)"

definition scheme_try_from :: "u8 \<Rightarrow> core_error + compression_scheme" where
  "scheme_try_from v =
     (if v = 0 then Inr Scheme_None else if v = 1 then Inr LZ4 else if v = 2 then Inr ByteGrouping4LZ4
      else if v = 99 then Inr Auto else Inl MalformedData)"

definition scheme_to_str :: "compression_scheme \<Rightarrow> string" where
  "scheme_to_str s =
     (case s of Auto \<Rightarrow> ''auto'' | LZ4 \<Rightarrow> ''lz4'' | ByteGrouping4LZ4 \<Rightarrow> ''bg4-lz4'' | Scheme_None \<Rightarrow> ''none'')"

definition choose_from_data :: "(u32 list \<Rightarrow> bool) \<Rightarrow> nat \<Rightarrow> bytes \<Rightarrow> compression_scheme" where
  "choose_from_data recommended n_align_bytes bs =
     (if recommended (add_data_swar (replicate 36 0) n_align_bytes 0 bs) then ByteGrouping4LZ4 else LZ4)"

definition resolve_for_data :: "(u32 list \<Rightarrow> bool) \<Rightarrow> nat \<Rightarrow> compression_scheme \<Rightarrow> bytes \<Rightarrow> compression_scheme" where
  "resolve_for_data recommended n_align_bytes s bs =
     (if s = Auto then choose_from_data recommended n_align_bytes bs else s)"

definition lz4_compress_from_slice :: "lz4_enc \<Rightarrow> bytes \<Rightarrow> core_error + bytes" where
  "lz4_compress_from_slice enc bs = enc bs"

definition bg4_lz4_compress_from_slice :: "lz4_enc \<Rightarrow> bytes \<Rightarrow> core_error + bytes" where
  "bg4_lz4_compress_from_slice enc bs = enc (bg4_split bs)"

definition compress_resolved :: "lz4_enc \<Rightarrow> compression_scheme \<Rightarrow> bytes \<Rightarrow> core_error + bytes" where
  "compress_resolved enc s bs =
     (case s of
        LZ4 \<Rightarrow> lz4_compress_from_slice enc bs
      | ByteGrouping4LZ4 \<Rightarrow> bg4_lz4_compress_from_slice enc bs
      | _ \<Rightarrow> Inr bs)"

definition compress_from_slice ::
  "(u32 list \<Rightarrow> bool) \<Rightarrow> nat \<Rightarrow> lz4_enc \<Rightarrow> compression_scheme \<Rightarrow> bytes \<Rightarrow> core_error + bytes" where
  "compress_from_slice recommended n_align_bytes enc s bs =
     (if s = Auto then compress_resolved enc (resolve_for_data recommended n_align_bytes s bs) bs
      else compress_resolved enc s bs)"

text \<open>Decompression from a reader: the bytes written and the number of bytes read.\<close>

definition lz4_decompress_from_reader :: "lz4_dec \<Rightarrow> bytes \<Rightarrow> core_error + (bytes \<times> nat)" where
  "lz4_decompress_from_reader dec rd = dec rd"

definition bg4_lz4_decompress_from_reader :: "lz4_dec \<Rightarrow> bytes \<Rightarrow> core_error + (bytes \<times> nat)" where
  "bg4_lz4_decompress_from_reader dec rd = rbind (dec rd) (\<lambda>(g, k). Inr (bg4_regroup g, k))"

definition decompress_from_reader :: "lz4_dec \<Rightarrow> compression_scheme \<Rightarrow> bytes \<Rightarrow> core_error + (bytes \<times> nat)" where
  "decompress_from_reader dec s rd =
     (case s of
        Auto \<Rightarrow> Inl MalformedData
      | Scheme_None \<Rightarrow> Inr (rd, length rd)
      | LZ4 \<Rightarrow> lz4_decompress_from_reader dec rd
      | ByteGrouping4LZ4 \<Rightarrow> bg4_lz4_decompress_from_reader dec rd)"

definition lz4_decompress_from_slice :: "lz4_dec \<Rightarrow> bytes \<Rightarrow> core_error + bytes" where
  "lz4_decompress_from_slice dec bs = rbind (lz4_decompress_from_reader dec bs) (\<lambda>(dest, _). Inr dest)"

definition bg4_lz4_decompress_from_slice :: "lz4_dec \<Rightarrow> bytes \<Rightarrow> core_error + bytes" where
  "bg4_lz4_decompress_from_slice dec bs = rbind (bg4_lz4_decompress_from_reader dec bs) (\<lambda>(dest, _). Inr dest)"

definition decompress_from_slice :: "lz4_dec \<Rightarrow> compression_scheme \<Rightarrow> bytes \<Rightarrow> core_error + bytes" where
  "decompress_from_slice dec s bs =
     (case s of
        Auto \<Rightarrow> Inl MalformedData
      | Scheme_None \<Rightarrow> Inr bs
      | LZ4 \<Rightarrow> lz4_decompress_from_slice dec bs
      | ByteGrouping4LZ4 \<Rightarrow> bg4_lz4_decompress_from_slice dec bs)"

section \<open>The chunk header\<close>

definition XORB_OBJECT_FORMAT_IDENT :: bytes where
  "XORB_OBJECT_FORMAT_IDENT = [88, 69, 84, 66, 76, 79, 66]"

definition XORB_CHUNK_HEADER_LENGTH :: nat where
  "XORB_CHUNK_HEADER_LENGTH = 8"

definition CURRENT_VERSION :: u8 where
  "CURRENT_VERSION = 0"

definition MAX_CHUNK_SIZE :: nat where
  "MAX_CHUNK_SIZE = TARGET_CHUNK_SIZE * MAXIMUM_CHUNK_MULTIPLIER"

record xorb_chunk_header =
  ch_version :: u8
  ch_compressed_length :: bytes
  ch_compression_scheme :: u8
  ch_uncompressed_length :: bytes

definition copy_three_byte_num :: "u32 \<Rightarrow> bytes" where
  "copy_three_byte_num num = take 3 (le_bytes 4 num)"

definition convert_three_byte_num :: "bytes \<Rightarrow> u32" where
  "convert_three_byte_num buf = from_le (buf @ [0])"

definition get_compressed_length :: "xorb_chunk_header \<Rightarrow> u32" where
  "get_compressed_length h = convert_three_byte_num (ch_compressed_length h)"

definition get_uncompressed_length :: "xorb_chunk_header \<Rightarrow> u32" where
  "get_uncompressed_length h = convert_three_byte_num (ch_uncompressed_length h)"

definition get_compression_scheme :: "xorb_chunk_header \<Rightarrow> core_error + compression_scheme" where
  "get_compression_scheme h = scheme_try_from (ch_compression_scheme h)"

definition chunk_header_new :: "compression_scheme \<Rightarrow> u32 \<Rightarrow> u32 \<Rightarrow> xorb_chunk_header" where
  "chunk_header_new s compressed_length uncompressed_length =
     \<lparr>ch_version = CURRENT_VERSION, ch_compressed_length = copy_three_byte_num compressed_length,
      ch_compression_scheme = scheme_as_u8 s, ch_uncompressed_length = copy_three_byte_num uncompressed_length\<rparr>"

definition validate_header :: "xorb_chunk_header \<Rightarrow> core_error + unit" where
  "validate_header h =
     rbind (get_compression_scheme h) (\<lambda>_.
       if CURRENT_VERSION < ch_version h then Inl MalformedData
       else if MAX_CHUNK_SIZE * 2 < unat (get_compressed_length h) then Inl MalformedData
       else if MAX_CHUNK_SIZE < unat (get_uncompressed_length h) then Inl MalformedData
       else Inr ())"

definition write_chunk_header :: "xorb_chunk_header \<Rightarrow> bytes" where
  "write_chunk_header h =
     [ch_version h] @ ch_compressed_length h @ [ch_compression_scheme h] @ ch_uncompressed_length h"

text \<open>\<open>transmute_copy\<close> of the eight bytes to the packed struct.\<close>

definition parse_chunk_header :: "bytes \<Rightarrow> core_error + xorb_chunk_header" where
  "parse_chunk_header buf =
     (if take (length XORB_OBJECT_FORMAT_IDENT) buf = XORB_OBJECT_FORMAT_IDENT then Inl ChunkHeaderParse
      else
        let h = \<lparr>ch_version = buf ! 0, ch_compressed_length = slice buf 1 4,
                 ch_compression_scheme = buf ! 4, ch_uncompressed_length = slice buf 5 8\<rparr>
        in rbind (validate_header h) (\<lambda>_. Inr h))"

section \<open>Chunks\<close>

text \<open>The bytes written and the number the function returns.\<close>

definition serialize_chunk ::
  "(u32 list \<Rightarrow> bool) \<Rightarrow> nat \<Rightarrow> lz4_enc \<Rightarrow> bytes \<Rightarrow> compression_scheme \<Rightarrow> core_error + (bytes \<times> nat)" where
  "serialize_chunk recommended n_align_bytes enc bs scheme =
     (let scheme = resolve_for_data recommended n_align_bytes scheme bs in
      if scheme = Auto then Inl MalformedData
      else
        rbind (compress_from_slice recommended n_align_bytes enc scheme bs) (\<lambda>compressed.
          let (scheme, compressed) =
                (if length bs \<le> length compressed then (Scheme_None, bs) else (scheme, compressed));
              h = chunk_header_new scheme (of_nat (length compressed)) (of_nat (length bs))
          in Inr (write_chunk_header h @ compressed, XORB_CHUNK_HEADER_LENGTH + length compressed)))"

definition deserialize_chunk_header :: "bytes \<Rightarrow> core_error + (xorb_chunk_header \<times> bytes)" where
  "deserialize_chunk_header rd =
     rbind (lift_io (read_exact XORB_CHUNK_HEADER_LENGTH rd)) (\<lambda>(buf, rd).
       rbind (parse_chunk_header buf) (\<lambda>h. Inr (h, rd)))"

text \<open>
  The reader is limited to the compressed length (\<open>Read::take\<close>); what the decompressor leaves unread
  stays in the underlying reader. The result is the bytes written, the two sizes and the rest.
\<close>

definition deserialize_chunk_with_header_to_writer ::
  "lz4_dec \<Rightarrow> bytes \<Rightarrow> xorb_chunk_header \<Rightarrow> core_error + (bytes \<times> nat \<times> u32 \<times> bytes)" where
  "deserialize_chunk_with_header_to_writer dec rd h =
     (let n = unat (get_compressed_length h) in
      rbind (get_compression_scheme h) (\<lambda>scheme.
      rbind (decompress_from_reader dec scheme (take n rd)) (\<lambda>(out, k).
        if length out \<noteq> unat (get_uncompressed_length h) then Inl MalformedData
        else Inr (out, n + XORB_CHUNK_HEADER_LENGTH, of_nat (length out), drop k (take n rd) @ drop n rd))))"

definition deserialize_chunk_to_writer :: "lz4_dec \<Rightarrow> bytes \<Rightarrow> core_error + (bytes \<times> nat \<times> u32 \<times> bytes)" where
  "deserialize_chunk_to_writer dec rd =
     rbind (deserialize_chunk_header rd) (\<lambda>(h, rd). deserialize_chunk_with_header_to_writer dec rd h)"

definition deserialize_chunk :: "lz4_dec \<Rightarrow> bytes \<Rightarrow> core_error + (bytes \<times> nat \<times> u32 \<times> bytes)" where
  "deserialize_chunk dec rd = deserialize_chunk_to_writer dec rd"

text \<open>\<open>Ok(None)\<close> at the end of the input; a header cut short is an \<open>UnexpectedEof\<close>.\<close>

definition try_read_chunk_header :: "bytes \<Rightarrow> core_error + (xorb_chunk_header option \<times> bytes)" where
  "try_read_chunk_header rd =
     (if rd = [] then Inr (None, [])
      else rbind (lift_io (read_exact XORB_CHUNK_HEADER_LENGTH rd)) (\<lambda>(buf, rd).
             rbind (parse_chunk_header buf) (\<lambda>h. Inr (Some h, rd))))"

lemma try_read_chunk_header_shorter:
  "try_read_chunk_header rd = Inr (Some h, rest) \<Longrightarrow> length rest < length rd"
  by (auto simp: try_read_chunk_header_def read_exact_def XORB_CHUNK_HEADER_LENGTH_def rbind_def lift_io_def
      split: if_splits sum.splits)

lemma deserialize_with_header_shorter:
  "deserialize_chunk_with_header_to_writer dec rd h = Inr (out, n, u, rest) \<Longrightarrow> length rest \<le> length rd"
  by (auto simp: deserialize_chunk_with_header_to_writer_def Let_def rbind_def split: if_splits sum.splits)

text \<open>The loop over the chunks: the data, the compressed size and the indices written so far.\<close>

function deserialize_chunks_loop ::
  "lz4_dec \<Rightarrow> bytes \<Rightarrow> bytes \<Rightarrow> nat \<Rightarrow> u32 \<Rightarrow> u32 list \<Rightarrow> core_error + (bytes \<times> nat \<times> u32 list)" where
  "deserialize_chunks_loop dec rd out num_compressed num_uncompressed idxs =
     (case try_read_chunk_header rd of
        Inl e \<Rightarrow> Inl e
      | Inr (None, _) \<Rightarrow> Inr (out, num_compressed, idxs)
      | Inr (Some h, rd1) \<Rightarrow>
          (case deserialize_chunk_with_header_to_writer dec rd1 h of
             Inl e \<Rightarrow> Inl e
           | Inr (bs, delta, len, rd2) \<Rightarrow>
               deserialize_chunks_loop dec rd2 (out @ bs) (num_compressed + delta) (num_uncompressed + len)
                 (idxs @ [num_uncompressed + len])))"
  by pat_completeness auto
termination
  by (relation "measure (\<lambda>(dec, rd, _). length rd)")
    (auto dest!: try_read_chunk_header_shorter deserialize_with_header_shorter)

declare deserialize_chunks_loop.simps [simp del]

definition deserialize_chunks_to_writer :: "lz4_dec \<Rightarrow> bytes \<Rightarrow> core_error + (bytes \<times> nat \<times> u32 list)" where
  "deserialize_chunks_to_writer dec rd = deserialize_chunks_loop dec rd [] 0 0 [0]"

definition deserialize_chunks :: "lz4_dec \<Rightarrow> bytes \<Rightarrow> core_error + (bytes \<times> u32 list)" where
  "deserialize_chunks dec rd = rbind (deserialize_chunks_to_writer dec rd) (\<lambda>(buf, _, idxs). Inr (buf, idxs))"

definition append_chunk_segment :: "bytes \<Rightarrow> u32 list \<Rightarrow> bytes \<Rightarrow> u32 list \<Rightarrow> bytes \<times> u32 list" where
  "append_chunk_segment all_data all_chunk_indices segment_data segment_indices =
     (let base_offset = of_nat (length all_data) :: u32 in
      (all_data @ segment_data,
       if all_chunk_indices = [] then segment_indices
       else all_chunk_indices @ map (\<lambda>i. i + base_offset) (drop 1 segment_indices)))"

text \<open>The asynchronous reader takes the whole compressed block before it decompresses it.\<close>

definition deserialize_chunk_with_header_async ::
  "lz4_dec \<Rightarrow> bytes \<Rightarrow> xorb_chunk_header \<Rightarrow> core_error + (bytes \<times> nat \<times> u32 \<times> bytes)" where
  "deserialize_chunk_with_header_async dec rd h =
     (let n = unat (get_compressed_length h) in
      rbind (lift_io (read_exact n rd)) (\<lambda>(compressed_data, rd).
      rbind (get_compression_scheme h) (\<lambda>scheme.
      rbind (decompress_from_slice dec scheme compressed_data) (\<lambda>out.
        if length out \<noteq> unat (get_uncompressed_length h) then Inl MalformedData
        else Inr (out, n + XORB_CHUNK_HEADER_LENGTH, of_nat (length out), rd)))))"

definition deserialize_chunk_to_writer_async :: "lz4_dec \<Rightarrow> bytes \<Rightarrow> core_error + (bytes \<times> nat \<times> u32 \<times> bytes)" where
  "deserialize_chunk_to_writer_async dec rd =
     rbind (deserialize_chunk_header rd) (\<lambda>(h, rd). deserialize_chunk_with_header_async dec rd h)"

lemma deserialize_async_shorter:
  "deserialize_chunk_with_header_async dec rd h = Inr (out, n, u, rest) \<Longrightarrow> length rest \<le> length rd"
  by (auto simp: deserialize_chunk_with_header_async_def Let_def rbind_def lift_io_def read_exact_def
      split: if_splits sum.splits)

function deserialize_chunks_loop_async ::
  "lz4_dec \<Rightarrow> bytes \<Rightarrow> bytes \<Rightarrow> nat \<Rightarrow> u32 \<Rightarrow> u32 list \<Rightarrow> core_error + (bytes \<times> nat \<times> u32 list)" where
  "deserialize_chunks_loop_async dec rd out num_compressed num_uncompressed idxs =
     (case try_read_chunk_header rd of
        Inl e \<Rightarrow> Inl e
      | Inr (None, _) \<Rightarrow> Inr (out, num_compressed, idxs)
      | Inr (Some h, rd1) \<Rightarrow>
          (case deserialize_chunk_with_header_async dec rd1 h of
             Inl e \<Rightarrow> Inl e
           | Inr (bs, delta, len, rd2) \<Rightarrow>
               deserialize_chunks_loop_async dec rd2 (out @ bs) (num_compressed + delta) (num_uncompressed + len)
                 (idxs @ [num_uncompressed + len])))"
  by pat_completeness auto
termination
  by (relation "measure (\<lambda>(dec, rd, _). length rd)")
    (auto dest!: try_read_chunk_header_shorter deserialize_async_shorter)

declare deserialize_chunks_loop_async.simps [simp del]

definition deserialize_chunks_to_writer_from_async_read ::
  "lz4_dec \<Rightarrow> bytes \<Rightarrow> core_error + (bytes \<times> nat \<times> u32 list)" where
  "deserialize_chunks_to_writer_from_async_read dec rd = deserialize_chunks_loop_async dec rd [] 0 0 [0]"

definition deserialize_chunks_from_async_read :: "lz4_dec \<Rightarrow> bytes \<Rightarrow> core_error + (bytes \<times> u32 list)" where
  "deserialize_chunks_from_async_read dec rd =
     rbind (deserialize_chunks_to_writer_from_async_read dec rd) (\<lambda>(buf, _, idxs). Inr (buf, idxs))"

section \<open>The header is read back\<close>

lemma length_three_byte [simp]: "length (copy_three_byte_num w) = 3"
  by (simp add: copy_three_byte_num_def)

lemma three_byte_roundtrip:
  assumes "unat w < 2 ^ 24"
  shows "convert_three_byte_num (copy_three_byte_num w) = w"
proof -
  have "unat (drop_bit 24 w) = unat w div 2 ^ 24" by (simp add: drop_bit_eq_div unat_div)
  then have "drop_bit 24 w = 0" using assms by (simp add: unat_eq_zero)
  then have "le_bytes 4 w ! 3 = 0" by (simp add: le_bytes_def)
  moreover have "le_bytes 4 w = take 3 (le_bytes 4 w) @ [le_bytes 4 w ! 3]"
    using take_Suc_conv_app_nth [of 3 "le_bytes 4 w"] by simp
  ultimately have "copy_three_byte_num w @ [0] = le_bytes 4 w" by (simp add: copy_three_byte_num_def)
  then show ?thesis by (simp add: convert_three_byte_num_def from_le_le_bytes)
qed

lemma scheme_roundtrip [simp]: "scheme_try_from (scheme_as_u8 s) = Inr s"
  by (cases s) (simp_all add: scheme_try_from_def scheme_as_u8_def)

lemma MAX_CHUNK_SIZE_val: "MAX_CHUNK_SIZE = 131072"
  by (simp add: MAX_CHUNK_SIZE_def TARGET_CHUNK_SIZE_def MAXIMUM_CHUNK_MULTIPLIER_def)

lemma length_write_chunk_header [simp]: "length (write_chunk_header (chunk_header_new s c u)) = 8"
  by (simp add: write_chunk_header_def chunk_header_new_def)

lemma header_lengths:
  assumes "c \<le> 2 * MAX_CHUNK_SIZE" and "u \<le> MAX_CHUNK_SIZE"
  shows "unat (get_compressed_length (chunk_header_new s (of_nat c) (of_nat u))) = c"
    "unat (get_uncompressed_length (chunk_header_new s (of_nat c) (of_nat u))) = u"
    "get_compression_scheme (chunk_header_new s (of_nat c) (of_nat u)) = Inr s"
  using assms three_byte_roundtrip [of "of_nat c"] three_byte_roundtrip [of "of_nat u"]
  by (simp_all add: get_compressed_length_def get_uncompressed_length_def get_compression_scheme_def
      chunk_header_new_def MAX_CHUNK_SIZE_val)

lemma parse_written_header:
  assumes "c \<le> 2 * MAX_CHUNK_SIZE" and "u \<le> MAX_CHUNK_SIZE"
  shows "parse_chunk_header (write_chunk_header (chunk_header_new s (of_nat c) (of_nat u))) =
    Inr (chunk_header_new s (of_nat c) (of_nat u))"
proof -
  let ?h = "chunk_header_new s (of_nat c) (of_nat u)"
  obtain a1 a2 a3 where a: "copy_three_byte_num (of_nat c) = [a1, a2, a3]"
    using length_three_byte [of "of_nat c"] by (metis (no_types) length_0_conv length_Suc_conv numeral_3_eq_3)
  obtain b1 b2 b3 where b: "copy_three_byte_num (of_nat u) = [b1, b2, b3]"
    using length_three_byte [of "of_nat u"] by (metis (no_types) length_0_conv length_Suc_conv numeral_3_eq_3)
  have w: "write_chunk_header ?h = [0, a1, a2, a3, scheme_as_u8 s, b1, b2, b3]"
    by (simp add: write_chunk_header_def chunk_header_new_def a b CURRENT_VERSION_def)
  have h: "\<lparr>ch_version = 0, ch_compressed_length = [a1, a2, a3], ch_compression_scheme = scheme_as_u8 s,
      ch_uncompressed_length = [b1, b2, b3]\<rparr> = ?h"
    by (simp add: chunk_header_new_def a b CURRENT_VERSION_def)
  have "validate_header ?h = Inr ()"
    using assms header_lengths [OF assms, of s]
    by (simp add: validate_header_def) (simp add: chunk_header_new_def)
  then show ?thesis
    unfolding parse_chunk_header_def w Let_def
    by (simp add: XORB_OBJECT_FORMAT_IDENT_def slice_def h)
qed

lemma try_read_written_header:
  assumes "c \<le> 2 * MAX_CHUNK_SIZE" and "u \<le> MAX_CHUNK_SIZE"
  shows "try_read_chunk_header (write_chunk_header (chunk_header_new s (of_nat c) (of_nat u)) @ rest) =
      Inr (Some (chunk_header_new s (of_nat c) (of_nat u)), rest)"
    and "deserialize_chunk_header (write_chunk_header (chunk_header_new s (of_nat c) (of_nat u)) @ rest) =
      Inr (chunk_header_new s (of_nat c) (of_nat u), rest)"
proof -
  let ?w = "write_chunk_header (chunk_header_new s (of_nat c) (of_nat u))"
  have ne: "?w @ rest \<noteq> []" using length_write_chunk_header [of s "of_nat c" "of_nat u"] by (metis append_is_Nil_conv list.size(3) zero_neq_numeral)
  have rd: "read_exact XORB_CHUNK_HEADER_LENGTH (?w @ rest) = Inr (?w, rest)"
    by (simp add: XORB_CHUNK_HEADER_LENGTH_def reader_simps)
  show "try_read_chunk_header (?w @ rest) = Inr (Some (chunk_header_new s (of_nat c) (of_nat u)), rest)"
    using ne by (simp add: try_read_chunk_header_def rd parse_written_header [OF assms])
  show "deserialize_chunk_header (?w @ rest) = Inr (chunk_header_new s (of_nat c) (of_nat u), rest)"
    by (simp add: deserialize_chunk_header_def rd parse_written_header [OF assms])
qed

section \<open>A chunk is read back\<close>

lemma bg4_regroup_split: "bg4_regroup (bg4_split bs) = bs"
  unfolding bg4_regroup_def bg4_split_def by (rule nth_equalityI) (simp_all add: regroup_nth split_nth)

lemma decompress_compressed:
  assumes "lz4_ok enc dec" and "compress_resolved enc s bs = Inr ys" and "s \<noteq> Auto"
  shows "decompress_from_reader dec s ys = Inr (bs, length ys)" "decompress_from_slice dec s ys = Inr bs"
  using assms
  by (auto simp: lz4_ok_def compress_resolved_def decompress_from_reader_def decompress_from_slice_def
      lz4_compress_from_slice_def bg4_lz4_compress_from_slice_def lz4_decompress_from_reader_def
      bg4_lz4_decompress_from_reader_def lz4_decompress_from_slice_def bg4_lz4_decompress_from_slice_def
      bg4_regroup_split split: compression_scheme.splits)

text \<open>What a serialized chunk looks like.\<close>

lemma serialize_chunk_form:
  assumes "lz4_ok enc dec" and "serialize_chunk rec na enc bs s = Inr (ser, n)"
  obtains s' ys where "ser = write_chunk_header (chunk_header_new s' (of_nat (length ys)) (of_nat (length bs))) @ ys"
    "n = 8 + length ys" "length ys \<le> length bs"
    "decompress_from_reader dec s' ys = Inr (bs, length ys)" "decompress_from_slice dec s' ys = Inr bs"
proof -
  let ?s = "resolve_for_data rec na s bs"
  have auto: "?s \<noteq> Auto"
    using assms(2) by (auto simp: serialize_chunk_def Let_def split: if_splits)
  then obtain ys where ys: "compress_resolved enc ?s bs = Inr ys"
    using assms(2) by (auto simp: serialize_chunk_def Let_def compress_from_slice_def rbind_def split: if_splits sum.splits)
  show thesis
  proof (cases "length bs \<le> length ys")
    case True
    then show thesis
      using assms(2) auto ys
      by (intro that [of Scheme_None bs]) (auto simp: serialize_chunk_def Let_def compress_from_slice_def
          XORB_CHUNK_HEADER_LENGTH_def decompress_from_reader_def decompress_from_slice_def)
  next
    case False
    then show thesis
      using assms(2) auto ys decompress_compressed [OF assms(1) ys auto]
      by (intro that [of ?s ys]) (auto simp: serialize_chunk_def Let_def compress_from_slice_def XORB_CHUNK_HEADER_LENGTH_def)
  qed
qed

lemma deserialize_serialized:
  assumes ok: "lz4_ok enc dec" and len: "length bs \<le> MAX_CHUNK_SIZE" and ser: "serialize_chunk rec na enc bs s = Inr (ser, n)"
  obtains h where "try_read_chunk_header (ser @ rest) = Inr (Some h, drop 8 ser @ rest)"
    "deserialize_chunk_header (ser @ rest) = Inr (h, drop 8 ser @ rest)"
    "deserialize_chunk_with_header_to_writer dec (drop 8 ser @ rest) h = Inr (bs, n, of_nat (length bs), rest)"
    "deserialize_chunk_with_header_async dec (drop 8 ser @ rest) h = Inr (bs, n, of_nat (length bs), rest)"
    "n = length ser" "n \<le> 8 + length bs"
proof -
  obtain s' ys where f: "ser = write_chunk_header (chunk_header_new s' (of_nat (length ys)) (of_nat (length bs))) @ ys"
    "n = 8 + length ys" "length ys \<le> length bs"
    "decompress_from_reader dec s' ys = Inr (bs, length ys)" "decompress_from_slice dec s' ys = Inr bs"
    using serialize_chunk_form [OF ok ser] by metis
  let ?h = "chunk_header_new s' (of_nat (length ys)) (of_nat (length bs))"
  have "length ys \<le> 2 * MAX_CHUNK_SIZE" using f(3) len by simp
  note hl = header_lengths [OF this len, of s'] and hr = try_read_written_header [OF this len, of s' "ys @ rest"]
  have d: "drop 8 ser = ys" by (simp add: f(1))
  show thesis
  proof (rule that [of ?h])
    show "try_read_chunk_header (ser @ rest) = Inr (Some ?h, drop 8 ser @ rest)"
      "deserialize_chunk_header (ser @ rest) = Inr (?h, drop 8 ser @ rest)"
      using hr by (simp_all add: d) (simp_all add: f(1))
    show "deserialize_chunk_with_header_to_writer dec (drop 8 ser @ rest) ?h = Inr (bs, n, of_nat (length bs), rest)"
      by (simp add: d deserialize_chunk_with_header_to_writer_def Let_def hl f(2,4) XORB_CHUNK_HEADER_LENGTH_def)
    show "deserialize_chunk_with_header_async dec (drop 8 ser @ rest) ?h = Inr (bs, n, of_nat (length bs), rest)"
      by (simp add: d deserialize_chunk_with_header_async_def Let_def hl f(2,5) XORB_CHUNK_HEADER_LENGTH_def reader_simps)
    show "n = length ser" "n \<le> 8 + length bs" using f by simp_all
  qed
qed

section \<open>A sequence of chunks is read back\<close>

fun serialize_chunks ::
  "(u32 list \<Rightarrow> bool) \<Rightarrow> nat \<Rightarrow> lz4_enc \<Rightarrow> compression_scheme \<Rightarrow> bytes list \<Rightarrow> core_error + bytes" where
  "serialize_chunks rec na enc s [] = Inr []"
| "serialize_chunks rec na enc s (c # cs) =
     rbind (serialize_chunk rec na enc c s) (\<lambda>(ser, _).
     rbind (serialize_chunks rec na enc s cs) (\<lambda>rest. Inr (ser @ rest)))"

text \<open>The byte index behind each chunk.\<close>

fun chunk_indices :: "u32 \<Rightarrow> bytes list \<Rightarrow> u32 list" where
  "chunk_indices start [] = []"
| "chunk_indices start (c # cs) = (start + of_nat (length c)) # chunk_indices (start + of_nat (length c)) cs"

lemma deserialize_loops_serialized:
  assumes ok: "lz4_ok enc dec"
  shows "list_all (\<lambda>c. length c \<le> MAX_CHUNK_SIZE) cs \<Longrightarrow> serialize_chunks rec na enc s cs = Inr ser \<Longrightarrow>
    deserialize_chunks_loop dec ser out nc u idxs = Inr (out @ concat cs, nc + length ser, idxs @ chunk_indices u cs) \<and>
    deserialize_chunks_loop_async dec ser out nc u idxs = Inr (out @ concat cs, nc + length ser, idxs @ chunk_indices u cs)"
proof (induction cs arbitrary: ser out nc u idxs)
  case Nil
  then show ?case
    by (simp add: deserialize_chunks_loop.simps [of dec "[]"] deserialize_chunks_loop_async.simps [of dec "[]"]
        try_read_chunk_header_def)
next
  case (Cons c cs)
  obtain w n where w: "serialize_chunk rec na enc c s = Inr (w, n)"
    using Cons.prems(2) by (auto simp: rbind_def split: sum.splits)
  then obtain rest where rest: "serialize_chunks rec na enc s cs = Inr rest" and ser: "ser = w @ rest"
    using Cons.prems(2) by (auto simp: rbind_def split: sum.splits)
  have len: "length c \<le> MAX_CHUNK_SIZE" using Cons.prems(1) by simp
  obtain h where h: "try_read_chunk_header (w @ rest) = Inr (Some h, drop 8 w @ rest)"
    "deserialize_chunk_with_header_to_writer dec (drop 8 w @ rest) h = Inr (c, n, of_nat (length c), rest)"
    "deserialize_chunk_with_header_async dec (drop 8 w @ rest) h = Inr (c, n, of_nat (length c), rest)"
    "n = length w"
    using deserialize_serialized [OF ok len w, of rest] by metis
  show ?case
    unfolding ser using Cons.IH [OF _ rest] Cons.prems(1) h
    by (simp add: deserialize_chunks_loop.simps [of dec "w @ rest"] deserialize_chunks_loop_async.simps [of dec "w @ rest"] add.assoc)
qed

section \<open>Properties\<close>

text \<open>
  A chunk of at most the maximum size that was serialized, under any requested scheme (also one
  chosen from the data), is read back exactly, by the synchronous and by the asynchronous reader, with
  the sizes the writer reported, and the reader is left behind the chunk. Compression never makes a
  chunk more than its header longer.
\<close>

lemma chunk_roundtrip:
  assumes "lz4_ok enc dec" and "length bs \<le> MAX_CHUNK_SIZE"
    and "serialize_chunk recommended n_align_bytes enc bs scheme = Inr (ser, n)"
  shows "n = length ser \<and> n \<le> XORB_CHUNK_HEADER_LENGTH + length bs \<and>
    deserialize_chunk dec (ser @ rest) = Inr (bs, n, of_nat (length bs), rest) \<and>
    deserialize_chunk_to_writer_async dec (ser @ rest) = Inr (bs, n, of_nat (length bs), rest)"
proof -
  obtain h where "deserialize_chunk_header (ser @ rest) = Inr (h, drop 8 ser @ rest)"
    "deserialize_chunk_with_header_to_writer dec (drop 8 ser @ rest) h = Inr (bs, n, of_nat (length bs), rest)"
    "deserialize_chunk_with_header_async dec (drop 8 ser @ rest) h = Inr (bs, n, of_nat (length bs), rest)"
    "n = length ser" "n \<le> 8 + length bs"
    using deserialize_serialized [OF assms, of rest] by metis
  then show ?thesis
    by (simp add: deserialize_chunk_def deserialize_chunk_to_writer_def deserialize_chunk_to_writer_async_def
        XORB_CHUNK_HEADER_LENGTH_def)
qed

text \<open>
  A concrete codec with the law: a run of fewer than 256 zero bytes becomes a marker and its length, any
  other input is stored behind a marker.
\<close>

definition run_enc :: lz4_enc where
  "run_enc xs =
     Inr (if xs = replicate (length xs) 0 \<and> length xs < 256 then [0, of_nat (length xs)] else 1 # xs)"

definition run_dec :: lz4_dec where
  "run_dec ys =
     (case ys of
        [] \<Rightarrow> Inl MalformedData
      | m # zs \<Rightarrow>
          if m = 1 then Inr (zs, length ys)
          else (case zs of [] \<Rightarrow> Inl MalformedData | k # _ \<Rightarrow> Inr (replicate (unat k) 0, 2)))"

lemma run_codec_ok: "lz4_ok run_enc run_dec"
proof -
  have "replicate (unat (of_nat (length xs) :: u8)) 0 = xs" if "xs = replicate (length xs) 0" "length xs < 256" for xs :: bytes
  proof -
    have "unat (of_nat (length xs) :: u8) = length xs" using that(2) by (simp add: unsigned_of_nat take_bit_nat_eq_self)
    then show ?thesis using that(1) by argo
  qed
  then show ?thesis by (simp add: lz4_ok_def run_enc_def run_dec_def)
qed

text \<open>
  (C28) A sequence of serialized chunks is read back whole by both readers: the concatenated data, the
  number of bytes read and, behind a leading 0, the byte index of the end of each chunk.
\<close>

theorem chunks_roundtrip:
  assumes "lz4_ok enc dec" and "list_all (\<lambda>c. length c \<le> MAX_CHUNK_SIZE) cs"
    and "serialize_chunks recommended n_align_bytes enc scheme cs = Inr ser"
  shows "deserialize_chunks_to_writer dec ser = Inr (concat cs, length ser, 0 # chunk_indices 0 cs) \<and>
    deserialize_chunks_to_writer_from_async_read dec ser = Inr (concat cs, length ser, 0 # chunk_indices 0 cs) \<and>
    deserialize_chunks dec ser = Inr (concat cs, 0 # chunk_indices 0 cs) \<and>
    deserialize_chunks_from_async_read dec ser = Inr (concat cs, 0 # chunk_indices 0 cs)"
  using deserialize_loops_serialized [OF assms, of "[]" 0 0 "[0]"]
  by (simp add: deserialize_chunks_def deserialize_chunks_from_async_read_def deserialize_chunks_to_writer_def
      deserialize_chunks_to_writer_from_async_read_def)

theorem chunks_roundtrip_witness:
  "\<exists>ser. serialize_chunks (\<lambda>_. False) 0 run_enc LZ4 [[5, 6], replicate 4 0] = Inr ser \<and>
     deserialize_chunks_to_writer run_dec ser = Inr ([5, 6, 0, 0, 0, 0], 20, [0, 2, 6])"
proof -
  have s: "serialize_chunks (\<lambda>_. False) 0 run_enc LZ4 [[5, 6], replicate 4 0] =
      Inr [0, 2, 0, 0, 0, 2, 0, 0, 5, 6, 0, 2, 0, 0, 1, 4, 0, 0, 0, 4]"
    by code_simp
  have "list_all (\<lambda>c :: bytes. length c \<le> MAX_CHUNK_SIZE) [[5, 6], replicate 4 0]" by (simp add: MAX_CHUNK_SIZE_val)
  from chunks_roundtrip [OF run_codec_ok this s] s show ?thesis by (simp add: numeral_eq_Suc)
qed

lemma chunk_indices_shift: "chunk_indices (a + b) cs = map (\<lambda>i. i + b) (chunk_indices a cs)"
  by (induction cs arbitrary: a) (simp_all add: ac_simps, metis (no_types, lifting) add.assoc add.commute)

lemma chunk_indices_append:
  "chunk_indices a (cs @ ds) = chunk_indices a cs @ chunk_indices (a + of_nat (length (concat cs))) ds"
  by (induction cs arbitrary: a) (simp_all add: add.assoc)

text \<open>
  Appending a deserialized segment to the accumulated data and indices gives what deserializing
  the two sequences of chunks in one go gives, also where the 32-bit indices wrap.
\<close>

theorem append_chunk_segment_indices:
  "append_chunk_segment (concat cs) (0 # chunk_indices 0 cs) (concat ds) (0 # chunk_indices 0 ds) =
     (concat (cs @ ds), 0 # chunk_indices 0 (cs @ ds))"
  using chunk_indices_shift [of 0 "of_nat (length (concat cs))" ds]
  by (simp add: append_chunk_segment_def Let_def chunk_indices_append)

lemma deserialize_chunk_header_valid:
  assumes "deserialize_chunk_header rd = Inr (h, rd')"
  shows "ch_version h = 0" "\<exists>s. get_compression_scheme h = Inr s"
    "unat (get_compressed_length h) \<le> 2 * MAX_CHUNK_SIZE" "unat (get_uncompressed_length h) \<le> MAX_CHUNK_SIZE"
    "rd' = drop 8 rd" "8 \<le> length rd"
  using assms
  by (auto simp: deserialize_chunk_header_def parse_chunk_header_def validate_header_def Let_def rbind_def lift_io_def
      read_exact_def XORB_CHUNK_HEADER_LENGTH_def CURRENT_VERSION_def not_less mult.commute split: if_splits sum.splits)


lemmas read_eval =
  deserialize_chunk_def deserialize_chunk_to_writer_def deserialize_chunk_to_writer_async_def
  deserialize_chunk_header_def try_read_chunk_header_def parse_chunk_header_def validate_header_def
  deserialize_chunk_with_header_to_writer_def deserialize_chunk_with_header_async_def
  get_compressed_length_def get_uncompressed_length_def get_compression_scheme_def convert_three_byte_num_def
  scheme_try_from_def decompress_from_reader_def decompress_from_slice_def lz4_decompress_from_slice_def
  lz4_decompress_from_reader_def run_dec_def read_exact_def lift_io_def slice_def
  XORB_OBJECT_FORMAT_IDENT_def XORB_CHUNK_HEADER_LENGTH_def CURRENT_VERSION_def MAX_CHUNK_SIZE_val



end
