(* ===== verification/File_Dedup.thy ===== *)
theory File_Dedup
  imports Chunking Xorb_Structs Aggregated_Hashes
begin

text \<open>
  Deduplication of a file, \<open>xet_data/src/deduplication/\<close>: the metrics (\<open>dedup_metrics.rs\<close>), the
  fragmentation estimate (\<open>defrag_prevention.rs\<close>), the interface of the data manager
  (\<open>interface.rs\<close>), \<open>FileDeduper\<close> (\<open>file_deduplication.rs\<close>) and \<open>DataAggregator\<close>
  (\<open>data_aggregator.rs\<close>), with \<open>RawXorbData\<close> of \<open>xet_core_structures/src/xorb_object/raw_xorb_data.rs\<close>
  and the range hashes of \<open>chunk_verification.rs\<close>.

  A method that changes its receiver returns the new receiver. The data manager is a value of an
  arbitrary type \<open>'m\<close>, and its trait is the record \<open>dedup_interface\<close> of its methods. A result is
  \<open>('e + 'a) option\<close>: \<open>Inl\<close> an error of the data manager, \<open>None\<close> a panic or a loop that does not end.
  The two floating-point comparisons of the fragmentation estimate are fields of its configuration.
\<close>

section \<open>Xorb data\<close>

definition VERIFICATION_KEY :: bytes where
  "VERIFICATION_KEY = [127, 24, 87, 214, 206, 86, 237, 102, 18, 127, 249, 19, 231, 165, 195, 243,
     164, 205, 38, 213, 181, 219, 73, 230, 65, 36, 152, 127, 40, 251, 148, 195]"

definition range_hash_from_chunks :: "keyed_hash \<Rightarrow> merkle_hash list \<Rightarrow> merkle_hash" where
  "range_hash_from_chunks kh hs = from_bytes (kh VERIFICATION_KEY (concat (map as_bytes hs)))"

record raw_xorb_data =
  rx_data :: "bytes list"
  rx_xorb_info :: mdb_xorb_info
  rx_file_boundaries :: "nat list"

text \<open>The loop over the chunks: the entries, with the running position; \<open>None\<close> is a failed \<open>try_into\<close>.\<close>

fun raw_xorb_entries :: "nat \<Rightarrow> chunk list \<Rightarrow> xorb_chunk_sequence_entry list option" where
  "raw_xorb_entries p [] = Some []"
| "raw_xorb_entries p (c # cs) =
     Option.bind (xorb_entry_new (chunk_hash c) (length (chunk_data c)) p) (\<lambda>e.
     Option.bind (raw_xorb_entries (p + length (chunk_data c)) cs) (\<lambda>es. Some (e # es)))"

definition chunk_node :: "chunk \<Rightarrow> node" where
  "chunk_node c = (chunk_hash c, of_nat (length (chunk_data c)))"

definition chunk_bytes :: "chunk list \<Rightarrow> nat" where
  "chunk_bytes cs = sum_list (map (\<lambda>c. length (chunk_data c)) cs)"

definition raw_xorb_from_chunks :: "keyed_hash \<Rightarrow> chunk list \<Rightarrow> nat list \<Rightarrow> raw_xorb_data option" where
  "raw_xorb_from_chunks kh cs boundaries =
     Option.bind (raw_xorb_entries 0 cs) (\<lambda>es.
     Option.bind (xorb_header_new (xorb_hash kh (map chunk_node cs)) (length cs) (chunk_bytes cs)) (\<lambda>md.
       Some \<lparr>rx_data = map chunk_data cs, rx_xorb_info = \<lparr>xorb_metadata = md, xorb_chunks = es\<rparr>,
             rx_file_boundaries = boundaries\<rparr>))"

definition raw_xorb_hash :: "raw_xorb_data \<Rightarrow> merkle_hash" where
  "raw_xorb_hash x = xh_xorb_hash (xorb_metadata (rx_xorb_info x))"

definition raw_xorb_num_bytes :: "raw_xorb_data \<Rightarrow> nat" where
  "raw_xorb_num_bytes x = unat (xh_num_bytes_in_xorb (xorb_metadata (rx_xorb_info x)))"

section \<open>Metrics\<close>

record deduplication_metrics =
  total_bytes :: u64
  deduped_bytes :: u64
  new_bytes :: u64
  deduped_bytes_by_global_dedup :: u64
  defrag_prevented_dedup_bytes :: u64
  total_chunks :: u64
  deduped_chunks :: u64
  new_chunks :: u64
  deduped_chunks_by_global_dedup :: u64
  defrag_prevented_dedup_chunks :: u64
  xorb_bytes_uploaded :: u64
  shard_bytes_uploaded :: u64
  total_bytes_uploaded :: u64

definition metrics_default :: deduplication_metrics where
  "metrics_default =
     \<lparr>total_bytes = 0, deduped_bytes = 0, new_bytes = 0, deduped_bytes_by_global_dedup = 0,
      defrag_prevented_dedup_bytes = 0, total_chunks = 0, deduped_chunks = 0, new_chunks = 0,
      deduped_chunks_by_global_dedup = 0, defrag_prevented_dedup_chunks = 0, xorb_bytes_uploaded = 0,
      shard_bytes_uploaded = 0, total_bytes_uploaded = 0\<rparr>"

definition metrics_merge_in :: "deduplication_metrics \<Rightarrow> deduplication_metrics \<Rightarrow> deduplication_metrics" where
  "metrics_merge_in a b =
     \<lparr>total_bytes = total_bytes a + total_bytes b, deduped_bytes = deduped_bytes a + deduped_bytes b,
      new_bytes = new_bytes a + new_bytes b,
      deduped_bytes_by_global_dedup = deduped_bytes_by_global_dedup a + deduped_bytes_by_global_dedup b,
      defrag_prevented_dedup_bytes = defrag_prevented_dedup_bytes a + defrag_prevented_dedup_bytes b,
      total_chunks = total_chunks a + total_chunks b, deduped_chunks = deduped_chunks a + deduped_chunks b,
      new_chunks = new_chunks a + new_chunks b,
      deduped_chunks_by_global_dedup = deduped_chunks_by_global_dedup a + deduped_chunks_by_global_dedup b,
      defrag_prevented_dedup_chunks = defrag_prevented_dedup_chunks a + defrag_prevented_dedup_chunks b,
      xorb_bytes_uploaded = xorb_bytes_uploaded a + xorb_bytes_uploaded b,
      shard_bytes_uploaded = shard_bytes_uploaded a + shard_bytes_uploaded b,
      total_bytes_uploaded = total_bytes_uploaded a + total_bytes_uploaded b\<rparr>"

section \<open>Fragmentation estimate\<close>

text \<open>
  \<open>cpr_below_target chunks ranges low\<close> is the comparison of the chunks per range with the target,
  which depends on the threshold in force, and \<open>range_below_cpr n chunks ranges\<close> that of the size of
  the next range with the chunks per range.
\<close>

record defrag_config =
  nranges_in_estimator :: nat
  cpr_below_target :: "nat \<Rightarrow> nat \<Rightarrow> bool \<Rightarrow> bool"
  range_below_cpr :: "nat \<Rightarrow> nat \<Rightarrow> nat \<Rightarrow> bool"

record defrag_prevention =
  rolling_last_nranges :: "nat list"
  rolling_nranges_chunks :: nat
  defrag_at_low_threshold :: bool

definition defrag_new :: defrag_prevention where
  "defrag_new = \<lparr>rolling_last_nranges = [], rolling_nranges_chunks = 0, defrag_at_low_threshold = True\<rparr>"

definition increment_last_range :: "nat \<Rightarrow> defrag_prevention \<Rightarrow> defrag_prevention" where
  "increment_last_range n d =
     (if rolling_last_nranges d = [] then d
      else d\<lparr>rolling_last_nranges := butlast (rolling_last_nranges d) @ [last (rolling_last_nranges d) + n],
             rolling_nranges_chunks := rolling_nranges_chunks d + n\<rparr>)"

text \<open>The subtraction is on \<open>nat\<close>; that it does not underflow is part of the invariant shown below.\<close>

definition add_range :: "defrag_config \<Rightarrow> nat \<Rightarrow> defrag_prevention \<Rightarrow> defrag_prevention" where
  "add_range cfg n d =
     (let rs = rolling_last_nranges d @ [n]; k = rolling_nranges_chunks d + n in
      if nranges_in_estimator cfg < length rs
      then d\<lparr>rolling_last_nranges := tl rs, rolling_nranges_chunks := k - hd rs\<rparr>
      else d\<lparr>rolling_last_nranges := rs, rolling_nranges_chunks := k\<rparr>)"

definition allow_dedup_on_next_range :: "defrag_config \<Rightarrow> nat \<Rightarrow> defrag_prevention \<Rightarrow> bool \<times> defrag_prevention" where
  "allow_dedup_on_next_range cfg n d =
     (let k = rolling_nranges_chunks d; r = length (rolling_last_nranges d) in
      if r < nranges_in_estimator cfg then (True, d)
      else if cpr_below_target cfg k r (defrag_at_low_threshold d) then
        (if range_below_cpr cfg n k r then (False, d\<lparr>defrag_at_low_threshold := False\<rparr>) else (True, d))
      else (True, d\<lparr>defrag_at_low_threshold := True\<rparr>))"

section \<open>The data manager\<close>

record file_xorb_dependency =
  dep_file_id :: u64
  dep_xorb_hash :: merkle_hash
  dep_n_bytes :: u64
  dep_is_external :: bool

type_synonym dedup_result = "nat \<times> file_data_sequence_entry \<times> bool"

record ('m, 'e) dedup_interface =
  chunk_hash_dedup_query :: "'m \<Rightarrow> merkle_hash list \<Rightarrow> ('e + dedup_result option) option"
  register_global_dedup_query :: "'m \<Rightarrow> merkle_hash \<Rightarrow> 'e + 'm"
  complete_global_dedup_queries :: "'m \<Rightarrow> 'e + (bool \<times> 'm)"
  register_new_xorb :: "'m \<Rightarrow> raw_xorb_data \<Rightarrow> ('e + 'm) option"
  register_xorb_dependencies :: "'m \<Rightarrow> file_xorb_dependency list \<Rightarrow> 'm option"

section \<open>The file deduper\<close>

record 'm file_deduper =
  fd_data_mng :: 'm
  fd_file_id :: u64
  fd_new_data :: "chunk list"
  fd_new_data_size :: nat
  fd_hash_lookup :: "merkle_hash \<rightharpoonup> nat"
  fd_chunk_hashes :: "node list"
  fd_file_info :: "file_data_sequence_entry list"
  fd_internal_refs :: "nat list"
  fd_defrag :: defrag_prevention
  fd_min_spacing :: nat
  fd_next_eligible :: nat
  fd_metrics :: deduplication_metrics

definition file_deduper_new :: "'m \<Rightarrow> u64 \<Rightarrow> 'm file_deduper" where
  "file_deduper_new m fid =
     \<lparr>fd_data_mng = m, fd_file_id = fid, fd_new_data = [], fd_new_data_size = 0, fd_hash_lookup = Map.empty,
      fd_chunk_hashes = [], fd_file_info = [], fd_internal_refs = [], fd_defrag = defrag_new,
      fd_min_spacing = 0, fd_next_eligible = 0, fd_metrics = metrics_default\<rparr>"

text \<open>One pass of queries over the chunks; \<open>blocks\<close> holds the results, one place per chunk.\<close>

partial_function (option) query_pass ::
  "('m, 'e) dedup_interface \<Rightarrow> bool \<Rightarrow> merkle_hash list \<Rightarrow> nat \<Rightarrow> nat \<Rightarrow> dedup_result option list \<Rightarrow>
   'm file_deduper \<Rightarrow> deduplication_metrics \<Rightarrow>
   ('e + dedup_result option list \<times> 'm file_deduper \<times> deduplication_metrics) option" where
  "query_pass ifc first_pass hs start i blocks st dm =
     (if length hs \<le> i then Some (Inr (blocks, st, dm))
      else
        case blocks ! i of
          Some (n, _, _) \<Rightarrow> query_pass ifc first_pass hs start (i + n) blocks st dm
        | None \<Rightarrow>
            (case chunk_hash_dedup_query ifc (fd_data_mng st) (drop i hs) of
               None \<Rightarrow> None
             | Some (Inl e) \<Rightarrow> Some (Inl e)
             | Some (Inr (Some (n, fse, is_uploaded))) \<Rightarrow>
                 query_pass ifc first_pass hs start (i + n) (blocks[i := Some (n, fse, is_uploaded)]) st
                   (if first_pass then dm
                    else dm\<lparr>deduped_chunks_by_global_dedup := deduped_chunks_by_global_dedup dm + of_nat n,
                            deduped_bytes_by_global_dedup :=
                              deduped_bytes_by_global_dedup dm + ucast (fe_unpacked_segment_bytes fse)\<rparr>)
             | Some (Inr None) \<Rightarrow>
                 (if first_pass \<and> (start + i = 0 \<or> hash_is_global_dedup_eligible (hs ! i)) \<and>
                     fd_next_eligible st \<le> start + i
                  then
                    (case register_global_dedup_query ifc (fd_data_mng st) (hs ! i) of
                       Inl e \<Rightarrow> Some (Inl e)
                     | Inr m \<Rightarrow>
                         query_pass ifc first_pass hs start (i + 1) blocks
                           (st\<lparr>fd_data_mng := m, fd_next_eligible := start + i + fd_min_spacing st\<rparr>) dm)
                  else query_pass ifc first_pass hs start (i + 1) blocks st dm)))"

declare query_pass.simps [code]

text \<open>At most two passes; the second only after new shards were added.\<close>

definition query_passes ::
  "('m, 'e) dedup_interface \<Rightarrow> merkle_hash list \<Rightarrow> nat \<Rightarrow> 'm file_deduper \<Rightarrow>
   ('e + dedup_result option list \<times> 'm file_deduper \<times> deduplication_metrics) option" where
  "query_passes ifc hs start st =
     (case query_pass ifc True hs start 0 (replicate (length hs) None) st metrics_default of
        None \<Rightarrow> None
      | Some (Inl e) \<Rightarrow> Some (Inl e)
      | Some (Inr (blocks, st, dm)) \<Rightarrow>
          (case complete_global_dedup_queries ifc (fd_data_mng st) of
             Inl e \<Rightarrow> Some (Inl e)
           | Inr (added, m) \<Rightarrow>
               (let st = st\<lparr>fd_data_mng := m\<rparr> in
                if \<not> added then Some (Inr (blocks, st, dm))
                else
                  (case query_pass ifc False hs start 0 blocks st dm of
                     None \<Rightarrow> None
                   | Some (Inl e) \<Rightarrow> Some (Inl e)
                   | Some (Inr (blocks, st, dm)) \<Rightarrow>
                       (case complete_global_dedup_queries ifc (fd_data_mng st) of
                          Inl e \<Rightarrow> Some (Inl e)
                        | Inr (_, m) \<Rightarrow> Some (Inr (blocks, st\<lparr>fd_data_mng := m\<rparr>, dm)))))))"

definition continues_current :: "'m file_deduper \<Rightarrow> file_data_sequence_entry \<Rightarrow> bool" where
  "continues_current st fse \<longleftrightarrow>
     fd_file_info st \<noteq> [] \<and> fe_xorb_hash (last (fd_file_info st)) = fe_xorb_hash fse \<and>
     fe_chunk_index_end (last (fd_file_info st)) = fe_chunk_index_start fse"

definition add_file_data_sequence_entry ::
  "defrag_config \<Rightarrow> file_data_sequence_entry \<Rightarrow> nat \<Rightarrow> 'm file_deduper \<Rightarrow> 'm file_deduper" where
  "add_file_data_sequence_entry cfg fse n st =
     (if continues_current st fse then
        let l = last (fd_file_info st) in
        st\<lparr>fd_file_info := butlast (fd_file_info st) @
             [l\<lparr>fe_unpacked_segment_bytes := fe_unpacked_segment_bytes l + fe_unpacked_segment_bytes fse,
                fe_chunk_index_end := fe_chunk_index_end fse\<rparr>],
           fd_defrag := increment_last_range n (fd_defrag st)\<rparr>
      else
        st\<lparr>fd_internal_refs := fd_internal_refs st @
             (if fe_xorb_hash fse = marker then [length (fd_file_info st)] else []),
           fd_file_info := fd_file_info st @ [fse],
           fd_defrag := add_range cfg n (fd_defrag st)\<rparr>)"

text \<open>Setting the hash of the entries at the given indices; an index out of range panics.\<close>

definition fill_hash ::
  "merkle_hash \<Rightarrow> nat list \<Rightarrow> file_data_sequence_entry list \<Rightarrow> file_data_sequence_entry list option" where
  "fill_hash h idxs es =
     (if list_all (\<lambda>i. i < length es) idxs
      then Some (fold (\<lambda>i es. es[i := (es ! i)\<lparr>fe_xorb_hash := h\<rparr>]) idxs es)
      else None)"

definition cut_new_xorb :: "keyed_hash \<Rightarrow> 'm file_deduper \<Rightarrow> (raw_xorb_data \<times> 'm file_deduper) option" where
  "cut_new_xorb kh st =
     Option.bind (raw_xorb_from_chunks kh (fd_new_data st) [0]) (\<lambda>x.
     Option.bind (fill_hash (raw_xorb_hash x) (fd_internal_refs st) (fd_file_info st)) (\<lambda>es.
       Some (x, st\<lparr>fd_file_info := es, fd_new_data := [], fd_hash_lookup := Map.empty,
                   fd_new_data_size := 0, fd_internal_refs := []\<rparr>)))"

text \<open>The run of further chunks found at consecutive places of the new data.\<close>

fun local_run :: "(merkle_hash \<rightharpoonup> nat) \<Rightarrow> chunk list \<Rightarrow> nat \<Rightarrow> merkle_hash list \<Rightarrow> nat \<Rightarrow> nat \<times> nat" where
  "local_run lookup nd idx [] n_bytes = (idx, n_bytes)"
| "local_run lookup nd idx (h # hs) n_bytes =
     (if lookup h = Some idx then local_run lookup nd (idx + 1) hs (n_bytes + length (chunk_data (nd ! idx)))
      else (idx, n_bytes))"

text \<open>The outer option is a failed \<open>try_into\<close>.\<close>

definition dedup_query_against_local_data :: "'m file_deduper \<Rightarrow> merkle_hash list \<Rightarrow> dedup_result option option" where
  "dedup_query_against_local_data st hs =
     (case fd_hash_lookup st (hd hs) of
        None \<Rightarrow> Some None
      | Some base \<Rightarrow>
          (let (end_idx, n_bytes) =
             local_run (fd_hash_lookup st) (fd_new_data st) (base + 1) (tl hs) (length (chunk_data (fd_new_data st ! base)))
           in Option.bind (file_entry_new marker n_bytes base end_idx) (\<lambda>fse.
                Some (Some (end_idx - base, fse, False)))))"

text \<open>The last entry is the one under construction and ends at the end of the new data.\<close>

definition extends_current :: "'m file_deduper \<Rightarrow> bool" where
  "extends_current st \<longleftrightarrow>
     fd_file_info st \<noteq> [] \<and> fe_xorb_hash (last (fd_file_info st)) = marker \<and>
     unat (fe_chunk_index_end (last (fd_file_info st))) = length (fd_new_data st)"

definition push_new_chunk :: "defrag_config \<Rightarrow> chunk \<Rightarrow> 'm file_deduper \<Rightarrow> 'm file_deduper option" where
  "push_new_chunk cfg c st =
     (let n_bytes = length (chunk_data c); chunk_idx = length (fd_new_data st) in
      Option.bind
        (if extends_current st then
           let l = last (fd_file_info st) in
           Some (st\<lparr>fd_file_info := butlast (fd_file_info st) @
                  [l\<lparr>fe_unpacked_segment_bytes := fe_unpacked_segment_bytes l + of_nat n_bytes,
                     fe_chunk_index_end := fe_chunk_index_end l + 1\<rparr>],
                fd_defrag := increment_last_range 1 (fd_defrag st)\<rparr>)
         else
           Option.bind (file_entry_new marker n_bytes chunk_idx (chunk_idx + 1)) (\<lambda>fse.
             Some (st\<lparr>fd_internal_refs := fd_internal_refs st @ [length (fd_file_info st)],
                     fd_file_info := fd_file_info st @ [fse],
                     fd_defrag := add_range cfg 1 (fd_defrag st)\<rparr>)))
        (\<lambda>st. Some (st\<lparr>fd_new_data_size := fd_new_data_size st + n_bytes,
                         fd_hash_lookup := (fd_hash_lookup st)(chunk_hash c \<mapsto> chunk_idx),
                         fd_new_data := fd_new_data st @ [c]\<rparr>)))"

text \<open>A chunk that is not deduplicated, after a xorb was cut where the chunk would not fit.\<close>

definition add_new_chunk ::
  "('m, 'e) dedup_interface \<Rightarrow> keyed_hash \<Rightarrow> defrag_config \<Rightarrow> chunk \<Rightarrow> 'm file_deduper \<Rightarrow>
   deduplication_metrics \<Rightarrow> file_xorb_dependency list \<Rightarrow>
   ('e + 'm file_deduper \<times> deduplication_metrics \<times> file_xorb_dependency list) option" where
  "add_new_chunk ifc kh cfg c st dm deps =
     (let n_bytes = length (chunk_data c);
          dm = dm\<lparr>total_chunks := total_chunks dm + 1, total_bytes := total_bytes dm + of_nat n_bytes,
                  new_bytes := new_bytes dm + of_nat n_bytes, new_chunks := new_chunks dm + 1\<rparr>
      in if MAX_XORB_BYTES < fd_new_data_size st + n_bytes \<or> MAX_XORB_CHUNKS < length (fd_new_data st) + 1 then
           Option.bind (cut_new_xorb kh st) (\<lambda>(x, st).
             (case register_new_xorb ifc (fd_data_mng st) x of
                None \<Rightarrow> None
              | Some (Inl e) \<Rightarrow> Some (Inl e)
              | Some (Inr m) \<Rightarrow>
                  Option.bind (push_new_chunk cfg c (st\<lparr>fd_data_mng := m\<rparr>)) (\<lambda>st.
                    Some (Inr (st, dm,
                      deps @ [\<lparr>dep_file_id = fd_file_id st, dep_xorb_hash = raw_xorb_hash x,
                               dep_n_bytes = of_nat (raw_xorb_num_bytes x), dep_is_external = False\<rparr>])))))
         else Option.bind (push_new_chunk cfg c st) (\<lambda>st. Some (Inr (st, dm, deps))))"

text \<open>Whether a found range is used, and the state of the estimate afterwards.\<close>

definition accept_range ::
  "defrag_config \<Rightarrow> nat \<Rightarrow> file_data_sequence_entry \<Rightarrow> 'm file_deduper \<Rightarrow> bool \<times> 'm file_deduper" where
  "accept_range cfg n fse st =
     (if continues_current st fse then (True, st)
      else let (ok, d) = allow_dedup_on_next_range cfg n (fd_defrag st) in (ok, st\<lparr>fd_defrag := d\<rparr>))"

partial_function (option) process_loop ::
  "('m, 'e) dedup_interface \<Rightarrow> keyed_hash \<Rightarrow> defrag_config \<Rightarrow> chunk list \<Rightarrow> nat \<Rightarrow> dedup_result option list \<Rightarrow>
   'm file_deduper \<Rightarrow> deduplication_metrics \<Rightarrow> file_xorb_dependency list \<Rightarrow>
   ('e + 'm file_deduper \<times> deduplication_metrics \<times> file_xorb_dependency list) option" where
  "process_loop ifc kh cfg cs i blocks st dm deps =
     (if length cs \<le> i then Some (Inr (st, dm, deps))
      else
        Option.bind
          (case blocks ! i of
             Some q \<Rightarrow> Some (Some q)
           | None \<Rightarrow> dedup_query_against_local_data st (map chunk_hash (drop i cs)))
          (\<lambda>query. let blocks = blocks[i := None] in
             case query of
               None \<Rightarrow>
                 (case add_new_chunk ifc kh cfg (cs ! i) st dm deps of
                    None \<Rightarrow> None
                  | Some (Inl e) \<Rightarrow> Some (Inl e)
                  | Some (Inr (st, dm, deps)) \<Rightarrow> process_loop ifc kh cfg cs (i + 1) blocks st dm deps)
             | Some (n, fse, is_external) \<Rightarrow>
                 (let b = ucast (fe_unpacked_segment_bytes fse);
                      dm = dm\<lparr>deduped_chunks := deduped_chunks dm + of_nat n, deduped_bytes := deduped_bytes dm + b,
                              total_chunks := total_chunks dm + of_nat n, total_bytes := total_bytes dm + b\<rparr>;
                      (ok, st) = accept_range cfg n fse st
                  in if ok then
                       process_loop ifc kh cfg cs (i + n) blocks (add_file_data_sequence_entry cfg fse n st) dm
                         (deps @ (if fe_xorb_hash fse \<noteq> marker
                                  then [\<lparr>dep_file_id = fd_file_id st, dep_xorb_hash = fe_xorb_hash fse,
                                         dep_n_bytes = b, dep_is_external = is_external\<rparr>]
                                  else []))
                     else
                       let dm = dm\<lparr>defrag_prevented_dedup_chunks := defrag_prevented_dedup_chunks dm + of_nat n,
                                   defrag_prevented_dedup_bytes := defrag_prevented_dedup_bytes dm + b\<rparr>
                       in (case add_new_chunk ifc kh cfg (cs ! i) st dm deps of
                             None \<Rightarrow> None
                           | Some (Inl e) \<Rightarrow> Some (Inl e)
                           | Some (Inr (st, dm, deps)) \<Rightarrow> process_loop ifc kh cfg cs (i + 1) blocks st dm deps))))"

declare process_loop.simps [code]

definition process_chunks ::
  "('m, 'e) dedup_interface \<Rightarrow> keyed_hash \<Rightarrow> defrag_config \<Rightarrow> chunk list \<Rightarrow> 'm file_deduper \<Rightarrow>
   ('e + deduplication_metrics \<times> 'm file_deduper) option" where
  "process_chunks ifc kh cfg cs st =
     (case query_passes ifc (map chunk_hash cs) (length (fd_chunk_hashes st)) st of
        None \<Rightarrow> None
      | Some (Inl e) \<Rightarrow> Some (Inl e)
      | Some (Inr (blocks, st, dm)) \<Rightarrow>
          (case process_loop ifc kh cfg cs 0 blocks st dm [] of
             None \<Rightarrow> None
           | Some (Inl e) \<Rightarrow> Some (Inl e)
           | Some (Inr (st, dm, deps)) \<Rightarrow>
               (let st = st\<lparr>fd_metrics := metrics_merge_in (fd_metrics st) dm,
                            fd_chunk_hashes := fd_chunk_hashes st @ map chunk_node cs\<rparr>
                in if deps \<noteq> [] then
                     Option.bind (register_xorb_dependencies ifc (fd_data_mng st) deps) (\<lambda>m.
                       Some (Inr (dm, st\<lparr>fd_data_mng := m\<rparr>)))
                   else Some (Inr (dm, st)))))"

section \<open>The data aggregator\<close>

record data_aggregator =
  da_chunks :: "chunk list"
  da_num_bytes :: nat
  da_pending :: "(mdb_file_info \<times> nat list \<times> u64) list"
  da_boundaries :: "nat list"

definition data_aggregator_default :: data_aggregator where
  "data_aggregator_default = \<lparr>da_chunks = [], da_num_bytes = 0, da_pending = [], da_boundaries = []\<rparr>"

definition data_aggregator_new :: "chunk list \<Rightarrow> mdb_file_info \<Rightarrow> nat list \<Rightarrow> u64 \<Rightarrow> data_aggregator" where
  "data_aggregator_new cs info refs fid =
     \<lparr>da_chunks = cs, da_num_bytes = chunk_bytes cs, da_pending = [(info, refs, fid)],
      da_boundaries = (if cs = [] then [] else [0])\<rparr>"

definition da_is_empty :: "data_aggregator \<Rightarrow> bool" where
  "da_is_empty d \<longleftrightarrow> da_chunks d = [] \<and> da_pending d = []"

definition shift_entry :: "u32 \<Rightarrow> file_data_sequence_entry \<Rightarrow> file_data_sequence_entry" where
  "shift_entry shift e =
     (if fe_xorb_hash e = marker
      then e\<lparr>fe_chunk_index_start := fe_chunk_index_start e + shift, fe_chunk_index_end := fe_chunk_index_end e + shift\<rparr>
      else e)"

definition da_merge_in :: "data_aggregator \<Rightarrow> data_aggregator \<Rightarrow> data_aggregator" where
  "da_merge_in self other =
     (let shift = of_nat (length (da_chunks self)) :: u32 in
      self\<lparr>da_chunks := da_chunks self @ da_chunks other,
           da_num_bytes := da_num_bytes self + da_num_bytes other,
           da_pending := da_pending self @
             map (\<lambda>(info, refs, fid). (info\<lparr>segments := map (shift_entry shift) (segments info)\<rparr>, refs, fid))
               (da_pending other),
           da_boundaries := da_boundaries self @ map (\<lambda>i. i + unat shift) (da_boundaries other)\<rparr>)"

text \<open>The loop over the references of one file: the entries and the bytes counted.\<close>

fun fill_pending ::
  "merkle_hash \<Rightarrow> nat list \<Rightarrow> file_data_sequence_entry list \<Rightarrow> u64 \<Rightarrow> (file_data_sequence_entry list \<times> u64) option" where
  "fill_pending h [] es n = Some (es, n)"
| "fill_pending h (i # is) es n =
     (if i < length es
      then fill_pending h is (es[i := (es ! i)\<lparr>fe_xorb_hash := h\<rparr>]) (n + ucast (fe_unpacked_segment_bytes (es ! i)))
      else None)"

fun fill_all :: "merkle_hash \<Rightarrow> (mdb_file_info \<times> nat list \<times> u64) list \<Rightarrow> (u64 \<times> mdb_file_info \<times> u64) list option" where
  "fill_all h [] = Some []"
| "fill_all h ((info, refs, fid) # ps) =
     Option.bind (fill_pending h refs (segments info) 0) (\<lambda>(es, n).
     Option.bind (fill_all h ps) (\<lambda>rs. Some ((fid, info\<lparr>segments := es\<rparr>, n) # rs)))"

definition da_finalize ::
  "keyed_hash \<Rightarrow> data_aggregator \<Rightarrow> (raw_xorb_data \<times> (u64 \<times> mdb_file_info \<times> u64) list) option" where
  "da_finalize kh d =
     Option.bind (raw_xorb_from_chunks kh (da_chunks d) (da_boundaries d)) (\<lambda>x.
     Option.bind (fill_all (raw_xorb_hash x) (da_pending d)) (\<lambda>rs. Some (x, rs)))"

section \<open>Finalizing a file\<close>

text \<open>The verification entries; a range behind the end of the chunk hashes panics.\<close>

fun verification_entries ::
  "keyed_hash \<Rightarrow> merkle_hash list \<Rightarrow> nat \<Rightarrow> file_data_sequence_entry list \<Rightarrow> file_verification_entry list option" where
  "verification_entries kh hs i [] = Some []"
| "verification_entries kh hs i (e # es) =
     (let n = unat (fe_chunk_index_end e - fe_chunk_index_start e) in
      if i + n \<le> length hs then
        Option.bind (verification_entries kh hs (i + n) es) (\<lambda>vs.
          Some (file_verification_new (range_hash_from_chunks kh (slice hs i (i + n))) # vs))
      else None)"

definition fd_finalize ::
  "keyed_hash \<Rightarrow> file_metadata_ext option \<Rightarrow> 'm file_deduper \<Rightarrow>
   (merkle_hash \<times> node list \<times> data_aggregator \<times> deduplication_metrics) option" where
  "fd_finalize kh ext st =
     (let fh = file_hash kh (fd_chunk_hashes st) in
      Option.bind (file_header_new fh (length (fd_file_info st)) True (ext \<noteq> None)) (\<lambda>md.
      Option.bind (verification_entries kh (map fst (fd_chunk_hashes st)) 0 (fd_file_info st)) (\<lambda>vs.
        Some (fh, fd_chunk_hashes st,
          data_aggregator_new (fd_new_data st)
            \<lparr>metadata = md, segments = fd_file_info st, verification = vs, metadata_ext = ext\<rparr>
            (fd_internal_refs st) (fd_file_id st),
          fd_metrics st))))"

end
