(* ===== verification/File_Dedup_Correct.thy ===== *)
theory File_Dedup_Correct
  imports File_Dedup
begin

text \<open>
  Correctness of deduplication. A store of xorbs is a set of pairs of a xorb hash and the nodes
  (chunk hash and length) of the xorb. The locale \<open>dedup_store\<close> is the contract of the data manager:
  what it answers to a query is stored, and what was stored or registered stays stored. Inside it,
  every operation of the deduper keeps the invariant that the file entries, resolved in the store and
  in the new data, spell out the nodes of the chunks processed so far; no operation panics or runs
  forever.
\<close>

section \<open>References into a store\<close>

definition node_bytes :: "node list \<Rightarrow> nat" where
  "node_bytes ns = sum_list (map (\<lambda>n. unat (snd n)) ns)"

definition entry_node :: "xorb_chunk_sequence_entry \<Rightarrow> node" where
  "entry_node e = (xe_chunk_hash e, ucast (xe_unpacked_segment_bytes e))"

definition xorb_nodes :: "mdb_xorb_info \<Rightarrow> node list" where
  "xorb_nodes info = map entry_node (xorb_chunks info)"

type_synonym store = "(merkle_hash \<times> node list) set"

definition xorb_ok :: "node list \<Rightarrow> bool" where
  "xorb_ok ns \<longleftrightarrow> length ns \<le> MAX_XORB_CHUNKS \<and> node_bytes ns \<le> MAX_XORB_BYTES"

text \<open>The hashes of the xorbs identify them, none is the marker, and all are within the limits.\<close>

definition good_store :: "store \<Rightarrow> bool" where
  "good_store S \<longleftrightarrow> single_valued S \<and> marker \<notin> Domain S \<and> (\<forall>(h, ns) \<in> S. xorb_ok ns)"

definition refers :: "store \<Rightarrow> file_data_sequence_entry \<Rightarrow> node list \<Rightarrow> bool" where
  "refers S e part \<longleftrightarrow>
     (\<exists>ns. (fe_xorb_hash e, ns) \<in> S \<and>
        unat (fe_chunk_index_start e) < unat (fe_chunk_index_end e) \<and> unat (fe_chunk_index_end e) \<le> length ns \<and>
        part = slice ns (unat (fe_chunk_index_start e)) (unat (fe_chunk_index_end e)) \<and>
        unat (fe_unpacked_segment_bytes e) = node_bytes part)"

definition spells :: "store \<Rightarrow> file_data_sequence_entry list \<Rightarrow> node list \<Rightarrow> bool" where
  "spells S es ns \<longleftrightarrow> (\<exists>parts. list_all2 (refers S) es parts \<and> concat parts = ns)"

lemma node_bytes_simps [simp]:
  "node_bytes [] = 0" "node_bytes (n # ns) = unat (snd n) + node_bytes ns" "node_bytes (ns @ ms) = node_bytes ns + node_bytes ms"
  by (simp_all add: node_bytes_def)

lemma node_bytes_take: "node_bytes (take k ns) \<le> node_bytes ns"
  by (metis append_take_drop_id le_add1 node_bytes_simps(3))

lemma node_bytes_slice: "node_bytes (slice ns a b) \<le> node_bytes ns"
  unfolding slice_def by (metis append_take_drop_id le_add2 le_trans node_bytes_simps(3) node_bytes_take)

lemma node_bytes_chunks:
  "list_all (\<lambda>c. length (chunk_data c) < 2 ^ 64) cs \<Longrightarrow> node_bytes (map chunk_node cs) = chunk_bytes cs"
  by (induction cs) (simp_all add: chunk_bytes_def chunk_node_def unsigned_of_nat take_bit_nat_eq_self)

lemma chunk_bytes_simps [simp]:
  "chunk_bytes [] = 0" "chunk_bytes (c # cs) = length (chunk_data c) + chunk_bytes cs"
  "chunk_bytes (cs @ ds) = chunk_bytes cs + chunk_bytes ds"
  by (simp_all add: chunk_bytes_def)

lemma good_store_subset: "good_store S \<Longrightarrow> S' \<subseteq> S \<Longrightarrow> good_store S'"
  unfolding good_store_def using single_valued_subset [of S' S] by blast

lemma refers_mono: "refers S e p \<Longrightarrow> S \<subseteq> S' \<Longrightarrow> refers S' e p"
  by (auto simp: refers_def)

lemma spells_Nil [simp]: "spells S [] ns \<longleftrightarrow> ns = []"
  by (auto simp: spells_def)

lemma spells_append:
  assumes "spells S es ns" and "spells S fs ms"
  shows "spells S (es @ fs) (ns @ ms)"
proof -
  obtain ps qs where "list_all2 (refers S) es ps" "concat ps = ns" "list_all2 (refers S) fs qs" "concat qs = ms"
    using assms by (auto simp: spells_def)
  then have "list_all2 (refers S) (es @ fs) (ps @ qs) \<and> concat (ps @ qs) = ns @ ms"
    by (auto intro: list_all2_appendI)
  then show ?thesis unfolding spells_def by blast
qed

lemma spells_single: "refers S e p \<Longrightarrow> spells S [e] p"
  unfolding spells_def by (intro exI [of _ "[p]"]) simp

lemma spells_snoc: "spells S es ns \<Longrightarrow> refers S e p \<Longrightarrow> spells S (es @ [e]) (ns @ p)"
  by (intro spells_append spells_single)

lemma spells_lastE:
  assumes "spells S (es @ [e]) ns"
  obtains ns' p where "spells S es ns'" "refers S e p" "ns = ns' @ p"
proof -
  obtain parts where p: "list_all2 (refers S) (es @ [e]) parts" "concat parts = ns"
    using assms by (auto simp: spells_def)
  then obtain ps q where "parts = ps @ [q]" "list_all2 (refers S) es ps" "refers S e q"
    by (auto simp: list_all2_append1 list_all2_Cons1)
  then show thesis using p(2) by (intro that [of "concat ps" q]) (auto simp: spells_def)
qed

lemma spells_map:
  assumes "spells S es ns" and "\<And>e p. e \<in> set es \<Longrightarrow> refers S e p \<Longrightarrow> refers S' (f e) p"
  shows "spells S' (map f es) ns"
proof -
  obtain ps where ps: "list_all2 (refers S) es ps" "concat ps = ns" using assms(1) by (auto simp: spells_def)
  have "list_all2 (refers S') (map f es) ps"
    unfolding list.rel_map using ps(1) by (rule list.rel_mono_strong) (use assms(2) in blast)
  then show ?thesis using ps(2) by (auto simp: spells_def)
qed

section \<open>The new data as a store\<close>

abbreviation with_new :: "store \<Rightarrow> chunk list \<Rightarrow> store" where
  "with_new S nd \<equiv> insert (marker, map chunk_node nd) S"

text \<open>Merging an entry with the one it continues.\<close>

definition merged_entry :: "file_data_sequence_entry \<Rightarrow> file_data_sequence_entry \<Rightarrow> file_data_sequence_entry" where
  "merged_entry l f =
     l\<lparr>fe_unpacked_segment_bytes := fe_unpacked_segment_bytes l + fe_unpacked_segment_bytes f,
       fe_chunk_index_end := fe_chunk_index_end f\<rparr>"

lemma MAX_XORB_vals: "MAX_XORB_BYTES = 67108864" "MAX_XORB_CHUNKS = 8192"
  by (simp_all add: MAX_XORB_BYTES_def MAX_XORB_CHUNKS_def)

lemma refers_merge:
  assumes sv: "single_valued S" and ok: "\<forall>(h, ns) \<in> S. xorb_ok ns"
    and l: "refers S l p" and f: "refers S f q"
    and c: "fe_xorb_hash l = fe_xorb_hash f" "fe_chunk_index_end l = fe_chunk_index_start f"
  shows "refers S (merged_entry l f) (p @ q)"
proof -
  obtain ns where ns: "(fe_xorb_hash l, ns) \<in> S" "p = slice ns (unat (fe_chunk_index_start l)) (unat (fe_chunk_index_end l))"
    "unat (fe_chunk_index_start l) < unat (fe_chunk_index_end l)"
    "unat (fe_unpacked_segment_bytes l) = node_bytes p"
    using l by (auto simp: refers_def)
  have q: "q = slice ns (unat (fe_chunk_index_start f)) (unat (fe_chunk_index_end f))"
    "unat (fe_chunk_index_start f) < unat (fe_chunk_index_end f)" "unat (fe_chunk_index_end f) \<le> length ns"
    "unat (fe_unpacked_segment_bytes f) = node_bytes q"
    using f ns(1) sv c(1) by (auto simp: refers_def single_valued_def)
  have pq: "p @ q = slice ns (unat (fe_chunk_index_start l)) (unat (fe_chunk_index_end f))"
    using ns(2,3) q(1,2) c(2) by (simp add: slice_concat)
  have "node_bytes (p @ q) \<le> MAX_XORB_BYTES"
    using ns(1) ok le_trans [OF node_bytes_slice] unfolding pq xorb_ok_def by blast
  then have u: "unat (fe_unpacked_segment_bytes l + fe_unpacked_segment_bytes f) = node_bytes (p @ q)"
    using ns(4) q(4) by (subst unat_add_lem [THEN iffD1]) (simp_all add: MAX_XORB_vals)
  show ?thesis
    using ns(1,3) q(2,3) c u unfolding pq refers_def merged_entry_def by (intro exI [of _ ns]) simp
qed

lemma refers_grow:
  assumes "refers (with_new S nd) e p" and "marker \<notin> Domain S"
  shows "refers (with_new S (nd @ cs)) e p"
proof (cases "fe_xorb_hash e = marker")
  case True
  then show ?thesis using assms by (auto simp: refers_def slice_append_left Domain_iff)
next
  case False
  then show ?thesis using assms(1) by (auto simp: refers_def)
qed

definition set_hash :: "merkle_hash \<Rightarrow> file_data_sequence_entry \<Rightarrow> file_data_sequence_entry" where
  "set_hash h e = (if fe_xorb_hash e = marker then e\<lparr>fe_xorb_hash := h\<rparr> else e)"

lemma refers_cut:
  "refers (with_new S nd) e p \<Longrightarrow> marker \<notin> Domain S \<Longrightarrow> (h, map chunk_node nd) \<in> S \<Longrightarrow> refers S (set_hash h e) p"
  by (auto simp: refers_def set_hash_def Domain_iff)

lemma fold_set_hash:
  "distinct idxs \<Longrightarrow> list_all (\<lambda>i. i < length es) idxs \<Longrightarrow>
     fold (\<lambda>i es. es[i := (es ! i)\<lparr>fe_xorb_hash := h\<rparr>]) idxs es =
     map (\<lambda>i. if i \<in> set idxs then (es ! i)\<lparr>fe_xorb_hash := h\<rparr> else es ! i) [0..<length es]"
proof (induction idxs arbitrary: es)
  case Nil
  then show ?case by (simp add: map_nth)
next
  case (Cons i idxs)
  then show ?case by (auto simp: nth_list_update)
qed

definition marker_refs :: "file_data_sequence_entry list \<Rightarrow> nat list \<Rightarrow> bool" where
  "marker_refs es idxs \<longleftrightarrow> distinct idxs \<and> set idxs = {i. i < length es \<and> fe_xorb_hash (es ! i) = marker}"

lemma fill_hash_marker:
  assumes "marker_refs es idxs"
  shows "fill_hash h idxs es = Some (map (set_hash h) es)"
proof -
  have m: "i \<in> set idxs \<longleftrightarrow> fe_xorb_hash (es ! i) = marker" if "i < length es" for i
    using assms that by (auto simp: marker_refs_def)
  have "fold (\<lambda>i es. es[i := (es ! i)\<lparr>fe_xorb_hash := h\<rparr>]) idxs es = map (set_hash h) es"
    if "list_all (\<lambda>i. i < length es) idxs" "distinct idxs"
    unfolding fold_set_hash [OF that(2,1)] by (rule nth_equalityI) (simp_all add: set_hash_def m)
  then show ?thesis using assms by (auto simp: fill_hash_def marker_refs_def list_all_iff)
qed

section \<open>Invariants of the deduper\<close>

definition defrag_ok :: "defrag_config \<Rightarrow> defrag_prevention \<Rightarrow> bool" where
  "defrag_ok cfg d \<longleftrightarrow>
     rolling_nranges_chunks d = sum_list (rolling_last_nranges d) \<and>
     length (rolling_last_nranges d) \<le> nranges_in_estimator cfg"

lemma defrag_ok_ops:
  "defrag_ok cfg defrag_new"
  "defrag_ok cfg d \<Longrightarrow> defrag_ok cfg (increment_last_range n d)"
  "defrag_ok cfg d \<Longrightarrow> defrag_ok cfg (add_range cfg n d)"
  "defrag_ok cfg d \<Longrightarrow> defrag_ok cfg (snd (allow_dedup_on_next_range cfg n d))"
proof -
  show "defrag_ok cfg defrag_new" by (simp add: defrag_ok_def defrag_new_def)
  show "defrag_ok cfg d \<Longrightarrow> defrag_ok cfg (increment_last_range n d)"
    by (cases "rolling_last_nranges d" rule: rev_cases) (auto simp: defrag_ok_def increment_last_range_def)
  show "defrag_ok cfg d \<Longrightarrow> defrag_ok cfg (add_range cfg n d)"
    by (cases "rolling_last_nranges d") (auto simp: defrag_ok_def add_range_def Let_def)
  show "defrag_ok cfg d \<Longrightarrow> defrag_ok cfg (snd (allow_dedup_on_next_range cfg n d))"
    by (auto simp: defrag_ok_def allow_dedup_on_next_range_def Let_def)
qed

text \<open>What holds whatever the store answers: it keeps the code from panicking.\<close>

definition fd_wf :: "defrag_config \<Rightarrow> 'm file_deduper \<Rightarrow> bool" where
  "fd_wf cfg st \<longleftrightarrow>
     fd_new_data_size st = chunk_bytes (fd_new_data st) \<and> chunk_bytes (fd_new_data st) \<le> MAX_XORB_BYTES \<and>
     length (fd_new_data st) \<le> MAX_XORB_CHUNKS \<and>
     (\<forall>h i. fd_hash_lookup st h = Some i \<longrightarrow> i < length (fd_new_data st) \<and> chunk_hash (fd_new_data st ! i) = h) \<and>
     list_all (\<lambda>i. i < length (fd_file_info st)) (fd_internal_refs st) \<and>
     defrag_ok cfg (fd_defrag st)"

text \<open>What the entries mean, in a store \<open>G\<close> of all xorbs met: they spell out the nodes \<open>ps\<close>.\<close>

definition fd_sem :: "store \<Rightarrow> chunk list \<Rightarrow> file_data_sequence_entry list \<Rightarrow> nat list \<Rightarrow> node list \<Rightarrow> bool" where
  "fd_sem G nd es refs ps \<longleftrightarrow>
     marker_refs es refs \<and> spells (with_new G nd) es ps \<and> set (map chunk_node nd) \<subseteq> set ps"

abbreviation fd_spells :: "store \<Rightarrow> 'm file_deduper \<Rightarrow> node list \<Rightarrow> bool" where
  "fd_spells G st ps \<equiv> fd_sem G (fd_new_data st) (fd_file_info st) (fd_internal_refs st) ps"

lemma fd_new_ok: "fd_wf cfg (file_deduper_new m fid)" "fd_spells G (file_deduper_new m fid) []"
  by (simp_all add: fd_wf_def file_deduper_new_def fd_sem_def marker_refs_def defrag_ok_ops)

lemma chunk_bytes_nth: "i < length cs \<Longrightarrow> length (chunk_data (cs ! i)) \<le> chunk_bytes cs"
  unfolding chunk_bytes_def by (intro member_le_sum_list) auto

lemma fd_wf_nodes:
  assumes "fd_wf cfg st"
  shows "list_all (\<lambda>c. length (chunk_data c) < 2 ^ 64) (fd_new_data st)" "xorb_ok (map chunk_node (fd_new_data st))"
proof -
  show len: "list_all (\<lambda>c. length (chunk_data c) < 2 ^ 64) (fd_new_data st)"
  proof (unfold list_all_length, intro allI impI)
    fix i assume "i < length (fd_new_data st)"
    then show "length (chunk_data (fd_new_data st ! i)) < 2 ^ 64"
      using assms chunk_bytes_nth [of i "fd_new_data st"] by (simp add: fd_wf_def MAX_XORB_vals)
  qed
  show "xorb_ok (map chunk_node (fd_new_data st))"
    using assms node_bytes_chunks [OF len] by (simp add: xorb_ok_def fd_wf_def)
qed

lemma set_slice: "set (slice xs a b) \<subseteq> set xs"
  unfolding slice_def by (metis order_trans set_drop_subset set_take_subset)

lemma map_slice: "map f (slice xs a b) = slice (map f xs) a b"
  by (simp add: slice_def take_map drop_map)

section \<open>Adding an entry\<close>

lemma add_entry_fields [simp]:
  "fd_new_data (add_file_data_sequence_entry cfg fse n st) = fd_new_data st"
  "fd_new_data_size (add_file_data_sequence_entry cfg fse n st) = fd_new_data_size st"
  "fd_hash_lookup (add_file_data_sequence_entry cfg fse n st) = fd_hash_lookup st"
  "fd_data_mng (add_file_data_sequence_entry cfg fse n st) = fd_data_mng st"
  "fd_chunk_hashes (add_file_data_sequence_entry cfg fse n st) = fd_chunk_hashes st"
  "fd_file_id (add_file_data_sequence_entry cfg fse n st) = fd_file_id st"
  by (simp_all add: add_file_data_sequence_entry_def Let_def)

lemma add_entry_wf: "fd_wf cfg st \<Longrightarrow> fd_wf cfg (add_file_data_sequence_entry cfg fse n st)"
  by (auto simp: fd_wf_def add_file_data_sequence_entry_def Let_def defrag_ok_ops continues_current_def list_all_iff)

lemma marker_refs_update:
  assumes "marker_refs (es @ [l]) refs" and "fe_xorb_hash l' = fe_xorb_hash l"
  shows "marker_refs (es @ [l']) refs"
proof -
  have "{i. i < length (es @ [l']) \<and> fe_xorb_hash ((es @ [l']) ! i) = marker} =
      {i. i < length (es @ [l]) \<and> fe_xorb_hash ((es @ [l]) ! i) = marker}"
    using assms(2) by (auto simp: nth_append)
  then show ?thesis using assms(1) unfolding marker_refs_def by argo
qed

lemma marker_refs_snoc:
  assumes "marker_refs es refs"
  shows "marker_refs (es @ [e]) (refs @ (if fe_xorb_hash e = marker then [length es] else []))"
proof -
  have "{i. i < length (es @ [e]) \<and> fe_xorb_hash ((es @ [e]) ! i) = marker} =
      {i. i < length es \<and> fe_xorb_hash (es ! i) = marker} \<union> (if fe_xorb_hash e = marker then {length es} else {})"
    by (auto simp: nth_append less_Suc_eq)
  moreover have "distinct refs" "set refs = {i. i < length es \<and> fe_xorb_hash (es ! i) = marker}"
    using assms unfolding marker_refs_def by blast+
  ultimately show ?thesis unfolding marker_refs_def by (simp split: if_split)
qed

lemma add_entry_sem:
  assumes G: "good_store G" and nd: "xorb_ok (map chunk_node nd)"
    and mr: "marker_refs (fd_file_info st) (fd_internal_refs st)" and sem: "spells (with_new G nd) (fd_file_info st) ps"
    and ref: "refers (with_new G nd) fse part"
  shows "marker_refs (fd_file_info (add_file_data_sequence_entry cfg fse n st))
      (fd_internal_refs (add_file_data_sequence_entry cfg fse n st)) \<and>
    spells (with_new G nd) (fd_file_info (add_file_data_sequence_entry cfg fse n st)) (ps @ part)"
proof (cases "continues_current st fse")
  case True
  then obtain es l where es: "fd_file_info st = es @ [l]" and l: "fe_xorb_hash l = fe_xorb_hash fse"
    "fe_chunk_index_end l = fe_chunk_index_start fse"
    unfolding continues_current_def by (metis append_butlast_last_id)
  then obtain ns p where sp: "spells (with_new G nd) es ns" "refers (with_new G nd) l p" "ps = ns @ p"
    using sem spells_lastE unfolding es by metis
  have "single_valued (with_new G nd)" "\<forall>(h, ns) \<in> with_new G nd. xorb_ok ns"
    using G nd by (auto simp: good_store_def single_valued_def)
  from refers_merge [OF this sp(2) ref l]
  have "spells (with_new G nd) (es @ [merged_entry l fse]) (ps @ part)"
    using spells_snoc [OF sp(1)] sp(3) by simp
  then show ?thesis
    using mr True es marker_refs_update [of es l _ "merged_entry l fse"]
    by (auto simp: add_file_data_sequence_entry_def Let_def merged_entry_def)
next
  case False
  then show ?thesis
    using spells_snoc [OF sem ref] marker_refs_snoc [OF mr, of fse]
    by (simp add: add_file_data_sequence_entry_def)
qed

section \<open>New chunks\<close>

definition new_entry :: "nat \<Rightarrow> nat \<Rightarrow> file_data_sequence_entry" where
  "new_entry n i =
     \<lparr>fe_xorb_hash = marker, fe_xorb_flags = MDB_DEFAULT_FILE_FLAG, fe_unpacked_segment_bytes = of_nat n,
      fe_chunk_index_start = of_nat i, fe_chunk_index_end = of_nat (i + 1)\<rparr>"

text \<open>Pushing a chunk is adding an entry for it and appending it to the new data.\<close>

lemma push_new_chunk_eq:
  assumes "length (fd_new_data st) < MAX_XORB_CHUNKS" and "length (chunk_data c) \<le> MAX_XORB_BYTES"
  shows "push_new_chunk cfg c st =
    Some ((add_file_data_sequence_entry cfg (new_entry (length (chunk_data c)) (length (fd_new_data st))) 1 st)
      \<lparr>fd_new_data_size := fd_new_data_size st + length (chunk_data c),
       fd_hash_lookup := (fd_hash_lookup st)(chunk_hash c \<mapsto> length (fd_new_data st)),
       fd_new_data := fd_new_data st @ [c]\<rparr>)"
proof -
  let ?i = "length (fd_new_data st)" and ?n = "length (chunk_data c)"
  have b: "?i + 1 < 2 ^ 32" "?n < 2 ^ 32" using assms by (simp_all add: MAX_XORB_vals)
  have new: "file_entry_new marker ?n ?i (?i + 1) = Some (new_entry ?n ?i)"
    using b by (simp add: file_entry_new_def try_u32_def new_entry_def)
  have "unat w = ?i \<longleftrightarrow> w = of_nat ?i" for w :: u32
    using b unat_of_nat_u32 [of ?i] by (metis add_lessD1 word_unat_eq_iff)
  then have ext: "extends_current st \<longleftrightarrow> continues_current st (new_entry ?n ?i)"
    by (auto simp: extends_current_def continues_current_def new_entry_def)
  show ?thesis
  proof (cases "extends_current st")
    case True
    then show ?thesis
      using ext by (simp add: push_new_chunk_def add_file_data_sequence_entry_def Let_def) (simp add: new_entry_def continues_current_def)
  next
    case False
    then show ?thesis
      using ext new by (simp add: push_new_chunk_def add_file_data_sequence_entry_def Let_def) (simp add: new_entry_def)
  qed
qed

lemma new_entry_refers:
  assumes "length nd < MAX_XORB_CHUNKS" and "length (chunk_data c) \<le> MAX_XORB_BYTES"
  shows "refers (with_new G (nd @ [c])) (new_entry (length (chunk_data c)) (length nd)) [chunk_node c]"
proof -
  have b: "length nd + 1 < 2 ^ 32" "length (chunk_data c) < 2 ^ 32" using assms by (simp_all add: MAX_XORB_vals)
  then have "unat (of_nat (length nd) + 1 :: u32) = Suc (length nd)"
    using unat_of_nat_u32 [of "Suc (length nd)"] by (simp add: add.commute)
  moreover have "unat (of_nat (length (chunk_data c)) :: u64) = length (chunk_data c)"
    using b(2) by (simp add: unsigned_of_nat take_bit_nat_eq_self)
  ultimately show ?thesis
    using b by (auto simp: refers_def new_entry_def slice_def chunk_node_def add.commute [of 1] intro!: exI [of _ "map chunk_node (nd @ [c])"])
qed

lemma push_new_chunk_ok:
  assumes wf: "fd_wf cfg st" and fits: "fd_new_data_size st + length (chunk_data c) \<le> MAX_XORB_BYTES"
    "length (fd_new_data st) + 1 \<le> MAX_XORB_CHUNKS"
  obtains st' where "push_new_chunk cfg c st = Some st'" "fd_wf cfg st'" "fd_data_mng st' = fd_data_mng st"
    "fd_chunk_hashes st' = fd_chunk_hashes st" "fd_file_id st' = fd_file_id st"
    "\<And>G ps. good_store G \<Longrightarrow> fd_spells G st ps \<Longrightarrow> fd_spells G st' (ps @ [chunk_node c])"
proof -
  let ?nd = "fd_new_data st"
  let ?e = "new_entry (length (chunk_data c)) (length ?nd)"
  let ?st1 = "add_file_data_sequence_entry cfg ?e 1 st"
  let ?st2 = "?st1\<lparr>fd_new_data_size := fd_new_data_size st + length (chunk_data c),
       fd_hash_lookup := (fd_hash_lookup st)(chunk_hash c \<mapsto> length ?nd), fd_new_data := ?nd @ [c]\<rparr>"
  have b: "length ?nd < MAX_XORB_CHUNKS" "length (chunk_data c) \<le> MAX_XORB_BYTES" using fits by simp_all
  have wf1: "fd_wf cfg ?st1" by (rule add_entry_wf [OF wf])
  have wf2: "fd_wf cfg ?st2"
    using wf1 wf fits unfolding fd_wf_def by (auto simp: nth_append less_Suc_eq)
  show thesis
  proof (rule that [of ?st2])
    show "push_new_chunk cfg c st = Some ?st2" by (rule push_new_chunk_eq [OF b])
    show "fd_wf cfg ?st2" by (rule wf2)
    fix G ps assume G: "good_store G" and sem: "fd_spells G st ps"
    have mr: "marker_refs (fd_file_info st) (fd_internal_refs st)" and sp: "spells (with_new G ?nd) (fd_file_info st) ps"
      and sub: "set (map chunk_node ?nd) \<subseteq> set ps"
      using sem by (simp_all add: fd_sem_def)
    have "spells (with_new G (?nd @ [c])) (map (\<lambda>e. e) (fd_file_info st)) ps"
      using refers_grow G unfolding good_store_def by (intro spells_map [OF sp]) blast
    then have sp: "spells (with_new G (?nd @ [c])) (fd_file_info st) ps" by simp
    have "xorb_ok (map chunk_node (?nd @ [c]))" using fd_wf_nodes(2) [OF wf2] by simp
    from add_entry_sem [OF G this mr sp new_entry_refers [OF b]]
    show "fd_spells G ?st2 (ps @ [chunk_node c])"
      using sub unfolding fd_sem_def by auto
  qed simp_all
qed

section \<open>Cutting a xorb\<close>

lemma ucast_u32_u64: "n < 2 ^ 32 \<Longrightarrow> (ucast (of_nat n :: u32) :: u64) = of_nat n"
  by (simp add: word_unat_eq_iff unsigned_ucast_eq unsigned_of_nat take_bit_nat_eq_self)

lemma raw_xorb_entries_ok:
  "p + chunk_bytes cs < 2 ^ 32 \<Longrightarrow>
     \<exists>es. raw_xorb_entries p cs = Some es \<and> map entry_node es = map chunk_node cs \<and> length es = length cs"
proof (induction cs arbitrary: p)
  case (Cons c cs)
  have "p + length (chunk_data c) + chunk_bytes cs < 2 ^ 32" using Cons.prems by simp
  then obtain es where es: "raw_xorb_entries (p + length (chunk_data c)) cs = Some es"
    "map entry_node es = map chunk_node cs" "length es = length cs"
    using Cons.IH by blast
  have b: "length (chunk_data c) < 2 ^ 32" "p < 2 ^ 32" using Cons.prems by simp_all
  then obtain e where "xorb_entry_new (chunk_hash c) (length (chunk_data c)) p = Some e" "entry_node e = chunk_node c"
    using ucast_u32_u64 [OF b(1)] by (simp add: xorb_entry_new_def try_u32_def entry_node_def chunk_node_def)
  then show ?case using es by simp
qed simp

lemma raw_xorb_ok:
  assumes "chunk_bytes cs \<le> MAX_XORB_BYTES" and "length cs \<le> MAX_XORB_CHUNKS"
  obtains x where "raw_xorb_from_chunks kh cs b = Some x" "raw_xorb_hash x = xorb_hash kh (map chunk_node cs)"
    "xorb_nodes (rx_xorb_info x) = map chunk_node cs" "raw_xorb_num_bytes x = chunk_bytes cs"
    "rx_data x = map chunk_data cs"
    "unat (xh_num_entries (xorb_metadata (rx_xorb_info x))) = length (xorb_chunks (rx_xorb_info x))"
proof -
  have n: "chunk_bytes cs < 2 ^ 32" "length cs < 2 ^ 32" using assms by (simp_all add: MAX_XORB_vals)
  obtain es where es: "raw_xorb_entries 0 cs = Some es" "map entry_node es = map chunk_node cs" "length es = length cs"
    using raw_xorb_entries_ok [of 0 cs] n(1) by auto
  then obtain x where x: "raw_xorb_from_chunks kh cs b = Some x"
    using n by (simp add: raw_xorb_from_chunks_def xorb_header_new_def try_u32_def)
  moreover have "x = \<lparr>rx_data = map chunk_data cs, rx_xorb_info =
      \<lparr>xorb_metadata = \<lparr>xh_xorb_hash = xorb_hash kh (map chunk_node cs), xh_xorb_flags = MDB_DEFAULT_XORB_FLAG,
         xh_num_entries = of_nat (length cs), xh_num_bytes_in_xorb = of_nat (chunk_bytes cs), xh_num_bytes_on_disk = 0\<rparr>,
       xorb_chunks = es\<rparr>, rx_file_boundaries = b\<rparr>"
    using x n es by (simp add: raw_xorb_from_chunks_def xorb_header_new_def try_u32_def)
  ultimately show thesis
    using n es by (intro that [of x]) (simp_all add: raw_xorb_hash_def raw_xorb_num_bytes_def xorb_nodes_def)
qed

definition raw_xorb_wf :: "raw_xorb_data \<Rightarrow> bool" where
  "raw_xorb_wf x \<longleftrightarrow>
     unat (xh_num_entries (xorb_metadata (rx_xorb_info x))) = length (xorb_chunks (rx_xorb_info x)) \<and>
     length (rx_data x) = length (xorb_chunks (rx_xorb_info x)) \<and> xorb_ok (xorb_nodes (rx_xorb_info x)) \<and>
     raw_xorb_num_bytes x = node_bytes (xorb_nodes (rx_xorb_info x))"

lemma raw_xorb_wf_ok:
  assumes "chunk_bytes cs \<le> MAX_XORB_BYTES" and "length cs \<le> MAX_XORB_CHUNKS"
    and "list_all (\<lambda>c. length (chunk_data c) < 2 ^ 64) cs"
  obtains x where "raw_xorb_from_chunks kh cs b = Some x" "raw_xorb_hash x = xorb_hash kh (map chunk_node cs)"
    "xorb_nodes (rx_xorb_info x) = map chunk_node cs" "raw_xorb_wf x"
proof -
  obtain x where x: "raw_xorb_from_chunks kh cs b = Some x" "raw_xorb_hash x = xorb_hash kh (map chunk_node cs)"
    "xorb_nodes (rx_xorb_info x) = map chunk_node cs" "rx_data x = map chunk_data cs" "raw_xorb_num_bytes x = chunk_bytes cs"
    "unat (xh_num_entries (xorb_metadata (rx_xorb_info x))) = length (xorb_chunks (rx_xorb_info x))"
    using raw_xorb_ok [OF assms(1,2)] by metis
  moreover have "length (xorb_chunks (rx_xorb_info x)) = length cs"
    using x(3) unfolding xorb_nodes_def by (metis length_map)
  ultimately show thesis
    using assms node_bytes_chunks [OF assms(3)] by (intro that [of x]) (simp_all add: raw_xorb_wf_def xorb_ok_def)
qed

lemma cut_new_xorb_ok:
  assumes wf: "fd_wf cfg st"
  obtains x st' where "cut_new_xorb kh st = Some (x, st')" "fd_wf cfg st'" "fd_data_mng st' = fd_data_mng st"
    "fd_chunk_hashes st' = fd_chunk_hashes st" "fd_new_data st' = []" "fd_new_data_size st' = 0" "fd_file_id st' = fd_file_id st"
    "raw_xorb_hash x = xorb_hash kh (map chunk_node (fd_new_data st))"
    "xorb_nodes (rx_xorb_info x) = map chunk_node (fd_new_data st)" "raw_xorb_wf x"
    "\<And>G ps. good_store G \<Longrightarrow> fd_spells G st ps \<Longrightarrow> (raw_xorb_hash x, xorb_nodes (rx_xorb_info x)) \<in> G \<Longrightarrow>
       fd_spells G st' ps"
proof -
  obtain x where x: "raw_xorb_from_chunks kh (fd_new_data st) [0] = Some x"
    "raw_xorb_hash x = xorb_hash kh (map chunk_node (fd_new_data st))"
    "xorb_nodes (rx_xorb_info x) = map chunk_node (fd_new_data st)" "raw_xorb_wf x"
    using raw_xorb_wf_ok [OF _ _ fd_wf_nodes(1) [OF wf]] wf unfolding fd_wf_def by metis
  obtain es where es: "fill_hash (raw_xorb_hash x) (fd_internal_refs st) (fd_file_info st) = Some es"
    using wf by (auto simp: fill_hash_def fd_wf_def)
  let ?st = "st\<lparr>fd_file_info := es, fd_new_data := [], fd_hash_lookup := Map.empty, fd_new_data_size := 0, fd_internal_refs := []\<rparr>"
  show thesis
  proof (rule that [of x ?st])
    show "cut_new_xorb kh st = Some (x, ?st)" by (simp add: cut_new_xorb_def x(1) es)
    show "fd_wf cfg ?st" using wf by (simp add: fd_wf_def)
    fix G ps
    assume G: "good_store G" and sem: "fd_spells G st ps" and h: "(raw_xorb_hash x, xorb_nodes (rx_xorb_info x)) \<in> G"
    have mr: "marker_refs (fd_file_info st) (fd_internal_refs st)" and sp: "spells (with_new G (fd_new_data st)) (fd_file_info st) ps"
      using sem by (simp_all add: fd_sem_def)
    have es': "es = map (set_hash (raw_xorb_hash x)) (fd_file_info st)" using es fill_hash_marker [OF mr] by simp
    have m: "raw_xorb_hash x \<noteq> marker" "marker \<notin> Domain G" using G h by (auto simp: good_store_def)
    have "spells G es ps"
      unfolding es' using refers_cut m(2) h x(3) by (intro spells_map [OF sp]) simp
    then have "spells (with_new G []) (map (\<lambda>e. e) es) ps"
      using refers_mono by (intro spells_map) blast+
    moreover have "marker_refs es []"
      using m(1) by (auto simp: marker_refs_def es' set_hash_def)
    ultimately show "fd_spells G ?st ps" by (simp add: fd_sem_def)
  qed (simp_all add: x)
qed

section \<open>Deduplication against the new data\<close>

lemma local_run_spec:
  assumes "\<And>h i. lookup h = Some i \<Longrightarrow> i < length nd \<and> chunk_hash (nd ! i) = h" and "i \<le> length nd"
  shows "\<exists>k. local_run lookup nd i hs n = (i + k, n + chunk_bytes (slice nd i (i + k))) \<and> k \<le> length hs \<and>
    i + k \<le> length nd \<and> map chunk_hash (slice nd i (i + k)) = take k hs"
  using assms(2)
proof (induction hs arbitrary: i n)
  case Nil
  then show ?case by (simp add: slice_def)
next
  case (Cons h hs)
  show ?case
  proof (cases "lookup h = Some i")
    case True
    then have i: "i < length nd" "chunk_hash (nd ! i) = h" using assms(1) by auto
    then obtain k where k: "local_run lookup nd (i + 1) hs (n + length (chunk_data (nd ! i))) =
        (i + 1 + k, n + length (chunk_data (nd ! i)) + chunk_bytes (slice nd (i + 1) (i + 1 + k)))"
      "k \<le> length hs" "i + 1 + k \<le> length nd" "map chunk_hash (slice nd (i + 1) (i + 1 + k)) = take k hs"
      using Cons.IH [of "i + 1"] by fastforce
    have "slice nd i (i + Suc k) = nd ! i # slice nd (i + 1) (i + 1 + k)"
      using i(1) by (simp add: slice_def Cons_nth_drop_Suc [symmetric])
    then show ?thesis
      using k i True by (intro exI [of _ "Suc k"]) simp
  next
    case False
    then show ?thesis using Cons.prems by (intro exI [of _ 0]) (simp add: slice_def)
  qed
qed

lemma local_query_ok:
  assumes wf: "fd_wf cfg st" and hs: "hs \<noteq> []"
  obtains (miss) "dedup_query_against_local_data st hs = Some None"
  | (hit) n fse part where "dedup_query_against_local_data st hs = Some (Some (n, fse, False))" "0 < n" "n \<le> length hs"
      "\<And>G. refers (with_new G (fd_new_data st)) fse part" "map fst part = take n hs" "set part \<subseteq> set (map chunk_node (fd_new_data st))"
proof (cases "fd_hash_lookup st (hd hs)")
  case None
  then show thesis by (intro miss) (simp add: dedup_query_against_local_data_def)
next
  case (Some base)
  let ?nd = "fd_new_data st"
  have lk: "fd_hash_lookup st h = Some i \<Longrightarrow> i < length ?nd \<and> chunk_hash (?nd ! i) = h" for h i
    using wf by (simp add: fd_wf_def)
  have base: "base < length ?nd" "chunk_hash (?nd ! base) = hd hs" using lk [OF Some] by simp_all
  obtain k where k: "local_run (fd_hash_lookup st) ?nd (base + 1) (tl hs) (length (chunk_data (?nd ! base))) =
      (base + 1 + k, length (chunk_data (?nd ! base)) + chunk_bytes (slice ?nd (base + 1) (base + 1 + k)))"
    "k \<le> length (tl hs)" "base + 1 + k \<le> length ?nd" "map chunk_hash (slice ?nd (base + 1) (base + 1 + k)) = take k (tl hs)"
    using local_run_spec [of "fd_hash_lookup st" ?nd "base + 1" "tl hs"] lk base(1) by fastforce
  let ?p = "slice ?nd base (base + Suc k)"
  have p: "?p = ?nd ! base # slice ?nd (base + 1) (base + 1 + k)"
    using base(1) by (simp add: slice_def Cons_nth_drop_Suc [symmetric])
  have len: "list_all (\<lambda>c. length (chunk_data c) < 2 ^ 64) ?p"
    using fd_wf_nodes(1) [OF wf] set_slice [of ?nd] by (auto simp: list_all_iff)
  have nb: "chunk_bytes ?p = node_bytes (map chunk_node ?p)" by (rule node_bytes_chunks [OF len, symmetric])
  have "node_bytes (map chunk_node ?p) \<le> MAX_XORB_BYTES"
    using fd_wf_nodes(2) [OF wf] le_trans [OF node_bytes_slice] unfolding map_slice xorb_ok_def by blast
  then have b: "chunk_bytes ?p < 2 ^ 32" "base + Suc k < 2 ^ 32"
    using nb k(3) wf by (simp_all add: MAX_XORB_vals fd_wf_def)
  let ?fse = "\<lparr>fe_xorb_hash = marker, fe_xorb_flags = MDB_DEFAULT_FILE_FLAG, fe_unpacked_segment_bytes = of_nat (chunk_bytes ?p),
      fe_chunk_index_start = of_nat base, fe_chunk_index_end = of_nat (base + Suc k)\<rparr>"
  have fse: "file_entry_new marker (chunk_bytes ?p) base (base + Suc k) = Some ?fse"
    using b by (simp add: file_entry_new_def try_u32_def del: of_nat_add of_nat_Suc)
  show thesis
  proof (rule hit [of "Suc k" ?fse "map chunk_node ?p"])
    show "dedup_query_against_local_data st hs = Some (Some (Suc k, ?fse, False))"
      using Some k(1) fse unfolding dedup_query_against_local_data_def p by simp
    show "Suc k \<le> length hs" using k(2) hs by (cases hs) simp_all
    have "unat (of_nat base :: u32) = base" "unat (of_nat (base + Suc k) :: u32) = base + Suc k"
      using b(2) by (simp_all del: of_nat_add of_nat_Suc)
    then show "refers (with_new G ?nd) ?fse (map chunk_node ?p)" for G
      using b(1) nb k(3) by (auto simp: refers_def map_slice simp del: of_nat_add of_nat_Suc)
    show "map fst (map chunk_node ?p) = take (Suc k) hs"
      using k(4) base(2) hs unfolding p by (cases hs) (simp_all add: chunk_node_def comp_def)
    show "set (map chunk_node ?p) \<subseteq> set (map chunk_node ?nd)" using set_slice [of ?nd] by auto
  qed simp
qed

section \<open>The contract of the data manager\<close>

text \<open>The code returns, with an error or with a result that satisfies \<open>Q\<close>.\<close>

definition returns :: "('e + 'a) option \<Rightarrow> ('a \<Rightarrow> bool) \<Rightarrow> bool" where
  "returns r Q \<longleftrightarrow> (case r of None \<Rightarrow> False | Some (Inl e) \<Rightarrow> True | Some (Inr y) \<Rightarrow> Q y)"

lemma returns_simps [simp]:
  "returns (Some (Inl e)) Q" "returns (Some (Inr y)) Q \<longleftrightarrow> Q y" "\<not> returns None Q"
  by (simp_all add: returns_def)

lemma returns_mono: "returns r Q \<Longrightarrow> (\<And>y. Q y \<Longrightarrow> Q' y) \<Longrightarrow> returns r Q'"
  by (auto simp: returns_def split: option.splits sum.splits)

lemma returns_cases:
  assumes "returns r Q"
  obtains e where "r = Some (Inl e)" | y where "r = Some (Inr y)" "Q y"
  using assms by (auto simp: returns_def split: option.splits sum.splits)

lemma returns_bind:
  assumes "returns r Q" and "\<And>y. Q y \<Longrightarrow> returns (f y) R"
  shows "returns (case r of None \<Rightarrow> None | Some (Inl e) \<Rightarrow> Some (Inl e) | Some (Inr y) \<Rightarrow> f y) R"
proof (cases r)
  case (Some x)
  then show ?thesis using assms by (cases x) simp_all
qed (use assms(1) in simp)

text \<open>Hashes that one of the keys in use maps to the same values.\<close>

definition same_key :: "(merkle_hash \<Rightarrow> merkle_hash) set \<Rightarrow> merkle_hash list \<Rightarrow> merkle_hash list \<Rightarrow> bool" where
  "same_key K hs hs' \<longleftrightarrow> (\<exists>k \<in> K. map k hs = map k hs')"

locale dedup_store =
  fixes ifc :: "('m, 'e) dedup_interface"
    and stored :: "'m \<Rightarrow> store"
    and minv :: "'m \<Rightarrow> bool"
    and fid :: u64
    and keys :: "(merkle_hash \<Rightarrow> merkle_hash) set"
  assumes query_no_panic: "minv m \<Longrightarrow> hs \<noteq> [] \<Longrightarrow> chunk_hash_dedup_query ifc m hs \<noteq> None"
    and query_count: "minv m \<Longrightarrow> hs \<noteq> [] \<Longrightarrow> chunk_hash_dedup_query ifc m hs = Some (Inr (Some (n, fse, ext))) \<Longrightarrow>
      0 < n \<and> n \<le> length hs"
    and query_refers: "minv m \<Longrightarrow> good_store (stored m) \<Longrightarrow> hs \<noteq> [] \<Longrightarrow>
      chunk_hash_dedup_query ifc m hs = Some (Inr (Some (n, fse, ext))) \<Longrightarrow>
      \<exists>part. refers (stored m) fse part \<and> same_key keys (map fst part) (take n hs)"
    and register_query: "minv m \<Longrightarrow> register_global_dedup_query ifc m h = Inr m' \<Longrightarrow> minv m' \<and> stored m \<subseteq> stored m'"
    and complete_queries: "minv m \<Longrightarrow> complete_global_dedup_queries ifc m = Inr (b, m') \<Longrightarrow> minv m' \<and> stored m \<subseteq> stored m'"
    and register_xorb: "minv m \<Longrightarrow> raw_xorb_wf x \<Longrightarrow> returns (register_new_xorb ifc m x) (\<lambda>m'.
      minv m' \<and> insert (raw_xorb_hash x, xorb_nodes (rx_xorb_info x)) (stored m) \<subseteq> stored m')"
    and register_deps: "minv m \<Longrightarrow> list_all (\<lambda>d. dep_file_id d = fid) ds \<Longrightarrow>
      \<exists>m'. register_xorb_dependencies ifc m ds = Some m' \<and> minv m' \<and> stored m \<subseteq> stored m'"

text \<open>The results of the queries, one place per chunk.\<close>

definition blocks_ok :: "merkle_hash list \<Rightarrow> dedup_result option list \<Rightarrow> bool" where
  "blocks_ok hs blocks \<longleftrightarrow> length blocks = length hs \<and>
     (\<forall>i < length hs. case blocks ! i of None \<Rightarrow> True | Some (n, _, _) \<Rightarrow> 0 < n \<and> i + n \<le> length hs)"

definition blocks_sem ::
  "(merkle_hash \<Rightarrow> merkle_hash) set \<Rightarrow> store \<Rightarrow> merkle_hash list \<Rightarrow> dedup_result option list \<Rightarrow> bool" where
  "blocks_sem K S hs blocks \<longleftrightarrow>
     (\<forall>i < length hs. case blocks ! i of None \<Rightarrow> True
        | Some (n, fse, _) \<Rightarrow> \<exists>part. refers S fse part \<and> same_key K (map fst part) (take n (drop i hs)))"

lemma blocks_none:
  "blocks_ok hs (replicate (length hs) None)" "blocks_sem K S hs (replicate (length hs) None)"
  by (simp_all add: blocks_ok_def blocks_sem_def)

lemma blocks_ok_clear: "blocks_ok hs blocks \<Longrightarrow> blocks_ok hs (blocks[i := None])"
  by (cases "i < length hs") (auto simp: blocks_ok_def nth_list_update)

lemma blocks_sem_clear: "blocks_ok hs blocks \<Longrightarrow> blocks_sem K S hs blocks \<Longrightarrow> blocks_sem K S hs (blocks[i := None])"
  by (cases "i < length hs") (auto simp: blocks_ok_def blocks_sem_def nth_list_update)

lemma blocks_ok_update:
  "blocks_ok hs blocks \<Longrightarrow> i < length hs \<Longrightarrow> 0 < n \<Longrightarrow> n \<le> length hs - i \<Longrightarrow> blocks_ok hs (blocks[i := Some (n, fse, x)])"
  by (auto simp: blocks_ok_def nth_list_update)

lemma blocks_sem_update:
  assumes "blocks_sem K S hs blocks" and "blocks_ok hs blocks" and "i < length hs"
    and "refers S fse part" and "same_key K (map fst part) (take n (drop i hs))"
  shows "blocks_sem K S hs (blocks[i := Some (n, fse, x)])"
  unfolding blocks_sem_def
proof (intro allI impI)
  fix j assume "j < length hs"
  then show "case blocks[i := Some (n, fse, x)] ! j of None \<Rightarrow> True
      | Some (n, fse, _) \<Rightarrow> \<exists>part. refers S fse part \<and> same_key K (map fst part) (take n (drop j hs))"
    using assms by (cases "j = i") (auto simp: blocks_sem_def blocks_ok_def)
qed

text \<open>The state changes only in the data manager and the next chunk eligible for a query.\<close>

definition same_file :: "'m file_deduper \<Rightarrow> 'm file_deduper \<Rightarrow> bool" where
  "same_file st st' \<longleftrightarrow>
     fd_file_id st' = fd_file_id st \<and> fd_new_data st' = fd_new_data st \<and> fd_new_data_size st' = fd_new_data_size st \<and>
     fd_hash_lookup st' = fd_hash_lookup st \<and> fd_chunk_hashes st' = fd_chunk_hashes st \<and>
     fd_file_info st' = fd_file_info st \<and> fd_internal_refs st' = fd_internal_refs st \<and>
     fd_defrag st' = fd_defrag st \<and> fd_metrics st' = fd_metrics st"

lemma same_file_wf: "same_file st st' \<Longrightarrow> fd_wf cfg st' = fd_wf cfg st"
  by (simp add: same_file_def fd_wf_def)

text \<open>
  No two nodes of the store and of a file have the same hash and different lengths, and no key in use
  maps two of their hashes to the same value.
\<close>

definition collision_free :: "(merkle_hash \<Rightarrow> merkle_hash) set \<Rightarrow> store \<Rightarrow> node list \<Rightarrow> bool" where
  "collision_free K G ns \<longleftrightarrow>
     single_valued ((\<Union>x \<in> G. set (snd x)) \<union> set ns) \<and> (\<forall>k \<in> K. inj_on k (fst ` ((\<Union>x \<in> G. set (snd x)) \<union> set ns)))"

lemma same_key_eq:
  assumes "same_key K xs ys" and "collision_free K G ns"
    and "set xs \<subseteq> fst ` ((\<Union>x \<in> G. set (snd x)) \<union> set ns)" and "set ys \<subseteq> fst ` ((\<Union>x \<in> G. set (snd x)) \<union> set ns)"
  shows "xs = ys"
proof -
  obtain k where k: "k \<in> K" "map k xs = map k ys" using assms(1) by (auto simp: same_key_def)
  then have "inj_on k (set xs \<union> set ys)"
    using assms(2-4) unfolding collision_free_def by (meson Un_least inj_on_subset)
  then show ?thesis using k(2) by (simp add: inj_on_map_eq_map)
qed

lemma nodes_eq:
  "single_valued U \<Longrightarrow> set xs \<subseteq> U \<Longrightarrow> set ys \<subseteq> U \<Longrightarrow> map fst xs = map fst ys \<Longrightarrow> xs = ys"
proof (induction xs arbitrary: ys)
  case (Cons x xs)
  then obtain y ys' where ys: "ys = y # ys'" "fst x = fst y" "map fst xs = map fst ys'" by (cases ys) auto
  have "x = y"
    using Cons.prems(1,2,3) ys(1,2) by (metis insert_subset list.simps(15) prod.collapse single_valuedD)
  then show ?case using Cons.IH [of ys'] Cons.prems(1,2,3) ys by simp
qed simp

lemma collision_free_mono: "collision_free K G ns \<Longrightarrow> set ms \<subseteq> set ns \<Longrightarrow> collision_free K G ms"
proof -
  assume c: "collision_free K G ns" and "set ms \<subseteq> set ns"
  then have sub: "(\<Union>x \<in> G. set (snd x)) \<union> set ms \<subseteq> (\<Union>x \<in> G. set (snd x)) \<union> set ns" by blast
  show ?thesis
    using c single_valued_subset [OF sub] inj_on_subset [OF _ image_mono [OF sub]] unfolding collision_free_def by blast
qed

lemma refers_nodes: "refers G e part \<Longrightarrow> set part \<subseteq> (\<Union>x \<in> G. set (snd x))"
  unfolding refers_def using set_slice by fastforce

lemma map_fst_chunk_node [simp]: "map fst (map chunk_node cs) = map chunk_hash cs"
  by (simp add: chunk_node_def comp_def)

lemma accept_range_fields:
  assumes "accept_range cfg n fse st = (ok, st')"
  shows "fd_new_data st' = fd_new_data st" "fd_file_info st' = fd_file_info st" "fd_internal_refs st' = fd_internal_refs st"
    "fd_data_mng st' = fd_data_mng st" "fd_chunk_hashes st' = fd_chunk_hashes st" "fd_wf cfg st \<Longrightarrow> fd_wf cfg st'"
    "fd_file_id st' = fd_file_id st"
  using assms defrag_ok_ops(4) [of cfg "fd_defrag st" n]
  by (auto simp: accept_range_def fd_wf_def split: if_splits prod.splits)

text \<open>A file is processed in batches of chunks.\<close>

fun process_batches ::
  "('m, 'e) dedup_interface \<Rightarrow> keyed_hash \<Rightarrow> defrag_config \<Rightarrow> chunk list list \<Rightarrow> 'm file_deduper \<Rightarrow>
   ('e + 'm file_deduper) option" where
  "process_batches ifc kh cfg [] st = Some (Inr st)"
| "process_batches ifc kh cfg (b # bs) st =
     (case process_chunks ifc kh cfg b st of
        None \<Rightarrow> None
      | Some (Inl e) \<Rightarrow> Some (Inl e)
      | Some (Inr (_, st)) \<Rightarrow> process_batches ifc kh cfg bs st)"

context dedup_store
begin

abbreviation xorbs :: "'m file_deduper \<Rightarrow> store" where
  "xorbs st \<equiv> stored (fd_data_mng st)"

text \<open>The manager's invariant holds and the file is the one the manager knows.\<close>

abbreviation ready :: "'m file_deduper \<Rightarrow> bool" where
  "ready st \<equiv> minv (fd_data_mng st) \<and> fd_file_id st = fid"

abbreviation own :: "file_xorb_dependency list \<Rightarrow> bool" where
  "own deps \<equiv> list_all (\<lambda>d. dep_file_id d = fid) deps"

definition queried :: "merkle_hash list \<Rightarrow> dedup_result option list \<Rightarrow> 'm file_deduper \<Rightarrow>
  dedup_result option list \<times> 'm file_deduper \<times> deduplication_metrics \<Rightarrow> bool" where
  "queried hs blocks st r \<longleftrightarrow> (case r of (blocks', st', _) \<Rightarrow>
     same_file st st' \<and> minv (fd_data_mng st') \<and> xorbs st \<subseteq> xorbs st' \<and> blocks_ok hs blocks' \<and>
     (\<forall>G. good_store G \<longrightarrow> xorbs st' \<subseteq> G \<longrightarrow> blocks_sem keys G hs blocks \<longrightarrow> blocks_sem keys G hs blocks'))"

lemma queried_step:
  assumes "queried hs blocks1 st1 r" and "same_file st st1" and "xorbs st \<subseteq> xorbs st1"
    and "\<And>G. good_store G \<Longrightarrow> xorbs st1 \<subseteq> G \<Longrightarrow> blocks_sem keys G hs blocks \<Longrightarrow> blocks_sem keys G hs blocks1"
  shows "queried hs blocks st r"
proof -
  obtain blocks' st' dm where r: "r = (blocks', st', dm)" by (cases r)
  then have "xorbs st1 \<subseteq> xorbs st'" using assms(1) by (simp add: queried_def)
  then show ?thesis
    using assms unfolding queried_def r same_file_def by (auto dest: order_trans)
qed

lemma queried_hit:
  assumes inv: "minv (fd_data_mng st)" and b: "blocks_ok hs blocks" and i: "i < length hs"
    and q: "chunk_hash_dedup_query ifc (fd_data_mng st) (drop i hs) = Some (Inr (Some (n, fse, x)))"
    and r: "queried hs (blocks[i := Some (n, fse, x)]) st r"
  shows "queried hs blocks st r"
proof (rule queried_step [OF r])
  fix G assume G: "good_store G" "xorbs st \<subseteq> G" "blocks_sem keys G hs blocks"
  have "drop i hs \<noteq> []" using i by simp
  then obtain part where "refers (xorbs st) fse part" "same_key keys (map fst part) (take n (drop i hs))"
    using query_refers [OF inv good_store_subset [OF G(1,2)] _ q] by blast
  then show "blocks_sem keys G hs (blocks[i := Some (n, fse, x)])"
    using blocks_sem_update [OF G(3) b i] refers_mono G(2) by blast
qed (simp_all add: same_file_def)

lemma query_pass_ok:
  "minv (fd_data_mng st) \<Longrightarrow> blocks_ok hs blocks \<Longrightarrow>
     returns (query_pass ifc first_pass hs start i blocks st dm) (queried hs blocks st)"
proof (induction "length hs - i" arbitrary: i blocks st dm rule: less_induct)
  case less
  note inv = less.prems(1) and b = less.prems(2)
  note unf = query_pass.simps [of ifc first_pass hs start i blocks st dm]
  show ?case
  proof (cases "i < length hs")
    case False
    then show ?thesis using less.prems by (simp add: unf queried_def same_file_def)
  next
    case i: True
    have skip: "returns (query_pass ifc first_pass hs start (i + 1) blocks st1 dm) (queried hs blocks st)"
      if "minv (fd_data_mng st1)" "same_file st st1" "xorbs st \<subseteq> xorbs st1" for st1
    proof -
      have "returns (query_pass ifc first_pass hs start (i + 1) blocks st1 dm) (queried hs blocks st1)"
        using less.hyps that b i by simp
      then show ?thesis by (rule returns_mono) (erule queried_step [OF _ that(2,3)])
    qed
    have hit: "returns (query_pass ifc first_pass hs start (i + n) (blocks[i := Some (n, fse, x)]) st dm') (queried hs blocks st)"
      if q: "chunk_hash_dedup_query ifc (fd_data_mng st) (drop i hs) = Some (Inr (Some (n, fse, x)))" for n fse x dm'
    proof -
      have n: "0 < n" "n \<le> length hs - i" using query_count [OF inv _ q] i by simp_all
      then have "returns (query_pass ifc first_pass hs start (i + n) (blocks[i := Some (n, fse, x)]) st dm')
          (queried hs (blocks[i := Some (n, fse, x)]) st)"
        using less.hyps inv i blocks_ok_update [OF b i n] by simp
      then show ?thesis by (rule returns_mono) (rule queried_hit [OF inv b i q])
    qed
    have known: "returns (query_pass ifc first_pass hs start (i + n) blocks st dm) (queried hs blocks st)"
      if "blocks ! i = Some (n, fse, x)" for n fse x
    proof -
      have "0 < n" using b i that unfolding blocks_ok_def by fastforce
      then show ?thesis using less.hyps inv b i by simp
    qed
    have reg: "returns (query_pass ifc first_pass hs start (i + 1) blocks (st\<lparr>fd_data_mng := m, fd_next_eligible := k\<rparr>) dm)
        (queried hs blocks st)"
      if "register_global_dedup_query ifc (fd_data_mng st) (hs ! i) = Inr m" for m k
      using skip [of "st\<lparr>fd_data_mng := m, fd_next_eligible := k\<rparr>"] register_query [OF inv that] by (simp add: same_file_def)
    show ?thesis
      using i hit known reg skip [of st] inv query_no_panic [OF inv, of "drop i hs"]
      by (subst unf, cases first_pass) (auto simp: same_file_def split: option.split sum.split prod.split)
  qed
qed

lemma query_passes_ok:
  assumes "minv (fd_data_mng st)"
  shows "returns (query_passes ifc hs start st) (queried hs (replicate (length hs) None) st)"
proof -
  let ?b = "replicate (length hs) None"
  have fin: "queried hs ?b st (blocks, st1\<lparr>fd_data_mng := m\<rparr>, dm)"
    if "queried hs ?b st (blocks, st1, dm)" "complete_global_dedup_queries ifc (fd_data_mng st1) = Inr (added, m)"
    for blocks dm st1 m added
    using that complete_queries [of "fd_data_mng st1"] by (auto simp: queried_def same_file_def)
  have second: "returns (query_pass ifc False hs start 0 blocks st1 dm) (queried hs ?b st)"
    if q: "queried hs ?b st (blocks, st1, dm)" for blocks st1 dm
  proof -
    have "returns (query_pass ifc False hs start 0 blocks st1 dm) (queried hs blocks st1)"
      using q by (intro query_pass_ok) (simp_all add: queried_def)
    then show ?thesis
      by (rule returns_mono) (erule queried_step; use q in \<open>simp add: queried_def\<close>)
  qed
  from query_pass_ok [OF assms blocks_none(1), of True hs start 0 metrics_default] show ?thesis
  proof (cases rule: returns_cases)
    case (2 r)
    obtain blocks st1 dm where r: "r = (blocks, st1, dm)" by (cases r)
    note q = 2(2) [unfolded r]
    show ?thesis
    proof (cases "complete_global_dedup_queries ifc (fd_data_mng st1)")
      case (Inr c)
      obtain added m where c: "c = (added, m)" by (cases c)
      note q1 = fin [OF q Inr [unfolded c]]
      from second [OF q1] show ?thesis
        by (cases rule: returns_cases)
          (auto simp: query_passes_def 2(1) r Inr c Let_def q1 intro: fin split: sum.split)
    qed (simp add: query_passes_def 2(1) r)
  qed (simp add: query_passes_def)
qed

text \<open>
  A step of the deduper on the nodes \<open>new\<close>: the structural invariant, the data manager's invariant and
  what the entries spell out are kept, where the store of the result is part of a store \<open>G\<close>.
\<close>

definition advances :: "defrag_config \<Rightarrow> 'm file_deduper \<Rightarrow> node list \<Rightarrow> (store \<Rightarrow> node list \<Rightarrow> bool) \<Rightarrow> 'm file_deduper \<Rightarrow> bool" where
  "advances cfg st new H st' \<longleftrightarrow>
     fd_wf cfg st' \<and> ready st' \<and> xorbs st \<subseteq> xorbs st' \<and> fd_chunk_hashes st' = fd_chunk_hashes st \<and>
     (\<forall>G ps. good_store G \<longrightarrow> xorbs st' \<subseteq> G \<longrightarrow> H G ps \<longrightarrow> fd_spells G st ps \<longrightarrow> fd_spells G st' (ps @ new))"

lemma add_new_chunk_ok:
  assumes wf: "fd_wf cfg st" and inv: "ready st" and c: "length (chunk_data c) \<le> MAX_XORB_BYTES"
    and own: "own deps"
  shows "returns (add_new_chunk ifc kh cfg c st dm deps)
    (\<lambda>(st', _, deps'). advances cfg st [chunk_node c] (\<lambda>_ _. True) st' \<and> own deps')"
proof (cases "MAX_XORB_BYTES < fd_new_data_size st + length (chunk_data c) \<or> MAX_XORB_CHUNKS < length (fd_new_data st) + 1")
  case False
  then obtain st' where "push_new_chunk cfg c st = Some st'" "fd_wf cfg st'" "fd_data_mng st' = fd_data_mng st"
    "fd_chunk_hashes st' = fd_chunk_hashes st" "fd_file_id st' = fd_file_id st"
    "\<And>G ps. good_store G \<Longrightarrow> fd_spells G st ps \<Longrightarrow> fd_spells G st' (ps @ [chunk_node c])"
    using push_new_chunk_ok [OF wf, of c] by (metis not_less)
  then show ?thesis
    using False inv own by (simp add: add_new_chunk_def Let_def advances_def)
next
  case True
  obtain x st1 where x: "cut_new_xorb kh st = Some (x, st1)" "fd_wf cfg st1" "fd_data_mng st1 = fd_data_mng st"
    "fd_chunk_hashes st1 = fd_chunk_hashes st" "fd_new_data st1 = []" "fd_new_data_size st1 = 0"
    "raw_xorb_wf x" "fd_file_id st1 = fd_file_id st"
    "\<And>G ps. good_store G \<Longrightarrow> fd_spells G st ps \<Longrightarrow> (raw_xorb_hash x, xorb_nodes (rx_xorb_info x)) \<in> G \<Longrightarrow> fd_spells G st1 ps"
    using cut_new_xorb_ok [OF wf, of kh] by metis
  from register_xorb [OF conjunct1 [OF inv] x(7)] show ?thesis
  proof (cases rule: returns_cases)
    case (1 e)
    then show ?thesis using True x(1,3) by (simp add: add_new_chunk_def Let_def)
  next
    case m: (2 m)
    let ?st2 = "st1\<lparr>fd_data_mng := m\<rparr>"
    have wf2: "fd_wf cfg ?st2" using x(2) by (simp add: fd_wf_def)
    have fits: "fd_new_data_size ?st2 + length (chunk_data c) \<le> MAX_XORB_BYTES" "length (fd_new_data ?st2) + 1 \<le> MAX_XORB_CHUNKS"
      using x(5,6) c by (simp_all add: MAX_XORB_vals)
    obtain st' where p: "push_new_chunk cfg c ?st2 = Some st'" "fd_wf cfg st'" "fd_data_mng st' = fd_data_mng ?st2"
      "fd_chunk_hashes st' = fd_chunk_hashes ?st2" "fd_file_id st' = fd_file_id ?st2"
      "\<And>G ps. good_store G \<Longrightarrow> fd_spells G ?st2 ps \<Longrightarrow> fd_spells G st' (ps @ [chunk_node c])"
      using push_new_chunk_ok [OF wf2 fits] by metis
    then have "advances cfg st [chunk_node c] (\<lambda>_ _. True) st'"
      using x(3,4,8,9) m(2) inv by (auto simp: advances_def)
    then show ?thesis using True x(1,3,8) m(1) p inv own by (simp add: add_new_chunk_def Let_def)
  qed
qed

lemma advances_trans:
  assumes "advances cfg st new1 H1 st1" and "advances cfg st1 new2 H2 st2"
    and "\<And>G ps. H G ps \<Longrightarrow> H1 G ps \<and> H2 G (ps @ new1)" and "new = new1 @ new2"
  shows "advances cfg st new H st2"
proof -
  have "fd_spells G st2 (ps @ new)"
    if "good_store G" "xorbs st2 \<subseteq> G" "H G ps" "fd_spells G st ps" for G ps
  proof -
    have "xorbs st1 \<subseteq> G" using assms(2) that(2) by (auto simp: advances_def)
    then have "fd_spells G st1 (ps @ new1)" using assms(1,3) that by (simp add: advances_def)
    moreover have "H2 G (ps @ new1)" using assms(3) that(3) by blast
    ultimately have "fd_spells G st2 ((ps @ new1) @ new2)"
      using assms(2) that(1,2) unfolding advances_def by blast
    then show ?thesis using assms(4) by simp
  qed
  then show ?thesis using assms(1,2) by (auto simp: advances_def)
qed

lemma add_entry_advances:
  assumes wf: "fd_wf cfg st" and inv: "ready st" and acc: "accept_range cfg n fse st = (ok, st1)"
    and ref: "\<And>G ps. good_store G \<Longrightarrow> xorbs st \<subseteq> G \<Longrightarrow> H G ps \<Longrightarrow> fd_spells G st ps \<Longrightarrow>
      refers (with_new G (fd_new_data st)) fse new \<and> set (map chunk_node (fd_new_data st)) \<subseteq> set ps"
  shows "advances cfg st new H (add_file_data_sequence_entry cfg fse n st1)"
proof -
  note f = accept_range_fields [OF acc]
  have "fd_spells G (add_file_data_sequence_entry cfg fse n st1) (ps @ new)"
    if "good_store G" "xorbs st \<subseteq> G" "H G ps" "fd_spells G st ps" for G ps
    using add_entry_sem [OF that(1) fd_wf_nodes(2) [OF wf], of st1 ps fse new cfg n] ref [OF that] that(4) f
    by (auto simp: fd_sem_def)
  then show ?thesis using wf inv add_entry_wf [OF f(6)] f by (simp add: advances_def)
qed

definition progress :: "chunk list \<Rightarrow> dedup_result option list \<Rightarrow> store \<Rightarrow> node list \<Rightarrow> bool" where
  "progress cs blocks G ps \<longleftrightarrow> collision_free keys G (ps @ map chunk_node cs) \<and> blocks_sem keys G (map chunk_hash cs) blocks"

text \<open>What the lookup of the \<open>i\<close>-th chunk finds.\<close>

lemma found_refers:
  assumes "map fst part = take n (map chunk_hash (drop i cs))" and "collision_free keys G (ps @ map chunk_node cs)"
    and "set part \<subseteq> (\<Union>x \<in> G. set (snd x)) \<union> set ps"
  shows "part = map chunk_node (take n (drop i cs))"
proof (rule nodes_eq)
  show "single_valued ((\<Union>x \<in> G. set (snd x)) \<union> set (ps @ map chunk_node cs))"
    using assms(2) by (simp add: collision_free_def)
  show "set part \<subseteq> (\<Union>x \<in> G. set (snd x)) \<union> set (ps @ map chunk_node cs)" using assms(3) by auto
  show "set (map chunk_node (take n (drop i cs))) \<subseteq> (\<Union>x \<in> G. set (snd x)) \<union> set (ps @ map chunk_node cs)"
    by (auto dest!: in_set_takeD in_set_dropD)
  show "map fst part = map fst (map chunk_node (take n (drop i cs)))"
    using assms(1) by (simp only: map_fst_chunk_node take_map)
qed

lemma lookup_ok:
  assumes wf: "fd_wf cfg st" and b: "blocks_ok (map chunk_hash cs) blocks" and i: "i < length cs"
  obtains (miss) "(case blocks ! i of Some q \<Rightarrow> Some (Some q)
      | None \<Rightarrow> dedup_query_against_local_data st (map chunk_hash (drop i cs))) = Some None"
  | (hit) n fse x where "(case blocks ! i of Some q \<Rightarrow> Some (Some q)
      | None \<Rightarrow> dedup_query_against_local_data st (map chunk_hash (drop i cs))) = Some (Some (n, fse, x))"
      "0 < n" "i + n \<le> length cs"
      "\<And>G ps. good_store G \<Longrightarrow> progress cs blocks G ps \<Longrightarrow> fd_spells G st ps \<Longrightarrow>
         refers (with_new G (fd_new_data st)) fse (map chunk_node (take n (drop i cs)))"
proof (cases "blocks ! i")
  case (Some q)
  obtain n fse x where q: "q = (n, fse, x)" by (cases q)
  show thesis
  proof (rule hit)
    show "(case blocks ! i of Some q \<Rightarrow> Some (Some q)
      | None \<Rightarrow> dedup_query_against_local_data st (map chunk_hash (drop i cs))) = Some (Some (n, fse, x))"
      by (simp add: Some q)
    show "0 < n" "i + n \<le> length cs" using b i Some q by (auto simp: blocks_ok_def)
    fix G ps assume G: "good_store G" "progress cs blocks G ps"
    then obtain part where part: "refers G fse part" "same_key keys (map fst part) (take n (map chunk_hash (drop i cs)))"
      using i Some q by (fastforce simp: progress_def blocks_sem_def drop_map)
    have "map fst part = take n (map chunk_hash (drop i cs))"
    proof (rule same_key_eq [OF part(2)])
      show "collision_free keys G (ps @ map chunk_node cs)" using G(2) by (simp add: progress_def)
      have "chunk_hash ` set cs \<subseteq> fst ` set (map chunk_node cs)" by (force simp: chunk_node_def)
      then show "set (take n (map chunk_hash (drop i cs))) \<subseteq> fst ` ((\<Union>x \<in> G. set (snd x)) \<union> set (ps @ map chunk_node cs))"
        by (fastforce dest!: in_set_takeD in_set_dropD)
    qed (use refers_nodes [OF part(1)] in force)
    note part = part(1) this
    then have "part = map chunk_node (take n (drop i cs))"
      using found_refers [OF part(2)] G refers_nodes [OF part(1)] by (auto simp: progress_def)
    then show "refers (with_new G (fd_new_data st)) fse (map chunk_node (take n (drop i cs)))"
      using part(1) by (auto intro: refers_mono)
  qed
next
  case None
  have hs: "map chunk_hash (drop i cs) \<noteq> []" using i by simp
  show thesis
  proof (cases rule: local_query_ok [OF wf hs])
    case 1
    then show thesis using None by (intro miss) simp
  next
    case (2 n fse part)
    show thesis
    proof (rule hit)
      show "(case blocks ! i of Some q \<Rightarrow> Some (Some q)
        | None \<Rightarrow> dedup_query_against_local_data st (map chunk_hash (drop i cs))) = Some (Some (n, fse, False))"
        by (simp add: None 2(1))
      show "0 < n" "i + n \<le> length cs" using 2(2,3) i by simp_all
      fix G ps assume "progress cs blocks G ps" "fd_spells G st ps"
      then have "part = map chunk_node (take n (drop i cs))"
        using 2(6) by (intro found_refers [OF 2(5)]) (auto simp: progress_def fd_sem_def)
      then show "refers (with_new G (fd_new_data st)) fse (map chunk_node (take n (drop i cs)))"
        using 2(4) by simp
    qed
  qed
qed

lemma progress_clear:
  assumes "blocks_ok (map chunk_hash cs) blocks" and "progress cs blocks G ps" and "set ds \<subseteq> set cs"
  shows "progress cs (blocks[i := None]) G (ps @ map chunk_node ds)"
proof -
  have "set ((ps @ map chunk_node ds) @ map chunk_node cs) \<subseteq> set (ps @ map chunk_node cs)" using assms(3) by auto
  then show ?thesis
    using assms(2) blocks_sem_clear [OF assms(1)] collision_free_mono unfolding progress_def by blast
qed

lemma add_new_chunk_bind:
  assumes st1: "advances cfg st [] (\<lambda>_ _. True) st1" and i: "i < length cs"
    and len: "list_all (\<lambda>c. length (chunk_data c) \<le> MAX_XORB_BYTES) cs"
    and own: "own deps"
    and f: "\<And>st2 dm deps. advances cfg st (map chunk_node (take 1 (drop i cs))) H st2 \<Longrightarrow> own deps \<Longrightarrow> returns (f (st2, dm, deps)) Q"
  shows "returns (case add_new_chunk ifc kh cfg (cs ! i) st1 dm deps of
      None \<Rightarrow> None | Some (Inl e) \<Rightarrow> Some (Inl e) | Some (Inr r) \<Rightarrow> f r) Q"
proof (rule returns_bind [OF add_new_chunk_ok])
  show "fd_wf cfg st1" "ready st1" "own deps" using st1 own by (simp_all add: advances_def)
  show "length (chunk_data (cs ! i)) \<le> MAX_XORB_BYTES" using len i by (simp add: list_all_length)
  fix r :: "'m file_deduper \<times> deduplication_metrics \<times> file_xorb_dependency list"
  assume r: "case r of (st', _, deps') \<Rightarrow> advances cfg st1 [chunk_node (cs ! i)] (\<lambda>_ _. True) st' \<and> own deps'"
  obtain st2 dm2 deps2 where r2: "r = (st2, dm2, deps2)" by (cases r)
  have "take 1 (drop i cs) = [cs ! i]" using i by (simp add: Cons_nth_drop_Suc [symmetric])
  then have "advances cfg st (map chunk_node (take 1 (drop i cs))) H st2"
    using r by (intro advances_trans [OF st1, of _ "\<lambda>_ _. True"]) (simp_all add: r2)
  then show "returns (f r) Q" unfolding r2 using r by (intro f) (simp_all add: r2)
qed

lemma process_loop_ok:
  "fd_wf cfg st \<Longrightarrow> ready st \<Longrightarrow> own deps \<Longrightarrow> blocks_ok (map chunk_hash cs) blocks \<Longrightarrow>
     list_all (\<lambda>c. length (chunk_data c) \<le> MAX_XORB_BYTES) cs \<Longrightarrow>
     returns (process_loop ifc kh cfg cs i blocks st dm deps)
       (\<lambda>(st', _, deps'). advances cfg st (map chunk_node (drop i cs)) (progress cs blocks) st' \<and> own deps')"
proof (induction "length cs - i" arbitrary: i blocks st dm deps rule: less_induct)
  case less
  note wf = less.prems(1) and inv = less.prems(2) and own = less.prems(3) and b = less.prems(4) and len = less.prems(5)
  note unf = process_loop.simps [of ifc kh cfg cs i blocks st dm deps]
  show ?case
  proof (cases "i < length cs")
    case False
    then show ?thesis using wf inv own by (simp add: unf advances_def)
  next
    case i: True
    let ?b = "blocks[i := None]"
    have step: "returns (process_loop ifc kh cfg cs (i + n) ?b st1 dm' deps')
        (\<lambda>(st', _, deps'). advances cfg st (map chunk_node (drop i cs)) (progress cs blocks) st' \<and> own deps')"
      if adv: "advances cfg st (map chunk_node (take n (drop i cs))) (progress cs blocks) st1" and n: "0 < n" and own': "own deps'"
      for st1 dm' deps' n
    proof -
      have "fd_wf cfg st1" "ready st1" using adv by (simp_all add: advances_def)
      then have r: "returns (process_loop ifc kh cfg cs (i + n) ?b st1 dm' deps')
          (\<lambda>(st', _, deps''). advances cfg st1 (map chunk_node (drop (i + n) cs)) (progress cs ?b) st' \<and> own deps'')"
        using less.hyps n i blocks_ok_clear [OF b] len own' by simp
      have "set (take n (drop i cs)) \<subseteq> set cs" by (auto dest!: in_set_takeD in_set_dropD)
      moreover have "map chunk_node (drop i cs) = map chunk_node (take n (drop i cs)) @ map chunk_node (drop (i + n) cs)"
        by (metis append_take_drop_id drop_drop add.commute map_append)
      ultimately show ?thesis
        using r by (elim returns_mono) (auto elim!: advances_trans [OF adv] intro: progress_clear [OF b])
    qed
    have new: "returns (case add_new_chunk ifc kh cfg (cs ! i) st1 dm' deps of
          None \<Rightarrow> None | Some (Inl e) \<Rightarrow> Some (Inl e)
        | Some (Inr (st, dm, deps)) \<Rightarrow> process_loop ifc kh cfg cs (i + 1) ?b st dm deps)
        (\<lambda>(st', _, deps'). advances cfg st (map chunk_node (drop i cs)) (progress cs blocks) st' \<and> own deps')"
      if "advances cfg st [] (\<lambda>_ _. True) st1" for st1 dm'
      by (rule add_new_chunk_bind [OF that i len own, of "progress cs blocks"]) (use step [of 1] in simp)
    show ?thesis
    proof (cases rule: lookup_ok [OF wf b i])
      case 1
      have "advances cfg st [] (\<lambda>_ _. True) st" using wf inv by (simp add: advances_def)
      from new [OF this] show ?thesis using i 1 by (subst unf) (simp add: Let_def)
    next
      case (2 n fse x)
      obtain ok st1 where acc: "accept_range cfg n fse st = (ok, st1)" by fastforce
      have rej: "advances cfg st [] (\<lambda>_ _. True) st1"
        using accept_range_fields [OF acc] wf inv by (simp add: advances_def)
      have "advances cfg st (map chunk_node (take n (drop i cs))) (progress cs blocks) (add_file_data_sequence_entry cfg fse n st1)"
        using 2(4) by (intro add_entry_advances [OF wf inv acc]) (simp add: fd_sem_def)
      note step' = step [OF this 2(2)]
      have id1: "fd_file_id st1 = fid" using accept_range_fields(7) [OF acc] inv by simp
      have "own (deps @ (if fe_xorb_hash fse \<noteq> marker
          then [\<lparr>dep_file_id = fd_file_id st1, dep_xorb_hash = fe_xorb_hash fse,
                 dep_n_bytes = ucast (fe_unpacked_segment_bytes fse), dep_is_external = x\<rparr>] else []))"
        using own id1 by simp
      from step' [OF this] show ?thesis
        using i 2(1) new [OF rej] acc by (subst unf) (simp add: Let_def)
    qed
  qed
qed

text \<open>
  A batch: the code returns; where the hashes of the store and of the file do not collide, the entries
  spell out the chunks of the file.
\<close>

definition processed :: "defrag_config \<Rightarrow> 'm file_deduper \<Rightarrow> chunk list \<Rightarrow> 'm file_deduper \<Rightarrow> bool" where
  "processed cfg st cs st' \<longleftrightarrow>
     fd_wf cfg st' \<and> ready st' \<and> xorbs st \<subseteq> xorbs st' \<and>
     fd_chunk_hashes st' = fd_chunk_hashes st @ map chunk_node cs \<and>
     (\<forall>G. good_store G \<longrightarrow> xorbs st' \<subseteq> G \<longrightarrow> collision_free keys G (fd_chunk_hashes st') \<longrightarrow>
        fd_spells G st (fd_chunk_hashes st) \<longrightarrow> fd_spells G st' (fd_chunk_hashes st'))"

lemma process_chunks_ok:
  assumes wf: "fd_wf cfg st" and inv: "ready st"
    and len: "list_all (\<lambda>c. length (chunk_data c) \<le> MAX_XORB_BYTES) cs"
  shows "returns (process_chunks ifc kh cfg cs st) (\<lambda>(_, st'). processed cfg st cs st')"
proof -
  let ?hs = "map chunk_hash cs"
  from query_passes_ok [OF conjunct1 [OF inv], of ?hs "length (fd_chunk_hashes st)"] show ?thesis
  proof (cases rule: returns_cases)
    case (2 r)
    obtain blocks st1 dm where r: "r = (blocks, st1, dm)" by (cases r)
    have q: "same_file st st1" "minv (fd_data_mng st1)" "xorbs st \<subseteq> xorbs st1" "blocks_ok ?hs blocks"
      "\<And>G. good_store G \<Longrightarrow> xorbs st1 \<subseteq> G \<Longrightarrow> blocks_sem keys G ?hs blocks"
      using 2(2) blocks_none(2) [of _ _ ?hs] by (auto simp: queried_def r)
    have wf1: "fd_wf cfg st1" using wf same_file_wf [OF q(1)] by simp
    have "ready st1" "own []" using q(1,2) inv by (simp_all add: same_file_def)
    from process_loop_ok [OF wf1 this q(4) len, of kh 0 dm] show ?thesis
    proof (cases rule: returns_cases)
      case p: (2 s)
      obtain st2 dm2 deps where s: "s = (st2, dm2, deps)" by (cases s)
      have adv: "advances cfg st1 (map chunk_node cs) (progress cs blocks) st2" and own: "own deps" using p(2) by (simp_all add: s)
      have "minv (fd_data_mng st2)" using adv by (simp add: advances_def)
      from register_deps [OF this own] obtain m where m: "register_xorb_dependencies ifc (fd_data_mng st2) deps = Some m"
        "minv m" "xorbs st2 \<subseteq> stored m"
        by auto
      define st3 where "st3 = st2\<lparr>fd_metrics := metrics_merge_in (fd_metrics st2) dm2,
        fd_chunk_hashes := fd_chunk_hashes st2 @ map chunk_node cs\<rparr>"
      have "processed cfg st cs st3" "processed cfg st cs (st3\<lparr>fd_data_mng := m\<rparr>)"
        using adv q m unfolding processed_def advances_def same_file_def progress_def st3_def
        by (auto simp: fd_wf_def)
      then show ?thesis
        using 2(1) p(1) m(1) by (simp add: process_chunks_def r s st3_def Let_def)
    qed (simp_all add: process_chunks_def 2(1) r)
  qed (simp add: process_chunks_def)
qed

lemma processed_trans:
  assumes "processed cfg st cs st1" and "processed cfg st1 ds st2"
  shows "processed cfg st (cs @ ds) st2"
proof -
  have "fd_spells G st2 (fd_chunk_hashes st2)"
    if "good_store G" "xorbs st2 \<subseteq> G" "collision_free keys G (fd_chunk_hashes st2)" "fd_spells G st (fd_chunk_hashes st)" for G
  proof -
    have "collision_free keys G (fd_chunk_hashes st1)" "xorbs st1 \<subseteq> G"
      using that(2,3) assms(2) collision_free_mono [OF that(3)] by (auto simp: processed_def)
    then show ?thesis using assms that unfolding processed_def by blast
  qed
  then show ?thesis using assms by (auto simp: processed_def)
qed

lemma process_batches_ok:
  "fd_wf cfg st \<Longrightarrow> ready st \<Longrightarrow>
     list_all (\<lambda>c. length (chunk_data c) \<le> MAX_XORB_BYTES) (concat bs) \<Longrightarrow>
     returns (process_batches ifc kh cfg bs st) (processed cfg st (concat bs))"
proof (induction bs arbitrary: st)
  case (Cons b bs)
  have len: "list_all (\<lambda>c. length (chunk_data c) \<le> MAX_XORB_BYTES) b"
    "list_all (\<lambda>c. length (chunk_data c) \<le> MAX_XORB_BYTES) (concat bs)"
    using Cons.prems(3) by simp_all
  from process_chunks_ok [OF Cons.prems(1,2) len(1), of kh] show ?case
  proof (cases rule: returns_cases)
    case (2 r)
    obtain dm st1 where r: "r = (dm, st1)" by (cases r)
    have p: "processed cfg st b st1" using 2(2) by (simp add: r)
    then have "returns (process_batches ifc kh cfg bs st1) (processed cfg st1 (concat bs))"
      by (intro Cons.IH len(2)) (simp_all add: processed_def)
    then have "returns (process_batches ifc kh cfg bs st1) (processed cfg st (concat (b # bs)))"
      by (rule returns_mono) (simp add: processed_trans [OF p])
    then show ?thesis using 2(1) r by simp
  qed simp
qed (simp add: processed_def)

end

end
