(* ===== verification/Aggregator_Correct.thy ===== *)
theory Aggregator_Correct
  imports File_Dedup_Correct
begin

text \<open>
  From the deduper to the finished file infos: \<open>FileDeduper::finalize\<close> and \<open>DataAggregator\<close>. A file
  info describes a file with nodes \<open>ns\<close> in a store when its segments spell them out, its verification
  entries are the range hashes of the segments and its header carries the file hash. Finalizing gives
  such an info over the new data, merging two aggregators and finalizing one keep it, and none of them
  panics.
\<close>

section \<open>File infos over a store\<close>

definition describes :: "keyed_hash \<Rightarrow> store \<Rightarrow> mdb_file_info \<Rightarrow> node list \<Rightarrow> bool" where
  "describes kh S info ns \<longleftrightarrow>
     (\<exists>parts. list_all2 (refers S) (segments info) parts \<and> concat parts = ns \<and>
        verification info = map (\<lambda>p. file_verification_new (range_hash_from_chunks kh (map fst p))) parts) \<and>
     fh_file_hash (metadata info) = file_hash kh ns \<and>
     unat (fh_num_entries (metadata info)) = length (segments info) \<and>
     contains_verification info \<and> (contains_metadata_ext info \<longleftrightarrow> metadata_ext info \<noteq> None)"

lemma describes_map:
  assumes "describes kh S info ns" and "\<And>e p. e \<in> set (segments info) \<Longrightarrow> refers S e p \<Longrightarrow> refers S' (f e) p"
  shows "describes kh S' (info\<lparr>segments := map f (segments info)\<rparr>) ns"
proof -
  obtain parts where p: "list_all2 (refers S) (segments info) parts" "concat parts = ns"
    "verification info = map (\<lambda>p. file_verification_new (range_hash_from_chunks kh (map fst p))) parts"
    using assms(1) by (auto simp: describes_def)
  have "list_all2 (refers S') (map f (segments info)) parts"
    unfolding list.rel_map using p(1) by (rule list.rel_mono_strong) (use assms(2) in blast)
  then show ?thesis
    using assms(1) p(2,3)
    by (auto simp: describes_def contains_verification_def contains_metadata_ext_def)
qed

lemma describes_mono:
  assumes "describes kh S info ns" and "\<And>e p. e \<in> set (segments info) \<Longrightarrow> refers S e p \<Longrightarrow> refers S' e p"
  shows "describes kh S' info ns"
  using describes_map [of kh S info ns S' "\<lambda>e. e"] assms by simp

section \<open>Finalizing a file\<close>

lemma refers_count:
  "refers S e p \<Longrightarrow> unat (fe_chunk_index_end e - fe_chunk_index_start e) = length p \<and> 0 < length p"
proof -
  assume "refers S e p"
  then have "unat (fe_chunk_index_start e) < unat (fe_chunk_index_end e)"
    "length p = unat (fe_chunk_index_end e) - unat (fe_chunk_index_start e)"
    by (auto simp: refers_def)
  then show ?thesis by (simp add: unat_sub word_le_nat_alt del: length_greater_0_conv)
qed

lemma verification_entries_ok:
  "list_all2 (refers S) es parts \<Longrightarrow> drop i hs = map fst (concat parts) \<Longrightarrow> i \<le> length hs \<Longrightarrow>
     verification_entries kh hs i es =
       Some (map (\<lambda>p. file_verification_new (range_hash_from_chunks kh (map fst p))) parts)"
proof (induction es parts arbitrary: i rule: list_all2_induct)
  case (Cons e es p parts)
  have n: "unat (fe_chunk_index_end e - fe_chunk_index_start e) = length p" using refers_count Cons.hyps by blast
  have "length (drop i hs) = length (map fst (concat (p # parts)))" using Cons.prems(1) by (rule arg_cong)
  then have le: "i + length p \<le> length hs" using Cons.prems(2) by simp
  have "slice hs i (i + length p) = map fst p" by (simp add: slice_def Cons.prems(1))
  moreover have "drop (i + length p) hs = map fst (concat parts)"
    using Cons.prems(1) by (metis add.commute concat.simps(2) drop_append_exact drop_drop length_map map_append)
  ultimately show ?case using n le Cons.IH by simp
qed simp

lemma list_all2_refers_length: "list_all2 (refers S) es parts \<Longrightarrow> length es \<le> length (concat parts)"
proof (induction es parts rule: list_all2_induct)
  case (Cons e es p parts)
  then show ?case using refers_count [OF Cons.hyps(1)] by (simp del: length_greater_0_conv)
qed simp

lemma fd_finalize_ok:
  assumes sp: "fd_spells G st (fd_chunk_hashes st)" and n: "length (fd_chunk_hashes st) < 2 ^ 32"
  obtains info where "fd_finalize kh ext st =
      Some (file_hash kh (fd_chunk_hashes st), fd_chunk_hashes st,
        data_aggregator_new (fd_new_data st) info (fd_internal_refs st) (fd_file_id st), fd_metrics st)"
    "describes kh (with_new G (fd_new_data st)) info (fd_chunk_hashes st)" "segments info = fd_file_info st"
    "metadata_ext info = ext"
proof -
  obtain parts where parts: "list_all2 (refers (with_new G (fd_new_data st))) (fd_file_info st) parts"
    "concat parts = fd_chunk_hashes st"
    using sp by (auto simp: fd_sem_def spells_def)
  have len: "length (fd_file_info st) < 2 ^ 32"
    using list_all2_refers_length [OF parts(1)] parts(2) n by simp
  obtain md where md: "file_header_new (file_hash kh (fd_chunk_hashes st)) (length (fd_file_info st)) True (ext \<noteq> None) = Some md"
    using len by (auto simp: file_header_new_def try_u32_def Let_def)
  have ver: "verification_entries kh (map fst (fd_chunk_hashes st)) 0 (fd_file_info st) =
      Some (map (\<lambda>p. file_verification_new (range_hash_from_chunks kh (map fst p))) parts)"
    using parts by (intro verification_entries_ok) simp_all
  show thesis
  proof (rule that)
    show "fd_finalize kh ext st = Some (file_hash kh (fd_chunk_hashes st), fd_chunk_hashes st,
        data_aggregator_new (fd_new_data st)
          \<lparr>metadata = md, segments = fd_file_info st,
           verification = map (\<lambda>p. file_verification_new (range_hash_from_chunks kh (map fst p))) parts, metadata_ext = ext\<rparr>
          (fd_internal_refs st) (fd_file_id st), fd_metrics st)"
      using md ver by (simp add: fd_finalize_def Let_def)
    show "describes kh (with_new G (fd_new_data st)) \<lparr>metadata = md, segments = fd_file_info st,
        verification = map (\<lambda>p. file_verification_new (range_hash_from_chunks kh (map fst p))) parts, metadata_ext = ext\<rparr>
        (fd_chunk_hashes st)"
      using parts md len
      by (auto simp: describes_def file_header_new_def Let_def contains_verification_def contains_metadata_ext_def
          header_flags bit_or_iff MDB_DEFAULT_FILE_FLAG_def split: if_splits)
  qed simp_all
qed

section \<open>The aggregator\<close>

definition pending_ok :: "keyed_hash \<Rightarrow> store \<Rightarrow> mdb_file_info \<times> nat list \<times> u64 \<Rightarrow> node list \<Rightarrow> bool" where
  "pending_ok kh S p ns \<longleftrightarrow> (case p of (info, refs, _) \<Rightarrow> marker_refs (segments info) refs \<and> describes kh S info ns)"

definition da_ok :: "keyed_hash \<Rightarrow> store \<Rightarrow> data_aggregator \<Rightarrow> node list list \<Rightarrow> bool" where
  "da_ok kh G d nss \<longleftrightarrow>
     da_num_bytes d = chunk_bytes (da_chunks d) \<and> chunk_bytes (da_chunks d) \<le> MAX_XORB_BYTES \<and>
     length (da_chunks d) \<le> MAX_XORB_CHUNKS \<and>
     list_all2 (pending_ok kh (with_new G (da_chunks d))) (da_pending d) nss"

lemma da_ok_default: "da_ok kh G data_aggregator_default []"
  by (simp add: da_ok_def data_aggregator_default_def)

lemma da_ok_new:
  assumes "fd_wf cfg st" and "marker_refs (segments info) refs" and "describes kh (with_new G (fd_new_data st)) info ns"
  shows "da_ok kh G (data_aggregator_new (fd_new_data st) info refs fid) [ns]"
  using assms by (simp add: da_ok_def data_aggregator_new_def fd_wf_def pending_ok_def)

lemma refers_shift:
  assumes "refers (with_new G ds) e p" and "marker \<notin> Domain G" and "length cs + length ds < 2 ^ 32"
  shows "refers (with_new G (cs @ ds)) (shift_entry (of_nat (length cs)) e) p"
proof (cases "fe_xorb_hash e = marker")
  case True
  let ?a = "fe_chunk_index_start e" and ?b = "fe_chunk_index_end e" and ?k = "of_nat (length cs) :: u32"
  have r: "unat ?a < unat ?b" "unat ?b \<le> length ds" "p = slice (map chunk_node ds) (unat ?a) (unat ?b)"
    "unat (fe_unpacked_segment_bytes e) = node_bytes p"
    using assms(1,2) True by (auto simp: refers_def Domain_iff)
  have k: "unat ?k = length cs" using assms(3) by simp
  then have "unat (?a + ?k) = length cs + unat ?a" "unat (?b + ?k) = length cs + unat ?b"
    using r assms(3) by (simp_all add: unat_add_lem [THEN iffD1])
  moreover have "slice (map chunk_node cs @ map chunk_node ds) (length cs + unat ?a) (length cs + unat ?b) = p"
    using r(3) by (simp add: slice_def)
  ultimately show ?thesis
    using True r by (auto simp: refers_def shift_entry_def)
next
  case False
  then show ?thesis using assms(1) by (auto simp: refers_def shift_entry_def)
qed

lemma marker_refs_map:
  assumes "marker_refs es refs" and "\<And>e. (fe_xorb_hash (f e) = marker) = (fe_xorb_hash e = marker)"
  shows "marker_refs (map f es) refs"
proof -
  have "{i. i < length (map f es) \<and> fe_xorb_hash (map f es ! i) = marker} = {i. i < length es \<and> fe_xorb_hash (es ! i) = marker}"
    by (rule Collect_cong) (simp add: assms(2) cong: conj_cong)
  then show ?thesis using assms(1) unfolding marker_refs_def by argo
qed

lemma da_merge_in_ok:
  assumes G: "good_store G" and d: "da_ok kh G d nss" and d': "da_ok kh G d' nss'"
    and fits: "da_num_bytes d + da_num_bytes d' \<le> MAX_XORB_BYTES" "length (da_chunks d) + length (da_chunks d') \<le> MAX_XORB_CHUNKS"
  shows "da_ok kh G (da_merge_in d d') (nss @ nss')"
proof -
  let ?cs = "da_chunks d" and ?ds = "da_chunks d'"
  have mk: "marker \<notin> Domain G" using G by (simp add: good_store_def)
  have le: "length ?cs + length ?ds < 2 ^ 32" using fits(2) by (simp add: MAX_XORB_vals)
  have old: "pending_ok kh (with_new G (?cs @ ?ds)) p ns" if "pending_ok kh (with_new G ?cs) p ns" for p ns
  proof -
    obtain info refs fid where p: "p = (info, refs, fid)" by (cases p)
    then have "describes kh (with_new G ?cs) info ns" using that by (simp add: pending_ok_def)
    then have "describes kh (with_new G (?cs @ ?ds)) info ns" by (rule describes_mono) (erule refers_grow [OF _ mk])
    then show ?thesis using that p by (simp add: pending_ok_def)
  qed
  have new: "pending_ok kh (with_new G (?cs @ ?ds))
      (case p of (info, refs, fid) \<Rightarrow> (info\<lparr>segments := map (shift_entry (of_nat (length ?cs))) (segments info)\<rparr>, refs, fid)) ns"
    if "pending_ok kh (with_new G ?ds) p ns" for p ns
  proof -
    obtain info refs fid where p: "p = (info, refs, fid)" by (cases p)
    then have "describes kh (with_new G ?ds) info ns" using that by (simp add: pending_ok_def)
    then have "describes kh (with_new G (?cs @ ?ds)) (info\<lparr>segments := map (shift_entry (of_nat (length ?cs))) (segments info)\<rparr>) ns"
      by (rule describes_map) (erule refers_shift [OF _ mk le])
    then show ?thesis
      using that p marker_refs_map [of _ _ "shift_entry (of_nat (length ?cs))"] by (simp add: pending_ok_def shift_entry_def)
  qed
  have "list_all2 (pending_ok kh (with_new G (?cs @ ?ds))) (da_pending d) nss"
    using d old unfolding da_ok_def by (auto elim: list.rel_mono_strong)
  moreover have "list_all2 (pending_ok kh (with_new G (?cs @ ?ds)))
      (map (\<lambda>(info, refs, fid). (info\<lparr>segments := map (shift_entry (of_nat (length ?cs))) (segments info)\<rparr>, refs, fid)) (da_pending d')) nss'"
    unfolding list.rel_map using d' new unfolding da_ok_def by (auto elim: list.rel_mono_strong)
  ultimately show ?thesis
    using d d' fits by (simp add: da_ok_def da_merge_in_def Let_def list_all2_appendI)
qed

section \<open>Finalizing the aggregator\<close>

lemma fill_pending_eq:
  "list_all (\<lambda>i. i < length es) refs \<Longrightarrow> \<exists>n'. fill_pending h refs es n = Some (fold (\<lambda>i es. es[i := (es ! i)\<lparr>fe_xorb_hash := h\<rparr>]) refs es, n')"
  by (induction refs arbitrary: es n) (auto simp: list_all_iff)

lemma fill_pending_marker:
  assumes "marker_refs es refs"
  shows "\<exists>n'. fill_pending h refs es n = Some (map (set_hash h) es, n')"
proof -
  have "list_all (\<lambda>i. i < length es) refs" using assms by (auto simp: marker_refs_def list_all_iff)
  moreover from this have "fold (\<lambda>i es. es[i := (es ! i)\<lparr>fe_xorb_hash := h\<rparr>]) refs es = map (set_hash h) es"
    using fill_hash_marker [OF assms, of h] by (simp add: fill_hash_def)
  ultimately show ?thesis using fill_pending_eq [of es refs h n] by simp
qed

text \<open>An entry that refers to no new data is in the store already.\<close>

lemma refers_no_new:
  assumes "refers (with_new G []) e p" and "marker \<notin> Domain G"
  shows "fe_xorb_hash e \<noteq> marker" "refers G e p"
  using assms by (auto simp: refers_def Domain_iff)

lemma describes_fill:
  assumes d: "describes kh (with_new G cs) info ns" and mk: "marker \<notin> Domain G"
    and h: "cs = [] \<or> (h, map chunk_node cs) \<in> G"
  shows "describes kh G (info\<lparr>segments := map (set_hash h) (segments info)\<rparr>) ns"
  using d
proof (rule describes_map)
  fix e p assume e: "refers (with_new G cs) e p"
  show "refers G (set_hash h e) p"
  proof (cases "cs = []")
    case True
    then show ?thesis using refers_no_new [of G e p] e mk by (simp add: set_hash_def)
  next
    case False
    then show ?thesis using refers_cut [OF e mk] h by simp
  qed
qed

lemma fill_all_ok:
  assumes "list_all2 (pending_ok kh (with_new G cs)) ps nss" and "marker \<notin> Domain G"
    and "cs = [] \<or> (h, map chunk_node cs) \<in> G"
  shows "\<exists>rs. fill_all h ps = Some rs \<and> list_all2 (\<lambda>(_, info, _) ns. describes kh G info ns) rs nss"
  using assms(1)
proof (induction ps nss rule: list_all2_induct)
  case (Cons p ps ns nss)
  obtain info refs fid where p: "p = (info, refs, fid)" by (cases p)
  obtain n where "fill_pending h refs (segments info) 0 = Some (map (set_hash h) (segments info), n)"
    using fill_pending_marker [of "segments info" refs h 0] Cons.hyps(1) by (auto simp: pending_ok_def p)
  then show ?case
    using Cons describes_fill [OF _ assms(2,3), of kh info ns] by (auto simp: p pending_ok_def)
qed simp

lemma da_finalize_ok:
  assumes d: "da_ok kh G d nss" and len: "list_all (\<lambda>c. length (chunk_data c) < 2 ^ 64) (da_chunks d)" and G: "good_store G"
    and h: "da_chunks d = [] \<or> (xorb_hash kh (map chunk_node (da_chunks d)), map chunk_node (da_chunks d)) \<in> G"
  obtains x rs where "da_finalize kh d = Some (x, rs)" "raw_xorb_hash x = xorb_hash kh (map chunk_node (da_chunks d))"
    "xorb_nodes (rx_xorb_info x) = map chunk_node (da_chunks d)" "raw_xorb_wf x"
    "list_all2 (\<lambda>(_, info, _) ns. describes kh G info ns) rs nss"
proof -
  obtain x where x: "raw_xorb_from_chunks kh (da_chunks d) (da_boundaries d) = Some x"
    "raw_xorb_hash x = xorb_hash kh (map chunk_node (da_chunks d))"
    "xorb_nodes (rx_xorb_info x) = map chunk_node (da_chunks d)" "raw_xorb_wf x"
    using raw_xorb_wf_ok [OF _ _ len] d unfolding da_ok_def by metis
  obtain rs where "fill_all (raw_xorb_hash x) (da_pending d) = Some rs"
    "list_all2 (\<lambda>(_, info, _) ns. describes kh G info ns) rs nss"
    using fill_all_ok [of kh "da_chunks d" G "da_pending d" nss "raw_xorb_hash x"] d G h x(2)
    by (auto simp: da_ok_def good_store_def)
  then show thesis using x by (intro that) (simp_all add: da_finalize_def)
qed

end
