(* ===== verification/Shard_In_Memory.thy ===== *)
theory Shard_In_Memory
  imports File_Structs Xorb_Structs
begin

text \<open>
  The shard kept in memory, \<open>xet_core_structures/src/metadata_shard/shard_in_memory.rs\<close>. A
  \<open>BTreeMap\<close> is the list of its entries in the order of the keys; the hash map of the chunk lookup is
  kept in the same form, its order of iteration is never used. An \<open>Arc\<close> is the value it points to.
  The size is a \<open>u64\<close>. Writing the shard to a file is the shard format's serialization.
\<close>

section \<open>Ordered maps\<close>

type_synonym ('k, 'v) btree_map = "('k \<times> 'v) list"

fun bt_insert :: "'k::linorder \<Rightarrow> 'v \<Rightarrow> ('k, 'v) btree_map \<Rightarrow> ('k, 'v) btree_map" where
  "bt_insert k v [] = [(k, v)]"
| "bt_insert k v ((a, b) # xs) =
     (if k < a then (k, v) # (a, b) # xs else if k = a then (k, v) # xs else (a, b) # bt_insert k v xs)"

definition bt_sorted :: "('k::linorder, 'v) btree_map \<Rightarrow> bool" where
  "bt_sorted m \<longleftrightarrow> sorted_wrt (<) (map fst m)"

lemma map_of_bt_insert [simp]: "map_of (bt_insert k v m) = (map_of m)(k \<mapsto> v)"
  by (induction m) (auto simp: fun_eq_iff)

lemma keys_bt_insert: "set (map fst (bt_insert k v m)) = insert k (set (map fst m))"
  by (induction k v m rule: bt_insert.induct) (simp_all add: insert_commute del: set_map)

lemma bt_sorted_insert: "bt_sorted m \<Longrightarrow> bt_sorted (bt_insert k v m)"
proof (induction m)
  case (Cons x m)
  obtain a b where x: "x = (a, b)" by force
  have "\<forall>y \<in> set (map fst m). a < y" "bt_sorted m" using Cons.prems by (simp_all add: bt_sorted_def x)
  then show ?case using Cons.IH keys_bt_insert [of k v m] by (auto simp: bt_sorted_def x simp del: set_map)
qed (simp add: bt_sorted_def)

lemma bt_sorted_distinct: "bt_sorted m \<Longrightarrow> distinct (map fst m)"
  unfolding bt_sorted_def by (simp add: strict_sorted_iff)

lemma bt_sorted_filter: "bt_sorted m \<Longrightarrow> bt_sorted (filter P m)"
  by (induction m) (auto simp: bt_sorted_def)

lemma map_of_bt_filter:
  "bt_sorted m \<Longrightarrow> map_of (filter (\<lambda>(k, v). Q k) m) k = (if Q k then map_of m k else None)"
  by (induction m) (auto simp: bt_sorted_def)

section \<open>The shard\<close>

record mdb_in_memory_shard =
  xorb_content :: "(merkle_hash, mdb_xorb_info) btree_map"
  file_content :: "(merkle_hash, mdb_file_info) btree_map"
  chunk_hash_lookup :: "(merkle_hash, mdb_xorb_info \<times> u64) btree_map"
  current_shard_file_size :: u64

definition shard_default :: mdb_in_memory_shard where
  "shard_default = \<lparr>xorb_content = [], file_content = [], chunk_hash_lookup = [], current_shard_file_size = 0\<rparr>"

text \<open>The loop over the chunks of a xorb, from chunk \<open>i\<close> on.\<close>

fun add_chunk_lookups :: "mdb_xorb_info \<Rightarrow> nat \<Rightarrow> xorb_chunk_sequence_entry list \<Rightarrow> mdb_in_memory_shard \<Rightarrow> mdb_in_memory_shard" where
  "add_chunk_lookups info i [] s = s"
| "add_chunk_lookups info i (c # cs) s =
     add_chunk_lookups info (Suc i) cs
       (s\<lparr>chunk_hash_lookup := bt_insert (xe_chunk_hash c) (info, of_nat i) (chunk_hash_lookup s),
          current_shard_file_size := current_shard_file_size s + 16\<rparr>)"

definition add_xorb_block :: "mdb_xorb_info \<Rightarrow> mdb_in_memory_shard \<Rightarrow> mdb_in_memory_shard" where
  "add_xorb_block info s =
     (let s = s\<lparr>xorb_content := bt_insert (xh_xorb_hash (xorb_metadata info)) info (xorb_content s)\<rparr>;
          s = add_chunk_lookups info 0 (xorb_chunks info) s
      in s\<lparr>current_shard_file_size := current_shard_file_size s + xorb_info_num_bytes info + 12\<rparr>)"

definition add_file_reconstruction_info :: "mdb_file_info \<Rightarrow> mdb_in_memory_shard \<Rightarrow> mdb_in_memory_shard" where
  "add_file_reconstruction_info info s =
     s\<lparr>current_shard_file_size := current_shard_file_size s + file_info_num_bytes info + 12,
       file_content := bt_insert (fh_file_hash (metadata info)) info (file_content s)\<rparr>"

definition recalculate_shard_size :: "mdb_in_memory_shard \<Rightarrow> mdb_in_memory_shard" where
  "recalculate_shard_size s =
     s\<lparr>current_shard_file_size :=
         sum_list (map (\<lambda>(_, x). xorb_info_num_bytes x + 12) (xorb_content s)) +
         sum_list (map (\<lambda>(_, f). file_info_num_bytes f + 12) (file_content s)) +
         of_nat (16 * length (chunk_hash_lookup s))\<rparr>"

text \<open>The loop over the files of the other shard; \<open>merge_from\<close> never returns an error.\<close>

fun union_files ::
  "(merkle_hash, mdb_file_info) btree_map \<Rightarrow> (merkle_hash, mdb_file_info) btree_map \<Rightarrow>
   (merkle_hash, mdb_file_info) btree_map" where
  "union_files files [] = files"
| "union_files files ((k, v) # other) =
     (case map_of files k of
        None \<Rightarrow> union_files (bt_insert k v files) other
      | Some old_v \<Rightarrow> union_files (bt_insert k (file_info_merge_from old_v v) files) other)"

definition shard_union :: "mdb_in_memory_shard \<Rightarrow> mdb_in_memory_shard \<Rightarrow> mdb_in_memory_shard" where
  "shard_union self other =
     recalculate_shard_size
       \<lparr>xorb_content = fold (\<lambda>(k, v). bt_insert k v) (xorb_content other) (xorb_content self),
        file_content = union_files (file_content self) (file_content other),
        chunk_hash_lookup = fold (\<lambda>(k, v). bt_insert k v) (chunk_hash_lookup other) (chunk_hash_lookup self),
        current_shard_file_size = 0\<rparr>"

text \<open>What the other shard has and this one has not.\<close>

definition shard_difference :: "mdb_in_memory_shard \<Rightarrow> mdb_in_memory_shard \<Rightarrow> mdb_in_memory_shard" where
  "shard_difference self other =
     recalculate_shard_size
       \<lparr>xorb_content = filter (\<lambda>(k, _). map_of (xorb_content self) k = None) (xorb_content other),
        file_content = filter (\<lambda>(k, _). map_of (file_content self) k = None) (file_content other),
        chunk_hash_lookup = filter (\<lambda>(k, _). map_of (chunk_hash_lookup self) k = None) (chunk_hash_lookup other),
        current_shard_file_size = 0\<rparr>"

definition get_file_reconstruction_info :: "mdb_in_memory_shard \<Rightarrow> merkle_hash \<Rightarrow> mdb_file_info option" where
  "get_file_reconstruction_info s file_hash = map_of (file_content s) file_hash"

text \<open>The loop that extends the match chunk by chunk.\<close>

function dedup_query_loop :: "xorb_chunk_sequence_entry list \<Rightarrow> nat \<Rightarrow> merkle_hash list \<Rightarrow> nat \<Rightarrow> nat" where
  "dedup_query_loop cs start hs q =
     (if length cs \<le> start + q then q
      else if length hs \<le> q \<or> xe_chunk_hash (cs ! (start + q)) \<noteq> hs ! q then q
      else dedup_query_loop cs start hs (q + 1))"
  by pat_completeness auto
termination
  by (relation "measure (\<lambda>(cs, start, hs, q). length hs - q)") auto

declare dedup_query_loop.simps [simp del]

text \<open>The outer option is a panic: a slice out of range or a failed conversion.\<close>

definition shard_dedup_query ::
  "mdb_in_memory_shard \<Rightarrow> merkle_hash list \<Rightarrow> (nat \<times> file_data_sequence_entry) option option" where
  "shard_dedup_query s hs =
     (if hs = [] then Some None
      else (case map_of (chunk_hash_lookup s) (hs ! 0) of
             None \<Rightarrow> Some None
           | Some (info, i) \<Rightarrow>
               (let start = unat i; q = dedup_query_loop (xorb_chunks info) start hs 0 in
                if length (xorb_chunks info) < start + q then None
                else map_option (\<lambda>fse. Some (q, fse))
                       (file_entry_from_xorb_entries (xorb_metadata info)
                          (slice (xorb_chunks info) start (start + q)) start (start + q)))))"

definition num_xorb_entries :: "mdb_in_memory_shard \<Rightarrow> nat" where
  "num_xorb_entries s = length (xorb_content s)"

definition num_file_entries :: "mdb_in_memory_shard \<Rightarrow> nat" where
  "num_file_entries s = length (file_content s)"

definition stored_bytes_on_disk :: "mdb_in_memory_shard \<Rightarrow> u64" where
  "stored_bytes_on_disk s = foldl (\<lambda>acc (_, x). acc + ucast (xh_num_bytes_on_disk (xorb_metadata x))) 0 (xorb_content s)"

definition materialized_bytes :: "mdb_in_memory_shard \<Rightarrow> u64" where
  "materialized_bytes s =
     foldl (\<lambda>acc (_, f). acc + foldl (\<lambda>acc e. acc + ucast (fe_unpacked_segment_bytes e)) 0 (segments f)) 0 (file_content s)"

definition stored_bytes :: "mdb_in_memory_shard \<Rightarrow> u64" where
  "stored_bytes s = foldl (\<lambda>acc (_, x). acc + ucast (xh_num_bytes_in_xorb (xorb_metadata x))) 0 (xorb_content s)"

definition shard_is_empty :: "mdb_in_memory_shard \<Rightarrow> bool" where
  "shard_is_empty s \<longleftrightarrow> xorb_content s = [] \<and> file_content s = []"

section \<open>Invariant\<close>

text \<open>
  The maps are in order, the contents are stored under their own hash, and a chunk lookup leads to a
  chunk with that hash, in a xorb whose chunk indices fit in 32 bits.
\<close>

definition lookup_ok :: "(merkle_hash, mdb_xorb_info \<times> u64) btree_map \<Rightarrow> bool" where
  "lookup_ok m \<longleftrightarrow> (\<forall>h info i. map_of m h = Some (info, i) \<longrightarrow>
     unat i < length (xorb_chunks info) \<and> xe_chunk_hash (xorb_chunks info ! unat i) = h \<and> length (xorb_chunks info) < 2 ^ 32)"

definition shard_inv :: "mdb_in_memory_shard \<Rightarrow> bool" where
  "shard_inv s \<longleftrightarrow>
     bt_sorted (xorb_content s) \<and> bt_sorted (file_content s) \<and> bt_sorted (chunk_hash_lookup s) \<and>
     (\<forall>h info. map_of (xorb_content s) h = Some info \<longrightarrow> xh_xorb_hash (xorb_metadata info) = h) \<and>
     (\<forall>h info. map_of (file_content s) h = Some info \<longrightarrow> fh_file_hash (metadata info) = h) \<and>
     lookup_ok (chunk_hash_lookup s)"

text \<open>The xorbs that a lookup may lead to.\<close>

definition shard_xorbs :: "mdb_in_memory_shard \<Rightarrow> mdb_xorb_info set" where
  "shard_xorbs s = {info. \<exists>h i. map_of (chunk_hash_lookup s) h = Some (info, i)}"

lemma add_chunk_lookups_fields [simp]:
  "xorb_content (add_chunk_lookups info i cs s) = xorb_content s"
  "file_content (add_chunk_lookups info i cs s) = file_content s"
  "current_shard_file_size (add_chunk_lookups info i cs s) = current_shard_file_size s + 16 * of_nat (length cs)"
  by (induction info i cs s rule: add_chunk_lookups.induct) (simp_all add: algebra_simps)

lemma add_chunk_lookups_cases:
  assumes "map_of (chunk_hash_lookup (add_chunk_lookups info i cs s)) h = Some (info', j)"
  shows "map_of (chunk_hash_lookup s) h = Some (info', j) \<or>
    info' = info \<and> (\<exists>k < length cs. j = of_nat (i + k) \<and> xe_chunk_hash (cs ! k) = h)"
  using assms
proof (induction info i cs s rule: add_chunk_lookups.induct)
  case (2 info i c cs s)
  from "2.IH" "2.prems" consider
    "map_of ((chunk_hash_lookup s)) h = Some (info', j)" | "xe_chunk_hash c = h" "info' = info" "j = of_nat i"
    | k where "k < length cs" "j = of_nat (Suc i + k)" "xe_chunk_hash (cs ! k) = h" "info' = info"
    by (fastforce split: if_splits)
  then show ?case
  proof cases
    case 2
    then show ?thesis by (intro disjI2 conjI exI [of _ 0]) simp_all
  next
    case (3 k)
    then show ?thesis by (intro disjI2 conjI exI [of _ "Suc k"]) simp_all
  qed simp
qed simp

lemma add_chunk_lookups_sorted:
  "bt_sorted (chunk_hash_lookup s) \<Longrightarrow> bt_sorted (chunk_hash_lookup (add_chunk_lookups info i cs s))"
  by (induction info i cs s rule: add_chunk_lookups.induct) (simp_all add: bt_sorted_insert)

lemma add_xorb_block_lookup:
  assumes "map_of (chunk_hash_lookup (add_xorb_block info s)) h = Some (info', j)" and "length (xorb_chunks info) < 2 ^ 32"
  shows "map_of (chunk_hash_lookup s) h = Some (info', j) \<or>
    info' = info \<and> unat j < length (xorb_chunks info) \<and> xe_chunk_hash (xorb_chunks info ! unat j) = h"
proof -
  have "k < length (xorb_chunks info) \<Longrightarrow> unat (of_nat k :: u64) = k" for k
    using assms(2) by (simp add: unsigned_of_nat take_bit_nat_eq_self)
  then show ?thesis
    using assms(1) add_chunk_lookups_cases [of info 0 "xorb_chunks info" _ h info' j]
    by (fastforce simp: add_xorb_block_def Let_def)
qed

lemma add_xorb_block_inv:
  assumes "shard_inv s" and "length (xorb_chunks info) < 2 ^ 32"
  shows "shard_inv (add_xorb_block info s)" "shard_xorbs (add_xorb_block info s) \<subseteq> insert info (shard_xorbs s)"
proof -
  have "lookup_ok (chunk_hash_lookup (add_xorb_block info s))"
    unfolding lookup_ok_def using add_xorb_block_lookup [OF _ assms(2)] assms
    by (fastforce simp: shard_inv_def lookup_ok_def)
  then show "shard_inv (add_xorb_block info s)"
    using assms(1) by (auto simp: shard_inv_def add_xorb_block_def Let_def bt_sorted_insert add_chunk_lookups_sorted)
  show "shard_xorbs (add_xorb_block info s) \<subseteq> insert info (shard_xorbs s)"
    using add_xorb_block_lookup [OF _ assms(2)] by (fastforce simp: shard_xorbs_def)
qed

lemma add_file_inv: "shard_inv s \<Longrightarrow> shard_inv (add_file_reconstruction_info info s)"
  by (simp add: shard_inv_def add_file_reconstruction_info_def bt_sorted_insert)

section \<open>The dedup query\<close>

lemma dedup_query_loop_spec:
  assumes "start + q \<le> length cs" and "q \<le> length hs" and "map xe_chunk_hash (slice cs start (start + q)) = take q hs"
  defines "n \<equiv> dedup_query_loop cs start hs q"
  shows "q \<le> n \<and> start + n \<le> length cs \<and> n \<le> length hs \<and> map xe_chunk_hash (slice cs start (start + n)) = take n hs \<and>
    (start + n < length cs \<and> n < length hs \<longrightarrow> xe_chunk_hash (cs ! (start + n)) \<noteq> hs ! n)"
  using assms(1-3) unfolding n_def
proof (induction cs start hs q rule: dedup_query_loop.induct)
  case (1 cs start hs q)
  show ?case
  proof (cases "length cs \<le> start + q \<or> length hs \<le> q \<or> xe_chunk_hash (cs ! (start + q)) \<noteq> hs ! q")
    case True
    then show ?thesis using 1(2-4) by (auto simp: dedup_query_loop.simps [of cs start hs q])
  next
    case False
    then have "q < length (drop start cs)" by auto
    then have "slice cs start (start + (q + 1)) = slice cs start (start + q) @ [cs ! (start + q)]"
      by (simp add: slice_def take_Suc_conv_app_nth)
    then have "map xe_chunk_hash (slice cs start (start + (q + 1))) = take (q + 1) hs"
      using False 1(4) by (simp add: take_Suc_conv_app_nth)
    then show ?thesis
      using False 1(1) by (simp add: dedup_query_loop.simps [of cs start hs q])
  qed
qed

lemma shard_dedup_query_hit:
  assumes inv: "shard_inv s" and q: "map_of (chunk_hash_lookup s) (hs ! 0) = Some (info, i)" and hs: "hs \<noteq> []"
  obtains n fse where "shard_dedup_query s hs = Some (Some (n, fse))" "0 < n" "n \<le> length hs"
    "unat i + n \<le> length (xorb_chunks info)"
    "fse = \<lparr>fe_xorb_hash = xh_xorb_hash (xorb_metadata info), fe_xorb_flags = xh_xorb_flags (xorb_metadata info),
       fe_unpacked_segment_bytes = sum_list (map xe_unpacked_segment_bytes (slice (xorb_chunks info) (unat i) (unat i + n))),
       fe_chunk_index_start = of_nat (unat i), fe_chunk_index_end = of_nat (unat i + n)\<rparr>"
    "map xe_chunk_hash (slice (xorb_chunks info) (unat i) (unat i + n)) = take n hs"
    "unat i + n < length (xorb_chunks info) \<and> n < length hs \<longrightarrow> xe_chunk_hash (xorb_chunks info ! (unat i + n)) \<noteq> hs ! n"
proof -
  let ?cs = "xorb_chunks info"
  have i: "unat i < length ?cs" "xe_chunk_hash (?cs ! unat i) = hs ! 0" "length ?cs < 2 ^ 32"
    using inv q by (auto simp: shard_inv_def lookup_ok_def)
  define n where "n = dedup_query_loop ?cs (unat i) hs 0"
  have n: "unat i + n \<le> length ?cs" "n \<le> length hs" "map xe_chunk_hash (slice ?cs (unat i) (unat i + n)) = take n hs"
    "unat i + n < length ?cs \<and> n < length hs \<longrightarrow> xe_chunk_hash (?cs ! (unat i + n)) \<noteq> hs ! n"
    using dedup_query_loop_spec [of "unat i" 0 ?cs hs] i by (simp_all add: n_def slice_def)
  have "0 < n"
    using n(4) i hs by (cases n) auto
  moreover from this have ne: "slice ?cs (unat i) (unat i + n) \<noteq> []"
    using i(1) by (simp add: slice_def)
  moreover have "unat i + n < 2 ^ 32" using n(1) i(3) by simp
  ultimately have "shard_dedup_query s hs = Some (Some (n, \<lparr>fe_xorb_hash = xh_xorb_hash (xorb_metadata info),
       fe_xorb_flags = xh_xorb_flags (xorb_metadata info),
       fe_unpacked_segment_bytes = sum_list (map xe_unpacked_segment_bytes (slice ?cs (unat i) (unat i + n))),
       fe_chunk_index_start = of_nat (unat i), fe_chunk_index_end = of_nat (unat i + n)\<rparr>))"
    using q hs n(1) unfolding shard_dedup_query_def Let_def
    by (simp add: n_def [symmetric] file_entry_from_xorb_entries_def try_u32_def)
  then show thesis using \<open>0 < n\<close> n by (intro that) simp_all
qed

lemma shard_dedup_query_miss:
  "hs = [] \<or> map_of (chunk_hash_lookup s) (hs ! 0) = None \<Longrightarrow> shard_dedup_query s hs = Some None"
  by (auto simp: shard_dedup_query_def)

end
