(* ===== verification/Upload_Tracking.thy ===== *)
theory Upload_Tracking
  imports File_Dedup Shard_In_Memory
begin

text \<open>
  Completion tracking of an upload, \<open>xet_data/src/progress_tracking/upload_tracking.rs\<close>: which files
  wait for which xorbs, and how many bytes of each are done. The counters of \<open>progress_types.rs\<close> that
  the tracker drives (\<open>ItemProgress\<close> of a file and \<open>GroupProgress\<close>) are kept with it; names and
  identifiers that only appear in messages are left out. The mutex makes each operation atomic. All
  counters are \<open>u64\<close> and wrap; \<open>None\<close> is an index out of range. The share of a part that is done, a
  floating-point product, is the parameter \<open>ratio\<close>. A \<open>BTreeSet\<close> is its list of elements in order.
\<close>

section \<open>State\<close>

record xorb_dependency =
  xd_file_indices :: "nat list"
  xd_completed_bytes :: u64
  xd_xorb_size :: u64
  xd_is_completed :: bool

definition xorb_dependency_default :: xorb_dependency where
  "xorb_dependency_default =
     \<lparr>xd_file_indices = [], xd_completed_bytes = 0, xd_xorb_size = 0, xd_is_completed = False\<rparr>"

record xorb_part =
  xp_completed_bytes :: u64
  xp_n_bytes :: u64

definition xorb_part_default :: xorb_part where
  "xorb_part_default = \<lparr>xp_completed_bytes = 0, xp_n_bytes = 0\<rparr>"

record item_progress =
  ip_total_bytes :: u64
  ip_bytes_completed :: u64
  ip_size_finalized :: bool

record file_dependency =
  fdep_item :: item_progress
  fdep_total_bytes :: u64
  fdep_is_final_size_known :: bool
  fdep_completed_bytes :: u64
  fdep_remaining :: "(merkle_hash, xorb_part) btree_map"

record group_progress =
  gp_total_bytes :: u64
  gp_total_bytes_completed :: u64
  gp_total_transfer_bytes :: u64
  gp_total_transfer_bytes_completed :: u64

record completion_tracker =
  ct_files :: "file_dependency list"
  ct_xorbs :: "(merkle_hash, xorb_dependency) btree_map"
  ct_total_upload_bytes :: u64
  ct_total_upload_bytes_completed :: u64
  ct_total_bytes :: u64
  ct_total_bytes_completed :: u64
  ct_group :: group_progress

definition completion_tracker_new :: completion_tracker where
  "completion_tracker_new =
     \<lparr>ct_files = [], ct_xorbs = [], ct_total_upload_bytes = 0, ct_total_upload_bytes_completed = 0,
      ct_total_bytes = 0, ct_total_bytes_completed = 0,
      ct_group = \<lparr>gp_total_bytes = 0, gp_total_bytes_completed = 0, gp_total_transfer_bytes = 0,
        gp_total_transfer_bytes_completed = 0\<rparr>\<rparr>"

text \<open>\<open>entry(k).or_default()\<close>.\<close>

definition entry_or_default :: "'v \<Rightarrow> (merkle_hash, 'v) btree_map \<Rightarrow> merkle_hash \<Rightarrow> 'v" where
  "entry_or_default d m k = (case map_of m k of None \<Rightarrow> d | Some v \<Rightarrow> v)"

fun bt_remove :: "'k \<Rightarrow> ('k, 'v) btree_map \<Rightarrow> ('k, 'v) btree_map" where
  "bt_remove k [] = []"
| "bt_remove k ((a, b) # m) = (if a = k then m else (a, b) # bt_remove k m)"

fun set_insert :: "nat \<Rightarrow> nat list \<Rightarrow> nat list" where
  "set_insert k [] = [k]"
| "set_insert k (a # xs) = (if k < a then k # a # xs else if k = a then a # xs else a # set_insert k xs)"

section \<open>Counters\<close>

text \<open>\<open>ItemProgressUpdater\<close>: the item and its group.\<close>

definition update_item_size :: "u64 \<Rightarrow> bool \<Rightarrow> item_progress \<Rightarrow> group_progress \<Rightarrow> item_progress \<times> group_progress" where
  "update_item_size total_sz is_final it g =
     (if ip_size_finalized it then (it, g)
      else
        let it = (if is_final then it\<lparr>ip_size_finalized := True\<rparr> else it); old = ip_total_bytes it in
        if old < total_sz then (it\<lparr>ip_total_bytes := total_sz\<rparr>, g\<lparr>gp_total_bytes := gp_total_bytes g + (total_sz - old)\<rparr>)
        else (it, g))"

definition report_bytes_completed :: "u64 \<Rightarrow> item_progress \<Rightarrow> group_progress \<Rightarrow> item_progress \<times> group_progress" where
  "report_bytes_completed increment it g =
     (if increment = 0 then (it, g)
      else (it\<lparr>ip_bytes_completed := ip_bytes_completed it + increment\<rparr>,
            g\<lparr>gp_total_bytes_completed := gp_total_bytes_completed g + increment\<rparr>))"

text \<open>Crediting bytes to a file: its counter and its item.\<close>

definition credit_file :: "u64 \<Rightarrow> file_dependency \<Rightarrow> group_progress \<Rightarrow> file_dependency \<times> group_progress" where
  "credit_file n f g =
     (let (it, g) = report_bytes_completed n (fdep_item f) g
      in (f\<lparr>fdep_completed_bytes := fdep_completed_bytes f + n, fdep_item := it\<rparr>, g))"

section \<open>Operations\<close>

definition tracker_register_new_file :: "u64 option \<Rightarrow> completion_tracker \<Rightarrow> nat \<times> completion_tracker" where
  "tracker_register_new_file n_bytes t =
     (let (total_sz, known) = (case n_bytes of Some sz \<Rightarrow> (sz, True) | None \<Rightarrow> (0, False));
          (it, g) = update_item_size total_sz known \<lparr>ip_total_bytes = 0, ip_bytes_completed = 0, ip_size_finalized = False\<rparr> (ct_group t);
          f = \<lparr>fdep_item = it, fdep_total_bytes = total_sz, fdep_is_final_size_known = known, fdep_completed_bytes = 0,
               fdep_remaining = []\<rparr>
      in (length (ct_files t),
          t\<lparr>ct_files := ct_files t @ [f], ct_total_bytes := ct_total_bytes t + total_sz, ct_group := g\<rparr>))"

definition increment_file_size :: "nat \<Rightarrow> u64 \<Rightarrow> completion_tracker \<Rightarrow> completion_tracker option" where
  "increment_file_size fid n t =
     (if length (ct_files t) \<le> fid then None
      else
        let f = ct_files t ! fid in
        if fdep_is_final_size_known f then Some t
        else
          let (it, g) = update_item_size (fdep_total_bytes f + n) False (fdep_item f) (ct_group t)
          in Some (t\<lparr>ct_files := (ct_files t)[fid := f\<lparr>fdep_total_bytes := fdep_total_bytes f + n, fdep_item := it\<rparr>],
                     ct_total_bytes := ct_total_bytes t + n, ct_group := g\<rparr>))"

text \<open>One dependency: the tracker and the bytes processed.\<close>

definition register_dependency :: "file_xorb_dependency \<Rightarrow> completion_tracker \<Rightarrow> (completion_tracker \<times> u64) option" where
  "register_dependency dep t =
     (let fid = unat (dep_file_id dep); h = dep_xorb_hash dep; n = dep_n_bytes dep in
      if length (ct_files t) \<le> fid then None
      else
        let f = ct_files t ! fid;
            entry = entry_or_default xorb_dependency_default (ct_xorbs t) h;
            (f', g) = credit_file n f (ct_group t) in
        if dep_is_external dep then Some (t\<lparr>ct_files := (ct_files t)[fid := f'], ct_group := g\<rparr>, n)
        else if xd_is_completed entry then
          Some (t\<lparr>ct_files := (ct_files t)[fid := f'], ct_group := g, ct_xorbs := bt_insert h entry (ct_xorbs t)\<rparr>, n)
        else
          let p = entry_or_default xorb_part_default (fdep_remaining f) h in
          Some (t\<lparr>ct_xorbs := bt_insert h (entry\<lparr>xd_file_indices := set_insert fid (xd_file_indices entry)\<rparr>) (ct_xorbs t),
                  ct_files := (ct_files t)[fid := f\<lparr>fdep_remaining :=
                    bt_insert h (p\<lparr>xp_n_bytes := xp_n_bytes p + n\<rparr>) (fdep_remaining f)\<rparr>]\<rparr>, 0))"

fun register_dependency_loop ::
  "file_xorb_dependency list \<Rightarrow> u64 \<Rightarrow> completion_tracker \<Rightarrow> (completion_tracker \<times> u64) option" where
  "register_dependency_loop [] processed t = Some (t, processed)"
| "register_dependency_loop (d # ds) processed t =
     Option.bind (register_dependency d t) (\<lambda>(t, n). register_dependency_loop ds (processed + n) t)"

definition register_dependencies :: "file_xorb_dependency list \<Rightarrow> completion_tracker \<Rightarrow> completion_tracker option" where
  "register_dependencies ds t =
     Option.bind (register_dependency_loop ds 0 t) (\<lambda>(t, n).
       Some (t\<lparr>ct_total_bytes_completed := ct_total_bytes_completed t + n\<rparr>))"

definition add_upload_bytes :: "u64 \<Rightarrow> completion_tracker \<Rightarrow> completion_tracker" where
  "add_upload_bytes n t =
     t\<lparr>ct_total_upload_bytes := ct_total_upload_bytes t + n,
       ct_group := (ct_group t)\<lparr>gp_total_transfer_bytes := gp_total_transfer_bytes (ct_group t) + n\<rparr>\<rparr>"

definition tracker_register_new_xorb :: "merkle_hash \<Rightarrow> u64 \<Rightarrow> completion_tracker \<Rightarrow> bool \<times> completion_tracker" where
  "tracker_register_new_xorb h xorb_size t =
     (case map_of (ct_xorbs t) h of
        Some entry \<Rightarrow>
          if xd_xorb_size entry = 0
          then (True, add_upload_bytes xorb_size (t\<lparr>ct_xorbs := bt_insert h (entry\<lparr>xd_xorb_size := xorb_size\<rparr>) (ct_xorbs t)\<rparr>))
          else (False, t)
      | None \<Rightarrow>
          (True, add_upload_bytes xorb_size (t\<lparr>ct_xorbs := bt_insert h
             \<lparr>xd_file_indices = [], xd_completed_bytes = 0, xd_xorb_size = xorb_size, xd_is_completed = False\<rparr> (ct_xorbs t)\<rparr>)))"

text \<open>The files that wait for a completed xorb.\<close>

fun complete_files ::
  "merkle_hash \<Rightarrow> nat list \<Rightarrow> u64 \<Rightarrow> completion_tracker \<Rightarrow> (completion_tracker \<times> u64) option" where
  "complete_files h [] processed t = Some (t, processed)"
| "complete_files h (fid # fids) processed t =
     (if length (ct_files t) \<le> fid then None
      else
        let f = ct_files t ! fid;
            p = entry_or_default xorb_part_default (fdep_remaining f) h;
            f = f\<lparr>fdep_remaining := bt_remove h (fdep_remaining f)\<rparr>;
            n = xp_n_bytes p - xp_completed_bytes p;
            (f, g) = credit_file n f (ct_group t)
        in complete_files h fids (processed + n) (t\<lparr>ct_files := (ct_files t)[fid := f], ct_group := g\<rparr>))"

definition add_upload_completed :: "u64 \<Rightarrow> completion_tracker \<Rightarrow> completion_tracker" where
  "add_upload_completed n t =
     t\<lparr>ct_total_upload_bytes_completed := ct_total_upload_bytes_completed t + n,
       ct_group := (ct_group t)\<lparr>gp_total_transfer_bytes_completed := gp_total_transfer_bytes_completed (ct_group t) + n\<rparr>\<rparr>"

definition register_xorb_upload_completion :: "merkle_hash \<Rightarrow> completion_tracker \<Rightarrow> completion_tracker option" where
  "register_xorb_upload_completion h t =
     (let entry = entry_or_default xorb_dependency_default (ct_xorbs t) h in
      if xd_is_completed entry then Some t
      else
        let increment = xd_xorb_size entry - xd_completed_bytes entry;
            t = t\<lparr>ct_xorbs := bt_insert h (entry\<lparr>xd_is_completed := True, xd_file_indices := []\<rparr>) (ct_xorbs t)\<rparr>
        in Option.bind (complete_files h (xd_file_indices entry) 0 t) (\<lambda>(t, n).
             let t = add_upload_completed increment t
             in Some (t\<lparr>ct_total_bytes_completed := ct_total_bytes_completed t + n\<rparr>)))"

text \<open>\<open>ratio n completed size\<close> is the floor of \<open>n * (completed / size)\<close> in floating point.\<close>

fun progress_files ::
  "(u64 \<Rightarrow> u64 \<Rightarrow> u64 \<Rightarrow> u64) \<Rightarrow> merkle_hash \<Rightarrow> xorb_dependency \<Rightarrow> nat list \<Rightarrow> u64 \<Rightarrow> completion_tracker \<Rightarrow>
   (completion_tracker \<times> u64) option" where
  "progress_files ratio h entry [] processed t = Some (t, processed)"
| "progress_files ratio h entry (fid # fids) processed t =
     (if length (ct_files t) \<le> fid then None
      else
        let f = ct_files t ! fid in
        case map_of (fdep_remaining f) h of
          None \<Rightarrow> progress_files ratio h entry fids processed t
        | Some p \<Rightarrow>
            let done_bytes = ratio (xp_n_bytes p) (xd_completed_bytes entry) (xd_xorb_size entry);
                update = (if xp_completed_bytes p \<le> done_bytes then done_bytes - xp_completed_bytes p else 0);
                f = f\<lparr>fdep_remaining := bt_insert h (p\<lparr>xp_completed_bytes := xp_completed_bytes p + update\<rparr>) (fdep_remaining f)\<rparr>;
                (f, g) = credit_file update f (ct_group t)
            in progress_files ratio h entry fids (processed + update) (t\<lparr>ct_files := (ct_files t)[fid := f], ct_group := g\<rparr>))"

definition register_xorb_upload_progress ::
  "(u64 \<Rightarrow> u64 \<Rightarrow> u64 \<Rightarrow> u64) \<Rightarrow> merkle_hash \<Rightarrow> u64 \<Rightarrow> bool \<Rightarrow> completion_tracker \<Rightarrow> completion_tracker option" where
  "register_xorb_upload_progress ratio h new_byte_progress check_ordering t =
     (let entry = entry_or_default xorb_dependency_default (ct_xorbs t) h in
      if \<not> check_ordering \<and> xd_is_completed entry then Some t
      else
        let entry = entry\<lparr>xd_completed_bytes := xd_completed_bytes entry + new_byte_progress\<rparr>;
            t = t\<lparr>ct_xorbs := bt_insert h entry (ct_xorbs t)\<rparr>
        in Option.bind (progress_files ratio h entry (xd_file_indices entry) 0 t) (\<lambda>(t, n).
             let t = add_upload_completed new_byte_progress t
             in Some (t\<lparr>ct_total_bytes_completed := ct_total_bytes_completed t + n\<rparr>)))"

definition tracker_status :: "completion_tracker \<Rightarrow> u64 \<times> u64" where
  "tracker_status t =
     (sum_list (map fdep_completed_bytes (ct_files t)), sum_list (map fdep_total_bytes (ct_files t)))"

definition tracker_is_complete :: "completion_tracker \<Rightarrow> bool" where
  "tracker_is_complete t \<longleftrightarrow> fst (tracker_status t) = snd (tracker_status t)"

definition tracker_assert_complete :: "completion_tracker \<Rightarrow> bool" where
  "tracker_assert_complete t \<longleftrightarrow>
     list_all (\<lambda>f. fdep_completed_bytes f = fdep_total_bytes f \<and> fdep_remaining f = []) (ct_files t) \<and>
     list_all (\<lambda>(_, x). xd_is_completed x \<and> xd_file_indices x = []) (ct_xorbs t)"

end
