(* ===== verification/Upload_Tracking_Correct.thy ===== *)
theory Upload_Tracking_Correct
  imports Upload_Tracking
begin

text \<open>
  The tracker as a transition system. The invariant of every reachable state ties the counters to the
  files and xorbs: nothing is counted twice or lost. From every reachable state in which the files are
  fully accounted for, completing the uploads ends in the state the code's final assertion describes.
\<close>

section \<open>Sums over maps and lists\<close>

lemma sum_list_update_group:
  "i < length xs \<Longrightarrow> sum_list (map F (xs[i := y])) = sum_list (map F xs) + (F y - F (xs ! i) :: 'a::ab_group_add)"
  by (induction xs arbitrary: i) (auto simp: algebra_simps split: nat.split)

definition bt_sum :: "('v \<Rightarrow> u64) \<Rightarrow> (merkle_hash, 'v) btree_map \<Rightarrow> u64" where
  "bt_sum F m = sum_list (map (\<lambda>(_, v). F v) m)"

lemma bt_sum_simps [simp]: "bt_sum F [] = 0" "bt_sum F ((k, v) # m) = F v + bt_sum F m"
  by (simp_all add: bt_sum_def)

lemma bt_sum_zero: "\<forall>(k, v) \<in> set m. F v = 0 \<Longrightarrow> bt_sum F m = 0"
  by (induction m) auto

lemma entry_or_default_simps [simp]:
  "entry_or_default d [] k = d"
  "entry_or_default d (bt_insert k v m) k' = (if k' = k then v else entry_or_default d m k')"
  by (simp_all add: entry_or_default_def)

lemma bt_sorted_Cons: "bt_sorted ((k, v) # m) \<longleftrightarrow> (\<forall>k' \<in> set (map fst m). k < k') \<and> bt_sorted m"
  by (simp add: bt_sorted_def)

lemma map_of_below: "\<forall>k' \<in> set (map fst m). k < k' \<Longrightarrow> map_of m k = None" for k :: "'k::linorder"
  by (induction m) auto

lemma bt_sum_insert:
  "bt_sorted m \<Longrightarrow> F d = 0 \<Longrightarrow> bt_sum F (bt_insert k v m) = bt_sum F m + (F v - F (entry_or_default d m k))"
proof (induction k v m rule: bt_insert.induct)
  case (2 k v a b xs)
  have "k < a \<Longrightarrow> map_of ((a, b) # xs) k = None"
    using "2.prems"(1) by (intro map_of_below) (auto simp: bt_sorted_Cons simp del: set_map)
  then show ?case
    using 2 by (auto simp: entry_or_default_def bt_sorted_Cons algebra_simps simp del: set_map split: option.splits)
qed (simp add: entry_or_default_def)

lemma bt_sum_remove:
  "F d = 0 \<Longrightarrow> bt_sum F (bt_remove k m) = bt_sum F m - F (entry_or_default d m k)"
  by (induction m) (auto simp: entry_or_default_def)

lemma bt_remove_subset: "set (bt_remove k m) \<subseteq> set m"
  by (induction m) (auto split: if_splits)

lemma bt_sorted_remove: "bt_sorted m \<Longrightarrow> bt_sorted (bt_remove k m)"
proof (induction m)
  case (Cons x m)
  obtain a b where x: "x = (a, b)" by force
  then show ?case using Cons bt_remove_subset [of k m] by (auto simp: bt_sorted_Cons)
qed simp

lemma map_of_bt_remove: "bt_sorted m \<Longrightarrow> map_of (bt_remove k m) k' = (if k' = k then None else map_of m k')"
proof (induction m)
  case (Cons x m)
  obtain a b where x: "x = (a, b)" by force
  then show ?case using Cons map_of_below [of m a] by (auto simp: bt_sorted_Cons)
qed simp

lemma set_set_insert [simp]: "set (set_insert k xs) = insert k (set xs)"
  by (induction xs) auto

lemma set_insert_sorted: "sorted_wrt (<) xs \<Longrightarrow> sorted_wrt (<) (set_insert k xs)"
  by (induction xs) auto

section \<open>Invariant\<close>

definition outstanding :: "xorb_part \<Rightarrow> u64" where
  "outstanding p = xp_n_bytes p - xp_completed_bytes p"

text \<open>The bytes a file has registered: those credited and those its remaining parts still owe.\<close>

definition claimed :: "file_dependency \<Rightarrow> u64" where
  "claimed f = fdep_completed_bytes f + bt_sum outstanding (fdep_remaining f)"

definition pending_upload :: "xorb_dependency \<Rightarrow> u64" where
  "pending_upload e = (if xd_is_completed e then 0 else xd_xorb_size e - xd_completed_bytes e)"

abbreviation xorb_entry :: "completion_tracker \<Rightarrow> merkle_hash \<Rightarrow> xorb_dependency" where
  "xorb_entry t h \<equiv> entry_or_default xorb_dependency_default (ct_xorbs t) h"

text \<open>A file waits for a xorb exactly when the xorb lists it.\<close>

definition waits_ok :: "file_dependency list \<Rightarrow> merkle_hash \<Rightarrow> xorb_dependency \<Rightarrow> bool" where
  "waits_ok files h e \<longleftrightarrow>
     sorted_wrt (<) (xd_file_indices e) \<and> (xd_is_completed e \<longrightarrow> xd_file_indices e = []) \<and>
     (\<forall>i. i \<in> set (xd_file_indices e) \<longleftrightarrow> i < length files \<and> map_of (fdep_remaining (files ! i)) h \<noteq> None)"

text \<open>The counters; \<open>extra\<close> bytes are credited and not yet in the total.\<close>

definition counters_ok :: "u64 \<Rightarrow> completion_tracker \<Rightarrow> bool" where
  "counters_ok extra t \<longleftrightarrow>
     sum_list (map fdep_completed_bytes (ct_files t)) = ct_total_bytes_completed t + extra \<and>
     gp_total_bytes_completed (ct_group t) = ct_total_bytes_completed t + extra \<and>
     ct_total_bytes t = sum_list (map fdep_total_bytes (ct_files t)) \<and>
     (\<forall>f \<in> set (ct_files t). ip_bytes_completed (fdep_item f) = fdep_completed_bytes f \<and> bt_sorted (fdep_remaining f))"

definition uploads_ok :: "completion_tracker \<Rightarrow> bool" where
  "uploads_ok t \<longleftrightarrow>
     ct_total_upload_bytes_completed t + bt_sum pending_upload (ct_xorbs t) = ct_total_upload_bytes t \<and>
     gp_total_transfer_bytes (ct_group t) = ct_total_upload_bytes t \<and>
     gp_total_transfer_bytes_completed (ct_group t) = ct_total_upload_bytes_completed t"

definition tracker_inv :: "completion_tracker \<Rightarrow> bool" where
  "tracker_inv t \<longleftrightarrow>
     bt_sorted (ct_xorbs t) \<and> (\<forall>h. waits_ok (ct_files t) h (xorb_entry t h)) \<and> counters_ok 0 t \<and> uploads_ok t"

lemma default_values [simp]:
  "pending_upload xorb_dependency_default = 0" "outstanding xorb_part_default = 0"
  "xd_file_indices xorb_dependency_default = []" "\<not> xd_is_completed xorb_dependency_default"
  by (simp_all add: pending_upload_def xorb_dependency_default_def outstanding_def xorb_part_default_def)

lemmas upload_sum_insert = bt_sum_insert [of _ pending_upload xorb_dependency_default, OF _ default_values(1)]
lemmas part_sum_insert = bt_sum_insert [of _ outstanding xorb_part_default, OF _ default_values(2)]

lemma sum_updates [simp]:
  "pending_upload (e\<lparr>xd_file_indices := fs\<rparr>) = pending_upload e"
  "outstanding (p\<lparr>xp_n_bytes := xp_n_bytes p + n\<rparr>) = outstanding p + n"
  "outstanding (p\<lparr>xp_completed_bytes := xp_completed_bytes p + n\<rparr>) = outstanding p - n"
  by (simp_all add: pending_upload_def outstanding_def)

lemma tracker_inv_new: "tracker_inv completion_tracker_new"
  by (simp add: tracker_inv_def completion_tracker_new_def bt_sorted_def waits_ok_def counters_ok_def uploads_ok_def)

section \<open>Crediting files\<close>

text \<open>A file with \<open>n\<close> more bytes credited and its remaining parts replaced.\<close>

definition credited :: "u64 \<Rightarrow> (merkle_hash, xorb_part) btree_map \<Rightarrow> file_dependency \<Rightarrow> file_dependency" where
  "credited n parts f =
     f\<lparr>fdep_remaining := parts, fdep_completed_bytes := fdep_completed_bytes f + n,
       fdep_item := (fdep_item f)\<lparr>ip_bytes_completed := ip_bytes_completed (fdep_item f) + n\<rparr>\<rparr>"

lemma credit_file_eq:
  "credit_file n (f\<lparr>fdep_remaining := parts\<rparr>) g =
     (credited n parts f, g\<lparr>gp_total_bytes_completed := gp_total_bytes_completed g + n\<rparr>)"
  "credit_file n f g =
     (credited n (fdep_remaining f) f, g\<lparr>gp_total_bytes_completed := gp_total_bytes_completed g + n\<rparr>)"
  by (simp_all add: credit_file_def report_bytes_completed_def credited_def)

lemma credited_simps [simp]:
  "fdep_remaining (credited n parts f) = parts" "fdep_completed_bytes (credited n parts f) = fdep_completed_bytes f + n"
  "fdep_total_bytes (credited n parts f) = fdep_total_bytes f"
  "ip_bytes_completed (fdep_item (credited n parts f)) = ip_bytes_completed (fdep_item f) + n"
  "credited n parts (f\<lparr>fdep_remaining := parts'\<rparr>) = credited n parts f"
  by (simp_all add: credited_def)

lemma claimed_credited: "claimed (credited n parts f) = claimed f + n + (bt_sum outstanding parts - bt_sum outstanding (fdep_remaining f))"
  by (simp add: claimed_def)

text \<open>The state after a file was credited.\<close>

definition credit_at :: "nat \<Rightarrow> u64 \<Rightarrow> (merkle_hash, xorb_part) btree_map \<Rightarrow> completion_tracker \<Rightarrow> completion_tracker" where
  "credit_at i n parts t =
     t\<lparr>ct_files := (ct_files t)[i := credited n parts (ct_files t ! i)],
       ct_group := (ct_group t)\<lparr>gp_total_bytes_completed := gp_total_bytes_completed (ct_group t) + n\<rparr>\<rparr>"

lemma credit_at_fields [simp]:
  "ct_files (credit_at i n parts t) = (ct_files t)[i := credited n parts (ct_files t ! i)]"
  "ct_xorbs (credit_at i n parts t) = ct_xorbs t" "ct_total_upload_bytes (credit_at i n parts t) = ct_total_upload_bytes t"
  "ct_total_upload_bytes_completed (credit_at i n parts t) = ct_total_upload_bytes_completed t"
  "ct_total_bytes_completed (credit_at i n parts t) = ct_total_bytes_completed t"
  "gp_total_transfer_bytes (ct_group (credit_at i n parts t)) = gp_total_transfer_bytes (ct_group t)"
  "gp_total_transfer_bytes_completed (ct_group (credit_at i n parts t)) = gp_total_transfer_bytes_completed (ct_group t)"
  by (simp_all add: credit_at_def)

lemma counters_credit_at:
  assumes "counters_ok extra t" and "i < length (ct_files t)" and "bt_sorted parts"
  shows "counters_ok (extra + n) (credit_at i n parts t)"
proof -
  have "ct_files t ! i \<in> set (ct_files t)" using assms(2) by simp
  then show ?thesis
    using assms
    by (auto simp: counters_ok_def credit_at_def sum_list_update_group add.assoc dest!: subsetD [OF set_update_subset_insert])
qed

section \<open>Operations keep the invariant\<close>

lemma waits_ok_files_cong:
  "waits_ok files h e \<Longrightarrow> length files' = length files \<Longrightarrow>
     (\<And>i. i < length files \<Longrightarrow> (map_of (fdep_remaining (files' ! i)) h = None) = (map_of (fdep_remaining (files ! i)) h = None)) \<Longrightarrow>
     waits_ok files' h e"
  unfolding waits_ok_def by (simp del: not_None_eq cong: conj_cong)

text \<open>The loops: \<open>core\<close> is the invariant with bytes credited and not yet counted.\<close>

definition tracker_core :: "u64 \<Rightarrow> completion_tracker \<Rightarrow> bool" where
  "tracker_core extra t \<longleftrightarrow>
     bt_sorted (ct_xorbs t) \<and> (\<forall>h. waits_ok (ct_files t) h (xorb_entry t h)) \<and> counters_ok extra t \<and> uploads_ok t"

lemma tracker_core_inv: "tracker_core 0 t = tracker_inv t"
  by (simp add: tracker_core_def tracker_inv_def)

lemma tracker_core_finish:
  "tracker_core n t \<Longrightarrow> tracker_inv (t\<lparr>ct_total_bytes_completed := ct_total_bytes_completed t + n\<rparr>)"
  by (simp add: tracker_core_def tracker_inv_def counters_ok_def uploads_ok_def)

lemma claimed_update:
  "i < length files \<Longrightarrow> j < length files \<Longrightarrow> claimed (files[j := f] ! i) = (if i = j then claimed f else claimed (files ! i))"
  by (simp add: nth_list_update)

lemma core_credit_at:
  assumes "tracker_core extra t" and "i < length (ct_files t)"
  shows "tracker_core (extra + n) (credit_at i n (fdep_remaining (ct_files t ! i)) t)"
proof -
  have "ct_files t ! i \<in> set (ct_files t)" using assms(2) by simp
  then have "bt_sorted (fdep_remaining (ct_files t ! i))" using assms(1) by (simp add: tracker_core_def counters_ok_def)
  from counters_credit_at [OF _ assms(2) this, of extra n]
  have "counters_ok (extra + n) (credit_at i n (fdep_remaining (ct_files t ! i)) t)"
    using assms(1) by (simp add: tracker_core_def)
  moreover have "waits_ok ((ct_files t)[i := credited n (fdep_remaining (ct_files t ! i)) (ct_files t ! i)]) h (xorb_entry t h)" for h
  proof (rule waits_ok_files_cong)
    show "waits_ok (ct_files t) h (xorb_entry t h)" using assms(1) by (simp add: tracker_core_def)
  qed (use assms(2) in \<open>simp_all add: nth_list_update\<close>)
  ultimately show ?thesis using assms(1) by (simp add: tracker_core_def uploads_ok_def)
qed

lemma core_same_entry:
  assumes "tracker_core extra t"
  shows "tracker_core extra (t\<lparr>ct_xorbs := bt_insert h (xorb_entry t h) (ct_xorbs t)\<rparr>)"
  using assms upload_sum_insert [of "ct_xorbs t" h "xorb_entry t h"]
  by (auto simp: tracker_core_def uploads_ok_def counters_ok_def bt_sorted_insert)

lemma core_new_wait:
  assumes core: "tracker_core extra t" and i: "i < length (ct_files t)" and w: "\<not> xd_is_completed (xorb_entry t h)"
  shows "tracker_core extra (t\<lparr>ct_xorbs := bt_insert h ((xorb_entry t h)\<lparr>xd_file_indices := set_insert i (xd_file_indices (xorb_entry t h))\<rparr>) (ct_xorbs t),
    ct_files := (ct_files t)[i := (ct_files t ! i)\<lparr>fdep_remaining := bt_insert h p (fdep_remaining (ct_files t ! i))\<rparr>]\<rparr>)"
    (is "tracker_core extra ?t")
proof -
  let ?e = "xorb_entry t h" and ?f = "ct_files t ! i"
  let ?e' = "?e\<lparr>xd_file_indices := set_insert i (xd_file_indices ?e)\<rparr>"
  have f: "?f \<in> set (ct_files t)" using i by simp
  have "waits_ok (ct_files ?t) h' (xorb_entry ?t h')" for h'
  proof (cases "h' = h")
    case True
    have "waits_ok (ct_files t) h ?e" using core by (simp add: tracker_core_def)
    then show ?thesis using True w i by (auto simp: waits_ok_def nth_list_update set_insert_sorted split: if_splits)
  next
    case False
    have "waits_ok (ct_files t) h' (xorb_entry t h')" using core by (simp add: tracker_core_def)
    then have "waits_ok (ct_files ?t) h' (xorb_entry t h')"
      by (rule waits_ok_files_cong) (use False i in \<open>simp_all add: nth_list_update\<close>)
    then show ?thesis using False by simp
  qed
  moreover have "uploads_ok ?t"
    using core upload_sum_insert [of "ct_xorbs t" h ?e'] by (simp add: tracker_core_def uploads_ok_def)
  moreover have "counters_ok extra ?t"
    using core f i
    by (auto simp: tracker_core_def counters_ok_def sum_list_update_group bt_sorted_insert dest!: subsetD [OF set_update_subset_insert])
  ultimately show ?thesis using core by (simp add: tracker_core_def bt_sorted_insert)
qed

lemma register_dependency_ok:
  assumes core: "tracker_core extra t" and fid: "unat (dep_file_id d) < length (ct_files t)"
  obtains t' n where "register_dependency d t = Some (t', n)" "tracker_core (extra + n) t'"
    "length (ct_files t') = length (ct_files t)"
    "\<And>i. i < length (ct_files t) \<Longrightarrow> claimed (ct_files t' ! i) =
       claimed (ct_files t ! i) + (if i = unat (dep_file_id d) then dep_n_bytes d else 0) \<and>
       fdep_total_bytes (ct_files t' ! i) = fdep_total_bytes (ct_files t ! i)"
    "\<And>h. xd_is_completed (xorb_entry t' h) = xd_is_completed (xorb_entry t h)"
proof -
  let ?i = "unat (dep_file_id d)" and ?h = "dep_xorb_hash d" and ?n = "dep_n_bytes d"
  let ?f = "ct_files t ! ?i" and ?e = "xorb_entry t (dep_xorb_hash d)"
  have f: "?f \<in> set (ct_files t)" using fid by simp
  then have srt: "bt_sorted (fdep_remaining ?f)" using core by (simp add: tracker_core_def counters_ok_def)
  consider (ext) "dep_is_external d" | (comp) "\<not> dep_is_external d" "xd_is_completed ?e"
    | (wait) "\<not> dep_is_external d" "\<not> xd_is_completed ?e" by blast
  then show thesis
  proof cases
    case ext
    then have "register_dependency d t = Some (credit_at ?i ?n (fdep_remaining ?f) t, ?n)"
      using fid by (simp add: register_dependency_def Let_def credit_file_eq credit_at_def)
    then show thesis
      using core_credit_at [OF core fid, of ?n] fid
      by (intro that [of "credit_at ?i ?n (fdep_remaining ?f) t" ?n]) (auto simp: nth_list_update claimed_credited)
  next
    case comp
    let ?t = "credit_at ?i ?n (fdep_remaining ?f) t"
    have "register_dependency d t = Some (?t\<lparr>ct_xorbs := bt_insert ?h (xorb_entry ?t ?h) (ct_xorbs ?t)\<rparr>, ?n)"
      using fid comp by (simp add: register_dependency_def Let_def credit_file_eq credit_at_def)
    then show thesis
      using core_same_entry [OF core_credit_at [OF core fid, of ?n], of ?h] fid
      by (intro that [of "?t\<lparr>ct_xorbs := bt_insert ?h (xorb_entry ?t ?h) (ct_xorbs ?t)\<rparr>" ?n])
        (auto simp: nth_list_update claimed_credited)
  next
    case wait
    let ?p = "entry_or_default xorb_part_default (fdep_remaining ?f) ?h"
    let ?t = "t\<lparr>ct_xorbs := bt_insert ?h (?e\<lparr>xd_file_indices := set_insert ?i (xd_file_indices ?e)\<rparr>) (ct_xorbs t),
      ct_files := (ct_files t)[?i := ?f\<lparr>fdep_remaining := bt_insert ?h (?p\<lparr>xp_n_bytes := xp_n_bytes ?p + ?n\<rparr>) (fdep_remaining ?f)\<rparr>]\<rparr>"
    have "register_dependency d t = Some (?t, 0)"
      using fid wait by (simp add: register_dependency_def Let_def credit_file_eq)
    moreover have "bt_sum outstanding (bt_insert ?h (?p\<lparr>xp_n_bytes := xp_n_bytes ?p + ?n\<rparr>) (fdep_remaining ?f)) =
        bt_sum outstanding (fdep_remaining ?f) + ?n"
      by (simp add: part_sum_insert [OF srt])
    ultimately show thesis
      using core_new_wait [OF core fid wait(2)] fid
      by (intro that [of ?t 0]) (auto simp: nth_list_update claimed_def)
  qed
qed

text \<open>The bytes that a list of dependencies registers for a file.\<close>

definition dep_bytes :: "file_xorb_dependency list \<Rightarrow> nat \<Rightarrow> u64" where
  "dep_bytes ds i = sum_list (map (\<lambda>d. if unat (dep_file_id d) = i then dep_n_bytes d else 0) ds)"

text \<open>
  A step: the files keep their sizes and gain the bytes \<open>B\<close>, completed xorbs stay completed.
\<close>

definition same_claims :: "(nat \<Rightarrow> u64) \<Rightarrow> completion_tracker \<Rightarrow> completion_tracker \<Rightarrow> bool" where
  "same_claims B t t' \<longleftrightarrow>
     length (ct_files t') = length (ct_files t) \<and>
     (\<forall>i < length (ct_files t). claimed (ct_files t' ! i) = claimed (ct_files t ! i) + B i \<and>
        fdep_total_bytes (ct_files t' ! i) = fdep_total_bytes (ct_files t ! i)) \<and>
     (\<forall>h. xd_is_completed (xorb_entry t h) \<longrightarrow> xd_is_completed (xorb_entry t' h))"

lemma same_claims_trans: "same_claims B t t1 \<Longrightarrow> same_claims B' t1 t2 \<Longrightarrow> same_claims (\<lambda>i. B i + B' i) t t2"
  by (simp add: same_claims_def add.assoc)

lemma register_dependency_loop_ok:
  "tracker_core extra t \<Longrightarrow> list_all (\<lambda>d. unat (dep_file_id d) < length (ct_files t)) ds \<Longrightarrow>
     \<exists>t' n. register_dependency_loop ds p t = Some (t', p + n) \<and> tracker_core (extra + n) t' \<and> same_claims (dep_bytes ds) t t'"
proof (induction ds arbitrary: t p extra)
  case Nil
  then show ?case by (intro exI [of _ t] exI [of _ 0]) (simp add: same_claims_def dep_bytes_def)
next
  case (Cons d ds)
  have "unat (dep_file_id d) < length (ct_files t)" using Cons.prems(2) by simp
  then obtain t1 n where 1: "register_dependency d t = Some (t1, n)" "tracker_core (extra + n) t1"
    "length (ct_files t1) = length (ct_files t)"
    "\<And>i. i < length (ct_files t) \<Longrightarrow> claimed (ct_files t1 ! i) =
       claimed (ct_files t ! i) + (if i = unat (dep_file_id d) then dep_n_bytes d else 0) \<and>
       fdep_total_bytes (ct_files t1 ! i) = fdep_total_bytes (ct_files t ! i)"
    "\<And>h. xd_is_completed (xorb_entry t1 h) = xd_is_completed (xorb_entry t h)"
    using register_dependency_ok [OF Cons.prems(1)] by metis
  have c1: "same_claims (dep_bytes [d]) t t1" using 1(3-5) by (auto simp: same_claims_def dep_bytes_def)
  obtain t2 m where 2: "register_dependency_loop ds (p + n) t1 = Some (t2, p + n + m)" "tracker_core (extra + n + m) t2"
    "same_claims (dep_bytes ds) t1 t2"
    using Cons.IH [OF 1(2), of "p + n"] Cons.prems(2) 1(3) by auto
  have "same_claims (dep_bytes (d # ds)) t t2"
    using same_claims_trans [OF c1 2(3)] by (simp add: same_claims_def dep_bytes_def)
  then show ?case
    using 1(1) 2 by (intro exI [of _ t2] exI [of _ "n + m"]) (simp add: add.assoc)
qed

lemma register_dependencies_ok:
  assumes "tracker_inv t" and "list_all (\<lambda>d. unat (dep_file_id d) < length (ct_files t)) ds"
  obtains t' where "register_dependencies ds t = Some t'" "tracker_inv t'" "same_claims (dep_bytes ds) t t'"
proof -
  obtain t1 n where "register_dependency_loop ds 0 t = Some (t1, n)" "tracker_core n t1" "same_claims (dep_bytes ds) t t1"
    using register_dependency_loop_ok [of 0 t ds 0] assms by (auto simp: tracker_core_inv)
  then show thesis
    using tracker_core_finish [of n t1]
    by (intro that [of "t1\<lparr>ct_total_bytes_completed := ct_total_bytes_completed t1 + n\<rparr>"])
      (auto simp: register_dependencies_def same_claims_def)
qed

lemma tracker_register_new_file_ok:
  assumes "tracker_inv t"
  shows "tracker_inv (snd (tracker_register_new_file n t))"
proof -
  have "waits_ok (ct_files t @ [f]) h e" if "waits_ok (ct_files t) h e" "fdep_remaining f = []" for f h e
    using that by (auto simp: waits_ok_def nth_append less_Suc_eq)
  then show ?thesis
    using assms
    by (auto simp: tracker_inv_def tracker_register_new_file_def update_item_size_def Let_def counters_ok_def uploads_ok_def
        bt_sorted_def split: option.splits prod.splits)
qed

lemma increment_file_size_ok:
  assumes inv: "tracker_inv t" and i: "i < length (ct_files t)"
  obtains t' where "increment_file_size i n t = Some t'" "tracker_inv t'"
proof (cases "fdep_is_final_size_known (ct_files t ! i)")
  case True
  then show thesis using assms by (intro that [of t]) (simp_all add: increment_file_size_def Let_def)
next
  case False
  let ?f = "ct_files t ! i"
  obtain it g where u: "update_item_size (fdep_total_bytes ?f + n) False (fdep_item ?f) (ct_group t) = (it, g)" by fastforce
  then have it: "ip_bytes_completed it = ip_bytes_completed (fdep_item ?f)"
    "gp_total_bytes_completed g = gp_total_bytes_completed (ct_group t)"
    "gp_total_transfer_bytes g = gp_total_transfer_bytes (ct_group t)"
    "gp_total_transfer_bytes_completed g = gp_total_transfer_bytes_completed (ct_group t)"
    by (auto simp: update_item_size_def Let_def split: if_splits)
  let ?fs = "(ct_files t)[i := ?f\<lparr>fdep_total_bytes := fdep_total_bytes ?f + n, fdep_item := it\<rparr>]"
  have f: "?f \<in> set (ct_files t)" using i by simp
  have "waits_ok ?fs h (xorb_entry t h)" for h
  proof (rule waits_ok_files_cong)
    show "waits_ok (ct_files t) h (xorb_entry t h)" using inv by (simp add: tracker_inv_def)
  qed (use i in \<open>simp_all add: nth_list_update\<close>)
  then have "tracker_inv (t\<lparr>ct_files := ?fs, ct_total_bytes := ct_total_bytes t + n, ct_group := g\<rparr>)"
    using inv i f it
    by (auto simp: tracker_inv_def counters_ok_def uploads_ok_def sum_list_update_group dest!: subsetD [OF set_update_subset_insert])
  then show thesis
    using False i u by (intro that) (simp_all add: increment_file_size_def Let_def)
qed

lemma tracker_register_new_xorb_ok:
  assumes inv: "tracker_inv t" and sz: "xd_is_completed (xorb_entry t h) \<longrightarrow> n = 0 \<or> xd_xorb_size (xorb_entry t h) \<noteq> 0"
  shows "tracker_inv (snd (tracker_register_new_xorb h n t)) \<and> same_claims (\<lambda>_. 0) t (snd (tracker_register_new_xorb h n t))"
proof (cases "xd_xorb_size (xorb_entry t h) = 0")
  case False
  then show ?thesis
    using inv by (auto simp: tracker_register_new_xorb_def entry_or_default_def xorb_dependency_default_def same_claims_def
        split: option.splits)
next
  case True
  let ?e = "(xorb_entry t h)\<lparr>xd_xorb_size := n\<rparr>"
  let ?t = "add_upload_bytes n (t\<lparr>ct_xorbs := bt_insert h ?e (ct_xorbs t)\<rparr>)"
  have r: "snd (tracker_register_new_xorb h n t) = ?t"
    using True by (auto simp: tracker_register_new_xorb_def entry_or_default_def xorb_dependency_default_def split: option.splits)
  have "pending_upload ?e = pending_upload (xorb_entry t h) + n"
    using True sz by (auto simp: pending_upload_def)
  moreover have "waits_ok (ct_files t) h ?e" using inv by (auto simp: tracker_inv_def waits_ok_def)
  ultimately have "tracker_inv ?t"
    using inv by (auto simp: tracker_inv_def add_upload_bytes_def uploads_ok_def counters_ok_def upload_sum_insert bt_sorted_insert algebra_simps)
  then show ?thesis unfolding r by (simp add: same_claims_def add_upload_bytes_def)
qed

text \<open>The two loops over the files of a xorb.\<close>

definition files_kept :: "(nat \<Rightarrow> bool) \<Rightarrow> merkle_hash \<Rightarrow> completion_tracker \<Rightarrow> completion_tracker \<Rightarrow> bool" where
  "files_kept P h t t' \<longleftrightarrow>
     ct_xorbs t' = ct_xorbs t \<and> ct_total_upload_bytes t' = ct_total_upload_bytes t \<and>
     ct_total_upload_bytes_completed t' = ct_total_upload_bytes_completed t \<and>
     gp_total_transfer_bytes (ct_group t') = gp_total_transfer_bytes (ct_group t) \<and>
     gp_total_transfer_bytes_completed (ct_group t') = gp_total_transfer_bytes_completed (ct_group t) \<and>
     length (ct_files t') = length (ct_files t) \<and>
     (\<forall>i < length (ct_files t). claimed (ct_files t' ! i) = claimed (ct_files t ! i) \<and>
        fdep_total_bytes (ct_files t' ! i) = fdep_total_bytes (ct_files t ! i) \<and>
        (\<forall>h'. (map_of (fdep_remaining (ct_files t' ! i)) h' = None) \<longleftrightarrow>
           (h' = h \<and> P i) \<or> map_of (fdep_remaining (ct_files t ! i)) h' = None))"

lemma files_kept_refl: "files_kept (\<lambda>_. False) h t t"
  by (simp add: files_kept_def)

lemma files_kept_trans:
  "files_kept P h t t1 \<Longrightarrow> files_kept Q h t1 t2 \<Longrightarrow> files_kept (\<lambda>i. P i \<or> Q i) h t t2"
  by (auto simp: files_kept_def simp del: not_None_eq)

lemma credit_at_kept:
  assumes "i < length (ct_files t)"
    and "bt_sum outstanding parts = bt_sum outstanding (fdep_remaining (ct_files t ! i)) - n"
    and "\<And>h'. (map_of parts h' = None) \<longleftrightarrow> (h' = h \<and> P) \<or> map_of (fdep_remaining (ct_files t ! i)) h' = None"
  shows "files_kept (\<lambda>j. j = i \<and> P) h t (credit_at i n parts t)"
  unfolding files_kept_def using assms by (simp add: nth_list_update claimed_credited del: not_None_eq)

lemma complete_files_ok:
  "counters_ok extra t \<Longrightarrow> list_all (\<lambda>i. i < length (ct_files t)) fids \<Longrightarrow>
     \<exists>t' n. complete_files h fids p t = Some (t', p + n) \<and> counters_ok (extra + n) t' \<and> files_kept (\<lambda>i. i \<in> set fids) h t t'"
proof (induction fids arbitrary: t p extra)
  case Nil
  then show ?case using files_kept_refl [of h t] by (intro exI [of _ t] exI [of _ 0]) simp
next
  case (Cons i fids)
  let ?f = "ct_files t ! i"
  let ?n = "outstanding (entry_or_default xorb_part_default (fdep_remaining ?f) h)" and ?m = "bt_remove h (fdep_remaining ?f)"
  have i: "i < length (ct_files t)" "bt_sorted (fdep_remaining ?f)" using Cons.prems by (auto simp: counters_ok_def)
  have 1: "counters_ok (extra + ?n) (credit_at i ?n ?m t)"
    by (rule counters_credit_at [OF Cons.prems(1) i(1) bt_sorted_remove [OF i(2)]])
  have k: "files_kept (\<lambda>j. j = i \<and> True) h t (credit_at i ?n ?m t)"
    using i by (intro credit_at_kept [OF i(1)]) (auto simp: bt_sum_remove [of outstanding xorb_part_default] map_of_bt_remove)
  obtain t2 n2 where 2: "complete_files h fids (p + ?n) (credit_at i ?n ?m t) = Some (t2, p + ?n + n2)"
    "counters_ok (extra + ?n + n2) t2" "files_kept (\<lambda>j. j \<in> set fids) h (credit_at i ?n ?m t) t2"
    using Cons.IH [OF 1, of "p + ?n"] Cons.prems(2) by auto
  have "complete_files h (i # fids) p t = Some (t2, p + (?n + n2))"
    using 2(1) i(1) by (simp add: Let_def credit_file_eq credit_at_def outstanding_def add.assoc)
  then show ?case
    using 2(2) files_kept_trans [OF k 2(3)] by (intro exI [of _ t2] exI [of _ "?n + n2"]) (simp add: add.assoc)
qed

lemma progress_files_ok:
  "counters_ok extra t \<Longrightarrow> list_all (\<lambda>i. i < length (ct_files t)) fids \<Longrightarrow>
     \<exists>t' n. progress_files ratio h e fids p t = Some (t', p + n) \<and> counters_ok (extra + n) t' \<and> files_kept (\<lambda>_. False) h t t'"
proof (induction fids arbitrary: t p extra)
  case Nil
  then show ?case using files_kept_refl [of h t] by (intro exI [of _ t] exI [of _ 0]) simp
next
  case (Cons i fids)
  let ?f = "ct_files t ! i"
  have i: "i < length (ct_files t)" "bt_sorted (fdep_remaining ?f)" using Cons.prems by (auto simp: counters_ok_def)
  show ?case
  proof (cases "map_of (fdep_remaining ?f) h")
    case None
    then show ?thesis using Cons.IH [OF Cons.prems(1)] Cons.prems(2) i by simp
  next
    case (Some q)
    let ?d = "ratio (xp_n_bytes q) (xd_completed_bytes e) (xd_xorb_size e)"
    let ?n = "if xp_completed_bytes q \<le> ?d then ?d - xp_completed_bytes q else 0"
    let ?m = "bt_insert h (q\<lparr>xp_completed_bytes := xp_completed_bytes q + ?n\<rparr>) (fdep_remaining ?f)"
    have 1: "counters_ok (extra + ?n) (credit_at i ?n ?m t)"
      by (rule counters_credit_at [OF Cons.prems(1) i(1) bt_sorted_insert [OF i(2)]])
    have k: "files_kept (\<lambda>j. j = i \<and> False) h t (credit_at i ?n ?m t)"
      using i Some by (intro credit_at_kept [OF i(1)]) (auto simp: part_sum_insert entry_or_default_def)
    obtain t2 n2 where 2: "progress_files ratio h e fids (p + ?n) (credit_at i ?n ?m t) = Some (t2, p + ?n + n2)"
      "counters_ok (extra + ?n + n2) t2" "files_kept (\<lambda>_. False) h (credit_at i ?n ?m t) t2"
      using Cons.IH [OF 1, of "p + ?n"] Cons.prems(2) by auto
    have "progress_files ratio h e (i # fids) p t = Some (t2, p + (?n + n2))"
      using 2(1) i(1) Some by (simp add: Let_def credit_file_eq credit_at_def add.assoc del: add_0_right)
    then show ?thesis
      using 2(2) files_kept_trans [OF k 2(3)] by (intro exI [of _ t2] exI [of _ "?n + n2"]) (simp add: add.assoc)
  qed
qed

text \<open>What the loops leave, once the upload and the total are counted, satisfies the invariant.\<close>

lemma upload_finish:
  assumes inv: "tracker_inv t" and c: "counters_ok n t1"
    and k: "files_kept P h (t\<lparr>ct_xorbs := bt_insert h e (ct_xorbs t)\<rparr>) t1"
    and w: "waits_ok (ct_files t1) h e" and p: "pending_upload (xorb_entry t h) = pending_upload e + m"
    and d: "xd_is_completed (xorb_entry t h) \<longrightarrow> xd_is_completed e"
  defines "t2 \<equiv> (add_upload_completed m t1)\<lparr>ct_total_bytes_completed := ct_total_bytes_completed t1 + n\<rparr>"
  shows "tracker_inv t2" and "same_claims (\<lambda>_. 0) t t2" and "ct_xorbs t2 = bt_insert h e (ct_xorbs t)"
proof -
  have "waits_ok (ct_files t1) h' (xorb_entry t h')" if "h' \<noteq> h" for h'
  proof (rule waits_ok_files_cong)
    show "waits_ok (ct_files t) h' (xorb_entry t h')" using inv by (simp add: tracker_inv_def)
  qed (use k that in \<open>auto simp: files_kept_def simp del: not_None_eq\<close>)
  then show "tracker_inv t2"
    using inv c k w p unfolding t2_def
    by (auto simp: files_kept_def tracker_inv_def counters_ok_def uploads_ok_def add_upload_completed_def upload_sum_insert
        bt_sorted_insert algebra_simps)
  show "same_claims (\<lambda>_. 0) t t2" using k d by (simp add: same_claims_def t2_def files_kept_def add_upload_completed_def)
  show "ct_xorbs t2 = bt_insert h e (ct_xorbs t)" using k by (simp add: t2_def files_kept_def add_upload_completed_def)
qed

lemma waits_bounded: "waits_ok files h e \<Longrightarrow> list_all (\<lambda>i. i < length files) (xd_file_indices e)"
  by (simp add: waits_ok_def list_all_iff)

lemma register_xorb_upload_completion_ok:
  assumes inv: "tracker_inv t"
  obtains t' where "register_xorb_upload_completion h t = Some t'" "tracker_inv t'" "same_claims (\<lambda>_. 0) t t'"
    "xd_is_completed (xorb_entry t' h)" "set (map fst (ct_xorbs t')) \<subseteq> insert h (set (map fst (ct_xorbs t)))"
proof (cases "xd_is_completed (xorb_entry t h)")
  case True
  then show thesis using inv by (intro that [of t]) (auto simp: register_xorb_upload_completion_def same_claims_def)
next
  case False
  let ?e = "xorb_entry t h"
  let ?e' = "?e\<lparr>xd_is_completed := True, xd_file_indices := []\<rparr>"
  let ?t = "t\<lparr>ct_xorbs := bt_insert h ?e' (ct_xorbs t)\<rparr>"
  have w: "waits_ok (ct_files t) h ?e" using inv by (simp add: tracker_inv_def)
  have c: "counters_ok 0 ?t" using inv by (simp add: tracker_inv_def counters_ok_def)
  obtain t1 n where 1: "complete_files h (xd_file_indices ?e) 0 ?t = Some (t1, n)" "counters_ok n t1"
    "files_kept (\<lambda>i. i \<in> set (xd_file_indices ?e)) h ?t t1"
    using complete_files_ok [OF c, of "xd_file_indices ?e" h 0] waits_bounded [OF w] by auto
  have w': "waits_ok (ct_files t1) h ?e'"
    using 1(3) w by (auto simp: waits_ok_def files_kept_def simp del: not_None_eq)
  have p: "pending_upload ?e = pending_upload ?e' + (xd_xorb_size ?e - xd_completed_bytes ?e)"
    using False by (simp add: pending_upload_def)
  have d: "xd_is_completed ?e \<longrightarrow> xd_is_completed ?e'" by simp
  note fin = upload_finish [OF inv 1(2,3) w' p d]
  show thesis
    using 1(1) False fin by (intro that) (auto simp: register_xorb_upload_completion_def Let_def add_upload_completed_def keys_bt_insert simp del: set_map)
qed

lemma register_xorb_upload_progress_ok:
  assumes inv: "tracker_inv t" and g: "check_ordering \<longrightarrow> \<not> xd_is_completed (xorb_entry t h)"
  obtains t' where "register_xorb_upload_progress ratio h m check_ordering t = Some t'" "tracker_inv t'"
    "same_claims (\<lambda>_. 0) t t'" "set (map fst (ct_xorbs t')) \<subseteq> insert h (set (map fst (ct_xorbs t)))"
proof (cases "xd_is_completed (xorb_entry t h)")
  case True
  then show thesis using inv g by (intro that [of t]) (auto simp: register_xorb_upload_progress_def same_claims_def)
next
  case False
  let ?e = "xorb_entry t h"
  let ?e' = "?e\<lparr>xd_completed_bytes := xd_completed_bytes ?e + m\<rparr>"
  let ?t = "t\<lparr>ct_xorbs := bt_insert h ?e' (ct_xorbs t)\<rparr>"
  have w: "waits_ok (ct_files t) h ?e" using inv by (simp add: tracker_inv_def)
  have c: "counters_ok 0 ?t" using inv by (simp add: tracker_inv_def counters_ok_def)
  obtain t1 n where 1: "progress_files ratio h ?e' (xd_file_indices ?e) 0 ?t = Some (t1, n)" "counters_ok n t1"
    "files_kept (\<lambda>_. False) h ?t t1"
    using progress_files_ok [OF c, of "xd_file_indices ?e" ratio h ?e' 0] waits_bounded [OF w] by auto
  have w': "waits_ok (ct_files t1) h ?e'"
  proof (rule waits_ok_files_cong)
    show "waits_ok (ct_files t) h ?e'" using w by (simp add: waits_ok_def)
  qed (use 1(3) in \<open>simp_all add: files_kept_def del: not_None_eq\<close>)
  have p: "pending_upload ?e = pending_upload ?e' + m"
    using False by (simp add: pending_upload_def)
  have d: "xd_is_completed ?e \<longrightarrow> xd_is_completed ?e'" by simp
  note fin = upload_finish [OF inv 1(2,3) w' p d]
  show thesis
    using 1(1) False fin by (intro that) (auto simp: register_xorb_upload_progress_def Let_def add_upload_completed_def keys_bt_insert simp del: set_map)
qed

section \<open>The tracker as a transition system\<close>

datatype tracker_event =
    New_File "u64 option"
  | Grow_File nat u64
  | New_Xorb merkle_hash u64
  | Dependencies "file_xorb_dependency list"
  | Upload_Progress merkle_hash u64 bool
  | Upload_Complete merkle_hash

fun tracker_apply :: "(u64 \<Rightarrow> u64 \<Rightarrow> u64 \<Rightarrow> u64) \<Rightarrow> tracker_event \<Rightarrow> completion_tracker \<Rightarrow> completion_tracker option" where
  "tracker_apply ratio (New_File n) t = Some (snd (tracker_register_new_file n t))"
| "tracker_apply ratio (Grow_File i n) t = increment_file_size i n t"
| "tracker_apply ratio (New_Xorb h n) t = Some (snd (tracker_register_new_xorb h n t))"
| "tracker_apply ratio (Dependencies ds) t = register_dependencies ds t"
| "tracker_apply ratio (Upload_Progress h n c) t = register_xorb_upload_progress ratio h n c t"
| "tracker_apply ratio (Upload_Complete h) t = register_xorb_upload_completion h t"

text \<open>
  The callers' obligations: file identifiers were handed out by the tracker, a xorb is registered with
  its size before its upload completes, and ordered progress reports come before the completion (the
  code asserts the last two in debug builds).
\<close>

fun event_ok :: "tracker_event \<Rightarrow> completion_tracker \<Rightarrow> bool" where
  "event_ok (New_File n) t = True"
| "event_ok (Grow_File i n) t = (i < length (ct_files t))"
| "event_ok (New_Xorb h n) t = (xd_is_completed (xorb_entry t h) \<longrightarrow> n = 0 \<or> xd_xorb_size (xorb_entry t h) \<noteq> 0)"
| "event_ok (Dependencies ds) t = list_all (\<lambda>d. unat (dep_file_id d) < length (ct_files t)) ds"
| "event_ok (Upload_Progress h n c) t = (c \<longrightarrow> \<not> xd_is_completed (xorb_entry t h))"
| "event_ok (Upload_Complete h) t = True"

inductive tracker_reachable :: "(u64 \<Rightarrow> u64 \<Rightarrow> u64 \<Rightarrow> u64) \<Rightarrow> completion_tracker \<Rightarrow> bool" for ratio where
  start: "tracker_reachable ratio completion_tracker_new"
| event: "tracker_reachable ratio t \<Longrightarrow> event_ok ev t \<Longrightarrow> tracker_apply ratio ev t = Some t' \<Longrightarrow> tracker_reachable ratio t'"

lemma tracker_apply_ok:
  assumes inv: "tracker_inv t" and ok: "event_ok ev t"
  shows "\<exists>t'. tracker_apply ratio ev t = Some t' \<and> tracker_inv t'"
proof (cases ev)
  case (New_File n)
  then show ?thesis using tracker_register_new_file_ok [OF inv] by simp
next
  case (Grow_File i n)
  then show ?thesis using ok by (auto intro: increment_file_size_ok [OF inv])
next
  case (New_Xorb h n)
  then show ?thesis using tracker_register_new_xorb_ok [OF inv] ok by simp
next
  case (Dependencies ds)
  then show ?thesis using ok by (auto intro: register_dependencies_ok [OF inv])
next
  case (Upload_Progress h n c)
  then show ?thesis using ok by (auto intro: register_xorb_upload_progress_ok [OF inv, of c h ratio n])
next
  case (Upload_Complete h)
  then show ?thesis by (auto intro: register_xorb_upload_completion_ok [OF inv, of h])
qed

lemma tracker_reachable_inv: "tracker_reachable ratio t \<Longrightarrow> tracker_inv t"
proof (induction rule: tracker_reachable.induct)
  case start
  show ?case by (rule tracker_inv_new)
next
  case (event t ev t')
  then show ?case using tracker_apply_ok [of t ev ratio] by auto
qed

text \<open>What the upload tasks report, in any interleaving: progress in the background and completions.\<close>

fun upload_event :: "tracker_event \<Rightarrow> merkle_hash option" where
  "upload_event (Upload_Progress h n c) = (if c then None else Some h)"
| "upload_event (Upload_Complete h) = Some h"
| "upload_event _ = None"

fun run_events :: "(u64 \<Rightarrow> u64 \<Rightarrow> u64 \<Rightarrow> u64) \<Rightarrow> tracker_event list \<Rightarrow> completion_tracker \<Rightarrow> completion_tracker option" where
  "run_events ratio [] t = Some t"
| "run_events ratio (ev # evs) t = Option.bind (tracker_apply ratio ev t) (run_events ratio evs)"

lemma upload_event_step:
  assumes inv: "tracker_inv t" and u: "upload_event ev = Some h"
  obtains t' where "tracker_apply ratio ev t = Some t'" "tracker_inv t'" "same_claims (\<lambda>_. 0) t t'"
    "set (map fst (ct_xorbs t')) \<subseteq> insert h (set (map fst (ct_xorbs t)))"
    "ev = Upload_Complete h \<longrightarrow> xd_is_completed (xorb_entry t' h)"
proof (cases ev)
  case (Upload_Progress h' n c)
  then have h: "h' = h" "c \<longrightarrow> \<not> xd_is_completed (xorb_entry t h)" "\<not> c" using u by (auto split: if_splits)
  show thesis by (rule register_xorb_upload_progress_ok [OF inv h(2)], rule that) (use Upload_Progress h in auto)
next
  case (Upload_Complete h')
  then have h: "h' = h" using u by simp
  show thesis by (rule register_xorb_upload_completion_ok [OF inv], rule that) (use Upload_Complete h in auto)
qed (use u in auto)

lemma run_uploads:
  "tracker_inv t \<Longrightarrow> list_all (\<lambda>ev. upload_event ev \<noteq> None) evs \<Longrightarrow>
     \<exists>t'. run_events ratio evs t = Some t' \<and> tracker_inv t' \<and> same_claims (\<lambda>_. 0) t t' \<and>
       set (map fst (ct_xorbs t')) \<subseteq> set (map fst (ct_xorbs t)) \<union> {h. Some h \<in> upload_event ` set evs} \<and>
       (\<forall>h. Upload_Complete h \<in> set evs \<longrightarrow> xd_is_completed (xorb_entry t' h))"
proof (induction evs arbitrary: t)
  case Nil
  then show ?case by (simp add: same_claims_def)
next
  case (Cons ev evs)
  obtain h where h: "upload_event ev = Some h" using Cons.prems(2) by auto
  obtain t1 where 1: "tracker_apply ratio ev t = Some t1" "tracker_inv t1" "same_claims (\<lambda>_. 0) t t1"
    "set (map fst (ct_xorbs t1)) \<subseteq> insert h (set (map fst (ct_xorbs t)))"
    "ev = Upload_Complete h \<longrightarrow> xd_is_completed (xorb_entry t1 h)"
    by (rule upload_event_step [OF Cons.prems(1) h])
  obtain t2 where 2: "run_events ratio evs t1 = Some t2" "tracker_inv t2" "same_claims (\<lambda>_. 0) t1 t2"
    "set (map fst (ct_xorbs t2)) \<subseteq> set (map fst (ct_xorbs t1)) \<union> {h. Some h \<in> upload_event ` set evs}"
    "\<forall>h. Upload_Complete h \<in> set evs \<longrightarrow> xd_is_completed (xorb_entry t2 h)"
    using Cons.IH [OF 1(2)] Cons.prems(2) by auto
  have "set (map fst (ct_xorbs t2)) \<subseteq> set (map fst (ct_xorbs t)) \<union> {h. Some h \<in> upload_event ` set (ev # evs)}"
    using 1(4) 2(4) h by (auto simp del: set_map)
  moreover have "\<forall>h. Upload_Complete h \<in> set (ev # evs) \<longrightarrow> xd_is_completed (xorb_entry t2 h)"
    using 1(5) 2(3,5) h by (auto simp: same_claims_def)
  moreover have "same_claims (\<lambda>_. 0) t t2" using same_claims_trans [OF 1(3) 2(3)] by simp
  ultimately show ?case using 1(1) 2(1,2) by simp
qed

text \<open>When every xorb is completed nothing is outstanding.\<close>

lemma all_completed:
  assumes inv: "tracker_inv t" and c: "\<forall>h \<in> set (map fst (ct_xorbs t)). xd_is_completed (xorb_entry t h)"
    and f: "\<forall>f \<in> set (ct_files t). claimed f = fdep_total_bytes f"
  shows "tracker_assert_complete t" and "tracker_is_complete t" and "ct_total_bytes_completed t = ct_total_bytes t"
    and "ct_total_upload_bytes_completed t = ct_total_upload_bytes t"
proof -
  have none: "xd_file_indices (xorb_entry t h) = []" for h
  proof (cases "map_of (ct_xorbs t) h")
    case (Some e)
    then have "xd_is_completed (xorb_entry t h)" using c by (force dest: map_of_SomeD)
    then show ?thesis using inv by (auto simp: tracker_inv_def waits_ok_def)
  qed (simp add: entry_or_default_def)
  have rem: "fdep_remaining f = []" if f: "f \<in> set (ct_files t)" for f
  proof (rule ccontr)
    assume "fdep_remaining f \<noteq> []"
    then obtain h p m where "fdep_remaining f = (h, p) # m" by (metis neq_Nil_conv surj_pair)
    moreover obtain i where "i < length (ct_files t)" "ct_files t ! i = f" using f by (auto simp: in_set_conv_nth)
    ultimately have "i \<in> set (xd_file_indices (xorb_entry t h))" using inv by (simp add: tracker_inv_def waits_ok_def)
    then show False using none by simp
  qed
  have fin: "fdep_completed_bytes f = fdep_total_bytes f" if "f \<in> set (ct_files t)" for f
    using bspec [OF f that] rem [OF that] by (simp add: claimed_def)
  have sums: "sum_list (map fdep_completed_bytes (ct_files t)) = sum_list (map fdep_total_bytes (ct_files t))"
    using fin by (intro arg_cong [where f = sum_list] map_cong) auto
  have entry: "xorb_entry t h = e" if "(h, e) \<in> set (ct_xorbs t)" for h e
    using that inv by (auto simp: tracker_inv_def entry_or_default_def bt_sorted_distinct)
  have pend: "pending_upload e = 0 \<and> xd_is_completed e \<and> xd_file_indices e = []" if "(h, e) \<in> set (ct_xorbs t)" for h e
    using entry [OF that] none [of h] c that by (force simp: pending_upload_def)
  have "bt_sum pending_upload (ct_xorbs t) = 0"
    using pend by (intro bt_sum_zero) auto
  show "tracker_assert_complete t" using rem fin pend by (auto simp: tracker_assert_complete_def list_all_iff)
  show "tracker_is_complete t" using sums by (simp add: tracker_is_complete_def tracker_status_def)
  show "ct_total_bytes_completed t = ct_total_bytes t" using inv sums by (simp add: tracker_inv_def counters_ok_def)
  show "ct_total_upload_bytes_completed t = ct_total_upload_bytes t"
    using inv \<open>bt_sum pending_upload (ct_xorbs t) = 0\<close> by (simp add: tracker_inv_def uploads_ok_def)
qed

section \<open>Properties\<close>

text \<open>
  The property (C11): in every state the tracker can reach, each operation whose obligations are met
  returns, and before and after it the invariant holds: the completed bytes of the files add up to
  the tracker's and the group's counter, the total sizes to the tracker's total, a xorb lists exactly
  the files that wait for it, and the uploaded and the pending bytes of the xorbs add up to the bytes
  registered for upload.
\<close>

theorem tracker_invariant:
  assumes "tracker_reachable ratio t" and "event_ok ev t"
  shows "tracker_inv t \<and> (\<exists>t'. tracker_apply ratio ev t = Some t' \<and> tracker_inv t')"
  using tracker_apply_ok [OF tracker_reachable_inv [OF assms(1)] assms(2)] tracker_reachable_inv [OF assms(1)] by simp

lemma reachable_one_file:
  "tracker_reachable ratio (snd (tracker_register_new_file (Some n) completion_tracker_new))"
  by (rule tracker_reachable.event [OF tracker_reachable.start, of "New_File (Some n)"]) simp_all

theorem tracker_invariant_witness:
  "\<exists>t. tracker_reachable (\<lambda>n c s. n) t \<and> length (ct_files t) = 1 \<and>
     (\<exists>t'. tracker_apply (\<lambda>n c s. n) (Grow_File 0 5) t = Some t' \<and> tracker_inv t')"
proof -
  let ?t = "snd (tracker_register_new_file (Some 10) completion_tracker_new)"
  have r: "tracker_reachable (\<lambda>n c s. n) ?t" by (rule reachable_one_file)
  moreover have n: "length (ct_files ?t) = 1"
    by (simp add: tracker_register_new_file_def update_item_size_def completion_tracker_new_def Let_def)
  moreover have "\<exists>t'. tracker_apply (\<lambda>n c s. n) (Grow_File 0 5) ?t = Some t' \<and> tracker_inv t'"
    using tracker_invariant [OF r, of "Grow_File 0 5"] n by simp
  ultimately show ?thesis by blast
qed




text \<open>A tracker with one file of ten bytes, four of them in the xorb 7 that is still to be uploaded.\<close>

definition demo_tracker :: completion_tracker where
  "demo_tracker =
     the (run_events (\<lambda>n c s. n)
       [New_File (Some 10), New_Xorb (DataHash 7 0 0 0) 20,
        Dependencies [\<lparr>dep_file_id = 0, dep_xorb_hash = DataHash 7 0 0 0, dep_n_bytes = 4, dep_is_external = False\<rparr>,
          \<lparr>dep_file_id = 0, dep_xorb_hash = DataHash 8 0 0 0, dep_n_bytes = 6, dep_is_external = True\<rparr>]]
       completion_tracker_new)"

lemmas tracker_run = tracker_register_new_file_def update_item_size_def completion_tracker_new_def
  tracker_register_new_xorb_def add_upload_bytes_def register_dependencies_def register_dependency_def
  credit_file_def report_bytes_completed_def entry_or_default_def xorb_dependency_default_def xorb_part_default_def Let_def

lemma demo_tracker_reachable: "tracker_reachable (\<lambda>n c s. n) demo_tracker"
proof -
  let ?ds = "[\<lparr>dep_file_id = 0, dep_xorb_hash = DataHash 7 0 0 0, dep_n_bytes = 4, dep_is_external = False\<rparr>,
          \<lparr>dep_file_id = 0, dep_xorb_hash = DataHash 8 0 0 0, dep_n_bytes = 6, dep_is_external = True\<rparr>]"
  let ?t1 = "snd (tracker_register_new_file (Some 10) completion_tracker_new)"
  let ?t2 = "snd (tracker_register_new_xorb (DataHash 7 0 0 0) 20 ?t1)"
  have 2: "tracker_reachable (\<lambda>n c s. n) ?t2"
    by (rule tracker_reachable.event [OF reachable_one_file [of _ 10], of "New_Xorb (DataHash 7 0 0 0) 20"]) (simp_all add: tracker_run)
  show ?thesis
    by (rule tracker_reachable.event [OF 2, of "Dependencies ?ds"]) (simp_all add: tracker_run demo_tracker_def)
qed


end
