(* ===== verification/Shard_Format.thy ===== *)
theory Shard_Format
  imports Shard_In_Memory Interpolation_Search
begin

text \<open>
  The shard file, \<open>xet_core_structures/src/metadata_shard/shard_format.rs\<close>, with the section readers of
  \<open>streaming_shard.rs\<close> and \<open>to_bytes\<close> and \<open>from_reader\<close> of \<open>shard_in_memory.rs\<close>: header, file section, xorb
  section, three lookup tables and footer, how a shard in memory is written and read back, and how a
  written shard is searched. A reader that seeks is the file's bytes, a seek is \<open>drop\<close>; positions in the
  file are \<open>u64\<close> and indices \<open>u32\<close>, which wrap. \<open>sort_unstable_by_key\<close> may order equal keys in any way and
  is the parameter \<open>srt\<close>. The outer option of a result is a panic, or fuel of the table search, which is
  one more than the number of entries.
\<close>

section \<open>Header and footer\<close>

definition MDB_SHARD_HEADER_VERSION :: u64 where
  "MDB_SHARD_HEADER_VERSION = 2"

definition MDB_SHARD_FOOTER_VERSION :: u64 where
  "MDB_SHARD_FOOTER_VERSION = 1"

definition MDB_SHARD_FOOTER_SIZE :: nat where
  "MDB_SHARD_FOOTER_SIZE = 200"

definition MDB_XORB_INFO_ENTRY_SIZE :: nat where
  "MDB_XORB_INFO_ENTRY_SIZE = 48"

definition MDB_SHARD_HEADER_TAG :: bytes where
  "MDB_SHARD_HEADER_TAG =
     [72, 70, 82, 101, 112, 111, 77, 101, 116, 97, 68, 97, 116, 97, 0, 85, 105, 103, 69, 106, 123,
      129, 87, 131, 165, 189, 217, 92, 205, 209, 74, 169]"

record mdb_shard_file_header =
  sh_tag :: bytes
  sh_version :: u64
  sh_footer_size :: u64

definition shard_header_default :: mdb_shard_file_header where
  "shard_header_default =
     \<lparr>sh_tag = MDB_SHARD_HEADER_TAG, sh_version = MDB_SHARD_HEADER_VERSION, sh_footer_size = of_nat MDB_SHARD_FOOTER_SIZE\<rparr>"

definition shard_header_serialize :: "mdb_shard_file_header \<Rightarrow> bytes \<times> nat" where
  "shard_header_serialize h = (MDB_SHARD_HEADER_TAG @ write_u64 (sh_version h) @ write_u64 (sh_footer_size h), 48)"

definition shard_header_deserialize :: "bytes \<Rightarrow> core_error + (mdb_shard_file_header \<times> bytes)" where
  "shard_header_deserialize bs =
     rbind (lift_io (read_exact 32 bs)) (\<lambda>(tag, bs).
       if tag \<noteq> MDB_SHARD_HEADER_TAG then Inl ShardVersion
       else
         rbind (lift_io (read_u64 bs)) (\<lambda>(version, bs).
         rbind (lift_io (read_u64 bs)) (\<lambda>(footer_size, bs).
           Inr (\<lparr>sh_tag = tag, sh_version = version, sh_footer_size = footer_size\<rparr>, bs))))"

record mdb_shard_file_footer =
  ft_version :: u64
  ft_file_info_offset :: u64
  ft_xorb_info_offset :: u64
  ft_file_lookup_offset :: u64
  ft_file_lookup_num_entry :: u64
  ft_xorb_lookup_offset :: u64
  ft_xorb_lookup_num_entry :: u64
  ft_chunk_lookup_offset :: u64
  ft_chunk_lookup_num_entry :: u64
  ft_chunk_hash_hmac_key :: merkle_hash
  ft_shard_creation_timestamp :: u64
  ft_shard_key_expiry :: u64
  ft_buffer :: "u64 list"
  ft_stored_bytes_on_disk :: u64
  ft_materialized_bytes :: u64
  ft_stored_bytes :: u64
  ft_footer_offset :: u64

definition shard_footer_default :: mdb_shard_file_footer where
  "shard_footer_default =
     \<lparr>ft_version = MDB_SHARD_FOOTER_VERSION, ft_file_info_offset = 0, ft_xorb_info_offset = 0,
      ft_file_lookup_offset = 0, ft_file_lookup_num_entry = 0, ft_xorb_lookup_offset = 0,
      ft_xorb_lookup_num_entry = 0, ft_chunk_lookup_offset = 0, ft_chunk_lookup_num_entry = 0,
      ft_chunk_hash_hmac_key = default_hash, ft_shard_creation_timestamp = 0, ft_shard_key_expiry = - 1,
      ft_buffer = [0, 0, 0, 0, 0, 0], ft_stored_bytes_on_disk = 0, ft_materialized_bytes = 0,
      ft_stored_bytes = 0, ft_footer_offset = 0\<rparr>"

definition shard_footer_serialize :: "mdb_shard_file_footer \<Rightarrow> bytes \<times> nat" where
  "shard_footer_serialize f =
     (write_u64 (ft_version f) @ write_u64 (ft_file_info_offset f) @ write_u64 (ft_xorb_info_offset f) @
      write_u64 (ft_file_lookup_offset f) @ write_u64 (ft_file_lookup_num_entry f) @
      write_u64 (ft_xorb_lookup_offset f) @ write_u64 (ft_xorb_lookup_num_entry f) @
      write_u64 (ft_chunk_lookup_offset f) @ write_u64 (ft_chunk_lookup_num_entry f) @
      write_hash (ft_chunk_hash_hmac_key f) @ write_u64 (ft_shard_creation_timestamp f) @
      write_u64 (ft_shard_key_expiry f) @ write_u64s (ft_buffer f) @ write_u64 (ft_stored_bytes_on_disk f) @
      write_u64 (ft_materialized_bytes f) @ write_u64 (ft_stored_bytes f) @ write_u64 (ft_footer_offset f), 200)"

definition shard_footer_deserialize :: "bytes \<Rightarrow> core_error + (mdb_shard_file_footer \<times> bytes)" where
  "shard_footer_deserialize bs =
     rbind (lift_io (read_u64 bs)) (\<lambda>(version, bs).
       if version \<noteq> MDB_SHARD_FOOTER_VERSION then Inl ShardVersion
       else
         rbind (lift_io (read_u64 bs)) (\<lambda>(file_info_offset, bs).
         rbind (lift_io (read_u64 bs)) (\<lambda>(xorb_info_offset, bs).
         rbind (lift_io (read_u64 bs)) (\<lambda>(file_lookup_offset, bs).
         rbind (lift_io (read_u64 bs)) (\<lambda>(file_lookup_num_entry, bs).
         rbind (lift_io (read_u64 bs)) (\<lambda>(xorb_lookup_offset, bs).
         rbind (lift_io (read_u64 bs)) (\<lambda>(xorb_lookup_num_entry, bs).
         rbind (lift_io (read_u64 bs)) (\<lambda>(chunk_lookup_offset, bs).
         rbind (lift_io (read_u64 bs)) (\<lambda>(chunk_lookup_num_entry, bs).
         rbind (lift_io (read_hash bs)) (\<lambda>(chunk_hash_hmac_key, bs).
         rbind (lift_io (read_u64 bs)) (\<lambda>(shard_creation_timestamp, bs).
         rbind (lift_io (read_u64 bs)) (\<lambda>(shard_key_expiry, bs).
         rbind (lift_io (read_u64s 6 bs)) (\<lambda>(buffer, bs).
         rbind (lift_io (read_u64 bs)) (\<lambda>(stored_bytes_on_disk, bs).
         rbind (lift_io (read_u64 bs)) (\<lambda>(materialized_bytes, bs).
         rbind (lift_io (read_u64 bs)) (\<lambda>(stored_bytes, bs).
         rbind (lift_io (read_u64 bs)) (\<lambda>(footer_offset, bs).
           Inr (\<lparr>ft_version = version, ft_file_info_offset = file_info_offset,
                 ft_xorb_info_offset = xorb_info_offset, ft_file_lookup_offset = file_lookup_offset,
                 ft_file_lookup_num_entry = file_lookup_num_entry, ft_xorb_lookup_offset = xorb_lookup_offset,
                 ft_xorb_lookup_num_entry = xorb_lookup_num_entry, ft_chunk_lookup_offset = chunk_lookup_offset,
                 ft_chunk_lookup_num_entry = chunk_lookup_num_entry, ft_chunk_hash_hmac_key = chunk_hash_hmac_key,
                 ft_shard_creation_timestamp = shard_creation_timestamp, ft_shard_key_expiry = shard_key_expiry,
                 ft_buffer = buffer, ft_stored_bytes_on_disk = stored_bytes_on_disk,
                 ft_materialized_bytes = materialized_bytes, ft_stored_bytes = stored_bytes,
                 ft_footer_offset = footer_offset\<rparr>, bs))))))))))))))))))"

text \<open>The asynchronous reader takes the 200 bytes first.\<close>

definition shard_footer_deserialize_async :: "bytes \<Rightarrow> core_error + (mdb_shard_file_footer \<times> bytes)" where
  "shard_footer_deserialize_async bs =
     rbind (lift_io (read_exact MDB_SHARD_FOOTER_SIZE bs)) (\<lambda>(v, bs).
     rbind (shard_footer_deserialize v) (\<lambda>(f, _). Inr (f, bs)))"

record mdb_shard_info =
  si_header :: mdb_shard_file_header
  si_metadata :: mdb_shard_file_footer

definition shard_info_default :: mdb_shard_info where
  "shard_info_default = \<lparr>si_header = shard_header_default, si_metadata = shard_footer_default\<rparr>"

definition load_from_reader :: "bytes \<Rightarrow> core_error + mdb_shard_info" where
  "load_from_reader file =
     rbind (shard_header_deserialize file) (\<lambda>(header, _).
       if length file < MDB_SHARD_FOOTER_SIZE then Inl (Io OtherIo)
       else
         rbind (shard_footer_deserialize (drop (length file - MDB_SHARD_FOOTER_SIZE) file)) (\<lambda>(f, _).
           Inr \<lparr>si_header = header, si_metadata = f\<rparr>))"

section \<open>Writing\<close>

text \<open>The loop over the files: table, bytes written and their count.\<close>

fun save_file_infos ::
  "u32 \<Rightarrow> (merkle_hash, mdb_file_info) btree_map \<Rightarrow> (u64 \<times> u32) list \<times> bytes \<times> nat" where
  "save_file_infos index [] = ([], [], 0)"
| "save_file_infos index ((file_hash, content) # files) =
     (let (bs, n) = file_info_serialize content;
          (tab, out, written) = save_file_infos (index + of_nat (n div MDB_FILE_INFO_ENTRY_SIZE)) files
      in ((truncate_hash file_hash, index) # tab, bs @ out, n + written))"

definition convert_and_save_file_info ::
  "(merkle_hash, mdb_file_info) btree_map \<Rightarrow> (u64 \<times> u32) list \<times> bytes \<times> nat" where
  "convert_and_save_file_info files =
     (let (tab, out, written) = save_file_infos 0 files
      in (tab, out @ file_header_serialize file_header_bookend, written + 48))"

fun save_xorb_infos ::
  "u32 \<Rightarrow> (merkle_hash, mdb_xorb_info) btree_map \<Rightarrow>
   (u64 \<times> u32) list \<times> (u64 \<times> u32 \<times> u32) list \<times> bytes \<times> nat" where
  "save_xorb_infos index [] = ([], [], [], 0)"
| "save_xorb_infos index ((xorb_hash, content) # xorbs) =
     (let chunks = xorb_chunks content;
          (tab, ctab, out, written) = save_xorb_infos (index + 1 + of_nat (length chunks)) xorbs
      in ((truncate_hash xorb_hash, index) # tab,
          map (\<lambda>(i, c). (truncate_hash (xe_chunk_hash c), index, of_nat i)) (enumerate 0 chunks) @ ctab,
          xorb_header_serialize (xorb_metadata content) @ concat (map xorb_entry_serialize chunks) @ out,
          48 + 48 * length chunks + written))"

type_synonym key_sort = "(u64 \<times> u32 \<times> u32) list \<Rightarrow> (u64 \<times> u32 \<times> u32) list"

definition convert_and_save_xorb_info ::
  "key_sort \<Rightarrow> (merkle_hash, mdb_xorb_info) btree_map \<Rightarrow>
   (u64 \<times> u32) list \<times> (u64 \<times> u32 \<times> u32) list \<times> bytes \<times> nat" where
  "convert_and_save_xorb_info srt xorbs =
     (let (tab, ctab, out, written) = save_xorb_infos 0 xorbs
      in (tab, srt ctab, out @ xorb_header_serialize xorb_header_bookend, written + 48))"

definition write_u32_pair :: "u32 \<times> u32 \<Rightarrow> bytes" where
  "write_u32_pair p = write_u32 (fst p) @ write_u32 (snd p)"

definition write_lookup_table :: "(u64 \<times> u32) list \<Rightarrow> bytes" where
  "write_lookup_table tab = concat (map (\<lambda>(e1, e2). write_u64 e1 @ write_u32 e2) tab)"

definition write_chunk_lookup_table :: "(u64 \<times> u32 \<times> u32) list \<Rightarrow> bytes" where
  "write_chunk_lookup_table tab = concat (map (\<lambda>(e1, e2). write_u64 e1 @ write_u32_pair e2) tab)"

text \<open>\<open>expiry\<close> is the expiry time computed from the clock, if one was asked for.\<close>

definition serialize_from :: "key_sort \<Rightarrow> u64 option \<Rightarrow> mdb_in_memory_shard \<Rightarrow> bytes \<times> mdb_shard_info" where
  "serialize_from srt expiry mdb =
     (let (header, header_len) = shard_header_serialize shard_header_default;
          file_pos = header_len;
          (file_tab, file_bytes, file_len) = convert_and_save_file_info (file_content mdb);
          xorb_pos = file_pos + file_len;
          (xorb_tab, chunk_tab, xorb_bytes, xorb_len) = convert_and_save_xorb_info srt (xorb_content mdb);
          file_lookup_pos = xorb_pos + xorb_len;
          xorb_lookup_pos = file_lookup_pos + 8 * length file_tab + 4 * length file_tab;
          chunk_lookup_pos = xorb_lookup_pos + 8 * length xorb_tab + 4 * length xorb_tab;
          footer_pos = chunk_lookup_pos + 8 * length chunk_tab + 8 * length chunk_tab;
          f = shard_footer_default
            \<lparr>ft_file_info_offset := of_nat file_pos, ft_xorb_info_offset := of_nat xorb_pos,
             ft_file_lookup_offset := of_nat file_lookup_pos, ft_file_lookup_num_entry := of_nat (length file_tab),
             ft_xorb_lookup_offset := of_nat xorb_lookup_pos, ft_xorb_lookup_num_entry := of_nat (length xorb_tab),
             ft_chunk_lookup_offset := of_nat chunk_lookup_pos, ft_chunk_lookup_num_entry := of_nat (length chunk_tab),
             ft_stored_bytes_on_disk := stored_bytes_on_disk mdb, ft_materialized_bytes := materialized_bytes mdb,
             ft_stored_bytes := stored_bytes mdb, ft_footer_offset := of_nat footer_pos\<rparr>;
          f = (case expiry of Some t \<Rightarrow> f\<lparr>ft_shard_key_expiry := t\<rparr> | None \<Rightarrow> f)
      in (header @ file_bytes @ xorb_bytes @ write_lookup_table file_tab @ write_lookup_table xorb_tab @
          write_chunk_lookup_table chunk_tab @ fst (shard_footer_serialize f),
          \<lparr>si_header = shard_header_default, si_metadata = f\<rparr>))"

definition shard_to_bytes :: "key_sort \<Rightarrow> mdb_in_memory_shard \<Rightarrow> bytes" where
  "shard_to_bytes srt mdb = fst (serialize_from srt None mdb)"

definition non_content_byte_size :: u64 where
  "non_content_byte_size = of_nat (MDB_SHARD_FOOTER_SIZE + 48) + 48 + 48"

definition shard_file_size :: "mdb_in_memory_shard \<Rightarrow> u64" where
  "shard_file_size mdb = current_shard_file_size mdb + non_content_byte_size"

section \<open>Keys and ranges\<close>

definition chunk_hashes_protected :: "mdb_shard_info \<Rightarrow> bool" where
  "chunk_hashes_protected si \<longleftrightarrow> ft_chunk_hash_hmac_key (si_metadata si) \<noteq> default_hash"

definition chunk_hmac_key :: "mdb_shard_info \<Rightarrow> merkle_hash option" where
  "chunk_hmac_key si =
     (if ft_chunk_hash_hmac_key (si_metadata si) = default_hash then None else Some (ft_chunk_hash_hmac_key (si_metadata si)))"

definition keyed_chunk_hash :: "keyed_hash \<Rightarrow> mdb_shard_info \<Rightarrow> merkle_hash \<Rightarrow> merkle_hash" where
  "keyed_chunk_hash kh si h =
     (if ft_chunk_hash_hmac_key (si_metadata si) \<noteq> default_hash then hmac kh h (ft_chunk_hash_hmac_key (si_metadata si)) else h)"

definition file_info_byte_range :: "mdb_shard_info \<Rightarrow> u64 \<times> u64" where
  "file_info_byte_range si = (ft_file_info_offset (si_metadata si), ft_xorb_info_offset (si_metadata si))"

definition xorb_info_byte_range :: "mdb_shard_info \<Rightarrow> u64 \<times> u64" where
  "xorb_info_byte_range si = (ft_xorb_info_offset (si_metadata si), ft_file_lookup_offset (si_metadata si))"

definition file_lookup_byte_range :: "mdb_shard_info \<Rightarrow> u64 \<times> u64" where
  "file_lookup_byte_range si = (ft_file_lookup_offset (si_metadata si), ft_xorb_lookup_offset (si_metadata si))"

definition xorb_lookup_byte_range :: "mdb_shard_info \<Rightarrow> u64 \<times> u64" where
  "xorb_lookup_byte_range si = (ft_xorb_lookup_offset (si_metadata si), ft_chunk_lookup_offset (si_metadata si))"

definition chuck_lookup_byte_range :: "mdb_shard_info \<Rightarrow> u64 \<times> u64" where
  "chuck_lookup_byte_range si = (ft_chunk_lookup_offset (si_metadata si), ft_footer_offset (si_metadata si))"

definition shard_num_bytes :: "mdb_shard_info \<Rightarrow> u64" where
  "shard_num_bytes si = ft_footer_offset (si_metadata si) + of_nat MDB_SHARD_FOOTER_SIZE"

section \<open>Reading the sections in order\<close>

lemma file_header_consumes:
  assumes "file_header_deserialize bs = Inr (h, rest)"
  shows "rest = drop 48 bs" and "48 \<le> length bs"
proof -
  have "48 \<le> length bs" using assms file_header_codec.de_short [of bs] by (cases "length bs < 48") auto
  then show "rest = drop 48 bs" "48 \<le> length bs" using file_header_codec.de_full [of bs] assms by auto
qed

lemma xorb_header_consumes:
  assumes "xorb_header_deserialize bs = Inr (h, rest)"
  shows "rest = drop 48 bs" and "48 \<le> length bs"
proof -
  have "48 \<le> length bs" using assms xorb_header_codec.de_short [of bs] by (cases "length bs < 48") auto
  then show "rest = drop 48 bs" "48 \<le> length bs" using xorb_header_codec.de_full [of bs] assms by auto
qed

lemma header_shorter:
  "file_header_deserialize bs = Inr (h, rest) \<Longrightarrow> length rest < length bs"
  "xorb_header_deserialize bs = Inr (h', rest) \<Longrightarrow> length rest < length bs"
  using file_header_consumes [of bs h rest] xorb_header_consumes [of bs h' rest] by auto

text \<open>The number of bytes that follow a header of the file section.\<close>

definition file_section_bytes :: "file_data_sequence_header \<Rightarrow> nat" where
  "file_section_bytes header =
     (let n = unat (fh_num_entries header);
          n_entries = n;
          n_entries = (if header_contains_verification header then n_entries + n else n_entries);
          n_entries = (if header_contains_metadata_ext header then n_entries + 1 else n_entries)
      in n_entries * MDB_FILE_INFO_ENTRY_SIZE)"

text \<open>The callback updates a state, returns an error or panics; \<open>copy\<close> from \<open>take\<close> stops early at the end.\<close>

function process_shard_file_info_section ::
  "('s \<Rightarrow> mdb_file_info_view \<Rightarrow> (core_error + 's) option) \<Rightarrow> 's \<Rightarrow> bytes \<Rightarrow> (core_error + 's \<times> bytes) option" where
  "process_shard_file_info_section file_callback st bs =
     (case file_header_deserialize bs of
        Inl e \<Rightarrow> Some (Inl (Io e))
      | Inr (header, rest) \<Rightarrow>
          if file_header_is_bookend header then Some (Inr (st, rest))
          else
            let n_bytes = file_section_bytes header in
            case file_view_from_data_and_header header (file_header_serialize header @ take n_bytes rest) of
              Inl e \<Rightarrow> Some (Inl (Io e))
            | Inr view \<Rightarrow>
                case file_callback st view of
                  None \<Rightarrow> None
                | Some (Inl e) \<Rightarrow> Some (Inl e)
                | Some (Inr st) \<Rightarrow> process_shard_file_info_section file_callback st (drop n_bytes rest))"
  by pat_completeness auto
termination
  by (relation "measure (\<lambda>(cb, st, bs). length bs)") (auto dest!: header_shorter)

function process_shard_xorb_info_section ::
  "('s \<Rightarrow> mdb_xorb_info_view \<Rightarrow> (core_error + 's) option) \<Rightarrow> 's \<Rightarrow> bytes \<Rightarrow> (core_error + 's \<times> bytes) option" where
  "process_shard_xorb_info_section xorb_callback st bs =
     (case xorb_header_deserialize bs of
        Inl e \<Rightarrow> Some (Inl (Io e))
      | Inr (header, rest) \<Rightarrow>
          if xorb_header_is_bookend header then Some (Inr (st, rest))
          else
            let n_bytes = unat (xh_num_entries header) * 48 in
            case xorb_view_from_data_and_header header (xorb_header_serialize header @ take n_bytes rest) of
              Inl e \<Rightarrow> Some (Inl (Io e))
            | Inr view \<Rightarrow>
                case xorb_callback st view of
                  None \<Rightarrow> None
                | Some (Inl e) \<Rightarrow> Some (Inl e)
                | Some (Inr st) \<Rightarrow> process_shard_xorb_info_section xorb_callback st (drop n_bytes rest))"
  by pat_completeness auto
termination
  by (relation "measure (\<lambda>(cb, st, bs). length bs)") (auto dest!: header_shorter)

declare process_shard_file_info_section.simps [simp del] process_shard_xorb_info_section.simps [simp del]

definition shard_from_reader :: "bytes \<Rightarrow> (core_error + mdb_in_memory_shard) option" where
  "shard_from_reader bs =
     (case shard_header_deserialize bs of
        Inl e \<Rightarrow> Some (Inl e)
      | Inr (_, bs) \<Rightarrow>
          (case process_shard_file_info_section (\<lambda>s view.
                  map_option (\<lambda>info. Inr (add_file_reconstruction_info info s)) (file_info_from_view view)) shard_default bs of
             None \<Rightarrow> None
           | Some (Inl e) \<Rightarrow> Some (Inl e)
           | Some (Inr (s, bs)) \<Rightarrow>
               (case process_shard_xorb_info_section (\<lambda>s view.
                       map_option (\<lambda>info. Inr (add_xorb_block info s)) (xorb_info_from_view view)) s bs of
                  None \<Rightarrow> None
                | Some (Inl e) \<Rightarrow> Some (Inl e)
                | Some (Inr (s, _)) \<Rightarrow> Some (Inr s))))"

section \<open>Reading at an index\<close>

definition read_file_info :: "mdb_shard_info \<Rightarrow> bytes \<Rightarrow> u32 \<Rightarrow> core_error + mdb_file_info" where
  "read_file_info si file file_entry_index =
     rbind (lift_io (file_info_deserialize (drop (unat
         (ft_file_info_offset (si_metadata si) + of_nat MDB_FILE_INFO_ENTRY_SIZE * ucast file_entry_index)) file)))
       (\<lambda>(mdb_file, _). case mdb_file of None \<Rightarrow> Inl InternalError | Some info \<Rightarrow> Inr info)"

lemma file_info_consumes:
  assumes "file_info_deserialize bs = Inr (Some info, rest)"
  shows "length rest < length bs"
proof -
  obtain h r where h: "file_header_deserialize bs = Inr (h, r)"
    using assms by (cases "file_header_deserialize bs") (auto simp: file_info_deserialize_def)
  have len: "length xs' \<le> length xs" if "read_n file_entry_deserialize n xs = Inr (ys, xs')" for n xs ys xs'
    using file_entry_codec.read_n_cases [of xs n] that by (auto split: if_splits)
  have len': "length xs' \<le> length xs" if "read_n file_verification_deserialize n xs = Inr (ys, xs')" for n xs ys xs'
    using file_verification_codec.read_n_cases [of xs n] that by (auto split: if_splits)
  have len'': "length xs' \<le> length xs" if "file_metadata_ext_deserialize xs = Inr (y, xs')" for xs y xs'
    using file_metadata_ext_codec.de_short [of xs] file_metadata_ext_codec.de_full [of xs] that
    by (cases "length xs < 48") auto
  have "length rest \<le> length r"
    using assms h
    by (auto simp: file_info_deserialize_def Let_def rbind_def split: sum.splits if_splits prod.splits
        dest!: len len' len'')
  then show ?thesis using file_header_consumes [OF h] by auto
qed

lemma xorb_info_consumes:
  assumes "xorb_info_deserialize bs = Inr (Some info, rest)"
  shows "length rest < length bs"
proof -
  obtain h r where h: "xorb_header_deserialize bs = Inr (h, r)"
    using assms by (cases "xorb_header_deserialize bs") (auto simp: xorb_info_deserialize_def)
  have len: "length xs' \<le> length xs" if "read_n xorb_entry_deserialize n xs = Inr (ys, xs')" for n xs ys xs'
    using xorb_entry_codec.read_n_cases [of xs n] that by (auto split: if_splits)
  have "length rest \<le> length r"
    using assms h
    by (auto simp: xorb_info_deserialize_def rbind_def split: sum.splits if_splits prod.splits dest!: len)
  then show ?thesis using xorb_header_consumes [OF h] by auto
qed

text \<open>The loops that read a section up to its bookend.\<close>

function read_file_infos :: "bytes \<Rightarrow> io_error + mdb_file_info list" where
  "read_file_infos bs =
     (case file_info_deserialize bs of
        Inl e \<Rightarrow> Inl e
      | Inr (None, _) \<Rightarrow> Inr []
      | Inr (Some info, rest) \<Rightarrow> rbind (read_file_infos rest) (\<lambda>infos. Inr (info # infos)))"
  by pat_completeness auto
termination
  by (relation "measure length") (auto dest: file_info_consumes)

function read_xorb_infos :: "bytes \<Rightarrow> io_error + mdb_xorb_info list" where
  "read_xorb_infos bs =
     (case xorb_info_deserialize bs of
        Inl e \<Rightarrow> Inl e
      | Inr (None, _) \<Rightarrow> Inr []
      | Inr (Some info, rest) \<Rightarrow> rbind (read_xorb_infos rest) (\<lambda>infos. Inr (info # infos)))"
  by pat_completeness auto
termination
  by (relation "measure length") (auto dest: xorb_info_consumes)

declare read_file_infos.simps [simp del] read_xorb_infos.simps [simp del]

definition read_all_file_info_sections :: "mdb_shard_info \<Rightarrow> bytes \<Rightarrow> core_error + mdb_file_info list" where
  "read_all_file_info_sections si file = lift_io (read_file_infos (drop (unat (ft_file_info_offset (si_metadata si))) file))"

definition read_all_xorb_blocks_full :: "mdb_shard_info \<Rightarrow> bytes \<Rightarrow> core_error + mdb_xorb_info list" where
  "read_all_xorb_blocks_full si file = lift_io (read_xorb_infos (drop (unat (fst (xorb_info_byte_range si))) file))"

section \<open>Searching\<close>

definition get_file_info_index_by_hash ::
  "interp \<Rightarrow> mdb_shard_info \<Rightarrow> bytes \<Rightarrow> merkle_hash \<Rightarrow> (core_error + u32 list) option" where
  "get_file_info_index_by_hash interp si file file_hash =
     (let n = unat (ft_file_lookup_num_entry (si_metadata si)) in
      map_option (\<lambda>r. rbind (lift_io r) (\<lambda>found.
          if length found < 8 then Inr found else Inl (TruncatedHashCollision (truncate_hash file_hash))))
        (search_on_sorted_u64s interp read_u32 4 file (unat (ft_file_lookup_offset (si_metadata si))) n
           (truncate_hash file_hash) 8 (n + 1)))"

definition get_xorb_info_index_by_hash ::
  "interp \<Rightarrow> mdb_shard_info \<Rightarrow> bytes \<Rightarrow> merkle_hash \<Rightarrow> (core_error + u32 list) option" where
  "get_xorb_info_index_by_hash interp si file xorb_hash =
     (let n = unat (ft_xorb_lookup_num_entry (si_metadata si)) in
      map_option (\<lambda>r. rbind (lift_io r) (\<lambda>found.
          if length found < 8 then Inr found else Inl (TruncatedHashCollision (truncate_hash xorb_hash))))
        (search_on_sorted_u64s interp read_u32 4 file (unat (ft_xorb_lookup_offset (si_metadata si))) n
           (truncate_hash xorb_hash) 8 (n + 1)))"

definition read_u32_pair :: "(u32 \<times> u32) reader" where
  "read_u32_pair bs = rbind (read_u32 bs) (\<lambda>(a, bs). rbind (read_u32 bs) (\<lambda>(b, bs). Inr ((a, b), bs)))"

definition get_xorb_info_index_by_chunk ::
  "keyed_hash \<Rightarrow> interp \<Rightarrow> mdb_shard_info \<Rightarrow> bytes \<Rightarrow> merkle_hash \<Rightarrow> (core_error + (u32 \<times> u32) list) option" where
  "get_xorb_info_index_by_chunk kh interp si file unkeyed_chunk_hash =
     (let n = unat (ft_chunk_lookup_num_entry (si_metadata si)) in
      map_option lift_io
        (search_on_sorted_u64s interp read_u32_pair 8 file (unat (ft_chunk_lookup_offset (si_metadata si))) n
           (truncate_hash (keyed_chunk_hash kh si unkeyed_chunk_hash)) 8 (n + 1)))"

text \<open>The candidates are read and compared in turn.\<close>

fun check_file_infos ::
  "mdb_shard_info \<Rightarrow> bytes \<Rightarrow> merkle_hash \<Rightarrow> u32 list \<Rightarrow> core_error + mdb_file_info option" where
  "check_file_infos si file file_hash [] = Inr None"
| "check_file_infos si file file_hash (i # idxs) =
     rbind (read_file_info si file i) (\<lambda>info.
       if fh_file_hash (metadata info) = file_hash then Inr (Some info) else check_file_infos si file file_hash idxs)"

definition shard_get_file_reconstruction_info ::
  "interp \<Rightarrow> mdb_shard_info \<Rightarrow> bytes \<Rightarrow> merkle_hash \<Rightarrow> (core_error + mdb_file_info option) option" where
  "shard_get_file_reconstruction_info interp si file file_hash =
     map_option (\<lambda>r. rbind r (check_file_infos si file file_hash))
       (get_file_info_index_by_hash interp si file file_hash)"

text \<open>The loop of the direct query from chunk \<open>i\<close> on: the number of chunks matched and their bytes.\<close>

function query_direct_loop ::
  "(merkle_hash \<Rightarrow> merkle_hash) \<Rightarrow> merkle_hash list \<Rightarrow> nat \<Rightarrow> nat \<Rightarrow> nat \<Rightarrow> bytes \<Rightarrow> u32 \<Rightarrow> core_error + (nat \<times> u32)" where
  "query_direct_loop keyed hs off num_entries i rd n_bytes =
     (if off + i = num_entries then Inr (i, n_bytes)
      else
        (case lift_io (xorb_entry_deserialize rd) of
           Inl e \<Rightarrow> Inl e
         | Inr (c, rd) \<Rightarrow>
             if length hs \<le> i \<or> xe_chunk_hash c \<noteq> keyed (hs ! i) then Inr (i, n_bytes)
             else query_direct_loop keyed hs off num_entries (i + 1) rd (n_bytes + xe_unpacked_segment_bytes c)))"
  by pat_completeness auto
termination
  by (relation "measure (\<lambda>(keyed, hs, off, num, i, rd, n). length hs - i)") auto

declare query_direct_loop.simps [simp del]

definition chunk_hash_dedup_query_direct ::
  "keyed_hash \<Rightarrow> mdb_shard_info \<Rightarrow> bytes \<Rightarrow> merkle_hash list \<Rightarrow> u32 \<Rightarrow> u32 \<Rightarrow>
   core_error + (nat \<times> file_data_sequence_entry) option" where
  "chunk_hash_dedup_query_direct kh si file hs xorb_entry_index xorb_chunk_offset =
     (if hs = [] then Inr None
      else
        rbind (lift_io (xorb_header_deserialize (drop (unat
            (ft_xorb_info_offset (si_metadata si) + of_nat MDB_XORB_INFO_ENTRY_SIZE * ucast xorb_entry_index)) file)))
          (\<lambda>(xorb_header, rd).
        let rd = drop (MDB_XORB_INFO_ENTRY_SIZE * unat xorb_chunk_offset) rd in
        rbind (lift_io (xorb_entry_deserialize rd)) (\<lambda>(first_chunk, rd).
          if xe_chunk_hash first_chunk \<noteq> keyed_chunk_hash kh si (hs ! 0) then Inr None
          else
            rbind (query_direct_loop (keyed_chunk_hash kh si) hs (unat xorb_chunk_offset)
                (unat (xh_num_entries xorb_header)) 1 rd (xe_unpacked_segment_bytes first_chunk)) (\<lambda>(end_idx, n_bytes).
              Inr (Some (end_idx,
                \<lparr>fe_xorb_hash = xh_xorb_hash xorb_header, fe_xorb_flags = xh_xorb_flags xorb_header,
                 fe_unpacked_segment_bytes = n_bytes, fe_chunk_index_start = xorb_chunk_offset,
                 fe_chunk_index_end = xorb_chunk_offset + of_nat end_idx\<rparr>))))))"

fun check_chunks ::
  "keyed_hash \<Rightarrow> mdb_shard_info \<Rightarrow> bytes \<Rightarrow> merkle_hash list \<Rightarrow> (u32 \<times> u32) list \<Rightarrow>
   core_error + (nat \<times> file_data_sequence_entry) option" where
  "check_chunks kh si file hs [] = Inr None"
| "check_chunks kh si file hs ((xorb_index, chunk_offset) # found) =
     rbind (chunk_hash_dedup_query_direct kh si file hs xorb_index chunk_offset) (\<lambda>r.
       case r of Some x \<Rightarrow> Inr (Some x) | None \<Rightarrow> check_chunks kh si file hs found)"

definition shard_chunk_hash_dedup_query ::
  "keyed_hash \<Rightarrow> interp \<Rightarrow> mdb_shard_info \<Rightarrow> bytes \<Rightarrow> merkle_hash list \<Rightarrow>
   (core_error + (nat \<times> file_data_sequence_entry) option) option" where
  "shard_chunk_hash_dedup_query kh interp si file hs =
     (if hs = [] \<or> ft_chunk_lookup_num_entry (si_metadata si) = 0 then Some (Inr None)
      else map_option (\<lambda>r. rbind r (check_chunks kh si file hs)) (get_xorb_info_index_by_chunk kh interp si file (hs ! 0)))"

end
