(* ===== verification/Set_Operations.thy ===== *)
theory Set_Operations
  imports Shard_Format
begin

text \<open>
  Union and difference of shard files (\<open>metadata_shard/set_operations.rs\<close>): the sorted file and xorb
  sections of two files are merged entry by entry into the sections of a third one, and the lookup tables
  and the footer are written behind them. Both readers are the bytes that are left in their files, a seek
  drops bytes. \<open>None\<close> is a panic.
\<close>

datatype mdb_set_operation = SetUnion | SetDifference

datatype next_action = CopyToOut | SkipOver | Nothing | Merge

definition get_next_actions ::
  "merkle_hash option \<Rightarrow> merkle_hash option \<Rightarrow> mdb_set_operation \<Rightarrow> (next_action \<times> next_action) option" where
  "get_next_actions ha hb op =
     (case (ha, hb) of
        (None, None) \<Rightarrow> None
      | (Some _, None) \<Rightarrow> if op = SetUnion then Some (CopyToOut, Nothing) else Some (SkipOver, Nothing)
      | (None, Some _) \<Rightarrow> Some (Nothing, CopyToOut)
      | (Some ft0, Some ft1) \<Rightarrow>
          if ft0 < ft1 then (if op = SetUnion then Some (CopyToOut, Nothing) else Some (SkipOver, Nothing))
          else if ft0 = ft1 then (if op = SetUnion then Some (CopyToOut, SkipOver) else Some (SkipOver, SkipOver))
          else Some (Nothing, CopyToOut))"

definition get_next_actions_for_file_info ::
  "file_data_sequence_header option \<Rightarrow> file_data_sequence_header option \<Rightarrow> mdb_set_operation \<Rightarrow>
   (next_action \<times> next_action) option" where
  "get_next_actions_for_file_info ha hb op =
     (case (ha, hb) of
        (Some ft0, Some ft1) \<Rightarrow>
          if fh_file_hash ft0 = fh_file_hash ft1 \<and> op = SetUnion then
            (case compare_flag_superset ft0 ft1 of
               SuperA \<Rightarrow> Some (CopyToOut, SkipOver)
             | Equal \<Rightarrow> Some (CopyToOut, SkipOver)
             | SuperB \<Rightarrow> Some (SkipOver, CopyToOut)
             | Neither \<Rightarrow> Some (Merge, Nothing))
          else get_next_actions (map_option fh_file_hash ha) (map_option fh_file_hash hb) op
      | _ \<Rightarrow> get_next_actions (map_option fh_file_hash ha) (map_option fh_file_hash hb) op)"

text \<open>The arrays of two, indexed by 0 and 1.\<close>

definition side :: "nat \<Rightarrow> 'a \<times> 'a \<Rightarrow> 'a" where
  "side i p = (if i = 0 then fst p else snd p)"

definition set_side :: "nat \<Rightarrow> 'a \<Rightarrow> 'a \<times> 'a \<Rightarrow> 'a \<times> 'a" where
  "set_side i v p = (if i = 0 then (v, snd p) else (fst p, v))"

section \<open>The file section\<close>

record file_op_state =
  fo_readers :: "bytes \<times> bytes"
  fo_headers :: "file_data_sequence_header option \<times> file_data_sequence_header option"
  fo_out :: bytes
  fo_offset :: u64
  fo_materialized :: u64
  fo_lookup :: "(u64 \<times> u32) list"
  fo_index :: u32

definition load_next_file :: "bytes \<Rightarrow> core_error + (file_data_sequence_header option \<times> bytes)" where
  "load_next_file r =
     rbind (lift_io (file_header_deserialize r)) (\<lambda>(fdsh, r). Inr (if file_header_is_bookend fdsh then None else Some fdsh, r))"

definition copy_file_to_out :: "nat \<Rightarrow> file_op_state \<Rightarrow> (core_error + file_op_state) option" where
  "copy_file_to_out i st =
     (case side i (fo_headers st) of
        None \<Rightarrow> None
      | Some fh \<Rightarrow> Some (
          let n = unat (fh_num_entries fh) in
          rbind (lift_io (read_n file_entry_deserialize n (side i (fo_readers st)))) (\<lambda>(es, r).
          rbind (if header_contains_verification fh then lift_io (read_n file_verification_deserialize n r)
                 else Inr ([], r)) (\<lambda>(vs, r).
          rbind (if header_contains_metadata_ext fh
                 then rbind (lift_io (file_metadata_ext_deserialize r)) (\<lambda>(m, r). Inr ([m], r))
                 else Inr ([], r)) (\<lambda>(ms, r).
          rbind (load_next_file r) (\<lambda>(next_header, r).
            Inr (st\<lparr>fo_readers := set_side i r (fo_readers st), fo_headers := set_side i next_header (fo_headers st),
                   fo_out := fo_out st @ file_header_serialize fh @ concat (map file_entry_serialize es) @
                     concat (map file_verification_serialize vs) @ concat (map file_metadata_ext_serialize ms),
                   fo_offset := fo_offset st + 48 + ucast (fh_num_entries fh) * 48 +
                     (if header_contains_verification fh then ucast (fh_num_entries fh) * 48 else 0) +
                     (if header_contains_metadata_ext fh then 48 else 0),
                   fo_materialized := foldl (\<lambda>acc e. acc + ucast (fe_unpacked_segment_bytes e)) (fo_materialized st) es,
                   fo_lookup := fo_lookup st @ [(truncate_hash (fh_file_hash fh), fo_index st)],
                   fo_index := fo_index st + (1 + num_info_entry_following fh)\<rparr>)))))))"

definition skip_over_file :: "nat \<Rightarrow> file_op_state \<Rightarrow> (core_error + file_op_state) option" where
  "skip_over_file i st =
     (case side i (fo_headers st) of
        None \<Rightarrow> None
      | Some fh \<Rightarrow> Some (
          rbind (load_next_file (drop (unat (num_info_entry_following fh) * MDB_FILE_INFO_ENTRY_SIZE) (side i (fo_readers st))))
            (\<lambda>(next_header, r).
              Inr (st\<lparr>fo_readers := set_side i r (fo_readers st), fo_headers := set_side i next_header (fo_headers st)\<rparr>))))"

text \<open>The entries that only one of the readers is read for; the other one, where it has them, is advanced.\<close>

definition take_verification ::
  "file_data_sequence_header \<Rightarrow> file_data_sequence_header \<Rightarrow> bytes \<times> bytes \<Rightarrow>
   core_error + (file_verification_entry list \<times> bytes \<times> bytes)" where
  "take_verification fh0 fh1 rs =
     (let (read_idx, advance_idx) = (if header_contains_verification fh0 then (0, 1) else (1, 0));
          (read_header, advance_header) = (if header_contains_verification fh0 then (fh0, fh1) else (fh1, fh0))
      in rbind (lift_io (read_n file_verification_deserialize (unat (fh_num_entries read_header)) (side read_idx rs))) (\<lambda>(vs, r).
           let rs = set_side read_idx r rs in
           Inr (vs, if header_contains_verification advance_header
                    then set_side advance_idx
                      (drop (unat (fh_num_entries advance_header) * MDB_FILE_INFO_ENTRY_SIZE) (side advance_idx rs)) rs
                    else rs)))"

definition take_metadata_ext ::
  "file_data_sequence_header \<Rightarrow> file_data_sequence_header \<Rightarrow> bytes \<times> bytes \<Rightarrow>
   core_error + (file_metadata_ext list \<times> bytes \<times> bytes)" where
  "take_metadata_ext fh0 fh1 rs =
     (let (read_idx, advance_idx) = (if header_contains_metadata_ext fh0 then (0, 1) else (1, 0));
          advance_header = (if header_contains_metadata_ext fh0 then fh1 else fh0)
      in rbind (lift_io (file_metadata_ext_deserialize (side read_idx rs))) (\<lambda>(m, r).
           let rs = set_side read_idx r rs in
           Inr ([m], if header_contains_metadata_ext advance_header
                     then set_side advance_idx (drop MDB_FILE_INFO_ENTRY_SIZE (side advance_idx rs)) rs
                     else rs)))"

definition merge_file_entries :: "file_op_state \<Rightarrow> (core_error + file_op_state) option" where
  "merge_file_entries st =
     (case fo_headers st of
        (Some fh0, Some fh1) \<Rightarrow>
          (let has_verification = (header_contains_verification fh0 \<or> header_contains_verification fh1);
               has_metadata_ext = (header_contains_metadata_ext fh0 \<or> header_contains_metadata_ext fh1)
           in case file_header_new (fh_file_hash fh0) (unat (fh_num_entries fh0)) has_verification has_metadata_ext of
                None \<Rightarrow> None
              | Some header \<Rightarrow> Some (
                  rbind (lift_io (read_n file_entry_deserialize (unat (fh_num_entries fh0)) (fst (fo_readers st)))) (\<lambda>(es, r).
                  let rs = (r, drop (unat (fh_num_entries fh1) * MDB_FILE_INFO_ENTRY_SIZE) (snd (fo_readers st))) in
                  rbind (if has_verification then take_verification fh0 fh1 rs else Inr ([], rs)) (\<lambda>(vs, rs).
                  rbind (if has_metadata_ext then take_metadata_ext fh0 fh1 rs else Inr ([], rs)) (\<lambda>(ms, rs).
                  rbind (load_next_file (fst rs)) (\<lambda>(header0, r0).
                  rbind (load_next_file (snd rs)) (\<lambda>(header1, r1).
                    Inr (st\<lparr>fo_readers := (r0, r1), fo_headers := (header0, header1),
                           fo_out := fo_out st @ file_header_serialize header @ concat (map file_entry_serialize es) @
                             concat (map file_verification_serialize vs) @ concat (map file_metadata_ext_serialize ms),
                           fo_offset := fo_offset st + 48 + ucast (fh_num_entries fh0) * 48 + of_nat (length vs) * 48 +
                             of_nat (length ms) * 48,
                           fo_materialized := foldl (\<lambda>acc e. acc + ucast (fe_unpacked_segment_bytes e)) (fo_materialized st) es,
                           fo_lookup := fo_lookup st @ [(truncate_hash (fh_file_hash fh0), fo_index st)],
                           fo_index := fo_index st + (1 + num_info_entry_following header)\<rparr>))))))))
      | _ \<Rightarrow> None)"

definition file_action :: "nat \<Rightarrow> next_action \<Rightarrow> file_op_state \<Rightarrow> (core_error + file_op_state) option" where
  "file_action i action st =
     (case action of
        CopyToOut \<Rightarrow> copy_file_to_out i st
      | SkipOver \<Rightarrow> skip_over_file i st
      | Nothing \<Rightarrow> Some (Inr st)
      | Merge \<Rightarrow> merge_file_entries st)"

text \<open>The bytes that are left: each action but \<open>Nothing\<close> reads a header.\<close>

definition bytes_left :: "bytes \<times> bytes \<Rightarrow> nat" where
  "bytes_left rs = length (fst rs) + length (snd rs)"

lemma side_simps [simp]:
  "side 0 p = fst p" "side (Suc 0) p = snd p" "set_side 0 v p = (v, snd p)" "set_side (Suc 0) v p = (fst p, v)"
  by (simp_all add: side_def set_side_def)

lemma bytes_left_set_side: "bytes_left (set_side i r rs) + length (side i rs) = bytes_left rs + length r"
  by (simp add: bytes_left_def set_side_def side_def)

lemma load_next_file_shorter: "load_next_file r = Inr (h, r') \<Longrightarrow> length r' < length r"
  by (auto simp: load_next_file_def rbind_Inr_iff lift_io_def split: sum.splits dest: header_shorter(1))

lemma read_n_shorter:
  "read_n file_entry_deserialize n bs = Inr (es, r) \<Longrightarrow> length r \<le> length bs"
  "read_n file_verification_deserialize n bs = Inr (vs, r) \<Longrightarrow> length r \<le> length bs"
  using file_entry_codec.read_n_cases [of bs n] file_verification_codec.read_n_cases [of bs n] by (auto split: if_splits)

lemma metadata_ext_shorter: "file_metadata_ext_deserialize bs = Inr (m, r) \<Longrightarrow> length r \<le> length bs"
  using file_metadata_ext_codec.de_short [of bs] file_metadata_ext_codec.de_full [of bs] by (cases "length bs < 48") auto

lemma lift_io_Inr_iff: "lift_io r = Inr x \<longleftrightarrow> r = Inr x"
  by (auto simp: lift_io_def split: sum.splits)

lemma take_shorter:
  "take_verification fh0 fh1 rs = Inr (vs, rs') \<Longrightarrow> length (fst rs') \<le> length (fst rs) \<and> length (snd rs') \<le> length (snd rs)"
  "take_metadata_ext fh0 fh1 rs = Inr (ms, rs') \<Longrightarrow> length (fst rs') \<le> length (fst rs) \<and> length (snd rs') \<le> length (snd rs)"
  by (auto simp: take_verification_def take_metadata_ext_def rbind_Inr_iff lift_io_Inr_iff Let_def
      split: if_splits dest!: read_n_shorter(2) metadata_ext_shorter)

lemma one_side_shorter:
  "copy_file_to_out i st = Some (Inr st') \<Longrightarrow> \<exists>r. fo_readers st' = set_side i r (fo_readers st) \<and> length r < length (side i (fo_readers st))"
  "skip_over_file i st = Some (Inr st') \<Longrightarrow> \<exists>r. fo_readers st' = set_side i r (fo_readers st) \<and> length r < length (side i (fo_readers st))"
proof -
  assume "copy_file_to_out i st = Some (Inr st')"
  then obtain n es r1 vs r2 ms r3 h r where r: "read_n file_entry_deserialize n (side i (fo_readers st)) = Inr (es, r1)"
    "read_n file_verification_deserialize n r1 = Inr (vs, r2) \<or> r2 = r1" "file_metadata_ext_deserialize r2 = Inr (ms, r3) \<or> r3 = r2"
    "load_next_file r3 = Inr (h, r)" "fo_readers st' = set_side i r (fo_readers st)"
    by (auto simp: copy_file_to_out_def Let_def rbind_Inr_iff lift_io_Inr_iff split: option.splits if_splits) blast+
  have "length r < length r3" using r(4) by (rule load_next_file_shorter)
  also have "length r3 \<le> length r2" using r(3) metadata_ext_shorter by blast
  also have "length r2 \<le> length r1" using r(2) read_n_shorter(2) by blast
  also have "length r1 \<le> length (side i (fo_readers st))" using r(1) by (rule read_n_shorter)
  finally show "\<exists>r. fo_readers st' = set_side i r (fo_readers st) \<and> length r < length (side i (fo_readers st))" using r(5) by blast
next
  assume "skip_over_file i st = Some (Inr st')"
  then obtain n h r where r: "load_next_file (drop n (side i (fo_readers st))) = Inr (h, r)" "fo_readers st' = set_side i r (fo_readers st)"
    by (auto simp: skip_over_file_def rbind_Inr_iff split: option.splits)
  have "length r < length (side i (fo_readers st))" using load_next_file_shorter [OF r(1)] by simp
  then show "\<exists>r. fo_readers st' = set_side i r (fo_readers st) \<and> length r < length (side i (fo_readers st))" using r(2) by blast
qed

lemma merge_shorter:
  assumes "merge_file_entries st = Some (Inr st')"
  shows "bytes_left (fo_readers st') < bytes_left (fo_readers st)"
proof -
  obtain n k es r rs vs rs' ms rs'' h0 r0 g0 q0 where r: "read_n file_entry_deserialize n (fst (fo_readers st)) = Inr (es, r)"
    "rs = (r, drop k (snd (fo_readers st)))"
    "(\<exists>a b. take_verification a b rs = Inr (vs, rs')) \<or> rs' = rs" "(\<exists>a b. take_metadata_ext a b rs' = Inr (ms, rs'')) \<or> rs'' = rs'"
    "load_next_file (fst rs'') = Inr (h0, r0)" "load_next_file (snd rs'') = Inr (g0, q0)" "fo_readers st' = (r0, q0)"
    using assms
    by (auto simp: merge_file_entries_def Let_def rbind_Inr_iff lift_io_Inr_iff split: option.splits prod.splits if_splits) blast+
  have "length (fst rs) \<le> length (fst (fo_readers st))" "length (snd rs) \<le> length (snd (fo_readers st))"
    using read_n_shorter(1) [OF r(1)] r(2) by simp_all
  moreover have "length (fst rs') \<le> length (fst rs) \<and> length (snd rs') \<le> length (snd rs)" using r(3) take_shorter(1) by blast
  moreover have "length (fst rs'') \<le> length (fst rs') \<and> length (snd rs'') \<le> length (snd rs')" using r(4) take_shorter(2) by blast
  ultimately show ?thesis using load_next_file_shorter [OF r(5)] load_next_file_shorter [OF r(6)] r(7) by (simp add: bytes_left_def)
qed

lemma file_action_shorter:
  assumes "file_action i action st = Some (Inr st')" and "action \<noteq> Nothing"
  shows "bytes_left (fo_readers st') < bytes_left (fo_readers st)"
proof -
  have "bytes_left (fo_readers st') < bytes_left (fo_readers st)"
    if "\<exists>r. fo_readers st' = set_side i r (fo_readers st) \<and> length r < length (side i (fo_readers st))"
    using that bytes_left_set_side [of i _ "fo_readers st"] by (metis add_less_cancel_left nat_add_left_cancel_less add.commute)
  then show ?thesis
    using assms one_side_shorter [of i st st'] merge_shorter [of st st'] by (cases action) (simp_all add: file_action_def)
qed

lemma next_actions_progress:
  "get_next_actions ha hb op = Some (a0, a1) \<Longrightarrow> a0 \<noteq> Nothing \<or> a1 \<noteq> Nothing"
  "get_next_actions_for_file_info fa fb op = Some (a0, a1) \<Longrightarrow> a0 \<noteq> Nothing \<or> a1 \<noteq> Nothing"
  by (auto simp: get_next_actions_for_file_info_def get_next_actions_def split: option.splits if_splits superset_result.splits)

function file_op_loop :: "mdb_set_operation \<Rightarrow> file_op_state \<Rightarrow> (core_error + file_op_state) option" where
  "file_op_loop op st =
     (case get_next_actions_for_file_info (fst (fo_headers st)) (snd (fo_headers st)) op of
        None \<Rightarrow> Some (Inr st)
      | Some (a0, a1) \<Rightarrow>
          (case file_action 0 a0 st of
             None \<Rightarrow> None
           | Some (Inl e) \<Rightarrow> Some (Inl e)
           | Some (Inr st1) \<Rightarrow>
               (case file_action 1 a1 st1 of
                  None \<Rightarrow> None
                | Some (Inl e) \<Rightarrow> Some (Inl e)
                | Some (Inr st2) \<Rightarrow> file_op_loop op st2)))"
  by pat_completeness auto
termination
proof (relation "measure (\<lambda>(op, st). bytes_left (fo_readers st))")
  fix op st p a0 a1 r st1 r2 st2
  assume a: "get_next_actions_for_file_info (fst (fo_headers st)) (snd (fo_headers st)) op = Some p" "(a0, a1) = p"
    and s: "file_action 0 a0 st = Some r" "r = Inr st1" "file_action 1 a1 st1 = Some r2" "r2 = Inr st2"
  have keep: "file_action i Nothing u = Some (Inr v) \<Longrightarrow> v = u" for i u v by (simp add: file_action_def)
  have "bytes_left (fo_readers st1) \<le> bytes_left (fo_readers st)" "bytes_left (fo_readers st2) \<le> bytes_left (fo_readers st1)"
    using file_action_shorter [of 0 a0 st st1] file_action_shorter [of 1 a1 st1 st2] keep s by (metis le_eq_less_or_eq)+
  then have "bytes_left (fo_readers st2) < bytes_left (fo_readers st)"
    using file_action_shorter [of 0 a0 st st1] file_action_shorter [of 1 a1 st1 st2] next_actions_progress(2) [of _ _ op a0 a1] a s
    by (metis le_less_trans less_le_trans)
  then show "((op, st2), op, st) \<in> measure (\<lambda>(op, st). bytes_left (fo_readers st))" by simp
qed simp

declare file_op_loop.simps [simp del]

section \<open>The xorb section\<close>

record xorb_op_state =
  xs_readers :: "bytes \<times> bytes"
  xs_headers :: "xorb_chunk_sequence_header option \<times> xorb_chunk_sequence_header option"
  xs_out :: bytes
  xs_offset :: u64
  xs_on_disk :: u64
  xs_stored :: u64
  xs_lookup :: "(u64 \<times> u32) list"
  xs_chunk_lookup :: "(u64 \<times> u32 \<times> u32) list"
  xs_index :: u32

definition load_next_xorb :: "bytes \<Rightarrow> core_error + (xorb_chunk_sequence_header option \<times> bytes)" where
  "load_next_xorb r =
     rbind (lift_io (xorb_header_deserialize r)) (\<lambda>(ccsh, r). Inr (if xorb_header_is_bookend ccsh then None else Some ccsh, r))"

definition copy_xorb_to_out :: "nat \<Rightarrow> xorb_op_state \<Rightarrow> (core_error + xorb_op_state) option" where
  "copy_xorb_to_out i st =
     (case side i (xs_headers st) of
        None \<Rightarrow> None
      | Some fh \<Rightarrow> Some (
          rbind (lift_io (read_n xorb_entry_deserialize (unat (xh_num_entries fh)) (side i (xs_readers st)))) (\<lambda>(chunks, r).
          rbind (load_next_xorb r) (\<lambda>(next_header, r).
            Inr (st\<lparr>xs_readers := set_side i r (xs_readers st), xs_headers := set_side i next_header (xs_headers st),
                   xs_out := xs_out st @ xorb_header_serialize fh @ concat (map xorb_entry_serialize chunks),
                   xs_offset := xs_offset st + 48 + of_nat (length chunks) * 48,
                   xs_on_disk := xs_on_disk st + ucast (xh_num_bytes_on_disk fh),
                   xs_stored := xs_stored st + ucast (xh_num_bytes_in_xorb fh),
                   xs_lookup := xs_lookup st @ [(truncate_hash (xh_xorb_hash fh), xs_index st)],
                   xs_chunk_lookup := xs_chunk_lookup st @
                     map (\<lambda>(j, chunk). (truncate_hash (xe_chunk_hash chunk), xs_index st, of_nat j)) (enumerate 0 chunks),
                   xs_index := xs_index st + (1 + xh_num_entries fh)\<rparr>)))))"

definition skip_over_xorb :: "nat \<Rightarrow> xorb_op_state \<Rightarrow> (core_error + xorb_op_state) option" where
  "skip_over_xorb i st =
     (case side i (xs_headers st) of
        None \<Rightarrow> None
      | Some fh \<Rightarrow> Some (
          rbind (load_next_xorb (drop (unat (xh_num_entries fh) * 48) (side i (xs_readers st)))) (\<lambda>(next_header, r).
            Inr (st\<lparr>xs_readers := set_side i r (xs_readers st), xs_headers := set_side i next_header (xs_headers st)\<rparr>))))"

definition xorb_action :: "nat \<Rightarrow> next_action \<Rightarrow> xorb_op_state \<Rightarrow> (core_error + xorb_op_state) option" where
  "xorb_action i action st =
     (case action of
        CopyToOut \<Rightarrow> copy_xorb_to_out i st
      | SkipOver \<Rightarrow> skip_over_xorb i st
      | Nothing \<Rightarrow> Some (Inr st)
      | Merge \<Rightarrow> Some (Inr st))"

lemma load_next_xorb_shorter: "load_next_xorb r = Inr (h, r') \<Longrightarrow> length r' < length r"
  by (auto simp: load_next_xorb_def rbind_Inr_iff lift_io_Inr_iff dest: header_shorter(2))

lemma read_n_xorb_shorter: "read_n xorb_entry_deserialize n bs = Inr (es, r) \<Longrightarrow> length r \<le> length bs"
  using xorb_entry_codec.read_n_cases [of bs n] by (auto split: if_splits)

lemma xorb_action_shorter:
  assumes "xorb_action i action st = Some (Inr st')" and "action = CopyToOut \<or> action = SkipOver"
  shows "bytes_left (xs_readers st') < bytes_left (xs_readers st)"
proof -
  obtain bs h r where r: "load_next_xorb bs = Inr (h, r)" "xs_readers st' = set_side i r (xs_readers st)"
    "length bs \<le> length (side i (xs_readers st))"
    using assms by (auto simp: xorb_action_def copy_xorb_to_out_def skip_over_xorb_def rbind_Inr_iff lift_io_Inr_iff
        split: option.splits dest!: read_n_xorb_shorter)
  then show ?thesis using load_next_xorb_shorter [OF r(1)] bytes_left_set_side [of i r "xs_readers st"] by simp
qed

lemma next_actions_no_merge: "get_next_actions ha hb op = Some (a0, a1) \<Longrightarrow> a0 \<noteq> Merge \<and> a1 \<noteq> Merge"
  by (auto simp: get_next_actions_def split: option.splits if_splits)

function xorb_op_loop :: "mdb_set_operation \<Rightarrow> xorb_op_state \<Rightarrow> (core_error + xorb_op_state) option" where
  "xorb_op_loop op st =
     (case get_next_actions (map_option xh_xorb_hash (fst (xs_headers st))) (map_option xh_xorb_hash (snd (xs_headers st))) op of
        None \<Rightarrow> Some (Inr st)
      | Some (a0, a1) \<Rightarrow>
          (case xorb_action 0 a0 st of
             None \<Rightarrow> None
           | Some (Inl e) \<Rightarrow> Some (Inl e)
           | Some (Inr st1) \<Rightarrow>
               (case xorb_action 1 a1 st1 of
                  None \<Rightarrow> None
                | Some (Inl e) \<Rightarrow> Some (Inl e)
                | Some (Inr st2) \<Rightarrow> xorb_op_loop op st2)))"
  by pat_completeness auto
termination
proof (relation "measure (\<lambda>(op, st). bytes_left (xs_readers st))")
  fix op st p a0 a1 r st1 r2 st2
  assume a: "get_next_actions (map_option xh_xorb_hash (fst (xs_headers st))) (map_option xh_xorb_hash (snd (xs_headers st))) op = Some p" "(a0, a1) = p"
    and s: "xorb_action 0 a0 st = Some r" "r = Inr st1" "xorb_action 1 a1 st1 = Some r2" "r2 = Inr st2"
  have keep: "xorb_action i Nothing u = Some (Inr v) \<Longrightarrow> v = u" for i u v by (simp add: xorb_action_def)
  have act: "a0 = Nothing \<or> a0 = CopyToOut \<or> a0 = SkipOver" "a1 = Nothing \<or> a1 = CopyToOut \<or> a1 = SkipOver" "a0 \<noteq> Nothing \<or> a1 \<noteq> Nothing"
    using next_actions_no_merge next_actions_progress(1) a by (metis next_action.exhaust)+
  have "bytes_left (xs_readers st1) \<le> bytes_left (xs_readers st)" "bytes_left (xs_readers st2) \<le> bytes_left (xs_readers st1)"
    using xorb_action_shorter [of 0 a0 st st1] xorb_action_shorter [of 1 a1 st1 st2] keep act s by (metis le_eq_less_or_eq)+
  then have "bytes_left (xs_readers st2) < bytes_left (xs_readers st)"
    using xorb_action_shorter [of 0 a0 st st1] xorb_action_shorter [of 1 a1 st1 st2] act s
    by (metis le_less_trans less_le_trans)
  then show "((op, st2), op, st) \<in> measure (\<lambda>(op, st). bytes_left (xs_readers st))" by simp
qed simp

declare xorb_op_loop.simps [simp del]

section \<open>The operations on files\<close>

definition file_op_start :: "mdb_shard_info \<Rightarrow> bytes \<Rightarrow> mdb_shard_info \<Rightarrow> bytes \<Rightarrow> u64 \<Rightarrow> core_error + file_op_state" where
  "file_op_start s0 f0 s1 f1 out_offset =
     rbind (load_next_file (drop (unat (ft_file_info_offset (si_metadata s0))) f0)) (\<lambda>(header0, r0).
     rbind (load_next_file (drop (unat (ft_file_info_offset (si_metadata s1))) f1)) (\<lambda>(header1, r1).
       Inr \<lparr>fo_readers = (r0, r1), fo_headers = (header0, header1), fo_out = [], fo_offset = out_offset,
            fo_materialized = 0, fo_lookup = [], fo_index = 0\<rparr>))"

definition xorb_op_start :: "mdb_shard_info \<Rightarrow> bytes \<Rightarrow> mdb_shard_info \<Rightarrow> bytes \<Rightarrow> u64 \<Rightarrow> core_error + xorb_op_state" where
  "xorb_op_start s0 f0 s1 f1 out_offset =
     rbind (load_next_xorb (drop (unat (ft_xorb_info_offset (si_metadata s0))) f0)) (\<lambda>(header0, r0).
     rbind (load_next_xorb (drop (unat (ft_xorb_info_offset (si_metadata s1))) f1)) (\<lambda>(header1, r1).
       Inr \<lparr>xs_readers = (r0, r1), xs_headers = (header0, header1), xs_out = [], xs_offset = out_offset, xs_on_disk = 0,
            xs_stored = 0, xs_lookup = [], xs_chunk_lookup = [], xs_index = 0\<rparr>))"

text \<open>The tables and the footer behind the sections.\<close>

definition set_operation_end ::
  "key_sort \<Rightarrow> u64 \<Rightarrow> file_op_state \<Rightarrow> u64 \<Rightarrow> xorb_op_state \<Rightarrow> bytes \<times> mdb_shard_info" where
  "set_operation_end srt file_info_offset fs xorb_info_offset xs =
     (let file_lookup_offset = xs_offset xs + 48;
          xorb_lookup_offset = file_lookup_offset + of_nat (length (fo_lookup fs) * 12);
          chunk_lookup_offset = xorb_lookup_offset + of_nat (length (xs_lookup xs) * 12);
          chunk_lookup_data = srt (xs_chunk_lookup xs);
          footer_offset = chunk_lookup_offset + of_nat (length chunk_lookup_data * 16);
          footer = shard_footer_default
            \<lparr>ft_file_info_offset := file_info_offset, ft_xorb_info_offset := xorb_info_offset,
             ft_file_lookup_offset := file_lookup_offset, ft_file_lookup_num_entry := of_nat (length (fo_lookup fs)),
             ft_xorb_lookup_offset := xorb_lookup_offset, ft_xorb_lookup_num_entry := of_nat (length (xs_lookup xs)),
             ft_chunk_lookup_offset := chunk_lookup_offset, ft_chunk_lookup_num_entry := of_nat (length chunk_lookup_data),
             ft_stored_bytes_on_disk := xs_on_disk xs, ft_materialized_bytes := fo_materialized fs,
             ft_stored_bytes := xs_stored xs, ft_footer_offset := footer_offset\<rparr>
      in (fst (shard_header_serialize shard_header_default) @
          (fo_out fs @ file_header_serialize file_header_bookend) @ (xs_out xs @ xorb_header_serialize xorb_header_bookend) @
          write_lookup_table (fo_lookup fs) @ write_lookup_table (xs_lookup xs) @ write_chunk_lookup_table chunk_lookup_data @
          fst (shard_footer_serialize footer),
          \<lparr>si_header = shard_header_default, si_metadata = footer\<rparr>))"

definition set_operation ::
  "key_sort \<Rightarrow> mdb_shard_info \<Rightarrow> bytes \<Rightarrow> mdb_shard_info \<Rightarrow> bytes \<Rightarrow> mdb_set_operation \<Rightarrow> (core_error + bytes \<times> mdb_shard_info) option" where
  "set_operation srt s0 f0 s1 f1 op =
     (let file_info_offset = of_nat (snd (shard_header_serialize shard_header_default)) in
      case file_op_start s0 f0 s1 f1 file_info_offset of
        Inl e \<Rightarrow> Some (Inl e)
      | Inr fs \<Rightarrow>
          (case file_op_loop op fs of
             None \<Rightarrow> None
           | Some (Inl e) \<Rightarrow> Some (Inl e)
           | Some (Inr fs) \<Rightarrow>
               (let xorb_info_offset = fo_offset fs + 48 in
                case xorb_op_start s0 f0 s1 f1 xorb_info_offset of
                  Inl e \<Rightarrow> Some (Inl e)
                | Inr xs \<Rightarrow>
                    (case xorb_op_loop op xs of
                       None \<Rightarrow> None
                     | Some (Inl e) \<Rightarrow> Some (Inl e)
                     | Some (Inr xs) \<Rightarrow> Some (Inr (set_operation_end srt file_info_offset fs xorb_info_offset xs))))))"

definition shard_set_union ::
  "key_sort \<Rightarrow> mdb_shard_info \<Rightarrow> bytes \<Rightarrow> mdb_shard_info \<Rightarrow> bytes \<Rightarrow> (core_error + bytes \<times> mdb_shard_info) option" where
  "shard_set_union srt s0 f0 s1 f1 = set_operation srt s0 f0 s1 f1 SetUnion"

definition shard_set_difference ::
  "key_sort \<Rightarrow> mdb_shard_info \<Rightarrow> bytes \<Rightarrow> mdb_shard_info \<Rightarrow> bytes \<Rightarrow> (core_error + bytes \<times> mdb_shard_info) option" where
  "shard_set_difference srt s0 f0 s1 f1 = set_operation srt s0 f0 s1 f1 SetDifference"

text \<open>On the contents of two files: the hash, the info and the contents of the file that is written.\<close>

definition shard_file_op ::
  "keyed_hash \<Rightarrow> key_sort \<Rightarrow> bytes \<Rightarrow> bytes \<Rightarrow> mdb_set_operation \<Rightarrow> (core_error + merkle_hash \<times> mdb_shard_info \<times> bytes) option" where
  "shard_file_op kh srt f0 f1 op =
     (case load_from_reader f0 of
        Inl e \<Rightarrow> Some (Inl e)
      | Inr s0 \<Rightarrow>
          (case load_from_reader f1 of
             Inl e \<Rightarrow> Some (Inl e)
           | Inr s1 \<Rightarrow>
               map_option (\<lambda>r. rbind r (\<lambda>(out, shard). Inr (compute_data_hash kh out, shard, out)))
                 (set_operation srt s0 f0 s1 f1 op)))"

definition shard_file_union ::
  "keyed_hash \<Rightarrow> key_sort \<Rightarrow> bytes \<Rightarrow> bytes \<Rightarrow> (core_error + merkle_hash \<times> mdb_shard_info \<times> bytes) option" where
  "shard_file_union kh srt f0 f1 = shard_file_op kh srt f0 f1 SetUnion"

definition shard_file_difference ::
  "keyed_hash \<Rightarrow> key_sort \<Rightarrow> bytes \<Rightarrow> bytes \<Rightarrow> (core_error + merkle_hash \<times> mdb_shard_info \<times> bytes) option" where
  "shard_file_difference kh srt f0 f1 = shard_file_op kh srt f0 f1 SetDifference"

end
