(* ===== verification/Shard_Format_Correct.thy ===== *)
theory Shard_Format_Correct
  imports Shard_Format
begin

text \<open>
  What is written is read back and found: the footer locates the sections, reading the sections in order
  rebuilds the shard in memory, and the searches on the file return what the maps in memory hold.
\<close>

section \<open>Header and footer\<close>

lemma shard_header_codec [reader_simps]:
  "length (fst (shard_header_serialize h)) = 48"
  "sh_tag h = MDB_SHARD_HEADER_TAG \<Longrightarrow> shard_header_deserialize (fst (shard_header_serialize h) @ rest) = Inr (h, rest)"
proof -
  have tag: "length MDB_SHARD_HEADER_TAG = 32" by (simp add: MDB_SHARD_HEADER_TAG_def)
  then show "length (fst (shard_header_serialize h)) = 48" by (simp add: shard_header_serialize_def reader_simps)
  show "shard_header_deserialize (fst (shard_header_serialize h) @ rest) = Inr (h, rest)" if "sh_tag h = MDB_SHARD_HEADER_TAG"
    using that by (cases h) (simp add: shard_header_serialize_def shard_header_deserialize_def reader_simps read_exact_append [OF tag])
qed

lemma shard_footer_codec [reader_simps]:
  "length (ft_buffer f) = 6 \<Longrightarrow> length (fst (shard_footer_serialize f)) = 200"
  "length (ft_buffer f) = 6 \<Longrightarrow> ft_version f = MDB_SHARD_FOOTER_VERSION \<Longrightarrow>
     shard_footer_deserialize (fst (shard_footer_serialize f) @ rest) = Inr (f, rest)"
proof -
  show "length (ft_buffer f) = 6 \<Longrightarrow> length (fst (shard_footer_serialize f)) = 200"
    by (simp add: shard_footer_serialize_def reader_simps)
  assume f: "length (ft_buffer f) = 6" "ft_version f = MDB_SHARD_FOOTER_VERSION"
  have "read_u64s 6 (write_u64s (ft_buffer f) @ r) = Inr (ft_buffer f, r)" for r
    using read_u64s_write_u64s [of "ft_buffer f" r] f(1) by simp
  then show "shard_footer_deserialize (fst (shard_footer_serialize f) @ rest) = Inr (f, rest)"
    using f(2) by (cases f) (simp add: shard_footer_serialize_def shard_footer_deserialize_def reader_simps)
qed

section \<open>The written sections\<close>

text \<open>The size of the sections in records of 48 bytes.\<close>

definition file_units :: "mdb_file_info \<Rightarrow> nat" where
  "file_units info = snd (file_info_serialize info) div MDB_FILE_INFO_ENTRY_SIZE"

definition file_section_units :: "(merkle_hash, mdb_file_info) btree_map \<Rightarrow> nat" where
  "file_section_units files = sum_list (map (\<lambda>(_, info). file_units info) files)"

definition xorb_section_units :: "(merkle_hash, mdb_xorb_info) btree_map \<Rightarrow> nat" where
  "xorb_section_units xorbs = sum_list (map (\<lambda>(_, info). 1 + length (xorb_chunks info)) xorbs)"

lemma file_serialize_len: "snd (file_info_serialize info) = 48 * file_units info" "0 < file_units info"
  by (auto simp: file_units_def file_info_serialize_def MDB_FILE_INFO_ENTRY_SIZE_def split: option.splits)

text \<open>Where an entry of the table leads.\<close>

definition leads_to :: "(bytes \<times> nat) \<Rightarrow> bytes \<Rightarrow> nat \<Rightarrow> bool" where
  "leads_to s out j \<longleftrightarrow> (\<exists>r. drop (48 * j) out = fst s @ r)"

lemma leads_to_append: "leads_to s out j \<Longrightarrow> 48 * j \<le> length out \<Longrightarrow> leads_to s (out @ rest) j"
  by (auto simp: leads_to_def)

lemma save_file_infos_ok:
  "save_file_infos index files = (tab, out, written) \<Longrightarrow> unat index + file_section_units files < 2 ^ 32 \<Longrightarrow>
     written = 48 * file_section_units files \<and> length out = written \<and>
     list_all2 (\<lambda>(h, info) (k, i). k = truncate_hash h \<and>
       (\<exists>j. unat i = unat index + j \<and> j < file_section_units files \<and> leads_to (file_info_serialize info) out j)) files tab"
proof (induction index files arbitrary: tab out written rule: save_file_infos.induct)
  case (1 index)
  then show ?case by (simp add: file_section_units_def)
next
  case (2 index h info files)
  obtain bs n where s: "file_info_serialize info = (bs, n)" by fastforce
  have n: "n = 48 * file_units info" "length bs = n" "0 < file_units info"
    using file_serialize_len [of info] length_file_info_serialize [of info] s by simp_all
  let ?index = "index + of_nat (file_units info)"
  obtain tab' out' w' where rec: "save_file_infos ?index files = (tab', out', w')" by (metis prod_cases3)
  have res: "tab = (truncate_hash h, index) # tab'" "out = bs @ out'" "written = n + w'"
    using "2.prems"(1) rec n(1) by (simp_all add: s MDB_FILE_INFO_ENTRY_SIZE_def)
  have units: "file_section_units ((h, info) # files) = file_units info + file_section_units files"
    by (simp add: file_section_units_def)
  have fit: "unat index + file_units info < 2 ^ 32" using "2.prems"(2) units by simp
  then have idx: "unat ?index = unat index + file_units info"
    by (simp add: unat_word_ariths unsigned_of_nat take_bit_nat_eq_self)
  have "n div MDB_FILE_INFO_ENTRY_SIZE = file_units info" using n(1) by (simp add: MDB_FILE_INFO_ENTRY_SIZE_def)
  then have IH: "w' = 48 * file_section_units files" "length out' = w'"
    "list_all2 (\<lambda>(h, info) (k, i). k = truncate_hash h \<and>
       (\<exists>j. unat i = unat ?index + j \<and> j < file_section_units files \<and> leads_to (file_info_serialize info) out' j)) files tab'"
    using "2.IH" [OF s [symmetric] refl] rec "2.prems"(2) units idx by simp_all
  have shift: "\<exists>j'. unat i = unat index + j' \<and> j' < file_section_units ((h, info) # files) \<and> leads_to s' out j'"
    if "unat i = unat ?index + j" "j < file_section_units files" "leads_to s' out' j" for i j s'
    using that n idx unfolding res(2) units by (intro exI [of _ "file_units info + j"]) (auto simp: leads_to_def algebra_simps)
  have "list_all2 (\<lambda>(h', info') (k, i). k = truncate_hash h' \<and>
       (\<exists>j. unat i = unat index + j \<and> j < file_section_units ((h, info) # files) \<and> leads_to (file_info_serialize info') out j)) files tab'"
    using IH(3) by (rule list_all2_mono) (use shift in fastforce)
  moreover have "leads_to (file_info_serialize info) out 0" by (simp add: leads_to_def s res(2))
  ultimately show ?case
    using IH(1,2) n units unfolding res by (auto simp: algebra_simps intro!: exI [of _ 0])
qed

text \<open>The places of the chunks of all xorbs, in order.\<close>

definition chunk_places :: "(merkle_hash, mdb_xorb_info) btree_map \<Rightarrow> (mdb_xorb_info \<times> nat) list" where
  "chunk_places xorbs = concat (map (\<lambda>(_, info). map (Pair info) [0..<length (xorb_chunks info)]) xorbs)"

definition place_hash :: "mdb_xorb_info \<times> nat \<Rightarrow> merkle_hash" where
  "place_hash p = xe_chunk_hash (xorb_chunks (fst p) ! snd p)"

definition place_entry :: "u32 \<Rightarrow> nat \<Rightarrow> bytes \<Rightarrow> mdb_xorb_info \<times> nat \<Rightarrow> u64 \<times> u32 \<times> u32 \<Rightarrow> bool" where
  "place_entry index units out p e \<longleftrightarrow>
     (case p of (info, c) \<Rightarrow> case e of (k, xi, ci) \<Rightarrow>
        k = truncate_hash (place_hash p) \<and> c < length (xorb_chunks info) \<and> unat ci = c \<and>
        (\<exists>j. unat xi = unat index + j \<and> j < units \<and> leads_to (xorb_info_serialize info) out j))"

lemma chunk_places_simps [simp]:
  "chunk_places [] = []"
  "chunk_places ((h, info) # xorbs) = map (Pair info) [0..<length (xorb_chunks info)] @ chunk_places xorbs"
  by (simp_all add: chunk_places_def)

lemma save_xorb_infos_ok:
  "save_xorb_infos index xorbs = (tab, ctab, out, written) \<Longrightarrow> unat index + xorb_section_units xorbs < 2 ^ 32 \<Longrightarrow>
     written = 48 * xorb_section_units xorbs \<and> length out = written \<and>
     list_all2 (\<lambda>(h, info) (k, i). k = truncate_hash h \<and>
       (\<exists>j. unat i = unat index + j \<and> j < xorb_section_units xorbs \<and> leads_to (xorb_info_serialize info) out j)) xorbs tab \<and>
     list_all2 (place_entry index (xorb_section_units xorbs) out) (chunk_places xorbs) ctab"
proof (induction index xorbs arbitrary: tab ctab out written rule: save_xorb_infos.induct)
  case (1 index)
  then show ?case by (simp add: xorb_section_units_def)
next
  case (2 index h info xorbs)
  let ?n = "length (xorb_chunks info)"
  let ?index = "index + 1 + of_nat ?n"
  obtain tab' ctab' out' w' where rec: "save_xorb_infos ?index xorbs = (tab', ctab', out', w')" by (metis prod_cases4)
  have res: "tab = (truncate_hash h, index) # tab'" "out = fst (xorb_info_serialize info) @ out'" "written = 48 * (1 + ?n) + w'"
    "ctab = map (\<lambda>(i, c). (truncate_hash (xe_chunk_hash c), index, of_nat i)) (enumerate 0 (xorb_chunks info)) @ ctab'"
    using "2.prems"(1) rec by (simp_all add: xorb_info_serialize_def Let_def)
  have units: "xorb_section_units ((h, info) # xorbs) = 1 + ?n + xorb_section_units xorbs"
    by (simp add: xorb_section_units_def)
  have fit: "unat index + (1 + ?n) < 2 ^ 32" using "2.prems"(2) units by simp
  have "unat (index + of_nat (1 + ?n)) = unat index + (1 + ?n)"
    using fit by (simp add: unat_word_ariths unsigned_of_nat take_bit_nat_eq_self del: of_nat_Suc of_nat_add)
  then have idx: "unat ?index = unat index + (1 + ?n)" by (simp add: add.assoc)
  have IH: "w' = 48 * xorb_section_units xorbs" "length out' = w'"
    "list_all2 (\<lambda>(h, info) (k, i). k = truncate_hash h \<and>
       (\<exists>j. unat i = unat ?index + j \<and> j < xorb_section_units xorbs \<and> leads_to (xorb_info_serialize info) out' j)) xorbs tab'"
    "list_all2 (place_entry ?index (xorb_section_units xorbs) out') (chunk_places xorbs) ctab'"
    using "2.IH" [OF refl rec] "2.prems"(2) units idx by simp_all
  have len: "length (fst (xorb_info_serialize info)) = 48 * (1 + ?n)" by (simp add: xorb_info_serialize_def reader_simps)
  have shift: "\<exists>j'. unat i = unat index + j' \<and> j' < xorb_section_units ((h, info) # xorbs) \<and> leads_to s' out j'"
    if "unat i = unat ?index + j" "j < xorb_section_units xorbs" "leads_to s' out' j" for i j s'
    using that len idx unfolding res(2) units by (intro exI [of _ "1 + ?n + j"]) (auto simp: leads_to_def algebra_simps)
  have "list_all2 (\<lambda>(h', info') (k, i). k = truncate_hash h' \<and>
       (\<exists>j. unat i = unat index + j \<and> j < xorb_section_units ((h, info) # xorbs) \<and> leads_to (xorb_info_serialize info') out j)) xorbs tab'"
    using IH(3) by (rule list_all2_mono) (use shift in fastforce)
  moreover have here: "leads_to (xorb_info_serialize info) out 0" by (simp add: leads_to_def res(2))
  moreover have "list_all2 (place_entry index (xorb_section_units ((h, info) # xorbs)) out) (chunk_places xorbs) ctab'"
    using IH(4)
  proof (rule list_all2_mono)
    fix p e assume e: "place_entry ?index (xorb_section_units xorbs) out' p e"
    obtain info' c k xi ci where pe: "p = (info', c)" "e = (k, xi, ci)" by (metis prod.collapse)
    obtain j where j: "unat xi = unat ?index + j" "j < xorb_section_units xorbs" "leads_to (xorb_info_serialize info') out' j"
      using e unfolding place_entry_def pe by blast
    show "place_entry index (xorb_section_units ((h, info) # xorbs)) out p e"
      using e shift [OF j] unfolding place_entry_def pe by simp
  qed
  moreover have "list_all2 (place_entry index (xorb_section_units ((h, info) # xorbs)) out) (map (Pair info) [0..<?n])
      (map (\<lambda>(i, c). (truncate_hash (xe_chunk_hash c), index, of_nat i)) (enumerate 0 (xorb_chunks info)))"
    using here fit units
    by (auto simp: list_all2_conv_all_nth place_entry_def place_hash_def nth_enumerate_eq intro!: exI [of _ 0])
  ultimately show ?case
    using IH(1,2) len units unfolding res by (auto simp: algebra_simps list_all2_append intro!: exI [of _ 0])
qed

section \<open>The layout of the file\<close>

text \<open>A shard that can be written: its contents are well-formed and the indices of its sections fit.\<close>

definition storable :: "mdb_in_memory_shard \<Rightarrow> bool" where
  "storable mdb \<longleftrightarrow>
     shard_inv mdb \<and> list_all (\<lambda>(_, info). wf_file_info info) (file_content mdb) \<and>
     list_all (\<lambda>(_, info). wf_xorb_info info) (xorb_content mdb) \<and>
     file_section_units (file_content mdb) < 2 ^ 32 \<and> xorb_section_units (xorb_content mdb) < 2 ^ 32"

definition key_sort_ok :: "key_sort \<Rightarrow> bool" where
  "key_sort_ok srt \<longleftrightarrow> (\<forall>xs. mset (srt xs) = mset xs \<and> sorted (map fst (srt xs)))"

lemma key_sort_ok_example: "key_sort_ok (sort_key fst)"
  by (simp add: key_sort_ok_def)

definition footer_for :: "key_sort \<Rightarrow> u64 option \<Rightarrow> mdb_in_memory_shard \<Rightarrow> mdb_shard_file_footer" where
  "footer_for srt expiry mdb = si_metadata (snd (serialize_from srt expiry mdb))"

lemma length_tables:
  "length (write_lookup_table tab) = 12 * length tab" "length (write_chunk_lookup_table ctab) = 16 * length ctab"
proof -
  show "length (write_lookup_table tab) = 12 * length tab"
    by (induction tab) (auto simp: write_lookup_table_def reader_simps)
  show "length (write_chunk_lookup_table ctab) = 16 * length ctab"
    by (induction ctab) (auto simp: write_chunk_lookup_table_def write_u32_pair_def reader_simps)
qed

lemma units_bound:
  "length files \<le> file_section_units files" "length xorbs \<le> xorb_section_units xorbs"
  "length (chunk_places xorbs) \<le> xorb_section_units xorbs"
proof -
  show "length files \<le> file_section_units files"
  proof (induction files)
    case (Cons x files)
    then show ?case using file_serialize_len(2) [of "snd x"] by (simp add: file_section_units_def case_prod_beta)
  qed simp
qed (induction xorbs; auto simp: xorb_section_units_def)+

lemma serialize_layout:
  assumes st: "storable mdb" and srt: "key_sort_ok srt"
  obtains file_tab file_out xorb_tab ctab xorb_out where
    "save_file_infos 0 (file_content mdb) = (file_tab, file_out, 48 * file_section_units (file_content mdb))"
    "save_xorb_infos 0 (xorb_content mdb) = (xorb_tab, ctab, xorb_out, 48 * xorb_section_units (xorb_content mdb))"
    "fst (serialize_from srt expiry mdb) = fst (shard_header_serialize shard_header_default) @
       (file_out @ file_header_serialize file_header_bookend) @ (xorb_out @ xorb_header_serialize xorb_header_bookend) @
       write_lookup_table file_tab @ write_lookup_table xorb_tab @ write_chunk_lookup_table (srt ctab) @
       fst (shard_footer_serialize (footer_for srt expiry mdb))"
    "snd (serialize_from srt expiry mdb) = \<lparr>si_header = shard_header_default, si_metadata = footer_for srt expiry mdb\<rparr>"
    "length (ft_buffer (footer_for srt expiry mdb)) = 6" "ft_version (footer_for srt expiry mdb) = MDB_SHARD_FOOTER_VERSION"
    "unat (ft_file_info_offset (footer_for srt expiry mdb)) = 48"
    "unat (ft_xorb_info_offset (footer_for srt expiry mdb)) = 48 + (length file_out + 48)"
    "unat (ft_file_lookup_offset (footer_for srt expiry mdb)) = 48 + (length file_out + 48) + (length xorb_out + 48)"
    "unat (ft_xorb_lookup_offset (footer_for srt expiry mdb)) =
       48 + (length file_out + 48) + (length xorb_out + 48) + length (write_lookup_table file_tab)"
    "unat (ft_chunk_lookup_offset (footer_for srt expiry mdb)) =
       48 + (length file_out + 48) + (length xorb_out + 48) + length (write_lookup_table file_tab) +
       length (write_lookup_table xorb_tab)"
    "unat (ft_file_lookup_num_entry (footer_for srt expiry mdb)) = length file_tab"
    "unat (ft_xorb_lookup_num_entry (footer_for srt expiry mdb)) = length xorb_tab"
    "unat (ft_chunk_lookup_num_entry (footer_for srt expiry mdb)) = length (srt ctab)"
    "ft_chunk_hash_hmac_key (footer_for srt expiry mdb) = default_hash"
proof -
  obtain file_tab file_out fw where f: "save_file_infos 0 (file_content mdb) = (file_tab, file_out, fw)" by (metis prod_cases3)
  obtain xorb_tab ctab xorb_out xw where x: "save_xorb_infos 0 (xorb_content mdb) = (xorb_tab, ctab, xorb_out, xw)"
    by (metis prod_cases4)
  have fu: "file_section_units (file_content mdb) < 2 ^ 32" and xu: "xorb_section_units (xorb_content mdb) < 2 ^ 32"
    using st by (simp_all add: storable_def)
  have fw: "fw = 48 * file_section_units (file_content mdb)" "length file_out = fw" "length file_tab = length (file_content mdb)"
    using save_file_infos_ok [OF f] fu by (auto dest: list_all2_lengthD)
  have xw: "xw = 48 * xorb_section_units (xorb_content mdb)" "length xorb_out = xw" "length xorb_tab = length (xorb_content mdb)"
    "length ctab = length (chunk_places (xorb_content mdb))"
    using save_xorb_infos_ok [OF x] xu by (auto dest: list_all2_lengthD)
  have cl: "length (srt ctab) = length ctab" using srt by (metis key_sort_ok_def size_mset)
  have le: "length file_tab < 2 ^ 32" "length xorb_tab < 2 ^ 32" "length ctab < 2 ^ 32" "fw < 48 * 2 ^ 32" "xw < 48 * 2 ^ 32"
    using units_bound(1) [of "file_content mdb"] units_bound(2,3) [of "xorb_content mdb"] fu xu fw xw by simp_all
  have u: "unat (of_nat n :: u64) = n" if "n < 2 ^ 64" for n
    using that by (simp add: unsigned_of_nat take_bit_nat_eq_self)
  show thesis
    by (rule that [OF f [unfolded fw(1)] x [unfolded xw(1)]])
      (use le fw xw cl in \<open>simp_all add: serialize_from_def footer_for_def f x convert_and_save_file_info_def
        convert_and_save_xorb_info_def shard_header_serialize_def Let_def shard_footer_default_def length_tables u split: option.splits
        del: of_nat_add of_nat_mult of_nat_Suc of_nat_numeral\<close>)
qed

text \<open>The header and the footer are read back from the file as they were written, so every section is located
  where it was put.\<close>

lemma shard_load_roundtrip:
  assumes "storable mdb" and "key_sort_ok srt"
  shows "load_from_reader (fst (serialize_from srt expiry mdb)) = Inr (snd (serialize_from srt expiry mdb))"
proof (rule serialize_layout [OF assms, of expiry])
  fix file_tab :: "(u64 \<times> u32) list" and file_out :: bytes and xorb_tab :: "(u64 \<times> u32) list" and ctab xorb_out
  let ?f = "footer_for srt expiry mdb"
  assume b: "fst (serialize_from srt expiry mdb) = fst (shard_header_serialize shard_header_default) @
       (file_out @ file_header_serialize file_header_bookend) @ (xorb_out @ xorb_header_serialize xorb_header_bookend) @
       write_lookup_table file_tab @ write_lookup_table xorb_tab @ write_chunk_lookup_table (srt ctab) @
       fst (shard_footer_serialize ?f)"
    and i: "snd (serialize_from srt expiry mdb) = \<lparr>si_header = shard_header_default, si_metadata = ?f\<rparr>"
    and f: "length (ft_buffer ?f) = 6" "ft_version ?f = MDB_SHARD_FOOTER_VERSION"
  have d: "drop (length (xs @ ys) - 200) (xs @ ys) = ys" if "length ys = 200" for xs ys :: bytes using that by simp
  have tag: "sh_tag shard_header_default = MDB_SHARD_HEADER_TAG" by (simp add: shard_header_default_def)
  have "drop (length (fst (serialize_from srt expiry mdb)) - 200) (fst (serialize_from srt expiry mdb)) =
      fst (shard_footer_serialize ?f)"
    unfolding b append_assoc [symmetric] by (rule d) (rule shard_footer_codec(1) [OF f(1)])
  moreover have "200 \<le> length (fst (serialize_from srt expiry mdb))" by (simp add: b shard_footer_codec(1) [OF f(1)])
  moreover have "shard_header_deserialize (fst (serialize_from srt expiry mdb)) =
      Inr (shard_header_default, drop 48 (fst (serialize_from srt expiry mdb)))"
    unfolding b by (simp add: shard_header_codec(2) [OF tag] reader_simps)
  ultimately show ?thesis
    using shard_footer_codec(2) [OF f, of "[]"] by (simp add: load_from_reader_def MDB_SHARD_FOOTER_SIZE_def i)
qed

section \<open>Finding a file\<close>

lemma tables_enc: "write_lookup_table tab = enc_table write_u32 tab" "write_chunk_lookup_table ctab = enc_table write_u32_pair ctab"
  by (simp_all add: write_lookup_table_def write_chunk_lookup_table_def enc_table_def enc_pair_def [abs_def] case_prod_beta')

lemma matches_all2:
  "list_all2 (\<lambda>x e. fst e = K x \<and> R x (snd e)) xs tab \<Longrightarrow> list_all2 R (filter (\<lambda>x. K x = key) xs) (matches key tab)"
  by (induction xs tab rule: list_all2_induct) auto

lemma check_file_infos_find:
  "(\<And>i. i \<in> set idxs \<Longrightarrow> read_file_info si file i = Inr (info i)) \<Longrightarrow>
     check_file_infos si file h idxs = Inr (find (\<lambda>x. fh_file_hash (metadata x) = h) (map info idxs))"
  by (induction idxs) auto

lemma find_map_of:
  assumes "distinct (map fst m)" and "\<And>k x. (k, x) \<in> set m \<Longrightarrow> H x = k"
    and "\<And>x. x \<in> set xs \<Longrightarrow> \<exists>k. (k, x) \<in> set m" and "\<And>x. (h, x) \<in> set m \<Longrightarrow> x \<in> set xs"
  shows "find (\<lambda>x. H x = h) xs = map_of m h"
proof (cases "find (\<lambda>x. H x = h) xs")
  case None
  have "(h, x) \<notin> set m" for x using None assms(2) [of h x] assms(4) [of x] by (auto simp: find_None_iff)
  then have "map_of m h = None" by (auto simp: map_of_eq_None_iff)
  then show ?thesis using None by simp
next
  case (Some x)
  then have x: "x \<in> set xs" "H x = h" by (auto simp: find_Some_iff)
  then have "(h, x) \<in> set m" using assms(2,3) by blast
  then show ?thesis using Some assms(1) by simp
qed

lemma sorted_tab_keys:
  assumes "bt_sorted m" and "map fst tab = map (\<lambda>(h, _). truncate_hash h) m"
  shows "sorted_keys tab"
proof -
  have "sorted_wrt (\<lambda>x y. fst x \<le> fst y) m"
    using assms(1) unfolding bt_sorted_def sorted_wrt_map by (rule sorted_wrt_mono_rel [rotated]) simp
  then have "sorted_wrt (\<lambda>x y. truncate_hash (fst x) \<le> truncate_hash (fst y)) m"
    by (rule sorted_wrt_mono_rel [rotated]) (rule truncate_hash_mono)
  then show ?thesis using assms(2) by (simp add: sorted_keys_def sorted_map case_prod_beta')
qed

lemma read_file_info_at:
  assumes "wf_file_info info" and "unat i = j" and "j < 2 ^ 32" and "leads_to (file_info_serialize info) (drop 48 file) j"
    and "unat (ft_file_info_offset (si_metadata si)) = 48"
  shows "read_file_info si file i = Inr info"
proof -
  have "unat (of_nat MDB_FILE_INFO_ENTRY_SIZE * ucast i :: u64) = 48 * j"
    using assms(2,3) by (simp add: MDB_FILE_INFO_ENTRY_SIZE_def unat_word_ariths unsigned_ucast_eq take_bit_nat_eq_self)
  then have "unat (ft_file_info_offset (si_metadata si) + of_nat MDB_FILE_INFO_ENTRY_SIZE * ucast i) = 48 + 48 * j"
    using assms(3,5) by (simp add: unat_word_ariths)
  then obtain r where "drop (unat (ft_file_info_offset (si_metadata si) + of_nat MDB_FILE_INFO_ENTRY_SIZE * ucast i)) file =
      fst (file_info_serialize info) @ r"
    using assms(4) by (auto simp: leads_to_def add.commute)
  then show ?thesis by (simp add: read_file_info_def file_info_de_ser [OF assms(1)])
qed

text \<open>What the table search returns, and what is read at each index it returns.\<close>

lemma file_table_ok:
  fixes expiry interp
  assumes st: "storable mdb" and srt: "key_sort_ok srt"
  defines "file \<equiv> fst (serialize_from srt expiry mdb)" and "si \<equiv> snd (serialize_from srt expiry mdb)"
  obtains tab where "list_all2 (\<lambda>x e. fst e = truncate_hash (fst x) \<and> read_file_info si file (snd e) = Inr (snd x)) (file_content mdb) tab"
    "\<And>key. \<exists>w. search_on_sorted_u64s interp read_u32 4 file (unat (ft_file_lookup_offset (si_metadata si)))
       (unat (ft_file_lookup_num_entry (si_metadata si))) key 8 (unat (ft_file_lookup_num_entry (si_metadata si)) + 1) =
         Some (Inr (take 8 w)) \<and> mset w = mset (matches key tab)"
proof (rule serialize_layout [OF st srt, of expiry])
  fix tab file_out xorb_tab ctab xorb_out
  let ?f = "footer_for srt expiry mdb"
  let ?tail = "write_lookup_table xorb_tab @ write_chunk_lookup_table (srt ctab) @ fst (shard_footer_serialize ?f)"
  assume sv: "save_file_infos 0 (file_content mdb) = (tab, file_out, 48 * file_section_units (file_content mdb))"
    and b: "fst (serialize_from srt expiry mdb) = fst (shard_header_serialize shard_header_default) @
       (file_out @ file_header_serialize file_header_bookend) @ (xorb_out @ xorb_header_serialize xorb_header_bookend) @
       write_lookup_table tab @ ?tail"
    and i: "snd (serialize_from srt expiry mdb) = \<lparr>si_header = shard_header_default, si_metadata = ?f\<rparr>"
    and f: "unat (ft_file_info_offset ?f) = 48" "unat (ft_file_lookup_num_entry ?f) = length tab"
      "unat (ft_file_lookup_offset ?f) = 48 + (length file_out + 48) + (length xorb_out + 48)"
  have fu: "file_section_units (file_content mdb) < 2 ^ 32" and wf: "\<And>h info. (h, info) \<in> set (file_content mdb) \<Longrightarrow> wf_file_info info"
    and so: "bt_sorted (file_content mdb)"
    using st by (auto simp: storable_def list_all_iff shard_inv_def)
  have sf: "length file_out = 48 * file_section_units (file_content mdb)"
    "list_all2 (\<lambda>(h, info) (k, i). k = truncate_hash h \<and>
       (\<exists>j. unat i = j \<and> j < file_section_units (file_content mdb) \<and> leads_to (file_info_serialize info) file_out j)) (file_content mdb) tab"
    using save_file_infos_ok [OF sv] fu by simp_all
  have d48: "drop 48 file = file_out @ file_header_serialize file_header_bookend @ xorb_out @
      xorb_header_serialize xorb_header_bookend @ write_lookup_table tab @ ?tail"
    unfolding file_def b by (simp add: reader_simps)
  have "list_all2 (\<lambda>x e. fst e = truncate_hash (fst x) \<and> read_file_info si file (snd e) = Inr (snd x)) (file_content mdb) tab"
  proof (rule list_all2_all_nthI)
    show "length (file_content mdb) = length tab" using sf(2) by (rule list_all2_lengthD)
    fix n assume n: "n < length (file_content mdb)"
    obtain h info k i where x: "file_content mdb ! n = (h, info)" "tab ! n = (k, i)" by (metis prod.collapse)
    then obtain j where j: "k = truncate_hash h" "unat i = j" "j < file_section_units (file_content mdb)"
      "leads_to (file_info_serialize info) file_out j"
      using list_all2_nthD [OF sf(2) n] by auto
    have "leads_to (file_info_serialize info) (drop 48 file) j" unfolding d48 using j(3,4) sf(1) by (intro leads_to_append) simp_all
    moreover have "wf_file_info info" using wf n x(1) by (metis nth_mem)
    ultimately have "read_file_info si file i = Inr info"
      using j(2,3) fu f(1) i by (intro read_file_info_at [where j = j]) (simp_all add: si_def)
    then show "fst (tab ! n) = truncate_hash (fst (file_content mdb ! n)) \<and>
        read_file_info si file (snd (tab ! n)) = Inr (snd (file_content mdb ! n))"
      using j(1) by (simp add: x)
  qed
  moreover have "\<exists>w. search_on_sorted_u64s interp read_u32 4 file (unat (ft_file_lookup_offset (si_metadata si)))
       (unat (ft_file_lookup_num_entry (si_metadata si))) key 8 (unat (ft_file_lookup_num_entry (si_metadata si)) + 1) =
         Some (Inr (take 8 w)) \<and> mset w = mset (matches key tab)" for key
  proof -
    have 1: "drop (unat (ft_file_lookup_offset (si_metadata si))) file = enc_table write_u32 tab @ ?tail"
      using f(3) i unfolding file_def si_def b by (simp add: reader_simps tables_enc)
    have "map fst tab = map (\<lambda>(h, _). truncate_hash h) (file_content mdb)"
      using sf(2) by (auto simp: list_all2_conv_all_nth case_prod_beta' intro!: nth_equalityI)
    then have 2: "sorted_keys tab" by (rule sorted_tab_keys [OF so])
    have n: "unat (ft_file_lookup_num_entry (si_metadata si)) = length tab" using f(2) i by (simp add: si_def)
    show ?thesis unfolding n by (rule u32_codec.search_correct [OF 1 2]) simp_all
  qed
  ultimately show thesis by (rule that)
qed

text \<open>The number of stored keys that share a truncated hash.\<close>

definition collisions :: "merkle_hash \<Rightarrow> (merkle_hash, 'v) btree_map \<Rightarrow> nat" where
  "collisions h m = length (filter (\<lambda>(k, _). truncate_hash k = truncate_hash h) m)"

text \<open>
  The property (C12): looking a file up in the written shard returns what the map in memory holds under its
  hash, the whole file info or nothing, for every probing function of the search; only when eight
  or more stored files share the first 64 bits of the hash does it return the collision error.
\<close>

theorem shard_file_lookup:
  assumes "storable mdb" and "key_sort_ok srt"
  shows "shard_get_file_reconstruction_info interp (snd (serialize_from srt expiry mdb)) (fst (serialize_from srt expiry mdb)) h =
    Some (if collisions h (file_content mdb) < 8 then Inr (get_file_reconstruction_info mdb h)
          else Inl (TruncatedHashCollision (truncate_hash h)))"
proof (rule file_table_ok [OF assms, of expiry interp])
  fix tab
  let ?si = "snd (serialize_from srt expiry mdb)" and ?file = "fst (serialize_from srt expiry mdb)"
  let ?fs = "filter (\<lambda>x. truncate_hash (fst x) = truncate_hash h) (file_content mdb)"
  assume tab: "list_all2 (\<lambda>x e. fst e = truncate_hash (fst x) \<and> read_file_info ?si ?file (snd e) = Inr (snd x)) (file_content mdb) tab"
    and se: "\<And>key. \<exists>w. search_on_sorted_u64s interp read_u32 4 ?file (unat (ft_file_lookup_offset (si_metadata ?si)))
       (unat (ft_file_lookup_num_entry (si_metadata ?si))) key 8 (unat (ft_file_lookup_num_entry (si_metadata ?si)) + 1) =
         Some (Inr (take 8 w)) \<and> mset w = mset (matches key tab)"
  obtain w where w: "search_on_sorted_u64s interp read_u32 4 ?file (unat (ft_file_lookup_offset (si_metadata ?si)))
       (unat (ft_file_lookup_num_entry (si_metadata ?si))) (truncate_hash h) 8 (unat (ft_file_lookup_num_entry (si_metadata ?si)) + 1) =
         Some (Inr (take 8 w))" "mset w = mset (matches (truncate_hash h) tab)"
    using se by blast
  have m: "list_all2 (\<lambda>x i. read_file_info ?si ?file i = Inr (snd x)) ?fs (matches (truncate_hash h) tab)"
    by (rule matches_all2 [OF tab])
  have len: "length w = collisions h (file_content mdb)"
    using list_all2_lengthD [OF m] mset_eq_length [OF w(2)] by (simp add: collisions_def case_prod_beta')
  have sets: "set w = set (matches (truncate_hash h) tab)" by (rule mset_eq_setD [OF w(2)])
  have hash: "fh_file_hash (metadata info) = k" if "(k, info) \<in> set (file_content mdb)" for k info
    using assms(1) that by (auto simp: storable_def shard_inv_def bt_sorted_distinct)
  define info where "info i = (case read_file_info ?si ?file i of Inr x \<Rightarrow> x)" for i
  have src: "\<exists>k. (k, info i) \<in> set (file_content mdb) \<and> read_file_info ?si ?file i = Inr (info i)" if "i \<in> set w" for i
    using list_all2_sets(2) [OF m] that sets by (fastforce simp: info_def)
  have "x \<in> set (map info w)" if "(h, x) \<in> set (file_content mdb)" for x
  proof -
    have "(h, x) \<in> set ?fs" using that by simp
    then obtain i where "i \<in> set w" "read_file_info ?si ?file i = Inr x"
      using list_all2_sets(1) [OF m] sets by force
    then show ?thesis by (auto simp: info_def image_iff intro!: bexI [of _ i])
  qed
  moreover have "\<exists>k. (k, x) \<in> set (file_content mdb)" if "x \<in> set (map info w)" for x using that src by auto
  ultimately have "find (\<lambda>x. fh_file_hash (metadata x) = h) (map info w) = get_file_reconstruction_info mdb h"
    unfolding get_file_reconstruction_info_def using assms(1) hash
    by (intro find_map_of) (auto simp: storable_def shard_inv_def bt_sorted_distinct)
  then have "check_file_infos ?si ?file h w = Inr (get_file_reconstruction_info mdb h)"
    using check_file_infos_find [of w ?si ?file info h] src by simp
  then show ?thesis
    using w(1) len by (auto simp: shard_get_file_reconstruction_info_def get_file_info_index_by_hash_def Let_def)
qed

section \<open>Finding chunks\<close>

interpretation u32_pair_codec: codec write_u32_pair read_u32_pair 8 "\<lambda>_. True"
proof
  show "read_u32_pair (write_u32_pair x @ rest) = Inr (x, rest)" for x rest
    by (cases x) (simp add: read_u32_pair_def write_u32_pair_def reader_simps)
  show "length (write_u32_pair x) = 8" for x by (simp add: write_u32_pair_def reader_simps)
  show "read_u32_pair bs = Inl UnexpectedEof" if "length bs < 8" for bs
    using that by (cases "length bs < 4") (simp_all add: read_u32_pair_def read_u32_def read_exact_def)
  show "\<exists>x. True \<and> read_u32_pair bs = Inr (x, drop 8 bs)" if "8 \<le> length bs" for bs
    using that by (simp add: read_u32_pair_def read_u32_def read_exact_def)
qed

lemma slice_step:
  assumes "i < j" and "j \<le> length xs"
  shows "slice xs i j = xs ! i # slice xs (Suc i) j"
proof -
  have "drop i xs = xs ! i # drop (Suc i) xs" "j - i = Suc (j - Suc i)" using assms by (simp_all add: Cons_nth_drop_Suc)
  then show ?thesis by (simp add: slice_def)
qed

lemma dedup_query_loop_ge: "q \<le> dedup_query_loop cs start hs q"
  by (induction cs start hs q rule: dedup_query_loop.induct) (subst dedup_query_loop.simps, auto)

lemma dedup_query_loop_bound: "start + q \<le> length cs \<Longrightarrow> start + dedup_query_loop cs start hs q \<le> length cs"
  by (induction cs start hs q rule: dedup_query_loop.induct) (subst dedup_query_loop.simps, auto)

lemma query_direct_loop_eq:
  assumes "off + i \<le> length cs"
  shows "query_direct_loop keyed hs off (length cs) i (concat (map xorb_entry_serialize (drop (off + i) cs)) @ r) n =
    Inr (dedup_query_loop cs off (map keyed hs) i,
         n + sum_list (map xe_unpacked_segment_bytes (slice cs (off + i) (off + dedup_query_loop cs off (map keyed hs) i))))"
  using assms
proof (induction "length cs - (off + i)" arbitrary: i n)
  case 0
  then show ?case by (simp add: query_direct_loop.simps [of keyed hs off _ i] dedup_query_loop.simps [of cs off _ i] slice_def)
next
  case (Suc k)
  then have lt: "off + i < length cs" by simp
  then have d: "drop (off + i) cs = cs ! (off + i) # drop (off + (i + 1)) cs" by (simp add: Cons_nth_drop_Suc)
  show ?case
  proof (cases "length hs \<le> i \<or> xe_chunk_hash (cs ! (off + i)) \<noteq> keyed (hs ! i)")
    case True
    then show ?thesis
      using lt by (auto simp: query_direct_loop.simps [of keyed hs off _ i] dedup_query_loop.simps [of cs off _ i] d reader_simps slice_def)
  next
    case False
    let ?q = "dedup_query_loop cs off (map keyed hs) (i + 1)"
    have q: "dedup_query_loop cs off (map keyed hs) i = ?q"
      using False lt by (simp add: dedup_query_loop.simps [of cs off _ i])
    have b: "off + i < off + ?q" "off + ?q \<le> length cs"
      using dedup_query_loop_ge [of "i + 1" cs off "map keyed hs"] dedup_query_loop_bound [of off "i + 1" cs] lt by simp_all
    have "query_direct_loop keyed hs off (length cs) i (concat (map xorb_entry_serialize (drop (off + i) cs)) @ r) n =
        query_direct_loop keyed hs off (length cs) (i + 1) (concat (map xorb_entry_serialize (drop (off + (i + 1)) cs)) @ r)
          (n + xe_unpacked_segment_bytes (cs ! (off + i)))"
      using False lt by (simp add: query_direct_loop.simps [of keyed hs off _ i] d reader_simps)
    also have "\<dots> = Inr (?q, n + xe_unpacked_segment_bytes (cs ! (off + i)) +
        sum_list (map xe_unpacked_segment_bytes (slice cs (off + (i + 1)) (off + ?q))))"
      using Suc by (intro Suc.hyps(1)) simp_all
    finally show ?thesis unfolding q slice_step [OF b] by (simp add: add.assoc)
  qed
qed

text \<open>A match at chunk \<open>c\<close> of a xorb: the longest run of chunks that agrees with the query.\<close>

definition match_entry :: "mdb_xorb_info \<Rightarrow> nat \<Rightarrow> nat \<Rightarrow> file_data_sequence_entry" where
  "match_entry info c n =
     \<lparr>fe_xorb_hash = xh_xorb_hash (xorb_metadata info), fe_xorb_flags = xh_xorb_flags (xorb_metadata info),
      fe_unpacked_segment_bytes = sum_list (map xe_unpacked_segment_bytes (slice (xorb_chunks info) c (c + n))),
      fe_chunk_index_start = of_nat c, fe_chunk_index_end = of_nat (c + n)\<rparr>"

definition chunk_match :: "mdb_xorb_info \<Rightarrow> nat \<Rightarrow> merkle_hash list \<Rightarrow> nat \<Rightarrow> bool" where
  "chunk_match info c hs n \<longleftrightarrow>
     0 < n \<and> n \<le> length hs \<and> c + n \<le> length (xorb_chunks info) \<and>
     map xe_chunk_hash (slice (xorb_chunks info) c (c + n)) = take n hs \<and>
     (c + n < length (xorb_chunks info) \<and> n < length hs \<longrightarrow> xe_chunk_hash (xorb_chunks info ! (c + n)) \<noteq> hs ! n)"


lemma query_direct_at:
  fixes kh
  assumes hs: "hs \<noteq> []" and wf: "wf_xorb_info info" and j: "unat xi = j"
    and lead: "leads_to (xorb_info_serialize info) (drop (unat (ft_xorb_info_offset (si_metadata si))) file) j"
    and off: "unat (ft_xorb_info_offset (si_metadata si)) + 48 * j < 2 ^ 64"
    and c: "unat ci = c" "c < length (xorb_chunks info)"
  defines "q \<equiv> dedup_query_loop (xorb_chunks info) c (map (keyed_chunk_hash kh si) hs) 0"
  shows "chunk_hash_dedup_query_direct kh si file hs xi ci =
    Inr (if xe_chunk_hash (xorb_chunks info ! c) = keyed_chunk_hash kh si (hs ! 0) then Some (q, match_entry info c q) else None)"
proof -
  let ?cs = "xorb_chunks info" and ?keyed = "keyed_chunk_hash kh si"
  have "unat (of_nat MDB_XORB_INFO_ENTRY_SIZE * ucast xi :: u64) = 48 * j"
    using off j take_bit_nat_eq_self [of j 64] by (simp add: MDB_XORB_INFO_ENTRY_SIZE_def unat_word_ariths unsigned_ucast_eq)
  then have pos: "unat (ft_xorb_info_offset (si_metadata si) + of_nat MDB_XORB_INFO_ENTRY_SIZE * ucast xi) =
      unat (ft_xorb_info_offset (si_metadata si)) + 48 * j"
    using off by (simp add: unat_word_ariths)
  obtain r where r: "drop (unat (ft_xorb_info_offset (si_metadata si)) + 48 * j) file =
      xorb_header_serialize (xorb_metadata info) @ concat (map xorb_entry_serialize ?cs) @ r"
    using lead by (auto simp: leads_to_def xorb_info_serialize_def add.commute)
  have "concat (map xorb_entry_serialize ?cs) =
      concat (map xorb_entry_serialize (take c ?cs)) @ concat (map xorb_entry_serialize (drop c ?cs))"
    by (simp flip: concat_append map_append)
  moreover have "drop c ?cs = ?cs ! c # drop (c + 1) ?cs" using c(2) by (simp add: Cons_nth_drop_Suc)
  ultimately have d: "drop (MDB_XORB_INFO_ENTRY_SIZE * c) (concat (map xorb_entry_serialize ?cs) @ r) =
      xorb_entry_serialize (?cs ! c) @ concat (map xorb_entry_serialize (drop (c + 1) ?cs)) @ r"
    using c(2) by (simp add: MDB_XORB_INFO_ENTRY_SIZE_def reader_simps)
  have n: "unat (xh_num_entries (xorb_metadata info)) = length ?cs" using wf by (simp add: wf_xorb_info_def)
  show ?thesis
  proof (cases "xe_chunk_hash (?cs ! c) = ?keyed (hs ! 0)")
    case True
    then have q: "q = dedup_query_loop ?cs c (map ?keyed hs) 1"
      using c(2) hs by (simp add: q_def dedup_query_loop.simps [of ?cs c _ 0])
    have b: "c < c + q" "c + q \<le> length ?cs"
      using dedup_query_loop_ge [of 1 ?cs c] dedup_query_loop_bound [of c 1 ?cs] c(2) q by (simp_all add: Suc_le_eq)
    have ci: "ci = of_nat c" using c(1) by auto
    have loop: "query_direct_loop ?keyed hs c (length ?cs) 1 (concat (map xorb_entry_serialize (drop (c + 1) ?cs)) @ r)
        (xe_unpacked_segment_bytes (?cs ! c)) =
        Inr (q, xe_unpacked_segment_bytes (?cs ! c) + sum_list (map xe_unpacked_segment_bytes (slice ?cs (c + 1) (c + q))))"
      unfolding q using c(2) by (intro query_direct_loop_eq) simp
    have "chunk_hash_dedup_query_direct kh si file hs xi ci = Inr (Some (q, match_entry info c q))"
      using True hs c loop
      by (simp add: chunk_hash_dedup_query_direct_def pos r reader_simps d n match_entry_def slice_step [OF b] ci del: drop_append)
    then show ?thesis using True by simp
  next
    case False
    then show ?thesis using hs c by (simp add: chunk_hash_dedup_query_direct_def pos r reader_simps d n del: drop_append)
  qed
qed

lemma mset_matches: "mset tab = mset tab' \<Longrightarrow> mset (matches key tab) = mset (matches key tab')"
  unfolding matches_def mset_map mset_filter by simp

text \<open>What the query at a place of the shard returns.\<close>

definition place_query :: "merkle_hash list \<Rightarrow> mdb_xorb_info \<times> nat \<Rightarrow> (nat \<times> file_data_sequence_entry) option" where
  "place_query hs p =
     (if place_hash p = hs ! 0
      then let n = dedup_query_loop (xorb_chunks (fst p)) (snd p) hs 0 in Some (n, match_entry (fst p) (snd p) n)
      else None)"

lemma chunk_table_ok:
  fixes expiry interp kh hs
  assumes st: "storable mdb" and srt: "key_sort_ok srt" and hs: "hs \<noteq> []"
  defines "file \<equiv> fst (serialize_from srt expiry mdb)" and "si \<equiv> snd (serialize_from srt expiry mdb)"
  obtains w w' where "get_xorb_info_index_by_chunk kh interp si file (hs ! 0) = Some (Inr (take 8 w))"
    "list_all2 (\<lambda>p e. chunk_hash_dedup_query_direct kh si file hs (fst e) (snd e) = Inr (place_query hs p))
       (filter (\<lambda>p. truncate_hash (place_hash p) = truncate_hash (hs ! 0)) (chunk_places (xorb_content mdb))) w'"
    "mset w = mset w'"
    "ft_chunk_lookup_num_entry (si_metadata si) = 0 \<longleftrightarrow> chunk_places (xorb_content mdb) = []"
proof (rule serialize_layout [OF st srt, of expiry])
  fix file_tab file_out xorb_tab ctab xorb_out
  let ?f = "footer_for srt expiry mdb" and ?xs = "xorb_content mdb"
  let ?tail = "write_lookup_table file_tab @ write_lookup_table xorb_tab @ write_chunk_lookup_table (srt ctab) @
       fst (shard_footer_serialize ?f)"
  assume sv: "save_xorb_infos 0 ?xs = (xorb_tab, ctab, xorb_out, 48 * xorb_section_units ?xs)"
    and b: "fst (serialize_from srt expiry mdb) = fst (shard_header_serialize shard_header_default) @
       (file_out @ file_header_serialize file_header_bookend) @ (xorb_out @ xorb_header_serialize xorb_header_bookend) @ ?tail"
    and i: "snd (serialize_from srt expiry mdb) = \<lparr>si_header = shard_header_default, si_metadata = ?f\<rparr>"
    and f: "unat (ft_xorb_info_offset ?f) = 48 + (length file_out + 48)" "unat (ft_chunk_lookup_num_entry ?f) = length (srt ctab)"
      "unat (ft_chunk_lookup_offset ?f) = 48 + (length file_out + 48) + (length xorb_out + 48) +
         length (write_lookup_table file_tab) + length (write_lookup_table xorb_tab)"
      "ft_chunk_hash_hmac_key ?f = default_hash"
    and fo: "save_file_infos 0 (file_content mdb) = (file_tab, file_out, 48 * file_section_units (file_content mdb))"
  have xu: "xorb_section_units ?xs < 2 ^ 32" and fu: "file_section_units (file_content mdb) < 2 ^ 32"
    and wf: "\<And>h info. (h, info) \<in> set ?xs \<Longrightarrow> wf_xorb_info info"
    using st by (auto simp: storable_def list_all_iff)
  have sx: "length xorb_out = 48 * xorb_section_units ?xs" "list_all2 (place_entry 0 (xorb_section_units ?xs) xorb_out) (chunk_places ?xs) ctab"
    using save_xorb_infos_ok [OF sv] xu by simp_all
  have fl: "length file_out < 48 * 2 ^ 32" using save_file_infos_ok [OF fo] fu by simp
  have keyed: "keyed_chunk_hash kh si h = h" for h using f(4) i by (simp add: keyed_chunk_hash_def si_def)
  have d: "drop (unat (ft_xorb_info_offset (si_metadata si))) file = xorb_out @ xorb_header_serialize xorb_header_bookend @ ?tail"
    using f(1) i unfolding file_def si_def b by (simp add: reader_simps)
  have place: "fst e = truncate_hash (place_hash p) \<and>
      chunk_hash_dedup_query_direct kh si file hs (fst (snd e)) (snd (snd e)) = Inr (place_query hs p)"
    if p: "p \<in> set (chunk_places ?xs)" and e: "place_entry 0 (xorb_section_units ?xs) xorb_out p e" for p e
  proof -
    obtain info c k xi ci where pe: "p = (info, c)" "e = (k, xi, ci)" by (metis prod.collapse)
    obtain j where j: "unat xi = j" "j < xorb_section_units ?xs" "leads_to (xorb_info_serialize info) xorb_out j"
      and c: "unat ci = c" "c < length (xorb_chunks info)" and k: "k = truncate_hash (place_hash p)"
      using e by (auto simp: place_entry_def pe)
    have w: "wf_xorb_info info" using wf p by (auto simp: chunk_places_def pe)
    have l: "leads_to (xorb_info_serialize info) (drop (unat (ft_xorb_info_offset (si_metadata si))) file) j"
      unfolding d using j(2,3) sx(1) by (intro leads_to_append) simp_all
    have o: "unat (ft_xorb_info_offset (si_metadata si)) + 48 * j < 2 ^ 64" using f(1) i fl j(2) xu by (simp add: si_def)
    show ?thesis
      using query_direct_at [OF hs w j(1) l o c, where kh = kh] k
      by (simp add: keyed place_query_def place_hash_def pe Let_def cong: map_cong)
  qed
  have tab: "list_all2 (\<lambda>p e. fst e = truncate_hash (place_hash p) \<and>
      chunk_hash_dedup_query_direct kh si file hs (fst (snd e)) (snd (snd e)) = Inr (place_query hs p)) (chunk_places ?xs) ctab"
    using sx(2) place by (auto simp: list_all2_conv_all_nth)
  have m: "mset (srt ctab) = mset ctab" "sorted_keys (srt ctab)" using srt by (auto simp: key_sort_ok_def sorted_keys_def)
  have 1: "drop (unat (ft_chunk_lookup_offset (si_metadata si))) file =
      enc_table write_u32_pair (srt ctab) @ fst (shard_footer_serialize ?f)"
    using f(3) i unfolding file_def si_def b by (simp add: reader_simps tables_enc)
  have n: "unat (ft_chunk_lookup_num_entry (si_metadata si)) = length (srt ctab)" using f(2) i by (simp add: si_def)
  obtain w where w: "search_on_sorted_u64s interp read_u32_pair 8 file (unat (ft_chunk_lookup_offset (si_metadata si)))
      (length (srt ctab)) (truncate_hash (hs ! 0)) 8 (length (srt ctab) + 1) = Some (Inr (take 8 w))"
    "mset w = mset (matches (truncate_hash (hs ! 0)) (srt ctab))"
    using u32_pair_codec.search_correct [OF 1 m(2), of "length (srt ctab) + 1" interp "truncate_hash (hs ! 0)" 8] by auto
  show thesis
  proof (rule that)
    show "get_xorb_info_index_by_chunk kh interp si file (hs ! 0) = Some (Inr (take 8 w))"
      using w(1) by (simp add: get_xorb_info_index_by_chunk_def n keyed)
    show "list_all2 (\<lambda>p e. chunk_hash_dedup_query_direct kh si file hs (fst e) (snd e) = Inr (place_query hs p))
       (filter (\<lambda>p. truncate_hash (place_hash p) = truncate_hash (hs ! 0)) (chunk_places ?xs)) (matches (truncate_hash (hs ! 0)) ctab)"
      by (rule matches_all2 [OF tab])
    show "mset w = mset (matches (truncate_hash (hs ! 0)) ctab)" using w(2) mset_matches [OF m(1)] by simp
    have "ft_chunk_lookup_num_entry (si_metadata si) = 0 \<longleftrightarrow> length ctab = 0"
      using n mset_eq_length [OF m(1)] by (metis unat_0 unat_eq_zero)
    then show "ft_chunk_lookup_num_entry (si_metadata si) = 0 \<longleftrightarrow> chunk_places ?xs = []"
      using list_all2_lengthD [OF sx(2)] by auto
  qed
qed

lemma check_chunks_first:
  "(\<And>e. e \<in> set es \<Longrightarrow> chunk_hash_dedup_query_direct kh si file hs (fst e) (snd e) = Inr (Q e)) \<Longrightarrow>
     check_chunks kh si file hs es = Inr (case filter (\<lambda>e. Q e \<noteq> None) es of [] \<Rightarrow> None | e # _ \<Rightarrow> Q e)"
  by (induction es) (auto split: option.splits)

lemma first_hit:
  "(case filter (\<lambda>e. Q e \<noteq> None) es of [] \<Rightarrow> None | e # _ \<Rightarrow> Q e) = Some y \<Longrightarrow> \<exists>e \<in> set es. Q e = Some y"
  "(case filter (\<lambda>e. Q e \<noteq> None) es of [] \<Rightarrow> None | e # _ \<Rightarrow> Q e) = None \<Longrightarrow> e \<in> set es \<Longrightarrow> Q e = None"
  by (induction es) (auto split: if_splits)

lemma chunk_match_at:
  assumes "p \<in> set (chunk_places xorbs)" and "place_hash p = hs ! 0" and "hs \<noteq> []"
  shows "chunk_match (fst p) (snd p) hs (dedup_query_loop (xorb_chunks (fst p)) (snd p) hs 0)"
proof -
  let ?cs = "xorb_chunks (fst p)" and ?c = "snd p" let ?n = "dedup_query_loop ?cs ?c hs 0"
  have c: "?c < length ?cs" using assms(1) by (auto simp: chunk_places_def)
  then have n: "?c + ?n \<le> length ?cs" "?n \<le> length hs" "map xe_chunk_hash (slice ?cs ?c (?c + ?n)) = take ?n hs"
    "?c + ?n < length ?cs \<and> ?n < length hs \<longrightarrow> xe_chunk_hash (?cs ! (?c + ?n)) \<noteq> hs ! ?n"
    using dedup_query_loop_spec [of ?c 0 ?cs hs] by (simp_all add: slice_def)
  moreover have "0 < ?n" using n(4) c assms(2,3) by (cases ?n) (auto simp: place_hash_def)
  ultimately show ?thesis by (simp add: chunk_match_def)
qed

text \<open>
  The property (C31): a query for a run of chunk hashes on the written shard never fails. A match it
  returns is at a chunk of a xorb of the shard with the first hash, extends as far as the xorb's
  chunks agree with the query, and has the byte count and indices of that run. When it returns none and at
  most eight chunks of the shard share the first 64 bits of the first hash, no chunk of the shard has that hash.
\<close>

theorem shard_chunk_query:
  assumes "storable mdb" and "key_sort_ok srt"
  shows "\<exists>r. shard_chunk_hash_dedup_query kh interp (snd (serialize_from srt expiry mdb)) (fst (serialize_from srt expiry mdb)) hs =
      Some (Inr r) \<and>
    (\<forall>n fse. r = Some (n, fse) \<longrightarrow> (\<exists>p \<in> set (chunk_places (xorb_content mdb)).
       place_hash p = hs ! 0 \<and> chunk_match (fst p) (snd p) hs n \<and> fse = match_entry (fst p) (snd p) n)) \<and>
    (r = None \<and> hs \<noteq> [] \<and>
       length (filter (\<lambda>p. truncate_hash (place_hash p) = truncate_hash (hs ! 0)) (chunk_places (xorb_content mdb))) \<le> 8 \<longrightarrow>
       (\<forall>p \<in> set (chunk_places (xorb_content mdb)). place_hash p \<noteq> hs ! 0))"
proof (cases "hs = []")
  case True
  then show ?thesis by (simp add: shard_chunk_hash_dedup_query_def)
next
  case False
  let ?si = "snd (serialize_from srt expiry mdb)" and ?file = "fst (serialize_from srt expiry mdb)"
  let ?ps = "filter (\<lambda>p. truncate_hash (place_hash p) = truncate_hash (hs ! 0)) (chunk_places (xorb_content mdb))"
  obtain w w' where w: "get_xorb_info_index_by_chunk kh interp ?si ?file (hs ! 0) = Some (Inr (take 8 w))"
    "list_all2 (\<lambda>p e. chunk_hash_dedup_query_direct kh ?si ?file hs (fst e) (snd e) = Inr (place_query hs p)) ?ps w'"
    "mset w = mset w'" "ft_chunk_lookup_num_entry (si_metadata ?si) = 0 \<longleftrightarrow> chunk_places (xorb_content mdb) = []"
    by (rule chunk_table_ok [OF assms False])
  define Q where "Q e = (case chunk_hash_dedup_query_direct kh ?si ?file hs (fst e) (snd e) of Inr q \<Rightarrow> q)" for e
  have q: "\<exists>p \<in> set ?ps. chunk_hash_dedup_query_direct kh ?si ?file hs (fst e) (snd e) = Inr (Q e) \<and> Q e = place_query hs p"
    if "e \<in> set w" for e
  proof -
    have "e \<in> set w'" using that mset_eq_setD [OF w(3)] by simp
    then obtain p where "p \<in> set ?ps" "chunk_hash_dedup_query_direct kh ?si ?file hs (fst e) (snd e) = Inr (place_query hs p)"
      using list_all2_sets(2) [OF w(2)] by blast
    then show ?thesis by (intro bexI [of _ p]) (simp_all add: Q_def)
  qed
  have q': "\<exists>e \<in> set w. Q e = place_query hs p" if p: "p \<in> set ?ps" for p
  proof -
    obtain e where "e \<in> set w'" "chunk_hash_dedup_query_direct kh ?si ?file hs (fst e) (snd e) = Inr (place_query hs p)"
      using list_all2_sets(1) [OF w(2) p] by blast
    then show ?thesis using mset_eq_setD [OF w(3)] by (intro bexI [of _ e]) (simp_all add: Q_def)
  qed
  define r where "r = (case filter (\<lambda>e. Q e \<noteq> None) (take 8 w) of [] \<Rightarrow> None | e # _ \<Rightarrow> Q e)"
  have hit: "\<exists>e \<in> set w. Q e = Some (n, fse)" if "r = Some (n, fse)" for n fse
    using first_hit(1) [OF that [unfolded r_def]] by (auto dest: in_set_takeD)
  have "check_chunks kh ?si ?file hs (take 8 w) = Inr r"
    unfolding r_def using q by (intro check_chunks_first) (blast dest: in_set_takeD)
  then have res: "shard_chunk_hash_dedup_query kh interp ?si ?file hs = Some (Inr (if chunk_places (xorb_content mdb) = [] then None else r))"
    using w(1,4) False by (simp add: shard_chunk_hash_dedup_query_def)
  have "\<exists>p \<in> set (chunk_places (xorb_content mdb)). place_hash p = hs ! 0 \<and> chunk_match (fst p) (snd p) hs n \<and> fse = match_entry (fst p) (snd p) n"
    if "r = Some (n, fse)" for n fse
  proof -
    obtain e where e: "e \<in> set w" "Q e = Some (n, fse)" using hit \<open>r = Some (n, fse)\<close> by blast
    obtain p where "p \<in> set ?ps" "place_query hs p = Some (n, fse)" using q [OF e(1)] e(2) by auto
    then show ?thesis using chunk_match_at [OF _ _ False] by (auto simp: place_query_def Let_def split: if_splits)
  qed
  moreover have "place_hash p \<noteq> hs ! 0" if "r = None" "length ?ps \<le> 8" "p \<in> set (chunk_places (xorb_content mdb))" for p
  proof
    assume h: "place_hash p = hs ! 0"
    have "length w \<le> 8" using that(2) list_all2_lengthD [OF w(2)] mset_eq_length [OF w(3)] by simp
    then have none: "Q e = None" if "e \<in> set w" for e
      using first_hit(2) [of Q "take 8 w" e] that \<open>r = None\<close> by (simp add: r_def)
    obtain e where "e \<in> set w" "Q e = place_query hs p" using q' [of p] \<open>p \<in> set (chunk_places (xorb_content mdb))\<close> h by auto
    then show False using none h by (auto simp: place_query_def Let_def)
  qed
  ultimately show ?thesis unfolding res by (intro exI [of _ "if chunk_places (xorb_content mdb) = [] then None else r"]) auto
qed

section \<open>Reading a shard back into memory\<close>

definition canonical_file :: "mdb_file_info \<Rightarrow> bool" where
  "canonical_file info \<longleftrightarrow> wf_file_info info \<and>
     file_header_new (fh_file_hash (metadata info)) (length (segments info)) (contains_verification info)
       (contains_metadata_ext info) = Some (metadata info)"

text \<open>A xorb info with the header the conversion of a view computes.\<close>

definition xorb_renewed :: "mdb_xorb_info \<Rightarrow> mdb_xorb_info" where
  "xorb_renewed info =
     info\<lparr>xorb_metadata := (xorb_metadata info)\<lparr>xh_xorb_flags := 0,
       xh_num_bytes_in_xorb := (if xorb_chunks info = [] then 0 else
         xe_chunk_byte_range_start (last (xorb_chunks info)) + xe_unpacked_segment_bytes (last (xorb_chunks info))),
       xh_num_bytes_on_disk := 0\<rparr>\<rparr>"

lemma save_file_out:
  "fst (snd (save_file_infos i files)) = concat (map (\<lambda>(_, info). fst (file_info_serialize info)) files)"
  by (induction i files rule: save_file_infos.induct) (auto simp: Let_def split: prod.splits)

lemma save_xorb_out:
  "fst (snd (snd (save_xorb_infos i xorbs))) = concat (map (\<lambda>(_, info). fst (xorb_info_serialize info)) xorbs)"
  by (induction i xorbs rule: save_xorb_infos.induct) (auto simp: Let_def xorb_info_serialize_def split: prod.splits)

lemma file_section_step:
  assumes "wf_file_info info"
  shows "process_shard_file_info_section cb st (fst (file_info_serialize info) @ rest) =
    (case cb st (view_of info) of None \<Rightarrow> None | Some (Inl e) \<Rightarrow> Some (Inl e)
     | Some (Inr st) \<Rightarrow> process_shard_file_info_section cb st rest)"
proof -
  let ?h = "metadata info" and ?tail = "concat (map file_entry_serialize (segments info)) @ after_segments info"
  have h: "file_header_deserialize (fst (file_info_serialize info) @ rest) = Inr (?h, ?tail @ rest)"
    by (simp add: file_info_bytes reader_simps)
  have "length (fst (file_info_serialize info)) = 48 + length ?tail" by (simp add: file_info_bytes reader_simps)
  then have n: "file_section_bytes ?h = length ?tail"
    using assms length_serialize_wf [OF assms]
    by (auto simp: file_section_bytes_def Let_def wf_file_info_def MDB_FILE_INFO_ENTRY_SIZE_def contains_verification_def
        contains_metadata_ext_def)
  have v: "file_view_from_data_and_header ?h (file_header_serialize ?h @ ?tail) = Inr (view_of info)"
    using assms length_serialize_wf [OF assms] file_info_bytes [of info]
    by (simp add: file_view_from_data_and_header_def view_of_def wf_file_info_def MDB_FILE_INFO_ENTRY_SIZE_def
        contains_verification_def contains_metadata_ext_def)
  have "\<not> file_header_is_bookend ?h" using assms by (simp add: wf_file_info_def)
  then show ?thesis
    by (subst process_shard_file_info_section.simps) (simp add: h n v Let_def del: append_assoc split: option.split sum.split)
qed

lemma xorb_section_step:
  assumes "wf_xorb_info info"
  shows "process_shard_xorb_info_section cb st (fst (xorb_info_serialize info) @ rest) =
    (case cb st (xview_of info) of None \<Rightarrow> None | Some (Inl e) \<Rightarrow> Some (Inl e)
     | Some (Inr st) \<Rightarrow> process_shard_xorb_info_section cb st rest)"
proof -
  let ?h = "xorb_metadata info" and ?tail = "concat (map xorb_entry_serialize (xorb_chunks info))"
  have h: "xorb_header_deserialize (fst (xorb_info_serialize info) @ rest) = Inr (?h, ?tail @ rest)"
    by (simp add: xorb_info_serialize_def reader_simps)
  have n: "unat (xh_num_entries ?h) * 48 = length ?tail" using assms by (simp add: wf_xorb_info_def reader_simps)
  have v: "xorb_view_from_data_and_header ?h (xorb_header_serialize ?h @ ?tail) = Inr (xview_of info)"
    using assms by (simp add: xorb_view_from_data_and_header_def xview_of_def wf_xorb_info_def xorb_info_serialize_def reader_simps)
  have "\<not> xorb_header_is_bookend ?h" using assms by (simp add: wf_xorb_info_def)
  then show ?thesis
    by (subst process_shard_xorb_info_section.simps) (simp add: h n v Let_def del: append_assoc split: option.split sum.split)
qed

lemma bookend_steps:
  "process_shard_file_info_section cb st (file_header_serialize file_header_bookend @ rest) = Some (Inr (st, rest))"
  "process_shard_xorb_info_section cb' st' (xorb_header_serialize xorb_header_bookend @ rest) = Some (Inr (st', rest))"
  by (subst process_shard_file_info_section.simps process_shard_xorb_info_section.simps,
      simp add: reader_simps file_header_is_bookend_def file_header_bookend_def xorb_header_is_bookend_def xorb_header_bookend_def)+

lemma file_section_all:
  "list_all (\<lambda>(_, info). canonical_file info) files \<Longrightarrow>
     process_shard_file_info_section (\<lambda>s view.
         map_option (\<lambda>info. Inr (add_file_reconstruction_info info s)) (file_info_from_view view)) s
       (concat (map (\<lambda>(_, info). fst (file_info_serialize info)) files) @ file_header_serialize file_header_bookend @ rest) =
     Some (Inr (fold (\<lambda>(_, info). add_file_reconstruction_info info) files s, rest))"
  by (induction files arbitrary: s)
    (auto simp: bookend_steps file_section_step canonical_file_def file_info_from_view_of)

lemma xorb_section_all:
  "list_all (\<lambda>(_, info). wf_xorb_info info) xorbs \<Longrightarrow>
     process_shard_xorb_info_section (\<lambda>s view.
         map_option (\<lambda>info. Inr (add_xorb_block info s)) (xorb_info_from_view view)) s
       (concat (map (\<lambda>(_, info). fst (xorb_info_serialize info)) xorbs) @ xorb_header_serialize xorb_header_bookend @ rest) =
     Some (Inr (fold (\<lambda>(_, info). add_xorb_block (xorb_renewed info)) xorbs s, rest))"
  by (induction xorbs arbitrary: s)
    (auto simp: bookend_steps xorb_section_step xorb_info_from_view_of xorb_renewed_def)

text \<open>Inserting the entries of a map in order rebuilds it.\<close>

lemma bt_insert_last: "\<forall>k' \<in> set (map fst m). k' < k \<Longrightarrow> bt_insert k v m = m @ [(k, v)]"
  by (induction m) auto

lemma fold_bt_insert:
  assumes "bt_sorted (m @ xs)"
  shows "fold (\<lambda>(k, v). bt_insert k v) xs m = m @ xs"
  using assms
proof (induction xs arbitrary: m)
  case (Cons x xs)
  obtain k v where x: "x = (k, v)" by force
  have "\<forall>k' \<in> set (map fst m). k' < k" using Cons.prems by (auto simp: bt_sorted_def sorted_wrt_append x)
  then have "bt_insert k v m = m @ [(k, v)]" by (rule bt_insert_last)
  then show ?case using Cons.IH [of "m @ [x]"] Cons.prems by (simp add: x)
qed simp

lemma fold_add_files:
  "list_all (\<lambda>(h, info). fh_file_hash (metadata info) = h) files \<Longrightarrow>
     file_content (fold (\<lambda>(_, info). add_file_reconstruction_info info) files s) =
       fold (\<lambda>(k, v). bt_insert k v) files (file_content s) \<and>
     xorb_content (fold (\<lambda>(_, info). add_file_reconstruction_info info) files s) = xorb_content s \<and>
     chunk_hash_lookup (fold (\<lambda>(_, info). add_file_reconstruction_info info) files s) = chunk_hash_lookup s"
  by (induction files arbitrary: s) (auto simp: add_file_reconstruction_info_def)

lemma add_xorb_block_fields:
  "file_content (add_xorb_block info s) = file_content s"
  "xorb_content (add_xorb_block info s) = bt_insert (xh_xorb_hash (xorb_metadata info)) info (xorb_content s)"
  by (simp_all add: add_xorb_block_def Let_def)

lemma xorb_renewed_fields [simp]:
  "xorb_chunks (xorb_renewed info) = xorb_chunks info"
  "xh_xorb_hash (xorb_metadata (xorb_renewed info)) = xh_xorb_hash (xorb_metadata info)"
  by (simp_all add: xorb_renewed_def)

lemma dom_add_chunk_lookups:
  "dom (map_of (chunk_hash_lookup (add_chunk_lookups info i cs s))) =
     dom (map_of (chunk_hash_lookup s)) \<union> xe_chunk_hash ` set cs"
  by (induction info i cs s rule: add_chunk_lookups.induct) auto

lemma fold_add_xorbs:
  "list_all (\<lambda>(h, info). xh_xorb_hash (xorb_metadata info) = h) xorbs \<Longrightarrow>
     file_content (fold (\<lambda>(_, info). add_xorb_block (xorb_renewed info)) xorbs s) = file_content s \<and>
     xorb_content (fold (\<lambda>(_, info). add_xorb_block (xorb_renewed info)) xorbs s) =
       fold (\<lambda>(k, v). bt_insert k v) (map (\<lambda>(h, info). (h, xorb_renewed info)) xorbs) (xorb_content s) \<and>
     dom (map_of (chunk_hash_lookup (fold (\<lambda>(_, info). add_xorb_block (xorb_renewed info)) xorbs s))) =
       dom (map_of (chunk_hash_lookup s)) \<union> place_hash ` set (chunk_places xorbs)"
proof (induction xorbs arbitrary: s)
  case (Cons x xorbs)
  obtain h info where x: "x = (h, info)" by force
  have p: "place_hash ` set (map (Pair info) [0..<length (xorb_chunks info)]) = xe_chunk_hash ` set (xorb_chunks info)"
    by (force simp: place_hash_def in_set_conv_nth image_iff)
  have "dom (map_of (chunk_hash_lookup (add_xorb_block (xorb_renewed info) s))) =
      dom (map_of (chunk_hash_lookup s)) \<union> xe_chunk_hash ` set (xorb_chunks info)"
    by (simp add: add_xorb_block_def Let_def dom_add_chunk_lookups)
  then show ?case
    using Cons.IH [of "add_xorb_block (xorb_renewed info) s"] Cons.prems p
    by (simp add: x add_xorb_block_fields image_Un Un_assoc)
qed simp

lemma fold_add_inv:
  "shard_inv s \<Longrightarrow> shard_inv (fold (\<lambda>(_, info). add_file_reconstruction_info info) files s)"
  by (induction files arbitrary: s) (auto simp: add_file_inv)

lemma wf_xorb_info_length: "wf_xorb_info info \<Longrightarrow> length (xorb_chunks info) < 2 ^ 32"
proof -
  have "unat (xh_num_entries (xorb_metadata info)) < 2 ^ LENGTH(32)" by (rule unsigned_less)
  then show "wf_xorb_info info \<Longrightarrow> length (xorb_chunks info) < 2 ^ 32" by (simp add: wf_xorb_info_def)
qed

lemma fold_add_xorb_inv:
  "shard_inv s \<Longrightarrow> list_all (\<lambda>(_, info). wf_xorb_info info) xorbs \<Longrightarrow>
     shard_inv (fold (\<lambda>(_, info). add_xorb_block (xorb_renewed info)) xorbs s)"
proof (induction xorbs arbitrary: s)
  case (Cons x xorbs)
  have "length (xorb_chunks (snd x)) < 2 ^ 32"
    using Cons.prems(2) by (intro wf_xorb_info_length) (simp add: case_prod_beta')
  then have "shard_inv (add_xorb_block (xorb_renewed (snd x)) s)" using Cons.prems(1) by (intro add_xorb_block_inv) simp_all
  then show ?case using Cons.IH Cons.prems(2) by (simp add: case_prod_beta')
qed simp

text \<open>
  The property (C10): a shard that is written to bytes and read back into memory has the same files, under
  the same hashes; the same xorbs up to the header fields the conversion computes anew; every chunk
  of every xorb can be looked up and no other; and the invariant of a shard in memory holds.
\<close>

theorem shard_bytes_roundtrip:
  assumes st: "storable mdb" and srt: "key_sort_ok srt" and can: "list_all (\<lambda>(_, info). canonical_file info) (file_content mdb)"
  shows "\<exists>s. shard_from_reader (shard_to_bytes srt mdb) = Some (Inr s) \<and> shard_inv s \<and>
    file_content s = file_content mdb \<and>
    xorb_content s = map (\<lambda>(h, info). (h, xorb_renewed info)) (xorb_content mdb) \<and>
    dom (map_of (chunk_hash_lookup s)) = place_hash ` set (chunk_places (xorb_content mdb))"
proof (rule serialize_layout [OF st srt, of None])
  fix file_tab file_out xorb_tab ctab xorb_out
  let ?f = "footer_for srt None mdb"
  let ?tail = "write_lookup_table file_tab @ write_lookup_table xorb_tab @ write_chunk_lookup_table (srt ctab) @
       fst (shard_footer_serialize ?f)"
  assume o: "save_file_infos 0 (file_content mdb) = (file_tab, file_out, 48 * file_section_units (file_content mdb))"
      "save_xorb_infos 0 (xorb_content mdb) = (xorb_tab, ctab, xorb_out, 48 * xorb_section_units (xorb_content mdb))"
    and b: "fst (serialize_from srt None mdb) = fst (shard_header_serialize shard_header_default) @
       (file_out @ file_header_serialize file_header_bookend) @ (xorb_out @ xorb_header_serialize xorb_header_bookend) @ ?tail"
  have out: "file_out = concat (map (\<lambda>(_, info). fst (file_info_serialize info)) (file_content mdb))"
    "xorb_out = concat (map (\<lambda>(_, info). fst (xorb_info_serialize info)) (xorb_content mdb))"
    using save_file_out [of 0 "file_content mdb"] save_xorb_out [of 0 "xorb_content mdb"] o by simp_all
  have wf: "list_all (\<lambda>(_, info). wf_xorb_info info) (xorb_content mdb)" using st by (simp add: storable_def)
  let ?s1 = "fold (\<lambda>(_, info). add_file_reconstruction_info info) (file_content mdb) shard_default"
  let ?s = "fold (\<lambda>(_, info). add_xorb_block (xorb_renewed info)) (xorb_content mdb) ?s1"
  have "sh_tag shard_header_default = MDB_SHARD_HEADER_TAG" by (simp add: shard_header_default_def)
  then have "shard_from_reader (shard_to_bytes srt mdb) = Some (Inr ?s)"
    unfolding shard_from_reader_def shard_to_bytes_def b
    by (simp add: shard_header_codec out file_section_all [OF can] xorb_section_all [OF wf])
  moreover have inv: "shard_inv shard_default" by (simp add: shard_inv_def shard_default_def bt_sorted_def lookup_ok_def)
  then have "shard_inv ?s" using wf by (intro fold_add_xorb_inv fold_add_inv)
  moreover have own: "list_all (\<lambda>(h, info). fh_file_hash (metadata info) = h) (file_content mdb)"
    "list_all (\<lambda>(h, info). xh_xorb_hash (xorb_metadata info) = h) (xorb_content mdb)"
    and so: "bt_sorted (file_content mdb)" "bt_sorted (map (\<lambda>(h, info). (h, xorb_renewed info)) (xorb_content mdb))"
    using st by (auto simp: storable_def shard_inv_def list_all_iff bt_sorted_distinct bt_sorted_def comp_def case_prod_beta')
  moreover have "file_content ?s1 = file_content mdb" "xorb_content ?s1 = []" "chunk_hash_lookup ?s1 = []"
    using fold_add_files [OF own(1), of shard_default] fold_bt_insert [of "[]" "file_content mdb"] so(1)
    by (simp_all add: shard_default_def)
  moreover have "fold (\<lambda>(k, v). bt_insert k v) (map (\<lambda>(h, info). (h, xorb_renewed info)) (xorb_content mdb)) [] =
      map (\<lambda>(h, info). (h, xorb_renewed info)) (xorb_content mdb)"
    using fold_bt_insert [of "[]"] so(2) by simp
  ultimately show ?thesis using fold_add_xorbs [OF own(2), of ?s1] by auto
qed

section \<open>Witnesses\<close>

definition demo_shard :: mdb_in_memory_shard where
  "demo_shard = add_xorb_block demo_xorb_info (add_file_reconstruction_info demo_file_info shard_default)"

lemma demo_shard_contents:
  "file_content demo_shard = [(DataHash 1 2 3 4, demo_file_info)]" "xorb_content demo_shard = [(DataHash 1 2 3 4, demo_xorb_info)]"
  by (simp_all add: demo_shard_def add_xorb_block_fields add_file_reconstruction_info_def shard_default_def)
    (simp_all add: demo_file_info_def demo_xorb_info_def)

lemma demo_shard_storable: "storable demo_shard"
proof -
  have "shard_inv shard_default" by (simp add: shard_inv_def shard_default_def bt_sorted_def lookup_ok_def)
  then have "shard_inv demo_shard"
    unfolding demo_shard_def by (intro add_xorb_block_inv(1) add_file_inv wf_xorb_info_length wf_demo_xorb_info)
  moreover have "file_units demo_file_info = 6" by code_simp
  moreover have "length (xorb_chunks demo_xorb_info) = 2" by (simp add: demo_xorb_info_def)
  ultimately show ?thesis
    by (simp add: storable_def demo_shard_contents wf_demo_file_info wf_demo_xorb_info file_section_units_def xorb_section_units_def)
qed

lemma demo_canonical: "canonical_file demo_file_info"
  unfolding canonical_file_def
  by (intro conjI wf_demo_file_info)
    (simp add: demo_file_info_def file_header_new_def contains_verification_def contains_metadata_ext_def header_flags try_u32_def
      MDB_DEFAULT_FILE_FLAG_def)

theorem shard_file_lookup_witness:
  "shard_get_file_reconstruction_info (\<lambda>_ _ _ _. 0) (snd (serialize_from (sort_key fst) None demo_shard))
     (fst (serialize_from (sort_key fst) None demo_shard)) (DataHash 1 2 3 4) = Some (Inr (Some demo_file_info))"
  using shard_file_lookup [OF demo_shard_storable key_sort_ok_example, of "\<lambda>_ _ _ _. 0" None "DataHash 1 2 3 4"]
  by (simp add: collisions_def demo_shard_contents get_file_reconstruction_info_def)

theorem shard_chunk_query_witness:
  "\<exists>n fse. shard_chunk_hash_dedup_query (\<lambda>_ _. []) (\<lambda>_ _ _ _. 0) (snd (serialize_from (sort_key fst) None demo_shard))
     (fst (serialize_from (sort_key fst) None demo_shard)) [DataHash 6 0 0 0, DataHash 9 0 0 0] = Some (Inr (Some (n, fse))) \<and>
     chunk_match demo_xorb_info 1 [DataHash 6 0 0 0, DataHash 9 0 0 0] n"
proof -
  have p: "chunk_places (xorb_content demo_shard) = [(demo_xorb_info, 0), (demo_xorb_info, 1)]"
    "place_hash (demo_xorb_info, 0) = DataHash 5 0 0 0" "place_hash (demo_xorb_info, 1) = DataHash 6 0 0 0"
    by (simp_all add: demo_shard_contents place_hash_def demo_xorb_info_def)
  let ?hs = "[DataHash 6 0 0 0, DataHash 9 0 0 0]"
  obtain r where r: "shard_chunk_hash_dedup_query (\<lambda>_ _. []) (\<lambda>_ _ _ _. 0) (snd (serialize_from (sort_key fst) None demo_shard))
      (fst (serialize_from (sort_key fst) None demo_shard)) ?hs = Some (Inr r)"
    "\<And>n fse. r = Some (n, fse) \<Longrightarrow> \<exists>p \<in> set [(demo_xorb_info, 0), (demo_xorb_info, 1)]. place_hash p = ?hs ! 0 \<and> chunk_match (fst p) (snd p) ?hs n"
    "r = None \<Longrightarrow> \<forall>p \<in> set [(demo_xorb_info, 0), (demo_xorb_info, 1)]. place_hash p \<noteq> ?hs ! 0"
    using shard_chunk_query [OF demo_shard_storable key_sort_ok_example, of "\<lambda>_ _. []" "\<lambda>_ _ _ _. 0" None ?hs]
    unfolding p(1) by fastforce
  moreover have "r \<noteq> None" using r(3) p(3) by (cases r) auto
  ultimately show ?thesis using p(2,3) by fastforce
qed

theorem shard_bytes_roundtrip_witness:
  "\<exists>s. shard_from_reader (shard_to_bytes (sort_key fst) demo_shard) = Some (Inr s) \<and> file_content s = [(DataHash 1 2 3 4, demo_file_info)]"
  using shard_bytes_roundtrip [OF demo_shard_storable key_sort_ok_example] demo_canonical by (auto simp: demo_shard_contents)

end
