(* ===== verification/Set_Operations_Correct.thy ===== *)
theory Set_Operations_Correct
  imports Set_Operations Shard_Format_Correct
begin

text \<open>
  The merge of two shard files against the union and the difference of the shards in memory: on the files
  of two shards, \<open>shard_file_union\<close> and \<open>shard_file_difference\<close> write the file of the union and of the
  difference.
\<close>

section \<open>Merging sorted maps\<close>

fun merge_maps ::
  "('v \<Rightarrow> 'v \<Rightarrow> 'v) \<Rightarrow> mdb_set_operation \<Rightarrow> ('k::linorder, 'v) btree_map \<Rightarrow> ('k, 'v) btree_map \<Rightarrow> ('k, 'v) btree_map" where
  "merge_maps f op [] [] = []"
| "merge_maps f op [] (y # ys) = y # merge_maps f op [] ys"
| "merge_maps f op (x # xs) [] = (if op = SetUnion then x # merge_maps f op xs [] else merge_maps f op xs [])"
| "merge_maps f op ((a, v) # xs) ((b, w) # ys) =
     (if a < b then
        (if op = SetUnion then (a, v) # merge_maps f op xs ((b, w) # ys) else merge_maps f op xs ((b, w) # ys))
      else if a = b then (if op = SetUnion then (a, f v w) # merge_maps f op xs ys else merge_maps f op xs ys)
      else (b, w) # merge_maps f op ((a, v) # xs) ys)"

lemma merge_maps_keys: "set (map fst (merge_maps f op xs ys)) \<subseteq> set (map fst xs) \<union> set (map fst ys)"
proof (induction f op xs ys rule: merge_maps.induct)
  case (4 f op a v xs b w ys)
  then show ?case by (cases a b rule: linorder_cases; cases "op = SetUnion") (simp_all del: set_map, blast+)
qed (simp_all del: set_map, blast+)

lemma merge_maps_sorted: "bt_sorted xs \<Longrightarrow> bt_sorted ys \<Longrightarrow> bt_sorted (merge_maps f op xs ys)"
proof (induction f op xs ys rule: merge_maps.induct)
  case (2 f op y ys)
  then show ?case using merge_maps_keys [of f op "[]" ys] by (auto simp: bt_sorted_def simp del: set_map)
next
  case (3 f op x xs)
  then show ?case using merge_maps_keys [of f op xs "[]"] by (auto simp: bt_sorted_def simp del: set_map)
next
  case (4 f op a v xs b w ys)
  have k: "\<forall>k \<in> set (map fst xs). a < k" "\<forall>k \<in> set (map fst ys). b < k" using "4.prems" by (simp_all add: bt_sorted_def)
  have "\<forall>k \<in> set (map fst (merge_maps f op xs ((b, w) # ys))). a < k" if "a < b"
    using merge_maps_keys [of f op xs "(b, w) # ys"] k that by fastforce
  moreover have "\<forall>k \<in> set (map fst (merge_maps f op xs ys)). a < k" if "a = b"
    using merge_maps_keys [of f op xs ys] k that by fastforce
  moreover have "\<forall>k \<in> set (map fst (merge_maps f op ((a, v) # xs) ys)). b < k" if "b < a"
    using merge_maps_keys [of f op "(a, v) # xs" ys] k that by fastforce
  ultimately show ?case using 4 by (auto simp: bt_sorted_def simp del: set_map)
qed (simp add: bt_sorted_def)

lemma map_of_above: "bt_sorted ((a, v) # xs) \<Longrightarrow> k \<le> a \<Longrightarrow> map_of xs k = None"
  by (auto simp: bt_sorted_def map_of_eq_None_iff)

lemma map_of_merge_maps:
  "bt_sorted xs \<Longrightarrow> bt_sorted ys \<Longrightarrow>
     map_of (merge_maps f op xs ys) k =
     (if op = SetUnion then (case (map_of xs k, map_of ys k) of
        (Some v, Some w) \<Rightarrow> Some (f v w) | (Some v, None) \<Rightarrow> Some v | (None, r) \<Rightarrow> r)
      else if map_of xs k = None then map_of ys k else None)"
proof (induction f op xs ys rule: merge_maps.induct)
  case (4 f op a v xs b w ys)
  have s: "bt_sorted xs" "bt_sorted ys" using "4.prems" by (simp_all add: bt_sorted_def)
  have n: "map_of xs a = None" "map_of ys b = None" "a < b \<Longrightarrow> map_of ys a = None" "b < a \<Longrightarrow> map_of xs b = None"
    using map_of_above "4.prems" by (meson less_imp_le order_refl)+
  show ?case using 4 s n by (cases "op = SetUnion") (auto split: option.splits)
qed (auto simp: bt_sorted_def split: option.splits)

lemma bt_sorted_ext:
  assumes "bt_sorted m" and "bt_sorted m'" and "map_of m = map_of m'"
  shows "m = m'"
  using assms
proof (induction m arbitrary: m')
  case Nil
  then show ?case by (metis map_of_eq_empty_iff)
next
  case (Cons x m)
  obtain a v where x: "x = (a, v)" by force
  obtain b w ys where m': "m' = (b, w) # ys" using Cons.prems(3) x by (metis list.exhaust list.distinct(1) map_of_eq_empty_iff surj_pair)
  have "a = b \<and> v = w"
    using fun_cong [OF Cons.prems(3), of a] fun_cong [OF Cons.prems(3), of b] Cons.prems(1,2) map_of_above [of a v m b] map_of_above [of b w ys a]
    unfolding x m' by (cases a b rule: linorder_cases) (auto split: if_splits)
  moreover have "map_of m k = map_of ys k" for k
    using fun_cong [OF Cons.prems(3), of k] calculation Cons.prems(1,2) map_of_above [of a v m k] map_of_above [of b w ys k]
    unfolding x m' by (cases "k = a") auto
  ultimately show ?case using Cons x m' by (auto simp: bt_sorted_def)
qed

section \<open>The file section\<close>

definition file_section :: "(merkle_hash, mdb_file_info) btree_map \<Rightarrow> bytes" where
  "file_section files = concat (map (\<lambda>(_, info). fst (file_info_serialize info)) files)"

text \<open>Header and bytes left of a reader that stands at the first of \<open>files\<close>.\<close>

fun file_pos :: "(merkle_hash, mdb_file_info) btree_map \<Rightarrow> bytes \<Rightarrow> file_data_sequence_header option \<times> bytes" where
  "file_pos [] rest = (None, rest)"
| "file_pos ((_, info) # files) rest =
     (Some (metadata info), concat (map file_entry_serialize (segments info)) @ after_segments info @
        file_section files @ file_header_serialize file_header_bookend @ rest)"

definition wf_files :: "(merkle_hash, mdb_file_info) btree_map \<Rightarrow> bool" where
  "wf_files files \<longleftrightarrow> list_all (\<lambda>(h, info). fh_file_hash (metadata info) = h \<and> wf_file_info info \<and> file_units info < 2 ^ 32) files"

lemma wf_files_simps [simp]:
  "wf_files []"
  "wf_files ((h, info) # files) \<longleftrightarrow> fh_file_hash (metadata info) = h \<and> wf_file_info info \<and> file_units info < 2 ^ 32 \<and> wf_files files"
  by (simp_all add: wf_files_def)

lemma load_next_file_pos:
  "wf_files files \<Longrightarrow> load_next_file (file_section files @ file_header_serialize file_header_bookend @ rest) = Inr (file_pos files rest)"
  by (cases files) (auto simp: load_next_file_def file_section_def file_info_bytes reader_simps lift_io_def
      file_header_is_bookend_def file_header_bookend_def wf_file_info_def)

definition move_files ::
  "(merkle_hash, mdb_file_info) btree_map \<Rightarrow> bytes \<Rightarrow> (merkle_hash, mdb_file_info) btree_map \<Rightarrow> bytes \<Rightarrow> file_op_state \<Rightarrow> file_op_state" where
  "move_files xs ra ys rb st =
     st\<lparr>fo_readers := (snd (file_pos xs ra), snd (file_pos ys rb)), fo_headers := (fst (file_pos xs ra), fst (file_pos ys rb))\<rparr>"

definition emit_file :: "mdb_file_info \<Rightarrow> file_op_state \<Rightarrow> file_op_state" where
  "emit_file info st =
     st\<lparr>fo_out := fo_out st @ fst (file_info_serialize info), fo_offset := fo_offset st + of_nat (snd (file_info_serialize info)),
        fo_materialized := foldl (\<lambda>acc e. acc + ucast (fe_unpacked_segment_bytes e)) (fo_materialized st) (segments info),
        fo_lookup := fo_lookup st @ [(truncate_hash (fh_file_hash (metadata info)), fo_index st)],
        fo_index := fo_index st + of_nat (file_units info)\<rparr>"

text \<open>The records behind a header.\<close>

lemma file_units_wf:
  assumes "wf_file_info info"
  shows "file_units info = 1 + length (segments info) + (if header_contains_verification (metadata info) then length (segments info) else 0) +
    (if header_contains_metadata_ext (metadata info) then 1 else 0)"
  using length_serialize_wf [OF assms] file_serialize_len(1) [of info] length_file_info_serialize [of info]
  by (simp add: contains_verification_def contains_metadata_ext_def)

lemma num_entries_wf:
  assumes "wf_file_info info"
  shows "fh_num_entries (metadata info) = of_nat (length (segments info))" "length (segments info) < 2 ^ 32"
    "ucast (fh_num_entries (metadata info)) = (of_nat (length (segments info)) :: u64)"
proof -
  have "length (segments info) = unat (fh_num_entries (metadata info))" using assms by (simp add: wf_file_info_def)
  then show "fh_num_entries (metadata info) = of_nat (length (segments info))" "length (segments info) < 2 ^ 32"
    "ucast (fh_num_entries (metadata info)) = (of_nat (length (segments info)) :: u64)"
    using unsigned_less [of "fh_num_entries (metadata info)", where ?'a = nat] by simp_all
qed

lemma following_units:
  assumes "wf_file_info info"
  shows "1 + num_info_entry_following (metadata info) = of_nat (file_units info)"
  by (simp add: num_info_entry_following_def Let_def file_units_wf [OF assms] num_entries_wf [OF assms])

lemma unat_following:
  assumes "wf_file_info info" and "file_units info < 2 ^ 32"
  shows "unat (num_info_entry_following (metadata info)) = file_units info - 1"
proof -
  have "num_info_entry_following (metadata info) = of_nat (file_units info) - 1"
    using following_units [OF assms(1)] by (metis add_diff_cancel_left')
  also have "\<dots> = of_nat (file_units info - 1)" using file_serialize_len(2) [of info] by (simp add: of_nat_diff)
  finally show ?thesis using assms(2) by (simp add: unsigned_of_nat take_bit_nat_eq_self)
qed

lemma length_tail:
  assumes "wf_file_info info"
  shows "length (concat (map file_entry_serialize (segments info))) + length (after_segments info) = (file_units info - 1) * 48"
proof -
  have "length (fst (file_info_serialize info)) = 48 * file_units info"
    using file_serialize_len(1) [of info] length_file_info_serialize [of info] by simp
  then show ?thesis by (simp add: file_info_bytes reader_simps)
qed

text \<open>Reading the records of an info.\<close>

lemma read_tail:
  assumes "wf_file_info info"
  shows "read_n file_entry_deserialize (unat (fh_num_entries (metadata info))) (concat (map file_entry_serialize (segments info)) @ r) =
      Inr (segments info, r)"
    "header_contains_verification (metadata info) \<Longrightarrow>
     read_n file_verification_deserialize (unat (fh_num_entries (metadata info))) (concat (map file_verification_serialize (verification info)) @ r) =
      Inr (verification info, r)"
    "metadata_ext info = Some m \<Longrightarrow> file_metadata_ext_deserialize (file_metadata_ext_serialize m @ r) = Inr (m, r)"
proof -
  have n: "unat (fh_num_entries (metadata info)) = length (segments info)" using assms by (simp add: wf_file_info_def)
  show "read_n file_entry_deserialize (unat (fh_num_entries (metadata info))) (concat (map file_entry_serialize (segments info)) @ r) =
      Inr (segments info, r)"
    unfolding n by (rule file_entry_codec.read_n_sers) simp
  show "read_n file_verification_deserialize (unat (fh_num_entries (metadata info))) (concat (map file_verification_serialize (verification info)) @ r) =
      Inr (verification info, r)" if "header_contains_verification (metadata info)"
  proof -
    have "length (segments info) = length (verification info)"
      using assms that by (simp add: wf_file_info_def contains_verification_def)
    then show ?thesis
      using assms unfolding n by (simp only:) (intro file_verification_codec.read_n_sers, auto simp: wf_file_info_def)
  qed
  show "file_metadata_ext_deserialize (file_metadata_ext_serialize m @ r) = Inr (m, r)" if "metadata_ext info = Some m"
    using assms that by (intro file_metadata_ext_codec.de_ser) (auto simp: wf_file_info_def)
qed

lemma after_segments_wf:
  assumes "wf_file_info info"
  shows "after_segments info = (if header_contains_verification (metadata info) then concat (map file_verification_serialize (verification info)) else []) @
     (if header_contains_metadata_ext (metadata info) then file_metadata_ext_serialize (the (metadata_ext info)) else [])"
  using assms by (auto simp: after_segments_def wf_file_info_def contains_verification_def contains_metadata_ext_def split: option.splits)

lemma serialized_size:
  assumes "wf_file_info info"
  shows "of_nat (snd (file_info_serialize info)) = (48 :: u64) + ucast (fh_num_entries (metadata info)) * 48 +
    (if header_contains_verification (metadata info) then ucast (fh_num_entries (metadata info)) * 48 else 0) +
    (if header_contains_metadata_ext (metadata info) then 48 else 0)"
  by (simp add: file_serialize_len file_units_wf [OF assms] num_entries_wf(3) [OF assms])

lemma copy_file_step:
  assumes "wf_file_info info"
  shows "side i (fo_headers st) = Some (metadata info) \<Longrightarrow>
    side i (fo_readers st) = concat (map file_entry_serialize (segments info)) @ after_segments info @
      file_section files @ file_header_serialize file_header_bookend @ rest \<Longrightarrow> wf_files files \<Longrightarrow>
    copy_file_to_out i st = Some (Inr (emit_file info (st\<lparr>fo_readers := set_side i (snd (file_pos files rest)) (fo_readers st),
      fo_headers := set_side i (fst (file_pos files rest)) (fo_headers st)\<rparr>)))"
proof -
  assume h: "side i (fo_headers st) = Some (metadata info)"
    and r: "side i (fo_readers st) = concat (map file_entry_serialize (segments info)) @ after_segments info @
      file_section files @ file_header_serialize file_header_bookend @ rest" and wf: "wf_files files"
  have ext: "metadata_ext info = Some (the (metadata_ext info))" if "header_contains_metadata_ext (metadata info)"
    using assms that by (auto simp: wf_file_info_def contains_metadata_ext_def)
  note rules = copy_file_to_out_def h r after_segments_wf [OF assms] read_tail(1,2) [OF assms] read_tail(3) [OF assms ext] lift_io_def
    load_next_file_pos [OF wf] emit_file_def file_info_bytes serialized_size [OF assms] following_units [OF assms] case_prod_beta
  show ?thesis
    by (cases "header_contains_verification (metadata info)"; cases "header_contains_metadata_ext (metadata info)")
      (simp_all add: rules)
qed

lemma skip_file_step:
  assumes "wf_file_info info" and "file_units info < 2 ^ 32" and "wf_files files" and "side i (fo_headers st) = Some (metadata info)"
    and "side i (fo_readers st) = concat (map file_entry_serialize (segments info)) @ after_segments info @
      file_section files @ file_header_serialize file_header_bookend @ rest"
  shows "skip_over_file i st = Some (Inr (st\<lparr>fo_readers := set_side i (snd (file_pos files rest)) (fo_readers st),
      fo_headers := set_side i (fst (file_pos files rest)) (fo_headers st)\<rparr>))"
  using assms(4,5) length_tail [OF assms(1)]
  by (simp add: skip_over_file_def unat_following [OF assms(1,2)] MDB_FILE_INFO_ENTRY_SIZE_def load_next_file_pos [OF assms(3)]
      drop_append_exact case_prod_beta)

text \<open>What the merge of two infos of one file writes.\<close>

definition merged_file :: "mdb_file_info \<Rightarrow> mdb_file_info \<Rightarrow> mdb_file_info" where
  "merged_file fa fb =
     \<lparr>metadata = the (file_header_new (fh_file_hash (metadata fa)) (length (segments fa))
        (contains_verification fa \<or> contains_verification fb) (contains_metadata_ext fa \<or> contains_metadata_ext fb)),
      segments = segments fa, verification = (if contains_verification fa then verification fa else verification fb),
      metadata_ext = (if contains_metadata_ext fa then metadata_ext fa else metadata_ext fb)\<rparr>"

lemma merged_header:
  assumes "wf_file_info fa"
  shows "file_header_new (fh_file_hash (metadata fa)) (length (segments fa)) (contains_verification fa \<or> contains_verification fb)
    (contains_metadata_ext fa \<or> contains_metadata_ext fb) = Some (metadata (merged_file fa fb))"
  using num_entries_wf(2) [OF assms] by (simp add: merged_file_def file_header_new_def try_u32_def Let_def)

lemma wf_merged_file:
  assumes "wf_file_info fa" and "wf_file_info fb" and "length (segments fa) = length (segments fb)"
  shows "wf_file_info (merged_file fa fb)" "fh_file_hash (metadata (merged_file fa fb)) = fh_file_hash (metadata fa)"
    "fh_num_entries (metadata (merged_file fa fb)) = fh_num_entries (metadata fa)"
    "header_contains_verification (metadata (merged_file fa fb)) \<longleftrightarrow> contains_verification fa \<or> contains_verification fb"
    "header_contains_metadata_ext (metadata (merged_file fa fb)) \<longleftrightarrow> contains_metadata_ext fa \<or> contains_metadata_ext fb"
proof -
  have f: "fh_file_hash (metadata (merged_file fa fb)) = fh_file_hash (metadata fa)"
    "fh_num_entries (metadata (merged_file fa fb)) = fh_num_entries (metadata fa)"
    "header_contains_verification (metadata (merged_file fa fb)) \<longleftrightarrow> contains_verification fa \<or> contains_verification fb"
    "header_contains_metadata_ext (metadata (merged_file fa fb)) \<longleftrightarrow> contains_metadata_ext fa \<or> contains_metadata_ext fb"
    using num_entries_wf(1,2) [OF assms(1)] by (auto simp: merged_file_def file_header_new_def try_u32_def Let_def header_flags MDB_DEFAULT_FILE_FLAG_def)
  show "wf_file_info (merged_file fa fb)"
    using assms f
    by (auto simp: wf_file_info_def contains_verification_def contains_metadata_ext_def file_header_is_bookend_def merged_file_def)
  show "fh_file_hash (metadata (merged_file fa fb)) = fh_file_hash (metadata fa)"
    "fh_num_entries (metadata (merged_file fa fb)) = fh_num_entries (metadata fa)"
    "header_contains_verification (metadata (merged_file fa fb)) \<longleftrightarrow> contains_verification fa \<or> contains_verification fb"
    "header_contains_metadata_ext (metadata (merged_file fa fb)) \<longleftrightarrow> contains_metadata_ext fa \<or> contains_metadata_ext fb"
    by (rule f)+
qed

lemma take_verification_step:
  assumes "wf_file_info fa" and "wf_file_info fb" and "contains_verification fa \<or> contains_verification fb"
  shows "take_verification (metadata fa) (metadata fb) (after_segments fa @ ra, after_segments fb @ rb) =
    Inr (if contains_verification fa then verification fa else verification fb,
         (case metadata_ext fa of Some m \<Rightarrow> file_metadata_ext_serialize m | None \<Rightarrow> []) @ ra,
         (case metadata_ext fb of Some m \<Rightarrow> file_metadata_ext_serialize m | None \<Rightarrow> []) @ rb)"
proof -
  have l: "unat (fh_num_entries (metadata info)) * 48 = length (concat (map file_verification_serialize (verification info)))"
    if "wf_file_info info" "header_contains_verification (metadata info)" for info
    using that by (simp add: wf_file_info_def contains_verification_def reader_simps)
  show ?thesis
    using assms(3) read_tail(2) [OF assms(1)] read_tail(2) [OF assms(2)] l [OF assms(1)] l [OF assms(2)]
    by (cases "contains_verification fa"; cases "contains_verification fb")
      (simp_all add: take_verification_def after_segments_def contains_verification_def lift_io_def MDB_FILE_INFO_ENTRY_SIZE_def)
qed

lemma take_metadata_ext_step:
  assumes "wf_file_info fa" and "wf_file_info fb" and "contains_metadata_ext fa \<or> contains_metadata_ext fb"
  shows "take_metadata_ext (metadata fa) (metadata fb)
      ((case metadata_ext fa of Some m \<Rightarrow> file_metadata_ext_serialize m | None \<Rightarrow> []) @ ra,
       (case metadata_ext fb of Some m \<Rightarrow> file_metadata_ext_serialize m | None \<Rightarrow> []) @ rb) =
    Inr ([the (metadata_ext (merged_file fa fb))], ra, rb)"
proof -
  have e: "metadata_ext info \<noteq> None \<longleftrightarrow> header_contains_metadata_ext (metadata info)" if "wf_file_info info" for info
    using that by (simp add: wf_file_info_def contains_metadata_ext_def)
  show ?thesis
    using assms(3) read_tail(3) [OF assms(1)] read_tail(3) [OF assms(2)] e [OF assms(1)] e [OF assms(2)]
    by (cases "metadata_ext fa"; cases "metadata_ext fb")
      (simp_all add: take_metadata_ext_def contains_metadata_ext_def lift_io_def MDB_FILE_INFO_ENTRY_SIZE_def merged_file_def reader_simps)
qed

lemma merge_file_step:
  assumes wf: "wf_file_info fa" "wf_file_info fb" "length (segments fa) = length (segments fb)" "wf_files xs" "wf_files ys"
    and h: "fo_headers st = (Some (metadata fa), Some (metadata fb))"
    and r: "fo_readers st = (concat (map file_entry_serialize (segments fa)) @ after_segments fa @ file_section xs @ file_header_serialize file_header_bookend @ ra,
      concat (map file_entry_serialize (segments fb)) @ after_segments fb @ file_section ys @ file_header_serialize file_header_bookend @ rb)"
  shows "merge_file_entries st = Some (Inr (emit_file (merged_file fa fb)
    (st\<lparr>fo_readers := (snd (file_pos xs ra), snd (file_pos ys rb)), fo_headers := (fst (file_pos xs ra), fst (file_pos ys rb))\<rparr>)))"
proof -
  let ?m = "merged_file fa fb"
  have n: "unat (fh_num_entries (metadata fa)) = length (segments fa)" using wf(1) by (simp add: wf_file_info_def)
  have skip: "unat (fh_num_entries (metadata fb)) * MDB_FILE_INFO_ENTRY_SIZE = length (concat (map file_entry_serialize (segments fb)))"
    using wf(2) by (simp add: wf_file_info_def MDB_FILE_INFO_ENTRY_SIZE_def reader_simps)
  note m = wf_merged_file [OF wf(1-3)]
  have none: "(case metadata_ext info of Some m \<Rightarrow> file_metadata_ext_serialize m | None \<Rightarrow> []) = []"
    if "wf_file_info info" "\<not> contains_metadata_ext info" for info using that by (auto simp: wf_file_info_def)
  have aft: "\<not> contains_verification info \<Longrightarrow> after_segments info =
      (case metadata_ext info of Some m \<Rightarrow> file_metadata_ext_serialize m | None \<Rightarrow> [])" for info by (simp add: after_segments_def)
  let ?v = "header_contains_verification (metadata fa) \<or> header_contains_verification (metadata fb)"
    and ?e = "header_contains_metadata_ext (metadata fa) \<or> header_contains_metadata_ext (metadata fb)"
    and ?x = "\<lambda>info. case metadata_ext info of Some m \<Rightarrow> file_metadata_ext_serialize m | None \<Rightarrow> []"
  have hd: "file_header_new (fh_file_hash (metadata fa)) (length (segments fa)) ?v ?e = Some (metadata ?m)"
    using merged_header [OF wf(1), of fb] by (simp add: contains_verification_def contains_metadata_ext_def)
  have v: "(if ?v then take_verification (metadata fa) (metadata fb) (after_segments fa @ A, after_segments fb @ B)
      else Inr ([], after_segments fa @ A, after_segments fb @ B)) = Inr (verification ?m, ?x fa @ A, ?x fb @ B)" for A B
    using take_verification_step [OF wf(1,2), of A B] aft [of fa] aft [of fb] wf(2)
    by (auto simp: contains_verification_def merged_file_def wf_file_info_def)
  have e: "(if ?e then take_metadata_ext (metadata fa) (metadata fb) (?x fa @ A, ?x fb @ B) else Inr ([], ?x fa @ A, ?x fb @ B)) =
      Inr (if ?e then [the (metadata_ext ?m)] else [], A, B)" for A B
    using take_metadata_ext_step [OF wf(1,2), of A B] none [OF wf(1)] none [OF wf(2)]
    by (auto simp: contains_metadata_ext_def)
  have len: "length (verification ?m) = (if contains_verification fa \<or> contains_verification fb then length (segments fa) else 0)"
    using m(1,4) by (simp add: wf_file_info_def contains_verification_def) (simp add: merged_file_def)
  have out: "after_segments ?m = concat (map file_verification_serialize (verification ?m)) @
     (if contains_metadata_ext fa \<or> contains_metadata_ext fb then file_metadata_ext_serialize (the (metadata_ext ?m)) else [])"
    using after_segments_wf [OF m(1)] m(4,5) len by auto
  have "merge_file_entries st = Some (Inr (st
      \<lparr>fo_readers := (snd (file_pos xs ra), snd (file_pos ys rb)), fo_headers := (fst (file_pos xs ra), fst (file_pos ys rb)),
       fo_out := fo_out st @ file_header_serialize (metadata ?m) @ concat (map file_entry_serialize (segments fa)) @
         concat (map file_verification_serialize (verification ?m)) @
         concat (map file_metadata_ext_serialize (if ?e then [the (metadata_ext ?m)] else [])),
       fo_offset := fo_offset st + 48 + ucast (fh_num_entries (metadata fa)) * 48 + of_nat (length (verification ?m)) * 48 +
         of_nat (length (if ?e then [the (metadata_ext ?m)] else [])) * 48,
       fo_materialized := foldl (\<lambda>acc e. acc + ucast (fe_unpacked_segment_bytes e)) (fo_materialized st) (segments fa),
       fo_lookup := fo_lookup st @ [(truncate_hash (fh_file_hash (metadata fa)), fo_index st)],
       fo_index := fo_index st + (1 + num_info_entry_following (metadata ?m))\<rparr>))"
    by (simp add: merge_file_entries_def h r n hd read_tail(1) [OF wf(1), unfolded n] lift_io_def skip v e Let_def
        load_next_file_pos [OF wf(4)] load_next_file_pos [OF wf(5)] case_prod_beta)
  moreover have "segments ?m = segments fa" by (simp add: merged_file_def)
  ultimately show ?thesis
    by (cases ?v; cases ?e)
      (simp_all add: emit_file_def file_info_bytes out serialized_size [OF m(1)] following_units [OF m(1)] len m(2-5)
        num_entries_wf(3) [OF wf(1)] contains_verification_def contains_metadata_ext_def add.assoc)
qed

lemmas file_step_defs = move_files_def emit_file_def side_def set_side_def

lemma file_steps:
  assumes "wf_file_info info" and "file_units info < 2 ^ 32" and "wf_files files"
  shows "copy_file_to_out 0 (move_files ((h, info) # files) ra ys rb st) = Some (Inr (move_files files ra ys rb (emit_file info st)))"
    "copy_file_to_out (Suc 0) (move_files xs ra ((h, info) # files) rb st) = Some (Inr (move_files xs ra files rb (emit_file info st)))"
    "skip_over_file 0 (move_files ((h, info) # files) ra ys rb st) = Some (Inr (move_files files ra ys rb st))"
    "skip_over_file (Suc 0) (move_files xs ra ((h, info) # files) rb st) = Some (Inr (move_files xs ra files rb st))"
proof -
  show "copy_file_to_out 0 (move_files ((h, info) # files) ra ys rb st) = Some (Inr (move_files files ra ys rb (emit_file info st)))"
    by (subst copy_file_step [OF assms(1) _ _ assms(3), where rest = ra]) (simp_all add: file_step_defs)
  show "copy_file_to_out (Suc 0) (move_files xs ra ((h, info) # files) rb st) = Some (Inr (move_files xs ra files rb (emit_file info st)))"
    by (subst copy_file_step [OF assms(1) _ _ assms(3), where rest = rb]) (simp_all add: file_step_defs)
  show "skip_over_file 0 (move_files ((h, info) # files) ra ys rb st) = Some (Inr (move_files files ra ys rb st))"
    by (subst skip_file_step [OF assms, where rest = ra]) (simp_all add: file_step_defs)
  show "skip_over_file (Suc 0) (move_files xs ra ((h, info) # files) rb st) = Some (Inr (move_files xs ra files rb st))"
    by (subst skip_file_step [OF assms, where rest = rb]) (simp_all add: file_step_defs)
qed

lemma merge_step:
  assumes "wf_file_info fa" and "wf_file_info fb" and "length (segments fa) = length (segments fb)" and "wf_files xs" and "wf_files ys"
  shows "merge_file_entries (move_files ((h, fa) # xs) ra ((h', fb) # ys) rb st) =
    Some (Inr (move_files xs ra ys rb (emit_file (merged_file fa fb) st)))"
  by (subst merge_file_step [OF assms, where ra = ra and rb = rb]) (simp_all add: file_step_defs)

text \<open>What is written for two infos of one file.\<close>

definition combine_file :: "mdb_file_info \<Rightarrow> mdb_file_info \<Rightarrow> mdb_file_info" where
  "combine_file fa fb =
     (case compare_flag_superset (metadata fa) (metadata fb) of
        SuperB \<Rightarrow> fb
      | Neither \<Rightarrow> merged_file fa fb
      | _ \<Rightarrow> fa)"

definition same_sizes :: "(merkle_hash, mdb_file_info) btree_map \<Rightarrow> (merkle_hash, mdb_file_info) btree_map \<Rightarrow> bool" where
  "same_sizes xs ys \<longleftrightarrow> (\<forall>(h, fa) \<in> set xs. \<forall>(h', fb) \<in> set ys. h = h' \<longrightarrow> length (segments fa) = length (segments fb))"

lemma move_files_headers: "fo_headers (move_files xs ra ys rb st) = (fst (file_pos xs ra), fst (file_pos ys rb))"
  by (simp add: move_files_def)

lemma file_op_loop_step:
  assumes "wf_files ((a, v) # xs)" and "wf_files ((b, w) # ys)" and "op = SetUnion \<longrightarrow> a = b \<longrightarrow> length (segments v) = length (segments w)"
  shows "file_op_loop op (move_files ((a, v) # xs) ra ((b, w) # ys) rb st) =
    file_op_loop op
      (if a < b then move_files xs ra ((b, w) # ys) rb (if op = SetUnion then emit_file v st else st)
       else if a = b then move_files xs ra ys rb (if op = SetUnion then emit_file (combine_file v w) st else st)
       else move_files ((a, v) # xs) ra ys rb (emit_file w st))"
proof (cases a b rule: linorder_cases)
  case equal
  then show ?thesis
    using assms by (subst file_op_loop.simps)
      (cases op; cases "compare_flag_superset (metadata v) (metadata w)";
       simp add: move_files_headers get_next_actions_for_file_info_def get_next_actions_def file_action_def file_steps merge_step combine_file_def)
next
  case less
  then have "a \<noteq> b" by simp
  then show ?thesis
    using less assms by (subst (1) file_op_loop.simps)
      (cases op; simp add: move_files_headers get_next_actions_for_file_info_def get_next_actions_def file_action_def file_steps)
next
  case greater
  then have "a \<noteq> b" by simp
  then show ?thesis
    using greater assms by (subst (1) file_op_loop.simps)
      (cases op; simp add: move_files_headers get_next_actions_for_file_info_def get_next_actions_def file_action_def file_steps)
qed

lemma same_sizes_tails:
  assumes "same_sizes ((a, v) # xs) ((b, w) # ys)"
  shows "same_sizes xs ((b, w) # ys)" "same_sizes ((a, v) # xs) ys" "same_sizes xs ys" "a = b \<Longrightarrow> length (segments v) = length (segments w)"
  using assms unfolding same_sizes_def by fastforce+

lemma file_op_loop_ok:
  "wf_files xs \<Longrightarrow> wf_files ys \<Longrightarrow> op = SetUnion \<longrightarrow> same_sizes xs ys \<Longrightarrow>
     file_op_loop op (move_files xs ra ys rb st) =
     Some (Inr (move_files [] ra [] rb (fold (\<lambda>(_, info). emit_file info) (merge_maps combine_file op xs ys) st)))"
proof (induction combine_file op xs ys arbitrary: st rule: merge_maps.induct)
  case (1 op)
  then show ?case
    by (subst file_op_loop.simps) (simp add: move_files_headers get_next_actions_for_file_info_def get_next_actions_def)
next
  case (2 op y ys)
  obtain h info where y: "y = (h, info)" by force
  have "file_op_loop op (move_files [] ra (y # ys) rb st) = file_op_loop op (move_files [] ra ys rb (emit_file info st))"
    using "2.prems" by (subst file_op_loop.simps)
      (simp add: y move_files_headers get_next_actions_for_file_info_def get_next_actions_def file_action_def file_steps)
  then show ?case using 2 by (simp add: y same_sizes_def)
next
  case (3 op x xs)
  obtain h info where x: "x = (h, info)" by force
  have "file_op_loop op (move_files (x # xs) ra [] rb st) =
      file_op_loop op (move_files xs ra [] rb (if op = SetUnion then emit_file info st else st))"
    using "3.prems" by (subst file_op_loop.simps)
      (simp add: x move_files_headers get_next_actions_for_file_info_def get_next_actions_def file_action_def file_steps)
  then show ?case using 3 by (cases op) (simp_all add: x same_sizes_def)
next
  case (4 op a v xs b w ys)
  note t = same_sizes_tails [of a v xs b w ys]
  have "file_op_loop op (move_files ((a, v) # xs) ra ((b, w) # ys) rb st) =
    file_op_loop op
      (if a < b then move_files xs ra ((b, w) # ys) rb (if op = SetUnion then emit_file v st else st)
       else if a = b then move_files xs ra ys rb (if op = SetUnion then emit_file (combine_file v w) st else st)
       else move_files ((a, v) # xs) ra ys rb (emit_file w st))"
    using "4.prems" t(4) by (intro file_op_loop_step) blast+
  then show ?case
    using 4 t(1-3) by (cases a b rule: linorder_cases; cases op) simp_all
qed

section \<open>The xorb section\<close>

definition xorb_section :: "(merkle_hash, mdb_xorb_info) btree_map \<Rightarrow> bytes" where
  "xorb_section xorbs = concat (map (\<lambda>(_, info). fst (xorb_info_serialize info)) xorbs)"

fun xorb_pos :: "(merkle_hash, mdb_xorb_info) btree_map \<Rightarrow> bytes \<Rightarrow> xorb_chunk_sequence_header option \<times> bytes" where
  "xorb_pos [] rest = (None, rest)"
| "xorb_pos ((_, info) # xorbs) rest =
     (Some (xorb_metadata info), concat (map xorb_entry_serialize (xorb_chunks info)) @
        xorb_section xorbs @ xorb_header_serialize xorb_header_bookend @ rest)"

definition wf_xorbs :: "(merkle_hash, mdb_xorb_info) btree_map \<Rightarrow> bool" where
  "wf_xorbs xorbs \<longleftrightarrow> list_all (\<lambda>(h, info). xh_xorb_hash (xorb_metadata info) = h \<and> wf_xorb_info info) xorbs"

lemma wf_xorbs_simps [simp]:
  "wf_xorbs []"
  "wf_xorbs ((h, info) # xorbs) \<longleftrightarrow> xh_xorb_hash (xorb_metadata info) = h \<and> wf_xorb_info info \<and> wf_xorbs xorbs"
  by (simp_all add: wf_xorbs_def)

lemma load_next_xorb_pos:
  "wf_xorbs xorbs \<Longrightarrow> load_next_xorb (xorb_section xorbs @ xorb_header_serialize xorb_header_bookend @ rest) = Inr (xorb_pos xorbs rest)"
  by (cases xorbs) (auto simp: load_next_xorb_def xorb_section_def xorb_info_serialize_def reader_simps lift_io_def
      xorb_header_is_bookend_def xorb_header_bookend_def wf_xorb_info_def)

definition move_xorbs ::
  "(merkle_hash, mdb_xorb_info) btree_map \<Rightarrow> bytes \<Rightarrow> (merkle_hash, mdb_xorb_info) btree_map \<Rightarrow> bytes \<Rightarrow> xorb_op_state \<Rightarrow> xorb_op_state" where
  "move_xorbs xs ra ys rb st =
     st\<lparr>xs_readers := (snd (xorb_pos xs ra), snd (xorb_pos ys rb)), xs_headers := (fst (xorb_pos xs ra), fst (xorb_pos ys rb))\<rparr>"

definition emit_xorb :: "mdb_xorb_info \<Rightarrow> xorb_op_state \<Rightarrow> xorb_op_state" where
  "emit_xorb info st =
     st\<lparr>xs_out := xs_out st @ fst (xorb_info_serialize info), xs_offset := xs_offset st + of_nat (48 + 48 * length (xorb_chunks info)),
        xs_on_disk := xs_on_disk st + ucast (xh_num_bytes_on_disk (xorb_metadata info)),
        xs_stored := xs_stored st + ucast (xh_num_bytes_in_xorb (xorb_metadata info)),
        xs_lookup := xs_lookup st @ [(truncate_hash (xh_xorb_hash (xorb_metadata info)), xs_index st)],
        xs_chunk_lookup := xs_chunk_lookup st @
          map (\<lambda>(j, chunk). (truncate_hash (xe_chunk_hash chunk), xs_index st, of_nat j)) (enumerate 0 (xorb_chunks info)),
        xs_index := xs_index st + 1 + of_nat (length (xorb_chunks info))\<rparr>"

lemma read_xorb_entries:
  assumes "wf_xorb_info info"
  shows "read_n xorb_entry_deserialize (unat (xh_num_entries (xorb_metadata info))) (concat (map xorb_entry_serialize (xorb_chunks info)) @ r) =
      Inr (xorb_chunks info, r)"
    "xh_num_entries (xorb_metadata info) = of_nat (length (xorb_chunks info))"
    "unat (xh_num_entries (xorb_metadata info)) * 48 = length (concat (map xorb_entry_serialize (xorb_chunks info)))"
proof -
  have n: "length (xorb_chunks info) = unat (xh_num_entries (xorb_metadata info))" using assms by (simp add: wf_xorb_info_def)
  then show "xh_num_entries (xorb_metadata info) = of_nat (length (xorb_chunks info))" by simp
  show "read_n xorb_entry_deserialize (unat (xh_num_entries (xorb_metadata info))) (concat (map xorb_entry_serialize (xorb_chunks info)) @ r) =
      Inr (xorb_chunks info, r)"
    unfolding n [symmetric] by (rule xorb_entry_codec.read_n_sers) simp
  show "unat (xh_num_entries (xorb_metadata info)) * 48 = length (concat (map xorb_entry_serialize (xorb_chunks info)))"
    using n by (simp add: reader_simps)
qed

lemma xorb_steps:
  assumes "wf_xorb_info info" and "wf_xorbs xorbs"
  shows "copy_xorb_to_out 0 (move_xorbs ((h, info) # xorbs) ra ys rb st) = Some (Inr (move_xorbs xorbs ra ys rb (emit_xorb info st)))"
    "copy_xorb_to_out (Suc 0) (move_xorbs xs ra ((h, info) # xorbs) rb st) = Some (Inr (move_xorbs xs ra xorbs rb (emit_xorb info st)))"
    "skip_over_xorb 0 (move_xorbs ((h, info) # xorbs) ra ys rb st) = Some (Inr (move_xorbs xorbs ra ys rb st))"
    "skip_over_xorb (Suc 0) (move_xorbs xs ra ((h, info) # xorbs) rb st) = Some (Inr (move_xorbs xs ra xorbs rb st))"
  using read_xorb_entries [OF assms(1)]
  by (simp_all add: copy_xorb_to_out_def skip_over_xorb_def move_xorbs_def emit_xorb_def lift_io_def load_next_xorb_pos [OF assms(2)]
      xorb_info_serialize_def case_prod_beta' add.assoc mult.commute)

lemma move_xorbs_headers: "xs_headers (move_xorbs xs ra ys rb st) = (fst (xorb_pos xs ra), fst (xorb_pos ys rb))"
  by (simp add: move_xorbs_def)

lemma xorb_op_loop_step:
  assumes "wf_xorbs ((a, v) # xs)" and "wf_xorbs ((b, w) # ys)"
  shows "xorb_op_loop op (move_xorbs ((a, v) # xs) ra ((b, w) # ys) rb st) =
    xorb_op_loop op
      (if a < b then move_xorbs xs ra ((b, w) # ys) rb (if op = SetUnion then emit_xorb v st else st)
       else if a = b then move_xorbs xs ra ys rb (if op = SetUnion then emit_xorb v st else st)
       else move_xorbs ((a, v) # xs) ra ys rb (emit_xorb w st))"
  using assms by (subst (1) xorb_op_loop.simps)
    (cases a b rule: linorder_cases; cases op; simp add: move_xorbs_headers get_next_actions_def xorb_action_def xorb_steps)

lemma xorb_op_loop_ok:
  "wf_xorbs xs \<Longrightarrow> wf_xorbs ys \<Longrightarrow>
     xorb_op_loop op (move_xorbs xs ra ys rb st) =
     Some (Inr (move_xorbs [] ra [] rb (fold (\<lambda>(_, info). emit_xorb info) (merge_maps (\<lambda>v w. v) op xs ys) st)))"
proof (induction "(\<lambda>v w. v) :: mdb_xorb_info \<Rightarrow> mdb_xorb_info \<Rightarrow> mdb_xorb_info" op xs ys arbitrary: st rule: merge_maps.induct)
  case (1 op)
  then show ?case by (subst xorb_op_loop.simps) (simp add: move_xorbs_def get_next_actions_def)
next
  case (2 op y ys)
  obtain h info where y: "y = (h, info)" by force
  have "xorb_op_loop op (move_xorbs [] ra (y # ys) rb st) = xorb_op_loop op (move_xorbs [] ra ys rb (emit_xorb info st))"
    using "2.prems" by (subst xorb_op_loop.simps) (simp add: y move_xorbs_headers get_next_actions_def xorb_action_def xorb_steps)
  then show ?case using 2 by (simp add: y)
next
  case (3 op x xs)
  obtain h info where x: "x = (h, info)" by force
  have "xorb_op_loop op (move_xorbs (x # xs) ra [] rb st) =
      xorb_op_loop op (move_xorbs xs ra [] rb (if op = SetUnion then emit_xorb info st else st))"
    using "3.prems" by (subst xorb_op_loop.simps) (simp add: x move_xorbs_headers get_next_actions_def xorb_action_def xorb_steps)
  then show ?case using 3 by (cases op) (simp_all add: x)
next
  case (4 op a v xs b w ys)
  then show ?case
    using xorb_op_loop_step [of a v xs b w ys op ra rb st] by (cases a b rule: linorder_cases; cases op) simp_all
qed

section \<open>The written file\<close>

lemma foldl_add_start:
  fixes z :: "'a::comm_monoid_add"
  shows "foldl (\<lambda>acc e. acc + f e) z es = z + foldl (\<lambda>acc e. acc + f e) 0 es"
proof (induction es arbitrary: z)
  case (Cons e es)
  show ?case unfolding foldl_Cons Cons.IH [of "z + f e"] Cons.IH [of "0 + f e"] by (simp add: add.assoc)
qed simp

definition keyed_files :: "(merkle_hash, mdb_file_info) btree_map \<Rightarrow> bool" where
  "keyed_files files \<longleftrightarrow> list_all (\<lambda>(h, info). fh_file_hash (metadata info) = h) files"

lemma emitted_files:
  "keyed_files files \<Longrightarrow>
     fo_out (fold (\<lambda>(_, info). emit_file info) files st) = fo_out st @ fst (snd (save_file_infos (fo_index st) files)) \<and>
     fo_lookup (fold (\<lambda>(_, info). emit_file info) files st) = fo_lookup st @ fst (save_file_infos (fo_index st) files) \<and>
     fo_offset (fold (\<lambda>(_, info). emit_file info) files st) = fo_offset st + of_nat (snd (snd (save_file_infos (fo_index st) files))) \<and>
     fo_materialized (fold (\<lambda>(_, info). emit_file info) files st) =
       foldl (\<lambda>acc (_, f). acc + foldl (\<lambda>acc e. acc + ucast (fe_unpacked_segment_bytes e)) 0 (segments f)) (fo_materialized st) files"
proof (induction files arbitrary: st)
  case (Cons x files)
  obtain h info where x: "x = (h, info)" by force
  let ?s = "emit_file info st"
  have f: "fo_out ?s = fo_out st @ fst (file_info_serialize info)" "fo_index ?s = fo_index st + of_nat (snd (file_info_serialize info) div MDB_FILE_INFO_ENTRY_SIZE)"
    "fo_lookup ?s = fo_lookup st @ [(truncate_hash h, fo_index st)]" "fo_offset ?s = fo_offset st + of_nat (snd (file_info_serialize info))"
    "fo_materialized ?s = fo_materialized st + foldl (\<lambda>acc e. acc + ucast (fe_unpacked_segment_bytes e)) 0 (segments info)"
    using Cons.prems foldl_add_start [of _ "fo_materialized st"] by (simp_all add: emit_file_def x file_units_def keyed_files_def)
  have "keyed_files files" using Cons.prems by (simp add: keyed_files_def)
  from Cons.IH [OF this, of ?s] show ?case by (simp add: x f Let_def case_prod_beta add.assoc)
qed simp

lemma emitted_xorbs:
  "wf_xorbs xorbs \<Longrightarrow>
     xs_out (fold (\<lambda>(_, info). emit_xorb info) xorbs st) = xs_out st @ fst (snd (snd (save_xorb_infos (xs_index st) xorbs))) \<and>
     xs_lookup (fold (\<lambda>(_, info). emit_xorb info) xorbs st) = xs_lookup st @ fst (save_xorb_infos (xs_index st) xorbs) \<and>
     xs_chunk_lookup (fold (\<lambda>(_, info). emit_xorb info) xorbs st) = xs_chunk_lookup st @ fst (snd (save_xorb_infos (xs_index st) xorbs)) \<and>
     xs_offset (fold (\<lambda>(_, info). emit_xorb info) xorbs st) = xs_offset st + of_nat (snd (snd (snd (save_xorb_infos (xs_index st) xorbs)))) \<and>
     xs_on_disk (fold (\<lambda>(_, info). emit_xorb info) xorbs st) =
       foldl (\<lambda>acc (_, x). acc + ucast (xh_num_bytes_on_disk (xorb_metadata x))) (xs_on_disk st) xorbs \<and>
     xs_stored (fold (\<lambda>(_, info). emit_xorb info) xorbs st) =
       foldl (\<lambda>acc (_, x). acc + ucast (xh_num_bytes_in_xorb (xorb_metadata x))) (xs_stored st) xorbs"
proof (induction xorbs arbitrary: st)
  case (Cons x xorbs)
  obtain h info where x: "x = (h, info)" by force
  have h: "xh_xorb_hash (xorb_metadata info) = h" "wf_xorbs xorbs" using Cons.prems by (simp_all add: x)
  let ?s = "emit_xorb info st"
  have f: "xs_out ?s = xs_out st @ xorb_header_serialize (xorb_metadata info) @ concat (map xorb_entry_serialize (xorb_chunks info))"
    "xs_lookup ?s = xs_lookup st @ [(truncate_hash h, xs_index st)]" "xs_index ?s = xs_index st + 1 + of_nat (length (xorb_chunks info))"
    "xs_chunk_lookup ?s = xs_chunk_lookup st @
       map (\<lambda>(j, chunk). (truncate_hash (xe_chunk_hash chunk), xs_index st, of_nat j)) (enumerate 0 (xorb_chunks info))"
    "xs_offset ?s = xs_offset st + of_nat (48 + 48 * length (xorb_chunks info))"
    "xs_on_disk ?s = xs_on_disk st + ucast (xh_num_bytes_on_disk (xorb_metadata info))"
    "xs_stored ?s = xs_stored st + ucast (xh_num_bytes_in_xorb (xorb_metadata info))"
    by (simp_all add: emit_xorb_def xorb_info_serialize_def h(1))
  from Cons.IH [OF h(2), of ?s] show ?case by (simp add: x f Let_def case_prod_beta add.assoc)
qed simp

lemma keyed_merge:
  "wf_files xs \<Longrightarrow> wf_files ys \<Longrightarrow> op = SetUnion \<longrightarrow> same_sizes xs ys \<Longrightarrow> keyed_files (merge_maps combine_file op xs ys)"
proof (induction combine_file op xs ys rule: merge_maps.induct)
  case (4 op a v xs b w ys)
  have "fh_file_hash (metadata (combine_file v w)) = a" if "a = b" "length (segments v) = length (segments w)"
    using "4.prems"(1,2) that wf_merged_file(2) [of v w] by (simp add: combine_file_def split: superset_result.split)
  then show ?case
    using 4 same_sizes_tails [of a v xs b w ys] by (cases a b rule: linorder_cases; cases op) (simp_all add: keyed_files_def)
qed (auto simp: keyed_files_def same_sizes_def)

lemma wf_merge_xorbs: "wf_xorbs xs \<Longrightarrow> wf_xorbs ys \<Longrightarrow> wf_xorbs (merge_maps (\<lambda>v w. v) op xs ys)"
  by (induction "(\<lambda>v w. v) :: mdb_xorb_info \<Rightarrow> mdb_xorb_info \<Rightarrow> mdb_xorb_info" op xs ys rule: merge_maps.induct)
    (auto simp: wf_xorbs_def)

definition merged_shard :: "mdb_set_operation \<Rightarrow> mdb_in_memory_shard \<Rightarrow> mdb_in_memory_shard \<Rightarrow> mdb_in_memory_shard" where
  "merged_shard op a b =
     \<lparr>xorb_content = merge_maps (\<lambda>v w. v) op (xorb_content a) (xorb_content b),
      file_content = merge_maps combine_file op (file_content a) (file_content b),
      chunk_hash_lookup = [], current_shard_file_size = 0\<rparr>"

lemma storable_wf:
  assumes "storable mdb"
  shows "wf_files (file_content mdb)" "wf_xorbs (xorb_content mdb)"
proof -
  have "file_units info < 2 ^ 32" if "(h, info) \<in> set (file_content mdb)" for h info
  proof -
    have "file_units info \<le> file_section_units (file_content mdb)"
      using that unfolding file_section_units_def by (intro member_le_sum_list) (auto intro: rev_image_eqI)
    then show ?thesis using assms by (simp add: storable_def)
  qed
  moreover have "map_of (file_content mdb) h = Some info" if "(h, info) \<in> set (file_content mdb)" for h info
    using that assms by (intro map_of_is_SomeI) (auto simp: storable_def shard_inv_def bt_sorted_distinct)
  moreover have "map_of (xorb_content mdb) h = Some info" if "(h, info) \<in> set (xorb_content mdb)" for h info
    using that assms by (intro map_of_is_SomeI) (auto simp: storable_def shard_inv_def bt_sorted_distinct)
  ultimately show "wf_files (file_content mdb)" "wf_xorbs (xorb_content mdb)"
    using assms by (auto simp: wf_files_def wf_xorbs_def storable_def shard_inv_def list_all_iff)
qed

lemma sections_at:
  assumes "storable mdb" and "key_sort_ok srt"
  shows "(\<exists>rest. drop (unat (ft_file_info_offset (si_metadata (snd (serialize_from srt ex mdb))))) (fst (serialize_from srt ex mdb)) =
      file_section (file_content mdb) @ file_header_serialize file_header_bookend @ rest) \<and>
    (\<exists>rest. drop (unat (ft_xorb_info_offset (si_metadata (snd (serialize_from srt ex mdb))))) (fst (serialize_from srt ex mdb)) =
      xorb_section (xorb_content mdb) @ xorb_header_serialize xorb_header_bookend @ rest)"
proof (rule serialize_layout [OF assms, of ex]; goal_cases)
  case (1 file_tab file_out xorb_tab ctab xorb_out)
  have "file_out = file_section (file_content mdb)" "xorb_out = xorb_section (xorb_content mdb)"
    using 1(1,2) save_file_out [of 0 "file_content mdb"] save_xorb_out [of 0 "xorb_content mdb"]
    by (simp_all add: file_section_def xorb_section_def)
  moreover have "length (fst (shard_header_serialize shard_header_default)) = 48" by (rule shard_header_codec)
  ultimately show ?case using 1(3,4,7,8) by (simp add: reader_simps)
qed

lemma set_operation_end_ok:
  assumes f: "fo_out fs = fst (snd (save_file_infos 0 (file_content mdb)))" "fo_lookup fs = fst (save_file_infos 0 (file_content mdb))"
      "fo_offset fs = 48 + of_nat (snd (snd (save_file_infos 0 (file_content mdb))))" "fo_materialized fs = materialized_bytes mdb"
    and x: "xs_out xs = fst (snd (snd (save_xorb_infos 0 (xorb_content mdb))))" "xs_lookup xs = fst (save_xorb_infos 0 (xorb_content mdb))"
      "xs_chunk_lookup xs = fst (snd (save_xorb_infos 0 (xorb_content mdb)))"
      "xs_offset xs = (fo_offset fs + 48) + of_nat (snd (snd (snd (save_xorb_infos 0 (xorb_content mdb)))))"
      "xs_on_disk xs = stored_bytes_on_disk mdb" "xs_stored xs = stored_bytes mdb"
  shows "set_operation_end srt (of_nat (snd (shard_header_serialize shard_header_default))) fs (fo_offset fs + 48) xs = serialize_from srt None mdb"
proof -
  have h: "snd (shard_header_serialize shard_header_default) = 48" by (simp add: shard_header_serialize_def)
  obtain tab out w where s: "save_file_infos 0 (file_content mdb) = (tab, out, w)" by (metis prod_cases3)
  obtain xtab ctab xout xw where t: "save_xorb_infos 0 (xorb_content mdb) = (xtab, ctab, xout, xw)" by (metis prod_cases4)
  show ?thesis
    by (simp add: set_operation_end_def serialize_from_def convert_and_save_file_info_def convert_and_save_xorb_info_def s t f x h Let_def
        case_prod_beta ac_simps)
qed

lemma set_operation_ok:
  assumes st: "storable a" "storable b" and srt: "key_sort_ok srt" and sz: "op = SetUnion \<longrightarrow> same_sizes (file_content a) (file_content b)"
  shows "set_operation srt (snd (serialize_from srt ea a)) (fst (serialize_from srt ea a)) (snd (serialize_from srt eb b)) (fst (serialize_from srt eb b)) op =
    Some (Inr (serialize_from srt None (merged_shard op a b)))"
proof -
  let ?A = "serialize_from srt ea a" and ?B = "serialize_from srt eb b" and ?m = "merged_shard op a b"
  obtain ra where ra: "drop (unat (ft_file_info_offset (si_metadata (snd ?A)))) (fst ?A) =
      file_section (file_content a) @ file_header_serialize file_header_bookend @ ra" using sections_at [OF st(1) srt] by blast
  obtain rb where rb: "drop (unat (ft_file_info_offset (si_metadata (snd ?B)))) (fst ?B) =
      file_section (file_content b) @ file_header_serialize file_header_bookend @ rb" using sections_at [OF st(2) srt] by blast
  obtain xa where xa: "drop (unat (ft_xorb_info_offset (si_metadata (snd ?A)))) (fst ?A) =
      xorb_section (xorb_content a) @ xorb_header_serialize xorb_header_bookend @ xa" using sections_at [OF st(1) srt] by blast
  obtain xb where xb: "drop (unat (ft_xorb_info_offset (si_metadata (snd ?B)))) (fst ?B) =
      xorb_section (xorb_content b) @ xorb_header_serialize xorb_header_bookend @ xb" using sections_at [OF st(2) srt] by blast
  note wf = storable_wf [OF st(1)] storable_wf [OF st(2)]
  let ?f0 = "\<lparr>fo_readers = ([], []), fo_headers = (None, None), fo_out = [], fo_offset = 48, fo_materialized = 0, fo_lookup = [], fo_index = 0\<rparr>"
  let ?fs = "move_files [] ra [] rb (fold (\<lambda>(_, info). emit_file info) (file_content ?m) ?f0)"
  let ?x0 = "\<lparr>xs_readers = ([], []), xs_headers = (None, None), xs_out = [], xs_offset = fo_offset ?fs + 48, xs_on_disk = 0, xs_stored = 0,
    xs_lookup = [], xs_chunk_lookup = [], xs_index = 0\<rparr>"
  let ?xs = "move_xorbs [] xa [] xb (fold (\<lambda>(_, info). emit_xorb info) (xorb_content ?m) ?x0)"
  have h: "snd (shard_header_serialize shard_header_default) = 48" by (simp add: shard_header_serialize_def)
  have f0: "file_op_start (snd ?A) (fst ?A) (snd ?B) (fst ?B) 48 = Inr (move_files (file_content a) ra (file_content b) rb ?f0)"
    by (simp add: file_op_start_def ra rb load_next_file_pos wf case_prod_beta move_files_def)
  have fl: "file_op_loop op (move_files (file_content a) ra (file_content b) rb ?f0) = Some (Inr ?fs)"
    using file_op_loop_ok [OF wf(1,3) sz] by (simp add: merged_shard_def)
  have x0: "xorb_op_start (snd ?A) (fst ?A) (snd ?B) (fst ?B) (fo_offset ?fs + 48) = Inr (move_xorbs (xorb_content a) xa (xorb_content b) xb ?x0)"
    by (simp add: xorb_op_start_def xa xb load_next_xorb_pos wf case_prod_beta move_xorbs_def)
  have xl: "xorb_op_loop op (move_xorbs (xorb_content a) xa (xorb_content b) xb ?x0) = Some (Inr ?xs)"
    using xorb_op_loop_ok [OF wf(2,4)] by (simp add: merged_shard_def)
  have ef: "keyed_files (file_content ?m)" "wf_xorbs (xorb_content ?m)"
    using keyed_merge [OF wf(1,3) sz] wf_merge_xorbs [OF wf(2,4)] by (simp_all add: merged_shard_def)
  have fin: "set_operation_end srt (of_nat (snd (shard_header_serialize shard_header_default))) ?fs (fo_offset ?fs + 48) ?xs = serialize_from srt None ?m"
    using emitted_files [OF ef(1), of ?f0] emitted_xorbs [OF ef(2), of ?x0]
    by (intro set_operation_end_ok) (simp_all add: move_files_def move_xorbs_def materialized_bytes_def stored_bytes_def stored_bytes_on_disk_def)
  show ?thesis
    unfolding set_operation_def Let_def fin [symmetric] unfolding h of_nat_numeral f0 sum.case fl option.case x0 xl ..
qed

section \<open>Union and difference in memory\<close>

lemma serialize_from_contents:
  "file_content m = file_content m' \<Longrightarrow> xorb_content m = xorb_content m' \<Longrightarrow> serialize_from srt ex m = serialize_from srt ex m'"
  by (simp add: serialize_from_def stored_bytes_on_disk_def materialized_bytes_def stored_bytes_def)

lemma merge_difference:
  "bt_sorted xs \<Longrightarrow> bt_sorted ys \<Longrightarrow> merge_maps f SetDifference xs ys = filter (\<lambda>(k, _). map_of xs k = None) ys"
  by (rule bt_sorted_ext) (simp_all add: merge_maps_sorted bt_sorted_filter fun_eq_iff map_of_merge_maps map_of_bt_filter)

lemma fold_bt_insert_sorted: "bt_sorted m \<Longrightarrow> bt_sorted (fold (\<lambda>(k, v). bt_insert k v) xs m)"
  by (induction xs arbitrary: m) (auto simp: bt_sorted_insert)

lemma fold_bt_insert_map:
  "distinct (map fst xs) \<Longrightarrow>
     map_of (fold (\<lambda>(k, v). bt_insert k v) xs m) k = (case map_of xs k of Some v \<Rightarrow> Some v | None \<Rightarrow> map_of m k)"
proof (induction xs arbitrary: m)
  case (Cons x xs)
  obtain a v where x: "x = (a, v)" by force
  have "map_of xs a = None" "distinct (map fst xs)" using Cons.prems by (simp_all add: x map_of_eq_None_iff)
  then show ?case using Cons.IH [of "bt_insert a v m"] by (simp add: x split: option.split)
qed simp

lemma union_files_sorted: "bt_sorted files \<Longrightarrow> bt_sorted (union_files files other)"
  by (induction files other rule: union_files.induct) (simp_all add: bt_sorted_insert split: option.splits)

lemma union_files_map:
  "distinct (map fst other) \<Longrightarrow>
     map_of (union_files files other) k = (case (map_of files k, map_of other k) of
        (Some v, Some w) \<Rightarrow> Some (file_info_merge_from v w) | (Some v, None) \<Rightarrow> Some v | (None, r) \<Rightarrow> r)"
proof (induction files other rule: union_files.induct)
  case (2 files k' v other)
  have n: "map_of other k' = None" "distinct (map fst other)" using "2.prems" by (simp_all add: map_of_eq_None_iff)
  show ?case
  proof (cases "map_of files k'")
    case None
    then show ?thesis using "2.IH"(1) [OF None n(2)] n(1) by simp
  next
    case (Some old)
    then show ?thesis using "2.IH"(2) [OF Some n(2)] n(1) by simp
  qed
qed (simp split: option.split)

text \<open>Two infos of one file agree where both have something, as the code assumes.\<close>

definition agreeing :: "mdb_file_info \<Rightarrow> mdb_file_info \<Rightarrow> bool" where
  "agreeing fa fb \<longleftrightarrow> segments fa = segments fb \<and>
     (contains_verification fa \<and> contains_verification fb \<longrightarrow> verification fa = verification fb) \<and>
     (contains_metadata_ext fa \<and> contains_metadata_ext fb \<longrightarrow> metadata_ext fa = metadata_ext fb)"

definition compatible :: "mdb_in_memory_shard \<Rightarrow> mdb_in_memory_shard \<Rightarrow> bool" where
  "compatible a b \<longleftrightarrow>
     list_all (\<lambda>(_, info). canonical_file info) (file_content a) \<and> list_all (\<lambda>(_, info). canonical_file info) (file_content b) \<and>
     (\<forall>h v w. map_of (xorb_content a) h = Some v \<longrightarrow> map_of (xorb_content b) h = Some w \<longrightarrow> v = w) \<and>
     (\<forall>h v w. map_of (file_content a) h = Some v \<longrightarrow> map_of (file_content b) h = Some w \<longrightarrow> agreeing v w)"

lemma canonical_header:
  assumes "canonical_file info"
  shows "metadata info = \<lparr>fh_file_hash = fh_file_hash (metadata info),
    fh_file_flags = (if contains_verification info then MDB_FILE_FLAG_WITH_VERIFICATION else 0) OR
      (if contains_metadata_ext info then MDB_FILE_FLAG_WITH_METADATA_EXT else 0),
    fh_num_entries = of_nat (length (segments info)), fh_unused = 0\<rparr>"
proof -
  have "length (segments info) < 2 ^ 32" using assms num_entries_wf(2) by (simp add: canonical_file_def)
  then have "Some (metadata info) = Some \<lparr>fh_file_hash = fh_file_hash (metadata info),
    fh_file_flags = MDB_DEFAULT_FILE_FLAG OR (if contains_verification info then MDB_FILE_FLAG_WITH_VERIFICATION else 0) OR
      (if contains_metadata_ext info then MDB_FILE_FLAG_WITH_METADATA_EXT else 0),
    fh_num_entries = of_nat (length (segments info)), fh_unused = 0\<rparr>"
    using assms unfolding canonical_file_def file_header_new_def Let_def by (simp add: try_u32_def)
  then show ?thesis by (simp add: MDB_DEFAULT_FILE_FLAG_def)
qed

lemma file_flag_values: "MDB_FILE_FLAG_WITH_VERIFICATION = 0x80000000" "MDB_FILE_FLAG_WITH_METADATA_EXT = 0x40000000"
  by (simp_all add: file_flag_defs push_bit_eq_mult)

lemma merged_header_eq:
  assumes "wf_file_info fa"
  shows "metadata (merged_file fa fb) = \<lparr>fh_file_hash = fh_file_hash (metadata fa),
    fh_file_flags = (if contains_verification fa \<or> contains_verification fb then MDB_FILE_FLAG_WITH_VERIFICATION else 0) OR
      (if contains_metadata_ext fa \<or> contains_metadata_ext fb then MDB_FILE_FLAG_WITH_METADATA_EXT else 0),
    fh_num_entries = of_nat (length (segments fa)), fh_unused = 0\<rparr>"
  using num_entries_wf(2) [OF assms]
  by (simp add: merged_file_def file_header_new_def try_u32_def Let_def MDB_DEFAULT_FILE_FLAG_def)

lemma canonical_eqI:
  assumes "canonical_file x" and "canonical_file y" and "fh_file_hash (metadata x) = fh_file_hash (metadata y)" and "segments x = segments y"
    and "contains_verification x = contains_verification y" and "contains_metadata_ext x = contains_metadata_ext y"
    and "verification x = verification y" and "metadata_ext x = metadata_ext y"
  shows "x = y"
proof -
  have "metadata x = metadata y" using canonical_header [OF assms(1)] canonical_header [OF assms(2)] assms(3-6) by simp
  with assms(4,7,8) show ?thesis by simp
qed

lemma canonical_merges:
  assumes "canonical_file fa" and "canonical_file fb" and "length (segments fa) = length (segments fb)"
  shows "canonical_file (merged_file fa fb)" "canonical_file (file_info_merge_from fa fb)"
proof -
  have wf: "wf_file_info fa" "wf_file_info fb" using assms(1,2) by (simp_all add: canonical_file_def)
  note m = wf_merged_file [OF wf assms(3)] and u = file_info_merge_from_union [OF wf assms(3)]
  show "canonical_file (merged_file fa fb)"
    using m merged_header [OF wf(1), of fb]
    by (simp add: canonical_file_def contains_verification_def contains_metadata_ext_def) (simp add: merged_file_def)
  have upd: "metadata (file_info_merge_from fa fb) = (metadata fa)\<lparr>fh_file_flags := fh_file_flags (metadata fa) OR
      (if \<not> contains_verification fa \<and> contains_verification fb then MDB_FILE_FLAG_WITH_VERIFICATION else 0) OR
      (if \<not> contains_metadata_ext fa \<and> contains_metadata_ext fb then MDB_FILE_FLAG_WITH_METADATA_EXT else 0)\<rparr>"
    by (simp add: file_info_merge_from_def contains_verification_def contains_metadata_ext_def header_flags or.assoc)
  have "metadata (file_info_merge_from fa fb) = metadata (merged_file fa fb)"
    unfolding upd merged_header_eq [OF wf(1)]
    by (subst canonical_header [OF assms(1)], subst (2) canonical_header [OF assms(1)])
      (cases "contains_verification fa"; cases "contains_verification fb"; cases "contains_metadata_ext fa"; cases "contains_metadata_ext fb";
       simp add: file_flag_values)
  then show "canonical_file (file_info_merge_from fa fb)"
    using u merged_header [OF wf(1), of fb] by (simp add: canonical_file_def)
qed

lemma combine_file_merge_from:
  assumes "canonical_file fa" and "canonical_file fb" and "agreeing fa fb" and "fh_file_hash (metadata fa) = fh_file_hash (metadata fb)"
  shows "combine_file fa fb = file_info_merge_from fa fb"
proof -
  have wf: "wf_file_info fa" "wf_file_info fb" "length (segments fa) = length (segments fb)"
    using assms(1-3) by (simp_all add: canonical_file_def agreeing_def)
  have cmp: "compare_flag_superset (metadata fa) (metadata fb) =
    (if contains_verification fa = contains_verification fb \<and> contains_metadata_ext fa = contains_metadata_ext fb then Equal
     else if (contains_verification fb \<longrightarrow> contains_verification fa) \<and> (contains_metadata_ext fb \<longrightarrow> contains_metadata_ext fa) then SuperA
     else if (contains_verification fa \<longrightarrow> contains_verification fb) \<and> (contains_metadata_ext fa \<longrightarrow> contains_metadata_ext fb) then SuperB
     else Neither)"
    by (subst canonical_header [OF assms(1)], subst canonical_header [OF assms(2)])
      (cases "contains_verification fa"; cases "contains_verification fb"; cases "contains_metadata_ext fa"; cases "contains_metadata_ext fb";
       simp add: compare_flag_superset_def file_flag_values)
  note c = canonical_merges [OF assms(1,2) wf(3)] and u = file_info_merge_from_union [OF wf] and m = wf_merged_file [OF wf]
  show ?thesis
  proof (rule canonical_eqI)
    show "canonical_file (combine_file fa fb)" using c(1) assms(1,2) by (simp add: combine_file_def split: superset_result.split)
    show "canonical_file (file_info_merge_from fa fb)" by (rule c(2))
    show "fh_file_hash (metadata (combine_file fa fb)) = fh_file_hash (metadata (file_info_merge_from fa fb))"
      using u m(2) assms(4) by (simp add: combine_file_def split: superset_result.split)
    show "segments (combine_file fa fb) = segments (file_info_merge_from fa fb)"
      using u assms(3) by (simp add: combine_file_def merged_file_def agreeing_def split: superset_result.split)
    show "contains_verification (combine_file fa fb) = contains_verification (file_info_merge_from fa fb)"
      using u m(4) cmp by (auto simp: combine_file_def contains_verification_def split: superset_result.split if_splits)
    show "contains_metadata_ext (combine_file fa fb) = contains_metadata_ext (file_info_merge_from fa fb)"
      using u m(5) cmp by (auto simp: combine_file_def contains_metadata_ext_def split: superset_result.split if_splits)
    show "verification (combine_file fa fb) = verification (file_info_merge_from fa fb)"
      using u wf assms(3) cmp
      by (auto simp: combine_file_def merged_file_def agreeing_def wf_file_info_def split: superset_result.split if_splits)
    show "metadata_ext (combine_file fa fb) = metadata_ext (file_info_merge_from fa fb)"
      using u wf assms(3) cmp
      by (auto simp: combine_file_def merged_file_def agreeing_def wf_file_info_def split: superset_result.split if_splits)
  qed
qed

lemma merged_difference:
  assumes "storable a" and "storable b"
  shows "serialize_from srt ex (merged_shard SetDifference a b) = serialize_from srt ex (shard_difference a b)"
  using assms
  by (intro serialize_from_contents)
    (simp_all add: merged_shard_def shard_difference_def recalculate_shard_size_def merge_difference storable_def shard_inv_def)

lemma merged_union:
  assumes "storable a" and "storable b" and "compatible a b"
  shows "serialize_from srt ex (merged_shard SetUnion a b) = serialize_from srt ex (shard_union a b)"
proof (rule serialize_from_contents)
  have so: "bt_sorted (file_content a)" "bt_sorted (file_content b)" "bt_sorted (xorb_content a)" "bt_sorted (xorb_content b)"
    using assms(1,2) by (simp_all add: storable_def shard_inv_def)
  have "combine_file v w = file_info_merge_from v w"
    if "map_of (file_content a) h = Some v" "map_of (file_content b) h = Some w" for h v w
  proof (rule combine_file_merge_from)
    show "canonical_file v" "canonical_file w" "agreeing v w"
      using that assms(3) by (auto simp: compatible_def list_all_iff dest: map_of_SomeD)
    show "fh_file_hash (metadata v) = fh_file_hash (metadata w)" using that assms(1,2) by (simp add: storable_def shard_inv_def)
  qed
  then have "map_of (merge_maps combine_file SetUnion (file_content a) (file_content b)) h = map_of (union_files (file_content a) (file_content b)) h" for h
    using so by (simp add: map_of_merge_maps union_files_map bt_sorted_distinct split: option.split)
  then show "file_content (merged_shard SetUnion a b) = file_content (shard_union a b)"
    using so by (simp add: merged_shard_def shard_union_def recalculate_shard_size_def)
      (intro bt_sorted_ext merge_maps_sorted union_files_sorted ext, simp_all)
  have "v = w" if "map_of (xorb_content a) h = Some v" "map_of (xorb_content b) h = Some w" for h v w
    using that assms(3) by (simp add: compatible_def)
  then have "map_of (merge_maps (\<lambda>v w. v) SetUnion (xorb_content a) (xorb_content b)) h =
      map_of (fold (\<lambda>(k, v). bt_insert k v) (xorb_content b) (xorb_content a)) h" for h
    using so by (simp add: map_of_merge_maps fold_bt_insert_map bt_sorted_distinct split: option.split)
  then show "xorb_content (merged_shard SetUnion a b) = xorb_content (shard_union a b)"
    using so by (simp add: merged_shard_def shard_union_def recalculate_shard_size_def)
      (intro bt_sorted_ext merge_maps_sorted fold_bt_insert_sorted ext, simp_all)
qed

lemma compatible_sizes: "compatible a b \<Longrightarrow> storable a \<Longrightarrow> storable b \<Longrightarrow> same_sizes (file_content a) (file_content b)"
  unfolding same_sizes_def compatible_def storable_def shard_inv_def agreeing_def by (auto simp: bt_sorted_distinct)

text \<open>The hash, the info and the bytes of a shard file.\<close>

definition shard_file_of :: "keyed_hash \<Rightarrow> key_sort \<Rightarrow> mdb_in_memory_shard \<Rightarrow> merkle_hash \<times> mdb_shard_info \<times> bytes" where
  "shard_file_of kh srt mdb =
     (let (out, info) = serialize_from srt None mdb in (compute_data_hash kh out, info, out))"

text \<open>
  The property (C8): on the files of two shards in memory \<open>shard_file_difference\<close> always succeeds and writes
  exactly the file of the difference of the shards. \<open>shard_file_union\<close> writes exactly the file of their union
  if the shards agree on what both of them have, which is what the code assumes of shards of one store.
\<close>

theorem shard_file_ops_refine:
  assumes "storable a" and "storable b" and "key_sort_ok srt"
  shows "shard_file_difference kh srt (fst (serialize_from srt ea a)) (fst (serialize_from srt eb b)) =
      Some (Inr (shard_file_of kh srt (shard_difference a b))) \<and>
    (compatible a b \<longrightarrow>
      shard_file_union kh srt (fst (serialize_from srt ea a)) (fst (serialize_from srt eb b)) =
      Some (Inr (shard_file_of kh srt (shard_union a b))))"
  using shard_load_roundtrip [OF assms(1,3), of ea] shard_load_roundtrip [OF assms(2,3), of eb]
    set_operation_ok [OF assms, of SetDifference ea eb] set_operation_ok [OF assms, of SetUnion ea eb]
    merged_difference [OF assms(1,2)] merged_union [OF assms(1,2)] compatible_sizes [OF _ assms(1,2)]
  by (simp add: shard_file_difference_def shard_file_union_def shard_file_op_def shard_file_of_def case_prod_beta)

definition plain_shard :: mdb_in_memory_shard where
  "plain_shard = add_file_reconstruction_info demo_plain_info shard_default"

lemma plain_shard_contents: "file_content plain_shard = [(DataHash 1 2 3 4, demo_plain_info)]" "xorb_content plain_shard = []"
  by (simp_all add: plain_shard_def add_file_reconstruction_info_def shard_default_def) (simp add: demo_plain_info_def demo_file_info_def)

lemma plain_shard_storable: "storable plain_shard"
proof -
  have "shard_inv shard_default" by (simp add: shard_inv_def shard_default_def bt_sorted_def lookup_ok_def)
  then have "shard_inv plain_shard" unfolding plain_shard_def by (rule add_file_inv)
  moreover have "file_units demo_plain_info = 3" by code_simp
  ultimately show ?thesis
    by (simp add: storable_def plain_shard_contents wf_demo_plain_info file_section_units_def xorb_section_units_def)
qed

lemma plain_compatible: "compatible plain_shard demo_shard"
proof -
  have "canonical_file demo_plain_info"
    unfolding canonical_file_def
    by (intro conjI wf_demo_plain_info)
      (simp add: demo_plain_info_def demo_file_info_def file_header_new_def contains_verification_def contains_metadata_ext_def header_flags
        try_u32_def MDB_DEFAULT_FILE_FLAG_def)
  moreover have "agreeing demo_plain_info demo_file_info"
    by (simp add: agreeing_def demo_plain_info_def contains_verification_def contains_metadata_ext_def header_flags)
  ultimately show ?thesis by (simp add: compatible_def plain_shard_contents demo_shard_contents demo_canonical)
qed

theorem shard_file_ops_refine_witness:
  "shard_file_union (\<lambda>_ _. replicate 32 0) (sort_key fst) (shard_to_bytes (sort_key fst) plain_shard) (shard_to_bytes (sort_key fst) demo_shard) =
     Some (Inr (shard_file_of (\<lambda>_ _. replicate 32 0) (sort_key fst) (shard_union plain_shard demo_shard))) \<and>
   file_content (shard_difference plain_shard demo_shard) = [] \<and>
   shard_file_difference (\<lambda>_ _. replicate 32 0) (sort_key fst) (shard_to_bytes (sort_key fst) plain_shard) (shard_to_bytes (sort_key fst) demo_shard) =
     Some (Inr (shard_file_of (\<lambda>_ _. replicate 32 0) (sort_key fst) (shard_difference plain_shard demo_shard)))"
  using shard_file_ops_refine [OF plain_shard_storable demo_shard_storable key_sort_ok_example, of "\<lambda>_ _. replicate 32 0" None None] plain_compatible
  by (simp add: shard_to_bytes_def shard_difference_def recalculate_shard_size_def plain_shard_contents demo_shard_contents)

end
