(* ===== verification/Xorb_Object.thy ===== *)
theory Xorb_Object
  imports Chunk_Format File_Dedup
begin

text \<open>
  The xorb file, \<open>xet_core_structures/src/xorb_object/xorb_object_format.rs\<close>: the footer
  \<open>XorbObjectInfoV1\<close> with its hash and boundary sections and the older \<open>XorbObjectInfoV0\<close>,
  \<open>XorbObject\<close> with its range queries and its validation, the serialization of raw xorb data and the
  reconstruction of a footer from the chunks alone.

  A reader with \<open>Seek\<close> is the bytes of the file; a seek behind its start is an error. A counting reader
  is the difference of the lengths before and after. \<open>None\<close> is a panic. The alignment of a chunk in
  memory is the parameter \<open>na\<close>.
\<close>

section \<open>The footer\<close>

definition XORB_OBJECT_FORMAT_VERSION_V0 :: u8 where
  "XORB_OBJECT_FORMAT_VERSION_V0 = 0"

definition XORB_OBJECT_FORMAT_IDENT_HASHES :: bytes where
  "XORB_OBJECT_FORMAT_IDENT_HASHES = [88, 66, 76, 66, 72, 83, 72]"

definition XORB_OBJECT_FORMAT_IDENT_BOUNDARIES :: bytes where
  "XORB_OBJECT_FORMAT_IDENT_BOUNDARIES = [88, 66, 76, 66, 66, 78, 68]"

definition XORB_OBJECT_FORMAT_VERSION :: u8 where
  "XORB_OBJECT_FORMAT_VERSION = 1"

definition XORB_OBJECT_FORMAT_HASHES_VERSION :: u8 where
  "XORB_OBJECT_FORMAT_HASHES_VERSION = 0"

definition XORB_OBJECT_FORMAT_BOUNDARIES_VERSION_NO_UNPACKED_INFO :: u8 where
  "XORB_OBJECT_FORMAT_BOUNDARIES_VERSION_NO_UNPACKED_INFO = 0"

definition XORB_OBJECT_FORMAT_BOUNDARIES_VERSION :: u8 where
  "XORB_OBJECT_FORMAT_BOUNDARIES_VERSION = 1"

definition XORB_OBJECT_FORMAT_FOOTER_BUFFER_LEN :: nat where
  "XORB_OBJECT_FORMAT_FOOTER_BUFFER_LEN = 16"

definition XORB_OBJECT_FORMAT_NONCE_LEN :: nat where
  "XORB_OBJECT_FORMAT_NONCE_LEN = 4"

record xorb_object_info_v0 =
  v0_ident :: bytes
  v0_version :: u8
  v0_xorb_hash :: merkle_hash
  v0_num_chunks :: u32
  v0_chunk_boundary_offsets :: "u32 list"
  v0_chunk_hashes :: "merkle_hash list"
  v0_buffer :: bytes

definition v0_serialize :: "xorb_object_info_v0 \<Rightarrow> bytes" where
  "v0_serialize s =
     v0_ident s @ [v0_version s] @ as_bytes (v0_xorb_hash s) @ le_bytes 4 (v0_num_chunks s) @
     concat (map (le_bytes 4) (v0_chunk_boundary_offsets s)) @ concat (map as_bytes (v0_chunk_hashes s)) @ v0_buffer s"

text \<open>What follows the identifier and the version; the result is the info, the bytes read and the rest.\<close>

definition v0_deserialize_v0 :: "bytes \<Rightarrow> core_error + (xorb_object_info_v0 \<times> u32 \<times> bytes)" where
  "v0_deserialize_v0 rd =
     rbind (lift_io (read_hash rd)) (\<lambda>(h, rd1).
     rbind (lift_io (read_u32 rd1)) (\<lambda>(n, rd2).
     rbind (lift_io (read_n read_u32 (unat n) rd2)) (\<lambda>(offsets, rd3).
     rbind (lift_io (read_n read_hash (unat n) rd3)) (\<lambda>(hashes, rd4).
     rbind (lift_io (read_exact 16 rd4)) (\<lambda>(buf, rd5).
       Inr (\<lparr>v0_ident = XORB_OBJECT_FORMAT_IDENT, v0_version = XORB_OBJECT_FORMAT_VERSION_V0, v0_xorb_hash = h,
             v0_num_chunks = n, v0_chunk_boundary_offsets = offsets, v0_chunk_hashes = hashes, v0_buffer = buf\<rparr>,
            of_nat (length rd - length rd5), rd5))))))"

record xorb_object_info =
  xi_ident :: bytes
  xi_version :: u8
  xi_xorb_hash :: merkle_hash
  xi_ident_hash_section :: bytes
  xi_hashes_version :: u8
  xi_chunk_hashes :: "merkle_hash list"
  xi_ident_boundary_section :: bytes
  xi_boundaries_version :: u8
  xi_chunk_boundary_offsets :: "u32 list"
  xi_unpacked_chunk_offsets :: "u32 list"
  xi_num_chunks :: u32
  xi_hashes_section_offset_from_end :: u32
  xi_boundary_section_offset_from_end :: u32
  xi_nonce_buffer :: bytes

definition fill_in_boundary_offsets :: "xorb_object_info \<Rightarrow> xorb_object_info" where
  "fill_in_boundary_offsets s =
     (let b = of_nat (7 + 1 + 4 + length (xi_chunk_boundary_offsets s) * 4 + length (xi_unpacked_chunk_offsets s) * 4 +
                4 + 4 + 4 + 16) :: u32
      in s\<lparr>xi_boundary_section_offset_from_end := b,
           xi_hashes_section_offset_from_end := of_nat (7 + 1 + 4 + length (xi_chunk_hashes s) * 32) + b\<rparr>)"

definition info_default :: xorb_object_info where
  "info_default = fill_in_boundary_offsets
     \<lparr>xi_ident = XORB_OBJECT_FORMAT_IDENT, xi_version = XORB_OBJECT_FORMAT_VERSION, xi_xorb_hash = default_hash,
      xi_ident_hash_section = XORB_OBJECT_FORMAT_IDENT_HASHES, xi_hashes_version = XORB_OBJECT_FORMAT_HASHES_VERSION,
      xi_chunk_hashes = [], xi_ident_boundary_section = XORB_OBJECT_FORMAT_IDENT_BOUNDARIES,
      xi_boundaries_version = XORB_OBJECT_FORMAT_BOUNDARIES_VERSION, xi_chunk_boundary_offsets = [],
      xi_unpacked_chunk_offsets = [], xi_num_chunks = 0, xi_hashes_section_offset_from_end = 0,
      xi_boundary_section_offset_from_end = 0, xi_nonce_buffer = replicate 16 0\<rparr>"

definition set_uniqueness_nonce :: "bytes \<Rightarrow> xorb_object_info \<Rightarrow> xorb_object_info" where
  "set_uniqueness_nonce nonce s =
     s\<lparr>xi_nonce_buffer := nonce @ drop XORB_OBJECT_FORMAT_NONCE_LEN (xi_nonce_buffer s)\<rparr>"

definition uniqueness_nonce :: "xorb_object_info \<Rightarrow> bytes" where
  "uniqueness_nonce s = take XORB_OBJECT_FORMAT_NONCE_LEN (xi_nonce_buffer s)"

definition info_serialized_length :: "xorb_object_info \<Rightarrow> nat" where
  "info_serialized_length s =
     7 * 3 + 3 + 4 * 5 + 32 * length (xi_chunk_hashes s) + 16 + length (xi_chunk_boundary_offsets s) * 4 +
     length (xi_unpacked_chunk_offsets s) * 4 + 32"

text \<open>The bytes written and their number; an early return leaves the writer with a partial footer.\<close>

definition info_serialize :: "xorb_object_info \<Rightarrow> core_error + (bytes \<times> nat)" where
  "info_serialize s =
     (if unat (xi_num_chunks s) \<noteq> length (xi_chunk_hashes s) then Inl MalformedData
      else if unat (xi_num_chunks s) \<noteq> length (xi_chunk_boundary_offsets s) then Inl MalformedData
      else if unat (xi_num_chunks s) \<noteq> length (xi_unpacked_chunk_offsets s) then Inl MalformedData
      else
        let out = write_bytes (xi_ident s) @ write_u8 (xi_version s) @ write_hash (xi_xorb_hash s) @
                  write_bytes (xi_ident_hash_section s) @ write_u8 (xi_hashes_version s) @ write_u32 (xi_num_chunks s) @
                  concat (map write_hash (xi_chunk_hashes s)) @
                  write_bytes (xi_ident_boundary_section s) @ write_u8 (xi_boundaries_version s) @ write_u32 (xi_num_chunks s) @
                  write_u32s (xi_chunk_boundary_offsets s) @ write_u32s (xi_unpacked_chunk_offsets s) @
                  write_u32 (xi_num_chunks s) @ write_u32 (xi_hashes_section_offset_from_end s) @
                  write_u32 (xi_boundary_section_offset_from_end s) @ write_bytes (xi_nonce_buffer s)
        in Inr (out, length out))"

definition info_from_v0 :: "xorb_object_info_v0 \<Rightarrow> xorb_object_info" where
  "info_from_v0 src = fill_in_boundary_offsets
     \<lparr>xi_ident = v0_ident src, xi_version = XORB_OBJECT_FORMAT_VERSION, xi_xorb_hash = v0_xorb_hash src,
      xi_ident_hash_section = XORB_OBJECT_FORMAT_IDENT_HASHES, xi_hashes_version = XORB_OBJECT_FORMAT_HASHES_VERSION,
      xi_chunk_hashes = v0_chunk_hashes src, xi_ident_boundary_section = XORB_OBJECT_FORMAT_IDENT_BOUNDARIES,
      xi_boundaries_version = XORB_OBJECT_FORMAT_BOUNDARIES_VERSION_NO_UNPACKED_INFO,
      xi_chunk_boundary_offsets = v0_chunk_boundary_offsets src, xi_unpacked_chunk_offsets = [],
      xi_num_chunks = v0_num_chunks src, xi_hashes_section_offset_from_end = 0,
      xi_boundary_section_offset_from_end = 0, xi_nonce_buffer = v0_buffer src\<rparr>"

definition info_from_v0_with_unpacked_chunk_offsets :: "xorb_object_info_v0 \<Rightarrow> u32 list \<Rightarrow> xorb_object_info" where
  "info_from_v0_with_unpacked_chunk_offsets src unpacked = fill_in_boundary_offsets
     \<lparr>xi_ident = v0_ident src, xi_version = 1, xi_xorb_hash = v0_xorb_hash src,
      xi_ident_hash_section = XORB_OBJECT_FORMAT_IDENT_HASHES, xi_hashes_version = XORB_OBJECT_FORMAT_HASHES_VERSION,
      xi_chunk_hashes = v0_chunk_hashes src, xi_ident_boundary_section = XORB_OBJECT_FORMAT_IDENT_BOUNDARIES,
      xi_boundaries_version = XORB_OBJECT_FORMAT_BOUNDARIES_VERSION,
      xi_chunk_boundary_offsets = v0_chunk_boundary_offsets src, xi_unpacked_chunk_offsets = unpacked,
      xi_num_chunks = v0_num_chunks src, xi_hashes_section_offset_from_end = 0,
      xi_boundary_section_offset_from_end = 0, xi_nonce_buffer = replicate 16 0\<rparr>"

text \<open>The sections behind the xorb hash; \<open>rd\<close> starts at the hash section.\<close>

definition info_deserialize_sections ::
  "merkle_hash \<Rightarrow> bytes \<Rightarrow> core_error + (xorb_object_info \<times> bytes)" where
  "info_deserialize_sections h rd =
     rbind (lift_io (read_bytes 7 rd)) (\<lambda>(ident_hashes, rd1).
     if ident_hashes \<noteq> XORB_OBJECT_FORMAT_IDENT_HASHES then Inl MalformedData else
     rbind (lift_io (read_u8 rd1)) (\<lambda>(hashes_version, rd2).
     if hashes_version \<noteq> XORB_OBJECT_FORMAT_HASHES_VERSION then Inl MalformedData else
     rbind (lift_io (read_u32 rd2)) (\<lambda>(num_chunks_2, rd3).
     rbind (lift_io (read_n read_hash (unat num_chunks_2) rd3)) (\<lambda>(hashes, rd4).
     rbind (lift_io (read_bytes 7 rd4)) (\<lambda>(ident_boundaries, rd5).
     if ident_boundaries \<noteq> XORB_OBJECT_FORMAT_IDENT_BOUNDARIES then Inl MalformedData else
     rbind (lift_io (read_u8 rd5)) (\<lambda>(boundaries_version, rd6).
     if boundaries_version \<noteq> XORB_OBJECT_FORMAT_BOUNDARIES_VERSION then Inl MalformedData else
     rbind (lift_io (read_u32 rd6)) (\<lambda>(num_chunks_3, rd7).
     if num_chunks_2 \<noteq> num_chunks_3 then Inl MalformedData else
     rbind (lift_io (read_n read_u32 (unat num_chunks_3) rd7)) (\<lambda>(offsets, rd8).
     rbind (lift_io (read_n read_u32 (unat num_chunks_3) rd8)) (\<lambda>(unpacked, rd9).
     rbind (lift_io (read_u32 rd9)) (\<lambda>(n, rd10).
     if n \<noteq> num_chunks_2 then Inl MalformedData else
     rbind (lift_io (read_u32 rd10)) (\<lambda>(hashes_from_end, rd11).
     rbind (lift_io (read_u32 rd11)) (\<lambda>(boundary_from_end, rd12).
     rbind (lift_io (read_bytes 16 rd12)) (\<lambda>(nonce, rd13).
     if length rd - length rd13 \<noteq> unat hashes_from_end then Inl MalformedData
     else if length rd4 - length rd13 \<noteq> unat boundary_from_end then Inl MalformedData
     else Inr (\<lparr>xi_ident = XORB_OBJECT_FORMAT_IDENT, xi_version = XORB_OBJECT_FORMAT_VERSION, xi_xorb_hash = h,
         xi_ident_hash_section = ident_hashes, xi_hashes_version = hashes_version, xi_chunk_hashes = hashes,
         xi_ident_boundary_section = ident_boundaries, xi_boundaries_version = boundaries_version,
         xi_chunk_boundary_offsets = offsets, xi_unpacked_chunk_offsets = unpacked, xi_num_chunks = n,
         xi_hashes_section_offset_from_end = hashes_from_end, xi_boundary_section_offset_from_end = boundary_from_end,
         xi_nonce_buffer = nonce\<rparr>, rd13))))))))))))))"

text \<open>The info, the number of bytes read and the rest of the reader.\<close>

definition info_deserialize :: "bytes \<Rightarrow> core_error + (xorb_object_info \<times> u32 \<times> bytes)" where
  "info_deserialize rd =
     rbind (lift_io (read_bytes 7 rd)) (\<lambda>(ident, rd1).
     if ident \<noteq> XORB_OBJECT_FORMAT_IDENT then Inl MalformedData else
     rbind (lift_io (read_u8 rd1)) (\<lambda>(version, rd2).
     if version = XORB_OBJECT_FORMAT_VERSION_V0 then
       rbind (v0_deserialize_v0 rd2) (\<lambda>(v0, _, rd3). Inr (info_from_v0 v0, of_nat (length rd - length rd3), rd3))
     else if version \<noteq> XORB_OBJECT_FORMAT_VERSION then Inl MalformedData
     else
       rbind (lift_io (read_hash rd2)) (\<lambda>(h, rd3).
       rbind (info_deserialize_sections h rd3) (\<lambda>(s, rd4). Inr (s, of_nat (length rd - length rd4), rd4)))))"

text \<open>\<open>SeekFrom::End(-n)\<close> on the bytes of a file.\<close>

definition seek_end :: "nat \<Rightarrow> bytes \<Rightarrow> core_error + bytes" where
  "seek_end n bs = (if length bs < n then Inl (Io OtherIo) else Inr (drop (length bs - n) bs))"

definition info_deserialize_only_boundaries_section :: "bytes \<Rightarrow> core_error + (xorb_object_info \<times> u32)" where
  "info_deserialize_only_boundaries_section bs =
     rbind (seek_end (4 + 16 + 4) bs) (\<lambda>rd0.
     rbind (lift_io (read_u32 rd0)) (\<lambda>(from_end, _).
     rbind (seek_end (unat (from_end + 4)) bs) (\<lambda>rd.
     rbind (lift_io (read_bytes 7 rd)) (\<lambda>(ident_boundaries, rd1).
     if ident_boundaries \<noteq> XORB_OBJECT_FORMAT_IDENT_BOUNDARIES then Inl MalformedData else
     rbind (lift_io (read_u8 rd1)) (\<lambda>(boundaries_version, rd2).
     if boundaries_version \<noteq> XORB_OBJECT_FORMAT_BOUNDARIES_VERSION then Inl MalformedData else
     rbind (lift_io (read_u32 rd2)) (\<lambda>(num_chunks_b, rd3).
     rbind (lift_io (read_u32s (unat num_chunks_b) rd3)) (\<lambda>(offsets, rd4).
     rbind (lift_io (read_u32s (unat num_chunks_b) rd4)) (\<lambda>(unpacked, rd5).
     rbind (lift_io (read_u32 rd5)) (\<lambda>(n, rd6).
     if n \<noteq> num_chunks_b then Inl MalformedData else
     rbind (lift_io (read_u32 rd6)) (\<lambda>(hashes_from_end, rd7).
     rbind (lift_io (read_u32 rd7)) (\<lambda>(boundary_from_end, rd8).
     rbind (lift_io (read_bytes 16 rd8)) (\<lambda>(nonce, rd9).
     if length rd - length rd9 \<noteq> unat boundary_from_end then Inl MalformedData
     else Inr (info_default\<lparr>xi_ident_boundary_section := ident_boundaries, xi_boundaries_version := boundaries_version,
         xi_chunk_boundary_offsets := offsets, xi_unpacked_chunk_offsets := unpacked, xi_num_chunks := n,
         xi_hashes_section_offset_from_end := hashes_from_end, xi_boundary_section_offset_from_end := boundary_from_end,
         xi_nonce_buffer := nonce\<rparr>, of_nat (length rd - length rd9))))))))))))))"

definition has_chunk_hashes :: "xorb_object_info \<Rightarrow> bool" where
  "has_chunk_hashes s \<longleftrightarrow> xi_chunk_hashes s \<noteq> []"

section \<open>The xorb object\<close>

record xorb_object =
  xo_info :: xorb_object_info
  xo_info_length :: u32

definition get_info_length :: "bytes \<Rightarrow> core_error + u32" where
  "get_info_length bs =
     rbind (seek_end 4 bs) (\<lambda>rd. rbind (lift_io (read_exact 4 rd)) (\<lambda>(buf, _). Inr (from_le buf)))"

text \<open>The object and the position of the reader, as the bytes that remain.\<close>

definition xorb_object_deserialize :: "bytes \<Rightarrow> core_error + (xorb_object \<times> bytes)" where
  "xorb_object_deserialize bs =
     rbind (get_info_length bs) (\<lambda>info_length.
     rbind (seek_end (4 + unat info_length) bs) (\<lambda>rd.
     rbind (info_deserialize rd) (\<lambda>(info, total_bytes_read, rd).
       if total_bytes_read \<noteq> info_length then Inl MalformedData
       else Inr (\<lparr>xo_info = info, xo_info_length = info_length\<rparr>, rd))))"

definition serialize_given_info :: "xorb_object_info \<Rightarrow> core_error + (bytes \<times> xorb_object \<times> nat)" where
  "serialize_given_info info =
     rbind (info_serialize info) (\<lambda>(out, n).
       let info_length = of_nat n :: u32
       in Inr (out @ write_u32 info_length, \<lparr>xo_info = info, xo_info_length = info_length\<rparr>, unat info_length + 4))"

definition xorb_object_from_info :: "xorb_object_info \<Rightarrow> xorb_object" where
  "xorb_object_from_info info = \<lparr>xo_info = info, xo_info_length = of_nat (info_serialized_length info)\<rparr>"

definition overwrite_uniqueness_nonce :: "bytes \<Rightarrow> bytes \<Rightarrow> core_error + bytes" where
  "overwrite_uniqueness_nonce serialized nonce =
     (let len = length serialized in
      if len < XORB_OBJECT_FORMAT_FOOTER_BUFFER_LEN + 4 then Inl MalformedData
      else
        let info_length = unat (from_le (drop (len - 4) serialized) :: u32) in
        if info_length < XORB_OBJECT_FORMAT_FOOTER_BUFFER_LEN \<or> len < info_length + 4 then Inl MalformedData
        else
          let nonce_start = len - 4 - XORB_OBJECT_FORMAT_FOOTER_BUFFER_LEN
          in Inr (take nonce_start serialized @ nonce @ drop (nonce_start + XORB_OBJECT_FORMAT_NONCE_LEN) serialized))"

definition validate_xorb_object_info :: "xorb_object_info \<Rightarrow> core_error + unit" where
  "validate_xorb_object_info s =
     (if xi_num_chunks s = 0 then Inl MalformedData
      else if xi_num_chunks s \<noteq> of_nat (length (xi_chunk_boundary_offsets s)) \<or>
              xi_num_chunks s \<noteq> of_nat (length (xi_chunk_hashes s)) \<or>
              (xi_boundaries_version s = XORB_OBJECT_FORMAT_BOUNDARIES_VERSION \<and>
               xi_num_chunks s \<noteq> of_nat (length (xi_unpacked_chunk_offsets s)))
      then Inl MalformedData
      else if xi_xorb_hash s = default_hash then Inl MalformedData
      else Inr ())"

text \<open>An index into a vector; \<open>None\<close> is the panic.\<close>

definition index :: "'a list \<Rightarrow> nat \<Rightarrow> 'a option" where
  "index xs i = (if i < length xs then Some (xs ! i) else None)"

definition generate_chunk_range_hash ::
  "keyed_hash \<Rightarrow> xorb_object_info \<Rightarrow> u32 \<Rightarrow> u32 \<Rightarrow> core_error + merkle_hash" where
  "generate_chunk_range_hash kh s a b =
     rbind (validate_xorb_object_info s) (\<lambda>_.
       if b \<le> a \<or> xi_num_chunks s < b then Inl InvalidArguments
       else Inr (range_hash_from_chunks kh (slice (xi_chunk_hashes s) (unat a) (unat b))))"

definition get_contents_length :: "xorb_object_info \<Rightarrow> core_error + u32" where
  "get_contents_length s =
     rbind (validate_xorb_object_info s) (\<lambda>_.
       if xi_chunk_boundary_offsets s = [] then Inl MalformedData else Inr (last (xi_chunk_boundary_offsets s)))"

lemma deserialize_chunk_header_shorter: "deserialize_chunk_header rd = Inr (h, rd') \<Longrightarrow> length rd' < length rd"
  using deserialize_chunk_header_valid(5,6) [of rd h rd'] by simp

lemma deserialize_chunk_shorter:
  "deserialize_chunk dec rd = Inr (out, n, u, rest) \<Longrightarrow> length rest < length rd"
  unfolding deserialize_chunk_def deserialize_chunk_to_writer_def
  by (fastforce simp: rbind_Inr_iff dest: deserialize_with_header_shorter deserialize_chunk_header_shorter split: prod.splits)

function get_chunk_contents :: "lz4_dec \<Rightarrow> bytes \<Rightarrow> bytes \<Rightarrow> core_error + bytes" where
  "get_chunk_contents dec rd res =
     (if rd = [] then Inr res
      else case deserialize_chunk dec rd of
             Inl e \<Rightarrow> Inl e
           | Inr (bs, _, _, rest) \<Rightarrow> get_chunk_contents dec rest (res @ bs))"
  by pat_completeness auto
termination
  by (relation "measure (\<lambda>(dec, rd, res). length rd)") (auto dest!: deserialize_chunk_shorter)

declare get_chunk_contents.simps [simp del]

definition get_range :: "lz4_dec \<Rightarrow> xorb_object_info \<Rightarrow> bytes \<Rightarrow> u32 \<Rightarrow> u32 \<Rightarrow> core_error + bytes" where
  "get_range dec s bs byte_start byte_end =
     (if byte_end < byte_start then Inl InvalidRange
      else
        rbind (validate_xorb_object_info s) (\<lambda>_.
        rbind (get_contents_length s) (\<lambda>contents.
          let e = min byte_end contents in
          rbind (lift_io (read_exact (unat (e - byte_start)) (drop (unat byte_start) bs))) (\<lambda>(chunk_data, _).
            get_chunk_contents dec chunk_data []))))"

definition get_all_bytes :: "lz4_dec \<Rightarrow> xorb_object_info \<Rightarrow> bytes \<Rightarrow> core_error + bytes" where
  "get_all_bytes dec s bs =
     rbind (validate_xorb_object_info s) (\<lambda>_.
     rbind (get_contents_length s) (\<lambda>n. get_range dec s bs 0 n))"

definition get_byte_offset :: "xorb_object_info \<Rightarrow> u32 \<Rightarrow> u32 \<Rightarrow> core_error + (u32 \<times> u32)" where
  "get_byte_offset s a b =
     rbind (validate_xorb_object_info s) (\<lambda>_.
       if b \<le> a \<or> xi_num_chunks s < b then Inl InvalidArguments
       else Inr (if a = 0 then 0 else xi_chunk_boundary_offsets s ! (unat a - 1), xi_chunk_boundary_offsets s ! (unat b - 1)))"

definition get_bytes_by_chunk_range ::
  "lz4_dec \<Rightarrow> xorb_object_info \<Rightarrow> bytes \<Rightarrow> u32 \<Rightarrow> u32 \<Rightarrow> core_error + bytes" where
  "get_bytes_by_chunk_range dec s bs a b =
     rbind (get_byte_offset s a b) (\<lambda>(byte_start, byte_end). get_range dec s bs byte_start byte_end)"

definition uncompressed_chunk_length :: "xorb_object_info \<Rightarrow> u32 \<Rightarrow> core_error + u32" where
  "uncompressed_chunk_length s i =
     rbind (validate_xorb_object_info s) (\<lambda>_.
       if length (xi_unpacked_chunk_offsets s) \<le> unat i then Inl InvalidArguments
       else Inr (xi_unpacked_chunk_offsets s ! unat i -
                 (if unat i = 0 then 0 else xi_unpacked_chunk_offsets s ! (unat i - 1))))"

text \<open>An index behind the unpacked offsets panics.\<close>

definition uncompressed_range_length :: "xorb_object_info \<Rightarrow> u32 \<Rightarrow> u32 \<Rightarrow> (core_error + u32) option" where
  "uncompressed_range_length s a b =
     (case validate_xorb_object_info s of
        Inl e \<Rightarrow> Some (Inl e)
      | Inr _ \<Rightarrow>
          if b < a \<or> xi_num_chunks s < b \<or> xi_num_chunks s \<le> a then Some (Inl InvalidArguments)
          else if a = b then Some (Inr 0)
          else
            Option.bind (if a = 0 then Some 0 else index (xi_unpacked_chunk_offsets s) (unat a - 1)) (\<lambda>before_start.
            Option.bind (index (xi_unpacked_chunk_offsets s) (unat b - 1)) (\<lambda>incl_end.
              Some (Inr (incl_end - before_start)))))"

fun chunk_hash_sizes_from :: "xorb_object_info \<Rightarrow> nat list \<Rightarrow> core_error + (merkle_hash \<times> u64) list" where
  "chunk_hash_sizes_from s [] = Inr []"
| "chunk_hash_sizes_from s (i # is) =
     rbind (uncompressed_chunk_length s (of_nat i)) (\<lambda>size.
     rbind (chunk_hash_sizes_from s is) (\<lambda>rest. Inr ((xi_chunk_hashes s ! i, ucast size) # rest)))"

definition chunk_hash_sizes :: "xorb_object_info \<Rightarrow> u32 \<Rightarrow> u32 \<Rightarrow> core_error + (merkle_hash \<times> u64) list" where
  "chunk_hash_sizes s a b =
     rbind (validate_xorb_object_info s) (\<lambda>_.
       if xi_num_chunks s < b \<or> b < a then Inl InvalidArguments
       else chunk_hash_sizes_from s [unat a..<unat b])"

section \<open>Validation\<close>

definition ok_for_format_error :: "core_error + 'a \<Rightarrow> core_error + 'a option" where
  "ok_for_format_error r = (case r of Inr v \<Rightarrow> Inr (Some v) | Inl e \<Rightarrow> if e = MalformedData then Inr None else Inl e)"

text \<open>
  The loop over the chunks from \<open>idx\<close> on: the hashes and lengths found, the compressed length so far
  and what remains of the reader, or a rejection. The remaining number of chunks is the first argument.
\<close>

fun validate_chunks ::
  "nat \<Rightarrow> keyed_hash \<Rightarrow> lz4_dec \<Rightarrow> xorb_object_info \<Rightarrow> bytes \<Rightarrow> nat \<Rightarrow> u32 \<Rightarrow> u32 \<Rightarrow> u32 \<Rightarrow> node list \<Rightarrow> bytes \<Rightarrow>
   (core_error + (node list \<times> u32 \<times> bytes) option) option" where
  "validate_chunks 0 kh dec s bs idx start cumulative unpacked nodes rd = Some (Inr (Some (nodes, cumulative, rd)))"
| "validate_chunks (Suc k) kh dec s bs idx start cumulative unpacked nodes rd =
     (case ok_for_format_error (deserialize_chunk dec (drop (unat start) bs)) of
        Inl e \<Rightarrow> Some (Inl e)
      | Inr None \<Rightarrow> Some (Inr None)
      | Inr (Some (out, compressed_len, uncompressed_len, rd)) \<Rightarrow>
          let h = compute_data_hash kh out;
              nodes = nodes @ [(h, ucast uncompressed_len)];
              cumulative = cumulative + of_nat compressed_len;
              unpacked = unpacked + uncompressed_len in
          Option.bind (index (xi_chunk_hashes s) idx) (\<lambda>stored.
          if stored \<noteq> h then Some (Inr None)
          else
            Option.bind (index (xi_chunk_boundary_offsets s) idx) (\<lambda>boundary.
            if start + of_nat compressed_len \<noteq> boundary then Some (Inr None)
            else if xi_boundaries_version s = XORB_OBJECT_FORMAT_BOUNDARIES_VERSION then
              Option.bind (index (xi_unpacked_chunk_offsets s) idx) (\<lambda>off.
                if unpacked \<noteq> off then Some (Inr None)
                else validate_chunks k kh dec s bs (Suc idx) boundary cumulative unpacked nodes rd)
            else validate_chunks k kh dec s bs (Suc idx) boundary cumulative unpacked nodes rd)))"

definition validate_xorb_object ::
  "keyed_hash \<Rightarrow> lz4_dec \<Rightarrow> bytes \<Rightarrow> merkle_hash \<Rightarrow> (core_error + xorb_object option) option" where
  "validate_xorb_object kh dec bs hash_arg =
     (case ok_for_format_error (xorb_object_deserialize bs) of
        Inl e \<Rightarrow> Some (Inl e)
      | Inr None \<Rightarrow> Some (Inr None)
      | Inr (Some (xorb, rd)) \<Rightarrow>
          (case validate_chunks (unat (xi_num_chunks (xo_info xorb))) kh dec (xo_info xorb) bs 0 0 0 0 [] rd of
             None \<Rightarrow> None
           | Some (Inl e) \<Rightarrow> Some (Inl e)
           | Some (Inr None) \<Rightarrow> Some (Inr None)
           | Some (Inr (Some (nodes, cumulative, rd))) \<Rightarrow>
               let cur_position = of_nat (length bs - length rd) :: u32;
                   expected_from_end = of_nat (length bs) - xo_info_length xorb - 4;
                   h = xorb_hash kh nodes in
               if cur_position \<noteq> cumulative \<or> cur_position \<noteq> expected_from_end then Some (Inr None)
               else if h \<noteq> hash_arg \<or> h \<noteq> xi_xorb_hash (xo_info xorb) then Some (Inr None)
               else Some (Inr (Some xorb))))"

section \<open>Serializing raw xorb data\<close>

record serialized_xorb_object =
  sx_serialized_data :: bytes
  sx_hash :: merkle_hash
  sx_raw_num_bytes :: u64
  sx_num_chunks :: nat
  sx_footer_start :: "u64 option"

text \<open>Appending chunks under one scheme: the data and the boundary behind each chunk.\<close>

fun append_chunks ::
  "(u32 list \<Rightarrow> bool) \<Rightarrow> (bytes \<Rightarrow> nat) \<Rightarrow> lz4_enc \<Rightarrow> compression_scheme \<Rightarrow> bytes list \<Rightarrow> bytes \<Rightarrow> u32 list \<Rightarrow>
   core_error + (bytes \<times> u32 list)" where
  "append_chunks rec na enc scheme [] out offsets = Inr (out, offsets)"
| "append_chunks rec na enc scheme (c # cs) out offsets =
     rbind (serialize_chunk rec (na c) enc c scheme) (\<lambda>(ser, _).
       append_chunks rec na enc scheme cs (out @ ser) (offsets @ [of_nat (length (out @ ser))]))"

text \<open>The blocks of one file; the scheme is chosen anew at the start of each block.\<close>

function append_blocks ::
  "(u32 list \<Rightarrow> bool) \<Rightarrow> (bytes \<Rightarrow> nat) \<Rightarrow> lz4_enc \<Rightarrow> nat \<Rightarrow> bytes list \<Rightarrow> nat \<Rightarrow> nat \<Rightarrow> bytes \<Rightarrow> u32 list \<Rightarrow>
   (core_error + (bytes \<times> u32 list)) option" where
  "append_blocks rec na enc retest cs s_idx end_idx out offsets =
     (if end_idx \<le> s_idx then Some (Inr (out, offsets))
      else if retest = 0 then None
      else
        let n_idx = min (s_idx + retest) end_idx in
        if length cs \<le> s_idx \<or> length cs < n_idx then None
        else
          let scheme = choose_from_data rec (na (cs ! s_idx)) (cs ! s_idx) in
          case append_chunks rec na enc scheme (slice cs s_idx n_idx) out offsets of
            Inl e \<Rightarrow> Some (Inl e)
          | Inr (out, offsets) \<Rightarrow> append_blocks rec na enc retest cs n_idx end_idx out offsets)"
  by pat_completeness auto
termination
  by (relation "measure (\<lambda>(rec, na, enc, retest, cs, s_idx, end_idx, out, offsets). end_idx - s_idx)") auto

declare append_blocks.simps [simp del]

fun append_files ::
  "(u32 list \<Rightarrow> bool) \<Rightarrow> (bytes \<Rightarrow> nat) \<Rightarrow> lz4_enc \<Rightarrow> nat \<Rightarrow> bytes list \<Rightarrow> nat list \<Rightarrow> bytes \<Rightarrow> u32 list \<Rightarrow>
   (core_error + (bytes \<times> u32 list)) option" where
  "append_files rec na enc retest cs [] out offsets = Some (Inr (out, offsets))"
| "append_files rec na enc retest cs (start # starts) out offsets =
     (case append_blocks rec na enc retest cs start (case starts of [] \<Rightarrow> length cs | e # _ \<Rightarrow> e) out offsets of
        None \<Rightarrow> None
      | Some (Inl e) \<Rightarrow> Some (Inl e)
      | Some (Inr (out, offsets)) \<Rightarrow> append_files rec na enc retest cs starts out offsets)"

definition from_xorb_with_compression ::
  "(u32 list \<Rightarrow> bool) \<Rightarrow> (bytes \<Rightarrow> nat) \<Rightarrow> lz4_enc \<Rightarrow> raw_xorb_data \<Rightarrow> compression_scheme \<Rightarrow> bool \<Rightarrow> nat \<Rightarrow>
   (core_error + serialized_xorb_object) option" where
  "from_xorb_with_compression rec na enc x scheme serialize_footer retest_interval =
     (let num_chunks = length (rx_data x);
          cab = chunks_and_boundaries (rx_xorb_info x);
          info = info_default\<lparr>xi_xorb_hash := raw_xorb_hash x, xi_num_chunks := of_nat (length cab),
                   xi_chunk_hashes := map fst cab, xi_unpacked_chunk_offsets := map snd cab\<rparr>;
          retest = (if 0 < retest_interval then retest_interval else num_chunks)
      in case (if scheme = Auto \<and> num_chunks \<noteq> 0
               then append_files rec na enc retest (rx_data x) (rx_file_boundaries x) [] []
               else Some (append_chunks rec na enc scheme (rx_data x) [] [])) of
           None \<Rightarrow> None
         | Some (Inl e) \<Rightarrow> Some (Inl e)
         | Some (Inr (out, offsets)) \<Rightarrow>
             let info = fill_in_boundary_offsets (info\<lparr>xi_chunk_boundary_offsets := offsets\<rparr>);
                 result = (\<lambda>out footer_start. \<lparr>sx_serialized_data = out, sx_hash = raw_xorb_hash x,
                   sx_raw_num_bytes = of_nat (raw_xorb_num_bytes x), sx_num_chunks = num_chunks, sx_footer_start = footer_start\<rparr>)
             in Some (if serialize_footer
                      then rbind (serialize_given_info info) (\<lambda>(footer, _, _).
                             Inr (result (out @ footer) (Some (of_nat (length out)))))
                      else Inr (result out None)))"

text \<open>The name of a scheme in the configuration, on ASCII strings.\<close>

definition str_trim :: "string \<Rightarrow> string" where
  "str_trim s =
     (let white = (\<lambda>c. (of_char c :: nat) \<in> {9, 10, 11, 12, 13, 32})
      in rev (dropWhile white (rev (dropWhile white s))))"

definition str_to_lowercase :: "string \<Rightarrow> string" where
  "str_to_lowercase = map (\<lambda>c. let n = of_char c :: nat in if 65 \<le> n \<and> n \<le> 90 then char_of (n + 32) else c)"

definition scheme_from_str :: "string \<Rightarrow> core_error + compression_scheme" where
  "scheme_from_str s =
     (let s = str_to_lowercase (str_trim s) in
      if s = [] \<or> s = ''auto'' then Inr Auto
      else if s = ''none'' then Inr Scheme_None
      else if s = ''lz4'' then Inr LZ4
      else if s = ''bg4-lz4'' then Inr ByteGrouping4LZ4
      else Inl MalformedData)"

definition from_xorb ::
  "(u32 list \<Rightarrow> bool) \<Rightarrow> (bytes \<Rightarrow> nat) \<Rightarrow> lz4_enc \<Rightarrow> raw_xorb_data \<Rightarrow> bool \<Rightarrow> string \<Rightarrow> nat \<Rightarrow>
   (core_error + serialized_xorb_object) option" where
  "from_xorb rec na enc x serialize_footer compression_policy retest_interval =
     (case scheme_from_str compression_policy of
        Inl e \<Rightarrow> Some (Inl e)
      | Inr scheme \<Rightarrow> from_xorb_with_compression rec na enc x scheme serialize_footer retest_interval)"

section \<open>Reconstruction of the footer\<close>

text \<open>The loop over the chunks: the bytes written, the nodes found and the info so far.\<close>

function reconstruct_loop ::
  "keyed_hash \<Rightarrow> lz4_dec \<Rightarrow> bytes \<Rightarrow> bytes \<Rightarrow> node list \<Rightarrow> xorb_object_info \<Rightarrow>
   core_error + (bytes \<times> node list \<times> xorb_object_info)" where
  "reconstruct_loop kh dec rd out nodes info =
     (if rd = [] then Inr (out, nodes, info)
      else case deserialize_chunk_header rd of
        Inl e \<Rightarrow> if e = ChunkHeaderParse then Inr (out, nodes, info) else Inl e
      | Inr (h, rd1) \<Rightarrow>
          let n = unat (get_compressed_length h) in
          if length rd1 < n then Inl MalformedData
          else
            let compressed = take n rd1 in
            case rbind (get_compression_scheme h) (\<lambda>scheme.
                   case decompress_from_slice dec scheme compressed of Inl _ \<Rightarrow> Inl MalformedData | Inr bs \<Rightarrow> Inr bs) of
              Inl e \<Rightarrow> Inl e
            | Inr bs \<Rightarrow>
                let hash_c = compute_data_hash kh bs;
                    last_or_0 = (\<lambda>xs. if xs = [] then 0 else last xs);
                    info = info\<lparr>xi_chunk_hashes := xi_chunk_hashes info @ [hash_c],
                             xi_chunk_boundary_offsets := xi_chunk_boundary_offsets info @
                               [last_or_0 (xi_chunk_boundary_offsets info) + of_nat (XORB_CHUNK_HEADER_LENGTH + n)],
                             xi_unpacked_chunk_offsets := xi_unpacked_chunk_offsets info @
                               [last_or_0 (xi_unpacked_chunk_offsets info) + of_nat (length bs)]\<rparr>
                in reconstruct_loop kh dec (drop n rd1) (out @ write_chunk_header h @ compressed)
                     (nodes @ [(hash_c, of_nat (length bs))]) info)"
  by pat_completeness auto
termination
  by (relation "measure (\<lambda>(kh, dec, rd, out, nodes, info). length rd)") (auto dest!: deserialize_chunk_header_shorter)

declare reconstruct_loop.simps [simp del]

text \<open>The bytes written, the object and the computed hash.\<close>

definition reconstruct_xorb_with_footer ::
  "keyed_hash \<Rightarrow> lz4_dec \<Rightarrow> bytes \<Rightarrow> core_error + (bytes \<times> xorb_object \<times> merkle_hash)" where
  "reconstruct_xorb_with_footer kh dec raw_data =
     rbind (reconstruct_loop kh dec raw_data [] [] info_default) (\<lambda>(out, nodes, info).
       let computed_hash = xorb_hash kh nodes;
           info = fill_in_boundary_offsets (info\<lparr>xi_xorb_hash := computed_hash, xi_num_chunks := of_nat (length nodes)\<rparr>)
       in rbind (serialize_given_info info) (\<lambda>(footer, obj, _). Inr (out @ footer, obj, computed_hash)))"

end
