(* ===== verification/Xorb_Object_Correct.thy ===== *)
theory Xorb_Object_Correct
  imports Xorb_Object File_Dedup_Correct
begin

text \<open>
  Correctness of the xorb file. A serialized xorb is a sequence of pieces, one for each chunk, and a
  footer. The footer is read back, any range of chunks is read back as its data, validation accepts the
  file, and the footer can be rebuilt from the pieces alone.
\<close>

section \<open>The pieces of a serialized xorb\<close>

definition chunk_piece :: "lz4_enc \<Rightarrow> bytes \<Rightarrow> bytes \<Rightarrow> bool" where
  "chunk_piece enc c ser \<longleftrightarrow> (\<exists>rec na s n. serialize_chunk rec na enc c s = Inr (ser, n))"

lemma chunk_pieceI: "serialize_chunk rec na enc c s = Inr (ser, n) \<Longrightarrow> chunk_piece enc c ser"
  unfolding chunk_piece_def by blast

lemma append_chunks_pieces:
  "append_chunks rec na enc scheme cs out offs = Inr (out', offs') \<Longrightarrow>
     \<exists>sers. list_all2 (chunk_piece enc) cs sers \<and> out' = out @ concat sers \<and>
       offs' = offs @ chunk_indices (of_nat (length out)) sers"
proof (induction cs arbitrary: out offs)
  case (Cons c cs)
  obtain ser n where ser: "serialize_chunk rec (na c) enc c scheme = Inr (ser, n)"
    and rest: "append_chunks rec na enc scheme cs (out @ ser) (offs @ [of_nat (length (out @ ser))]) = Inr (out', offs')"
    using Cons.prems by (auto simp: rbind_Inr_iff)
  from Cons.IH [OF rest] obtain sers where "list_all2 (chunk_piece enc) cs sers" "out' = (out @ ser) @ concat sers"
    "offs' = (offs @ [of_nat (length (out @ ser))]) @ chunk_indices (of_nat (length (out @ ser))) sers"
    by blast
  then show ?case
    using chunk_pieceI [OF ser] by (intro exI [of _ "ser # sers"]) simp
qed simp

lemma pieces_join:
  assumes "list_all2 (chunk_piece enc) cs sers" and "list_all2 (chunk_piece enc) ds sers'"
    and "o1 = out @ concat sers" and "f1 = offs @ chunk_indices (of_nat (length out)) sers"
    and "o2 = o1 @ concat sers'" and "f2 = f1 @ chunk_indices (of_nat (length o1)) sers'"
  shows "\<exists>ps. list_all2 (chunk_piece enc) (cs @ ds) ps \<and> o2 = out @ concat ps \<and>
    f2 = offs @ chunk_indices (of_nat (length out)) ps"
  using assms by (intro exI [of _ "sers @ sers'"]) (simp add: list_all2_appendI chunk_indices_append)

lemma append_blocks_pieces:
  "append_blocks rec na enc retest cs a b out offs = Some (Inr (out', offs')) \<Longrightarrow> a \<le> b \<Longrightarrow>
     \<exists>sers. list_all2 (chunk_piece enc) (slice cs a b) sers \<and> out' = out @ concat sers \<and>
       offs' = offs @ chunk_indices (of_nat (length out)) sers"
proof (induction "b - a" arbitrary: a out offs rule: less_induct)
  case less
  show ?case
  proof (cases "b = a")
    case True
    then show ?thesis using less.prems by (simp add: append_blocks.simps [of rec na enc retest cs a a] slice_def)
  next
    case False
    let ?n = "min (a + retest) b"
    have ab: "a < b" using False less.prems(2) by simp
    have r: "retest \<noteq> 0"
      using less.prems(1) ab by (auto simp: append_blocks.simps [of rec na enc retest cs a b] split: if_splits)
    obtain o1 f1 where o1: "append_chunks rec na enc (choose_from_data rec (na (cs ! a)) (cs ! a)) (slice cs a ?n) out offs = Inr (o1, f1)"
      and rest: "append_blocks rec na enc retest cs ?n b o1 f1 = Some (Inr (out', offs'))"
      using less.prems(1) ab r
      by (auto simp: append_blocks.simps [of rec na enc retest cs a b] Let_def split: sum.splits if_splits)
    from append_chunks_pieces [OF o1] obtain sers where s: "list_all2 (chunk_piece enc) (slice cs a ?n) sers"
      "o1 = out @ concat sers" "f1 = offs @ chunk_indices (of_nat (length out)) sers" by blast
    have "b - ?n < b - a" "?n \<le> b" using ab r by simp_all
    from less.hyps [OF this(1) rest this(2)] obtain sers' where
      "list_all2 (chunk_piece enc) (slice cs ?n b) sers'" "out' = o1 @ concat sers'"
      "offs' = f1 @ chunk_indices (of_nat (length o1)) sers'"
      by blast
    from pieces_join [OF s(1) this(1) s(2,3) this(2,3)] show ?thesis
      using slice_split [of a ?n b cs] ab by simp
  qed
qed

text \<open>The starts of the files in a xorb: increasing and inside it.\<close>

definition boundaries_ok :: "nat list \<Rightarrow> nat \<Rightarrow> bool" where
  "boundaries_ok starts n \<longleftrightarrow> sorted starts \<and> list_all (\<lambda>i. i \<le> n) starts"

lemma append_files_pieces:
  "append_files rec na enc retest cs starts out offs = Some (Inr (out', offs')) \<Longrightarrow> boundaries_ok starts (length cs) \<Longrightarrow>
     \<exists>sers. list_all2 (chunk_piece enc) (slice cs (case starts of [] \<Rightarrow> length cs | a # _ \<Rightarrow> a) (length cs)) sers \<and>
       out' = out @ concat sers \<and> offs' = offs @ chunk_indices (of_nat (length out)) sers"
proof (induction starts arbitrary: out offs)
  case Nil
  then show ?case by (simp add: slice_def)
next
  case (Cons a starts)
  let ?e = "case starts of [] \<Rightarrow> length cs | e # _ \<Rightarrow> e"
  obtain o1 f1 where o1: "append_blocks rec na enc retest cs a ?e out offs = Some (Inr (o1, f1))"
    and rest: "append_files rec na enc retest cs starts o1 f1 = Some (Inr (out', offs'))"
    using Cons.prems(1) by (auto split: option.splits sum.splits)
  have le: "a \<le> ?e" "?e \<le> length cs" "boundaries_ok starts (length cs)"
    using Cons.prems(2) by (auto simp: boundaries_ok_def split: list.splits)
  from append_blocks_pieces [OF o1 le(1)] obtain sers where s: "list_all2 (chunk_piece enc) (slice cs a ?e) sers"
    "o1 = out @ concat sers" "f1 = offs @ chunk_indices (of_nat (length out)) sers" by blast
  from Cons.IH [OF rest le(3)] obtain sers' where "list_all2 (chunk_piece enc) (slice cs ?e (length cs)) sers'"
    "out' = o1 @ concat sers'" "offs' = f1 @ chunk_indices (of_nat (length o1)) sers'" by blast
  from pieces_join [OF s(1) this(1) s(2,3) this(2,3)] show ?case
    using slice_split [of a ?e "length cs" cs] le by simp
qed

text \<open>With a codec that never fails, appending returns.\<close>

definition enc_total :: "lz4_enc \<Rightarrow> bool" where
  "enc_total enc \<longleftrightarrow> (\<forall>bs. \<exists>ys. enc bs = Inr ys)"

lemma serialize_chunk_total:
  assumes "enc_total enc"
  shows "\<exists>r. serialize_chunk rec na enc c s = Inr r"
proof -
  let ?s = "resolve_for_data rec na s c"
  have "?s \<noteq> Auto" by (auto simp: resolve_for_data_def choose_from_data_def)
  moreover from this have "\<exists>ys. compress_from_slice rec na enc ?s c = Inr ys"
    using assms unfolding enc_total_def
    by (cases ?s) (auto simp: compress_from_slice_def compress_resolved_def lz4_compress_from_slice_def bg4_lz4_compress_from_slice_def)
  ultimately show ?thesis by (auto simp: serialize_chunk_def Let_def)
qed

lemma append_chunks_total: "enc_total enc \<Longrightarrow> \<exists>r. append_chunks rec na enc scheme cs out offs = Inr r"
proof (induction cs arbitrary: out offs)
  case (Cons c cs)
  obtain ser n where "serialize_chunk rec (na c) enc c scheme = Inr (ser, n)"
    using serialize_chunk_total [OF Cons.prems, of rec "na c" c scheme] by auto
  then show ?case using Cons.IH [OF Cons.prems] by simp
qed simp

lemma append_blocks_total:
  "enc_total enc \<Longrightarrow> b \<le> length cs \<Longrightarrow> retest \<noteq> 0 \<Longrightarrow>
     \<exists>r. append_blocks rec na enc retest cs a b out offs = Some (Inr r)"
proof (induction "b - a" arbitrary: a out offs rule: less_induct)
  case less
  show ?case
  proof (cases "b \<le> a")
    case False
    let ?n = "min (a + retest) b"
    obtain o1 f1 where "append_chunks rec na enc (choose_from_data rec (na (cs ! a)) (cs ! a)) (slice cs a ?n) out offs = Inr (o1, f1)"
      using append_chunks_total [OF less.prems(1)] by (metis surj_pair)
    moreover have "b - ?n < b - a" using False less.prems(3) by simp
    then obtain r where "append_blocks rec na enc retest cs ?n b o1 f1 = Some (Inr r)"
      using less.hyps less.prems by blast
    ultimately show ?thesis using False less.prems by (auto simp: append_blocks.simps [of rec na enc retest cs a b] Let_def)
  qed (simp add: append_blocks.simps [of rec na enc retest cs a b])
qed

lemma append_files_total:
  "enc_total enc \<Longrightarrow> boundaries_ok starts (length cs) \<Longrightarrow> retest \<noteq> 0 \<Longrightarrow>
     \<exists>r. append_files rec na enc retest cs starts out offs = Some (Inr r)"
proof (induction starts arbitrary: out offs)
  case (Cons a starts)
  let ?e = "case starts of [] \<Rightarrow> length cs | e # _ \<Rightarrow> e"
  have le: "?e \<le> length cs" "boundaries_ok starts (length cs)"
    using Cons.prems(2) by (auto simp: boundaries_ok_def split: list.splits)
  obtain o1 f1 where "append_blocks rec na enc retest cs a ?e out offs = Some (Inr (o1, f1))"
    using append_blocks_total [OF Cons.prems(1) le(1) Cons.prems(3)] by (metis surj_pair)
  then show ?case using Cons.IH [OF Cons.prems(1) le(2) Cons.prems(3)] by simp
qed simp

section \<open>The footer is read back\<close>

definition footer_of :: "merkle_hash \<Rightarrow> merkle_hash list \<Rightarrow> u32 list \<Rightarrow> u32 list \<Rightarrow> xorb_object_info" where
  "footer_of h hs offsets unpacked =
     fill_in_boundary_offsets (info_default\<lparr>xi_xorb_hash := h, xi_num_chunks := of_nat (length hs), xi_chunk_hashes := hs,
       xi_unpacked_chunk_offsets := unpacked, xi_chunk_boundary_offsets := offsets\<rparr>)"

lemmas footer_consts =
  XORB_OBJECT_FORMAT_IDENT_def XORB_OBJECT_FORMAT_IDENT_HASHES_def XORB_OBJECT_FORMAT_IDENT_BOUNDARIES_def
  XORB_OBJECT_FORMAT_VERSION_def XORB_OBJECT_FORMAT_VERSION_V0_def XORB_OBJECT_FORMAT_HASHES_VERSION_def
  XORB_OBJECT_FORMAT_BOUNDARIES_VERSION_def

lemma footer_ident_lengths [simp]:
  "length XORB_OBJECT_FORMAT_IDENT = 7" "length XORB_OBJECT_FORMAT_IDENT_HASHES = 7"
  "length XORB_OBJECT_FORMAT_IDENT_BOUNDARIES = 7"
  by (simp_all add: footer_consts)

lemma versions_differ: "XORB_OBJECT_FORMAT_VERSION \<noteq> XORB_OBJECT_FORMAT_VERSION_V0"
  by (simp add: footer_consts)

lemma footer_of_fields [simp]:
  "xi_ident (footer_of h hs os us) = XORB_OBJECT_FORMAT_IDENT" "xi_version (footer_of h hs os us) = XORB_OBJECT_FORMAT_VERSION"
  "xi_xorb_hash (footer_of h hs os us) = h" "xi_ident_hash_section (footer_of h hs os us) = XORB_OBJECT_FORMAT_IDENT_HASHES"
  "xi_hashes_version (footer_of h hs os us) = XORB_OBJECT_FORMAT_HASHES_VERSION" "xi_chunk_hashes (footer_of h hs os us) = hs"
  "xi_ident_boundary_section (footer_of h hs os us) = XORB_OBJECT_FORMAT_IDENT_BOUNDARIES"
  "xi_boundaries_version (footer_of h hs os us) = XORB_OBJECT_FORMAT_BOUNDARIES_VERSION"
  "xi_chunk_boundary_offsets (footer_of h hs os us) = os" "xi_unpacked_chunk_offsets (footer_of h hs os us) = us"
  "xi_num_chunks (footer_of h hs os us) = of_nat (length hs)" "xi_nonce_buffer (footer_of h hs os us) = replicate 16 0"
  "xi_boundary_section_offset_from_end (footer_of h hs os us) = of_nat (40 + length os * 4 + length us * 4)"
  "xi_hashes_section_offset_from_end (footer_of h hs os us) =
     of_nat (12 + length hs * 32) + of_nat (40 + length os * 4 + length us * 4)"
  by (simp_all add: footer_of_def info_default_def fill_in_boundary_offsets_def Let_def)

lemma footer_roundtrip:
  assumes n: "length hs = n" "length os = n" "length us = n" "n \<le> MAX_XORB_CHUNKS"
  obtains out where "info_serialize (footer_of h hs os us) = Inr (out, 92 + 40 * n)" "length out = 92 + 40 * n"
    "\<And>rest. info_deserialize (out @ rest) = Inr (footer_of h hs os us, of_nat (92 + 40 * n), rest)"
proof -
  let ?s = "footer_of h hs os us"
  let ?tail = "write_u32s os @ write_u32s us @ write_u32 (of_nat n) @ write_u32 (xi_hashes_section_offset_from_end ?s) @
    write_u32 (xi_boundary_section_offset_from_end ?s) @ write_bytes (replicate 16 0)"
  let ?out = "XORB_OBJECT_FORMAT_IDENT @ write_u8 XORB_OBJECT_FORMAT_VERSION @ write_hash h @
    XORB_OBJECT_FORMAT_IDENT_HASHES @ write_u8 XORB_OBJECT_FORMAT_HASHES_VERSION @ write_u32 (of_nat n) @
    concat (map write_hash hs) @ XORB_OBJECT_FORMAT_IDENT_BOUNDARIES @ write_u8 XORB_OBJECT_FORMAT_BOUNDARIES_VERSION @
    write_u32 (of_nat n) @ ?tail"
  have n': "unat (of_nat n :: u32) = n" "n \<le> 8192" using n(4) by (simp_all add: MAX_XORB_vals)
  have len: "length ?out = 92 + 40 * n"
    using n by (simp add: reader_simps hash_codec.length_sers write_bytes_def)
  have ser: "info_serialize ?s = Inr (?out, length ?out)"
    using n(1-3) n'(1) by (simp add: info_serialize_def write_bytes_def Let_def)
  have rh: "read_n read_hash n (concat (map write_hash hs) @ rest) = Inr (hs, rest)" for rest
    using hash_codec.read_n_sers [of hs rest] n(1) by simp
  have ro: "read_n read_u32 n (write_u32s xs @ rest) = Inr (xs, rest)" if "length xs = n" for xs rest
    using read_u32s_write_u32s [of xs rest] that by (simp add: read_u32s_def)
  have rb: "read_bytes k (xs @ rest) = Inr (xs, rest)" if "length xs = k" for k xs rest
    using that by (simp add: read_bytes_def read_exact_append)
  have b: "unat (xi_boundary_section_offset_from_end ?s) = 40 + 8 * n"
    using n n'(2) by (simp add: unsigned_of_nat take_bit_nat_eq_self del: of_nat_add of_nat_mult of_nat_numeral)
  have hh: "xi_hashes_section_offset_from_end ?s = of_nat (52 + 40 * n)"
    using n by simp
  have h': "unat (xi_hashes_section_offset_from_end ?s) = 52 + 40 * n"
    unfolding hh using n'(2) by (simp add: unsigned_of_nat take_bit_nat_eq_self del: of_nat_add of_nat_mult of_nat_numeral)
  have s: "\<lparr>xi_ident = XORB_OBJECT_FORMAT_IDENT, xi_version = XORB_OBJECT_FORMAT_VERSION, xi_xorb_hash = h,
      xi_ident_hash_section = XORB_OBJECT_FORMAT_IDENT_HASHES, xi_hashes_version = XORB_OBJECT_FORMAT_HASHES_VERSION,
      xi_chunk_hashes = hs, xi_ident_boundary_section = XORB_OBJECT_FORMAT_IDENT_BOUNDARIES,
      xi_boundaries_version = XORB_OBJECT_FORMAT_BOUNDARIES_VERSION, xi_chunk_boundary_offsets = os,
      xi_unpacked_chunk_offsets = us, xi_num_chunks = of_nat n,
      xi_hashes_section_offset_from_end = xi_hashes_section_offset_from_end ?s,
      xi_boundary_section_offset_from_end = xi_boundary_section_offset_from_end ?s, xi_nonce_buffer = replicate 16 0\<rparr> = ?s"
    using n(1) by (simp add: xorb_object_info.equality)
  have sec: "info_deserialize_sections h (XORB_OBJECT_FORMAT_IDENT_HASHES @ write_u8 XORB_OBJECT_FORMAT_HASHES_VERSION @
      write_u32 (of_nat n) @ concat (map write_hash hs) @ XORB_OBJECT_FORMAT_IDENT_BOUNDARIES @
      write_u8 XORB_OBJECT_FORMAT_BOUNDARIES_VERSION @ write_u32 (of_nat n) @ ?tail @ rest) = Inr (?s, rest)" for rest
    unfolding info_deserialize_sections_def
    by (simp add: rb rh ro n n'(1) b h' s reader_simps hash_codec.length_sers write_bytes_def del: footer_of_fields(13,14))
  show thesis
  proof (rule that [of ?out])
    show "info_deserialize (?out @ rest) = Inr (?s, of_nat (92 + 40 * n), rest)" for rest
      unfolding info_deserialize_def using sec [of rest] len
      by (simp add: rb reader_simps versions_differ del: footer_of_fields(13,14))
  qed (use ser len in simp_all)
qed

section \<open>Reading the pieces\<close>

lemma piece_read:
  assumes ok: "lz4_ok enc dec" and len: "length c \<le> MAX_CHUNK_SIZE" and p: "chunk_piece enc c ser"
  shows "deserialize_chunk dec (ser @ rest) = Inr (c, length ser, of_nat (length c), rest)"
    and "8 \<le> length ser \<and> length ser \<le> 8 + length c"
    and "\<exists>h scheme. deserialize_chunk_header (ser @ rest) = Inr (h, drop 8 ser @ rest) \<and>
      unat (get_compressed_length h) = length ser - 8 \<and> get_compression_scheme h = Inr scheme \<and>
      decompress_from_slice dec scheme (drop 8 ser) = Inr c \<and> write_chunk_header h = take 8 ser"
proof -
  obtain rec na s n where "serialize_chunk rec na enc c s = Inr (ser, n)" using p by (auto simp: chunk_piece_def)
  from serialize_chunk_form [OF ok this] obtain s' ys where
    f: "ser = write_chunk_header (chunk_header_new s' (of_nat (length ys)) (of_nat (length c))) @ ys" "length ys \<le> length c"
    "decompress_from_reader dec s' ys = Inr (c, length ys)" "decompress_from_slice dec s' ys = Inr c"
    by metis
  let ?h = "chunk_header_new s' (of_nat (length ys)) (of_nat (length c))"
  have "length ys \<le> 2 * MAX_CHUNK_SIZE" using f(2) len by simp
  note hl = header_lengths [OF this len, of s'] and hr = try_read_written_header(2) [OF this len, of s' "ys @ rest"]
  have d: "drop 8 ser = ys" "length ser = 8 + length ys" by (simp_all add: f(1))
  show "8 \<le> length ser \<and> length ser \<le> 8 + length c" using d(2) f(2) by simp
  have h: "deserialize_chunk_header (ser @ rest) = Inr (?h, drop 8 ser @ rest)" using hr unfolding d(1) by (simp add: f(1))
  then show "deserialize_chunk dec (ser @ rest) = Inr (c, length ser, of_nat (length c), rest)"
    by (simp add: deserialize_chunk_def deserialize_chunk_to_writer_def deserialize_chunk_with_header_to_writer_def d hl f(3)
        XORB_CHUNK_HEADER_LENGTH_def Let_def)
  show "\<exists>h scheme. deserialize_chunk_header (ser @ rest) = Inr (h, drop 8 ser @ rest) \<and>
      unat (get_compressed_length h) = length ser - 8 \<and> get_compression_scheme h = Inr scheme \<and>
      decompress_from_slice dec scheme (drop 8 ser) = Inr c \<and> write_chunk_header h = take 8 ser"
    using h hl f(4) d by (intro exI [of _ ?h] exI [of _ s']) (simp add: f(1))
qed

lemma pieces_contents:
  assumes ok: "lz4_ok enc dec"
  shows "list_all2 (chunk_piece enc) cs sers \<Longrightarrow> list_all (\<lambda>c. length c \<le> MAX_CHUNK_SIZE) cs \<Longrightarrow>
    get_chunk_contents dec (concat sers) res = Inr (res @ concat cs)"
proof (induction cs sers arbitrary: res rule: list_all2_induct)
  case Nil
  then show ?case by (simp add: get_chunk_contents.simps [of dec "[]"])
next
  case (Cons c cs ser sers)
  have len: "length c \<le> MAX_CHUNK_SIZE" using Cons.prems by simp
  note r = piece_read [OF ok len Cons.hyps(1)]
  have "ser \<noteq> []" using r(2) by auto
  then show ?case
    using Cons.IH [of "res @ c"] Cons.prems r(1) [of "concat sers"]
    by (simp add: get_chunk_contents.simps [of dec "ser @ concat sers"])
qed

lemma chunk_indices_nth:
  "k < length xs \<Longrightarrow> chunk_indices a xs ! k = a + of_nat (length (concat (take (Suc k) xs)))"
proof (induction xs arbitrary: a k)
  case (Cons x xs)
  then show ?case by (cases k) (simp_all add: add.assoc)
qed simp

lemma length_chunk_indices [simp]: "length (chunk_indices a xs) = length xs"
  by (induction xs arbitrary: a) simp_all

lemma length_concat_take: "length (concat (take k xs)) \<le> length (concat xs)"
  by (metis append_take_drop_id concat_append le_add1 length_append)

lemma concat_slice:
  assumes "a \<le> b" and "b \<le> length xs"
  shows "drop (length (concat (take a xs))) (concat xs) = concat (slice xs a b) @ concat (drop b xs)"
    and "length (concat (slice xs a b)) = length (concat (take b xs)) - length (concat (take a xs))"
proof -
  have t: "take b xs = take a xs @ slice xs a b"
    using assms(1) by (simp add: slice_def) (metis le_add_diff_inverse take_add)
  then have "xs = take a xs @ slice xs a b @ drop b xs" by (metis append.assoc append_take_drop_id)
  then have "concat xs = concat (take a xs) @ concat (slice xs a b) @ concat (drop b xs)" by (metis concat_append)
  then show "drop (length (concat (take a xs))) (concat xs) = concat (slice xs a b) @ concat (drop b xs)" by simp
  show "length (concat (slice xs a b)) = length (concat (take b xs)) - length (concat (take a xs))"
    by (simp add: t)
qed

lemma footer_valid:
  assumes "length os = length hs" "length us = length hs" "hs \<noteq> []" "length hs \<le> MAX_XORB_CHUNKS" "h \<noteq> default_hash"
  shows "validate_xorb_object_info (footer_of h hs os us) = Inr ()"
proof -
  have "unat (of_nat (length hs) :: u32) = length hs" using assms(4) by (simp add: MAX_XORB_vals)
  then have "(of_nat (length hs) :: u32) \<noteq> 0" using assms(3) by (metis length_0_conv unsigned_0)
  then show ?thesis using assms by (simp add: validate_xorb_object_info_def)
qed

lemma range_read:
  assumes ok: "lz4_ok enc dec" and p: "list_all2 (chunk_piece enc) cs sers"
    and len: "list_all (\<lambda>c. length c \<le> MAX_CHUNK_SIZE) cs" and fits: "length (concat sers) < 2 ^ 32"
    and v: "validate_xorb_object_info (footer_of h hs (chunk_indices 0 sers) us) = Inr ()" and hs: "length hs = length cs"
    "length hs \<le> MAX_XORB_CHUNKS"
    and ab: "a < b" "b \<le> length cs"
  shows "get_bytes_by_chunk_range dec (footer_of h hs (chunk_indices 0 sers) us) (concat sers @ rest) (of_nat a) (of_nat b) =
    Inr (concat (slice cs a b))"
proof -
  let ?s = "footer_of h hs (chunk_indices 0 sers) us"
  have l: "length sers = length cs" using p by (simp add: list_all2_lengthD)
  have u: "unat (of_nat k :: u32) = k" if "k \<le> length cs" for k
    using that hs by (simp add: MAX_XORB_vals)
  define A where "A = length (concat (take a sers))"
  define B where "B = length (concat (take b sers))"
  have AB: "A \<le> B" "B \<le> length (concat sers)"
    using ab length_concat_take_mono [of a b sers] length_concat_take by (simp_all add: A_def B_def)
  have uA: "unat (of_nat A :: u32) = A" "unat (of_nat B :: u32) = B" using AB fits by simp_all
  have off: "chunk_indices 0 sers ! (k - 1) = of_nat (length (concat (take k sers)))" if "0 < k" "k \<le> length sers" for k
    using chunk_indices_nth [of "k - 1" sers 0] that by simp
  have "get_byte_offset ?s (of_nat a) (of_nat b) = Inr (of_nat A, of_nat B)"
    using v ab hs(1) u [of a] u [of b] u [of "length cs"] off [of a] off [of b] l
    by (cases "a = 0") (auto simp: get_byte_offset_def word_le_nat_alt word_less_nat_alt A_def B_def)
  moreover have contents: "get_contents_length ?s = Inr (of_nat (length (concat sers)))"
  proof -
    have ne: "sers \<noteq> []" using ab l by auto
    then have "chunk_indices 0 sers \<noteq> []" by (metis length_0_conv length_chunk_indices)
    moreover from this have "last (chunk_indices 0 sers) = of_nat (length (concat sers))"
      using off [of "length sers"] ne by (simp add: last_conv_nth)
    ultimately show ?thesis using v by (simp add: get_contents_length_def)
  qed
  moreover have "min (of_nat B) (of_nat (length (concat sers))) = (of_nat B :: u32)"
    using AB(2) fits uA(2) by (simp add: min_def word_le_nat_alt)
  moreover have "unat (of_nat B - of_nat A :: u32) = B - A"
    using AB(1) uA by (simp add: unat_sub word_le_nat_alt)
  moreover have "\<not> (of_nat B < (of_nat A :: u32))" using AB(1) uA by (simp add: word_less_nat_alt)
  moreover have "read_exact (B - A) (drop A (concat sers @ rest)) =
      Inr (concat (slice sers a b), concat (drop b sers) @ rest)"
    using concat_slice [of a b sers] ab l AB unfolding A_def B_def by (simp add: read_exact_append)
  moreover have "get_chunk_contents dec (concat (slice sers a b)) [] = Inr (concat (slice cs a b))"
  proof -
    have "list_all2 (chunk_piece enc) (slice cs a b) (slice sers a b)"
      unfolding slice_def using p by (intro list_all2_takeI list_all2_dropI)
    moreover have "list_all (\<lambda>c. length c \<le> MAX_CHUNK_SIZE) (slice cs a b)"
      using len set_slice [of cs a b] by (auto simp: list_all_iff)
    ultimately show ?thesis using pieces_contents [OF ok] by (metis append_Nil)
  qed
  ultimately show ?thesis
    using v uA by (simp add: get_bytes_by_chunk_range_def get_range_def Let_def)
qed

section \<open>Rebuilding the footer\<close>

lemma last_chunk_indices:
  "last_or = (\<lambda>xs. if xs = [] then 0 else last xs) \<Longrightarrow> last_or (chunk_indices 0 xs) = (of_nat (length (concat xs)) :: u32)"
  by (cases xs rule: rev_cases) (simp_all add: chunk_indices_append)

lemma reconstruct_pieces:
  assumes ok: "lz4_ok enc dec"
  shows "list_all2 (chunk_piece enc) cs sers \<Longrightarrow> list_all (\<lambda>c. length c \<le> MAX_CHUNK_SIZE) cs \<Longrightarrow>
    xi_chunk_boundary_offsets info = chunk_indices 0 psers \<Longrightarrow> xi_unpacked_chunk_offsets info = chunk_indices 0 pcs \<Longrightarrow>
    reconstruct_loop kh dec (concat sers) out nodes info =
      Inr (out @ concat sers, nodes @ map (\<lambda>c. (compute_data_hash kh c, of_nat (length c))) cs,
        info\<lparr>xi_chunk_hashes := xi_chunk_hashes info @ map (compute_data_hash kh) cs,
          xi_chunk_boundary_offsets := chunk_indices 0 (psers @ sers), xi_unpacked_chunk_offsets := chunk_indices 0 (pcs @ cs)\<rparr>)"
proof (induction cs sers arbitrary: out nodes info psers pcs rule: list_all2_induct)
  case Nil
  then show ?case by (simp add: reconstruct_loop.simps [of kh dec "[]"])
next
  case (Cons c cs ser sers)
  have len: "length c \<le> MAX_CHUNK_SIZE" "list_all (\<lambda>c. length c \<le> MAX_CHUNK_SIZE) cs" using Cons.prems by simp_all
  note r = piece_read(2,3) [OF ok len(1) Cons.hyps(1)]
  obtain h scheme where h: "deserialize_chunk_header (ser @ concat sers) = Inr (h, drop 8 ser @ concat sers)"
    "unat (get_compressed_length h) = length ser - 8" "get_compression_scheme h = Inr scheme"
    "decompress_from_slice dec scheme (drop 8 ser) = Inr c" "write_chunk_header h = take 8 ser"
    using r(2) [of "concat sers"] by blast
  define info' where "info' = info\<lparr>xi_chunk_hashes := xi_chunk_hashes info @ [compute_data_hash kh c],
    xi_chunk_boundary_offsets := chunk_indices 0 (psers @ [ser]), xi_unpacked_chunk_offsets := chunk_indices 0 (pcs @ [c])\<rparr>"
  have ne: "ser \<noteq> []" and n: "length (drop 8 ser) = length ser - 8" and e: "8 + (length ser - 8) = length ser" using r(1) by auto
  have nb: "\<not> length ser + length (concat sers) - 8 < length ser - 8" by simp
  have ends: "(if chunk_indices 0 xs = [] then 0 else last (chunk_indices 0 xs)) = (of_nat (length (concat xs)) :: u32)" for xs
    using last_chunk_indices by simp
  have "reconstruct_loop kh dec (ser @ concat sers) out nodes info =
      reconstruct_loop kh dec (concat sers) (out @ ser) (nodes @ [(compute_data_hash kh c, of_nat (length c))]) info'"
    using ne h n e nb Cons.prems(2,3)
    by (simp add: reconstruct_loop.simps [of kh dec "ser @ concat sers"] Let_def ends XORB_CHUNK_HEADER_LENGTH_def info'_def
        chunk_indices_append)
  also have "\<dots> = Inr ((out @ ser) @ concat sers, (nodes @ [(compute_data_hash kh c, of_nat (length c))]) @
        map (\<lambda>c. (compute_data_hash kh c, of_nat (length c))) cs,
      info'\<lparr>xi_chunk_hashes := xi_chunk_hashes info' @ map (compute_data_hash kh) cs,
        xi_chunk_boundary_offsets := chunk_indices 0 ((psers @ [ser]) @ sers),
        xi_unpacked_chunk_offsets := chunk_indices 0 ((pcs @ [c]) @ cs)\<rparr>)"
    by (rule Cons.IH [OF len(2)]) (simp_all add: info'_def)
  finally show ?case by (simp add: info'_def)
qed

section \<open>Validation\<close>

lemma validate_pieces:
  assumes ok: "lz4_ok enc dec" and p: "list_all2 (chunk_piece enc) cs sers"
    and len: "list_all (\<lambda>c. length c \<le> MAX_CHUNK_SIZE) cs" and fits: "length (concat sers) < 2 ^ 32"
    and info: "xi_chunk_hashes info = map (compute_data_hash kh) cs" "xi_chunk_boundary_offsets info = chunk_indices 0 sers"
      "xi_unpacked_chunk_offsets info = chunk_indices 0 cs"
  shows "i \<le> length cs \<Longrightarrow> (i = 0 \<longrightarrow> rd = rd0) \<Longrightarrow> (0 < i \<longrightarrow> rd = concat (drop i sers) @ rest) \<Longrightarrow>
    validate_chunks (length cs - i) kh dec info (concat sers @ rest) i (of_nat (length (concat (take i sers))))
      (of_nat (length (concat (take i sers)))) (of_nat (length (concat (take i cs))))
      (map (\<lambda>c. (compute_data_hash kh c, of_nat (length c))) (take i cs)) rd =
    Some (Inr (Some (map (\<lambda>c. (compute_data_hash kh c, of_nat (length c))) cs, of_nat (length (concat sers)),
      if cs = [] then rd0 else rest)))"
proof (induction "length cs - i" arbitrary: i rd)
  case 0
  have l: "length sers = length cs" using p by (simp add: list_all2_lengthD)
  have "i = length cs" using 0 by simp
  then show ?case using 0 l by (cases "cs = []") auto
next
  case (Suc k)
  have l: "length sers = length cs" using p by (simp add: list_all2_lengthD)
  have i: "i < length cs" and k: "length cs - i = Suc k" "k = length cs - Suc i" using Suc.hyps(2) by simp_all
  let ?c = "cs ! i" and ?ser = "sers ! i"
  have piece: "chunk_piece enc ?c ?ser" using p i by (simp add: list_all2_conv_all_nth)
  have lc: "length ?c \<le> MAX_CHUNK_SIZE" using len i by (simp add: list_all_length)
  have sers: "drop i sers = ?ser # drop (Suc i) sers" "take (Suc i) sers = take i sers @ [?ser]"
    "drop i cs = ?c # drop (Suc i) cs" "take (Suc i) cs = take i cs @ [?c]"
    using i l by (simp_all add: Cons_nth_drop_Suc take_Suc_conv_app_nth)
  have "concat sers = concat (take i sers) @ ?ser @ concat (drop (Suc i) sers)"
    by (metis append_take_drop_id concat.simps(2) concat_append sers(1))
  then have at: "drop (length (concat (take i sers))) (concat sers @ rest) = ?ser @ concat (drop (Suc i) sers) @ rest" by simp
  have pos: "unat (of_nat (length (concat (take i sers))) :: u32) = length (concat (take i sers))"
    using length_concat_take [of i sers] fits by simp
  have d: "ok_for_format_error (deserialize_chunk dec (drop (unat (of_nat (length (concat (take i sers))) :: u32)) (concat sers @ rest))) =
      Inr (Some (?c, length ?ser, of_nat (length ?c), concat (drop (Suc i) sers) @ rest))"
    unfolding pos at using piece_read(1) [OF ok lc piece] by (simp add: ok_for_format_error_def)
  have len_c: "(ucast (of_nat (length ?c) :: u32) :: u64) = of_nat (length ?c)"
    using lc by (intro ucast_u32_u64) (simp add: MAX_CHUNK_SIZE_val)
  have idx: "index (xi_chunk_hashes info) i = Some (compute_data_hash kh ?c)"
    "index (xi_chunk_boundary_offsets info) i = Some (of_nat (length (concat (take (Suc i) sers))))"
    "index (xi_unpacked_chunk_offsets info) i = Some (of_nat (length (concat (take (Suc i) cs))))"
    using i l chunk_indices_nth [of i sers 0] chunk_indices_nth [of i cs 0] by (simp_all add: index_def info)
  have "validate_chunks (Suc k) kh dec info (concat sers @ rest) i (of_nat (length (concat (take i sers))))
      (of_nat (length (concat (take i sers)))) (of_nat (length (concat (take i cs))))
      (map (\<lambda>c. (compute_data_hash kh c, of_nat (length c))) (take i cs)) rd =
    validate_chunks k kh dec info (concat sers @ rest) (Suc i) (of_nat (length (concat (take (Suc i) sers))))
      (of_nat (length (concat (take (Suc i) sers)))) (of_nat (length (concat (take (Suc i) cs))))
      (map (\<lambda>c. (compute_data_hash kh c, of_nat (length c))) (take (Suc i) cs)) (concat (drop (Suc i) sers) @ rest)"
    unfolding validate_chunks.simps(2) d by (simp add: idx Let_def sers(2,4) len_c)
  also have "\<dots> = Some (Inr (Some (map (\<lambda>c. (compute_data_hash kh c, of_nat (length c))) cs, of_nat (length (concat sers)),
      if cs = [] then rd0 else rest)))"
    unfolding k(2) by (rule Suc.hyps(1) [OF k(2)]) (use i in simp_all)
  finally show ?case by (simp only: k(1))
qed

section \<open>A xorb made of chunks\<close>

text \<open>Chunks that carry their own hash, within the limits of a xorb, and the starts of the files in it.\<close>

definition xorb_input :: "keyed_hash \<Rightarrow> chunk list \<Rightarrow> nat list \<Rightarrow> bool" where
  "xorb_input kh cs starts \<longleftrightarrow>
     list_all (\<lambda>c. chunk_hash c = compute_data_hash kh (chunk_data c) \<and> length (chunk_data c) \<le> MAX_CHUNK_SIZE) cs \<and>
     cs \<noteq> [] \<and> length cs \<le> MAX_XORB_CHUNKS \<and> chunk_bytes cs \<le> MAX_XORB_BYTES \<and>
     boundaries_ok starts (length cs) \<and> starts \<noteq> [] \<and> hd starts = 0"

lemma raw_xorb_boundaries:
  "raw_xorb_entries p cs = Some es \<Longrightarrow>
     map (\<lambda>e. (xe_chunk_hash e, xe_chunk_byte_range_start e + xe_unpacked_segment_bytes e)) es =
     zip (map chunk_hash cs) (chunk_indices (of_nat p) (map chunk_data cs))"
  by (induction cs arbitrary: p es)
    (fastforce simp: xorb_entry_new_def try_u32_def bind_eq_Some_conv split: if_splits)+

lemma raw_xorb_fields:
  assumes "raw_xorb_from_chunks kh cs starts = Some x"
  shows "rx_data x = map chunk_data cs" "raw_xorb_hash x = xorb_hash kh (map chunk_node cs)" "rx_file_boundaries x = starts"
    "chunks_and_boundaries (rx_xorb_info x) = zip (map chunk_hash cs) (chunk_indices 0 (map chunk_data cs))"
  using assms raw_xorb_boundaries [of 0 cs]
  by (auto simp: raw_xorb_from_chunks_def chunks_and_boundaries_def raw_xorb_hash_def xorb_header_new_def bind_eq_Some_conv)

lemma piece_bytes:
  assumes ok: "lz4_ok enc dec"
  shows "list_all2 (chunk_piece enc) cs sers \<Longrightarrow> list_all (\<lambda>c. length c \<le> MAX_CHUNK_SIZE) cs \<Longrightarrow>
    length (concat sers) \<le> 8 * length cs + length (concat cs)"
proof (induction cs sers rule: list_all2_induct)
  case (Cons c cs ser sers)
  then show ?case using piece_read(2) [OF ok _ Cons.hyps(1)] by simp
qed simp

lemma serialized_pieces:
  assumes ok: "lz4_ok enc dec" "enc_total enc" and inp: "xorb_input kh cs starts"
    and x: "raw_xorb_from_chunks kh cs starts = Some x"
  defines "h \<equiv> xorb_hash kh (map chunk_node cs)"
  obtains sers bs so0 so1 where "list_all2 (chunk_piece enc) (map chunk_data cs) sers" "length (concat sers) < 2 ^ 32"
    "info_serialize (footer_of h (map chunk_hash cs) (chunk_indices 0 sers) (chunk_indices 0 (map chunk_data cs))) =
      Inr (bs, 92 + 40 * length cs)"
    "from_xorb_with_compression rec na enc x scheme False retest = Some (Inr so0)" "sx_serialized_data so0 = concat sers"
    "from_xorb_with_compression rec na enc x scheme True retest = Some (Inr so1)"
    "sx_serialized_data so1 = concat sers @ bs @ write_u32 (of_nat (92 + 40 * length cs))"
    "sx_footer_start so1 = Some (of_nat (length (concat sers)))"
proof -
  note f = raw_xorb_fields [OF x]
  let ?r = "if 0 < retest then retest else length cs"
  have i: "cs \<noteq> []" "length cs \<le> MAX_XORB_CHUNKS" "boundaries_ok starts (length cs)" "starts \<noteq> []" "hd starts = 0"
    "list_all (\<lambda>c. length c \<le> MAX_CHUNK_SIZE) (map chunk_data cs)" "chunk_bytes cs \<le> MAX_XORB_BYTES"
    using inp by (auto simp: xorb_input_def list_all_iff)
  define body where "body = (if scheme = Auto \<and> length (rx_data x) \<noteq> 0
    then append_files rec na enc ?r (rx_data x) (rx_file_boundaries x) [] []
    else Some (append_chunks rec na enc scheme (rx_data x) [] []))"
  have "\<exists>r. body = Some (Inr r)"
    using append_files_total [OF ok(2), of starts "map chunk_data cs" ?r rec na "[]" "[]"] i
      append_chunks_total [OF ok(2), of rec na scheme "map chunk_data cs" "[]" "[]"]
    by (auto simp: body_def f)
  then obtain out offs where b: "body = Some (Inr (out, offs))" by auto
  have "\<exists>sers. list_all2 (chunk_piece enc) (map chunk_data cs) sers \<and> out = concat sers \<and> offs = chunk_indices 0 sers"
  proof (cases "scheme = Auto")
    case True
    have a: "append_files rec na enc ?r (map chunk_data cs) starts [] [] = Some (Inr (out, offs))"
      using b True i(1) by (simp add: body_def f)
    have "boundaries_ok starts (length (map chunk_data cs))" using i(3) by simp
    from append_files_pieces [OF a this] show ?thesis using i(4,5) by (cases starts) (simp_all add: slice_def)
  next
    case False
    then show ?thesis using append_chunks_pieces [of rec na enc scheme "map chunk_data cs" "[]" "[]"] b by (simp add: body_def f)
  qed
  then obtain sers where s: "list_all2 (chunk_piece enc) (map chunk_data cs) sers" "out = concat sers" "offs = chunk_indices 0 sers"
    by blast
  have "length (concat (map chunk_data cs)) = chunk_bytes cs" by (simp add: length_concat chunk_bytes_def comp_def)
  then have fits: "length (concat sers) < 2 ^ 32"
    using piece_bytes [OF ok(1) s(1) i(6)] i(2,7) by (simp add: MAX_XORB_vals)
  have info: "fill_in_boundary_offsets (info_default\<lparr>xi_xorb_hash := raw_xorb_hash x,
      xi_num_chunks := of_nat (length (chunks_and_boundaries (rx_xorb_info x))),
      xi_chunk_hashes := map fst (chunks_and_boundaries (rx_xorb_info x)),
      xi_unpacked_chunk_offsets := map snd (chunks_and_boundaries (rx_xorb_info x)), xi_chunk_boundary_offsets := offs\<rparr>) =
    footer_of h (map chunk_hash cs) (chunk_indices 0 sers) (chunk_indices 0 (map chunk_data cs))"
    by (simp add: footer_of_def f h_def s(3))
  have n: "length sers = length cs" using list_all2_lengthD [OF s(1)] by simp
  obtain bs where bs: "info_serialize (footer_of h (map chunk_hash cs) (chunk_indices 0 sers) (chunk_indices 0 (map chunk_data cs))) =
      Inr (bs, 92 + 40 * length cs)"
    by (rule footer_roundtrip [of "map chunk_hash cs" "length cs" "chunk_indices 0 sers" "chunk_indices 0 (map chunk_data cs)" h])
      (use i(2) n in simp_all)
  have e: "from_xorb_with_compression rec na enc x scheme fo retest =
      (case body of None \<Rightarrow> None | Some (Inl e) \<Rightarrow> Some (Inl e) | Some (Inr (out, offsets)) \<Rightarrow>
         Some (if fo then rbind (serialize_given_info (footer_of h (map chunk_hash cs) (chunk_indices 0 sers) (chunk_indices 0 (map chunk_data cs))))
             (\<lambda>(footer, _, _). Inr \<lparr>sx_serialized_data = out @ footer, sx_hash = raw_xorb_hash x,
               sx_raw_num_bytes = of_nat (raw_xorb_num_bytes x), sx_num_chunks = length (rx_data x), sx_footer_start = Some (of_nat (length out))\<rparr>)
           else Inr \<lparr>sx_serialized_data = out, sx_hash = raw_xorb_hash x,
               sx_raw_num_bytes = of_nat (raw_xorb_num_bytes x), sx_num_chunks = length (rx_data x), sx_footer_start = None\<rparr>))" for fo
    using info b by (simp add: from_xorb_with_compression_def body_def f(1) Let_def cong: if_cong)
  show thesis
    by (rule that [OF s(1) fits bs, of
        "\<lparr>sx_serialized_data = out, sx_hash = raw_xorb_hash x, sx_raw_num_bytes = of_nat (raw_xorb_num_bytes x),
          sx_num_chunks = length (rx_data x), sx_footer_start = None\<rparr>"
        "\<lparr>sx_serialized_data = out @ bs @ write_u32 (of_nat (92 + 40 * length cs)), sx_hash = raw_xorb_hash x,
          sx_raw_num_bytes = of_nat (raw_xorb_num_bytes x), sx_num_chunks = length (rx_data x),
          sx_footer_start = Some (of_nat (length out))\<rparr>"])
      (simp_all add: e b s(2) serialize_given_info_def bs Let_def del: of_nat_add of_nat_mult of_nat_numeral)
qed

lemma deserialize_with_footer:
  assumes n: "length hs = n" "length os = n" "length us = n" "n \<le> MAX_XORB_CHUNKS"
    and bs: "info_serialize (footer_of h hs os us) = Inr (bs, 92 + 40 * n)"
  shows "xorb_object_deserialize (body @ bs @ write_u32 (of_nat (92 + 40 * n))) =
      Inr (\<lparr>xo_info = footer_of h hs os us, xo_info_length = of_nat (92 + 40 * n)\<rparr>, write_u32 (of_nat (92 + 40 * n)))"
    and "length bs = 92 + 40 * n"
proof -
  let ?w = "write_u32 (of_nat (92 + 40 * n))" and ?k = "92 + 40 * n"
  obtain out where out: "info_serialize (footer_of h hs os us) = Inr (out, ?k)" "length out = ?k"
    "\<And>rest. info_deserialize (out @ rest) = Inr (footer_of h hs os us, of_nat ?k, rest)"
    using footer_roundtrip [OF n] by metis
  have eq: "out = bs" using out(1) bs by simp
  show len: "length bs = ?k" using out(2) eq by simp
  have w: "length ?w = 4" by (simp add: reader_simps)
  have u: "unat (of_nat ?k :: u32) = ?k"
    using n(4) by (simp add: MAX_XORB_vals unsigned_of_nat take_bit_nat_eq_self del: of_nat_add of_nat_mult of_nat_numeral)
  have s1: "seek_end 4 (body @ bs @ ?w) = Inr ?w" using w by (simp add: seek_end_def)
  have s2: "seek_end (4 + ?k) (body @ bs @ ?w) = Inr (bs @ ?w)" using w len by (simp add: seek_end_def)
  have "get_info_length (body @ bs @ ?w) = Inr (of_nat ?k)"
    using w read_exact_append [of ?w 4 "[]"] unfolding get_info_length_def s1
    by (simp add: write_u32_def from_le_le_bytes del: of_nat_add of_nat_mult of_nat_numeral)
  then show "xorb_object_deserialize (body @ bs @ ?w) = Inr (\<lparr>xo_info = footer_of h hs os us, xo_info_length = of_nat ?k\<rparr>, ?w)"
    using s2 out(3) [of ?w] by (simp add: xorb_object_deserialize_def u eq del: of_nat_add of_nat_mult of_nat_numeral)
qed

lemma piece_nodes:
  assumes "xorb_input kh cs starts"
  shows "map (\<lambda>c. (compute_data_hash kh c, of_nat (length c))) (map chunk_data cs) = map chunk_node cs"
    "map (compute_data_hash kh) (map chunk_data cs) = map chunk_hash cs"
  using assms by (auto simp: xorb_input_def chunk_node_def list_all_iff)

section \<open>Properties\<close>

text \<open>
  (C9) Serializing the chunks of a xorb with a footer, under any compression scheme, also one chosen
  anew every few chunks, returns; the result is accepted by the validation under the xorb's hash, its
  footer holds the hashes of the chunks, and reading any range of chunks through the footer gives exactly
  their data.
\<close>

theorem xorb_object_roundtrip:
  assumes ok: "lz4_ok enc dec" "enc_total enc" and inp: "xorb_input kh cs starts"
    and x: "raw_xorb_from_chunks kh cs starts = Some x" and h: "raw_xorb_hash x \<noteq> default_hash"
  shows "\<exists>so obj. from_xorb_with_compression recommended na enc x scheme True retest = Some (Inr so) \<and>
    validate_xorb_object kh dec (sx_serialized_data so) (raw_xorb_hash x) = Some (Inr (Some obj)) \<and>
    xi_chunk_hashes (xo_info obj) = map chunk_hash cs \<and>
    (\<forall>a b. a < b \<and> b \<le> length cs \<longrightarrow>
       get_bytes_by_chunk_range dec (xo_info obj) (sx_serialized_data so) (of_nat a) (of_nat b) =
         Inr (concat (map chunk_data (slice cs a b))))"
proof -
  let ?hs = "map chunk_hash cs" and ?us = "chunk_indices 0 (map chunk_data cs)" and ?h = "xorb_hash kh (map chunk_node cs)"
  obtain sers bs so where s: "list_all2 (chunk_piece enc) (map chunk_data cs) sers" "length (concat sers) < 2 ^ 32"
    "info_serialize (footer_of ?h ?hs (chunk_indices 0 sers) ?us) = Inr (bs, 92 + 40 * length cs)"
    "from_xorb_with_compression recommended na enc x scheme True retest = Some (Inr so)"
    "sx_serialized_data so = concat sers @ bs @ write_u32 (of_nat (92 + 40 * length cs))"
    using serialized_pieces [OF ok inp x, of recommended na scheme retest] by metis
  let ?F = "footer_of ?h ?hs (chunk_indices 0 sers) ?us" and ?w = "write_u32 (of_nat (92 + 40 * length cs)) :: bytes"
  let ?obj = "\<lparr>xo_info = ?F, xo_info_length = of_nat (92 + 40 * length cs)\<rparr>"
  have i: "cs \<noteq> []" "length cs \<le> MAX_XORB_CHUNKS" "list_all (\<lambda>c. length c \<le> MAX_CHUNK_SIZE) (map chunk_data cs)"
    using inp by (auto simp: xorb_input_def list_all_iff)
  have l: "length sers = length cs" using list_all2_lengthD [OF s(1)] by simp
  have hx: "raw_xorb_hash x = ?h" by (rule raw_xorb_fields(2) [OF x])
  have d: "xorb_object_deserialize (sx_serialized_data so) = Inr (?obj, ?w)" and lb: "length bs = 92 + 40 * length cs"
    unfolding s(5) using deserialize_with_footer(1) [OF _ _ _ _ s(3), of "concat sers"] deserialize_with_footer(2) [OF _ _ _ _ s(3)] l i(2)
    by simp_all
  have n: "unat (xi_num_chunks ?F) = length cs" using i(2) by (simp add: MAX_XORB_vals)
  have v: "validate_chunks (length cs) kh dec ?F (concat sers @ bs @ ?w) 0 0 0 0 [] ?w =
      Some (Inr (Some (map chunk_node cs, of_nat (length (concat sers)), bs @ ?w)))"
    using validate_pieces [OF ok(1) s(1) i(3) s(2), where info = ?F and kh = kh and i = 0 and rd = ?w and ?rd0.0 = ?w and rest = "bs @ ?w"]
      i(1) piece_nodes [OF inp] by simp
  have "validate_xorb_object kh dec (sx_serialized_data so) (raw_xorb_hash x) = Some (Inr (Some ?obj))"
    unfolding validate_xorb_object_def d using v n lb
    by (simp add: ok_for_format_error_def s(5) hx reader_simps Let_def)
  moreover have "get_bytes_by_chunk_range dec ?F (sx_serialized_data so) (of_nat a) (of_nat b) = Inr (concat (map chunk_data (slice cs a b)))"
    if "a < b" "b \<le> length cs" for a b
  proof -
    have "validate_xorb_object_info ?F = Inr ()" using footer_valid [of "chunk_indices 0 sers" ?hs ?us ?h] i h l hx by simp
    from range_read [OF ok(1) s(1) i(3) s(2) this] i(2) that show ?thesis by (simp add: s(5) map_slice)
  qed
  ultimately show ?thesis using s(4) by (intro exI [of _ so] exI [of _ ?obj]) simp
qed

text \<open>A xorb of one chunk, with a keyed hash that returns a constant.\<close>

definition demo_kh :: keyed_hash where
  "demo_kh k bs = 1 # replicate 31 0"

definition demo_chunks :: "chunk list" where
  "demo_chunks = [\<lparr>chunk_hash = compute_data_hash demo_kh (replicate 9 0), chunk_data = replicate 9 0\<rparr>]"

lemma demo_xorb_input: "xorb_input demo_kh demo_chunks [0]"
  by (simp add: xorb_input_def demo_chunks_def boundaries_ok_def MAX_CHUNK_SIZE_val MAX_XORB_vals)

lemma run_enc_total: "enc_total run_enc"
  by (simp add: enc_total_def run_enc_def)

lemma demo_xorb:
  obtains x where "raw_xorb_from_chunks demo_kh demo_chunks [0] = Some x" "raw_xorb_hash x \<noteq> default_hash"
proof -
  have b: "chunk_bytes demo_chunks \<le> MAX_XORB_BYTES" "length demo_chunks \<le> MAX_XORB_CHUNKS"
    by (simp_all add: demo_chunks_def MAX_XORB_vals)
  obtain x where x: "raw_xorb_from_chunks demo_kh demo_chunks [0] = Some x"
    "raw_xorb_hash x = xorb_hash demo_kh (map chunk_node demo_chunks)"
    using raw_xorb_ok [OF b] by metis
  have "xorb_hash demo_kh (map chunk_node demo_chunks) = compute_data_hash demo_kh (replicate 9 0)"
    by (simp add: xorb_hash_def aggregated_node_hash_def agg_loop_single demo_chunks_def chunk_node_def)
  moreover have "compute_data_hash demo_kh (replicate 9 0) \<noteq> default_hash" by code_simp
  ultimately show thesis using x that by simp
qed

theorem xorb_object_roundtrip_witness:
  "\<exists>x so obj. raw_xorb_from_chunks demo_kh demo_chunks [0] = Some x \<and>
    from_xorb_with_compression (\<lambda>_. True) (\<lambda>_. 0) run_enc x Auto True 1 = Some (Inr so) \<and>
    validate_xorb_object demo_kh run_dec (sx_serialized_data so) (raw_xorb_hash x) = Some (Inr (Some obj)) \<and>
    get_bytes_by_chunk_range run_dec (xo_info obj) (sx_serialized_data so) (of_nat 0) (of_nat 1) = Inr (replicate 9 0)"
proof -
  obtain x where x: "raw_xorb_from_chunks demo_kh demo_chunks [0] = Some x" "raw_xorb_hash x \<noteq> default_hash"
    by (rule demo_xorb)
  have "concat (map chunk_data (slice demo_chunks 0 1)) = replicate 9 0" "1 \<le> length demo_chunks"
    by (simp_all add: demo_chunks_def slice_def)
  with xorb_object_roundtrip [OF run_codec_ok run_enc_total demo_xorb_input x, of "\<lambda>_. True" "\<lambda>_. 0" Auto 1] x(1)
  show ?thesis by (metis zero_less_one)
qed

text \<open>
  (C34) What is uploaded is the xorb without its footer. Rebuilding the footer from these bytes gives,
  byte for byte, the file that serializing with a footer gives, and the hash of the xorb.
\<close>

theorem footer_reconstruction:
  assumes ok: "lz4_ok enc dec" "enc_total enc" and inp: "xorb_input kh cs starts"
    and x: "raw_xorb_from_chunks kh cs starts = Some x"
  shows "\<exists>so0 so1 obj. from_xorb_with_compression recommended na enc x scheme False retest = Some (Inr so0) \<and>
    from_xorb_with_compression recommended na enc x scheme True retest = Some (Inr so1) \<and>
    reconstruct_xorb_with_footer kh dec (sx_serialized_data so0) = Inr (sx_serialized_data so1, obj, raw_xorb_hash x)"
proof -
  let ?hs = "map chunk_hash cs" and ?us = "chunk_indices 0 (map chunk_data cs)" and ?h = "xorb_hash kh (map chunk_node cs)"
  obtain sers bs so0 so1 where s: "list_all2 (chunk_piece enc) (map chunk_data cs) sers"
    "info_serialize (footer_of ?h ?hs (chunk_indices 0 sers) ?us) = Inr (bs, 92 + 40 * length cs)"
    "from_xorb_with_compression recommended na enc x scheme False retest = Some (Inr so0)" "sx_serialized_data so0 = concat sers"
    "from_xorb_with_compression recommended na enc x scheme True retest = Some (Inr so1)"
    "sx_serialized_data so1 = concat sers @ bs @ write_u32 (of_nat (92 + 40 * length cs))"
    using serialized_pieces [OF ok inp x, of recommended na scheme retest] by metis
  have len: "list_all (\<lambda>c. length c \<le> MAX_CHUNK_SIZE) (map chunk_data cs)" using inp by (auto simp: xorb_input_def list_all_iff)
  have "reconstruct_loop kh dec (concat sers) [] [] info_default =
      Inr (concat sers, map chunk_node cs, info_default\<lparr>xi_chunk_hashes := ?hs, xi_chunk_boundary_offsets := chunk_indices 0 sers,
        xi_unpacked_chunk_offsets := ?us\<rparr>)"
    using reconstruct_pieces [OF ok(1) s(1) len, of info_default "[]" "[]" kh "[]" "[]"] piece_nodes [OF inp]
    by (simp add: info_default_def fill_in_boundary_offsets_def Let_def)
  moreover have "fill_in_boundary_offsets (info_default\<lparr>xi_chunk_hashes := ?hs, xi_chunk_boundary_offsets := chunk_indices 0 sers,
      xi_unpacked_chunk_offsets := ?us, xi_xorb_hash := ?h, xi_num_chunks := of_nat (length cs)\<rparr>) =
      footer_of ?h ?hs (chunk_indices 0 sers) ?us"
    by (simp add: footer_of_def info_default_def fill_in_boundary_offsets_def Let_def)
  ultimately have "\<exists>obj. reconstruct_xorb_with_footer kh dec (sx_serialized_data so0) = Inr (sx_serialized_data so1, obj, raw_xorb_hash x)"
    using s(2) raw_xorb_fields(2) [OF x]
    by (simp add: reconstruct_xorb_with_footer_def s(4,6) serialize_given_info_def Let_def
        del: of_nat_add of_nat_mult of_nat_numeral)
  then show ?thesis using s(3,5) by blast
qed

theorem footer_reconstruction_witness:
  "\<exists>x so0 so1 obj. raw_xorb_from_chunks demo_kh demo_chunks [0] = Some x \<and>
    from_xorb_with_compression (\<lambda>_. True) (\<lambda>_. 0) run_enc x Auto False 1 = Some (Inr so0) \<and>
    from_xorb_with_compression (\<lambda>_. True) (\<lambda>_. 0) run_enc x Auto True 1 = Some (Inr so1) \<and>
    reconstruct_xorb_with_footer demo_kh run_dec (sx_serialized_data so0) = Inr (sx_serialized_data so1, obj, raw_xorb_hash x)"
proof -
  obtain x where x: "raw_xorb_from_chunks demo_kh demo_chunks [0] = Some x" by (rule demo_xorb)
  from footer_reconstruction [OF run_codec_ok run_enc_total demo_xorb_input x, of "\<lambda>_. True" "\<lambda>_. 0" Auto 1] x
  show ?thesis by blast
qed

text \<open>
  The validation means to reject an object too short to hold its info, but only malformed data is
  turned into a rejection: an object of fewer than four bytes is an I/O error.
\<close>

theorem validate_short_object:
  assumes "length bs < 4"
  shows "validate_xorb_object kh dec bs h = Some (Inl (Io OtherIo))"
  using assms by (simp add: validate_xorb_object_def xorb_object_deserialize_def get_info_length_def seek_end_def ok_for_format_error_def)

theorem validate_short_object_witness: "validate_xorb_object demo_kh run_dec [1, 2, 3] default_hash = Some (Inl (Io OtherIo))"
  by (rule validate_short_object) simp

text \<open>
  (C35) An object with the old footer has no unpacked offsets. Asking it for the uncompressed length of a
  non-empty range of chunks passes all checks of the arguments and then indexes the empty vector: it
  panics.
\<close>

theorem v0_range_length_panics:
  assumes "validate_xorb_object_info (info_from_v0 v0) = Inr ()" and "a < b" and "b \<le> v0_num_chunks v0"
  shows "uncompressed_range_length (info_from_v0 v0) a b = None"
proof -
  have f: "xi_num_chunks (info_from_v0 v0) = v0_num_chunks v0" "xi_unpacked_chunk_offsets (info_from_v0 v0) = []"
    by (simp_all add: info_from_v0_def fill_in_boundary_offsets_def Let_def)
  have "\<not> (b < a \<or> v0_num_chunks v0 < b \<or> v0_num_chunks v0 \<le> a)" "a \<noteq> b"
    using assms(2,3) by (auto dest: less_le_trans)
  then show ?thesis using assms(1) by (simp add: uncompressed_range_length_def f index_def split: if_split)
qed

theorem v0_range_length_panics_witness:
  "uncompressed_range_length (info_from_v0 \<lparr>v0_ident = XORB_OBJECT_FORMAT_IDENT, v0_version = 0, v0_xorb_hash = DataHash 1 0 0 0,
     v0_num_chunks = 1, v0_chunk_boundary_offsets = [9], v0_chunk_hashes = [DataHash 2 0 0 0], v0_buffer = replicate 16 0\<rparr>) 0 1 = None"
  by (rule v0_range_length_panics)
    (simp_all add: validate_xorb_object_info_def info_from_v0_def fill_in_boundary_offsets_def default_hash_def Let_def
      XORB_OBJECT_FORMAT_BOUNDARIES_VERSION_def XORB_OBJECT_FORMAT_BOUNDARIES_VERSION_NO_UNPACKED_INFO_def)

end
