(* ===== verification/Session_Shards.thy ===== *)
theory Session_Shards
  imports Shard_Format File_Dedup_Correct
begin

text \<open>
  The shards of an upload session, \<open>xet_data/src/processing/shard_interface/wasm.rs\<close>: the session shard
  under construction, and the bounded queue of shards fetched by global deduplication queries, each
  with the key its chunk hashes are protected with. The remote client
  (\<open>xet_client/src/cas_client/interface.rs\<close>) is a record of functions; their first argument is the moment
  of the call, so that two calls may answer differently. An error of the client is a number. The
  mutexes make each operation atomic. Shown here: every shard that parses satisfies the invariant of
  shards in memory, and whatever the queue holds, a query returns, and an answer refers to stored
  chunks whose hashes are, under one of the keys in use, the hashes asked for.
\<close>

section \<open>The client and its errors\<close>

type_synonym client_error = nat

datatype data_error =
    FormatError core_error
  | ClientError client_error
  | JoinError
  | InvalidOperation
  | DataInternalError
  | IOError io_error
  | ParameterError

section \<open>The interface\<close>

definition DEDUP_CACHE_MAX_SHARDS :: nat where
  "DEDUP_CACHE_MAX_SHARDS = 32"

record cached_dedup_shard =
  cd_info :: mdb_shard_info
  cd_shard :: mdb_in_memory_shard

record session_shard_interface =
  ss_dry_run :: bool
  ss_session_shard :: mdb_in_memory_shard
  ss_dedup_cache :: "cached_dedup_shard list"

definition session_shard_interface_new :: "bool \<Rightarrow> session_shard_interface" where
  "session_shard_interface_new dry_run =
     \<lparr>ss_dry_run = dry_run, ss_session_shard = shard_default, ss_dedup_cache = []\<rparr>"

text \<open>A shard the server sent: its footer and its contents; \<open>None\<close> is a panic.\<close>

definition parse_dedup_shard :: "bytes \<Rightarrow> (data_error + cached_dedup_shard) option" where
  "parse_dedup_shard shard_bytes =
     (case load_from_reader shard_bytes of
        Inl e \<Rightarrow> Some (Inl (FormatError e))
      | Inr info \<Rightarrow>
          (case shard_from_reader shard_bytes of
             None \<Rightarrow> None
           | Some (Inl e) \<Rightarrow> Some (Inl (FormatError e))
           | Some (Inr shard) \<Rightarrow> Some (Inr \<lparr>cd_info = info, cd_shard = shard\<rparr>)))"

text \<open>\<open>answer\<close> is what the client returned for the chunk; its errors count as no shard.\<close>

definition query_dedup_shard_by_chunk ::
  "(client_error + bytes option) \<Rightarrow> session_shard_interface \<Rightarrow> (data_error + bool \<times> session_shard_interface) option" where
  "query_dedup_shard_by_chunk answer ss =
     (case answer of
        Inl _ \<Rightarrow> Some (Inr (False, ss))
      | Inr None \<Rightarrow> Some (Inr (False, ss))
      | Inr (Some shard_bytes) \<Rightarrow>
          (case parse_dedup_shard shard_bytes of
             None \<Rightarrow> None
           | Some (Inl e) \<Rightarrow> Some (Inl e)
           | Some (Inr entry) \<Rightarrow>
               (let cache = ss_dedup_cache ss @ [entry] in
                Some (Inr (True, ss\<lparr>ss_dedup_cache := drop (length cache - DEDUP_CACHE_MAX_SHARDS) cache\<rparr>)))))"

fun dedup_cache_query ::
  "keyed_hash \<Rightarrow> u64 \<Rightarrow> cached_dedup_shard list \<Rightarrow> merkle_hash list \<Rightarrow> (nat \<times> file_data_sequence_entry) option option" where
  "dedup_cache_query kh now [] query_hashes = Some None"
| "dedup_cache_query kh now (entry # cache) query_hashes =
     (let expiry = ft_shard_key_expiry (si_metadata (cd_info entry)) in
      if expiry \<noteq> 0 \<and> expiry < now then dedup_cache_query kh now cache query_hashes
      else
        case (case chunk_hmac_key (cd_info entry) of
                Some key \<Rightarrow> shard_dedup_query (cd_shard entry) (map (\<lambda>h. hmac kh h key) query_hashes)
              | None \<Rightarrow> shard_dedup_query (cd_shard entry) query_hashes) of
          None \<Rightarrow> None
        | Some (Some r) \<Rightarrow> Some (Some r)
        | Some None \<Rightarrow> dedup_cache_query kh now cache query_hashes)"

definition session_dedup_query ::
  "keyed_hash \<Rightarrow> u64 \<Rightarrow> session_shard_interface \<Rightarrow> merkle_hash list \<Rightarrow> dedup_result option option" where
  "session_dedup_query kh now ss query_hashes =
     (case shard_dedup_query (ss_session_shard ss) query_hashes of
        None \<Rightarrow> None
      | Some (Some (n, fse)) \<Rightarrow> Some (Some (n, fse, False))
      | Some None \<Rightarrow>
          map_option (map_option (\<lambda>(n, fse). (n, fse, True))) (dedup_cache_query kh now (ss_dedup_cache ss) query_hashes))"

definition session_add_xorb_block :: "mdb_xorb_info \<Rightarrow> session_shard_interface \<Rightarrow> session_shard_interface" where
  "session_add_xorb_block info ss = ss\<lparr>ss_session_shard := add_xorb_block info (ss_session_shard ss)\<rparr>"

definition session_add_uploaded_xorb_block :: "mdb_xorb_info \<Rightarrow> session_shard_interface \<Rightarrow> session_shard_interface" where
  "session_add_uploaded_xorb_block info ss = ss"

definition session_add_file_info :: "mdb_file_info \<Rightarrow> session_shard_interface \<Rightarrow> session_shard_interface" where
  "session_add_file_info info ss = ss\<lparr>ss_session_shard := add_file_reconstruction_info info (ss_session_shard ss)\<rparr>"

definition session_file_info_list :: "session_shard_interface \<Rightarrow> mdb_file_info list" where
  "session_file_info_list ss = map snd (file_content (ss_session_shard ss))"

text \<open>\<open>permit\<close> and \<open>upload\<close> are what the client answers; the bytes uploaded and their count.\<close>

definition upload_and_register_session_shards ::
  "key_sort \<Rightarrow> (client_error + unit) \<Rightarrow> (bytes \<Rightarrow> client_error + unit) \<Rightarrow> session_shard_interface \<Rightarrow> data_error + u64" where
  "upload_and_register_session_shards srt permit upload ss =
     (if shard_is_empty (ss_session_shard ss) then Inr 0
      else
        let shard_data = shard_to_bytes srt (ss_session_shard ss); n_bytes = of_nat (length shard_data) in
        if ss_dry_run ss then Inr n_bytes
        else
          (case permit of
             Inl e \<Rightarrow> Inl (ClientError e)
           | Inr _ \<Rightarrow> (case upload shard_data of Inl e \<Rightarrow> Inl (ClientError e) | Inr _ \<Rightarrow> Inr n_bytes)))"

section \<open>Reading a shard never panics\<close>

lemma sequence_options_total:
  "(\<And>i. i < n \<Longrightarrow> \<exists>x. f i = Some x) \<Longrightarrow> \<exists>xs. sequence_options (map f [0..<n]) = Some xs \<and> length xs = n"
proof -
  assume "\<And>i. i < n \<Longrightarrow> \<exists>x. f i = Some x"
  then have "map f [0..<n] = map Some (map (\<lambda>i. the (f i)) [0..<n])" by fastforce
  then show ?thesis unfolding sequence_options_Some by (intro exI [of _ "map (\<lambda>i. the (f i)) [0..<n]"]) simp
qed

lemma try_u32_unat [simp]: "try_u32 (unat w) = Some w"
  using unsigned_less [of w, where ?'a = nat] by (simp add: try_u32_def)

lemma expect_read_full: "codec ser de n ok \<Longrightarrow> n \<le> length bs \<Longrightarrow> \<exists>x. expect_read (de bs) = Some x"
  by (drule (1) codec.de_full) (auto simp: expect_read_def)

lemmas expect_reads =
  expect_read_full [OF xorb_entry_codec.codec_axioms] expect_read_full [OF file_entry_codec.codec_axioms]
  expect_read_full [OF file_verification_codec.codec_axioms]

lemma xorb_view_total:
  assumes "xorb_view_from_data_and_header header d = Inr v"
  shows "\<exists>info. xorb_info_from_view v = Some info \<and> length (xorb_chunks info) < 2 ^ 32"
proof -
  have v: "xview_data v = d" "xview_header v = header" "48 + unat (xh_num_entries header) * 48 \<le> length d"
    using assms by (auto simp: xorb_view_from_data_and_header_def Let_def split: if_splits)
  have "\<exists>x. xorb_view_chunk v i = Some x" if "i < xorb_view_num_entries v" for i
    using that v(3) unfolding xorb_view_chunk_def xorb_view_num_entries_def v(1,2) by (intro expect_reads) simp
  then obtain chunks where "sequence_options (map (xorb_view_chunk v) [0..<xorb_view_num_entries v]) = Some chunks"
    "length chunks = xorb_view_num_entries v"
    using sequence_options_total [of "xorb_view_num_entries v"] by blast
  then show ?thesis
    using unsigned_less [of "xh_num_entries header", where ?'a = nat]
    by (simp add: xorb_info_from_view_def xorb_header_new_def Let_def xorb_view_num_entries_def v(2))
qed

lemma file_view_total:
  assumes "file_view_from_data_and_header header d = Inr v"
  shows "\<exists>info. file_info_from_view v = Some info"
proof -
  let ?n = "unat (fh_num_entries header)"
  have v: "view_data v = d" "view_header v = header" "(1 + ?n + (if header_contains_verification header then ?n else 0)) * 48 \<le> length d"
    using assms by (auto simp: file_view_from_data_and_header_def Let_def MDB_FILE_INFO_ENTRY_SIZE_def split: if_splits)
  have "\<exists>x. file_view_entry v i = Some x" if "i < ?n" for i
    using that v(3) unfolding file_view_entry_def v(1) MDB_FILE_INFO_ENTRY_SIZE_def by (intro expect_reads) simp
  then obtain es where es: "sequence_options (map (file_view_entry v) [0..<?n]) = Some es" "length es = ?n"
    using sequence_options_total [of ?n] by blast
  have "\<exists>x. file_view_verification v i = Some x" if "i < ?n" "header_contains_verification header" for i
    using that v(3) unfolding file_view_verification_def file_view_num_entries_def v(1,2) MDB_FILE_INFO_ENTRY_SIZE_def
    by (intro expect_reads) simp
  then have "header_contains_verification header \<Longrightarrow> \<exists>vs. sequence_options (map (file_view_verification v) [0..<?n]) = Some vs"
    using sequence_options_total [of ?n] by blast
  then show ?thesis
    using es v(2) by (auto simp: file_info_from_view_def file_header_new_def Let_def file_view_num_entries_def)
qed

lemma xorb_section_inv:
  assumes "\<And>s v header d. xorb_view_from_data_and_header header d = Inr v \<Longrightarrow> P s \<Longrightarrow> \<exists>s'. cb s v = Some (Inr s') \<and> P s'"
  shows "P s \<Longrightarrow> \<exists>r. process_shard_xorb_info_section cb s bs = Some r \<and> (\<forall>s' rest. r = Inr (s', rest) \<longrightarrow> P s')"
proof (induction "length bs" arbitrary: s bs rule: less_induct)
  case less
  show ?case
  proof (cases "xorb_header_deserialize bs")
    case (Inr x)
    obtain header rest where x: "x = (header, rest)" by (cases x)
    let ?n = "unat (xh_num_entries header) * 48"
    let ?view = "xorb_view_from_data_and_header header (xorb_header_serialize header @ take ?n rest)"
    have len: "length (drop ?n rest) < length bs" using header_shorter(2) Inr x by fastforce
    show ?thesis
    proof (cases "xorb_header_is_bookend header \<or> (\<exists>e. ?view = Inl e)")
      case True
      then show ?thesis
        using Inr x less.prems by (auto simp: process_shard_xorb_info_section.simps [of cb s bs] Let_def)
    next
      case False
      then obtain v where v: "?view = Inr v" by (cases ?view) auto
      then obtain s' where s': "cb s v = Some (Inr s')" "P s'" using assms less.prems by blast
      then show ?thesis
        using less.hyps [OF len s'(2)] False v Inr x by (simp add: process_shard_xorb_info_section.simps [of cb s bs] Let_def)
    qed
  qed (simp add: process_shard_xorb_info_section.simps)
qed

lemma file_section_inv:
  assumes "\<And>s v header d. file_view_from_data_and_header header d = Inr v \<Longrightarrow> P s \<Longrightarrow> \<exists>s'. cb s v = Some (Inr s') \<and> P s'"
  shows "P s \<Longrightarrow> \<exists>r. process_shard_file_info_section cb s bs = Some r \<and> (\<forall>s' rest. r = Inr (s', rest) \<longrightarrow> P s')"
proof (induction "length bs" arbitrary: s bs rule: less_induct)
  case less
  show ?case
  proof (cases "file_header_deserialize bs")
    case (Inr x)
    obtain header rest where x: "x = (header, rest)" by (cases x)
    let ?n = "file_section_bytes header"
    let ?view = "file_view_from_data_and_header header (file_header_serialize header @ take ?n rest)"
    have len: "length (drop ?n rest) < length bs" using header_shorter(1) Inr x by fastforce
    show ?thesis
    proof (cases "file_header_is_bookend header \<or> (\<exists>e. ?view = Inl e)")
      case True
      then show ?thesis
        using Inr x less.prems by (auto simp: process_shard_file_info_section.simps [of cb s bs] Let_def)
    next
      case False
      then obtain v where v: "?view = Inr v" by (cases ?view) auto
      then obtain s' where s': "cb s v = Some (Inr s')" "P s'" using assms less.prems by blast
      then show ?thesis
        using less.hyps [OF len s'(2)] False v Inr x by (simp add: process_shard_file_info_section.simps [of cb s bs] Let_def)
    qed
  qed (simp add: process_shard_file_info_section.simps)
qed

lemma shard_default_inv: "shard_inv shard_default" "shard_xorbs shard_default = {}"
  by (simp_all add: shard_inv_def shard_default_def bt_sorted_def lookup_ok_def shard_xorbs_def)

lemma shard_from_reader_cases:
  obtains e where "shard_from_reader bs = Some (Inl e)" | s where "shard_from_reader bs = Some (Inr s)" "shard_inv s"
proof (cases "shard_header_deserialize bs")
  case (Inr x)
  let ?fcb = "\<lambda>s view. map_option (\<lambda>info. Inr (add_file_reconstruction_info info s) :: core_error + _) (file_info_from_view view)"
  let ?xcb = "\<lambda>s view. map_option (\<lambda>info. Inr (add_xorb_block info s) :: core_error + _) (xorb_info_from_view view)"
  have f: "\<exists>s'. ?fcb s v = Some (Inr s') \<and> shard_inv s'" if "file_view_from_data_and_header header d = Inr v" "shard_inv s" for s v header d
    using file_view_total [OF that(1)] add_file_inv [OF that(2)] by auto
  have x: "\<exists>s'. ?xcb s v = Some (Inr s') \<and> shard_inv s'" if "xorb_view_from_data_and_header header d = Inr v" "shard_inv s" for s v header d
    using xorb_view_total [OF that(1)] add_xorb_block_inv(1) [OF that(2)] by auto
  obtain r where r: "process_shard_file_info_section ?fcb shard_default (snd x) = Some r" "\<And>s rest. r = Inr (s, rest) \<Longrightarrow> shard_inv s"
    using file_section_inv [of shard_inv ?fcb shard_default "snd x"] f shard_default_inv(1) by blast
  show thesis
  proof (cases r)
    case (Inr y)
    then obtain q where "process_shard_xorb_info_section ?xcb (fst y) (snd y) = Some q" "\<And>s rest. q = Inr (s, rest) \<Longrightarrow> shard_inv s"
      using xorb_section_inv [of shard_inv ?xcb "fst y" "snd y"] x r(2) [of "fst y" "snd y"] by auto
    then show thesis
      using that \<open>shard_header_deserialize bs = Inr x\<close> r(1) Inr
      by (cases q; cases x; cases y) (auto simp: shard_from_reader_def)
  qed (use that \<open>shard_header_deserialize bs = Inr x\<close> r(1) in \<open>cases x; simp add: shard_from_reader_def\<close>)
qed (use that in \<open>simp add: shard_from_reader_def\<close>)

lemma shard_dedup_query_total:
  assumes "shard_inv s"
  shows "\<exists>r. shard_dedup_query s hs = Some r \<and> (case r of None \<Rightarrow> True | Some (n, _) \<Rightarrow> 0 < n \<and> n \<le> length hs)"
proof (cases "hs = [] \<or> map_of (chunk_hash_lookup s) (hs ! 0) = None")
  case False
  then obtain info i where "map_of (chunk_hash_lookup s) (hs ! 0) = Some (info, i)" "hs \<noteq> []" by auto
  from shard_dedup_query_hit [OF assms this] show ?thesis by fastforce
qed (simp add: shard_dedup_query_miss)


section \<open>What a query answers\<close>

lemma unat_sum_list_u32:
  fixes ws :: "u32 list"
  shows "sum_list (map unat ws) < 2 ^ 32 \<Longrightarrow> unat (sum_list ws) = sum_list (map unat ws)"
proof (induction ws)
  case (Cons w ws)
  then have "unat (sum_list ws) = sum_list (map unat ws)" by simp
  then show ?case using Cons.prems by (simp add: unat_add_lem [THEN iffD1])
qed simp

lemma unat_ucast_u32_u64: "unat (ucast (w :: u32) :: u64) = unat w"
  using unsigned_less [of w, where ?'a = nat] by (simp add: unsigned_ucast_eq take_bit_nat_eq_self)

lemma node_bytes_entries: "node_bytes (map entry_node es) = sum_list (map unat (map xe_unpacked_segment_bytes es))"
  by (induction es) (simp_all add: entry_node_def unat_ucast_u32_u64)

lemma unpacked_bytes:
  assumes "node_bytes (xorb_nodes info) < 2 ^ 32"
  shows "unat (sum_list (map xe_unpacked_segment_bytes (slice (xorb_chunks info) a b))) = node_bytes (slice (xorb_nodes info) a b)"
proof -
  have "slice (xorb_nodes info) a b = map entry_node (slice (xorb_chunks info) a b)"
    by (simp add: xorb_nodes_def slice_def take_map drop_map)
  then show ?thesis
    using unat_sum_list_u32 assms node_bytes_slice [of "xorb_nodes info" a b] by (simp add: node_bytes_entries)
qed

text \<open>An answer of a shard is a range of chunks of one of its xorbs.\<close>

definition answers :: "mdb_xorb_info \<Rightarrow> merkle_hash list \<Rightarrow> nat \<Rightarrow> file_data_sequence_entry \<Rightarrow> bool" where
  "answers info hs n fse \<longleftrightarrow>
     (let a = unat (fe_chunk_index_start fse); b = unat (fe_chunk_index_end fse) in
      a < b \<and> b \<le> length (xorb_chunks info) \<and> fe_xorb_hash fse = xh_xorb_hash (xorb_metadata info) \<and>
      map fst (slice (xorb_nodes info) a b) = take n hs \<and>
      (node_bytes (xorb_nodes info) < 2 ^ 32 \<longrightarrow> unat (fe_unpacked_segment_bytes fse) = node_bytes (slice (xorb_nodes info) a b)))"

lemma shard_dedup_query_answers:
  assumes "shard_inv s" and "shard_dedup_query s hs = Some (Some (n, fse))"
  shows "\<exists>info \<in> shard_xorbs s. answers info hs n fse"
proof -
  obtain info i where q: "map_of (chunk_hash_lookup s) (hs ! 0) = Some (info, i)" and hs: "hs \<noteq> []"
    using assms(2) by (auto simp: shard_dedup_query_def split: if_splits option.splits)
  have len: "length (xorb_chunks info) < 2 ^ 32" using assms(1) q by (auto simp: shard_inv_def lookup_ok_def)
  from shard_dedup_query_hit [OF assms(1) q hs] show ?thesis
  proof cases
    case (1 n' fse')
    have "unat (of_nat (unat i) :: u32) = unat i" "unat (of_nat (unat i + n') :: u32) = unat i + n'"
      using 1(4) len by (intro unat_of_nat_u32; simp)+
    moreover have "map fst (slice (xorb_nodes info) (unat i) (unat i + n')) = take n' hs"
      using 1(6) by (simp add: xorb_nodes_def slice_def take_map drop_map entry_node_def comp_def)
    ultimately have "answers info hs n' fse'"
      using 1 unpacked_bytes [of info "unat i" "unat i + n'"] by (simp add: answers_def Let_def)
    moreover have "info \<in> shard_xorbs s" using q by (auto simp: shard_xorbs_def)
    ultimately show ?thesis using 1(1) assms(2) by auto
  qed
qed

text \<open>A xorb of the store, or one with the same lengths and with its chunk hashes under a key.\<close>

lemma answers_refers:
  assumes "answers info hs n fse" and "(xh_xorb_hash (xorb_metadata info), ns) \<in> S" and "xorb_ok ns"
    and "xorb_nodes info = map (\<lambda>(h, sz). (k h, sz)) ns"
  shows "\<exists>part. refers S fse part \<and> map k (map fst part) = take n hs"
proof -
  let ?a = "unat (fe_chunk_index_start fse)" and ?b = "unat (fe_chunk_index_end fse)"
  have sl: "slice (xorb_nodes info) ?a ?b = map (\<lambda>(h, sz). (k h, sz)) (slice ns ?a ?b)"
    by (simp add: assms(4) slice_def take_map drop_map)
  have nb: "node_bytes (map (\<lambda>(h, sz). (k h, sz)) ms) = node_bytes ms" for ms
    by (induction ms) auto
  have "length (xorb_chunks info) = length ns" using arg_cong [OF assms(4), of length] by (simp add: xorb_nodes_def)
  moreover have "node_bytes (xorb_nodes info) < 2 ^ 32"
    using assms(3) unfolding assms(4) nb xorb_ok_def by (simp add: MAX_XORB_vals)
  ultimately have "refers S fse (slice ns ?a ?b)"
    using assms(1,2) nb sl by (auto simp: answers_def Let_def refers_def)
  moreover have "map k (map fst (slice ns ?a ?b)) = take n hs"
    using assms(1) unfolding answers_def Let_def sl by (auto simp: comp_def case_prod_unfold)
  ultimately show ?thesis by blast
qed

section \<open>The contract of the shards\<close>

text \<open>
  What the server promises about a shard it sends: its xorbs are stored, with the chunk hashes under the
  key of the shard. \<open>keys\<close> are the keys in use.
\<close>

definition served_ok :: "keyed_hash \<Rightarrow> (merkle_hash \<Rightarrow> merkle_hash) set \<Rightarrow> store \<Rightarrow> cached_dedup_shard \<Rightarrow> bool" where
  "served_ok kh keys remote entry \<longleftrightarrow>
     keyed_chunk_hash kh (cd_info entry) \<in> keys \<and>
     (\<forall>info \<in> shard_xorbs (cd_shard entry). \<exists>ns. (xh_xorb_hash (xorb_metadata info), ns) \<in> remote \<and>
        xorb_nodes info = map (\<lambda>(h, sz). (keyed_chunk_hash kh (cd_info entry) h, sz)) ns)"

definition shards_ok ::
  "keyed_hash \<Rightarrow> (merkle_hash \<Rightarrow> merkle_hash) set \<Rightarrow> store \<Rightarrow> mdb_xorb_info set \<Rightarrow> session_shard_interface \<Rightarrow> bool" where
  "shards_ok kh keys remote own ss \<longleftrightarrow>
     shard_inv (ss_session_shard ss) \<and> shard_xorbs (ss_session_shard ss) \<subseteq> own \<and>
     (\<forall>entry \<in> set (ss_dedup_cache ss). shard_inv (cd_shard entry) \<and> served_ok kh keys remote entry)"

lemma shards_ok_new: "shards_ok kh keys remote {} (session_shard_interface_new dry_run)"
  by (simp add: shards_ok_def session_shard_interface_new_def shard_default_inv)

lemma shards_ok_mono: "shards_ok kh keys remote own ss \<Longrightarrow> own \<subseteq> own' \<Longrightarrow> shards_ok kh keys remote own' ss"
  by (auto simp: shards_ok_def)

lemma shards_ok_add_xorb:
  assumes "shards_ok kh keys remote own ss" and "length (xorb_chunks info) < 2 ^ 32" and "info \<in> own"
  shows "shards_ok kh keys remote own (session_add_xorb_block info ss)"
  using assms(1,3) add_xorb_block_inv [OF _ assms(2), of "ss_session_shard ss"]
  by (auto simp: shards_ok_def session_add_xorb_block_def)

lemma shards_ok_add_file:
  "shards_ok kh keys remote own ss \<Longrightarrow> shards_ok kh keys remote own (session_add_file_info info ss)"
  by (simp add: shards_ok_def session_add_file_info_def add_file_inv) (simp add: shard_xorbs_def add_file_reconstruction_info_def)

definition honest_answer ::
  "keyed_hash \<Rightarrow> (merkle_hash \<Rightarrow> merkle_hash) set \<Rightarrow> store \<Rightarrow> (client_error + bytes option) \<Rightarrow> bool" where
  "honest_answer kh keys remote answer \<longleftrightarrow>
     (\<forall>bs entry. answer = Inr (Some bs) \<and> parse_dedup_shard bs = Some (Inr entry) \<longrightarrow> served_ok kh keys remote entry)"

lemma parse_dedup_shard_inv:
  "parse_dedup_shard bs \<noteq> None" "parse_dedup_shard bs = Some (Inr entry) \<Longrightarrow> shard_inv (cd_shard entry)"
  by (cases rule: shard_from_reader_cases [of bs]; auto simp: parse_dedup_shard_def split: sum.splits)+

lemma query_dedup_shard_ok:
  assumes "shards_ok kh keys remote own ss" and "honest_answer kh keys remote answer"
  shows "returns (query_dedup_shard_by_chunk answer ss) (\<lambda>(_, ss'). shards_ok kh keys remote own ss')"
proof (cases "\<exists>bs. answer = Inr (Some bs)")
  case True
  then obtain bs where bs: "answer = Inr (Some bs)" by blast
  obtain r where r: "parse_dedup_shard bs = Some r" using parse_dedup_shard_inv(1) by blast
  show ?thesis
  proof (cases r)
    case (Inr entry)
    then have "shard_inv (cd_shard entry)" "served_ok kh keys remote entry"
      using parse_dedup_shard_inv(2) assms(2) bs r by (auto simp: honest_answer_def)
    then show ?thesis
      using assms(1) bs r Inr by (auto simp: query_dedup_shard_by_chunk_def shards_ok_def Let_def dest!: in_set_dropD)
  qed (simp add: query_dedup_shard_by_chunk_def bs r)
next
  case False
  then show ?thesis
    using assms(1) by (auto simp: query_dedup_shard_by_chunk_def split: sum.split option.split)
qed

text \<open>A good answer: a number of chunks and an entry that refers to stored chunks with the hashes asked for.\<close>

definition good_answer ::
  "(merkle_hash \<Rightarrow> merkle_hash) set \<Rightarrow> store \<Rightarrow> merkle_hash list \<Rightarrow> nat \<Rightarrow> file_data_sequence_entry \<Rightarrow> bool" where
  "good_answer keys S hs n fse \<longleftrightarrow> 0 < n \<and> n \<le> length hs \<and>
     (good_store S \<longrightarrow> (\<exists>part. refers S fse part \<and> same_key keys (map fst part) (take n hs)))"

lemma dedup_cache_query_keyed:
  "dedup_cache_query kh now (entry # cache) hs =
     (if ft_shard_key_expiry (si_metadata (cd_info entry)) \<noteq> 0 \<and> ft_shard_key_expiry (si_metadata (cd_info entry)) < now
      then dedup_cache_query kh now cache hs
      else case shard_dedup_query (cd_shard entry) (map (keyed_chunk_hash kh (cd_info entry)) hs) of
             None \<Rightarrow> None | Some (Some r) \<Rightarrow> Some (Some r) | Some None \<Rightarrow> dedup_cache_query kh now cache hs)"
proof -
  have "(case chunk_hmac_key info of Some key \<Rightarrow> shard_dedup_query sh (map (\<lambda>h. hmac kh h key) hs) | None \<Rightarrow> shard_dedup_query sh hs) =
      shard_dedup_query sh (map (keyed_chunk_hash kh info) hs)" for info sh
    by (simp add: chunk_hmac_key_def keyed_chunk_hash_def [abs_def])
  then show ?thesis by (simp add: Let_def)
qed

lemma served_answer:
  assumes "shard_inv (cd_shard entry)" and "served_ok kh keys remote entry" and "remote \<subseteq> S"
    and "shard_dedup_query (cd_shard entry) (map (keyed_chunk_hash kh (cd_info entry)) hs) = Some (Some (n, fse))"
  shows "good_answer keys S hs n fse"
proof -
  let ?k = "keyed_chunk_hash kh (cd_info entry)"
  have n: "0 < n \<and> n \<le> length hs" using shard_dedup_query_total [OF assms(1), of "map ?k hs"] assms(4) by simp
  obtain info where info: "info \<in> shard_xorbs (cd_shard entry)" "answers info (map ?k hs) n fse"
    using shard_dedup_query_answers [OF assms(1,4)] by blast
  then obtain ns where ns: "(xh_xorb_hash (xorb_metadata info), ns) \<in> S" "xorb_nodes info = map (\<lambda>(h, sz). (?k h, sz)) ns"
    using assms(2,3) unfolding served_ok_def by blast
  have "\<exists>part. refers S fse part \<and> same_key keys (map fst part) (take n hs)" if "good_store S"
  proof -
    have "xorb_ok ns" using that ns(1) by (auto simp: good_store_def)
    from answers_refers [OF info(2) ns(1) this ns(2)]
    obtain part where "refers S fse part" "map ?k (map fst part) = map ?k (take n hs)" by (auto simp: take_map)
    moreover have "?k \<in> keys" using assms(2) by (simp add: served_ok_def)
    ultimately show ?thesis unfolding same_key_def by blast
  qed
  then show ?thesis using n by (simp add: good_answer_def)
qed

lemma dedup_cache_query_ok:
  "\<forall>entry \<in> set cache. shard_inv (cd_shard entry) \<and> served_ok kh keys remote entry \<Longrightarrow> remote \<subseteq> S \<Longrightarrow>
     \<exists>r. dedup_cache_query kh now cache hs = Some r \<and> (case r of None \<Rightarrow> True | Some (n, fse) \<Rightarrow> good_answer keys S hs n fse)"
proof (induction cache)
  case (Cons entry cache)
  then have entry: "shard_inv (cd_shard entry)" "served_ok kh keys remote entry" by simp_all
  from shard_dedup_query_total [OF this(1), of "map (keyed_chunk_hash kh (cd_info entry)) hs"]
  obtain r where r: "shard_dedup_query (cd_shard entry) (map (keyed_chunk_hash kh (cd_info entry)) hs) = Some r" by blast
  show ?case
  proof (cases r)
    case None
    then show ?thesis using Cons r by (simp add: dedup_cache_query_keyed del: dedup_cache_query.simps)
  next
    case (Some x)
    then show ?thesis
      using Cons served_answer [OF entry Cons.prems(2), of hs "fst x" "snd x"] r
      by (cases x) (simp add: dedup_cache_query_keyed del: dedup_cache_query.simps)
  qed
qed simp

lemma session_dedup_query_ok:
  assumes ok: "shards_ok kh keys remote own ss" and keys: "(\<lambda>h. h) \<in> keys"
    and S: "remote \<subseteq> S" "\<forall>info \<in> own. (xh_xorb_hash (xorb_metadata info), xorb_nodes info) \<in> S"
  shows "\<exists>r. session_dedup_query kh now ss hs = Some r \<and> (case r of None \<Rightarrow> True | Some (n, fse, _) \<Rightarrow> good_answer keys S hs n fse)"
proof -
  have inv: "shard_inv (ss_session_shard ss)" using ok by (simp add: shards_ok_def)
  obtain r where r: "shard_dedup_query (ss_session_shard ss) hs = Some r"
    "case r of None \<Rightarrow> True | Some (n, _) \<Rightarrow> 0 < n \<and> n \<le> length hs"
    using shard_dedup_query_total [OF inv] by blast
  show ?thesis
  proof (cases r)
    case None
    obtain q where "dedup_cache_query kh now (ss_dedup_cache ss) hs = Some q"
      "case q of None \<Rightarrow> True | Some (n, fse) \<Rightarrow> good_answer keys S hs n fse"
      using dedup_cache_query_ok [of "ss_dedup_cache ss" kh keys remote S now hs] ok S(1) by (auto simp: shards_ok_def)
    then show ?thesis using r(1) None by (auto simp: session_dedup_query_def split: option.splits)
  next
    case (Some x)
    obtain n fse where x: "x = (n, fse)" by (cases x)
    obtain info where info: "info \<in> own" "answers info hs n fse"
      using shard_dedup_query_answers [OF inv, of hs n fse] r(1) ok unfolding Some x shards_ok_def by blast
    have "\<exists>part. refers S fse part \<and> same_key keys (map fst part) (take n hs)" if "good_store S"
    proof -
      have "(xh_xorb_hash (xorb_metadata info), xorb_nodes info) \<in> S" "xorb_ok (xorb_nodes info)"
        using that S(2) info(1) by (auto simp: good_store_def)
      from answers_refers [OF info(2) this, of "\<lambda>h. h"]
      obtain part where part: "refers S fse part" "map fst part = take n hs" by auto
      then have "same_key keys (map fst part) (take n hs)" unfolding same_key_def by (intro bexI [OF _ keys]) simp
      then show ?thesis using part(1) by blast
    qed
    then show ?thesis using r Some x by (auto simp: session_dedup_query_def good_answer_def)
  qed
qed

end
