(* ===== verification/Upload_Session.thy ===== *)
theory Upload_Session
  imports Session_Shards Upload_Tracking Xorb_Object
begin

text \<open>
  The upload session, \<open>xet_data/src/processing/file_upload_session.rs\<close>, its adapter for the deduper
  (\<open>deduplication_interface.rs\<close>), the cleaner of a single file (\<open>file_cleaner.rs\<close>), the SHA-256 generator
  (\<open>sha256.rs\<close>) and \<open>XetFileInfo\<close> (\<open>xet_file.rs\<close>), in the configuration without the feature \<open>simulation\<close>
  and with the shard interface of \<open>Session_Shards\<close>.

  The session behind the \<open>Arc\<close> is a value that every operation takes and returns, also with an error;
  the outer option is a panic or a loop that does not end. The world outside is the record
  \<open>session_env\<close>: the remote client, the clock, the hash functions, the compressor, the floating-point
  decisions, the configuration, and \<open>se_runs\<close>, which says at each moment whether a waiting background
  task runs now. \<open>us_tick\<close> numbers the moments. A background task (the upload of a xorb, a global
  dedup query) runs as a whole at an operation of the session or of the data manager at or after the one
  that spawned it, and results are joined in the order of the tasks. The deduper's background step runs
  when it is spawned; its result is seen by the next operation, as in the code. A progress report that
  the client makes after the upload has completed is ignored by the tracker and not modelled. Names, spans
  and identifiers that are only logged are left out.

  \<open>us_registered\<close> and \<open>us_uploaded\<close> record the xorbs handed over for upload and those whose upload the
  client confirmed; no operation reads them.
\<close>

section \<open>The world outside\<close>

text \<open>An upload: the progress reports (bytes, total) and the result.\<close>

record session_env =
  se_query_for_global_dedup_shard :: "nat \<Rightarrow> merkle_hash \<Rightarrow> client_error + bytes option"
  se_acquire_upload_permit :: "nat \<Rightarrow> client_error + unit"
  se_upload_xorb :: "nat \<Rightarrow> serialized_xorb_object \<Rightarrow> (u64 \<times> u64) list \<times> (client_error + u64)"
  se_upload_shard :: "nat \<Rightarrow> bytes \<Rightarrow> client_error + unit"
  se_now :: "nat \<Rightarrow> u64"
  se_runs :: "nat \<Rightarrow> bool"
  se_keyed_hash :: keyed_hash
  se_next_match :: next_match
  se_sha256 :: "bytes \<Rightarrow> bytes"
  se_lz4 :: lz4_enc
  se_recommended :: "u32 list \<Rightarrow> bool"
  se_alignment :: "bytes \<Rightarrow> nat"
  se_ratio :: "u64 \<Rightarrow> u64 \<Rightarrow> u64 \<Rightarrow> u64"
  se_sort :: key_sort
  se_defrag :: defrag_config
  se_global_dedup_query_enabled :: bool
  se_compression_policy :: string
  se_retest_interval :: nat
  se_ingestion_block_size :: nat

section \<open>The session\<close>

datatype upload_task =
    Upload_Waiting serialized_xorb_object mdb_xorb_info
  | Upload_Done "data_error + unit"

record file_upload_session =
  us_shards :: session_shard_interface
  us_tracker :: completion_tracker
  us_data :: data_aggregator
  us_metrics :: deduplication_metrics
  us_tasks :: "upload_task list"
  us_finalized :: bool
  us_tick :: nat
  us_registered :: "raw_xorb_data list"
  us_uploaded :: "serialized_xorb_object list"

type_synonym 'a session_result = "((data_error + 'a) \<times> file_upload_session) option"

definition upload_session_new :: "bool \<Rightarrow> file_upload_session" where
  "upload_session_new dry_run =
     \<lparr>us_shards = session_shard_interface_new dry_run, us_tracker = completion_tracker_new,
      us_data = data_aggregator_default, us_metrics = metrics_default, us_tasks = [], us_finalized = False,
      us_tick = 0, us_registered = [], us_uploaded = []\<rparr>"

definition next_tick :: "file_upload_session \<Rightarrow> file_upload_session" where
  "next_tick s = s\<lparr>us_tick := us_tick s + 1\<rparr>"

subsection \<open>Upload tasks\<close>

text \<open>The progress callback, for each report.\<close>

fun upload_progress ::
  "(u64 \<Rightarrow> u64 \<Rightarrow> u64 \<Rightarrow> u64) \<Rightarrow> merkle_hash \<Rightarrow> u64 \<Rightarrow> (u64 \<times> u64) list \<Rightarrow> completion_tracker \<Rightarrow> completion_tracker option" where
  "upload_progress ratio h raw_num_bytes [] t = Some t"
| "upload_progress ratio h raw_num_bytes ((delta, total_sz) # reports) t =
     (let raw_delta = (if total_sz = 0 then 0 else delta * raw_num_bytes div total_sz) in
      Option.bind (if 0 < raw_delta then register_xorb_upload_progress ratio h raw_delta False t else Some t)
        (upload_progress ratio h raw_num_bytes reports))"

definition upload_xorb_task ::
  "session_env \<Rightarrow> serialized_xorb_object \<Rightarrow> mdb_xorb_info \<Rightarrow> file_upload_session \<Rightarrow> unit session_result" where
  "upload_xorb_task env xorb_obj xorb_info s =
     (let (reports, r) = se_upload_xorb env (us_tick s) xorb_obj; s = next_tick s in
      Option.bind (upload_progress (se_ratio env) (sx_hash xorb_obj) (sx_raw_num_bytes xorb_obj) reports (us_tracker s)) (\<lambda>t.
        case r of
          Inl e \<Rightarrow> Some (Inl (ClientError e), s\<lparr>us_tracker := t\<rparr>)
        | Inr n_bytes_transmitted \<Rightarrow>
            Option.bind (register_xorb_upload_completion (sx_hash xorb_obj) t) (\<lambda>t.
              Some (Inr (), s\<lparr>us_tracker := t,
                us_metrics := (us_metrics s)\<lparr>xorb_bytes_uploaded := xorb_bytes_uploaded (us_metrics s) + n_bytes_transmitted\<rparr>,
                us_shards := session_add_uploaded_xorb_block xorb_info (us_shards s),
                us_uploaded := us_uploaded s @ [xorb_obj]\<rparr>))))"

text \<open>The waiting tasks that run at this moment.\<close>

fun run_upload_tasks ::
  "session_env \<Rightarrow> upload_task list \<Rightarrow> file_upload_session \<Rightarrow> (upload_task list \<times> file_upload_session) option" where
  "run_upload_tasks env [] s = Some ([], s)"
| "run_upload_tasks env (Upload_Done r # tasks) s =
     map_option (\<lambda>(tasks, s). (Upload_Done r # tasks, s)) (run_upload_tasks env tasks s)"
| "run_upload_tasks env (Upload_Waiting xo info # tasks) s =
     (if se_runs env (us_tick s) then
        Option.bind (upload_xorb_task env xo info s) (\<lambda>(r, s).
          map_option (\<lambda>(tasks, s). (Upload_Done r # tasks, s)) (run_upload_tasks env tasks s))
      else map_option (\<lambda>(tasks, s). (Upload_Waiting xo info # tasks, s)) (run_upload_tasks env tasks (next_tick s)))"

text \<open>\<open>try_join_next\<close> until no task is finished or one has failed: the error and the tasks left.\<close>

fun try_join_tasks :: "upload_task list \<Rightarrow> data_error option \<times> upload_task list" where
  "try_join_tasks [] = (None, [])"
| "try_join_tasks (Upload_Done (Inl e) # tasks) = (Some e, tasks)"
| "try_join_tasks (Upload_Done (Inr _) # tasks) = try_join_tasks tasks"
| "try_join_tasks (Upload_Waiting xo info # tasks) =
     (let (r, tasks) = try_join_tasks tasks in (r, Upload_Waiting xo info # tasks))"

text \<open>\<open>join_next\<close> until no task is left or one has failed.\<close>

fun join_tasks ::
  "session_env \<Rightarrow> upload_task list \<Rightarrow> file_upload_session \<Rightarrow>
   ((data_error + unit) \<times> upload_task list \<times> file_upload_session) option" where
  "join_tasks env [] s = Some (Inr (), [], s)"
| "join_tasks env (Upload_Done (Inl e) # tasks) s = Some (Inl e, tasks, s)"
| "join_tasks env (Upload_Done (Inr _) # tasks) s = join_tasks env tasks s"
| "join_tasks env (Upload_Waiting xo info # tasks) s =
     Option.bind (upload_xorb_task env xo info s) (\<lambda>(r, s).
       case r of Inl e \<Rightarrow> Some (Inl e, tasks, s) | Inr _ \<Rightarrow> join_tasks env tasks s)"

subsection \<open>Xorbs\<close>

text \<open>A panic of the serialization on its compute thread is the error of joining it.\<close>

definition serialize_xorb :: "session_env \<Rightarrow> raw_xorb_data \<Rightarrow> data_error + serialized_xorb_object" where
  "serialize_xorb env x =
     (case from_xorb (se_recommended env) (se_alignment env) (se_lz4 env) x False (se_compression_policy env) (se_retest_interval env) of
        None \<Rightarrow> Inl JoinError
      | Some (Inl e) \<Rightarrow> Inl (FormatError e)
      | Some (Inr xorb_obj) \<Rightarrow> Inr xorb_obj)"

definition session_register_new_xorb ::
  "session_env \<Rightarrow> raw_xorb_data \<Rightarrow> file_xorb_dependency list \<Rightarrow> file_upload_session \<Rightarrow> bool session_result" where
  "session_register_new_xorb env x file_dependencies s =
     Option.bind (run_upload_tasks env (us_tasks s) s) (\<lambda>(tasks, s).
       let (failed, tasks) = try_join_tasks tasks; s = s\<lparr>us_tasks := tasks\<rparr> in
       case failed of
         Some e \<Rightarrow> Some (Inl e, s)
       | None \<Rightarrow>
           let h = raw_xorb_hash x;
               (xorb_is_new, t) = tracker_register_new_xorb h (of_nat (raw_xorb_num_bytes x)) (us_tracker s)
           in Option.bind (register_dependencies file_dependencies t) (\<lambda>t.
                let s = s\<lparr>us_tracker := t, us_registered := us_registered s @ [x]\<rparr> in
                if \<not> xorb_is_new then Some (Inr False, s)
                else if raw_xorb_num_bytes x = 0 then
                  Option.bind (register_xorb_upload_completion h (us_tracker s)) (\<lambda>t. Some (Inr True, s\<lparr>us_tracker := t\<rparr>))
                else
                  let s = s\<lparr>us_shards := session_add_xorb_block (rx_xorb_info x) (us_shards s)\<rparr> in
                  case serialize_xorb env x of
                    Inl e \<Rightarrow> Some (Inl e, s)
                  | Inr xorb_obj \<Rightarrow>
                      let permit = se_acquire_upload_permit env (us_tick s); s = next_tick s in
                      case permit of
                        Inl e \<Rightarrow> Some (Inl (ClientError e), s)
                      | Inr _ \<Rightarrow> Some (Inr True, s\<lparr>us_tasks := us_tasks s @ [Upload_Waiting xorb_obj (rx_xorb_info x)]\<rparr>)))"

text \<open>The loop over the files: the dependencies, and the file infos, which go to the session shard or back to the caller.\<close>

definition process_aggregated_data_as_xorb_impl ::
  "session_env \<Rightarrow> data_aggregator \<Rightarrow> bool \<Rightarrow> file_upload_session \<Rightarrow> mdb_file_info list session_result" where
  "process_aggregated_data_as_xorb_impl env data_agg register_files s =
     Option.bind (da_finalize (se_keyed_hash env) data_agg) (\<lambda>(x, new_files).
       let new_dependencies = map (\<lambda>(file_id, fi, bytes_in_xorb).
             \<lparr>dep_file_id = file_id, dep_xorb_hash = raw_xorb_hash x, dep_n_bytes = bytes_in_xorb, dep_is_external = False\<rparr>) new_files;
           infos = map (\<lambda>(_, fi, _). fi) new_files;
           s = (if register_files then s\<lparr>us_shards := fold session_add_file_info infos (us_shards s)\<rparr> else s);
           file_infos = (if register_files then [] else infos)
       in Option.bind (session_register_new_xorb env x new_dependencies s) (\<lambda>(r, s).
            Some (rbind r (\<lambda>_. Inr file_infos), s)))"

definition process_aggregated_data_as_xorb ::
  "session_env \<Rightarrow> data_aggregator \<Rightarrow> file_upload_session \<Rightarrow> unit session_result" where
  "process_aggregated_data_as_xorb env data_agg s =
     map_option (\<lambda>(r, s). (rbind r (\<lambda>_. Inr ()), s)) (process_aggregated_data_as_xorb_impl env data_agg True s)"

definition process_aggregated_data_as_xorb_detached ::
  "session_env \<Rightarrow> data_aggregator \<Rightarrow> file_upload_session \<Rightarrow> mdb_file_info list session_result" where
  "process_aggregated_data_as_xorb_detached env data_agg s = process_aggregated_data_as_xorb_impl env data_agg False s"

definition merge_metrics :: "deduplication_metrics \<Rightarrow> file_upload_session \<Rightarrow> file_upload_session" where
  "merge_metrics dedup_metrics s = s\<lparr>us_metrics := metrics_merge_in (us_metrics s) dedup_metrics\<rparr>"

subsection \<open>Finished files\<close>

definition register_single_file_clean_completion ::
  "session_env \<Rightarrow> data_aggregator \<Rightarrow> deduplication_metrics \<Rightarrow> file_upload_session \<Rightarrow> unit session_result" where
  "register_single_file_clean_completion env file_data dedup_metrics s =
     (let current = us_data s in
      if MAX_XORB_BYTES < da_num_bytes current + da_num_bytes file_data \<or>
         MAX_XORB_CHUNKS < length (da_chunks current) + length (da_chunks file_data)
      then
        let (current, file_data) = (if da_num_bytes file_data < da_num_bytes current then (file_data, current) else (current, file_data))
        in Option.bind (process_aggregated_data_as_xorb env file_data (s\<lparr>us_data := current\<rparr>)) (\<lambda>(r, s).
             case r of Inl e \<Rightarrow> Some (Inl e, s) | Inr _ \<Rightarrow> Some (Inr (), merge_metrics dedup_metrics s))
      else Some (Inr (), merge_metrics dedup_metrics (s\<lparr>us_data := da_merge_in current file_data\<rparr>)))"

definition register_single_file_clean_completion_detached ::
  "session_env \<Rightarrow> data_aggregator \<Rightarrow> deduplication_metrics \<Rightarrow> file_upload_session \<Rightarrow> mdb_file_info session_result" where
  "register_single_file_clean_completion_detached env file_data dedup_metrics s =
     Option.bind (process_aggregated_data_as_xorb_detached env file_data s) (\<lambda>(r, s).
       case r of
         Inl e \<Rightarrow> Some (Inl e, s)
       | Inr file_infos \<Rightarrow>
           Some (case file_infos of [] \<Rightarrow> Inl DataInternalError | fi # _ \<Rightarrow> Inr fi, merge_metrics dedup_metrics s))"

definition session_register_xorb_dependencies ::
  "file_xorb_dependency list \<Rightarrow> file_upload_session \<Rightarrow> file_upload_session option" where
  "session_register_xorb_dependencies xorb_dependencies s =
     map_option (\<lambda>t. s\<lparr>us_tracker := t\<rparr>) (register_dependencies xorb_dependencies (us_tracker s))"

subsection \<open>The end of the session\<close>

definition check_not_finalized :: "file_upload_session \<Rightarrow> data_error + unit" where
  "check_not_finalized s = (if us_finalized s then Inl InvalidOperation else Inr ())"

definition finalize_impl ::
  "session_env \<Rightarrow> bool \<Rightarrow> file_upload_session \<Rightarrow> (deduplication_metrics \<times> mdb_file_info list \<times> group_progress) session_result" where
  "finalize_impl env return_files s =
     (if us_finalized s then Some (Inl InvalidOperation, s)
      else
        Option.bind (process_aggregated_data_as_xorb env (us_data s)
            (s\<lparr>us_finalized := True, us_data := data_aggregator_default\<rparr>)) (\<lambda>(r, s).
        case r of
          Inl e \<Rightarrow> Some (Inl e, s)
        | Inr _ \<Rightarrow>
            Option.bind (join_tasks env (us_tasks s) (s\<lparr>us_tasks := []\<rparr>)) (\<lambda>(r, _, s).
            case r of
              Inl e \<Rightarrow> Some (Inl e, s)
            | Inr _ \<Rightarrow>
                let metrics = us_metrics s;
                    all_file_info = (if return_files then session_file_info_list (us_shards s) else []);
                    s = s\<lparr>us_metrics := metrics_default\<rparr>;
                    shard_result = upload_and_register_session_shards (se_sort env) (se_acquire_upload_permit env (us_tick s))
                      (se_upload_shard env (us_tick s + 1)) (us_shards s);
                    s = next_tick (next_tick s)
                in case shard_result of
                     Inl e \<Rightarrow> Some (Inl e, s)
                   | Inr shard_bytes \<Rightarrow>
                       Some (Inr (metrics\<lparr>shard_bytes_uploaded := shard_bytes,
                         total_bytes_uploaded := shard_bytes + xorb_bytes_uploaded metrics\<rparr>,
                         all_file_info, ct_group (us_tracker s)), s))))"

definition session_checkpoint :: "session_env \<Rightarrow> file_upload_session \<Rightarrow> unit session_result" where
  "session_checkpoint env s =
     Option.bind (process_aggregated_data_as_xorb env (us_data s) (s\<lparr>us_data := data_aggregator_default\<rparr>)) (\<lambda>(r, s).
       case r of
         Inl e \<Rightarrow> Some (Inl e, s)
       | Inr _ \<Rightarrow>
           Option.bind (join_tasks env (us_tasks s) s) (\<lambda>(r, tasks, s). Some (r, s\<lparr>us_tasks := tasks\<rparr>)))"

definition register_composed_file :: "mdb_file_info \<Rightarrow> file_upload_session \<Rightarrow> unit session_result" where
  "register_composed_file file_info s =
     (case check_not_finalized s of
        Inl e \<Rightarrow> Some (Inl e, s)
      | Inr _ \<Rightarrow> Some (Inr (), s\<lparr>us_shards := session_add_file_info file_info (us_shards s)\<rparr>))"

end
