(* ===== verification/File_Cleaner.thy ===== *)
theory File_Cleaner
  imports Upload_Session
begin

text \<open>
  From the bytes of a file to its registration: the data manager of the deduper over an upload session
  (\<open>xet_data/src/processing/deduplication_interface.rs\<close>), the SHA-256 generator (\<open>sha256.rs\<close>),
  \<open>XetFileInfo\<close> (\<open>xet_file.rs\<close>), the cleaner of a single file (\<open>file_cleaner.rs\<close>) and the operations of
  \<open>file_upload_session.rs\<close> that create and feed cleaners.

  The manager holds the session; an error of the manager is the error and the session as it was left.
  The deduper's copy of the session is replaced by the current one before every step, as the \<open>Arc\<close> always
  leads to the current one. The SHA-256 function is the environment's; the incremental hasher is the
  bytes given to it so far.
\<close>

section \<open>The data manager\<close>

datatype query_task = Query_Waiting merkle_hash | Query_Done "data_error + bool"

record upload_manager =
  um_session :: file_upload_session
  um_queries :: "query_task list"

definition upload_manager_new :: "file_upload_session \<Rightarrow> upload_manager" where
  "upload_manager_new s = \<lparr>um_session = s, um_queries = []\<rparr>"

text \<open>The background query; its panic is the error of joining it.\<close>

definition dedup_query_task :: "session_env \<Rightarrow> merkle_hash \<Rightarrow> file_upload_session \<Rightarrow> (data_error + bool) \<times> file_upload_session" where
  "dedup_query_task env h s =
     (let answer = se_query_for_global_dedup_shard env (us_tick s) h; s = next_tick s in
      case query_dedup_shard_by_chunk answer (us_shards s) of
        None \<Rightarrow> (Inl JoinError, s)
      | Some (Inl e) \<Rightarrow> (Inl e, s)
      | Some (Inr (_, ss)) \<Rightarrow> (Inr True, s\<lparr>us_shards := ss\<rparr>))"

fun run_query_tasks :: "session_env \<Rightarrow> query_task list \<Rightarrow> file_upload_session \<Rightarrow> query_task list \<times> file_upload_session" where
  "run_query_tasks env [] s = ([], s)"
| "run_query_tasks env (Query_Done r # tasks) s =
     (let (tasks, s) = run_query_tasks env tasks s in (Query_Done r # tasks, s))"
| "run_query_tasks env (Query_Waiting h # tasks) s =
     (if se_runs env (us_tick s) then
        let (r, s) = dedup_query_task env h s; (tasks, s) = run_query_tasks env tasks s in (Query_Done r # tasks, s)
      else let (tasks, s) = run_query_tasks env tasks (next_tick s) in (Query_Waiting h # tasks, s))"

fun join_query_tasks ::
  "session_env \<Rightarrow> query_task list \<Rightarrow> bool \<Rightarrow> file_upload_session \<Rightarrow> (data_error + bool) \<times> file_upload_session" where
  "join_query_tasks env [] any_result s = (Inr any_result, s)"
| "join_query_tasks env (Query_Done (Inl e) # tasks) any_result s = (Inl e, s)"
| "join_query_tasks env (Query_Done (Inr b) # tasks) any_result s = join_query_tasks env tasks (any_result \<or> b) s"
| "join_query_tasks env (Query_Waiting h # tasks) any_result s =
     (let (r, s) = dedup_query_task env h s in
      case r of Inl e \<Rightarrow> (Inl e, s) | Inr b \<Rightarrow> join_query_tasks env tasks (any_result \<or> b) s)"

type_synonym manager_error = "data_error \<times> file_upload_session"

definition manager_chunk_hash_dedup_query ::
  "session_env \<Rightarrow> upload_manager \<Rightarrow> merkle_hash list \<Rightarrow> (manager_error + dedup_result option) option" where
  "manager_chunk_hash_dedup_query env m query_hashes =
     map_option Inr (session_dedup_query (se_keyed_hash env) (se_now env (us_tick (um_session m))) (us_shards (um_session m)) query_hashes)"

definition manager_register_global_dedup_query ::
  "session_env \<Rightarrow> upload_manager \<Rightarrow> merkle_hash \<Rightarrow> manager_error + upload_manager" where
  "manager_register_global_dedup_query env m h =
     (if \<not> se_global_dedup_query_enabled env then Inr m
      else let (tasks, s) = run_query_tasks env (um_queries m @ [Query_Waiting h]) (um_session m)
           in Inr (m\<lparr>um_session := s, um_queries := tasks\<rparr>))"

definition manager_complete_global_dedup_queries ::
  "session_env \<Rightarrow> upload_manager \<Rightarrow> manager_error + (bool \<times> upload_manager)" where
  "manager_complete_global_dedup_queries env m =
     (if \<not> se_global_dedup_query_enabled env then Inr (False, m)
      else
        (case join_query_tasks env (um_queries m) False (um_session m) of
           (Inl e, s) \<Rightarrow> Inl (e, s)
         | (Inr any_result, s) \<Rightarrow> Inr (any_result, m\<lparr>um_session := s, um_queries := []\<rparr>)))"

definition manager_register_new_xorb ::
  "session_env \<Rightarrow> upload_manager \<Rightarrow> raw_xorb_data \<Rightarrow> (manager_error + upload_manager) option" where
  "manager_register_new_xorb env m x =
     map_option (\<lambda>(r, s). case r of Inl e \<Rightarrow> Inl (e, s) | Inr _ \<Rightarrow> Inr (m\<lparr>um_session := s\<rparr>))
       (session_register_new_xorb env x [] (um_session m))"

definition manager_register_xorb_dependencies ::
  "upload_manager \<Rightarrow> file_xorb_dependency list \<Rightarrow> upload_manager option" where
  "manager_register_xorb_dependencies m dependencies =
     map_option (\<lambda>s. m\<lparr>um_session := s\<rparr>) (session_register_xorb_dependencies dependencies (um_session m))"

definition upload_manager_interface :: "session_env \<Rightarrow> (upload_manager, manager_error) dedup_interface" where
  "upload_manager_interface env =
     \<lparr>chunk_hash_dedup_query = manager_chunk_hash_dedup_query env,
      register_global_dedup_query = manager_register_global_dedup_query env,
      complete_global_dedup_queries = manager_complete_global_dedup_queries env,
      register_new_xorb = manager_register_new_xorb env,
      register_xorb_dependencies = manager_register_xorb_dependencies\<rparr>"

section \<open>SHA-256 and file infos\<close>

type_synonym sha256_generator = "bytes option"

definition sha256_generator_new :: sha256_generator where
  "sha256_generator_new = None"

definition sha256_update :: "bytes \<Rightarrow> sha256_generator \<Rightarrow> sha256_generator" where
  "sha256_update new_data g = Some ((case g of Some hashed \<Rightarrow> hashed | None \<Rightarrow> []) @ new_data)"

definition sha256_finalize :: "(bytes \<Rightarrow> bytes) \<Rightarrow> sha256_generator \<Rightarrow> merkle_hash" where
  "sha256_finalize sha g = (case g of Some hashed \<Rightarrow> from_be_bytes (sha hashed) | None \<Rightarrow> default_hash)"

datatype sha256_policy = Compute | Provided merkle_hash | Skip

definition sha256_policy_from_skip :: "bool \<Rightarrow> sha256_policy" where
  "sha256_policy_from_skip skip = (if skip then Skip else Compute)"

definition sha256_policy_from_option :: "merkle_hash option \<Rightarrow> sha256_policy" where
  "sha256_policy_from_option sha256 = (case sha256 of Some h \<Rightarrow> Provided h | None \<Rightarrow> Compute)"

definition sha256_policy_from_hex :: "string \<Rightarrow> sha256_policy" where
  "sha256_policy_from_hex s = sha256_policy_from_option (case from_hex s of Inl _ \<Rightarrow> None | Inr h \<Rightarrow> Some h)"

record xet_file_info =
  xf_hash :: string
  xf_file_size :: "u64 option"
  xf_sha256 :: "string option"

definition xet_file_info_new :: "string \<Rightarrow> u64 \<Rightarrow> xet_file_info" where
  "xet_file_info_new h n_bytes = \<lparr>xf_hash = h, xf_file_size = Some n_bytes, xf_sha256 = None\<rparr>"

definition xet_file_info_new_with_sha256 :: "string \<Rightarrow> u64 \<Rightarrow> string \<Rightarrow> xet_file_info" where
  "xet_file_info_new_with_sha256 h n_bytes sha256 = \<lparr>xf_hash = h, xf_file_size = Some n_bytes, xf_sha256 = Some sha256\<rparr>"

definition xet_file_info_new_hash_only :: "string \<Rightarrow> xet_file_info" where
  "xet_file_info_new_hash_only h = \<lparr>xf_hash = h, xf_file_size = None, xf_sha256 = None\<rparr>"

section \<open>The cleaner\<close>

record file_cleaner =
  fc_file_id :: nat
  fc_chunker :: chunker
  fc_deduper :: "data_error + upload_manager file_deduper"
  fc_sha_generator :: "sha256_generator option"
  fc_provided_sha256 :: "merkle_hash option"

type_synonym 'a cleaner_result = "((data_error + 'a) \<times> file_cleaner \<times> file_upload_session) option"

text \<open>\<open>None\<close> is a failed assertion of the chunker.\<close>

definition file_cleaner_new :: "nat \<Rightarrow> sha256_policy \<Rightarrow> file_upload_session \<Rightarrow> file_cleaner option" where
  "file_cleaner_new file_id sha256 s =
     Option.bind (chunker_new TARGET_CHUNK_SIZE) (\<lambda>c.
       let (sha_generator, provided_sha256) =
             (case sha256 of Compute \<Rightarrow> (Some sha256_generator_new, None) | Provided h \<Rightarrow> (None, Some h) | Skip \<Rightarrow> (None, None))
       in Some \<lparr>fc_file_id = file_id, fc_chunker = c,
                fc_deduper = Inr (file_deduper_new (upload_manager_new s) (of_nat file_id)),
                fc_sha_generator = sha_generator, fc_provided_sha256 = provided_sha256\<rparr>)"

text \<open>The result of the step before, and then the step on these chunks.\<close>

definition deduper_process_chunks ::
  "session_env \<Rightarrow> chunk list \<Rightarrow> file_cleaner \<Rightarrow> file_upload_session \<Rightarrow> unit cleaner_result" where
  "deduper_process_chunks env chunks c s =
     (case fc_deduper c of
        Inl e \<Rightarrow> Some (Inl e, c, s)
      | Inr deduper \<Rightarrow>
          (case process_chunks (upload_manager_interface env) (se_keyed_hash env) (se_defrag env) chunks
                  (deduper\<lparr>fd_data_mng := (fd_data_mng deduper)\<lparr>um_session := s\<rparr>\<rparr>) of
             None \<Rightarrow> None
           | Some (Inl (e, s)) \<Rightarrow> Some (Inr (), c\<lparr>fc_deduper := Inl e\<rparr>, s)
           | Some (Inr (_, deduper)) \<Rightarrow> Some (Inr (), c\<lparr>fc_deduper := Inr deduper\<rparr>, um_session (fd_data_mng deduper))))"

definition add_data_chunk_impl ::
  "session_env \<Rightarrow> bytes \<Rightarrow> file_cleaner \<Rightarrow> file_upload_session \<Rightarrow> unit cleaner_result" where
  "add_data_chunk_impl env data c s =
     Option.bind (increment_file_size (fc_file_id c) (of_nat (length data)) (us_tracker s)) (\<lambda>t.
     Option.bind (next_block_bytes (se_next_match env) (se_keyed_hash env) (fc_chunker c) data False) (\<lambda>(chunker, chunks).
       let s = s\<lparr>us_tracker := t\<rparr>;
           c = c\<lparr>fc_chunker := chunker, fc_sha_generator := map_option (sha256_update data) (fc_sha_generator c)\<rparr>
       in if chunks = [] then Some (Inr (), c, s) else deduper_process_chunks env chunks c s))"

partial_function (option) add_data_loop ::
  "session_env \<Rightarrow> bytes \<Rightarrow> nat \<Rightarrow> file_cleaner \<Rightarrow> file_upload_session \<Rightarrow> unit cleaner_result" where
  "add_data_loop env data start c s =
     (if start < length data then
        let next_pos = min (start + se_ingestion_block_size env) (length data) in
        Option.bind (add_data_chunk_impl env (slice data start next_pos) c s) (\<lambda>(r, c, s).
          case r of Inl e \<Rightarrow> Some (Inl e, c, s) | Inr _ \<Rightarrow> add_data_loop env data next_pos c s)
      else Some (Inr (), c, s))"

declare add_data_loop.simps [code]

definition add_data_from_bytes ::
  "session_env \<Rightarrow> bytes \<Rightarrow> file_cleaner \<Rightarrow> file_upload_session \<Rightarrow> unit cleaner_result" where
  "add_data_from_bytes env data c s =
     (if se_ingestion_block_size env < length data then add_data_loop env data 0 c s
      else add_data_chunk_impl env data c s)"

definition add_data :: "session_env \<Rightarrow> bytes \<Rightarrow> file_cleaner \<Rightarrow> file_upload_session \<Rightarrow> unit cleaner_result" where
  "add_data env data c s = add_data_from_bytes env data c s"

definition cleaner_checkpoint :: "session_env \<Rightarrow> file_cleaner \<Rightarrow> file_upload_session \<Rightarrow> unit cleaner_result" where
  "cleaner_checkpoint env c s = deduper_process_chunks env [] c s"

definition file_info_empty :: mdb_file_info where
  "file_info_empty =
     \<lparr>metadata = \<lparr>fh_file_hash = default_hash, fh_file_flags = 0, fh_num_entries = 0, fh_unused = 0\<rparr>, segments = [],
      verification = [], metadata_ext = None\<rparr>"

text \<open>The end of \<open>finish_inner\<close>: the hash, and the deduper's result handed over to the session.\<close>

definition cleaner_sha256 :: "session_env \<Rightarrow> file_cleaner \<Rightarrow> merkle_hash option" where
  "cleaner_sha256 env c =
     (case fc_sha_generator c of Some generator \<Rightarrow> Some (sha256_finalize (se_sha256 env) generator) | None \<Rightarrow> fc_provided_sha256 c)"

definition finish_deduper ::
  "session_env \<Rightarrow> bool \<Rightarrow> merkle_hash option \<Rightarrow> upload_manager file_deduper \<Rightarrow> file_upload_session \<Rightarrow>
   (xet_file_info \<times> node list \<times> mdb_file_info \<times> deduplication_metrics) session_result" where
  "finish_deduper env register sha256 deduper s =
     Option.bind (fd_finalize (se_keyed_hash env) (map_option file_metadata_ext_new sha256) deduper)
       (\<lambda>(fh, chunk_hashes, remaining_file_data, dedup_metrics).
     let file_info = \<lparr>xf_hash = hex fh, xf_file_size = Some (total_bytes dedup_metrics), xf_sha256 = map_option hex sha256\<rparr>
     in if register then
          Option.bind (register_single_file_clean_completion env remaining_file_data dedup_metrics s) (\<lambda>(r, s).
            Some (rbind r (\<lambda>_. Inr (file_info, chunk_hashes, file_info_empty, dedup_metrics)), s))
        else
          Option.bind (register_single_file_clean_completion_detached env remaining_file_data dedup_metrics s) (\<lambda>(r, s).
            Some (rbind r (\<lambda>mdb_file_info. Inr (file_info, chunk_hashes, mdb_file_info, dedup_metrics)), s)))"

definition finish_inner ::
  "session_env \<Rightarrow> bool \<Rightarrow> file_cleaner \<Rightarrow> file_upload_session \<Rightarrow>
   (xet_file_info \<times> node list \<times> mdb_file_info \<times> deduplication_metrics) session_result" where
  "finish_inner env register c s =
     Option.bind (chunker_finish (se_next_match env) (se_keyed_hash env) (fc_chunker c)) (\<lambda>(_, rest).
     Option.bind (case rest of Some ch \<Rightarrow> deduper_process_chunks env [ch] c s | None \<Rightarrow> Some (Inr (), c, s)) (\<lambda>(r, c, s).
       case r of
         Inl e \<Rightarrow> Some (Inl e, s)
       | Inr _ \<Rightarrow>
           (case fc_deduper c of
              Inl e \<Rightarrow> Some (Inl e, s)
            | Inr deduper \<Rightarrow> finish_deduper env register (cleaner_sha256 env c) deduper s)))"

definition finish_with_chunks ::
  "session_env \<Rightarrow> file_cleaner \<Rightarrow> file_upload_session \<Rightarrow> (xet_file_info \<times> node list \<times> deduplication_metrics) session_result" where
  "finish_with_chunks env c s =
     map_option (\<lambda>(r, s). (rbind r (\<lambda>(file_info, chunk_hashes, _, dedup_metrics). Inr (file_info, chunk_hashes, dedup_metrics)), s))
       (finish_inner env True c s)"

definition finish :: "session_env \<Rightarrow> file_cleaner \<Rightarrow> file_upload_session \<Rightarrow> (xet_file_info \<times> deduplication_metrics) session_result" where
  "finish env c s =
     map_option (\<lambda>(r, s). (rbind r (\<lambda>(info, _, dedup_metrics). Inr (info, dedup_metrics)), s)) (finish_with_chunks env c s)"

definition finish_with_chunks_detached ::
  "session_env \<Rightarrow> file_cleaner \<Rightarrow> file_upload_session \<Rightarrow>
   (xet_file_info \<times> node list \<times> mdb_file_info \<times> deduplication_metrics) session_result" where
  "finish_with_chunks_detached env c s = finish_inner env False c s"

section \<open>Cleaners of a session\<close>

definition start_clean_with_id ::
  "u64 option \<Rightarrow> sha256_policy \<Rightarrow> file_upload_session \<Rightarrow> (file_cleaner \<times> file_upload_session) option" where
  "start_clean_with_id n_bytes sha256 s =
     (let (file_id, t) = tracker_register_new_file n_bytes (us_tracker s); s = s\<lparr>us_tracker := t\<rparr>
      in map_option (\<lambda>c. (c, s)) (file_cleaner_new file_id sha256 s))"

definition start_clean :: "u64 option \<Rightarrow> sha256_policy \<Rightarrow> file_upload_session \<Rightarrow> file_cleaner session_result" where
  "start_clean n_bytes sha256 s =
     (case check_not_finalized s of
        Inl e \<Rightarrow> Some (Inl e, s)
      | Inr _ \<Rightarrow> map_option (\<lambda>(c, s). (Inr c, s)) (start_clean_with_id n_bytes sha256 s))"

text \<open>The task of \<open>spawn_upload_bytes\<close> after the cleaner was created.\<close>

definition upload_bytes ::
  "session_env \<Rightarrow> bytes \<Rightarrow> sha256_policy \<Rightarrow> file_upload_session \<Rightarrow> (xet_file_info \<times> deduplication_metrics) session_result" where
  "upload_bytes env data sha256 s =
     Option.bind (start_clean (Some (of_nat (length data))) sha256 s) (\<lambda>(r, s).
       case r of
         Inl e \<Rightarrow> Some (Inl e, s)
       | Inr c \<Rightarrow>
           Option.bind (add_data env data c s) (\<lambda>(r, c, s).
             case r of Inl e \<Rightarrow> Some (Inl e, s) | Inr _ \<Rightarrow> finish env c s))"

text \<open>\<open>reads\<close> are the results of reading into the buffer, one after the other.\<close>

fun feed_file_to_cleaner ::
  "session_env \<Rightarrow> (io_error + bytes) list \<Rightarrow> file_cleaner \<Rightarrow> file_upload_session \<Rightarrow>
   (xet_file_info \<times> deduplication_metrics) session_result" where
  "feed_file_to_cleaner env [] c s = finish env c s"
| "feed_file_to_cleaner env (Inl e # reads) c s = Some (Inl (IOError e), s)"
| "feed_file_to_cleaner env (Inr data # reads) c s =
     (if data = [] then finish env c s
      else Option.bind (add_data env data c s) (\<lambda>(r, c, s).
             case r of Inl e \<Rightarrow> Some (Inl e, s) | Inr _ \<Rightarrow> feed_file_to_cleaner env reads c s))"

end
