(* ===== verification/Upload_Session_Correct.thy ===== *)
theory Upload_Session_Correct
  imports Upload_Session Upload_Tracking_Correct Aggregator_Correct
begin

text \<open>
  Invariants of the upload session. What an operation of the completion tracker keeps, whatever its
  arguments: no later operation panics, and the recorded xorb sizes change only where a xorb is
  registered. For the session: the shards are well formed, every registered xorb with contents is either
  waiting for its upload or uploaded, unless an upload has failed and its error is still to be joined.
\<close>

section \<open>The tracker as the session uses it\<close>

definition tracker_safe :: "completion_tracker \<Rightarrow> bool" where
  "tracker_safe t \<longleftrightarrow> (\<forall>h. list_all (\<lambda>i. i < length (ct_files t)) (xd_file_indices (xorb_entry t h)))"

definition xorb_size_of :: "completion_tracker \<Rightarrow> merkle_hash \<Rightarrow> u64" where
  "xorb_size_of t h = xd_xorb_size (xorb_entry t h)"

definition tracker_step :: "completion_tracker \<Rightarrow> completion_tracker \<Rightarrow> bool" where
  "tracker_step t t' \<longleftrightarrow> (tracker_safe t \<longrightarrow> tracker_safe t') \<and> length (ct_files t') = length (ct_files t) \<and> xorb_size_of t' = xorb_size_of t"

lemma tracker_step_refl [simp]: "tracker_step t t"
  by (simp add: tracker_step_def)

lemma tracker_step_trans: "tracker_step t t1 \<Longrightarrow> tracker_step t1 t2 \<Longrightarrow> tracker_step t t2"
  by (simp add: tracker_step_def)

lemma tracker_stepI:
  assumes "length (ct_files t') = length (ct_files t)"
    and "\<And>h. xd_xorb_size (xorb_entry t' h) = xd_xorb_size (xorb_entry t h)"
    and "\<And>h. set (xd_file_indices (xorb_entry t' h)) \<subseteq> set (xd_file_indices (xorb_entry t h)) \<union> {..<length (ct_files t)}"
  shows "tracker_step t t'"
  using assms by (fastforce simp: tracker_step_def tracker_safe_def list_all_iff xorb_size_of_def fun_eq_iff)

lemma register_dependency_step:
  assumes "unat (dep_file_id d) < length (ct_files t)"
  shows "\<exists>t' n. register_dependency d t = Some (t', n) \<and> tracker_step t t'"
proof -
  let ?e = "xorb_entry t (dep_xorb_hash d)"
  have "\<exists>t' n. register_dependency d t = Some (t', n) \<and> length (ct_files t') = length (ct_files t) \<and>
      (ct_xorbs t' = ct_xorbs t \<or> ct_xorbs t' = bt_insert (dep_xorb_hash d) ?e (ct_xorbs t) \<or>
       ct_xorbs t' = bt_insert (dep_xorb_hash d) (?e\<lparr>xd_file_indices := set_insert (unat (dep_file_id d)) (xd_file_indices ?e)\<rparr>) (ct_xorbs t))"
    using assms by (auto simp: register_dependency_def Let_def credit_file_eq)
  then obtain t' n where t': "register_dependency d t = Some (t', n)" and "length (ct_files t') = length (ct_files t)"
    "ct_xorbs t' = ct_xorbs t \<or> ct_xorbs t' = bt_insert (dep_xorb_hash d) ?e (ct_xorbs t) \<or>
     ct_xorbs t' = bt_insert (dep_xorb_hash d) (?e\<lparr>xd_file_indices := set_insert (unat (dep_file_id d)) (xd_file_indices ?e)\<rparr>) (ct_xorbs t)"
    by blast
  from this(2,3) have "tracker_step t t'" using assms by (intro tracker_stepI) (auto split: if_splits)
  then show ?thesis using t' by blast
qed

lemma register_dependency_loop_step:
  "list_all (\<lambda>d. unat (dep_file_id d) < length (ct_files t)) ds \<Longrightarrow>
     \<exists>t' n. register_dependency_loop ds p t = Some (t', n) \<and> tracker_step t t'"
proof (induction ds arbitrary: p t)
  case (Cons d ds)
  then obtain t1 n where t1: "register_dependency d t = Some (t1, n)" "tracker_step t t1"
    using register_dependency_step [of d t] by auto
  moreover from this have "list_all (\<lambda>d. unat (dep_file_id d) < length (ct_files t1)) ds"
    using Cons.prems by (simp add: tracker_step_def)
  ultimately show ?case using Cons.IH [of t1 "p + n"] tracker_step_trans by fastforce
qed simp

lemma register_dependencies_step:
  assumes "list_all (\<lambda>d. unat (dep_file_id d) < length (ct_files t)) ds"
  shows "\<exists>t'. register_dependencies ds t = Some t' \<and> tracker_step t t'"
proof -
  obtain t1 n where "register_dependency_loop ds 0 t = Some (t1, n)" "tracker_step t t1"
    using register_dependency_loop_step [OF assms] by blast
  moreover have "tracker_step t1 (t1\<lparr>ct_total_bytes_completed := ct_total_bytes_completed t1 + n\<rparr>)" by (rule tracker_stepI) auto
  ultimately show ?thesis using tracker_step_trans by (auto simp: register_dependencies_def)
qed

lemma complete_files_total:
  "list_all (\<lambda>i. i < length (ct_files t)) fids \<Longrightarrow>
     \<exists>t' n. complete_files h fids p t = Some (t', n) \<and> length (ct_files t') = length (ct_files t) \<and> ct_xorbs t' = ct_xorbs t"
proof (induction fids arbitrary: p t)
  case (Cons i fids)
  have "\<exists>t' n. complete_files h fids q u = Some (t', n) \<and> length (ct_files t') = length (ct_files t) \<and> ct_xorbs t' = ct_xorbs t"
    if "length (ct_files u) = length (ct_files t)" "ct_xorbs u = ct_xorbs t" for u q
    using Cons.IH [of u q] Cons.prems that by simp
  then show ?case using Cons.prems by (simp add: Let_def credit_file_eq)
qed simp

lemma progress_files_total:
  "list_all (\<lambda>i. i < length (ct_files t)) fids \<Longrightarrow>
     \<exists>t' n. progress_files ratio h e fids p t = Some (t', n) \<and> length (ct_files t') = length (ct_files t) \<and> ct_xorbs t' = ct_xorbs t"
proof (induction fids arbitrary: p t)
  case (Cons i fids)
  have "\<exists>t' n. progress_files ratio h e fids q u = Some (t', n) \<and> length (ct_files t') = length (ct_files t) \<and> ct_xorbs t' = ct_xorbs t"
    if "length (ct_files u) = length (ct_files t)" "ct_xorbs u = ct_xorbs t" for u q
    using Cons.IH [of u q] Cons.prems that by simp
  then show ?case using Cons.prems by (simp add: Let_def credit_file_eq split: option.split)
qed simp

lemma upload_completion_step:
  assumes "tracker_safe t"
  shows "\<exists>t'. register_xorb_upload_completion h t = Some t' \<and> tracker_step t t'"
proof (cases "xd_is_completed (xorb_entry t h)")
  case False
  let ?e = "xorb_entry t h"
  define t0 where "t0 = t\<lparr>ct_xorbs := bt_insert h (?e\<lparr>xd_is_completed := True, xd_file_indices := []\<rparr>) (ct_xorbs t)\<rparr>"
  obtain t1 n where t1: "complete_files h (xd_file_indices ?e) 0 t0 = Some (t1, n)"
    "length (ct_files t1) = length (ct_files t0)" "ct_xorbs t1 = ct_xorbs t0"
    using complete_files_total [of t0 "xd_file_indices ?e" h 0] assms by (auto simp: tracker_safe_def t0_def)
  then have "\<exists>t'. register_xorb_upload_completion h t = Some t' \<and> ct_files t' = ct_files t1 \<and> ct_xorbs t' = ct_xorbs t1"
    using False by (simp add: register_xorb_upload_completion_def Let_def t0_def add_upload_completed_def)
  then obtain t' where t': "register_xorb_upload_completion h t = Some t'" "ct_files t' = ct_files t1" "ct_xorbs t' = ct_xorbs t1"
    by blast
  then have "tracker_step t t'" using t1(2,3) by (intro tracker_stepI) (simp_all add: t0_def)
  then show ?thesis using t'(1) by blast
qed (simp add: register_xorb_upload_completion_def)

lemma upload_progress_step1:
  assumes "tracker_safe t"
  shows "\<exists>t'. register_xorb_upload_progress ratio h n ordered t = Some t' \<and> tracker_step t t'"
proof (cases "\<not> ordered \<and> xd_is_completed (xorb_entry t h)")
  case False
  let ?e = "xorb_entry t h"
  define e' where "e' = ?e\<lparr>xd_completed_bytes := xd_completed_bytes ?e + n\<rparr>"
  define t0 where "t0 = t\<lparr>ct_xorbs := bt_insert h e' (ct_xorbs t)\<rparr>"
  obtain t1 m where t1: "progress_files ratio h e' (xd_file_indices e') 0 t0 = Some (t1, m)"
    "length (ct_files t1) = length (ct_files t0)" "ct_xorbs t1 = ct_xorbs t0"
    using progress_files_total [of t0 "xd_file_indices e'" ratio h e' 0] assms by (auto simp: tracker_safe_def t0_def e'_def)
  then have "\<exists>t'. register_xorb_upload_progress ratio h n ordered t = Some t' \<and> ct_files t' = ct_files t1 \<and> ct_xorbs t' = ct_xorbs t1"
    using False by (auto simp: register_xorb_upload_progress_def Let_def t0_def e'_def add_upload_completed_def)
  then obtain t' where t': "register_xorb_upload_progress ratio h n ordered t = Some t'" "ct_files t' = ct_files t1" "ct_xorbs t' = ct_xorbs t1"
    by blast
  then have "tracker_step t t'" using t1(2,3) by (intro tracker_stepI) (simp_all add: t0_def e'_def)
  then show ?thesis using t'(1) by blast
qed (simp add: register_xorb_upload_progress_def)

lemma register_new_xorb_tracker:
  assumes "tracker_register_new_xorb h n t = (is_new, t')"
  shows "tracker_safe t \<longrightarrow> tracker_safe t'" "length (ct_files t') = length (ct_files t)" "is_new \<longleftrightarrow> xorb_size_of t h = 0"
    "xorb_size_of t' = (if is_new then (xorb_size_of t)(h := n) else xorb_size_of t)"
  using assms
  by (auto simp: tracker_register_new_xorb_def add_upload_bytes_def tracker_safe_def xorb_size_of_def fun_eq_iff
      entry_or_default_def xorb_dependency_default_def split: option.splits if_splits)

lemma register_new_file_tracker:
  assumes "tracker_register_new_file n t = (i, t')"
  shows "i = length (ct_files t)" "length (ct_files t') = Suc (length (ct_files t))" "ct_xorbs t' = ct_xorbs t"
  using assms by (auto simp: tracker_register_new_file_def Let_def split: option.splits prod.splits)

lemma increment_file_size_step: "i < length (ct_files t) \<Longrightarrow> \<exists>t'. increment_file_size i n t = Some t' \<and> tracker_step t t'"
  by (auto simp: increment_file_size_def Let_def split: prod.split intro!: tracker_stepI)

section \<open>The invariant of the session\<close>

text \<open>The keys of the shards that the server may send; session shards have no key.\<close>

definition session_keys :: "session_env \<Rightarrow> (merkle_hash \<Rightarrow> merkle_hash) set" where
  "session_keys env =
     insert (\<lambda>h. h) {keyed_chunk_hash (se_keyed_hash env) (cd_info entry) |entry.
       \<exists>t h bs. se_query_for_global_dedup_shard env t h = Inr (Some bs) \<and> parse_dedup_shard bs = Some (Inr entry)}"

definition honest_server :: "session_env \<Rightarrow> store \<Rightarrow> bool" where
  "honest_server env remote \<longleftrightarrow>
     (\<forall>t h. honest_answer (se_keyed_hash env) (session_keys env) remote (se_query_for_global_dedup_shard env t h))"

definition xorb_record :: "raw_xorb_data \<Rightarrow> merkle_hash \<times> node list" where
  "xorb_record x = (raw_xorb_hash x, xorb_nodes (rx_xorb_info x))"

definition session_store :: "store \<Rightarrow> file_upload_session \<Rightarrow> store" where
  "session_store remote s = remote \<union> xorb_record ` set (us_registered s)"

definition waiting_xorbs :: "upload_task set \<Rightarrow> serialized_xorb_object set" where
  "waiting_xorbs T = {xo. \<exists>info. Upload_Waiting xo info \<in> T}"

definition queued :: "upload_task set \<Rightarrow> file_upload_session \<Rightarrow> bool" where
  "queued T s \<longleftrightarrow> (\<exists>e. Upload_Done (Inl e) \<in> T) \<or>
     (\<forall>h. xorb_size_of (us_tracker s) h \<noteq> 0 \<longrightarrow> h \<in> sx_hash ` (waiting_xorbs T \<union> set (us_uploaded s)))"

definition session_inv :: "session_env \<Rightarrow> store \<Rightarrow> upload_task set \<Rightarrow> file_upload_session \<Rightarrow> bool" where
  "session_inv env remote T s \<longleftrightarrow>
     tracker_safe (us_tracker s) \<and>
     shards_ok (se_keyed_hash env) (session_keys env) remote (rx_xorb_info ` set (us_registered s)) (us_shards s) \<and>
     list_all raw_xorb_wf (us_registered s) \<and>
     (\<forall>x \<in> set (us_registered s). raw_xorb_num_bytes x \<noteq> 0 \<longrightarrow> xorb_size_of (us_tracker s) (raw_xorb_hash x) \<noteq> 0) \<and>
     (\<forall>xo \<in> waiting_xorbs T \<union> set (us_uploaded s). \<exists>x \<in> set (us_registered s). serialize_xorb env x = Inr xo) \<and>
     queued T s"

abbreviation session_ok :: "session_env \<Rightarrow> store \<Rightarrow> file_upload_session \<Rightarrow> bool" where
  "session_ok env remote s \<equiv> session_inv env remote (set (us_tasks s)) s"

text \<open>What an upload in the background leaves as it is.\<close>

definition same_session :: "file_upload_session \<Rightarrow> file_upload_session \<Rightarrow> bool" where
  "same_session s s' \<longleftrightarrow>
     us_registered s' = us_registered s \<and> us_data s' = us_data s \<and> us_shards s' = us_shards s \<and>
     us_finalized s' = us_finalized s \<and> us_tasks s' = us_tasks s \<and>
     length (ct_files (us_tracker s')) = length (ct_files (us_tracker s))"

lemma same_session_refl [simp]: "same_session s s"
  by (simp add: same_session_def)

lemma same_session_trans: "same_session s u \<Longrightarrow> same_session u v \<Longrightarrow> same_session s v"
  by (simp add: same_session_def)

lemma next_tick_simps [simp]:
  "us_shards (next_tick s) = us_shards s" "us_tracker (next_tick s) = us_tracker s" "us_data (next_tick s) = us_data s"
  "us_metrics (next_tick s) = us_metrics s" "us_tasks (next_tick s) = us_tasks s" "us_finalized (next_tick s) = us_finalized s"
  "us_registered (next_tick s) = us_registered s" "us_uploaded (next_tick s) = us_uploaded s"
  by (simp_all add: next_tick_def)

lemma next_tick_inv [simp]: "session_inv env remote T (next_tick s) = session_inv env remote T s" "same_session s (next_tick s)"
  by (simp_all add: session_inv_def queued_def same_session_def)

lemma waiting_xorbs_insert [simp]:
  "waiting_xorbs (insert (Upload_Waiting xo info) T) = insert xo (waiting_xorbs T)"
  "waiting_xorbs (insert (Upload_Done r) T) = waiting_xorbs T" "waiting_xorbs {} = {}"
  by (auto simp: waiting_xorbs_def)

section \<open>Uploads in the background\<close>

lemma upload_progress_step: "tracker_safe t \<Longrightarrow> \<exists>t'. upload_progress ratio h n reports t = Some t' \<and> tracker_step t t'"
proof (induction reports arbitrary: t)
  case (Cons r reports)
  obtain delta total_sz where r: "r = (delta, total_sz)" by (cases r)
  let ?d = "if total_sz = 0 then 0 else delta * n div total_sz"
  obtain t1 where t1: "(if 0 < ?d then register_xorb_upload_progress ratio h ?d False t else Some t) = Some t1" "tracker_step t t1"
    using upload_progress_step1 [OF Cons.prems, of ratio h ?d False] by (cases "0 < ?d") auto
  then have "tracker_safe t1" using Cons.prems by (simp add: tracker_step_def)
  from Cons.IH [OF this] obtain t' where "upload_progress ratio h n reports t1 = Some t'" "tracker_step t1 t'" by blast
  then show ?case using t1 r tracker_step_trans by (auto simp: Let_def)
qed simp

lemma upload_xorb_task_ok:
  assumes inv: "session_inv env remote (insert (Upload_Waiting xo info) T) s"
  shows "\<exists>r s'. upload_xorb_task env xo info s = Some (r, s') \<and> session_inv env remote (insert (Upload_Done r) T) s' \<and> same_session s s'"
proof -
  obtain reports r where up: "se_upload_xorb env (us_tick s) xo = (reports, r)" by force
  have safe: "tracker_safe (us_tracker s)" using inv by (simp add: session_inv_def)
  then obtain t where t: "upload_progress (se_ratio env) (sx_hash xo) (sx_raw_num_bytes xo) reports (us_tracker s) = Some t"
    "tracker_step (us_tracker s) t"
    using upload_progress_step by blast
  show ?thesis
  proof (cases r)
    case (Inl e)
    then have "upload_xorb_task env xo info s = Some (Inl (ClientError e), next_tick s\<lparr>us_tracker := t\<rparr>)"
      using up t(1) by (simp add: upload_xorb_task_def Let_def)
    moreover have "session_inv env remote (insert (Upload_Done (Inl (ClientError e))) T) (next_tick s\<lparr>us_tracker := t\<rparr>)"
      using inv t(2) by (auto simp: session_inv_def queued_def tracker_step_def)
    ultimately show ?thesis using t(2) by (auto simp: same_session_def tracker_step_def)
  next
    case (Inr n)
    have "tracker_safe t" using safe t(2) by (simp add: tracker_step_def)
    then obtain t1 where t1: "register_xorb_upload_completion (sx_hash xo) t = Some t1" "tracker_step t t1"
      using upload_completion_step by blast
    define s' where "s' = next_tick s\<lparr>us_tracker := t1,
      us_metrics := (us_metrics s)\<lparr>xorb_bytes_uploaded := xorb_bytes_uploaded (us_metrics s) + n\<rparr>, us_uploaded := us_uploaded s @ [xo]\<rparr>"
    have "upload_xorb_task env xo info s = Some (Inr (), s')"
      using up t(1) t1(1) Inr by (simp add: upload_xorb_task_def Let_def s'_def session_add_uploaded_xorb_block_def next_tick_def)
    moreover have "session_inv env remote (insert (Upload_Done (Inr ())) T) s'"
      using inv t(2) t1(2) by (auto simp: session_inv_def queued_def tracker_step_def s'_def)
    ultimately show ?thesis using t(2) t1(2) by (auto simp: same_session_def tracker_step_def s'_def)
  qed
qed

lemma run_upload_tasks_ok:
  "session_inv env remote (set ts \<union> T) s \<Longrightarrow>
     \<exists>ts' s'. run_upload_tasks env ts s = Some (ts', s') \<and> session_inv env remote (set ts' \<union> T) s' \<and> same_session s s'"
proof (induction env ts s arbitrary: T rule: run_upload_tasks.induct)
  case (2 env r ts s)
  from "2.IH" [of "insert (Upload_Done r) T"] "2.prems" show ?case by auto
next
  case (3 env xo info ts s)
  show ?case
  proof (cases "se_runs env (us_tick s)")
    case True
    obtain r s1 where s1: "upload_xorb_task env xo info s = Some (r, s1)" "same_session s s1"
      "session_inv env remote (insert (Upload_Done r) (set ts \<union> T)) s1"
      using upload_xorb_task_ok [of env remote xo info "set ts \<union> T" s] "3.prems" by auto
    obtain ts' s' where "run_upload_tasks env ts s1 = Some (ts', s')" "same_session s1 s'"
      "session_inv env remote (set ts' \<union> insert (Upload_Done r) T) s'"
      using "3.IH"(1) [OF True s1(1) refl, of "insert (Upload_Done r) T"] s1(3) by auto
    then show ?thesis using s1 True same_session_trans by auto
  next
    case False
    obtain ts' s' where "run_upload_tasks env ts (next_tick s) = Some (ts', s')" "same_session (next_tick s) s'"
      "session_inv env remote (set ts' \<union> insert (Upload_Waiting xo info) T) s'"
      using "3.IH"(2) [OF False, of "insert (Upload_Waiting xo info) T"] "3.prems" by auto
    then show ?thesis using False same_session_trans [OF next_tick_inv(2)] by auto
  qed
qed simp

lemma try_join_tasks_None:
  "try_join_tasks ts = (None, ts') \<Longrightarrow>
     (\<forall>e. Upload_Done (Inl e) \<notin> set ts) \<and> waiting_xorbs (set ts') = waiting_xorbs (set ts) \<and> (\<forall>r. Upload_Done r \<notin> set ts')"
  by (induction ts arbitrary: ts' rule: try_join_tasks.induct) (auto split: prod.splits)

lemma session_inv_joined:
  assumes "session_inv env remote T s" and "\<forall>e. Upload_Done (Inl e) \<notin> T" and "waiting_xorbs T' = waiting_xorbs T"
  shows "session_inv env remote T' s"
  using assms by (auto simp: session_inv_def queued_def)

lemma join_tasks_ok:
  "session_inv env remote (set ts) s \<Longrightarrow>
     \<exists>r ts' s'. join_tasks env ts s = Some (r, ts', s') \<and> same_session s s' \<and> (r = Inr () \<longrightarrow> ts' = [] \<and> session_inv env remote {} s')"
proof (induction env ts s rule: join_tasks.induct)
  case (3 env u ts s)
  have "session_inv env remote (set ts) s"
    using "3.prems" by (auto simp: session_inv_def queued_def)
  then show ?case using 3 by simp
next
  case (4 env xo info ts s)
  obtain r s1 where s1: "upload_xorb_task env xo info s = Some (r, s1)" "same_session s s1"
    "session_inv env remote (insert (Upload_Done r) (set ts)) s1"
    using upload_xorb_task_ok [of env remote xo info "set ts" s] "4.prems" by auto
  show ?case
  proof (cases r)
    case (Inr u)
    have "session_inv env remote (set ts) s1"
      using s1(3) by (auto simp: Inr session_inv_def queued_def)
    then show ?thesis using "4.IH" [OF s1(1) refl Inr] s1 Inr same_session_trans by fastforce
  qed (use s1 in simp)
qed auto

section \<open>Registering a xorb\<close>

lemma from_xorb_hash:
  "from_xorb_with_compression rec na enc x scheme False retest = Some (Inr xo) \<Longrightarrow> sx_hash xo = raw_xorb_hash x"
  unfolding from_xorb_with_compression_def Let_def
  by (auto split: option.splits sum.splits prod.splits simp del: append_files.simps)

lemma serialize_xorb_hash: "serialize_xorb env x = Inr xo \<Longrightarrow> sx_hash xo = raw_xorb_hash x"
  by (auto simp: serialize_xorb_def from_xorb_def split: option.splits sum.splits dest: from_xorb_hash)

lemma raw_xorb_bytes_u64: "(of_nat (raw_xorb_num_bytes x) :: u64) = 0 \<longleftrightarrow> raw_xorb_num_bytes x = 0"
proof -
  have "raw_xorb_num_bytes x < 2 ^ 32"
    unfolding raw_xorb_num_bytes_def using unsigned_less [of "xh_num_bytes_in_xorb (xorb_metadata (rx_xorb_info x))", where ?'a = nat] by simp
  then have "unat (of_nat (raw_xorb_num_bytes x) :: u64) = raw_xorb_num_bytes x"
    by (simp add: unsigned_of_nat take_bit_nat_eq_self)
  then show ?thesis by (auto simp: unsigned_eq_0_iff [symmetric])
qed

text \<open>The registered xorb is new to the session, and everything else that files rely on stays.\<close>

definition after_xorb :: "raw_xorb_data \<Rightarrow> file_upload_session \<Rightarrow> file_upload_session \<Rightarrow> bool" where
  "after_xorb x s s' \<longleftrightarrow>
     us_registered s' = us_registered s @ [x] \<and> us_data s' = us_data s \<and> us_finalized s' = us_finalized s \<and>
     file_content (ss_session_shard (us_shards s')) = file_content (ss_session_shard (us_shards s)) \<and>
     ss_dry_run (us_shards s') = ss_dry_run (us_shards s) \<and>
     length (ct_files (us_tracker s')) = length (ct_files (us_tracker s))"

lemma add_xorb_block_files [simp]: "file_content (add_xorb_block info s) = file_content s"
  by (simp add: add_xorb_block_def Let_def)

lemma session_register_new_xorb_ok:
  assumes inv: "session_ok env remote s" and wf: "raw_xorb_wf x"
    and deps: "list_all (\<lambda>d. unat (dep_file_id d) < length (ct_files (us_tracker s))) deps"
  shows "\<exists>r s'. session_register_new_xorb env x deps s = Some (r, s') \<and>
    (\<forall>b. r = Inr b \<longrightarrow> session_ok env remote s' \<and> after_xorb x s s')"
proof -
  obtain ts u where run: "run_upload_tasks env (us_tasks s) s = Some (ts, u)"
    "session_inv env remote (set ts) u" "same_session s u"
    using run_upload_tasks_ok [of env remote "us_tasks s" "{}" s] inv by auto
  obtain failed ts' where tj: "try_join_tasks ts = (failed, ts')" by force
  show ?thesis
  proof (cases failed)
    case (Some e)
    then show ?thesis using run(1) tj by (simp add: session_register_new_xorb_def Let_def)
  next
    case None
    have T: "session_inv env remote (set ts') u" "\<forall>r. Upload_Done r \<notin> set ts'"
      using session_inv_joined [OF run(2)] try_join_tasks_None [OF tj [unfolded None]] by auto
    let ?h = "raw_xorb_hash x"
    obtain is_new t1 where reg: "tracker_register_new_xorb ?h (of_nat (raw_xorb_num_bytes x)) (us_tracker u) = (is_new, t1)" by force
    note t1 = register_new_xorb_tracker [OF reg]
    obtain t2 where t2: "register_dependencies deps t1 = Some t2" "tracker_step t1 t2"
      using register_dependencies_step [of t1 deps] deps t1(2) run(3) by (auto simp: same_session_def)
    have safe: "tracker_safe t2" and len: "length (ct_files t2) = length (ct_files (us_tracker s))"
      and size: "xorb_size_of t2 = (if is_new then (xorb_size_of (us_tracker u))(?h := of_nat (raw_xorb_num_bytes x)) else xorb_size_of (us_tracker u))"
      using T(1) t1 t2(2) run(3) by (simp_all add: session_inv_def tracker_step_def same_session_def)
    have grow: "shards_ok (se_keyed_hash env) (session_keys env) remote (rx_xorb_info ` set (us_registered u @ [x])) (us_shards u)"
      using T(1) by (rule_tac shards_ok_mono [of _ _ _ "rx_xorb_info ` set (us_registered u)"]) (auto simp: session_inv_def)
    define v where "v = u\<lparr>us_tasks := ts', us_tracker := t2, us_registered := us_registered u @ [x]\<rparr>"
    have v: "v\<lparr>us_tracker := t2\<rparr> = v" "us_tasks v = ts'" by (simp_all add: v_def)
    have op: "session_register_new_xorb env x deps s =
       (if \<not> is_new then Some (Inr False, v)
        else if raw_xorb_num_bytes x = 0 then
          Option.bind (register_xorb_upload_completion ?h t2) (\<lambda>t. Some (Inr True, v\<lparr>us_tracker := t\<rparr>))
        else let w = v\<lparr>us_shards := session_add_xorb_block (rx_xorb_info x) (us_shards v)\<rparr> in
          case serialize_xorb env x of Inl e \<Rightarrow> Some (Inl e, w)
          | Inr xo \<Rightarrow> (case se_acquire_upload_permit env (us_tick w) of Inl e \<Rightarrow> Some (Inl (ClientError e), next_tick w)
              | Inr _ \<Rightarrow> Some (Inr True, (next_tick w)\<lparr>us_tasks := us_tasks w @ [Upload_Waiting xo (rx_xorb_info x)]\<rparr>)))"
      using run(1) tj None reg t2(1) by (simp add: session_register_new_xorb_def Let_def v_def split: sum.split)
    have same: "session_inv env remote (set ts') (v\<lparr>us_tracker := t\<rparr>)" "after_xorb x s (v\<lparr>us_tracker := t\<rparr>)"
      if "xorb_size_of t = xorb_size_of (us_tracker u)" "tracker_safe t" "length (ct_files t) = length (ct_files t2)"
        "raw_xorb_num_bytes x \<noteq> 0 \<longrightarrow> xorb_size_of (us_tracker u) ?h \<noteq> 0" for t
      using T(1) that grow wf run(3) len
      by (auto simp: v_def session_inv_def queued_def after_xorb_def same_session_def)
    consider (old) "\<not> is_new" | (empty) "is_new" "raw_xorb_num_bytes x = 0" | (new) "is_new" "raw_xorb_num_bytes x \<noteq> 0" by blast
    then show ?thesis
    proof cases
      case old
      then show ?thesis using same [of t2] safe size t1(3) op by (simp add: v)
    next
      case empty
      obtain t3 where t3: "register_xorb_upload_completion ?h t2 = Some t3" "tracker_step t2 t3"
        using upload_completion_step [OF safe] by blast
      have "xorb_size_of t2 = xorb_size_of (us_tracker u)" using size empty t1(3) by (auto simp: fun_eq_iff)
      then show ?thesis
        using same [of t3] safe t3 empty op by (simp add: tracker_step_def v)
    next
      case new
      let ?info = "rx_xorb_info x"
      have "length (xorb_chunks ?info) < 2 ^ 32"
        using wf by (simp add: raw_xorb_wf_def xorb_ok_def xorb_nodes_def MAX_XORB_vals)
      then have sh: "shards_ok (se_keyed_hash env) (session_keys env) remote (rx_xorb_info ` set (us_registered u @ [x])) (session_add_xorb_block ?info (us_shards u))"
        using shards_ok_add_xorb [OF grow] by simp
      have "session_inv env remote (insert (Upload_Waiting xo ?info) (set ts')) ((next_tick (v\<lparr>us_shards := session_add_xorb_block ?info (us_shards v)\<rparr>))
          \<lparr>us_tasks := ts' @ [Upload_Waiting xo ?info]\<rparr>)" if "serialize_xorb env x = Inr xo" for xo
        using T new safe sh wf size that serialize_xorb_hash [OF that] raw_xorb_bytes_u64 [of x]
        by (auto simp: v_def session_inv_def queued_def)
      then show ?thesis
        using op new len run(3)
        by (auto simp: Let_def v_def after_xorb_def same_session_def session_add_xorb_block_def split: sum.split)
    qed
  qed
qed

end
