(* ===== verification/File_Cleaner_Correct.thy ===== *)
theory File_Cleaner_Correct
  imports File_Cleaner Upload_Session_Correct Chunking_Correct
begin

text \<open>
  From files to a finished session. The upload session's data manager meets the contract \<open>dedup_store\<close> of
  the deduper, with the xorbs registered in the session and those of the server as its store. A
  cleaner keeps that its entries spell out the chunks of the bytes it was given, finishing it hands
  them over, and finalizing the session leaves for every file a description in the session shard
  whose xorbs are all on the server.
\<close>

section \<open>The data manager meets the contract of the deduper\<close>

text \<open>What the deduper's operations leave as it is; \<open>b\<close> is the session before.\<close>

definition frame :: "file_upload_session \<Rightarrow> file_upload_session \<Rightarrow> bool" where
  "frame b s \<longleftrightarrow>
     us_data s = us_data b \<and> us_finalized s = us_finalized b \<and>
     file_content (ss_session_shard (us_shards s)) = file_content (ss_session_shard (us_shards b)) \<and>
     ss_dry_run (us_shards s) = ss_dry_run (us_shards b) \<and>
     length (ct_files (us_tracker s)) = length (ct_files (us_tracker b)) \<and> set (us_registered b) \<subseteq> set (us_registered s)"

lemma frame_refl [simp]: "frame s s"
  by (simp add: frame_def)

lemma frame_trans: "frame b s \<Longrightarrow> frame s u \<Longrightarrow> frame b u"
  by (auto simp: frame_def)

lemma session_store_mono: "frame b s \<Longrightarrow> session_store remote b \<subseteq> session_store remote s"
  by (auto simp: frame_def session_store_def)

definition stays_ok :: "session_env \<Rightarrow> store \<Rightarrow> file_upload_session \<Rightarrow> file_upload_session \<Rightarrow> bool" where
  "stays_ok env remote s s' \<longleftrightarrow> (session_ok env remote s \<longrightarrow> session_ok env remote s') \<and> frame s s'"

lemma stays_ok_refl [simp]: "stays_ok env remote s s"
  by (simp add: stays_ok_def)

lemma stays_ok_trans: "stays_ok env remote s u \<Longrightarrow> stays_ok env remote u v \<Longrightarrow> stays_ok env remote s v"
  by (auto simp: stays_ok_def intro: frame_trans)

lemma stays_ok_tick [simp]: "stays_ok env remote s (next_tick s)"
  by (simp add: stays_ok_def frame_def)

lemma query_keeps_session_shard:
  "query_dedup_shard_by_chunk answer ss = Some (Inr (b, ss')) \<Longrightarrow>
     ss_session_shard ss' = ss_session_shard ss \<and> ss_dry_run ss' = ss_dry_run ss"
  by (auto simp: query_dedup_shard_by_chunk_def Let_def split: sum.splits option.splits)

lemma dedup_query_task_ok:
  assumes "honest_server env remote" and "dedup_query_task env h s = (r, s')"
  shows "stays_ok env remote s s'"
proof -
  let ?answer = "se_query_for_global_dedup_shard env (us_tick s) h"
  consider (keeps) "s' = next_tick s" | ss b where "query_dedup_shard_by_chunk ?answer (us_shards s) = Some (Inr (b, ss))" "s' = (next_tick s)\<lparr>us_shards := ss\<rparr>"
    using assms(2) by (auto simp: dedup_query_task_def Let_def split: option.splits sum.splits)
  then show ?thesis
  proof cases
    case (2 ss b)
    have "shards_ok kh keys remote own (us_shards s) \<Longrightarrow> shards_ok kh keys remote own ss" if "honest_answer kh keys remote ?answer" for kh keys own
      using query_dedup_shard_ok [OF _ that, of own "us_shards s"] 2(1) by simp
    moreover have "honest_answer (se_keyed_hash env) (session_keys env) remote ?answer"
      using assms(1) by (simp add: honest_server_def)
    ultimately show ?thesis
      using 2(2) query_keeps_session_shard [OF 2(1)] by (auto simp: stays_ok_def session_inv_def queued_def frame_def)
  qed simp
qed

lemma run_query_tasks_ok:
  "honest_server env remote \<Longrightarrow> stays_ok env remote s (snd (run_query_tasks env tasks s))"
proof (induction env tasks s rule: run_query_tasks.induct)
  case (3 env h tasks s)
  show ?case
  proof (cases "se_runs env (us_tick s)")
    case True
    obtain r u where u: "dedup_query_task env h s = (r, u)" by force
    show ?thesis
      using "3.IH"(1) [OF True u [symmetric] refl "3.prems"] dedup_query_task_ok [OF "3.prems" u] stays_ok_trans True u
      by (fastforce split: prod.split)
  next
    case False
    then show ?thesis
      using "3.IH"(2) [OF False "3.prems"] stays_ok_trans [OF stays_ok_tick] by (fastforce split: prod.split)
  qed
qed (auto split: prod.split)

lemma join_query_tasks_ok:
  "honest_server env remote \<Longrightarrow> stays_ok env remote s (snd (join_query_tasks env tasks any_result s))"
proof (induction env tasks any_result s rule: join_query_tasks.induct)
  case (4 env h tasks any_result s)
  obtain r u where u: "dedup_query_task env h s = (r, u)" by force
  have "stays_ok env remote s u" by (rule dedup_query_task_ok [OF "4.prems" u])
  then show ?case
    using "4.IH" [OF u [symmetric] refl _ "4.prems"] stays_ok_trans u by (cases r) fastforce+
qed auto

definition manager_store :: "store \<Rightarrow> upload_manager \<Rightarrow> store" where
  "manager_store remote m = session_store remote (um_session m)"

definition manager_inv :: "session_env \<Rightarrow> store \<Rightarrow> file_upload_session \<Rightarrow> u64 \<Rightarrow> upload_manager \<Rightarrow> bool" where
  "manager_inv env remote b fid m \<longleftrightarrow>
     honest_server env remote \<and> session_ok env remote (um_session m) \<and> frame b (um_session m) \<and>
     unat fid < length (ct_files (us_tracker b))"

lemma manager_stays:
  "manager_inv env remote b fid m \<Longrightarrow> stays_ok env remote (um_session m) (um_session m') \<Longrightarrow>
     manager_inv env remote b fid m' \<and> manager_store remote m \<subseteq> manager_store remote m'"
  by (auto simp: manager_inv_def stays_ok_def manager_store_def intro: frame_trans dest: session_store_mono)

interpretation upload: dedup_store "upload_manager_interface env" "manager_store remote" "manager_inv env remote b fid" fid "session_keys env"
  for env remote b fid
proof unfold_locales
  fix m hs assume m: "manager_inv env remote b fid m" and hs: "(hs :: merkle_hash list) \<noteq> []"
  let ?s = "um_session m"
  have ok: "shards_ok (se_keyed_hash env) (session_keys env) remote (rx_xorb_info ` set (us_registered ?s)) (us_shards ?s)"
    using m by (simp add: manager_inv_def session_inv_def)
  have S: "remote \<subseteq> manager_store remote m"
    "\<forall>info \<in> rx_xorb_info ` set (us_registered ?s). (xh_xorb_hash (xorb_metadata info), xorb_nodes info) \<in> manager_store remote m"
    by (auto simp: manager_store_def session_store_def xorb_record_def raw_xorb_hash_def)
  obtain r where r: "chunk_hash_dedup_query (upload_manager_interface env) m hs = Some (Inr r)"
    "case r of None \<Rightarrow> True | Some (n, fse, _) \<Rightarrow> good_answer (session_keys env) (manager_store remote m) hs n fse"
    using session_dedup_query_ok [OF ok _ S, of "se_now env (us_tick ?s)" hs]
    by (auto simp: upload_manager_interface_def manager_chunk_hash_dedup_query_def session_keys_def)
  show "chunk_hash_dedup_query (upload_manager_interface env) m hs \<noteq> None" using r(1) by simp
  fix n fse ext assume "chunk_hash_dedup_query (upload_manager_interface env) m hs = Some (Inr (Some (n, fse, ext)))"
  then have good: "good_answer (session_keys env) (manager_store remote m) hs n fse" using r by simp
  then show "0 < n \<and> n \<le> length hs" by (simp add: good_answer_def)
  assume "good_store (manager_store remote m)"
  then show "\<exists>part. refers (manager_store remote m) fse part \<and> same_key (session_keys env) (map fst part) (take n hs)"
    using good by (simp add: good_answer_def)
next
  fix m h m' assume m: "manager_inv env remote b fid m" and q: "register_global_dedup_query (upload_manager_interface env) m h = Inr m'"
  have "honest_server env remote" using m by (simp add: manager_inv_def)
  from run_query_tasks_ok [OF this, of "um_session m" "um_queries m @ [Query_Waiting h]"]
  have "stays_ok env remote (um_session m) (um_session m')"
    using q by (auto simp: upload_manager_interface_def manager_register_global_dedup_query_def split: if_splits prod.splits)
  then show "manager_inv env remote b fid m' \<and> manager_store remote m \<subseteq> manager_store remote m'" by (rule manager_stays [OF m])
next
  fix m any m' assume m: "manager_inv env remote b fid m" and q: "complete_global_dedup_queries (upload_manager_interface env) m = Inr (any, m')"
  have "honest_server env remote" using m by (simp add: manager_inv_def)
  from join_query_tasks_ok [OF this, of "um_session m" "um_queries m" False]
  have "stays_ok env remote (um_session m) (um_session m')"
    using q by (auto simp: upload_manager_interface_def manager_complete_global_dedup_queries_def split: if_splits prod.splits sum.splits)
  then show "manager_inv env remote b fid m' \<and> manager_store remote m \<subseteq> manager_store remote m'" by (rule manager_stays [OF m])
next
  fix m x assume m: "manager_inv env remote b fid m" and x: "raw_xorb_wf x"
  obtain r s' where r: "session_register_new_xorb env x [] (um_session m) = Some (r, s')"
    "\<And>b. r = Inr b \<Longrightarrow> session_ok env remote s' \<and> after_xorb x (um_session m) s'"
    using session_register_new_xorb_ok [of env remote "um_session m" x "[]"] m x by (auto simp: manager_inv_def)
  show "returns (register_new_xorb (upload_manager_interface env) m x) (\<lambda>m'. manager_inv env remote b fid m' \<and>
      insert (raw_xorb_hash x, xorb_nodes (rx_xorb_info x)) (manager_store remote m) \<subseteq> manager_store remote m')"
  proof (cases r)
    case (Inr c)
    have "stays_ok env remote (um_session m) s'" "xorb_record x \<in> session_store remote s'"
      using r(2) [OF Inr] by (auto simp: stays_ok_def frame_def after_xorb_def session_store_def)
    then show ?thesis
      using manager_stays [OF m, of "m\<lparr>um_session := s'\<rparr>"] r(1) Inr
      by (simp add: upload_manager_interface_def manager_register_new_xorb_def xorb_record_def manager_store_def)
  qed (simp add: upload_manager_interface_def manager_register_new_xorb_def r(1))
next
  fix m and ds :: "file_xorb_dependency list" assume m: "manager_inv env remote b fid m" and ds: "list_all (\<lambda>d. dep_file_id d = fid) ds"
  have "list_all (\<lambda>d. unat (dep_file_id d) < length (ct_files (us_tracker (um_session m)))) ds"
    using ds m by (auto simp: list_all_iff manager_inv_def frame_def)
  from register_dependencies_step [OF this] obtain t where t: "register_dependencies ds (us_tracker (um_session m)) = Some t"
    "tracker_step (us_tracker (um_session m)) t"
    by blast
  then have "stays_ok env remote (um_session m) ((um_session m)\<lparr>us_tracker := t\<rparr>)"
    by (auto simp: stays_ok_def frame_def session_inv_def queued_def tracker_step_def)
  then show "\<exists>m'. register_xorb_dependencies (upload_manager_interface env) m ds = Some m' \<and>
      manager_inv env remote b fid m' \<and> manager_store remote m \<subseteq> manager_store remote m'"
    using manager_stays [OF m, of "m\<lparr>um_session := (um_session m)\<lparr>us_tracker := t\<rparr>\<rparr>"] t(1)
    by (simp add: upload_manager_interface_def manager_register_xorb_dependencies_def session_register_xorb_dependencies_def)
qed

section \<open>The bytes of a file and its chunks\<close>

text \<open>The chunks of a file and their nodes, by the reference definition of the chunker.\<close>

definition file_chunks :: "keyed_hash \<Rightarrow> (u64 \<Rightarrow> u8 \<Rightarrow> u64) \<Rightarrow> bytes \<Rightarrow> chunk list" where
  "file_chunks kh roll d = map (chunk_new kh) (ref_chunks roll demo_chunker d)"

definition file_nodes :: "keyed_hash \<Rightarrow> (u64 \<Rightarrow> u8 \<Rightarrow> u64) \<Rightarrow> bytes \<Rightarrow> node list" where
  "file_nodes kh roll d = map chunk_node (file_chunks kh roll d)"

text \<open>The chunks cut so far, and the chunker with the rest in its buffer.\<close>

definition cut_chunks :: "keyed_hash \<Rightarrow> (u64 \<Rightarrow> u8 \<Rightarrow> u64) \<Rightarrow> bytes \<Rightarrow> chunk list" where
  "cut_chunks kh roll d = map (chunk_new kh) (fst (ref_split roll demo_chunker d))"

definition cut_state :: "(u64 \<Rightarrow> u8 \<Rightarrow> u64) \<Rightarrow> bytes \<Rightarrow> chunker" where
  "cut_state roll d = with_buf roll demo_chunker (snd (ref_split roll demo_chunker d))"

lemma demo_chunker_inv: "chunker_inv roll demo_chunker"
  by (rule chunker_new_inv [OF demo_chunker_new])

lemma cut_state_inv: "chunker_inv roll (cut_state roll d)"
  unfolding cut_state_def by (intro chunker_inv_with_buf demo_chunker_inv ref_split_rest)

lemma cut_empty: "cut_chunks kh roll [] = []" "cut_state roll [] = demo_chunker"
  using with_buf_self [OF demo_chunker_inv, of roll]
  by (simp_all add: cut_chunks_def cut_state_def ref_split_None demo_chunker_def)

lemma cut_block:
  assumes "gear_hasher nm roll"
  shows "\<exists>cs. next_block_bytes nm kh (cut_state roll d) x False = Some (cut_state roll (d @ x), cs) \<and>
    cut_chunks kh roll (d @ x) = cut_chunks kh roll d @ cs"
proof (cases "x = []")
  case True
  then show ?thesis
    by (auto simp: next_block_bytes_def chunker_next_def next_boundary_def next_block_bytes_loop.simps Let_def)
next
  case False
  have "next_block_bytes nm kh (cut_state roll d) x False = next_block nm kh (cut_state roll d) x False"
    by (rule gear_hasher.next_block_bytes_eq [OF assms cut_state_inv False])
  also have "\<dots> = Some (with_buf roll (cut_state roll d) (snd (ref_split roll (cut_state roll d) (chunkbuf (cut_state roll d) @ x))),
      map (chunk_new kh) (fst (ref_split roll (cut_state roll d) (chunkbuf (cut_state roll d) @ x))))"
    by (rule gear_hasher.next_block_open [OF assms cut_state_inv])
  finally show ?thesis
    using ref_split_append [of roll demo_chunker d x] by (simp add: cut_state_def cut_chunks_def)
qed

lemma cut_finish:
  assumes "gear_hasher nm roll"
  shows "\<exists>c r. chunker_finish nm kh (cut_state roll d) = Some (c, r) \<and>
    file_chunks kh roll d = cut_chunks kh roll d @ (case r of None \<Rightarrow> [] | Some ch \<Rightarrow> [ch])"
  using gear_hasher.chunker_finish_spec [OF assms cut_state_inv, of kh d]
  by (simp add: file_chunks_def cut_chunks_def cut_state_def ref_chunks_split)

lemma file_chunks_bounds:
  "list_all (\<lambda>c. chunk_data c \<noteq> [] \<and> length (chunk_data c) \<le> MAX_XORB_BYTES) (file_chunks kh roll d)"
proof -
  have "0 < maximum_chunk demo_chunker" "minimum_chunk demo_chunker \<le> maximum_chunk demo_chunker" "maximum_chunk demo_chunker \<le> MAX_XORB_BYTES"
    by (simp_all add: demo_chunker_def MAX_XORB_vals)
  then show ?thesis
    using ref_chunks_bounds(1) [of demo_chunker] unfolding file_chunks_def
    by (fastforce simp: list_all_iff chunk_new_def)
qed

lemma cut_chunks_bounds: "list_all (\<lambda>c. length (chunk_data c) \<le> MAX_XORB_BYTES) (cut_chunks kh roll d)"
proof -
  have "set (cut_chunks kh roll d) \<subseteq> set (file_chunks kh roll d)"
    by (auto simp: file_chunks_def cut_chunks_def ref_chunks_split)
  then show ?thesis using file_chunks_bounds [of kh roll d] by (auto simp: list_all_iff)
qed

section \<open>The cleaner\<close>

text \<open>No hash collisions between the file and the store, and the number of chunks fits in 32 bits.\<close>

definition legible :: "session_env \<Rightarrow> store \<Rightarrow> node list \<Rightarrow> bool" where
  "legible env G ns \<longleftrightarrow> collision_free (session_keys env) G ns \<and> length ns < 2 ^ 32"

lemma legible_prefix: "legible env G (ns @ ms) \<Longrightarrow> legible env G ns"
  by (auto simp: legible_def intro: collision_free_mono)

text \<open>What holds over every store without collisions that contains the xorbs of the session.\<close>

definition over :: "session_env \<Rightarrow> store \<Rightarrow> node list set \<Rightarrow> file_upload_session \<Rightarrow> (store \<Rightarrow> bool) \<Rightarrow> bool" where
  "over env remote F s P \<longleftrightarrow>
     (\<forall>G. good_store G \<longrightarrow> session_store remote s \<subseteq> G \<longrightarrow> (\<forall>ns \<in> F. legible env G ns) \<longrightarrow> P G)"

lemma over_mono: "over env remote F s P \<Longrightarrow> F \<subseteq> F' \<Longrightarrow> session_store remote s \<subseteq> session_store remote s' \<Longrightarrow> over env remote F' s' P"
  unfolding over_def by blast

definition deduper_ok ::
  "session_env \<Rightarrow> store \<Rightarrow> file_upload_session \<Rightarrow> nat \<Rightarrow> chunk list \<Rightarrow> upload_manager file_deduper \<Rightarrow> bool" where
  "deduper_ok env remote s file_id cs dd \<longleftrightarrow>
     fd_wf (se_defrag env) dd \<and> fd_file_id dd = of_nat file_id \<and> fd_chunk_hashes dd = map chunk_node cs \<and>
     over env remote {map chunk_node cs} s (\<lambda>G. fd_spells G dd (map chunk_node cs))"

lemma deduper_ok_new: "deduper_ok env remote s file_id [] (file_deduper_new m (of_nat file_id))"
  using fd_new_ok by (simp add: deduper_ok_def over_def) (simp add: file_deduper_new_def)

lemma fd_sem_manager [simp]:
  "fd_wf cfg (dd\<lparr>fd_data_mng := m\<rparr>) = fd_wf cfg dd"
  by (simp add: fd_wf_def)

lemma unat_of_nat_le: "unat (of_nat n :: u64) \<le> n"
  by (simp add: unsigned_of_nat take_bit_nat_less_eq_self)

lemma process_step:
  assumes honest: "honest_server env remote" and s: "session_ok env remote s" and id: "file_id < length (ct_files (us_tracker s))"
    and dd: "deduper_ok env remote s file_id ds dd" and cs: "list_all (\<lambda>c. length (chunk_data c) \<le> MAX_XORB_BYTES) cs"
  shows "returns (process_chunks (upload_manager_interface env) kh (se_defrag env) cs (dd\<lparr>fd_data_mng := (fd_data_mng dd)\<lparr>um_session := s\<rparr>\<rparr>))
    (\<lambda>(_, dd'). let s' = um_session (fd_data_mng dd') in
       session_ok env remote s' \<and> frame s s' \<and> deduper_ok env remote s' file_id (ds @ cs) dd')"
proof -
  let ?dd = "dd\<lparr>fd_data_mng := (fd_data_mng dd)\<lparr>um_session := s\<rparr>\<rparr>" and ?fid = "of_nat file_id :: u64"
  have wf: "fd_wf (se_defrag env) ?dd" using dd by (simp add: deduper_ok_def)
  have "unat ?fid < length (ct_files (us_tracker s))" using id unat_of_nat_le [of file_id] by linarith
  then have ready: "manager_inv env remote s ?fid (fd_data_mng ?dd) \<and> fd_file_id ?dd = ?fid"
    using honest s dd by (simp add: manager_inv_def deduper_ok_def)
  from upload.process_chunks_ok [OF wf ready cs, of kh] show ?thesis
  proof (rule returns_mono)
    fix y assume y: "case y of (_, st') \<Rightarrow> upload.processed remote env s ?fid (se_defrag env) ?dd cs st'"
    obtain m dd' where y': "y = (m, dd')" by (cases y)
    let ?s' = "um_session (fd_data_mng dd')"
    have p: "fd_wf (se_defrag env) dd'" "manager_inv env remote s ?fid (fd_data_mng dd')" "fd_file_id dd' = ?fid"
      "fd_chunk_hashes dd' = fd_chunk_hashes dd @ map chunk_node cs"
      "\<And>G. good_store G \<Longrightarrow> session_store remote ?s' \<subseteq> G \<Longrightarrow> collision_free (session_keys env) G (fd_chunk_hashes dd') \<Longrightarrow>
        fd_spells G ?dd (fd_chunk_hashes ?dd) \<Longrightarrow> fd_spells G dd' (fd_chunk_hashes dd')"
      using y unfolding y' upload.processed_def by (auto simp: manager_store_def)
    have frame: "frame s ?s'" "session_ok env remote ?s'" using p(2) by (simp_all add: manager_inv_def)
    have "over env remote {map chunk_node (ds @ cs)} ?s' (\<lambda>G. fd_spells G dd' (map chunk_node (ds @ cs)))"
      unfolding over_def
    proof (intro allI impI)
      fix G assume G: "good_store G" "session_store remote ?s' \<subseteq> G" "\<forall>ns \<in> {map chunk_node (ds @ cs)}. legible env G ns"
      have "session_store remote s \<subseteq> G" using G(2) session_store_mono [OF frame(1)] by blast
      moreover have "legible env G (map chunk_node ds)" using G(3) legible_prefix by auto
      ultimately have "fd_spells G ?dd (fd_chunk_hashes ?dd)" using dd G(1) by (simp add: deduper_ok_def over_def)
      then show "fd_spells G dd' (map chunk_node (ds @ cs))"
        using p(5) [OF G(1,2)] G(3) p(4) dd by (simp add: deduper_ok_def legible_def)
    qed
    then show "case y of (_, dd') \<Rightarrow> let s' = um_session (fd_data_mng dd') in
        session_ok env remote s' \<and> frame s s' \<and> deduper_ok env remote s' file_id (ds @ cs) dd'"
      using p frame dd by (simp add: y' deduper_ok_def Let_def)
  qed
qed

definition cleaner_ok ::
  "session_env \<Rightarrow> store \<Rightarrow> (u64 \<Rightarrow> u8 \<Rightarrow> u64) \<Rightarrow> file_upload_session \<Rightarrow> bytes \<Rightarrow> file_cleaner \<Rightarrow> bool" where
  "cleaner_ok env remote roll s d c \<longleftrightarrow>
     fc_chunker c = cut_state roll d \<and> fc_file_id c < length (ct_files (us_tracker s)) \<and>
     (\<exists>dd. fc_deduper c = Inr dd \<and> deduper_ok env remote s (fc_file_id c) (cut_chunks (se_keyed_hash env) roll d) dd)"

text \<open>A cleaner whose background step has failed reports the error when it is finished.\<close>

abbreviation broken :: "file_cleaner \<Rightarrow> bool" where
  "broken c \<equiv> isl (fc_deduper c)"

lemma deduper_ok_frame: "deduper_ok env remote s i cs dd \<Longrightarrow> frame s s' \<Longrightarrow> deduper_ok env remote s' i cs dd"
  unfolding deduper_ok_def using over_mono session_store_mono by blast

lemma cleaner_ok_frame: "cleaner_ok env remote roll s d c \<Longrightarrow> frame s s' \<Longrightarrow> cleaner_ok env remote roll s' d c"
  by (auto simp: cleaner_ok_def deduper_ok_frame) (auto simp: frame_def)

lemma cleaner_new_ok:
  assumes "file_id < length (ct_files (us_tracker s))"
  shows "\<exists>c. file_cleaner_new file_id sha256 u = Some c \<and> cleaner_ok env remote roll s [] c"
  using assms deduper_ok_new by (auto simp: file_cleaner_new_def demo_chunker_new cleaner_ok_def cut_empty Let_def split: prod.split)

lemma deduper_process_ok:
  assumes "honest_server env remote" and "session_ok env remote s" and "fc_file_id c < length (ct_files (us_tracker s))"
    and dd: "fc_deduper c = Inr dd" "deduper_ok env remote s (fc_file_id c) ds dd"
    and cs: "list_all (\<lambda>c. length (chunk_data c) \<le> MAX_XORB_BYTES) cs"
  shows "\<exists>r s'. deduper_process_chunks env cs c s = Some (Inr (), c\<lparr>fc_deduper := r\<rparr>, s') \<and>
    (\<forall>dd'. r = Inr dd' \<longrightarrow> session_ok env remote s' \<and> frame s s' \<and> deduper_ok env remote s' (fc_file_id c) (ds @ cs) dd')"
proof -
  from process_step [OF assms(1-3) dd(2) cs, of "se_keyed_hash env"] show ?thesis
  proof (cases rule: returns_cases)
    case (1 e)
    then show ?thesis
      using dd(1) by (intro exI [of _ "Inl (fst e)"] exI [of _ "snd e"]) (simp add: deduper_process_chunks_def split_beta)
  next
    case (2 y)
    then show ?thesis
      using dd(1) by (intro exI [of _ "Inr (snd y)"] exI [of _ "um_session (fd_data_mng (snd y))"])
        (auto simp: deduper_process_chunks_def Let_def split_beta)
  qed
qed

lemma deduper_process_broken:
  "broken c \<Longrightarrow> deduper_process_chunks env cs c s = Some (r, c', s') \<Longrightarrow> isl r \<and> c' = c \<and> s' = s"
  by (auto simp: deduper_process_chunks_def split: sum.splits)

lemma add_data_chunk_ok:
  assumes gear: "gear_hasher (se_next_match env) roll" and honest: "honest_server env remote"
    and s: "session_ok env remote s" and c: "cleaner_ok env remote roll s d c"
  shows "\<exists>c' s'. add_data_chunk_impl env x c s = Some (Inr (), c', s') \<and>
    (\<not> broken c' \<longrightarrow> session_ok env remote s' \<and> frame s s' \<and> cleaner_ok env remote roll s' (d @ x) c')"
proof -
  let ?kh = "se_keyed_hash env"
  obtain t where t: "increment_file_size (fc_file_id c) (of_nat (length x)) (us_tracker s) = Some t" "tracker_step (us_tracker s) t"
    using increment_file_size_step [of "fc_file_id c" "us_tracker s" "of_nat (length x)"] c by (auto simp: cleaner_ok_def)
  obtain cs where cs: "next_block_bytes (se_next_match env) ?kh (fc_chunker c) x False = Some (cut_state roll (d @ x), cs)"
    "cut_chunks ?kh roll (d @ x) = cut_chunks ?kh roll d @ cs"
    using cut_block [OF gear, of ?kh d x] c by (auto simp: cleaner_ok_def)
  define c1 where "c1 = c\<lparr>fc_chunker := cut_state roll (d @ x), fc_sha_generator := map_option (sha256_update x) (fc_sha_generator c)\<rparr>"
  define u where "u = s\<lparr>us_tracker := t\<rparr>"
  have u: "session_ok env remote u" "frame s u"
    using s t(2) by (auto simp: u_def session_inv_def queued_def tracker_step_def frame_def)
  have op: "add_data_chunk_impl env x c s = (if cs = [] then Some (Inr (), c1, u) else deduper_process_chunks env cs c1 u)"
    using t(1) cs(1) by (simp add: add_data_chunk_impl_def Let_def c1_def u_def)
  obtain dd where dd: "fc_deduper c = Inr dd" "deduper_ok env remote u (fc_file_id c) (cut_chunks ?kh roll d) dd"
    "fc_file_id c < length (ct_files (us_tracker u))"
    using cleaner_ok_frame [OF c u(2)] by (auto simp: cleaner_ok_def)
  show ?thesis
  proof (cases "cs = []")
    case True
    then show ?thesis using op u dd cs(2) by (simp add: cleaner_ok_def c1_def)
  next
    case False
    have "list_all (\<lambda>c. length (chunk_data c) \<le> MAX_XORB_BYTES) cs"
      using cut_chunks_bounds [of ?kh roll "d @ x"] cs(2) by simp
    then obtain r s' where "deduper_process_chunks env cs c1 u = Some (Inr (), c1\<lparr>fc_deduper := r\<rparr>, s')"
      "\<And>dd'. r = Inr dd' \<Longrightarrow> session_ok env remote s' \<and> frame u s' \<and> deduper_ok env remote s' (fc_file_id c) (cut_chunks ?kh roll d @ cs) dd'"
      using deduper_process_ok [OF honest u(1), of c1 dd "cut_chunks ?kh roll d" cs] dd by (auto simp: c1_def)
    then show ?thesis
      using op False cs(2) frame_trans [OF u(2)] dd(3)
      by (cases r) (auto simp: cleaner_ok_def c1_def frame_def)
  qed
qed

lemma add_data_chunk_broken:
  "broken c \<Longrightarrow> add_data_chunk_impl env x c s = Some (Inr (), c', s') \<Longrightarrow> broken c'"
  by (auto simp: add_data_chunk_impl_def Let_def bind_eq_Some_conv split: if_splits dest!: deduper_process_broken [rotated])

lemma drop_slice: "a \<le> b \<Longrightarrow> drop a xs = slice xs a b @ drop b xs"
proof -
  assume "a \<le> b"
  then have "drop b xs = drop (b - a) (drop a xs)" by simp
  then show ?thesis unfolding slice_def by (simp only: append_take_drop_id)
qed

text \<open>Blocks of a non-zero size.\<close>

lemma add_data_loop_ok:
  assumes gear: "gear_hasher (se_next_match env) roll" and honest: "honest_server env remote" and bs: "0 < se_ingestion_block_size env"
  shows "add_data_loop env x n c s = Some (Inr (), c', s') \<Longrightarrow> n \<le> length x \<Longrightarrow>
    broken c \<or> session_ok env remote s \<and> cleaner_ok env remote roll s d c \<Longrightarrow>
    broken c' \<or> \<not> broken c \<and> session_ok env remote s' \<and> frame s s' \<and> cleaner_ok env remote roll s' (d @ drop n x) c'"
proof (induction "length x - n" arbitrary: n c s d rule: less_induct)
  case less
  show ?case
  proof (cases "n < length x")
    case False
    then show ?thesis using less.prems by (auto simp: add_data_loop.simps)
  next
    case True
    let ?m = "min (n + se_ingestion_block_size env) (length x)"
    obtain r c1 u where r: "add_data_chunk_impl env (slice x n ?m) c s = Some (r, c1, u)"
      "(case r of Inl e \<Rightarrow> Some (Inl e, c1, u) | Inr _ \<Rightarrow> add_data_loop env x ?m c1 u) = Some (Inr (), c', s')"
      using less.prems(1) True unfolding add_data_loop.simps [of env x n c s]
      by (auto simp: Let_def bind_eq_Some_conv)
    then have c1: "add_data_chunk_impl env (slice x n ?m) c s = Some (Inr (), c1, u)" "add_data_loop env x ?m c1 u = Some (Inr (), c', s')"
      by (cases r; simp)+
    have step: "broken c1 \<or> \<not> broken c \<and> session_ok env remote u \<and> frame s u \<and> cleaner_ok env remote roll u (d @ slice x n ?m) c1"
      using less.prems(3) add_data_chunk_broken [OF _ c1(1)] add_data_chunk_ok [OF gear honest, of s d c "slice x n ?m"] c1(1) by fastforce
    have "drop n x = slice x n ?m @ drop ?m x"
      using less.prems(2) by (intro drop_slice) simp
    moreover have "length x - ?m < length x - n" "?m \<le> length x" using True bs by auto
    ultimately show ?thesis
      using less.hyps [of ?m c1 u "d @ slice x n ?m"] c1(2) step by (auto intro: frame_trans)
  qed
qed

lemma add_data_ok:
  assumes "gear_hasher (se_next_match env) roll" and "honest_server env remote" and "0 < se_ingestion_block_size env"
    and "add_data env x c s = Some (Inr (), c', s')"
    and "broken c \<or> session_ok env remote s \<and> cleaner_ok env remote roll s d c"
  shows "broken c' \<or> \<not> broken c \<and> session_ok env remote s' \<and> frame s s' \<and> cleaner_ok env remote roll s' (d @ x) c'"
proof (cases "se_ingestion_block_size env < length x")
  case True
  then show ?thesis
    using add_data_loop_ok [OF assms(1-3), of x 0 c s c' s' d] assms(4,5) by (simp add: add_data_def add_data_from_bytes_def)
next
  case False
  then have "add_data_chunk_impl env x c s = Some (Inr (), c', s')" using assms(4) by (simp add: add_data_def add_data_from_bytes_def)
  then show ?thesis using assms(5) add_data_chunk_broken add_data_chunk_ok [OF assms(1,2), of s d c x] by fastforce
qed

section \<open>Finishing a file\<close>

text \<open>What the aggregator of a finished file is, and what it means over a store without collisions.\<close>

lemma fd_finalize_fields:
  assumes "fd_finalize kh ext st = Some (fh, hs, agg, dm)"
  shows "fh = file_hash kh (fd_chunk_hashes st)" "hs = fd_chunk_hashes st"
    "\<exists>info. agg = data_aggregator_new (fd_new_data st) info (fd_internal_refs st) (fd_file_id st)"
  using assms by (auto simp: fd_finalize_def Let_def bind_eq_Some_conv)

lemma fd_finalize_da_ok:
  assumes "fd_finalize kh ext st = Some (fh, hs, agg, dm)" and "fd_wf cfg st"
    and sp: "fd_spells G st (fd_chunk_hashes st)" and n: "length (fd_chunk_hashes st) < 2 ^ 32"
  shows "da_ok kh G agg [fd_chunk_hashes st]"
proof -
  obtain info where info: "fd_finalize kh ext st = Some (file_hash kh (fd_chunk_hashes st), fd_chunk_hashes st,
      data_aggregator_new (fd_new_data st) info (fd_internal_refs st) (fd_file_id st), fd_metrics st)"
    "describes kh (with_new G (fd_new_data st)) info (fd_chunk_hashes st)" "segments info = fd_file_info st"
    using fd_finalize_ok [OF sp n] by metis
  have "marker_refs (segments info) (fd_internal_refs st)" using sp info(3) by (simp add: fd_sem_def)
  from da_ok_new [OF assms(2) this info(2), of "fd_file_id st"] show ?thesis using assms(1) info(1) by simp
qed

lemma finish_parts:
  assumes gear: "gear_hasher (se_next_match env) roll" and honest: "honest_server env remote"
    and s: "session_ok env remote s" and c: "cleaner_ok env remote roll s d c"
  shows "\<exists>r u. finish_inner env register c s =
      (case r of Inl e \<Rightarrow> Some (Inl e, u) | Inr dd \<Rightarrow> finish_deduper env register (cleaner_sha256 env c) dd u) \<and>
    (\<forall>dd. r = Inr dd \<longrightarrow> session_ok env remote u \<and> frame s u \<and> deduper_ok env remote u (fc_file_id c) (file_chunks (se_keyed_hash env) roll d) dd)"
proof -
  let ?kh = "se_keyed_hash env"
  obtain dd where dd: "fc_deduper c = Inr dd" "deduper_ok env remote s (fc_file_id c) (cut_chunks ?kh roll d) dd"
    "fc_file_id c < length (ct_files (us_tracker s))" "fc_chunker c = cut_state roll d"
    using c by (auto simp: cleaner_ok_def)
  have sha: "cleaner_sha256 env (c\<lparr>fc_deduper := q\<rparr>) = cleaner_sha256 env c" for q by (simp add: cleaner_sha256_def split: option.split)
  obtain c1 r where fin: "chunker_finish (se_next_match env) ?kh (fc_chunker c) = Some (c1, r)"
    "file_chunks ?kh roll d = cut_chunks ?kh roll d @ (case r of None \<Rightarrow> [] | Some ch \<Rightarrow> [ch])"
    using cut_finish [OF gear, of ?kh d] dd(4) by auto
  have "\<exists>q u. (case r of Some ch \<Rightarrow> deduper_process_chunks env [ch] c s | None \<Rightarrow> Some (Inr (), c, s)) = Some (Inr (), c\<lparr>fc_deduper := q\<rparr>, u) \<and>
      (\<forall>dd. q = Inr dd \<longrightarrow> session_ok env remote u \<and> frame s u \<and> deduper_ok env remote u (fc_file_id c) (file_chunks ?kh roll d) dd)"
  proof (cases r)
    case None
    have "c\<lparr>fc_deduper := Inr dd\<rparr> = c" using dd(1) by (cases c) simp
    then show ?thesis using None s dd fin(2) by (intro exI [of _ "Inr dd"] exI [of _ s]) simp
  next
    case (Some ch)
    have "length (chunk_data ch) \<le> MAX_XORB_BYTES" using file_chunks_bounds [of ?kh roll d] fin(2) Some by (simp add: list_all_iff)
    then show ?thesis
      using deduper_process_ok [OF honest s dd(3,1,2), of "[ch]"] Some fin(2) by simp
  qed
  then obtain q u where "(case r of Some ch \<Rightarrow> deduper_process_chunks env [ch] c s | None \<Rightarrow> Some (Inr (), c, s)) = Some (Inr (), c\<lparr>fc_deduper := q\<rparr>, u)"
    "\<forall>dd. q = Inr dd \<longrightarrow> session_ok env remote u \<and> frame s u \<and> deduper_ok env remote u (fc_file_id c) (file_chunks ?kh roll d) dd"
    by blast
  then show ?thesis
    using fin(1) by (intro exI [of _ q] exI [of _ u] conjI) (simp_all add: finish_inner_def sha split: sum.split)
qed

lemma finish_broken:
  assumes "broken c" and "finish_inner env register c s = Some (r, s')"
  shows "isl r"
proof -
  obtain e where "fc_deduper c = Inl e" using assms(1) by (auto simp: isl_def)
  then show ?thesis
    using assms(2) by (auto simp: finish_inner_def deduper_process_chunks_def bind_eq_Some_conv split: option.splits)
qed

end
