(* ===== verification/Upload_Example.thy ===== *)
theory Upload_Example
  imports File_Cleaner_Correct
begin

text \<open>
  One small upload, evaluated: a session with a client that never fails and a constant hash function, and
  a file of three bytes. It is the instance at which the theorems about uploads are applied.
\<close>

definition small_kh :: keyed_hash where
  "small_kh _ _ = 1 # replicate 31 0"

definition small_hash :: merkle_hash where
  "small_hash = from_bytes (1 # replicate 31 0)"

lemma small_hashes: "compute_data_hash small_kh d = small_hash" "hmac small_kh a b = small_hash" "small_hash \<noteq> marker" "marker \<noteq> small_hash"
  by (simp_all add: compute_data_hash_def hmac_def small_kh_def small_hash_def) code_simp+

definition small_env :: session_env where
  "small_env = \<lparr>se_query_for_global_dedup_shard = \<lambda>_ _. Inr None, se_acquire_upload_permit = \<lambda>_. Inr (),
     se_upload_xorb = \<lambda>_ xo. ([], Inr 3), se_upload_shard = \<lambda>_ _. Inr (),
     se_now = \<lambda>_. 0, se_runs = \<lambda>_. False, se_keyed_hash = small_kh, se_next_match = roll_match (gear_roll ucast),
     se_sha256 = id, se_lz4 = Inr, se_recommended = \<lambda>_. False, se_alignment = \<lambda>_. 0, se_ratio = \<lambda>_ _ x. x, se_sort = id,
     se_defrag = \<lparr>nranges_in_estimator = 1, cpr_below_target = \<lambda>_ _ _. False, range_below_cpr = \<lambda>_ _ _. False\<rparr>,
     se_global_dedup_query_enabled = False, se_compression_policy = ''none'', se_retest_interval = 0, se_ingestion_block_size = 8\<rparr>"

lemma small_small: "ref_split r demo_chunker [1, 2, 3] = ([], [1, 2, 3])"
  by (rule ref_split_None) (simp add: first_cut_len_def demo_chunker_def upt_rec cut_at_def)

abbreviation small_roll :: "u64 \<Rightarrow> u8 \<Rightarrow> u64" where
  "small_roll \<equiv> gear_roll ucast"

definition small_chunk :: chunk where
  "small_chunk = \<lparr>chunk_hash = small_hash, chunk_data = [1, 2, 3]\<rparr>"

lemma small_chunk_simps: "chunk_data small_chunk = [1, 2, 3]" "chunk_hash small_chunk = small_hash" "chunk_node small_chunk = (small_hash, 3)"
  by (simp_all add: small_chunk_def chunk_node_def)

lemma small_chunks: "cut_chunks small_kh small_roll [1, 2, 3] = []" "file_chunks small_kh small_roll [1, 2, 3] = [small_chunk]"
  by (simp_all add: cut_chunks_def file_chunks_def ref_chunks_split small_small chunk_new_def small_hashes small_chunk_def)

lemma small_next: "next_block_bytes (roll_match small_roll) small_kh demo_chunker [1, 2, 3] False = Some (cut_state small_roll [1, 2, 3], [])"
  using cut_block [OF gear.gear_hasher_axioms, of ucast small_kh "[]" "[1, 2, 3]"] by (simp add: cut_empty small_chunks)

definition small_chunker :: chunker where
  "small_chunker = fst (the (chunker_finish (roll_match small_roll) small_kh (cut_state small_roll [1, 2, 3])))"

lemma small_fin: "chunker_finish (roll_match small_roll) small_kh (cut_state small_roll [1, 2, 3]) = Some (small_chunker, Some small_chunk)"
  using cut_finish [OF gear.gear_hasher_axioms, of ucast small_kh "[1, 2, 3]"] unfolding small_chunker_def by (auto simp: small_chunks split: option.splits)

lemma small_env_simps:
  "se_acquire_upload_permit small_env t = Inr ()" "se_query_for_global_dedup_shard small_env t h = Inr None" "se_upload_xorb small_env t xo = ([], Inr 3)"
  "se_upload_shard small_env t bs = Inr ()" "se_now small_env t = 0" "\<not> se_runs small_env t" "se_keyed_hash small_env = small_kh" "se_next_match small_env = roll_match small_roll"
  "se_lz4 small_env = Inr" "se_defrag small_env = \<lparr>nranges_in_estimator = 1, cpr_below_target = \<lambda>_ _ _. False, range_below_cpr = \<lambda>_ _ _. False\<rparr>" "\<not> se_global_dedup_query_enabled small_env"
  "se_compression_policy small_env = ''none''" "se_ingestion_block_size small_env = 8" "se_retest_interval small_env = 0" "se_sort small_env = id"
  by (simp_all add: small_env_def)

lemma small_agg: "xorb_hash small_kh [(small_hash, n)] = small_hash" "file_hash small_kh [(small_hash, n)] = small_hash"
  by (simp_all add: xorb_hash_def file_hash_def file_hash_with_salt_def small_hashes aggregated_node_hash_def agg_loop_single)

lemma small_policy: "scheme_from_str ''none'' = Inr Scheme_None"
  by code_simp

lemma small_ser: "rx_data x = [[1, 2, 3]] \<Longrightarrow> \<exists>xo. serialize_xorb small_env x = Inr xo"
  by (simp add: serialize_xorb_def from_xorb_def small_env_simps small_policy from_xorb_with_compression_def serialize_chunk_def Let_def resolve_for_data_def
      compress_from_slice_def compress_resolved_def)

lemmas small_defs = start_clean_def check_not_finalized_def start_clean_with_id_def upload_session_new_def Let_def
     file_cleaner_new_def demo_chunker_new tracker_register_new_file_def completion_tracker_new_def update_item_size_def
   add_data_def add_data_from_bytes_def add_data_chunk_impl_def small_env_simps increment_file_size_def small_next
   finish_def finish_with_chunks_def finish_inner_def small_fin deduper_process_chunks_def
   process_chunks_def query_passes_def query_pass.simps upload_manager_interface_def manager_chunk_hash_dedup_query_def manager_register_global_dedup_query_def
   manager_complete_global_dedup_queries_def session_dedup_query_def process_loop.simps dedup_query_against_local_data_def add_new_chunk_def push_new_chunk_def
  file_deduper_new_def session_shard_interface_new_def shard_dedup_query_def shard_default_def extends_current_def file_entry_new_def try_u32_def MAX_XORB_vals
  add_range_def defrag_new_def metrics_default_def metrics_merge_in_def upload_manager_new_def finish_deduper_def fd_finalize_def cleaner_sha256_def
  file_header_new_def small_hashes small_chunk_simps small_agg register_single_file_clean_completion_def data_aggregator_default_def data_aggregator_new_def da_is_empty_def
  merge_metrics_def da_merge_in_def

definition small_xorb :: raw_xorb_data where
  "small_xorb =
     \<lparr>rx_data = [[1, 2, 3]],
      rx_xorb_info = \<lparr>xorb_metadata = \<lparr>xh_xorb_hash = small_hash, xh_xorb_flags = 0, xh_num_entries = 1, xh_num_bytes_in_xorb = 3, xh_num_bytes_on_disk = 0\<rparr>,
        xorb_chunks = [\<lparr>xe_chunk_hash = small_hash, xe_chunk_byte_range_start = 0, xe_unpacked_segment_bytes = 3, xe_flags = 0, xe_unused = 0\<rparr>]\<rparr>,
      rx_file_boundaries = [0]\<rparr>"

lemma small_xorb: "raw_xorb_from_chunks small_kh [small_chunk] [0] = Some small_xorb"
  by (simp add: raw_xorb_from_chunks_def xorb_header_new_def try_u32_def small_chunk_simps small_agg small_xorb_def xorb_entry_new_def MDB_DEFAULT_XORB_FLAG_def)

lemma small_xorb_simps: "raw_xorb_hash small_xorb = small_hash" "raw_xorb_num_bytes small_xorb = 3" "xorb_record small_xorb = (small_hash, [(small_hash, 3)])"
  by (simp_all add: small_xorb_def raw_xorb_hash_def raw_xorb_num_bytes_def xorb_record_def xorb_nodes_def entry_node_def)

definition small_xo :: serialized_xorb_object where
  "small_xo = projr (serialize_xorb small_env small_xorb)"

lemma small_xo: "serialize_xorb small_env small_xorb = Inr small_xo" "sx_hash small_xo = small_hash"
proof -
  show xo: "serialize_xorb small_env small_xorb = Inr small_xo" using small_ser [of small_xorb] by (auto simp: small_xo_def small_xorb_def)
  show "sx_hash small_xo = small_hash" using serialize_xorb_hash [OF xo] by (simp add: small_xorb_simps)
qed

lemmas small_end_defs = finalize_impl_def process_aggregated_data_as_xorb_def process_aggregated_data_as_xorb_impl_def da_finalize_def small_env_simps
  small_xorb Let_def session_register_new_xorb_def small_xorb_simps small_xo tracker_register_new_xorb_def entry_or_default_def xorb_dependency_default_def
  add_upload_bytes_def register_dependencies_def register_dependency_def credit_file_def next_tick_def upload_xorb_task_def
  register_xorb_upload_completion_def add_upload_completed_def report_bytes_completed_def xorb_part_default_def shift_entry_def
  upload_and_register_session_shards_def

lemma small_run:
  "\<exists>c s1 c2 s2 info m s3. start_clean None Skip (upload_session_new False) = Some (Inr c, s1) \<and> 
  add_data small_env [1, 2, 3] c s1 = Some (Inr (), c2, s2) \<and> finish small_env c2 s2 = Some (Inr (info, m), s3) \<and> 
   (\<exists>me fi re s4. finalize_impl small_env True s3 = Some (Inr (me, fi, re), s4) \<and> us_registered s4 = [small_xorb])"
  by (simp add: small_defs) (simp add: small_end_defs)

lemma small_nodes: "file_nodes small_kh small_roll [1, 2, 3] = [(small_hash, 3)]"
  by (simp add: file_nodes_def small_chunks small_chunk_simps)

lemma small_store: "us_registered s = [small_xorb] \<Longrightarrow> session_store {} s = {(small_hash, [(small_hash, 3)])}"
  by (simp add: session_store_def small_xorb_simps)

lemma small_keys: "session_keys small_env = {\<lambda>h. h}"
  by (auto simp: session_keys_def small_env_simps)

end
