(* ===== verification/Upload_End_To_End.thy ===== *)
theory Upload_End_To_End
  imports Upload_Example
begin

text \<open>
  A whole upload: any number of files, their data and their cleaners' operations interleaved in any order,
  then the finalization of the session. The invariant of all reachable states says where each finished
  file is: in the aggregated data of the session or, described over the registered xorbs, in the
  session shard. After a successful finalization every file is in the session shard and every xorb it
  refers to is on the server.
\<close>

section \<open>Aggregated data\<close>

definition da_static :: "nat \<Rightarrow> data_aggregator \<Rightarrow> bool" where
  "da_static n d \<longleftrightarrow>
     da_num_bytes d = chunk_bytes (da_chunks d) \<and> chunk_bytes (da_chunks d) \<le> MAX_XORB_BYTES \<and>
     length (da_chunks d) \<le> MAX_XORB_CHUNKS \<and> list_all (\<lambda>(_, _, fid). unat fid < n) (da_pending d)"

lemma da_static_default [simp]: "da_static n data_aggregator_default"
  by (simp add: da_static_def data_aggregator_default_def)

lemma da_static_mono: "da_static n d \<Longrightarrow> n \<le> m \<Longrightarrow> da_static m d"
  unfolding da_static_def by (auto simp: list_all_iff)

lemma da_static_merge:
  assumes "da_static n d" and "da_static n d'"
    and "da_num_bytes d + da_num_bytes d' \<le> MAX_XORB_BYTES" and "length (da_chunks d) + length (da_chunks d') \<le> MAX_XORB_CHUNKS"
  shows "da_static n (da_merge_in d d')"
  using assms by (auto simp: da_static_def da_merge_in_def Let_def list_all_iff)

lemma chunks_u64: "chunk_bytes cs \<le> MAX_XORB_BYTES \<Longrightarrow> list_all (\<lambda>c. length (chunk_data c) < 2 ^ 64) cs"
proof -
  assume le: "chunk_bytes cs \<le> MAX_XORB_BYTES"
  have "length (chunk_data c) \<le> chunk_bytes cs" if "c \<in> set cs" for c
    unfolding chunk_bytes_def using that by (intro member_le_sum_list) auto
  then show ?thesis using le by (fastforce simp: list_all_iff MAX_XORB_vals)
qed

lemma fill_all_ids: "fill_all h ps = Some rs \<Longrightarrow> map fst rs = map (\<lambda>(_, _, fid). fid) ps"
  by (induction h ps arbitrary: rs rule: fill_all.induct) (auto simp: bind_eq_Some_conv)

text \<open>What changes of the session leave valid for open files: more xorbs and more files.\<close>

definition grow :: "file_upload_session \<Rightarrow> file_upload_session \<Rightarrow> bool" where
  "grow s s' \<longleftrightarrow> length (ct_files (us_tracker s)) \<le> length (ct_files (us_tracker s')) \<and> set (us_registered s) \<subseteq> set (us_registered s') \<and>
     ss_dry_run (us_shards s') = ss_dry_run (us_shards s)"

lemma grow_refl [simp]: "grow s s"
  by (simp add: grow_def)

lemma grow_trans: "grow s u \<Longrightarrow> grow u v \<Longrightarrow> grow s v"
  by (auto simp: grow_def)

lemma frame_grow: "frame s s' \<Longrightarrow> grow s s'"
  by (simp add: frame_def grow_def)

lemma grow_store: "grow s s' \<Longrightarrow> session_store remote s \<subseteq> session_store remote s'"
  by (auto simp: grow_def session_store_def)

lemma cleaner_ok_grow: "cleaner_ok env remote roll s d c \<Longrightarrow> grow s s' \<Longrightarrow> cleaner_ok env remote roll s' d c"
  unfolding cleaner_ok_def deduper_ok_def using over_mono [OF _ subset_refl grow_store] by (auto simp: grow_def)

section \<open>Where the finished files are\<close>

abbreviation session_files :: "file_upload_session \<Rightarrow> merkle_hash \<rightharpoonup> mdb_file_info" where
  "session_files s \<equiv> map_of (file_content (ss_session_shard (us_shards s)))"

definition file_described :: "keyed_hash \<Rightarrow> node list set \<Rightarrow> (merkle_hash \<rightharpoonup> mdb_file_info) \<Rightarrow> store \<Rightarrow> bool" where
  "file_described kh F files G \<longleftrightarrow> (\<forall>h fi. files h = Some fi \<longrightarrow> (\<exists>ns \<in> F. h = file_hash kh ns \<and> describes kh G fi ns))"

text \<open>\<open>F\<close> are the nodes of the finished files, \<open>X\<close> those of files in data that is just being processed.\<close>

definition files_ok :: "session_env \<Rightarrow> store \<Rightarrow> node list set \<Rightarrow> node list set \<Rightarrow> file_upload_session \<Rightarrow> bool" where
  "files_ok env remote F X s \<longleftrightarrow>
     da_static (length (ct_files (us_tracker s))) (us_data s) \<and>
     over env remote F s (file_described (se_keyed_hash env) F (session_files s)) \<and>
     (\<exists>nss. set nss \<subseteq> F \<and> over env remote F s (\<lambda>G. da_ok (se_keyed_hash env) G (us_data s) nss) \<and>
        over env remote F s (\<lambda>_. \<forall>ns \<in> F. ns \<in> set nss \<or> ns \<in> X \<or> file_hash (se_keyed_hash env) ns \<in> dom (session_files s)))"

lemma file_described_mono: "file_described kh F files G \<Longrightarrow> F \<subseteq> F' \<Longrightarrow> file_described kh F' files G"
  unfolding file_described_def by blast

lemma files_ok_frame: "files_ok env remote F X s \<Longrightarrow> frame s s' \<Longrightarrow> files_ok env remote F X s'"
proof -
  assume f: "files_ok env remote F X s" and fr: "frame s s'"
  have "over env remote F s P \<Longrightarrow> over env remote F s' P" for P
    by (rule over_mono [OF _ subset_refl session_store_mono [OF fr]])
  then show ?thesis using f fr unfolding files_ok_def by (auto simp: frame_def)
qed

lemma us_data_simps [simp]:
  "session_inv env remote T (s\<lparr>us_data := d\<rparr>) = session_inv env remote T s" "grow (s\<lparr>us_data := d\<rparr>) u = grow s u"
  "grow u (s\<lparr>us_data := d\<rparr>) = grow u s" "over env remote F (s\<lparr>us_data := d\<rparr>) P = over env remote F s P"
  by (simp_all add: session_inv_def queued_def over_def session_store_def grow_def)

lemma over_subset: "over env remote F s P \<Longrightarrow> F \<subseteq> F' \<Longrightarrow> (\<And>G. P G \<Longrightarrow> Q G) \<Longrightarrow> over env remote F' s Q"
  unfolding over_def by blast

text \<open>The aggregated data of the session is exchanged: the files in the old one are in \<open>X\<close>.\<close>

lemma files_ok_exchange:
  assumes "files_ok env remote F X s"
  obtains mss where "set mss \<subseteq> F" "over env remote F s (\<lambda>G. da_ok (se_keyed_hash env) G (us_data s) mss)"
    "\<And>d nss Y. da_static (length (ct_files (us_tracker s))) d \<Longrightarrow> set nss \<subseteq> F \<Longrightarrow>
       over env remote F s (\<lambda>G. da_ok (se_keyed_hash env) G d nss) \<Longrightarrow> set mss \<union> X \<subseteq> set nss \<union> Y \<Longrightarrow>
       files_ok env remote F Y (s\<lparr>us_data := d\<rparr>)"
proof -
  obtain mss where mss: "set mss \<subseteq> F" "over env remote F s (\<lambda>G. da_ok (se_keyed_hash env) G (us_data s) mss)"
    "over env remote F s (\<lambda>_. \<forall>ns \<in> F. ns \<in> set mss \<or> ns \<in> X \<or> file_hash (se_keyed_hash env) ns \<in> dom (session_files s))"
    using assms by (auto simp: files_ok_def)
  have "files_ok env remote F Y (s\<lparr>us_data := d\<rparr>)"
    if d: "da_static (length (ct_files (us_tracker s))) d" "set nss \<subseteq> F" "over env remote F s (\<lambda>G. da_ok (se_keyed_hash env) G d nss)"
      "set mss \<union> X \<subseteq> set nss \<union> Y" for d nss Y
    unfolding files_ok_def
  proof (intro conjI exI [of _ nss])
    show "over env remote F (s\<lparr>us_data := d\<rparr>) (\<lambda>_. \<forall>ns \<in> F. ns \<in> set nss \<or> ns \<in> Y \<or>
        file_hash (se_keyed_hash env) ns \<in> dom (session_files (s\<lparr>us_data := d\<rparr>)))"
      unfolding us_data_simps by (rule over_subset [OF mss(3) subset_refl]) (use d(4) in auto)
  qed (use d assms in \<open>simp_all add: files_ok_def\<close>)
  with mss show thesis by (intro that)
qed

lemma map_of_fold_add_file:
  "map_of (file_content (ss_session_shard (fold session_add_file_info infos ss))) h = Some fi \<Longrightarrow>
     fi \<in> set infos \<and> fh_file_hash (metadata fi) = h \<or> map_of (file_content (ss_session_shard ss)) h = Some fi"
  by (induction infos arbitrary: ss) (fastforce simp: session_add_file_info_def add_file_reconstruction_info_def split: if_splits)+

lemma dom_fold_add_file:
  "dom (map_of (file_content (ss_session_shard (fold session_add_file_info infos ss)))) =
     dom (map_of (file_content (ss_session_shard ss))) \<union> (\<lambda>fi. fh_file_hash (metadata fi)) ` set infos"
  by (induction infos arbitrary: ss) (auto simp: session_add_file_info_def add_file_reconstruction_info_def)

lemma fold_add_file_ok:
  "shards_ok kh keys remote own ss \<Longrightarrow> shards_ok kh keys remote own (fold session_add_file_info infos ss)"
  by (induction infos arbitrary: ss) (simp_all add: shards_ok_add_file)

section \<open>Cutting aggregated data\<close>

lemma da_finalize_static:
  assumes "da_static n d" and "da_finalize kh d = Some (x, rs)"
  shows "raw_xorb_wf x" "xorb_record x = (xorb_hash kh (map chunk_node (da_chunks d)), map chunk_node (da_chunks d))"
    "list_all (\<lambda>(fid, _, _). unat fid < n) rs"
proof -
  have d: "chunk_bytes (da_chunks d) \<le> MAX_XORB_BYTES" "length (da_chunks d) \<le> MAX_XORB_CHUNKS"
    using assms(1) by (simp_all add: da_static_def)
  obtain y where "raw_xorb_from_chunks kh (da_chunks d) (da_boundaries d) = Some y"
    "raw_xorb_hash y = xorb_hash kh (map chunk_node (da_chunks d))"
    "xorb_nodes (rx_xorb_info y) = map chunk_node (da_chunks d)" "raw_xorb_wf y"
    using raw_xorb_wf_ok [OF d chunks_u64 [OF d(1)]] by metis
  moreover have fin: "raw_xorb_from_chunks kh (da_chunks d) (da_boundaries d) = Some x" "fill_all (raw_xorb_hash x) (da_pending d) = Some rs"
    using assms(2) by (auto simp: da_finalize_def bind_eq_Some_conv)
  ultimately show "raw_xorb_wf x" "xorb_record x = (xorb_hash kh (map chunk_node (da_chunks d)), map chunk_node (da_chunks d))"
    by (simp_all add: xorb_record_def)
  have "list_all (\<lambda>fid. unat fid < n) (map fst rs)"
    using assms(1) unfolding fill_all_ids [OF fin(2)] by (auto simp: da_static_def list_all_iff)
  then show "list_all (\<lambda>(fid, _, _). unat fid < n) rs" by (auto simp: list_all_iff)
qed

lemma process_data_ok:
  assumes s: "session_ok env remote s" and d: "da_static (length (ct_files (us_tracker s))) d"
    and op: "process_aggregated_data_as_xorb_impl env d register s = Some (Inr fis, s')"
  obtains x rs where "da_finalize (se_keyed_hash env) d = Some (x, rs)" "session_ok env remote s'" "us_registered s' = us_registered s @ [x]"
    "us_data s' = us_data s" "us_finalized s' = us_finalized s" "ss_dry_run (us_shards s') = ss_dry_run (us_shards s)"
    "length (ct_files (us_tracker s')) = length (ct_files (us_tracker s))"
    "file_content (ss_session_shard (us_shards s')) = file_content (ss_session_shard
       (if register then fold session_add_file_info (map (\<lambda>(_, fi, _). fi) rs) (us_shards s) else us_shards s))"
    "fis = (if register then [] else map (\<lambda>(_, fi, _). fi) rs)"
proof -
  obtain x rs where fin: "da_finalize (se_keyed_hash env) d = Some (x, rs)"
    using op by (auto simp: process_aggregated_data_as_xorb_impl_def bind_eq_Some_conv)
  note x = da_finalize_static [OF d fin]
  let ?infos = "map (\<lambda>(_, fi, _). fi) rs"
  define u where "u = (if register then s\<lparr>us_shards := fold session_add_file_info ?infos (us_shards s)\<rparr> else s)"
  define deps where "deps = map (\<lambda>(file_id, fi, n). \<lparr>dep_file_id = file_id, dep_xorb_hash = raw_xorb_hash x, dep_n_bytes = n, dep_is_external = False\<rparr>) rs"
  have u: "session_ok env remote u" using s by (auto simp: u_def session_inv_def queued_def fold_add_file_ok)
  have same: "us_registered u = us_registered s" "us_data u = us_data s" "us_finalized u = us_finalized s" "us_tracker u = us_tracker s"
    "us_shards u = (if register then fold session_add_file_info ?infos (us_shards s) else us_shards s)"
    by (simp_all add: u_def)
  have "list_all (\<lambda>d. unat (dep_file_id d) < length (ct_files (us_tracker u))) deps"
    using x(3) by (auto simp: deps_def list_all_iff same)
  from session_register_new_xorb_ok [OF u x(1) this]
  obtain r v where r: "session_register_new_xorb env x deps u = Some (r, v)"
    "\<And>b. r = Inr b \<Longrightarrow> session_ok env remote v \<and> after_xorb x u v"
    by blast
  have dry: "ss_dry_run (fold session_add_file_info is ss) = ss_dry_run ss" for "is" ss
    by (induction "is" arbitrary: ss) (simp_all add: session_add_file_info_def)
  have r': "\<exists>b. r = Inr b" "v = s'" "fis = (if register then [] else ?infos)"
    using op fin r(1) by (auto simp: process_aggregated_data_as_xorb_impl_def Let_def u_def deps_def rbind_def split: sum.splits)
  then have v: "session_ok env remote s'" "after_xorb x u s'" using r(2) by auto
  show thesis
    using that [OF fin v(1)] v(2) r'(3) by (simp add: after_xorb_def same dry)
qed

text \<open>The infos of the aggregated files describe them, now that the xorb has its hash.\<close>

lemma process_data_describes:
  assumes "da_static n d" and fin: "da_finalize kh d = Some (x, rs)" and G: "good_store G" "xorb_record x \<in> G"
    and ok: "da_ok kh G d nss"
  shows "list_all2 (describes kh G) (map (\<lambda>(_, fi, _). fi) rs) nss"
proof -
  have d: "chunk_bytes (da_chunks d) \<le> MAX_XORB_BYTES" using assms(1) by (simp add: da_static_def)
  obtain y qs where "da_finalize kh d = Some (y, qs)" "list_all2 (\<lambda>(_, info, _) ns. describes kh G info ns) qs nss"
    using da_finalize_ok [OF ok chunks_u64 [OF d] G(1)] G(2) da_finalize_static(2) [OF assms(1) fin] by metis
  then have "list_all2 (\<lambda>(_, info, _) ns. describes kh G info ns) rs nss" using fin by simp
  then show ?thesis unfolding list.rel_map by (rule list_all2_mono) auto
qed

lemma process_files_ok:
  assumes s: "session_ok env remote s" and f: "files_ok env remote F (set nss) s"
    and d: "da_static (length (ct_files (us_tracker s))) d" and nss: "set nss \<subseteq> F"
    and sem: "over env remote F s (\<lambda>G. da_ok (se_keyed_hash env) G d nss)"
    and op: "process_aggregated_data_as_xorb env d s = Some (Inr (), s')"
  shows "session_ok env remote s' \<and> files_ok env remote F {} s' \<and> grow s s' \<and> us_finalized s' = us_finalized s \<and> us_data s' = us_data s"
proof -
  let ?kh = "se_keyed_hash env"
  obtain fis where "process_aggregated_data_as_xorb_impl env d True s = Some (Inr fis, s')"
    using op by (auto simp: process_aggregated_data_as_xorb_def rbind_Inr_iff)
  from process_data_ok [OF s d this] obtain x rs where p: "da_finalize ?kh d = Some (x, rs)" "session_ok env remote s'"
    "us_registered s' = us_registered s @ [x]" "us_data s' = us_data s" "us_finalized s' = us_finalized s"
    "length (ct_files (us_tracker s')) = length (ct_files (us_tracker s))"
    "file_content (ss_session_shard (us_shards s')) =
       file_content (ss_session_shard (fold session_add_file_info (map (\<lambda>(_, fi, _). fi) rs) (us_shards s)))"
    "ss_dry_run (us_shards s') = ss_dry_run (us_shards s)"
    by (metis (full_types))
  have g: "grow s s'" using p(3,6,8) by (auto simp: grow_def)
  note st = grow_store [OF g, of remote]
  have infos: "list_all2 (describes ?kh G) (map (\<lambda>(_, fi, _). fi) rs) nss"
    if "good_store G" "session_store remote s' \<subseteq> G" "\<forall>ns \<in> F. legible env G ns" for G
    using process_data_describes [OF d p(1) that(1)] that st p(3) sem by (auto simp: over_def session_store_def)
  have hash: "fh_file_hash (metadata fi) = file_hash ?kh ns" if "describes ?kh G fi ns" for G fi ns
    using that by (simp add: describes_def)
  obtain mss where mss: "set mss \<subseteq> F" "over env remote F s (\<lambda>G. da_ok ?kh G (us_data s) mss)"
    "over env remote F s (\<lambda>_. \<forall>ns \<in> F. ns \<in> set mss \<or> ns \<in> set nss \<or> file_hash ?kh ns \<in> dom (session_files s))"
    using f by (auto simp: files_ok_def)
  have "over env remote F s' (file_described ?kh F (session_files s'))"
    unfolding over_def file_described_def p(7)
  proof (intro allI impI)
    fix G h fi
    assume G: "good_store G" "session_store remote s' \<subseteq> G" "\<forall>ns \<in> F. legible env G ns"
      and "map_of (file_content (ss_session_shard (fold session_add_file_info (map (\<lambda>(_, fi, _). fi) rs) (us_shards s)))) h = Some fi"
    from map_of_fold_add_file [OF this(4)] show "\<exists>ns \<in> F. h = file_hash ?kh ns \<and> describes ?kh G fi ns"
    proof
      assume "fi \<in> set (map (\<lambda>(_, fi, _). fi) rs) \<and> fh_file_hash (metadata fi) = h"
      then show ?thesis
        using list_all2_sets(1) [OF infos [OF G]] hash nss by fastforce
    next
      assume "session_files s h = Some fi"
      moreover have "file_described ?kh F (session_files s) G"
        using f G st unfolding files_ok_def over_def by blast
      ultimately show ?thesis by (simp add: file_described_def)
    qed
  qed
  moreover have "over env remote F s' (\<lambda>_. \<forall>ns \<in> F. ns \<in> set mss \<or> ns \<in> {} \<or> file_hash ?kh ns \<in> dom (session_files s'))"
    unfolding over_def p(7) dom_fold_add_file
  proof (intro allI impI ballI)
    fix G ns assume G: "good_store G" "session_store remote s' \<subseteq> G" "\<forall>ns \<in> F. legible env G ns" and ns: "ns \<in> F"
    have "ns \<in> set mss \<or> ns \<in> set nss \<or> file_hash ?kh ns \<in> dom (session_files s)" using mss(3) G st ns unfolding over_def by blast
    moreover have "file_hash ?kh ns \<in> (\<lambda>fi. fh_file_hash (metadata fi)) ` set (map (\<lambda>(_, fi, _). fi) rs)" if "ns \<in> set nss"
    proof -
      from list_all2_sets(2) [OF infos [OF G] that]
      obtain fi where "fi \<in> set (map (\<lambda>(_, fi, _). fi) rs)" "describes ?kh G fi ns" by blast
      then show ?thesis using hash by (metis imageI)
    qed
    ultimately show "ns \<in> set mss \<or> ns \<in> {} \<or> file_hash ?kh ns \<in> dom (session_files s) \<union>
        (\<lambda>fi. fh_file_hash (metadata fi)) ` set (map (\<lambda>(_, fi, _). fi) rs)"
      by blast
  qed
  ultimately have "files_ok env remote F {} s'"
    using f p(4,6) mss(1) over_mono [OF mss(2) subset_refl st] unfolding files_ok_def by auto
  then show ?thesis using p(2,4,5) g by simp
qed

section \<open>A finished file\<close>

lemma not_Inl_unit [simp]: "(\<forall>e. r \<noteq> Inl e) \<longleftrightarrow> r = Inr ()" for r :: "'e + unit"
  by (cases r) auto

lemma merge_metrics_simps [simp]:
  "session_inv env remote T (merge_metrics m s) = session_inv env remote T s" "us_tasks (merge_metrics m s) = us_tasks s"
  "files_ok env remote F X (merge_metrics m s) = files_ok env remote F X s" "grow u (merge_metrics m s) = grow u s"
  "us_finalized (merge_metrics m s) = us_finalized s"
  by (simp_all add: merge_metrics_def session_inv_def queued_def files_ok_def over_def session_store_def grow_def)

lemma files_ok_insert:
  assumes "files_ok env remote F {} s"
  shows "files_ok env remote (insert ns F) {ns} s"
proof -
  obtain nss where "set nss \<subseteq> F" "over env remote F s (\<lambda>G. da_ok (se_keyed_hash env) G (us_data s) nss)"
    "over env remote F s (\<lambda>_. \<forall>ns \<in> F. ns \<in> set nss \<or> ns \<in> {} \<or> file_hash (se_keyed_hash env) ns \<in> dom (session_files s))"
    using assms by (auto simp: files_ok_def)
  then have "set nss \<subseteq> insert ns F \<and> over env remote (insert ns F) s (\<lambda>G. da_ok (se_keyed_hash env) G (us_data s) nss) \<and>
      over env remote (insert ns F) s (\<lambda>_. \<forall>m \<in> insert ns F. m \<in> set nss \<or> m \<in> {ns} \<or> file_hash (se_keyed_hash env) m \<in> dom (session_files s))"
    by (blast intro: over_subset)
  moreover have "over env remote (insert ns F) s (file_described (se_keyed_hash env) (insert ns F) (session_files s))"
    using assms unfolding files_ok_def by (blast intro: over_subset file_described_mono)
  ultimately show ?thesis using assms unfolding files_ok_def by blast
qed

lemma completion_ok:
  assumes s: "session_ok env remote s" and f: "files_ok env remote F {} s"
    and agg: "da_static (length (ct_files (us_tracker s))) agg" and sem: "over env remote {ns} s (\<lambda>G. da_ok (se_keyed_hash env) G agg [ns])"
    and op: "register_single_file_clean_completion env agg dm s = Some (Inr (), s')"
  shows "session_ok env remote s' \<and> files_ok env remote (insert ns F) {} s' \<and> grow s s' \<and> us_finalized s' = us_finalized s"
proof -
  let ?F = "insert ns F" and ?kh = "se_keyed_hash env"
  have f': "files_ok env remote ?F {ns} s" by (rule files_ok_insert [OF f])
  have sem': "over env remote ?F s (\<lambda>G. da_ok ?kh G agg [ns])" using sem by (rule over_subset) auto
  have cur: "da_static (length (ct_files (us_tracker s))) (us_data s)" using f by (simp add: files_ok_def)
  obtain mss where mss: "set mss \<subseteq> ?F" "over env remote ?F s (\<lambda>G. da_ok ?kh G (us_data s) mss)"
    "\<And>d nss Y. da_static (length (ct_files (us_tracker s))) d \<Longrightarrow> set nss \<subseteq> ?F \<Longrightarrow>
       over env remote ?F s (\<lambda>G. da_ok ?kh G d nss) \<Longrightarrow> set mss \<union> {ns} \<subseteq> set nss \<union> Y \<Longrightarrow> files_ok env remote ?F Y (s\<lparr>us_data := d\<rparr>)"
    using files_ok_exchange [OF f'] by metis
  let ?cut = "MAX_XORB_BYTES < da_num_bytes (us_data s) + da_num_bytes agg \<or> MAX_XORB_CHUNKS < length (da_chunks (us_data s)) + length (da_chunks agg)"
  have cut: "\<exists>u. process_aggregated_data_as_xorb env d (s\<lparr>us_data := e\<rparr>) = Some (Inr (), u) \<and> s' = merge_metrics dm u"
    if ?cut "(e, d) = (if da_num_bytes agg < da_num_bytes (us_data s) then (agg, us_data s) else (us_data s, agg))" for d e
    using op that by (auto simp: register_single_file_clean_completion_def Let_def bind_eq_Some_conv split: sum.splits if_splits)
  consider (merge) "\<not> ?cut" | (old) "?cut" "da_num_bytes agg < da_num_bytes (us_data s)" | (new) "?cut" "\<not> da_num_bytes agg < da_num_bytes (us_data s)"
    by blast
  then show ?thesis
  proof cases
    case merge
    have "over env remote ?F s (\<lambda>G. da_ok ?kh G (da_merge_in (us_data s) agg) (mss @ [ns]))"
      using merge mss(2) sem' unfolding over_def by (auto intro!: da_merge_in_ok)
    moreover have "da_static (length (ct_files (us_tracker s))) (da_merge_in (us_data s) agg)"
      using merge by (intro da_static_merge cur agg) auto
    ultimately have "files_ok env remote ?F {} (s\<lparr>us_data := da_merge_in (us_data s) agg\<rparr>)"
      using mss(1) by (intro mss(3) [of _ "mss @ [ns]"]) auto
    then show ?thesis
      using op merge s by (auto simp: register_single_file_clean_completion_def Let_def)
  next
    case old
    then obtain u where u: "process_aggregated_data_as_xorb env (us_data s) (s\<lparr>us_data := agg\<rparr>) = Some (Inr (), u)" "s' = merge_metrics dm u"
      using cut [of agg "us_data s"] by auto
    have "files_ok env remote ?F (set mss) (s\<lparr>us_data := agg\<rparr>)" by (rule mss(3) [of _ "[ns]"]) (use agg sem' in auto)
    then show ?thesis
      using process_files_ok [OF _ _ _ mss(1) _ u(1), of remote] s mss(2) cur u(2) by simp
  next
    case new
    then obtain u where u: "process_aggregated_data_as_xorb env agg s = Some (Inr (), u)" "s' = merge_metrics dm u"
      using cut [of "us_data s" agg] by auto
    show ?thesis
      using process_files_ok [OF s, of ?F "[ns]" agg u] f' agg sem' u by simp
  qed
qed

lemma finish_deduper_registers:
  assumes "finish_deduper env True sha dd s = Some (Inr (info, hs, fi, dm), s')"
  obtains agg where "fd_finalize (se_keyed_hash env) (map_option file_metadata_ext_new sha) dd =
      Some (file_hash (se_keyed_hash env) (fd_chunk_hashes dd), hs, agg, dm)"
    "register_single_file_clean_completion env agg dm s = Some (Inr (), s')" "xf_hash info = hex (file_hash (se_keyed_hash env) (fd_chunk_hashes dd))"
proof -
  obtain fh hs' agg dm' where f: "fd_finalize (se_keyed_hash env) (map_option file_metadata_ext_new sha) dd = Some (fh, hs', agg, dm')"
    using assms by (auto simp: finish_deduper_def bind_eq_Some_conv)
  obtain r u where r: "register_single_file_clean_completion env agg dm' s = Some (r, u)"
    using assms f by (auto simp: finish_deduper_def bind_eq_Some_conv)
  have "r = Inr ()" "u = s'" "hs' = hs" "dm' = dm" "xf_hash info = hex fh"
    using assms f r by (cases r; auto simp: finish_deduper_def)+
  then show thesis using that f r fd_finalize_fields(1) [OF f] by simp
qed

lemma finish_ok:
  assumes gear: "gear_hasher (se_next_match env) roll" and honest: "honest_server env remote"
    and s: "session_ok env remote s" and c: "cleaner_ok env remote roll s d c" and f: "files_ok env remote F {} s"
    and op: "finish env c s = Some (Inr (info, dm), s')"
  shows "session_ok env remote s' \<and> files_ok env remote (insert (file_nodes (se_keyed_hash env) roll d) F) {} s' \<and> grow s s' \<and>
    us_finalized s' = us_finalized s \<and> xf_hash info = hex (file_hash (se_keyed_hash env) (file_nodes (se_keyed_hash env) roll d))"
proof -
  let ?kh = "se_keyed_hash env" and ?sha = "cleaner_sha256 env c"
  obtain r u where r: "finish_inner env True c s =
      (case r of Inl e \<Rightarrow> Some (Inl e, u) | Inr dd \<Rightarrow> finish_deduper env True ?sha dd u)"
    "\<And>dd. r = Inr dd \<Longrightarrow> session_ok env remote u \<and> frame s u \<and> deduper_ok env remote u (fc_file_id c) (file_chunks ?kh roll d) dd"
    using finish_parts [OF gear honest s c, of True] by blast
  obtain hs fi where fin: "finish_inner env True c s = Some (Inr (info, hs, fi, dm), s')"
    using op by (auto simp: finish_def finish_with_chunks_def rbind_Inr_iff)
  then obtain dd where dd: "r = Inr dd" using r(1) by (cases r) auto
  then have u: "session_ok env remote u" "frame s u" "fd_wf (se_defrag env) dd" "fd_file_id dd = of_nat (fc_file_id c)"
    "fd_chunk_hashes dd = file_nodes ?kh roll d" "over env remote {file_nodes ?kh roll d} u (\<lambda>G. fd_spells G dd (file_nodes ?kh roll d))"
    using r(2) by (auto simp: deduper_ok_def file_nodes_def)
  have "finish_deduper env True ?sha dd u = Some (Inr (info, hs, fi, dm), s')" using fin r(1) dd by simp
  then obtain agg where agg: "fd_finalize ?kh (map_option file_metadata_ext_new ?sha) dd = Some (file_hash ?kh (file_nodes ?kh roll d), hs, agg, dm)"
    "register_single_file_clean_completion env agg dm u = Some (Inr (), s')" "xf_hash info = hex (file_hash ?kh (file_nodes ?kh roll d))"
    unfolding u(5) [symmetric] by (rule finish_deduper_registers)
  have "fc_file_id c < length (ct_files (us_tracker u))" using c u(2) by (simp add: cleaner_ok_def frame_def)
  then have "unat (fd_file_id dd) < length (ct_files (us_tracker u))" using unat_of_nat_le [of "fc_file_id c"] u(4) by (metis le_less_trans)
  then have st: "da_static (length (ct_files (us_tracker u))) agg"
    using fd_finalize_fields(3) [OF agg(1)] u(3) by (auto simp: da_static_def data_aggregator_new_def fd_wf_def)
  have sem: "over env remote {file_nodes ?kh roll d} u (\<lambda>G. da_ok ?kh G agg [file_nodes ?kh roll d])"
    using u(6) fd_finalize_da_ok [OF agg(1) u(3)] u(5) unfolding over_def legible_def by auto
  from completion_ok [OF u(1) files_ok_frame [OF f u(2)] st sem agg(2)] show ?thesis
    using agg(3) grow_trans [OF frame_grow [OF u(2)]] u(2) by (auto simp: frame_def)
qed

section \<open>The other operations\<close>

lemma start_clean_ok:
  assumes s: "session_ok env remote s" and f: "files_ok env remote F {} s" and op: "start_clean n sha256 s = Some (Inr c, s')"
  shows "session_ok env remote s' \<and> files_ok env remote F {} s' \<and> grow s s' \<and> cleaner_ok env remote roll s' [] c"
proof -
  obtain i t where t: "tracker_register_new_file n (us_tracker s) = (i, t)" by force
  note t' = register_new_file_tracker [OF t]
  have op': "s' = s\<lparr>us_tracker := t\<rparr>" "file_cleaner_new i sha256 s' = Some c"
    using op t by (auto simp: start_clean_def start_clean_with_id_def Let_def split: sum.splits)
  obtain c' where "file_cleaner_new i sha256 s' = Some c'" "cleaner_ok env remote roll s' [] c'"
    using cleaner_new_ok [of i s' sha256 s' env remote roll] t' op'(1) by auto
  then have "cleaner_ok env remote roll s' [] c" using op'(2) by simp
  moreover have "xorb_size_of t = xorb_size_of (us_tracker s)" "tracker_safe (us_tracker s) \<longrightarrow> tracker_safe t"
    using t' by (simp_all add: xorb_size_of_def fun_eq_iff tracker_safe_def list_all_iff less_Suc_eq)
  then have "session_ok env remote s'" using s by (auto simp: op'(1) session_inv_def queued_def)
  moreover have "files_ok env remote F {} s'"
    using f da_static_mono [of _ _ "length (ct_files t)"] t'(2) by (auto simp: op'(1) files_ok_def over_def session_store_def)
  ultimately show ?thesis using t'(2) by (simp add: op'(1) grow_def)
qed

lemma cleaner_checkpoint_ok:
  assumes "honest_server env remote" and op: "cleaner_checkpoint env c s = Some (Inr (), c', s')"
    and "broken c \<or> session_ok env remote s \<and> cleaner_ok env remote roll s d c"
  shows "broken c' \<or> \<not> broken c \<and> session_ok env remote s' \<and> frame s s' \<and> cleaner_ok env remote roll s' d c'"
proof (cases "broken c")
  case True
  then show ?thesis using op by (auto simp: cleaner_checkpoint_def deduper_process_chunks_def isl_def)
next
  case False
  then have s: "session_ok env remote s" and c: "cleaner_ok env remote roll s d c" using assms(3) by auto
  then obtain dd where dd: "fc_deduper c = Inr dd" "deduper_ok env remote s (fc_file_id c) (cut_chunks (se_keyed_hash env) roll d) dd"
    "fc_file_id c < length (ct_files (us_tracker s))"
    by (auto simp: cleaner_ok_def)
  from deduper_process_ok [OF assms(1) s dd(3,1,2), of "[]"] op
  obtain r where r: "c' = c\<lparr>fc_deduper := r\<rparr>"
    "\<And>dd'. r = Inr dd' \<Longrightarrow> session_ok env remote s' \<and> frame s s' \<and> deduper_ok env remote s' (fc_file_id c) (cut_chunks (se_keyed_hash env) roll d) dd'"
    by (auto simp: cleaner_checkpoint_def)
  show ?thesis
  proof (cases r)
    case (Inr dd')
    then show ?thesis using r(2) [OF Inr] r(1) False c by (simp add: cleaner_ok_def frame_def)
  qed (simp add: r(1))
qed

text \<open>What is aggregated is cut; nothing is left for a later xorb.\<close>

lemma process_current_ok:
  assumes s: "session_ok env remote s" and f: "files_ok env remote F {} s"
    and op: "process_aggregated_data_as_xorb env (us_data s) (s\<lparr>us_data := data_aggregator_default\<rparr>) = Some (Inr (), s')"
  shows "session_ok env remote s' \<and> files_ok env remote F {} s' \<and> grow s s' \<and> us_data s' = data_aggregator_default"
proof -
  from files_ok_exchange [OF f] obtain mss where mss: "set mss \<subseteq> F" "over env remote F s (\<lambda>G. da_ok (se_keyed_hash env) G (us_data s) mss)"
    and ex: "\<And>d nss Y. da_static (length (ct_files (us_tracker s))) d \<Longrightarrow> set nss \<subseteq> F \<Longrightarrow>
       over env remote F s (\<lambda>G. da_ok (se_keyed_hash env) G d nss) \<Longrightarrow> set mss \<union> {} \<subseteq> set nss \<union> Y \<Longrightarrow>
       files_ok env remote F Y (s\<lparr>us_data := d\<rparr>)"
    by blast
  have dflt: "files_ok env remote F (set mss) (s\<lparr>us_data := data_aggregator_default\<rparr>)"
    by (rule ex [of _ "[]"]) (simp_all add: over_def da_ok_default)
  have "da_static (length (ct_files (us_tracker s))) (us_data s)" using f by (simp add: files_ok_def)
  with process_files_ok [OF _ dflt _ mss(1) _ op] s mss(2) show ?thesis by simp
qed

lemma session_checkpoint_ok:
  assumes s: "session_ok env remote s" and f: "files_ok env remote F {} s" and op: "session_checkpoint env s = Some (Inr (), s')"
  shows "session_ok env remote s' \<and> files_ok env remote F {} s' \<and> grow s s'"
proof -
  obtain u where u: "process_aggregated_data_as_xorb env (us_data s) (s\<lparr>us_data := data_aggregator_default\<rparr>) = Some (Inr (), u)"
    using op by (auto simp: session_checkpoint_def bind_eq_Some_conv split: sum.splits)
  note p = process_current_ok [OF s f u]
  obtain r ts v where j: "join_tasks env (us_tasks u) u = Some (r, ts, v)" "same_session u v"
    "r = Inr () \<longrightarrow> ts = [] \<and> session_inv env remote {} v"
    using join_tasks_ok [of env remote "us_tasks u" u] p by blast
  then have v: "r = Inr ()" "s' = v\<lparr>us_tasks := []\<rparr>" using op u by (auto simp: session_checkpoint_def)
  have "session_ok env remote s'" using v j(3) by (auto simp: session_inv_def queued_def)
  moreover have "files_ok env remote F {} s'" "grow u s'"
    using p j(2) by (auto simp: v(2) same_session_def files_ok_def over_def session_store_def grow_def)
  ultimately show ?thesis using p grow_trans by blast
qed

section \<open>Runs\<close>

text \<open>
  The files of the client, in the order they were started: one that is still open has its cleaner and the
  data given to it so far, a finished one its data and the info that the client received.
\<close>

datatype file_slot = Open file_cleaner bytes | Closed bytes xet_file_info

inductive upload_run :: "session_env \<Rightarrow> bool \<Rightarrow> file_upload_session \<Rightarrow> file_slot list \<Rightarrow> bool" for env dry_run where
  init: "upload_run env dry_run (upload_session_new dry_run) []"
| start: "\<lbrakk>upload_run env dry_run s fs; start_clean n sha256 s = Some (Inr c, s')\<rbrakk> \<Longrightarrow>
    upload_run env dry_run s' (fs @ [Open c []])"
| data: "\<lbrakk>upload_run env dry_run s fs; i < length fs; fs ! i = Open c d; add_data env x c s = Some (Inr (), c', s')\<rbrakk> \<Longrightarrow>
    upload_run env dry_run s' (fs[i := Open c' (d @ x)])"
| flush: "\<lbrakk>upload_run env dry_run s fs; i < length fs; fs ! i = Open c d; cleaner_checkpoint env c s = Some (Inr (), c', s')\<rbrakk> \<Longrightarrow>
    upload_run env dry_run s' (fs[i := Open c' d])"
| finish: "\<lbrakk>upload_run env dry_run s fs; i < length fs; fs ! i = Open c d; finish env c s = Some (Inr (info, m), s')\<rbrakk> \<Longrightarrow>
    upload_run env dry_run s' (fs[i := Closed d info])"
| checkpoint: "\<lbrakk>upload_run env dry_run s fs; session_checkpoint env s = Some (Inr (), s')\<rbrakk> \<Longrightarrow> upload_run env dry_run s' fs"

definition closed_nodes :: "keyed_hash \<Rightarrow> (u64 \<Rightarrow> u8 \<Rightarrow> u64) \<Rightarrow> file_slot list \<Rightarrow> node list set" where
  "closed_nodes kh roll fs = {file_nodes kh roll d |d info. Closed d info \<in> set fs}"

definition slot_ok :: "session_env \<Rightarrow> store \<Rightarrow> (u64 \<Rightarrow> u8 \<Rightarrow> u64) \<Rightarrow> file_upload_session \<Rightarrow> file_slot \<Rightarrow> bool" where
  "slot_ok env remote roll s sl =
     (case sl of Open c d \<Rightarrow> cleaner_ok env remote roll s d c
      | Closed d info \<Rightarrow> xf_hash info = hex (file_hash (se_keyed_hash env) (file_nodes (se_keyed_hash env) roll d)))"

definition slot_broken :: "file_slot \<Rightarrow> bool" where
  "slot_broken sl = (case sl of Open c _ \<Rightarrow> broken c | Closed _ _ \<Rightarrow> False)"

definition run_ok :: "session_env \<Rightarrow> store \<Rightarrow> (u64 \<Rightarrow> u8 \<Rightarrow> u64) \<Rightarrow> file_upload_session \<Rightarrow> file_slot list \<Rightarrow> bool" where
  "run_ok env remote roll s fs \<longleftrightarrow>
     session_ok env remote s \<and> files_ok env remote (closed_nodes (se_keyed_hash env) roll fs) {} s \<and>
     list_all (slot_ok env remote roll s) fs"

lemma slot_ok_grow: "slot_ok env remote roll s sl \<Longrightarrow> grow s s' \<Longrightarrow> slot_ok env remote roll s' sl"
  by (auto simp: slot_ok_def cleaner_ok_grow split: file_slot.splits)

lemma list_all_update: "list_all P xs \<Longrightarrow> P y \<Longrightarrow> list_all P (xs[i := y])"
  by (auto simp: list_all_iff dest: set_update_subset_insert [THEN subsetD])

lemma closed_update:
  assumes "i < length fs" and "fs ! i = Open c d"
  shows "Closed x info \<in> set (fs[i := y]) \<longleftrightarrow> Closed x info \<in> set fs \<or> y = Closed x info"
  using assms by (auto simp: in_set_conv_nth nth_list_update) (metis file_slot.distinct(1))

lemma closed_nodes_open [simp]:
  "closed_nodes kh roll (fs @ [Open c d]) = closed_nodes kh roll fs"
  "i < length fs \<Longrightarrow> fs ! i = Open c d \<Longrightarrow> closed_nodes kh roll (fs[i := Open c' d']) = closed_nodes kh roll fs"
  "i < length fs \<Longrightarrow> fs ! i = Open c d \<Longrightarrow> closed_nodes kh roll (fs[i := Closed x info]) = insert (file_nodes kh roll x) (closed_nodes kh roll fs)"
  by (auto simp: closed_nodes_def closed_update)

lemma broken_update:
  assumes "list_ex slot_broken fs" and "slot_broken (fs ! i) \<Longrightarrow> slot_broken y"
  shows "list_ex slot_broken (fs[i := y])"
proof -
  obtain j where "j < length fs" "slot_broken (fs ! j)" using assms(1) by (auto simp: list_ex_length)
  then show ?thesis using assms(2) by (cases "j = i") (auto simp: list_ex_length nth_list_update)
qed

lemma session_new_ok: "run_ok env remote roll (upload_session_new dry_run) []"
  using shards_ok_new [of "se_keyed_hash env" "session_keys env" remote dry_run]
  by (auto simp: run_ok_def closed_nodes_def upload_session_new_def session_inv_def queued_def files_ok_def over_def
      completion_tracker_new_def tracker_safe_def xorb_size_of_def session_shard_interface_new_def shard_default_def
      xorb_dependency_default_def da_ok_default file_described_def)

text \<open>A step of one open file: either its cleaner is broken afterwards, or everything is as it should be.\<close>

lemma open_step_ok:
  assumes i: "i < length fs" "fs ! i = Open c d" and inv: "list_ex slot_broken fs \<or> run_ok env remote roll s fs"
    and step: "broken c \<or> session_ok env remote s \<and> cleaner_ok env remote roll s d c \<Longrightarrow>
      broken c' \<or> \<not> broken c \<and> session_ok env remote s' \<and> frame s s' \<and> cleaner_ok env remote roll s' d' c'"
  shows "list_ex slot_broken (fs[i := Open c' d']) \<or> run_ok env remote roll s' (fs[i := Open c' d'])"
proof (cases "list_ex slot_broken fs")
  case True
  have "broken c'" if "broken c" using step that by blast
  then show ?thesis using broken_update [OF True, of i "Open c' d'"] i by (simp add: slot_broken_def)
next
  case False
  then have inv: "run_ok env remote roll s fs" using inv by blast
  then have "cleaner_ok env remote roll s d c" using i by (auto simp: run_ok_def list_all_length slot_ok_def)
  then have "broken c' \<or> session_ok env remote s' \<and> frame s s' \<and> cleaner_ok env remote roll s' d' c'"
    using step inv by (auto simp: run_ok_def)
  then show ?thesis
  proof
    assume "broken c'"
    then have "list_ex slot_broken (fs[i := Open c' d'])" using i by (auto simp: list_ex_length slot_broken_def intro!: exI [of _ i])
    then show ?thesis ..
  next
    assume s': "session_ok env remote s' \<and> frame s s' \<and> cleaner_ok env remote roll s' d' c'"
    then have "list_all (slot_ok env remote roll s') fs"
      using inv slot_ok_grow [OF _ frame_grow] by (auto simp: run_ok_def list_all_iff)
    then have "list_all (slot_ok env remote roll s') (fs[i := Open c' d'])" using s' by (intro list_all_update) (simp_all add: slot_ok_def)
    then show ?thesis using inv i s' files_ok_frame by (auto simp: run_ok_def)
  qed
qed

lemma finish_step_ok:
  assumes gear: "gear_hasher (se_next_match env) roll" and honest: "honest_server env remote"
    and i: "i < length fs" "fs ! i = Open c d" and inv: "list_ex slot_broken fs \<or> run_ok env remote roll s fs"
    and op: "finish env c s = Some (Inr (info, m), s')"
  shows "list_ex slot_broken (fs[i := Closed d info]) \<or> run_ok env remote roll s' (fs[i := Closed d info])"
proof -
  have c: "\<not> broken c"
    using finish_broken [of c env True s] op by (fastforce simp: finish_def finish_with_chunks_def rbind_Inr_iff)
  show ?thesis
  proof (cases "list_ex slot_broken fs")
    case True
    then show ?thesis using broken_update [OF True, of i] c i by (simp add: slot_broken_def)
  next
    case False
    then have inv: "run_ok env remote roll s fs" using inv by blast
    then have "cleaner_ok env remote roll s d c" using i by (auto simp: run_ok_def list_all_length slot_ok_def)
    with finish_ok [OF gear honest _ this _ op] inv have f: "session_ok env remote s'"
      "files_ok env remote (insert (file_nodes (se_keyed_hash env) roll d) (closed_nodes (se_keyed_hash env) roll fs)) {} s'" "grow s s'"
      "xf_hash info = hex (file_hash (se_keyed_hash env) (file_nodes (se_keyed_hash env) roll d))"
      by (auto simp: run_ok_def)
    have "list_all (slot_ok env remote roll s') fs"
      using inv slot_ok_grow [OF _ f(3)] by (auto simp: run_ok_def list_all_iff)
    then have "list_all (slot_ok env remote roll s') (fs[i := Closed d info])" using f(4) by (intro list_all_update) (simp_all add: slot_ok_def)
    then show ?thesis using f i by (simp add: run_ok_def)
  qed
qed

lemma upload_run_ok:
  assumes "upload_run env dry_run s fs" and gear: "gear_hasher (se_next_match env) roll" and honest: "honest_server env remote"
    and bs: "0 < se_ingestion_block_size env"
  shows "list_ex slot_broken fs \<or> run_ok env remote roll s fs"
  using assms(1)
proof induction
  case init
  show ?case using session_new_ok by blast
next
  case (start s fs n sha256 c s')
  then show ?case
    using start_clean_ok [OF _ _ start.hyps(2), of env remote _ roll] slot_ok_grow
    by (auto simp: run_ok_def list_all_iff slot_ok_def [of _ _ _ _ "Open _ _"])
next
  case (data s fs i c d x c' s')
  from data.hyps(2,3) data.IH show ?case by (rule open_step_ok) (rule add_data_ok [OF gear honest bs data.hyps(4)])
next
  case (flush s fs i c d c' s')
  from flush.hyps(2,3) flush.IH show ?case by (rule open_step_ok) (rule cleaner_checkpoint_ok [OF honest flush.hyps(4)])
next
  case (finish s fs i c d info m s')
  from finish.hyps(2,3) finish.IH finish.hyps(4) show ?case by (rule finish_step_ok [OF gear honest])
next
  case (checkpoint s fs s')
  then show ?case using session_checkpoint_ok [OF _ _ checkpoint.hyps(2), of remote] slot_ok_grow
    by (auto simp: run_ok_def list_all_iff)
qed

section \<open>The end of the session\<close>

text \<open>The xorbs on the server: those it had, and the registered ones whose serialized object it accepted.\<close>

definition uploaded_store :: "session_env \<Rightarrow> store \<Rightarrow> file_upload_session \<Rightarrow> store" where
  "uploaded_store env remote s =
     remote \<union> xorb_record ` {x \<in> set (us_registered s). \<exists>xo \<in> set (us_uploaded s). serialize_xorb env x = Inr xo}"

lemma uploaded_record:
  assumes inv: "session_inv env remote {} s" and G: "good_store (session_store remote s)"
    and r: "(h, ns) \<in> session_store remote s" and nz: "node_bytes ns \<noteq> 0"
  shows "(h, ns) \<in> uploaded_store env remote s"
proof (cases "(h, ns) \<in> remote")
  case False
  then obtain x where x: "x \<in> set (us_registered s)" "xorb_record x = (h, ns)" using r by (auto simp: session_store_def)
  then have "raw_xorb_num_bytes x \<noteq> 0" using inv nz by (auto simp: session_inv_def list_all_iff raw_xorb_wf_def xorb_record_def)
  then have "xorb_size_of (us_tracker s) h \<noteq> 0" using inv x by (auto simp: session_inv_def xorb_record_def)
  then obtain xo where xo: "xo \<in> set (us_uploaded s)" "sx_hash xo = h" using inv by (auto simp: session_inv_def queued_def)
  then obtain y where y: "y \<in> set (us_registered s)" "serialize_xorb env y = Inr xo" using inv by (auto simp: session_inv_def)
  then have "xorb_record y = (h, xorb_nodes (rx_xorb_info y))" using serialize_xorb_hash [OF y(2)] xo(2) by (simp add: xorb_record_def)
  moreover have "xorb_record y \<in> session_store remote s" using y(1) by (simp add: session_store_def)
  ultimately have "xorb_record y = (h, ns)" using G r unfolding good_store_def by (metis single_valuedD)
  then show ?thesis using y xo(1) by (force simp: uploaded_store_def)
qed (simp add: uploaded_store_def)

lemma refers_uploaded:
  assumes "session_inv env remote {} s" and "good_store (session_store remote s)"
    and r: "refers (session_store remote s) e p" and nz: "\<And>n. n \<in> set p \<Longrightarrow> snd n \<noteq> 0"
  shows "refers (uploaded_store env remote s) e p"
proof -
  obtain ns where ns: "(fe_xorb_hash e, ns) \<in> session_store remote s" "unat (fe_chunk_index_start e) < unat (fe_chunk_index_end e)"
    "unat (fe_chunk_index_end e) \<le> length ns" "p = slice ns (unat (fe_chunk_index_start e)) (unat (fe_chunk_index_end e))"
    using r by (auto simp: refers_def)
  then have "p \<noteq> []" by (auto simp: slice_def)
  then obtain n q where "p = n # q" by (cases p) auto
  then have "0 < node_bytes p" using nz [of n] unsigned_eq_0_iff [of "snd n", where ?'a = nat] by simp
  also have "node_bytes p \<le> node_bytes ns" using ns(4) node_bytes_slice by simp
  finally have "(fe_xorb_hash e, ns) \<in> uploaded_store env remote s" using uploaded_record [OF assms(1,2) ns(1)] by simp
  then show ?thesis using r ns assms(2) unfolding refers_def by blast
qed

lemma describes_uploaded:
  assumes "session_inv env remote {} s" and "good_store (session_store remote s)"
    and d: "describes kh (session_store remote s) fi ns" and nz: "\<And>n. n \<in> set ns \<Longrightarrow> snd n \<noteq> 0"
  shows "describes kh (uploaded_store env remote s) fi ns"
proof -
  obtain parts where p: "list_all2 (refers (session_store remote s)) (segments fi) parts" "concat parts = ns"
    "verification fi = map (\<lambda>p. file_verification_new (range_hash_from_chunks kh (map fst p))) parts"
    using d by (auto simp: describes_def)
  have "snd n \<noteq> 0" if "q \<in> set parts" "n \<in> set q" for q n using nz [of n] that p(2) by fastforce
  then have "list_all2 (refers (uploaded_store env remote s)) (segments fi) parts"
    using p(1) refers_uploaded [OF assms(1,2)] unfolding list_all2_conv_all_nth by (metis nth_mem)
  then show ?thesis using d p(2,3) unfolding describes_def by blast
qed

lemma finalize_ok:
  assumes s: "session_ok env remote s" and f: "files_ok env remote F {} s"
    and op: "finalize_impl env return_files s = Some (Inr (metrics, infos, report), s')"
  shows "session_inv env remote {} s'" "over env remote F s' (file_described (se_keyed_hash env) F (session_files s'))"
    "over env remote F s' (\<lambda>_. \<forall>ns \<in> F. file_hash (se_keyed_hash env) ns \<in> dom (session_files s'))"
    "\<not> ss_dry_run (us_shards s') \<Longrightarrow> session_files s' \<noteq> Map.empty \<Longrightarrow>
       \<exists>t. se_upload_shard env t (shard_to_bytes (se_sort env) (ss_session_shard (us_shards s'))) = Inr ()"
    "infos = (if return_files then session_file_info_list (us_shards s') else [])" "ss_dry_run (us_shards s') = ss_dry_run (us_shards s)"
proof -
  have "\<not> us_finalized s" using op by (auto simp: finalize_impl_def split: if_splits)
  then obtain u where u: "process_aggregated_data_as_xorb env (us_data s) (s\<lparr>us_finalized := True, us_data := data_aggregator_default\<rparr>) = Some (Inr (), u)"
    using op by (auto simp: finalize_impl_def bind_eq_Some_conv split: sum.splits)
  let ?s = "s\<lparr>us_finalized := True\<rparr>"
  have "session_ok env remote ?s" "files_ok env remote F {} ?s"
    using s f by (simp_all add: session_inv_def queued_def files_ok_def over_def session_store_def)
  with process_current_ok [of env remote ?s F u] u
  have p: "session_ok env remote u" "files_ok env remote F {} u" "us_data u = data_aggregator_default"
    "ss_dry_run (us_shards u) = ss_dry_run (us_shards s)"
    by (simp_all add: grow_def)
  have u0: "session_inv env remote (set (us_tasks u)) (u\<lparr>us_tasks := []\<rparr>)" using p(1) by (simp add: session_inv_def queued_def)
  obtain r ts v where j: "join_tasks env (us_tasks u) (u\<lparr>us_tasks := []\<rparr>) = Some (r, ts, v)" "same_session (u\<lparr>us_tasks := []\<rparr>) v"
    "r = Inr () \<longrightarrow> ts = [] \<and> session_inv env remote {} v"
    using join_tasks_ok [OF u0] by blast
  let ?w = "next_tick (next_tick (v\<lparr>us_metrics := metrics_default\<rparr>))"
  let ?up = "upload_and_register_session_shards (se_sort env) (se_acquire_upload_permit env (us_tick v)) (se_upload_shard env (us_tick v + 1)) (us_shards v)"
  have r: "r = Inr ()" using op u j(1) \<open>\<not> us_finalized s\<close> by (cases r) (auto simp: finalize_impl_def)
  have fin: "\<exists>n. ?up = Inr n" "s' = ?w" "infos = (if return_files then session_file_info_list (us_shards v) else [])"
    using op u j(1) r \<open>\<not> us_finalized s\<close> by (auto simp: finalize_impl_def Let_def split: sum.splits)
  have shards: "us_shards s' = us_shards v" by (simp add: fin(2))
  show "session_inv env remote {} s'" using j(3) r by (simp add: fin(2) session_inv_def queued_def)
  have st: "session_store remote s' = session_store remote u" "session_files s' = session_files u"
    using j(2) by (simp_all add: fin(2) same_session_def session_store_def)
  show "over env remote F s' (file_described (se_keyed_hash env) F (session_files s'))"
    using p(2) unfolding files_ok_def over_def st by blast
  obtain nss where "over env remote F u (\<lambda>G. da_ok (se_keyed_hash env) G data_aggregator_default nss)"
    "over env remote F u (\<lambda>_. \<forall>ns \<in> F. ns \<in> set nss \<or> ns \<in> {} \<or> file_hash (se_keyed_hash env) ns \<in> dom (session_files u))"
    using p(2,3) by (auto simp: files_ok_def)
  then show "over env remote F s' (\<lambda>_. \<forall>ns \<in> F. file_hash (se_keyed_hash env) ns \<in> dom (session_files s'))"
    unfolding over_def st by (auto simp: da_ok_def data_aggregator_default_def)
  show "infos = (if return_files then session_file_info_list (us_shards s') else [])" using fin(3) shards by simp
  show "ss_dry_run (us_shards s') = ss_dry_run (us_shards s)" using p(4) j(2) by (simp add: shards same_session_def grow_def)
  show "\<exists>t. se_upload_shard env t (shard_to_bytes (se_sort env) (ss_session_shard (us_shards s'))) = Inr ()"
    if "\<not> ss_dry_run (us_shards s')" "session_files s' \<noteq> Map.empty"
    using fin(1) that unfolding shards
    by (auto simp: upload_and_register_session_shards_def shard_is_empty_def Let_def split: sum.splits if_splits)
qed

lemma file_nodes_nonzero: "n \<in> set (file_nodes kh roll d) \<Longrightarrow> snd n \<noteq> 0"
proof -
  assume "n \<in> set (file_nodes kh roll d)"
  then obtain c where c: "c \<in> set (file_chunks kh roll d)" "n = chunk_node c" by (auto simp: file_nodes_def)
  then have "0 < length (chunk_data c)" "length (chunk_data c) \<le> MAX_XORB_BYTES"
    using file_chunks_bounds [of kh roll d] by (auto simp: list_all_iff)
  then have "unat (of_nat (length (chunk_data c)) :: u64) \<noteq> 0"
    by (simp add: unsigned_of_nat take_bit_nat_eq_self MAX_XORB_vals)
  then show ?thesis using c(2) by (auto simp: chunk_node_def)
qed



end
