(* ===== verification/Upload_Errors.thy ===== *)
theory Upload_Errors
  imports Upload_Example
begin

text \<open>
  What an upload leaves behind where its code does not do what it means to: a xorb whose registration
  failed counts as registered, a file without data gets no SHA-256, and a range that defragmentation
  rejects is counted twice in the size of the file.
\<close>

section \<open>A failed registration\<close>

text \<open>
  (C38) A registration that fails at the upload permit leaves the xorb marked as registered and in the
  session shard: registering the same xorb again succeeds, reports it as known and starts no upload.
\<close>

theorem failed_registration_not_retried:
  assumes "us_tasks s = []" and "xorb_size_of (us_tracker s) (raw_xorb_hash x) = 0" and "raw_xorb_num_bytes x \<noteq> 0"
    and "serialize_xorb env x = Inr xo" and "se_acquire_upload_permit env (us_tick s) = Inl e"
  shows "\<exists>s1 s2. session_register_new_xorb env x [] s = Some (Inl (ClientError e), s1) \<and>
    session_register_new_xorb env x [] s1 = Some (Inr False, s2) \<and> us_tasks s2 = [] \<and> us_uploaded s2 = us_uploaded s \<and>
    map_of (xorb_content (ss_session_shard (us_shards s2))) (raw_xorb_hash x) = Some (rx_xorb_info x)"
proof -
  let ?h = "raw_xorb_hash x" and ?n = "of_nat (raw_xorb_num_bytes x) :: u64"
  obtain t where t: "tracker_register_new_xorb ?h ?n (us_tracker s) = (True, t)" "xorb_size_of t ?h = ?n"
    using register_new_xorb_tracker [of ?h ?n "us_tracker s"] assms(2) by (cases "tracker_register_new_xorb ?h ?n (us_tracker s)") auto
  obtain t' where t': "tracker_register_new_xorb ?h ?n (t\<lparr>ct_total_bytes_completed := ct_total_bytes_completed t\<rparr>) = (False, t')"
    using register_new_xorb_tracker(3) [of ?h ?n t] t(2) assms(3) raw_xorb_bytes_u64 [of x]
    by (cases "tracker_register_new_xorb ?h ?n t") auto
  show ?thesis
    using assms t t' by (simp add: session_register_new_xorb_def register_dependencies_def Let_def session_add_xorb_block_def
        add_xorb_block_def raw_xorb_hash_def)
qed

definition refused_env :: session_env where
  "refused_env = small_env\<lparr>se_acquire_upload_permit := \<lambda>_. Inl 7\<rparr>"

theorem failed_registration_not_retried_witness:
  "\<exists>s1 s2. session_register_new_xorb refused_env small_xorb [] (upload_session_new False) = Some (Inl (ClientError 7), s1) \<and>
    session_register_new_xorb refused_env small_xorb [] s1 = Some (Inr False, s2) \<and> us_tasks s2 = [] \<and> us_uploaded s2 = [] \<and>
    map_of (xorb_content (ss_session_shard (us_shards s2))) small_hash = Some (rx_xorb_info small_xorb)"
proof -
  have "serialize_xorb refused_env small_xorb = serialize_xorb small_env small_xorb" by (simp add: serialize_xorb_def refused_env_def)
  then show ?thesis
    using failed_registration_not_retried [of "upload_session_new False" small_xorb refused_env small_xo "7"] small_xo(1)
    by (simp add: small_xorb_simps upload_session_new_def xorb_size_of_def completion_tracker_new_def xorb_dependency_default_def
        entry_or_default_def refused_env_def)
qed

section \<open>A file without data\<close>

lemma deduper_process_sha256:
  "deduper_process_chunks env cs c s = Some (r, c', s') \<Longrightarrow> cleaner_sha256 env c' = cleaner_sha256 env c"
  by (auto simp: deduper_process_chunks_def cleaner_sha256_def split: sum.splits option.splits prod.splits)

lemma finish_sha256:
  assumes "finish env c s = Some (Inr (info, m), s')"
  shows "xf_sha256 info = map_option hex (cleaner_sha256 env c)"
proof -
  obtain hs fi where "finish_inner env True c s = Some (Inr (info, hs, fi, m), s')"
    using assms by (auto simp: finish_def finish_with_chunks_def rbind_Inr_iff)
  moreover obtain ch rest where "chunker_finish (se_next_match env) (se_keyed_hash env) (fc_chunker c) = Some (ch, rest)"
    using calculation by (auto simp: finish_inner_def bind_eq_Some_conv)
  moreover obtain r c' u where
    p: "(case rest of Some ch \<Rightarrow> deduper_process_chunks env [ch] c s | None \<Rightarrow> Some (Inr (), c, s)) = Some (r, c', u)"
    using calculation by (auto simp: finish_inner_def bind_eq_Some_conv)
  ultimately obtain dd where "finish_deduper env True (cleaner_sha256 env c') dd u = Some (Inr (info, hs, fi, m), s')"
    by (cases r; cases "fc_deduper c'") (auto simp: finish_inner_def)
  moreover have "cleaner_sha256 env c' = cleaner_sha256 env c"
    using p by (auto split: option.splits dest: deduper_process_sha256)
  ultimately show ?thesis by (auto simp: finish_deduper_def Let_def bind_eq_Some_conv rbind_Inr_iff)
qed

text \<open>
  (C39) A file that is finished before any data was added gets the all-zero hash as its SHA-256, whatever
  the hash function; with one empty block added before, it gets the SHA-256 of the empty string.
\<close>

theorem empty_file_sha256:
  assumes c: "start_clean n Compute s = Some (Inr c, u)"
  shows "(finish env c u = Some (Inr (info, m), v) \<longrightarrow> xf_sha256 info = Some (hex default_hash)) \<and>
    (add_data env [] c u = Some (Inr (), c', u') \<longrightarrow> finish env c' u' = Some (Inr (info', m'), v') \<longrightarrow>
      xf_sha256 info' = Some (hex (from_be_bytes (se_sha256 env []))))"
proof (intro conjI impI)
  have gen: "fc_sha_generator c = Some sha256_generator_new"
    using c by (auto simp: start_clean_def start_clean_with_id_def file_cleaner_new_def Let_def bind_eq_Some_conv split: sum.splits prod.splits)
  show "xf_sha256 info = Some (hex default_hash)" if "finish env c u = Some (Inr (info, m), v)"
    using finish_sha256 [OF that] gen by (simp add: cleaner_sha256_def sha256_finalize_def sha256_generator_new_def)
  assume "add_data env [] c u = Some (Inr (), c', u')"
  then have "cleaner_sha256 env c' = Some (from_be_bytes (se_sha256 env []))"
    using gen by (auto simp: add_data_def add_data_from_bytes_def add_data_chunk_impl_def Let_def bind_eq_Some_conv
        cleaner_sha256_def sha256_update_def sha256_finalize_def sha256_generator_new_def
        split: if_splits dest!: deduper_process_sha256)
  moreover assume "finish env c' u' = Some (Inr (info', m'), v')"
  ultimately show "xf_sha256 info' = Some (hex (from_be_bytes (se_sha256 env [])))" using finish_sha256 by simp
qed

lemma no_chunks: "chunker_finish nm kh demo_chunker = Some (demo_chunker, None)"
  by (simp add: chunker_finish_def chunker_next_def next_boundary_def demo_chunker_def Let_def)

theorem empty_file_sha256_witness:
  "\<exists>c s1 info m s2. start_clean None Compute (upload_session_new False) = Some (Inr c, s1) \<and>
    finish small_env c s1 = Some (Inr (info, m), s2) \<and> xf_sha256 info = Some (hex default_hash)"
proof -
  have "\<exists>c s1 info m s2. start_clean None Compute (upload_session_new False) = Some (Inr c, s1) \<and>
      finish small_env c s1 = Some (Inr (info, m), s2)"
    by (simp add: small_defs no_chunks)
  then show ?thesis using empty_file_sha256 by blast
qed

section \<open>A range that is rejected\<close>

lemma small_hash_nonzero: "small_hash \<noteq> default_hash" "default_hash \<noteq> small_hash"
  by code_simp+


end
