(* ===== verification/Chunk_Windows.thy ===== *)
theory Chunk_Windows
  imports Merkle_Subtree Chunking File_Structs
begin

text \<open>
  The windows of a file that an edit makes dirty (\<open>xet_client/src/cas_client/chunk_window_builder.rs\<close>, with the
  types of \<open>cas_types/mod.rs\<close>): the builder that is fed the chunks of the file one after the other, and the
  answer to a request for chunk hashes that simulated servers build with it. \<open>None\<close> is a panic. The hex
  wrapper of a hash is the hash.
\<close>

record file_range =
  fr_start :: u64
  fr_end :: u64

definition file_range_new :: "u64 \<Rightarrow> u64 \<Rightarrow> file_range" where
  "file_range_new s e = \<lparr>fr_start = s, fr_end = e\<rparr>"

record chunk_window =
  dirty_byte_range :: "u64 \<times> u64"

record file_chunk_hashes_response =
  cr_total_chunks :: u64
  cr_file_size :: u64
  cr_windows :: "chunk_window list"
  cr_hash_ranges :: "merkle_hash_subtree option list"
  cr_gap_verification :: "merkle_hash list"

section \<open>The builder\<close>

record chunk_window_builder =
  cw_dirty_ranges :: "file_range list"
  cw_dirty_idx :: nat
  cw_in_dirty_zone :: bool
  cw_gap_is_first :: bool
  cw_cursor :: u64
  cw_gap_chunks :: "node list"
  cw_windows :: "file_range list"
  cw_hash_ranges :: "merkle_hash_subtree option list"
  cw_tail_prev_size :: "u64 option"

definition window_builder_new :: "file_range list \<Rightarrow> chunk_window_builder" where
  "window_builder_new dirty_ranges =
     \<lparr>cw_dirty_ranges = dirty_ranges, cw_dirty_idx = 0, cw_in_dirty_zone = False, cw_gap_is_first = True, cw_cursor = 0,
      cw_gap_chunks = [], cw_windows = [], cw_hash_ranges = [], cw_tail_prev_size = None\<rparr>"

definition overlaps_dirty_at :: "chunk_window_builder \<Rightarrow> nat \<Rightarrow> u64 \<Rightarrow> u64 \<Rightarrow> bool" where
  "overlaps_dirty_at b idx byte_start byte_end \<longleftrightarrow>
     idx < length (cw_dirty_ranges b) \<and> fr_start (cw_dirty_ranges b ! idx) < byte_end \<and>
     byte_start < fr_end (cw_dirty_ranges b ! idx)"

function merge_ahead :: "u64 \<Rightarrow> chunk_window_builder \<Rightarrow> chunk_window_builder" where
  "merge_ahead byte_end b =
     (if cw_dirty_idx b + 1 < length (cw_dirty_ranges b) \<and> fr_start (cw_dirty_ranges b ! (cw_dirty_idx b + 1)) < byte_end
      then merge_ahead byte_end (b\<lparr>cw_dirty_idx := cw_dirty_idx b + 1\<rparr>)
      else b)"
  by pat_completeness auto
termination
  by (relation "measure (\<lambda>(_, b). length (cw_dirty_ranges b) - cw_dirty_idx b)") auto

declare merge_ahead.simps [simp del]

definition range_to_option :: "merkle_hash_subtree \<Rightarrow> merkle_hash_subtree option" where
  "range_to_option hr = (if subtree_is_empty hr then None else Some hr)"

definition extend_open_window :: "u64 \<Rightarrow> chunk_window_builder \<Rightarrow> chunk_window_builder option" where
  "extend_open_window byte_end b =
     (if cw_windows b = [] then None
      else Some (b\<lparr>cw_windows := butlast (cw_windows b) @ [(last (cw_windows b))\<lparr>fr_end := byte_end\<rparr>]\<rparr>))"

definition open_window :: "keyed_hash \<Rightarrow> u64 \<Rightarrow> chunk_window_builder \<Rightarrow> chunk_window_builder" where
  "open_window kh byte_end b =
     (let gap = from_chunks kh (cw_gap_is_first b) (cw_gap_chunks b) False
      in merge_ahead byte_end (b\<lparr>cw_hash_ranges := cw_hash_ranges b @ [range_to_option gap], cw_gap_chunks := [],
           cw_windows := cw_windows b @ [file_range_new (cw_cursor b) byte_end]\<rparr>))"

definition process_chunk :: "keyed_hash \<Rightarrow> merkle_hash \<Rightarrow> u64 \<Rightarrow> u64 \<Rightarrow> chunk_window_builder \<Rightarrow> chunk_window_builder option" where
  "process_chunk kh h sz byte_end b =
     (let byte_start = cw_cursor b;
          overlaps_dirty = overlaps_dirty_at b (cw_dirty_idx b) byte_start byte_end
      in map_option (\<lambda>b. b\<lparr>cw_cursor := byte_end\<rparr>)
           (if \<not> cw_in_dirty_zone b then
              (if overlaps_dirty
               then Some ((open_window kh byte_end b)\<lparr>cw_in_dirty_zone := True, cw_tail_prev_size := None\<rparr>)
               else Some (b\<lparr>cw_gap_chunks := cw_gap_chunks b @ [(h, sz)]\<rparr>))
            else if overlaps_dirty \<or> overlaps_dirty_at b (cw_dirty_idx b + 1) byte_start byte_end then
              Option.bind (extend_open_window byte_end
                  (if \<not> overlaps_dirty then b\<lparr>cw_dirty_idx := cw_dirty_idx b + 1\<rparr> else b)) (\<lambda>b.
                Some ((merge_ahead byte_end b)\<lparr>cw_tail_prev_size := None\<rparr>))
            else
              Option.bind (extend_open_window byte_end b) (\<lambda>b.
                let stable = (case cw_tail_prev_size b of
                      None \<Rightarrow> False
                    | Some prev \<Rightarrow> is_stable_chunk_size (unat prev) \<and> is_stable_chunk_size (unat sz));
                    b = b\<lparr>cw_tail_prev_size := Some sz\<rparr>
                in Some (if stable
                         then b\<lparr>cw_dirty_idx := cw_dirty_idx b + 1, cw_gap_is_first := False, cw_in_dirty_zone := False,
                                cw_tail_prev_size := None\<rparr>
                         else b))))"

definition entry_fully_dirty :: "chunk_window_builder \<Rightarrow> u64 \<Rightarrow> bool" where
  "entry_fully_dirty b byte_end \<longleftrightarrow>
     cw_dirty_idx b < length (cw_dirty_ranges b) \<and> fr_start (cw_dirty_ranges b ! cw_dirty_idx b) \<le> cw_cursor b \<and>
     byte_end \<le> fr_end (cw_dirty_ranges b ! cw_dirty_idx b)"

definition skip_dirty_entry :: "keyed_hash \<Rightarrow> u64 \<Rightarrow> chunk_window_builder \<Rightarrow> chunk_window_builder option" where
  "skip_dirty_entry kh byte_end b =
     map_option (\<lambda>b. b\<lparr>cw_tail_prev_size := None, cw_cursor := byte_end\<rparr>)
       (if \<not> cw_in_dirty_zone b then Some ((open_window kh byte_end b)\<lparr>cw_in_dirty_zone := True\<rparr>)
        else map_option (merge_ahead byte_end) (extend_open_window byte_end b))"

definition window_builder_finish ::
  "keyed_hash \<Rightarrow> chunk_window_builder \<Rightarrow> file_range list \<times> merkle_hash_subtree option list" where
  "window_builder_finish kh b =
     (cw_windows b,
      cw_hash_ranges b @ [range_to_option (from_chunks kh (cw_gap_is_first b) (cw_gap_chunks b) True)])"

section \<open>The answer\<close>

text \<open>The texts of \<open>ClientError::Other\<close>.\<close>

datatype window_error = No_Valid_Dirty_Ranges | No_Overlapping_Chunks | Verification_Mismatch

fun process_chunk_loop ::
  "keyed_hash \<Rightarrow> node list \<Rightarrow> u64 \<Rightarrow> chunk_window_builder \<Rightarrow> chunk_window_builder option" where
  "process_chunk_loop kh [] cumulative_bytes b = Some b"
| "process_chunk_loop kh ((h, sz) # chunks) cumulative_bytes b =
     Option.bind (process_chunk kh h sz (cumulative_bytes + sz) b) (process_chunk_loop kh chunks (cumulative_bytes + sz))"

function advance_window :: "file_range list \<Rightarrow> u64 \<Rightarrow> nat \<Rightarrow> nat" where
  "advance_window windows seg_start wi =
     (if wi < length windows \<and> fr_end (windows ! wi) \<le> seg_start then advance_window windows seg_start (wi + 1) else wi)"
  by pat_completeness auto
termination
  by (relation "measure (\<lambda>(ws, _, wi). length ws - wi)") auto

declare advance_window.simps [simp del]

text \<open>The loop over the segments and their range hashes.\<close>

fun stable_segment_hashes ::
  "file_range list \<Rightarrow> (file_data_sequence_entry \<times> file_verification_entry) list \<Rightarrow> u64 \<Rightarrow> nat \<Rightarrow> merkle_hash list" where
  "stable_segment_hashes windows [] acc wi = []"
| "stable_segment_hashes windows ((seg, v) # segs) acc wi =
     (let seg_start = acc;
          seg_end = acc + ucast (fe_unpacked_segment_bytes seg);
          wi = advance_window windows seg_start wi;
          overlaps = (wi < length windows \<and> fr_start (windows ! wi) < seg_end)
      in (if \<not> overlaps then [fv_range_hash v] else []) @ stable_segment_hashes windows segs seg_end wi)"

definition clamp_dirty_ranges :: "u64 \<Rightarrow> file_range list \<Rightarrow> file_range list" where
  "clamp_dirty_ranges sz dirty_ranges =
     filter (\<lambda>r. fr_start r < fr_end r \<and> fr_start r < sz)
       (map (\<lambda>r. file_range_new (fr_start r) (min (fr_end r) sz)) dirty_ranges)"

definition build_file_chunk_hashes_response ::
  "keyed_hash \<Rightarrow> mdb_file_info \<Rightarrow> file_range list \<Rightarrow> node list \<Rightarrow> (window_error + file_chunk_hashes_response) option" where
  "build_file_chunk_hashes_response kh file_info dirty_ranges chunks =
     (let sz = file_size file_info;
          dirty_ranges = clamp_dirty_ranges sz dirty_ranges
      in if dirty_ranges = [] then Some (Inl No_Valid_Dirty_Ranges)
         else Option.bind (process_chunk_loop kh chunks 0 (window_builder_new dirty_ranges)) (\<lambda>builder.
           let (windows, hash_ranges) = window_builder_finish kh builder in
           if windows = [] then Some (Inl No_Overlapping_Chunks)
           else
             Some (rbind
               (if verification file_info = [] then Inr []
                else if length (verification file_info) = length (segments file_info)
                then Inr (stable_segment_hashes windows (zip (segments file_info) (verification file_info)) 0 0)
                else Inl Verification_Mismatch)
               (\<lambda>gap_verification.
                 Inr \<lparr>cr_total_chunks = of_nat (length chunks), cr_file_size = sz,
                      cr_windows = map (\<lambda>r. \<lparr>dirty_byte_range = (fr_start r, fr_end r)\<rparr>) windows,
                      cr_hash_ranges = hash_ranges, cr_gap_verification = gap_verification\<rparr>))))"

end
