(* ===== verification/Range_Upload.thy ===== *)
theory Range_Upload
  imports File_Cleaner Chunk_Windows
begin

text \<open>
  Uploading an edited version of a stored file (\<open>xet_data/src/processing/range_upload.rs\<close>): only the windows
  around the edits are cleaned again, the file hash is merged from their chunks and the subtrees of the gaps,
  and the description of the new file is composed of the segments of the old one and those of the windows.

  The store is a record of answers: the description of the original file, the chunk hashes for a request, and
  the blocks that the reconstruction of a byte range delivers, with the error it ends with, if any. A reader
  of an edit is the bytes that it can deliver. The results are those of the upload session; a panic is
  \<open>None\<close>.
\<close>

record range_env =
  rg_session :: session_env
  rg_file_reconstruction_info :: "merkle_hash \<Rightarrow> client_error + mdb_file_info option"
  rg_file_chunk_hashes :: "merkle_hash \<Rightarrow> file_range list \<Rightarrow> client_error + file_chunk_hashes_response"
  rg_stream :: "merkle_hash \<Rightarrow> u64 \<Rightarrow> u64 \<Rightarrow> bytes list \<times> data_error option"

record dirty_input =
  di_start :: u64
  di_end :: u64
  di_reader :: bytes
  di_new_length :: u64

definition STREAM_BLOCK_SIZE :: nat where
  "STREAM_BLOCK_SIZE = 4 * 1024 * 1024"

record uploaded_window =
  uw_start :: u64
  uw_end :: u64
  uw_chunks :: "node list"
  uw_mdb :: mdb_file_info

section \<open>Checks and sizes\<close>

fun validate_dirty_loop :: "u64 \<Rightarrow> nat \<Rightarrow> u64 \<Rightarrow> dirty_input list \<Rightarrow> data_error + unit" where
  "validate_dirty_loop original_size i prev_end [] = Inr ()"
| "validate_dirty_loop original_size i prev_end (d # inputs) =
     (if di_end d < di_start d then Inl ParameterError
      else if original_size < di_end d then Inl ParameterError
      else if 0 < i \<and> di_start d < prev_end then Inl ParameterError
      else validate_dirty_loop original_size (i + 1) (di_end d) inputs)"

definition validate_dirty_ranges :: "dirty_input list \<Rightarrow> u64 \<Rightarrow> data_error + unit" where
  "validate_dirty_ranges dirty_inputs original_size = validate_dirty_loop original_size 0 0 dirty_inputs"

text \<open>The bytes removed and added by the edits.\<close>

definition edit_totals :: "dirty_input list \<Rightarrow> u64 \<times> u64" where
  "edit_totals dirty_inputs =
     foldl (\<lambda>(r, a) d. (r + (di_end d - di_start d), a + di_new_length d)) (0, 0) dirty_inputs"

definition compute_total_size :: "u64 \<Rightarrow> dirty_input list \<Rightarrow> data_error + u64" where
  "compute_total_size original_size dirty_inputs =
     (let (removed, added) = edit_totals dirty_inputs in
      if unat original_size + unat added < 2 ^ 64 \<and> removed \<le> original_size + added
      then Inr (original_size + added - removed) else Inl ParameterError)"

fun seg_ends :: "u64 \<Rightarrow> file_data_sequence_entry list \<Rightarrow> u64 list" where
  "seg_ends acc [] = []"
| "seg_ends acc (s # segs) =
     (let acc = acc + ucast (fe_unpacked_segment_bytes s) in acc # seg_ends acc segs)"

definition seg_byte_starts_of :: "mdb_file_info \<Rightarrow> u64 list" where
  "seg_byte_starts_of mdb = 0 # seg_ends 0 (segments mdb)"

definition snap_to_segment_start :: "u64 list \<Rightarrow> u64 \<Rightarrow> u64 option" where
  "snap_to_segment_start seg_byte_starts byte =
     (let idx = length (takeWhile (\<lambda>s. s \<le> byte) seg_byte_starts) in
      if idx - 1 < length seg_byte_starts then Some (seg_byte_starts ! (idx - 1)) else None)"

definition snap_to_segment_end :: "u64 list \<Rightarrow> u64 \<Rightarrow> u64 option" where
  "snap_to_segment_end seg_byte_starts byte =
     (let idx = length (takeWhile (\<lambda>s. s < byte) seg_byte_starts) in
      if idx < length seg_byte_starts then Some (seg_byte_starts ! idx) else None)"

definition snap_input :: "u64 list \<Rightarrow> u64 \<Rightarrow> dirty_input \<Rightarrow> (u64 \<times> u64) option" where
  "snap_input seg_byte_starts original_size d =
     (let n_segs = length seg_byte_starts - 1 in
      if di_start d = di_end d then
        (if di_start d = original_size then
           (if n_segs = 0 then None else Some (seg_byte_starts ! (n_segs - 1), seg_byte_starts ! n_segs))
         else
           Option.bind (snap_to_segment_start seg_byte_starts (di_start d)) (\<lambda>s.
           map_option (Pair s) (snap_to_segment_end seg_byte_starts (di_start d + 1))))
      else
        Option.bind (snap_to_segment_start seg_byte_starts (di_start d)) (\<lambda>s.
        map_option (Pair s) (snap_to_segment_end seg_byte_starts (di_end d))))"

fun snap_inputs :: "u64 list \<Rightarrow> u64 \<Rightarrow> dirty_input list \<Rightarrow> (u64 \<times> u64) list option" where
  "snap_inputs seg_byte_starts original_size [] = Some []"
| "snap_inputs seg_byte_starts original_size (d # inputs) =
     Option.bind (snap_input seg_byte_starts original_size d) (\<lambda>r.
     map_option (Cons r) (snap_inputs seg_byte_starts original_size inputs))"

definition coalesce_step :: "(u64 \<times> u64) list \<Rightarrow> u64 \<times> u64 \<Rightarrow> (u64 \<times> u64) list" where
  "coalesce_step coalesced r =
     (if coalesced \<noteq> [] \<and> fst r \<le> snd (last coalesced)
      then butlast coalesced @ [(fst (last coalesced), max (snd (last coalesced)) (snd r))]
      else coalesced @ [r])"

definition coalesce :: "(u64 \<times> u64) list \<Rightarrow> (u64 \<times> u64) list" where
  "coalesce snapped = foldl coalesce_step [] (sort_key fst snapped)"

section \<open>The windows\<close>

definition cleaner_bind :: "'a cleaner_result \<Rightarrow> ('a \<Rightarrow> file_cleaner \<Rightarrow> file_upload_session \<Rightarrow> 'b cleaner_result) \<Rightarrow> 'b cleaner_result" where
  "cleaner_bind r f = (case r of None \<Rightarrow> None | Some (Inl e, c, s) \<Rightarrow> Some (Inl e, c, s) | Some (Inr x, c, s) \<Rightarrow> f x c s)"

definition session_bind :: "'a session_result \<Rightarrow> ('a \<Rightarrow> file_upload_session \<Rightarrow> 'b session_result) \<Rightarrow> 'b session_result" where
  "session_bind r f = (case r of None \<Rightarrow> None | Some (Inl e, s) \<Rightarrow> Some (Inl e, s) | Some (Inr x, s) \<Rightarrow> f x s)"

fun add_blocks :: "session_env \<Rightarrow> bytes list \<Rightarrow> file_cleaner \<Rightarrow> file_upload_session \<Rightarrow> unit cleaner_result" where
  "add_blocks env [] c s = Some (Inr (), c, s)"
| "add_blocks env (chunk # stream) c s = cleaner_bind (add_data env chunk c s) (\<lambda>_. add_blocks env stream)"

definition stream_cas_range ::
  "range_env \<Rightarrow> merkle_hash \<Rightarrow> u64 \<Rightarrow> u64 \<Rightarrow> file_cleaner \<Rightarrow> file_upload_session \<Rightarrow> unit cleaner_result" where
  "stream_cas_range env h start_byte end_byte c s =
     (let (stream, failed) = rg_stream env h start_byte end_byte in
      cleaner_bind (add_blocks (rg_session env) stream c s) (\<lambda>_ c s.
        Some (case failed of Some e \<Rightarrow> Inl e | None \<Rightarrow> Inr (), c, s)))"

text \<open>The loop that reads the new bytes; a smaller buffer, as for a fresh file, makes the same blocks.\<close>

function feed_reader :: "session_env \<Rightarrow> bytes \<Rightarrow> nat \<Rightarrow> file_cleaner \<Rightarrow> file_upload_session \<Rightarrow> unit cleaner_result" where
  "feed_reader env reader remaining c s =
     (if remaining = 0 then Some (Inr (), c, s)
      else
        let to_read = min STREAM_BLOCK_SIZE remaining in
        if length reader < to_read then Some (Inl DataInternalError, c, s)
        else cleaner_bind (add_data env (take to_read reader) c s)
               (\<lambda>_. feed_reader env (drop to_read reader) (remaining - to_read)))"
  by pat_completeness auto
termination
  by (relation "measure (\<lambda>(_, _, remaining, _). remaining)") (auto simp: STREAM_BLOCK_SIZE_def)

declare feed_reader.simps [simp del]

fun feed_edits ::
  "range_env \<Rightarrow> merkle_hash \<Rightarrow> dirty_input list \<Rightarrow> u64 \<Rightarrow> file_cleaner \<Rightarrow> file_upload_session \<Rightarrow> u64 cleaner_result" where
  "feed_edits env h [] cursor c s = Some (Inr cursor, c, s)"
| "feed_edits env h (d # edits) cursor c s =
     cleaner_bind (if cursor < di_start d then stream_cas_range env h cursor (di_start d) c s else Some (Inr (), c, s)) (\<lambda>_ c s.
     cleaner_bind (feed_reader (rg_session env) (di_reader d) (unat (di_new_length d)) c s) (\<lambda>_.
     feed_edits env h edits (di_end d)))"

text \<open>The edits at the head of the list that belong to a window that ends at \<open>w_end\<close>.\<close>

definition in_window :: "u64 \<Rightarrow> u64 \<Rightarrow> dirty_input \<Rightarrow> bool" where
  "in_window original_size w_end d \<longleftrightarrow>
     (if di_start d = di_end d then di_start d < w_end \<or> di_start d = w_end \<and> w_end = original_size
      else di_end d \<le> w_end)"

definition upload_window ::
  "range_env \<Rightarrow> merkle_hash \<Rightarrow> dirty_input list \<Rightarrow> u64 \<Rightarrow> u64 \<Rightarrow> file_upload_session \<Rightarrow> uploaded_window session_result" where
  "upload_window env h window_edits w_start w_end s =
     (let (removed, added) = edit_totals window_edits;
          middle_size = (w_end - w_start) + added - removed
      in session_bind (start_clean (Some middle_size) Skip s) (\<lambda>c s.
           case cleaner_bind (feed_edits env h window_edits w_start c s) (\<lambda>cursor c s.
                  if cursor < w_end then stream_cas_range env h cursor w_end c s else Some (Inr (), c, s)) of
             None \<Rightarrow> None
           | Some (Inl e, c, s) \<Rightarrow> Some (Inl e, s)
           | Some (Inr _, c, s) \<Rightarrow>
               session_bind (finish_with_chunks_detached (rg_session env) c s) (\<lambda>(_, chunks, mdb, _) s.
                 Some (Inr \<lparr>uw_start = w_start, uw_end = w_end, uw_chunks = chunks, uw_mdb = mdb\<rparr>, s))))"

text \<open>The loop over the windows: the windows uploaded and the edits left.\<close>

fun upload_windows ::
  "range_env \<Rightarrow> merkle_hash \<Rightarrow> u64 \<Rightarrow> chunk_window list \<Rightarrow> dirty_input list \<Rightarrow> uploaded_window list \<Rightarrow> file_upload_session \<Rightarrow>
   (uploaded_window list \<times> dirty_input list) session_result" where
  "upload_windows env h original_size [] inputs uploaded s = Some (Inr (uploaded, inputs), s)"
| "upload_windows env h original_size (w # windows) inputs uploaded s =
     (let (w_start, w_end) = dirty_byte_range w;
          n = length (takeWhile (in_window original_size w_end) inputs)
      in session_bind (upload_window env h (take n inputs) w_start w_end s) (\<lambda>u.
           upload_windows env h original_size windows (drop n inputs) (uploaded @ [u])))"

section \<open>The hash and the description of the new file\<close>

fun merge_windows ::
  "keyed_hash \<Rightarrow> bool \<Rightarrow> bool \<Rightarrow> uploaded_window list \<Rightarrow> merkle_hash_subtree option list \<Rightarrow> merkle_hash_subtree list" where
  "merge_windows kh starts ends (w # ws) (gap # gaps) =
     (case gap of Some g \<Rightarrow> [g] | None \<Rightarrow> []) @
     from_chunks kh starts (uw_chunks w) (ends \<and> ws = []) # merge_windows kh False ends ws gaps"
| "merge_windows kh starts ends _ _ = []"

definition merge_sequence ::
  "keyed_hash \<Rightarrow> uploaded_window list \<Rightarrow> merkle_hash_subtree option list \<Rightarrow> merkle_hash_subtree list" where
  "merge_sequence kh uploaded hash_ranges =
     (let trailing_gap = (if hash_ranges = [] then None else last hash_ranges);
          gaps = butlast hash_ranges;
          first_window_at_start = (gaps \<noteq> [] \<and> hd gaps = None)
      in merge_windows kh first_window_at_start (trailing_gap = None) uploaded gaps @
         (case trailing_gap of Some g \<Rightarrow> [g] | None \<Rightarrow> []))"

definition combined_hash ::
  "keyed_hash \<Rightarrow> uploaded_window list \<Rightarrow> merkle_hash_subtree option list \<Rightarrow> u64 \<Rightarrow> data_error + merkle_hash" where
  "combined_hash kh uploaded hash_ranges total_size =
     (case merge_ranges kh (merge_sequence kh uploaded hash_ranges) of
        Inl _ \<Rightarrow> Inl DataInternalError
      | Inr merged \<Rightarrow>
          (case final_hash merged of
             None \<Rightarrow> Inl DataInternalError
           | Some aggregated_hash \<Rightarrow> Inr (if total_size = 0 then default_hash else hmac kh aggregated_hash default_hash)))"

text \<open>The segments and verification entries collected, the next segment, and the next gap verification.\<close>

record composition =
  co_segments :: "file_data_sequence_entry list"
  co_verification :: "file_verification_entry list"
  co_seg_idx :: nat
  co_gap_idx :: nat

definition push_stable_segment :: "mdb_file_info \<Rightarrow> merkle_hash list \<Rightarrow> composition \<Rightarrow> data_error + composition" where
  "push_stable_segment original_mdb gap_verification co =
     (if co_gap_idx co < length gap_verification
      then Inr \<lparr>co_segments = co_segments co @ [segments original_mdb ! co_seg_idx co],
                co_verification = co_verification co @ [file_verification_new (gap_verification ! co_gap_idx co)],
                co_seg_idx = co_seg_idx co + 1, co_gap_idx = co_gap_idx co + 1\<rparr>
      else Inl DataInternalError)"

text \<open>The three loops over the segments: up to a window, over it, and after the last one.\<close>

function compose_before ::
  "mdb_file_info \<Rightarrow> u64 list \<Rightarrow> merkle_hash list \<Rightarrow> u64 \<Rightarrow> composition \<Rightarrow> data_error + composition" where
  "compose_before original_mdb seg_byte_starts gap_verification w_start co =
     (if co_seg_idx co < length (segments original_mdb) \<and> seg_byte_starts ! co_seg_idx co < w_start then
        (if w_start < seg_byte_starts ! (co_seg_idx co + 1) then Inl DataInternalError
         else case push_stable_segment original_mdb gap_verification co of
                Inl e \<Rightarrow> Inl e
              | Inr co' \<Rightarrow> compose_before original_mdb seg_byte_starts gap_verification w_start co')
      else Inr co)"
  by pat_completeness auto
termination
  by (relation "measure (\<lambda>(mdb, _, _, _, co). length (segments mdb) - co_seg_idx co)")
    (auto simp: push_stable_segment_def split: if_splits)

function skip_segments :: "nat \<Rightarrow> u64 list \<Rightarrow> u64 \<Rightarrow> nat \<Rightarrow> nat" where
  "skip_segments n_segs seg_byte_starts w_end seg_idx =
     (if seg_idx < n_segs \<and> seg_byte_starts ! seg_idx < w_end
      then skip_segments n_segs seg_byte_starts w_end (seg_idx + 1) else seg_idx)"
  by pat_completeness auto
termination
  by (relation "measure (\<lambda>(n, _, _, i). n - i)") auto

function compose_after :: "mdb_file_info \<Rightarrow> merkle_hash list \<Rightarrow> composition \<Rightarrow> data_error + composition" where
  "compose_after original_mdb gap_verification co =
     (if co_seg_idx co < length (segments original_mdb) then
        (case push_stable_segment original_mdb gap_verification co of
           Inl e \<Rightarrow> Inl e
         | Inr co' \<Rightarrow> compose_after original_mdb gap_verification co')
      else Inr co)"
  by pat_completeness auto
termination
  by (relation "measure (\<lambda>(mdb, _, co). length (segments mdb) - co_seg_idx co)")
    (auto simp: push_stable_segment_def split: if_splits)

declare compose_before.simps [simp del] skip_segments.simps [simp del] compose_after.simps [simp del]

fun compose_windows ::
  "mdb_file_info \<Rightarrow> u64 list \<Rightarrow> merkle_hash list \<Rightarrow> uploaded_window list \<Rightarrow> composition \<Rightarrow> data_error + composition" where
  "compose_windows original_mdb seg_byte_starts gap_verification [] co = Inr co"
| "compose_windows original_mdb seg_byte_starts gap_verification (w # uploaded) co =
     rbind (compose_before original_mdb seg_byte_starts gap_verification (uw_start w) co) (\<lambda>co.
     let co = co\<lparr>co_seg_idx := skip_segments (length (segments original_mdb)) seg_byte_starts (uw_end w) (co_seg_idx co)\<rparr>
     in if length (verification (uw_mdb w)) \<noteq> length (segments (uw_mdb w)) then Inl DataInternalError
        else compose_windows original_mdb seg_byte_starts gap_verification uploaded
               (co\<lparr>co_segments := co_segments co @ segments (uw_mdb w),
                   co_verification := co_verification co @ verification (uw_mdb w)\<rparr>))"

definition compose_mdb ::
  "mdb_file_info \<Rightarrow> u64 list \<Rightarrow> uploaded_window list \<Rightarrow> merkle_hash list \<Rightarrow> merkle_hash \<Rightarrow> (data_error + mdb_file_info) option" where
  "compose_mdb original_mdb seg_byte_starts uploaded gap_verification h =
     (case rbind (compose_windows original_mdb seg_byte_starts gap_verification uploaded
             \<lparr>co_segments = [], co_verification = [], co_seg_idx = 0, co_gap_idx = 0\<rparr>)
           (compose_after original_mdb gap_verification) of
        Inl e \<Rightarrow> Some (Inl e)
      | Inr co \<Rightarrow>
          if co_gap_idx co < length gap_verification then Some (Inl DataInternalError)
          else map_option (\<lambda>header. Inr \<lparr>metadata = header, segments = co_segments co, verification = co_verification co,
                                         metadata_ext = None\<rparr>)
                 (file_header_new h (length (co_segments co)) True False))"

section \<open>The upload\<close>

fun feed_fresh :: "session_env \<Rightarrow> dirty_input list \<Rightarrow> file_cleaner \<Rightarrow> file_upload_session \<Rightarrow> unit cleaner_result" where
  "feed_fresh env [] c s = Some (Inr (), c, s)"
| "feed_fresh env (d # inputs) c s =
     cleaner_bind (feed_reader env (di_reader d) (unat (di_new_length d)) c s) (\<lambda>_. feed_fresh env inputs)"

definition upload_fresh_file :: "session_env \<Rightarrow> dirty_input list \<Rightarrow> u64 \<Rightarrow> xet_file_info session_result" where
  "upload_fresh_file env dirty_inputs total_size =
     session_bind (start_clean (Some total_size) Skip (upload_session_new False)) (\<lambda>c s.
       case feed_fresh env dirty_inputs c s of
         None \<Rightarrow> None
       | Some (Inl e, c, s) \<Rightarrow> Some (Inl e, s)
       | Some (Inr _, c, s) \<Rightarrow>
           session_bind (finish env c s) (\<lambda>(info, _) s.
           session_bind (finalize_impl env False s) (\<lambda>_ s. Some (Inr info, s))))"

text \<open>After the answer of the server: the windows, the merged hash, and the composed file.\<close>

definition upload_edited ::
  "range_env \<Rightarrow> merkle_hash \<Rightarrow> u64 \<Rightarrow> u64 \<Rightarrow> dirty_input list \<Rightarrow> mdb_file_info \<Rightarrow> file_chunk_hashes_response \<Rightarrow>
   xet_file_info session_result" where
  "upload_edited env original_hash original_size total_size dirty_inputs original_mdb response =
     session_bind (upload_windows env original_hash original_size (cr_windows response) dirty_inputs [] (upload_session_new False))
       (\<lambda>(uploaded, left) s.
          if left \<noteq> [] then Some (Inl DataInternalError, s)
          else
            case combined_hash (se_keyed_hash (rg_session env)) uploaded (cr_hash_ranges response) total_size of
              Inl e \<Rightarrow> Some (Inl e, s)
            | Inr h \<Rightarrow>
                (case compose_mdb original_mdb (seg_byte_starts_of original_mdb) uploaded (cr_gap_verification response) h of
                   None \<Rightarrow> None
                 | Some (Inl e) \<Rightarrow> Some (Inl e, s)
                 | Some (Inr composed_mdb) \<Rightarrow>
                     session_bind (register_composed_file composed_mdb s) (\<lambda>_ s.
                     session_bind (finalize_impl (rg_session env) False s) (\<lambda>_ s.
                       Some (Inr (xet_file_info_new (hex h) total_size), s)))))"

text \<open>The session, where one was made, is part of the result.\<close>

definition with_session :: "'a session_result \<Rightarrow> ((data_error + 'a) \<times> file_upload_session option) option" where
  "with_session r = map_option (\<lambda>(x, s). (x, Some s)) r"

definition upload_ranges ::
  "range_env \<Rightarrow> merkle_hash \<Rightarrow> u64 \<Rightarrow> dirty_input list \<Rightarrow> ((data_error + xet_file_info) \<times> file_upload_session option) option" where
  "upload_ranges env original_hash original_size dirty_inputs =
     (case rbind (validate_dirty_ranges dirty_inputs original_size) (\<lambda>_. compute_total_size original_size dirty_inputs) of
        Inl e \<Rightarrow> Some (Inl e, None)
      | Inr total_size \<Rightarrow>
          if dirty_inputs = [] then Some (Inr (xet_file_info_new (hex original_hash) original_size), None)
          else if original_size = 0 then with_session (upload_fresh_file (rg_session env) dirty_inputs total_size)
          else
            case rg_file_reconstruction_info env original_hash of
              Inl e \<Rightarrow> Some (Inl (ClientError e), None)
            | Inr None \<Rightarrow> Some (Inl ParameterError, None)
            | Inr (Some original_mdb) \<Rightarrow>
                if file_size original_mdb \<noteq> original_size then Some (Inl ParameterError, None)
                else
                  Option.bind (snap_inputs (seg_byte_starts_of original_mdb) original_size dirty_inputs) (\<lambda>snapped.
                  let server_query = map (\<lambda>(s, e). file_range_new s e) (coalesce snapped) in
                  if server_query = [] then Some (Inl DataInternalError, None)
                  else
                    case rg_file_chunk_hashes env original_hash server_query of
                      Inl e \<Rightarrow> Some (Inl (ClientError e), None)
                    | Inr response \<Rightarrow>
                        if cr_windows response = [] then Some (Inl DataInternalError, None)
                        else if length (cr_hash_ranges response) \<noteq> length (cr_windows response) + 1
                        then Some (Inl DataInternalError, None)
                        else with_session (upload_edited env original_hash original_size total_size dirty_inputs original_mdb response)))"

end
