(* ===== verification/Chunk_Windows_Correct.thy ===== *)
theory Chunk_Windows_Correct
  imports Chunk_Windows Subtree_Correct Chunking_Stable
begin

text \<open>
  What the builder of dirty windows computes: the chunks of the file are cut into gaps and windows that
  alternate, no gap touches a dirty range, and a window that is followed by another chunk ends with two stable
  chunks that no dirty range touches.
\<close>

section \<open>Gaps and windows\<close>

definition node_total :: "node list \<Rightarrow> nat" where
  "node_total ns = sum_list (map (\<lambda>(_, sz). unat sz) ns)"

lemma node_total_simps [simp]:
  "node_total [] = 0" "node_total (n # ns) = unat (snd n) + node_total ns" "node_total (ms @ ns) = node_total ms + node_total ns"
  by (simp_all add: node_total_def case_prod_beta)

lemma u64_of_nat: "n < 2 ^ 64 \<Longrightarrow> unat (of_nat n :: u64) = n"
  by (simp add: unsigned_of_nat take_bit_nat_eq_self)

text \<open>The gaps with the windows behind them.\<close>

type_synonym window_list = "(node list \<times> node list) list"

definition flat_windows :: "window_list \<Rightarrow> node list" where
  "flat_windows ps = concat (map (\<lambda>(g, w). g @ w) ps)"

lemma flat_windows_simps [simp]:
  "flat_windows [] = []" "flat_windows ((g, w) # ps) = g @ w @ flat_windows ps" "flat_windows (ps @ qs) = flat_windows ps @ flat_windows qs"
  by (simp_all add: flat_windows_def)

fun window_ranges :: "nat \<Rightarrow> window_list \<Rightarrow> file_range list" where
  "window_ranges off [] = []"
| "window_ranges off ((g, w) # ps) =
     file_range_new (of_nat (off + node_total g)) (of_nat (off + node_total g + node_total w)) #
     window_ranges (off + node_total g + node_total w) ps"

fun gap_ranges :: "keyed_hash \<Rightarrow> bool \<Rightarrow> node list list \<Rightarrow> merkle_hash_subtree option list" where
  "gap_ranges kh first [] = []"
| "gap_ranges kh first (g # gs) = range_to_option (from_chunks kh first g False) # gap_ranges kh False gs"

lemma window_ranges_append:
  "window_ranges off (ps @ qs) = window_ranges off ps @ window_ranges (off + node_total (flat_windows ps)) qs"
  by (induction off ps rule: window_ranges.induct) (simp_all add: add.assoc)

lemma gap_ranges_append: "gap_ranges kh first (gs @ hs) = gap_ranges kh first gs @ gap_ranges kh (first \<and> gs = []) hs"
  by (induction gs arbitrary: first) auto

section \<open>Dirty ranges\<close>

definition dirty_ok :: "file_range list \<Rightarrow> bool" where
  "dirty_ok ds \<longleftrightarrow> (\<forall>d \<in> set ds. fr_start d < fr_end d) \<and> sorted_wrt (\<lambda>d d'. fr_end d \<le> fr_start d') ds"

definition untouched :: "file_range list \<Rightarrow> nat \<Rightarrow> nat \<Rightarrow> bool" where
  "untouched ds a b \<longleftrightarrow> (\<forall>d \<in> set ds. \<not> (unat (fr_start d) < b \<and> a < unat (fr_end d)))"

lemma dirty_ok_nth:
  assumes "dirty_ok ds" and "i < length ds"
  shows "fr_start (ds ! i) < fr_end (ds ! i)" "i < j \<Longrightarrow> j < length ds \<Longrightarrow> fr_end (ds ! i) \<le> fr_start (ds ! j)"
  using assms by (simp_all add: dirty_ok_def sorted_wrt_iff_nth_less)

lemma dirty_starts_mono:
  assumes "dirty_ok ds" and "i \<le> j" and "j < length ds"
  shows "fr_start (ds ! i) \<le> fr_start (ds ! j)"
proof (cases "i = j")
  case False
  then have "fr_start (ds ! i) < fr_end (ds ! i)" "fr_end (ds ! i) \<le> fr_start (ds ! j)"
    using dirty_ok_nth [OF assms(1), of i] assms(2,3) by simp_all
  then show ?thesis by (meson less_imp_le order.trans)
qed simp

lemma untouched_join:
  assumes "dirty_ok ds" and "untouched ds a m" and "untouched ds m b"
  shows "untouched ds a b"
proof -
  have "\<not> (unat (fr_start d) < b \<and> a < unat (fr_end d))" if "d \<in> set ds" for d
  proof -
    have "unat (fr_start d) < unat (fr_end d)" using assms(1) that by (simp add: dirty_ok_def word_less_nat_alt)
    moreover have "\<not> (unat (fr_start d) < m \<and> a < unat (fr_end d))" "\<not> (unat (fr_start d) < b \<and> m < unat (fr_end d))"
      using assms(2,3) that by (simp_all add: untouched_def)
    ultimately show ?thesis by linarith
  qed
  then show ?thesis by (simp add: untouched_def)
qed

text \<open>A window that is closed.\<close>

definition settled :: "file_range list \<Rightarrow> nat \<Rightarrow> node list \<Rightarrow> bool" where
  "settled ds off w \<longleftrightarrow> (\<exists>v x y. w = v @ [x, y] \<and> v \<noteq> [] \<and> is_stable_chunk_size (unat (snd x)) \<and> is_stable_chunk_size (unat (snd y)) \<and>
     untouched ds (off + node_total v) (off + node_total w))"

fun windows_ok :: "file_range list \<Rightarrow> bool \<Rightarrow> nat \<Rightarrow> window_list \<Rightarrow> bool" where
  "windows_ok ds live off [] \<longleftrightarrow> True"
| "windows_ok ds live off ((g, w) # ps) \<longleftrightarrow>
     untouched ds off (off + node_total g) \<and> w \<noteq> [] \<and> (ps = [] \<and> live \<or> settled ds (off + node_total g) w) \<and>
     windows_ok ds live (off + node_total g + node_total w) ps"

lemma windows_ok_append:
  "windows_ok ds live off (ps @ [(g, w)]) \<longleftrightarrow> windows_ok ds False off ps \<and>
     untouched ds (off + node_total (flat_windows ps)) (off + node_total (flat_windows ps) + node_total g) \<and> w \<noteq> [] \<and>
     (live \<or> settled ds (off + node_total (flat_windows ps) + node_total g) w)"
  by (induction ds live off ps rule: windows_ok.induct) (auto simp: add.assoc)

lemma windows_ok_nonempty: "windows_ok ds live off ps \<Longrightarrow> (g, w) \<in> set ps \<Longrightarrow> w \<noteq> []"
  by (induction ds live off ps rule: windows_ok.induct) auto

section \<open>The invariant of the builder\<close>

definition dirty_position :: "file_range list \<Rightarrow> bool \<Rightarrow> nat \<Rightarrow> u64 \<Rightarrow> bool" where
  "dirty_position ds live i cursor \<longleftrightarrow>
     (if live then i < length ds \<and> fr_start (ds ! i) < cursor \<and> (i + 1 < length ds \<longrightarrow> cursor \<le> fr_start (ds ! (i + 1)))
      else (i < length ds \<longrightarrow> cursor \<le> fr_start (ds ! i)) \<and> (\<forall>j < i. j < length ds \<longrightarrow> fr_end (ds ! j) \<le> cursor))"

definition tail_ok :: "file_range list \<Rightarrow> nat \<Rightarrow> node list \<Rightarrow> u64 option \<Rightarrow> bool" where
  "tail_ok ds off w p \<longleftrightarrow> (case p of None \<Rightarrow> True
     | Some z \<Rightarrow> \<exists>v x. w = v @ [x] \<and> v \<noteq> [] \<and> snd x = z \<and> untouched ds (off + node_total v) (off + node_total w))"

definition builder_rep ::
  "keyed_hash \<Rightarrow> file_range list \<Rightarrow> window_list \<Rightarrow> node list \<Rightarrow> chunk_window_builder \<Rightarrow> bool" where
  "builder_rep kh ds ps gap b \<longleftrightarrow>
     cw_dirty_ranges b = ds \<and> cw_gap_chunks b = gap \<and> cw_windows b = window_ranges 0 ps \<and>
     cw_hash_ranges b = gap_ranges kh True (map fst ps) \<and>
     (cw_in_dirty_zone b \<longrightarrow> ps \<noteq> [] \<and> gap = [] \<and>
        tail_ok ds (node_total (flat_windows (butlast ps) @ fst (last ps))) (snd (last ps)) (cw_tail_prev_size b)) \<and>
     (cw_gap_is_first b \<longleftrightarrow> ps = [] \<or> cw_in_dirty_zone b \<and> length ps = 1) \<and>
     cw_cursor b = of_nat (node_total (flat_windows ps @ gap)) \<and>
     windows_ok ds (cw_in_dirty_zone b) 0 ps \<and>
     (\<not> cw_in_dirty_zone b \<longrightarrow> untouched ds (node_total (flat_windows ps)) (node_total (flat_windows ps @ gap))) \<and>
     dirty_position ds (cw_in_dirty_zone b) (cw_dirty_idx b) (cw_cursor b)"

lemma builder_rep_new: "builder_rep kh ds [] [] (window_builder_new ds)"
  by (auto simp: builder_rep_def window_builder_new_def untouched_def dirty_position_def)

lemma merge_ahead_eq:
  "cw_dirty_idx b < length (cw_dirty_ranges b) \<Longrightarrow>
     \<exists>i. merge_ahead e b = b\<lparr>cw_dirty_idx := i\<rparr> \<and> cw_dirty_idx b \<le> i \<and> i < length (cw_dirty_ranges b) \<and>
       (i + 1 < length (cw_dirty_ranges b) \<longrightarrow> e \<le> fr_start (cw_dirty_ranges b ! (i + 1))) \<and>
       (\<forall>j. cw_dirty_idx b < j \<longrightarrow> j \<le> i \<longrightarrow> fr_start (cw_dirty_ranges b ! j) < e)"
proof (induction e b rule: merge_ahead.induct)
  case (1 e b)
  let ?c = "cw_dirty_idx b + 1 < length (cw_dirty_ranges b) \<and> fr_start (cw_dirty_ranges b ! (cw_dirty_idx b + 1)) < e"
  show ?case
  proof (cases ?c)
    case False
    then show ?thesis
      using "1.prems" by (subst merge_ahead.simps) (auto intro!: exI [of _ "cw_dirty_idx b"] simp: not_less)
  next
    case True
    then obtain i where i: "merge_ahead e (b\<lparr>cw_dirty_idx := cw_dirty_idx b + 1\<rparr>) = b\<lparr>cw_dirty_idx := i\<rparr>" "cw_dirty_idx b + 1 \<le> i"
      "i < length (cw_dirty_ranges b)" "i + 1 < length (cw_dirty_ranges b) \<longrightarrow> e \<le> fr_start (cw_dirty_ranges b ! (i + 1))"
      "\<forall>j. cw_dirty_idx b + 1 < j \<longrightarrow> j \<le> i \<longrightarrow> fr_start (cw_dirty_ranges b ! j) < e"
      using "1.IH" [OF True] by auto
    have "fr_start (cw_dirty_ranges b ! j) < e" if "cw_dirty_idx b < j" "j \<le> i" for j
      using that i(5) True by (cases "j = cw_dirty_idx b + 1") auto
    then show ?thesis
      using i True by (subst merge_ahead.simps) (auto intro!: exI [of _ i])
  qed
qed

subsection \<open>The position among the dirty ranges\<close>

lemma position_gap:
  assumes "dirty_ok ds" and "dirty_position ds False i s" and "s \<le> e"
    and "\<not> (i < length ds \<and> fr_start (ds ! i) < e \<and> s < fr_end (ds ! i))"
  shows "dirty_position ds False i e" "untouched ds (unat s) (unat e)"
proof -
  have next_start: "e \<le> fr_start (ds ! i)" if "i < length ds"
    using assms(2,4) dirty_ok_nth(1) [OF assms(1) that] that by (auto simp: dirty_position_def)
  then show "dirty_position ds False i e" using assms(2,3) by (auto simp: dirty_position_def)
  have "\<not> (fr_start (ds ! j) < e \<and> s < fr_end (ds ! j))" if "j < length ds" for j
  proof (cases j i rule: linorder_cases)
    case less
    then show ?thesis using assms(2) that by (auto simp: dirty_position_def)
  next
    case equal
    then show ?thesis using next_start that by auto
  next
    case greater
    then have "e \<le> fr_start (ds ! i)" "fr_start (ds ! i) \<le> fr_start (ds ! j)"
      using next_start dirty_starts_mono [OF assms(1), of i j] that by simp_all
    then show ?thesis by auto
  qed
  then show "untouched ds (unat s) (unat e)"
    by (auto simp: untouched_def in_set_conv_nth word_less_nat_alt)
qed

lemma position_clean:
  assumes "dirty_ok ds" and "dirty_position ds True i s" and "s \<le> e"
    and "\<not> (i < length ds \<and> fr_start (ds ! i) < e \<and> s < fr_end (ds ! i))"
    and "\<not> (i + 1 < length ds \<and> fr_start (ds ! (i + 1)) < e \<and> s < fr_end (ds ! (i + 1)))"
  shows "dirty_position ds True i e" "dirty_position ds False (i + 1) e" "untouched ds (unat s) (unat e)"
proof -
  have i: "i < length ds" "fr_start (ds ! i) < s" using assms(2) by (simp_all add: dirty_position_def)
  have this_end: "fr_end (ds ! i) \<le> s" using assms(3,4) i by (auto simp: not_less)
  have next_start: "e \<le> fr_start (ds ! (i + 1))" if "i + 1 < length ds"
    using assms(2,5) dirty_ok_nth(1) [OF assms(1) that] that by (auto simp: dirty_position_def)
  show "dirty_position ds True i e" using i next_start assms(3) by (auto simp: dirty_position_def)
  have past: "fr_end (ds ! j) \<le> s" if "j \<le> i" for j
  proof (cases "j = i")
    case False
    then have "fr_end (ds ! j) \<le> fr_start (ds ! i)" using dirty_ok_nth(2) [OF assms(1), of j i] that i by simp
    then show ?thesis using i by simp
  qed (use this_end in simp)
  then show "dirty_position ds False (i + 1) e"
    using next_start assms(3) by (auto simp: dirty_position_def less_Suc_eq_le intro: order.trans)
  have "\<not> (fr_start (ds ! j) < e \<and> s < fr_end (ds ! j))" if "j < length ds" for j
  proof (cases "j \<le> i")
    case True
    then show ?thesis using past [of j] by auto
  next
    case False
    then have "e \<le> fr_start (ds ! (i + 1))" "fr_start (ds ! (i + 1)) \<le> fr_start (ds ! j)"
      using next_start dirty_starts_mono [OF assms(1), of "i + 1" j] that by simp_all
    then show ?thesis by auto
  qed
  then show "untouched ds (unat s) (unat e)"
    by (auto simp: untouched_def in_set_conv_nth word_less_nat_alt)
qed

lemma position_dirty:
  assumes "cw_dirty_ranges b = ds" and "cw_dirty_idx b < length ds" and "fr_start (ds ! cw_dirty_idx b) < e"
  shows "\<exists>i. merge_ahead e b = b\<lparr>cw_dirty_idx := i\<rparr> \<and> dirty_position ds True i e"
proof -
  obtain i where i: "merge_ahead e b = b\<lparr>cw_dirty_idx := i\<rparr>" "cw_dirty_idx b \<le> i" "i < length ds"
    "i + 1 < length ds \<longrightarrow> e \<le> fr_start (ds ! (i + 1))" "\<forall>j. cw_dirty_idx b < j \<longrightarrow> j \<le> i \<longrightarrow> fr_start (ds ! j) < e"
    using merge_ahead_eq [of b e] assms(1,2) by auto
  have "fr_start (ds ! i) < e" using i(2,5) assms(3) by (cases "i = cw_dirty_idx b") auto
  then show ?thesis using i by (auto simp: dirty_position_def)
qed

subsection \<open>The steps\<close>

lemma open_window_rep:
  assumes rep: "builder_rep kh ds ps gap b" and z: "\<not> cw_in_dirty_zone b"
    and d: "cw_dirty_idx b < length ds" "fr_start (ds ! cw_dirty_idx b) < of_nat (node_total (flat_windows ps @ gap) + unat (snd c))"
  shows "builder_rep kh ds (ps @ [(gap, [c])]) []
    ((open_window kh (of_nat (node_total (flat_windows ps @ gap) + unat (snd c))) b)\<lparr>cw_in_dirty_zone := True, cw_tail_prev_size := None,
       cw_cursor := of_nat (node_total (flat_windows ps @ gap) + unat (snd c))\<rparr>)"
proof -
  let ?e = "of_nat (node_total (flat_windows ps @ gap) + unat (snd c)) :: u64"
  let ?b0 = "b\<lparr>cw_hash_ranges := cw_hash_ranges b @ [range_to_option (from_chunks kh (cw_gap_is_first b) (cw_gap_chunks b) False)],
    cw_gap_chunks := [], cw_windows := cw_windows b @ [file_range_new (cw_cursor b) ?e]\<rparr>"
  obtain i where i: "merge_ahead ?e ?b0 = ?b0\<lparr>cw_dirty_idx := i\<rparr>" "dirty_position ds True i ?e"
    using position_dirty [of ?b0 ds ?e] rep d by (auto simp: builder_rep_def)
  show ?thesis
    using rep z i(2) unfolding open_window_def Let_def i(1)
    by (simp add: builder_rep_def window_ranges_append gap_ranges_append windows_ok_append tail_ok_def add.assoc)
qed

lemma extend_rep:
  assumes rep: "builder_rep kh ds (qs @ [(g, w)]) [] b" and z: "cw_in_dirty_zone b"
  shows "\<exists>b'. extend_open_window e b = Some b' \<and> cw_dirty_ranges b' = ds \<and> cw_tail_prev_size b' = cw_tail_prev_size b \<and>
    cw_dirty_idx b' = cw_dirty_idx b \<and>
    (\<forall>i p. e = of_nat (node_total (flat_windows (qs @ [(g, w)])) + unat (snd c)) \<longrightarrow> dirty_position ds True i e \<longrightarrow>
       tail_ok ds (node_total (flat_windows qs @ g)) (w @ [c]) p \<longrightarrow>
       builder_rep kh ds (qs @ [(g, w @ [c])]) [] (b'\<lparr>cw_dirty_idx := i, cw_tail_prev_size := p, cw_cursor := e\<rparr>) \<and>
       cw_in_dirty_zone b')"
  using assms
  by (auto simp: builder_rep_def extend_open_window_def window_ranges_append gap_ranges_append windows_ok_append file_range_new_def
      add.assoc)

lemma close_rep:
  assumes rep: "builder_rep kh ds (qs @ [(g, w)]) [] b" and "cw_in_dirty_zone b" and fit: "node_total (flat_windows (qs @ [(g, w)])) < 2 ^ 64"
    and pos: "dirty_position ds False i (cw_cursor b)" and ok: "dirty_ok ds" and st: "settled ds (node_total (flat_windows qs @ g)) w"
  shows "builder_rep kh ds (qs @ [(g, w)]) []
    (b\<lparr>cw_dirty_idx := i, cw_gap_is_first := False, cw_in_dirty_zone := False, cw_tail_prev_size := None\<rparr>)"
proof -
  have cur: "cw_cursor b = of_nat (node_total (flat_windows (qs @ [(g, w)])))" using rep by (simp add: builder_rep_def)
  then have "unat (cw_cursor b) = node_total (flat_windows (qs @ [(g, w)]))" by (simp only: u64_of_nat [OF fit])
  moreover have "untouched ds (unat (cw_cursor b)) (unat (cw_cursor b))"
  proof (rule position_gap(2) [OF ok pos order.refl])
    show "\<not> (i < length ds \<and> fr_start (ds ! i) < cw_cursor b \<and> cw_cursor b < fr_end (ds ! i))"
      using pos by (auto simp: dirty_position_def)
  qed
  ultimately show ?thesis
    using rep pos st by (simp add: builder_rep_def windows_ok_append)
qed

lemma extend_open_window_idx:
  "extend_open_window e (b\<lparr>cw_dirty_idx := k\<rparr>) = map_option (\<lambda>b. b\<lparr>cw_dirty_idx := k\<rparr>) (extend_open_window e b)"
  by (simp add: extend_open_window_def)

lemma process_in_zone:
  assumes rep: "builder_rep kh ds (qs @ [(g, w)]) [] b" and zone: "cw_in_dirty_zone b" and ok: "dirty_ok ds"
    and fit: "node_total (flat_windows (qs @ [(g, w)])) + unat (snd c) < 2 ^ 64"
    and e_def: "e = of_nat (node_total (flat_windows (qs @ [(g, w)])) + unat (snd c))"
  shows "\<exists>b'. process_chunk kh (fst c) (snd c) e b = Some b' \<and>
    builder_rep kh ds (qs @ [(g, w @ [c])]) [] b'"
proof -
  let ?N = "node_total (flat_windows (qs @ [(g, w)]))"
  have cur: "cw_cursor b = of_nat ?N" and ds: "cw_dirty_ranges b = ds" and w: "w \<noteq> []"
    using rep by (simp_all add: builder_rep_def windows_ok_append)
  have tl: "tail_ok ds (node_total (flat_windows qs @ g)) w (cw_tail_prev_size b)" using rep zone by (simp add: builder_rep_def)
  have u: "unat (cw_cursor b) = ?N" "unat e = ?N + unat (snd c)" using fit unfolding cur e_def by (intro u64_of_nat, simp)+
  then have le: "cw_cursor b \<le> e" by (simp only: word_le_nat_alt)
  have pos: "dirty_position ds True (cw_dirty_idx b) (cw_cursor b)" using rep zone unfolding builder_rep_def by auto
  let ?ov = "\<lambda>i. i < length ds \<and> fr_start (ds ! i) < e \<and> cw_cursor b < fr_end (ds ! i)"
  have ov: "overlaps_dirty_at b i (cw_cursor b) e \<longleftrightarrow> ?ov i" for i by (simp only: overlaps_dirty_at_def ds)
  obtain b1 where b1: "extend_open_window e b = Some b1" "cw_dirty_ranges b1 = ds" "cw_tail_prev_size b1 = cw_tail_prev_size b"
    "cw_dirty_idx b1 = cw_dirty_idx b"
    "\<And>i p. dirty_position ds True i e \<Longrightarrow> tail_ok ds (node_total (flat_windows qs @ g)) (w @ [c]) p \<Longrightarrow>
       builder_rep kh ds (qs @ [(g, w @ [c])]) [] (b1\<lparr>cw_dirty_idx := i, cw_tail_prev_size := p, cw_cursor := e\<rparr>) \<and> cw_in_dirty_zone b1"
    using extend_rep [OF rep zone, of e c] e_def by blast
  show ?thesis
  proof (cases "?ov (cw_dirty_idx b) \<or> ?ov (cw_dirty_idx b + 1)")
    case True
    define k where "k = (if ?ov (cw_dirty_idx b) then cw_dirty_idx b else cw_dirty_idx b + 1)"
    have k: "k < length ds" "fr_start (ds ! k) < e" using True by (auto simp: k_def)
    have kb: "(if \<not> ?ov (cw_dirty_idx b) then b\<lparr>cw_dirty_idx := cw_dirty_idx b + 1\<rparr> else b) = b\<lparr>cw_dirty_idx := k\<rparr>"
      by (simp add: k_def)
    obtain i where i: "merge_ahead e (b1\<lparr>cw_dirty_idx := k\<rparr>) = b1\<lparr>cw_dirty_idx := k\<rparr>\<lparr>cw_dirty_idx := i\<rparr>" "dirty_position ds True i e"
      using position_dirty [of "b1\<lparr>cw_dirty_idx := k\<rparr>" ds e] b1(2) k by auto
    have "process_chunk kh (fst c) (snd c) e b = Some (b1\<lparr>cw_dirty_idx := i, cw_tail_prev_size := None, cw_cursor := e\<rparr>)"
      using zone True unfolding process_chunk_def Let_def ov kb extend_open_window_idx b1(1) by (simp add: i(1))
    then show ?thesis using b1(5) [OF i(2), of None] by (auto simp: tail_ok_def)
  next
    case False
    then have no: "\<not> ?ov (cw_dirty_idx b)" "\<not> ?ov (cw_dirty_idx b + 1)" by blast+
    note p = position_clean [OF ok pos le no]
    let ?b2 = "b1\<lparr>cw_dirty_idx := cw_dirty_idx b, cw_tail_prev_size := Some (snd c), cw_cursor := e\<rparr>"
    have off: "node_total (flat_windows qs @ g) + node_total w = ?N" by simp
    have rep2: "builder_rep kh ds (qs @ [(g, w @ [c])]) [] ?b2" "cw_in_dirty_zone b1"
      using b1(5) [OF p(1), of "Some (snd c)"] w p(3) unfolding u tail_ok_def by (auto simp: add.assoc)
    define stable where "stable \<longleftrightarrow> (case cw_tail_prev_size b of None \<Rightarrow> False
      | Some prev \<Rightarrow> is_stable_chunk_size (unat prev) \<and> is_stable_chunk_size (unat (snd c)))"
    have pc: "process_chunk kh (fst c) (snd c) e b = Some (if stable
        then ?b2\<lparr>cw_dirty_idx := cw_dirty_idx b + 1, cw_gap_is_first := False, cw_in_dirty_zone := False, cw_tail_prev_size := None\<rparr> else ?b2)"
      by (simp only: process_chunk_def Let_def ov no zone b1(1)) (simp add: b1(3) b1(4) [symmetric] stable_def [symmetric])
    show ?thesis
    proof (cases stable)
      case True
      then obtain prev where prev: "cw_tail_prev_size b = Some prev" "is_stable_chunk_size (unat prev)" "is_stable_chunk_size (unat (snd c))"
        by (auto simp: stable_def split: option.splits)
      then obtain v x where v: "w = v @ [x]" "v \<noteq> []" "snd x = prev"
        "untouched ds (node_total (flat_windows qs @ g) + node_total v) (node_total (flat_windows qs @ g) + node_total w)"
        using tl by (auto simp: tail_ok_def)
      have "untouched ds (node_total (flat_windows qs @ g) + node_total v) (?N + unat (snd c))"
        using untouched_join [OF ok v(4)] p(3) unfolding u off by blast
      then have st: "settled ds (node_total (flat_windows qs @ g)) (w @ [c])"
        using v prev unfolding settled_def by (intro exI [of _ v] exI [of _ x] exI [of _ c]) (auto simp: add.assoc)
      have "builder_rep kh ds (qs @ [(g, w @ [c])]) []
          (?b2\<lparr>cw_dirty_idx := cw_dirty_idx b + 1, cw_gap_is_first := False, cw_in_dirty_zone := False, cw_tail_prev_size := None\<rparr>)"
        using fit p(2) rep2(2) by (intro close_rep [OF rep2(1) _ _ _ ok st]) (simp_all add: add.assoc)
      then show ?thesis using pc True by auto
    next
      case False
      then show ?thesis using pc rep2(1) by auto
    qed
  qed
qed

lemma builder_step:
  assumes rep: "builder_rep kh ds ps gap b" and ok: "dirty_ok ds" and fit: "node_total (flat_windows ps @ gap) + unat (snd c) < 2 ^ 64"
  shows "\<exists>ps' gap' b'. process_chunk kh (fst c) (snd c) (of_nat (node_total (flat_windows ps @ gap) + unat (snd c))) b = Some b' \<and>
    builder_rep kh ds ps' gap' b' \<and> flat_windows ps' @ gap' = flat_windows ps @ gap @ [c]"
proof -
  let ?N = "node_total (flat_windows ps @ gap)"
  let ?e = "of_nat (?N + unat (snd c)) :: u64"
  have cur: "cw_cursor b = of_nat ?N" and ds: "cw_dirty_ranges b = ds" using rep by (simp_all add: builder_rep_def)
  have u: "unat (cw_cursor b) = ?N" "unat ?e = ?N + unat (snd c)" using fit unfolding cur by (intro u64_of_nat, simp)+
  then have le: "cw_cursor b \<le> ?e" by (simp only: word_le_nat_alt)
  have pos: "dirty_position ds (cw_in_dirty_zone b) (cw_dirty_idx b) (cw_cursor b)" using rep unfolding builder_rep_def by blast
  let ?ov = "\<lambda>i. i < length ds \<and> fr_start (ds ! i) < ?e \<and> cw_cursor b < fr_end (ds ! i)"
  have ov: "overlaps_dirty_at b i (cw_cursor b) ?e \<longleftrightarrow> ?ov i" for i by (simp only: overlaps_dirty_at_def ds)
  show ?thesis
  proof (cases "cw_in_dirty_zone b")
    case zone: False
    show ?thesis
    proof (cases "?ov (cw_dirty_idx b)")
      case True
      then have "process_chunk kh (fst c) (snd c) ?e b =
          Some ((open_window kh ?e b)\<lparr>cw_in_dirty_zone := True, cw_tail_prev_size := None, cw_cursor := ?e\<rparr>)"
        using zone by (simp only: process_chunk_def Let_def ov) simp
      then show ?thesis
        using open_window_rep [OF rep zone, of c] True
        by (intro exI [of _ "ps @ [(gap, [c])]"] exI [of _ "[]"] exI) (simp del: of_nat_add)
    next
      case False
      have p: "process_chunk kh (fst c) (snd c) ?e b = Some (b\<lparr>cw_gap_chunks := cw_gap_chunks b @ [c], cw_cursor := ?e\<rparr>)"
        using zone False by (simp only: process_chunk_def Let_def ov) simp
      have "dirty_position ds False (cw_dirty_idx b) ?e" "untouched ds ?N (?N + unat (snd c))"
        using position_gap [OF ok _ le False] pos zone by (simp_all only: u)
      moreover have "untouched ds (node_total (flat_windows ps)) (?N + unat (snd c))"
        using untouched_join [OF ok _ calculation(2)] rep zone unfolding builder_rep_def by blast
      ultimately have "builder_rep kh ds ps (gap @ [c]) (b\<lparr>cw_gap_chunks := cw_gap_chunks b @ [c], cw_cursor := ?e\<rparr>)"
        using rep zone by (simp add: builder_rep_def add.assoc)
      then show ?thesis using p by (intro exI [of _ ps] exI [of _ "gap @ [c]"] exI) simp
    qed
  next
    case zone: True
    then have "ps \<noteq> []" and gap: "gap = []" using rep by (simp_all add: builder_rep_def)
    then obtain qs g w where ps: "ps = qs @ [(g, w)]" by (metis append_butlast_last_id prod.collapse)
    have "\<exists>w' b'. process_chunk kh (fst c) (snd c) ?e b = Some b' \<and> builder_rep kh ds (qs @ [(g, w @ [c])]) [] b'"
      using process_in_zone [OF rep [unfolded ps gap] zone ok _ refl] fit unfolding ps gap by simp
    then show ?thesis unfolding ps gap by (metis append.right_neutral append_assoc flat_windows_simps)
  qed
qed

lemma builder_loop:
  assumes "dirty_ok ds"
  shows "builder_rep kh ds ps gap b \<Longrightarrow> node_total (flat_windows ps @ gap @ cs) < 2 ^ 64 \<Longrightarrow>
    \<exists>ps' gap' b'. process_chunk_loop kh cs (of_nat (node_total (flat_windows ps @ gap))) b = Some b' \<and>
      builder_rep kh ds ps' gap' b' \<and> flat_windows ps' @ gap' = flat_windows ps @ gap @ cs"
proof (induction cs arbitrary: ps gap b)
  case Nil
  then show ?case by auto
next
  case (Cons c cs)
  obtain h sz where c: "c = (h, sz)" by force
  let ?N = "node_total (flat_windows ps @ gap)"
  have "?N + unat (snd c) < 2 ^ 64" using Cons.prems(2) by simp
  then obtain ps1 gap1 b1 where s: "process_chunk kh (fst c) (snd c) (of_nat (?N + unat (snd c))) b = Some b1"
    "builder_rep kh ds ps1 gap1 b1" "flat_windows ps1 @ gap1 = flat_windows ps @ gap @ [c]"
    using builder_step [OF Cons.prems(1) assms] by blast
  have t: "node_total (flat_windows ps1 @ gap1) = ?N + unat (snd c)" by (simp only: s(3)) simp
  have "node_total (flat_windows ps1 @ gap1 @ cs) < 2 ^ 64" using Cons.prems(2) t by (simp add: add.assoc)
  then obtain ps2 gap2 b2 where r: "process_chunk_loop kh cs (of_nat (node_total (flat_windows ps1 @ gap1))) b1 = Some b2"
    "builder_rep kh ds ps2 gap2 b2" "flat_windows ps2 @ gap2 = flat_windows ps1 @ gap1 @ cs"
    using Cons.IH [OF s(2)] by blast
  have "of_nat ?N + sz = (of_nat (?N + unat (snd c)) :: u64)" by (simp add: c)
  then have "process_chunk_loop kh (c # cs) (of_nat ?N) b = Some b2"
    using s(1) r(1) by (simp only: c process_chunk_loop.simps fst_conv snd_conv t bind.simps)
  moreover have "flat_windows ps2 @ gap2 = flat_windows ps @ gap @ c # cs" using r(3) s(3) by (metis append.assoc append_Cons append_Nil)
  ultimately show ?case using r(2) by blast
qed

section \<open>Empty subtrees\<close>

lemma promote_groups_empty: "promote_groups kh m = [] \<longleftrightarrow> m = []"
  by (simp add: promote_groups.simps [of kh m] Let_def)

interpretation any_hump: hump_rep kh s e "\<lambda>LR cur. (cur = []) = (set LR \<subseteq> {([], [])})" "\<lambda>_ _. True" for kh s e
  by unfold_locales (auto simp: split_ok_def promote_groups_empty)

lemma from_chunks_empty: "subtree_is_empty (from_chunks kh s ns e) \<longleftrightarrow> ns = []"
proof -
  obtain LR where LR: "from_chunks kh s ns e = tree_of LR s e" "(ns = []) = (set LR \<subseteq> {([], [])})"
    by (rule any_hump.build_rep [where kh = kh and s = s and e = e and cur = ns]) simp_all
  have "lefts ls = [] \<and> rights ls = [] \<longleftrightarrow> set ls \<subseteq> {([], [])}" for ls by (induction ls) auto
  moreover have "rights (rev ls) = [] \<longleftrightarrow> rights ls = []" for ls by (induction ls) auto
  ultimately show ?thesis using LR by (simp add: subtree_is_empty_def nodes_tree_of)
qed

lemma range_to_option_eq: "range_to_option (from_chunks kh s ns e) = (if ns = [] then None else Some (from_chunks kh s ns e))"
  by (simp add: range_to_option_def from_chunks_empty)

section \<open>The result of the builder\<close>

text \<open>How the chunks are cut: \<open>live\<close> says that the last window reaches to the end of the file.\<close>

definition window_plan :: "file_range list \<Rightarrow> node list \<Rightarrow> window_list \<Rightarrow> node list \<Rightarrow> bool \<Rightarrow> bool" where
  "window_plan ds cs ps gap live \<longleftrightarrow> cs = flat_windows ps @ gap \<and> windows_ok ds live 0 ps \<and>
     (if live then ps \<noteq> [] \<and> gap = [] else untouched ds (node_total (flat_windows ps)) (node_total cs))"

definition all_gap_ranges :: "keyed_hash \<Rightarrow> window_list \<Rightarrow> node list \<Rightarrow> merkle_hash_subtree option list" where
  "all_gap_ranges kh ps gap = gap_ranges kh True (map fst ps) @ [range_to_option (from_chunks kh (ps = []) gap True)]"

lemma window_builder_result:
  assumes "dirty_ok ds" and "node_total cs < 2 ^ 64"
  shows "\<exists>b ps gap live. process_chunk_loop kh cs 0 (window_builder_new ds) = Some b \<and> window_plan ds cs ps gap live \<and>
    window_builder_finish kh b = (window_ranges 0 ps, all_gap_ranges kh ps gap)"
proof -
  obtain ps gap b where b: "process_chunk_loop kh cs 0 (window_builder_new ds) = Some b" "builder_rep kh ds ps gap b"
    "flat_windows ps @ gap = cs"
    using builder_loop [OF assms(1) builder_rep_new, of cs kh] assms(2) by auto
  have "window_plan ds cs ps gap (cw_in_dirty_zone b)" using b(2,3) by (auto simp: window_plan_def builder_rep_def)
  moreover have "window_builder_finish kh b = (window_ranges 0 ps, all_gap_ranges kh ps gap)"
    using b(2) by (auto simp: window_builder_finish_def all_gap_ranges_def builder_rep_def range_to_option_eq)
  ultimately show ?thesis using b(1) by blast
qed

end
