(* ===== verification/Chunking_Edits.thy ===== *)
theory Chunking_Edits
  imports Chunking_Stable
begin

text \<open>
  The chunks of an edited file. Where the chunks of a file are cut into gaps that stay as they are and windows
  whose bytes are replaced, and every window that is not the end of the file ends with two stable chunks that
  stay, the chunks of the edited file are those of the gaps and those that each window has on its own.
\<close>

section \<open>Boundaries and the parts between them\<close>

lemma first_cut_len_take:
  assumes "first_cut_len roll c bs = Some L"
  shows "first_cut_len roll c (take L bs @ Z) = Some L"
proof -
  have L: "0 < L" "L \<le> length bs" "cut_at roll c bs L" "\<And>j. 0 < j \<Longrightarrow> j < L \<Longrightarrow> \<not> cut_at roll c bs j"
    using assms by (simp_all add: first_cut_len_Some)
  have "cut_at roll c (take L bs @ Z) j \<longleftrightarrow> cut_at roll c bs j" if "j \<le> L" for j
    using cut_at_append [of j "take L bs" roll c Z] cut_at_append [of j "take L bs" roll c "drop L bs"] that L(2) by simp
  then show ?thesis using L by (simp add: first_cut_len_Some)
qed

lemma ref_chunks_replace:
  "ref_chunks roll c X = g @ r \<Longrightarrow> r \<noteq> [] \<Longrightarrow> ref_chunks roll c (concat g @ Z) = g @ ref_chunks roll c Z"
proof (induction g arbitrary: X)
  case (Cons x g)
  have cut: "first_cut_len roll c X = Some (length x)" using ref_chunks_head(1) [of roll c X x "g @ r"] Cons.prems by simp
  have x: "x = take (length x) X" "ref_chunks roll c (drop (length x) X) = g @ r"
    using ref_chunks_cut [OF cut] Cons.prems(1) by simp_all
  have "first_cut_len roll c (x @ concat g @ Z) = Some (length x)"
    using first_cut_len_take [OF cut] x(1) by simp
  then show ?case using Cons.IH [OF x(2) Cons.prems(2)] by (simp add: ref_chunks_cut)
qed simp

lemma boundary_split:
  assumes "boundary roll c (X @ Z) (length X)"
  shows "ref_chunks roll c (X @ Z) = ref_chunks roll c X @ ref_chunks roll c Z"
proof (cases "Z = []")
  case False
  obtain cs where cs: "ref_chunks roll c (X @ Z) = cs @ ref_chunks roll c Z" "length (concat cs) = length X"
    using boundary_chunks [OF assms] by auto
  have "concat cs @ Z = X @ Z" using arg_cong [OF cs(1), of concat] by simp
  then have "concat cs = X" by simp
  moreover have "ref_chunks roll c Z \<noteq> []" using False by (metis concat.simps(1) concat_ref_chunks)
  then have "ref_chunks roll c (concat cs @ []) = cs @ ref_chunks roll c []" by (rule ref_chunks_replace [OF cs(1)])
  ultimately show ?thesis using cs(1) by simp
qed simp

lemma ref_chunks_suffix:
  assumes "ref_chunks roll c X = g @ r"
  shows "X = concat g @ concat r" "ref_chunks roll c (concat r) = r"
proof -
  show X: "X = concat g @ concat r" using arg_cong [OF assms, of concat] by simp
  show "ref_chunks roll c (concat r) = r"
    using ref_chunks_drop [of "length g" roll c X] assms X by simp
qed

section \<open>Windows\<close>

definition stable_len :: "chunker \<Rightarrow> nat \<Rightarrow> bool" where
  "stable_len c n \<longleftrightarrow> 2 * minimum_chunk c \<le> n \<and> n + minimum_chunk c < maximum_chunk c"

text \<open>A gap, the window behind it, and the bytes that replace the window.\<close>

fun replaced_ok :: "chunker \<Rightarrow> bool \<Rightarrow> (bytes list \<times> bytes list \<times> bytes) list \<Rightarrow> bool" where
  "replaced_ok c live [] \<longleftrightarrow> True"
| "replaced_ok c live ((g, w, w') # ps) \<longleftrightarrow> w \<noteq> [] \<and>
     (ps = [] \<and> live \<or> (\<exists>v x y P. w = v @ [x, y] \<and> w' = P @ x @ y \<and> stable_len c (length x) \<and> stable_len c (length y))) \<and>
     replaced_ok c live ps"

context gear_hasher
begin

text \<open>After two stable chunks there is a boundary, whatever is before them and behind them.\<close>

lemma stable_pair_boundary:
  assumes m: "65 \<le> minimum_chunk c" and X: "ref_chunks roll c X = v @ x # y # r" and r: "r \<noteq> []"
    and sx: "stable_len c (length x)" and sy: "stable_len c (length y)"
  shows "boundary roll c (P @ x @ y @ Z) (length (P @ x @ y))"
proof -
  let ?b = "length (concat v)" and ?S = "x @ y @ Z"
  have Xs: "X = concat v @ x @ y @ concat r" using arg_cong [OF X, of concat] by simp
  have tail: "ref_chunks roll c (drop ?b X) = x # y # r" "ref_chunks roll c (drop (?b + length x) X) = y # r"
    using ref_chunks_suffix [of roll c X v "x # y # r"] ref_chunks_suffix [of roll c X "v @ [x]" "y # r"] X by simp_all
  have hitS: "hit roll c ?S p \<longleftrightarrow> hit roll c X (?b + p)" if "64 \<le> p" "p \<le> length x + length y" for p
  proof -
    have "slice ?S (p - 64) p = slice (x @ y @ concat r) (p - 64) p"
      using slice_append_left [of p "x @ y" _ "p - 64"] that by simp
    then have "hit roll c ?S p \<longleftrightarrow> hit roll c (x @ y @ concat r) p" by (simp add: hit_def)
    then show ?thesis using hit_shift [OF that(1), of roll c "concat v" "x @ y @ concat r"] by (simp add: Xs)
  qed
  note lens = sx [unfolded stable_len_def] sy [unfolded stable_len_def]
  have "boundary roll c (P @ ?S) (length P + length x) \<or> boundary roll c (P @ ?S) (length P + (length x + length y))"
  proof (rule resync [OF m])
    show "hit roll c ?S (length x)"
      using chunk_hits(1) [OF m tail(1)] hitS [of "length x"] lens m Xs by simp
    show "hit roll c ?S (length x + length y)"
      using chunk_hits(1) [OF m tail(2)] hitS [of "length x + length y"] lens m r Xs by (simp add: add.assoc)
    show "\<not> hit roll c ?S p" if "length x + minimum_chunk c \<le> p" "p < length x + length y" for p
      using chunk_hits(2) [OF m tail(2), of "?b + p"] hitS [of p] that lens m Xs by simp
  qed (use lens in simp_all)
  then show ?thesis
  proof
    assume b: "boundary roll c (P @ ?S) (length P + length x)"
    have "first_cut_len roll c (drop (?b + length x) X) = Some (length y)" using ref_chunks_head(1) [OF tail(2) r] .
    then have "first_cut_len roll c (y @ Z) = Some (length y)" using first_cut_len_take [of roll c "y @ concat r" "length y" Z] Xs by simp
    then show ?thesis using boundary_cut [OF b, of "length y"] by (simp add: add.assoc)
  qed simp
qed

lemma rechunk:
  assumes m: "65 \<le> minimum_chunk c"
  shows "ref_chunks roll c X = concat (map (\<lambda>(g, w, _). g @ w) ps) @ gap \<Longrightarrow> replaced_ok c live ps \<Longrightarrow> (live \<Longrightarrow> gap = []) \<Longrightarrow>
    ref_chunks roll c (concat (map (\<lambda>(g, _, w'). concat g @ w') ps) @ concat gap) =
      concat (map (\<lambda>(g, _, w'). g @ ref_chunks roll c w') ps) @ gap"
proof (induction ps arbitrary: X)
  case Nil
  then show ?case using ref_chunks_suffix(2) [of roll c X "[]" gap] by simp
next
  case (Cons p ps)
  obtain g w w' where p: "p = (g, w, w')" by (metis prod_cases3)
  let ?r = "concat (map (\<lambda>(g, w, _). g @ w) ps) @ gap" and ?Z = "concat (map (\<lambda>(g, _, w'). concat g @ w') ps) @ concat gap"
  have X: "ref_chunks roll c X = g @ w @ ?r" and w: "w \<noteq> []" and ok: "replaced_ok c live ps" using Cons.prems by (simp_all add: p)
  have Z: "ref_chunks roll c ?Z = concat (map (\<lambda>(g, _, w'). g @ ref_chunks roll c w') ps) @ gap"
    using ref_chunks_suffix(2) [of roll c X "g @ w" ?r] X by (intro Cons.IH [OF _ ok Cons.prems(3)]) simp_all
  have "ref_chunks roll c (w' @ ?Z) = ref_chunks roll c w' @ ref_chunks roll c ?Z"
  proof (cases "?r = []")
    case True
    then have "ps = []" using ok by (cases ps) auto
    then show ?thesis using True by simp
  next
    case False
    then have "\<not> (ps = [] \<and> live)" using Cons.prems(3) by auto
    then obtain v x y P where s: "w = v @ [x, y]" "w' = P @ x @ y" "stable_len c (length x)" "stable_len c (length y)"
      using Cons.prems(2) by (auto simp: p)
    have "boundary roll c (w' @ ?Z) (length w')"
      using stable_pair_boundary [OF m, of X "g @ v" x y ?r P ?Z] X s False by simp
    then show ?thesis by (rule boundary_split)
  qed
  moreover have "ref_chunks roll c (concat g @ w' @ ?Z) = g @ ref_chunks roll c (w' @ ?Z)"
    using w by (intro ref_chunks_replace [OF X]) simp
  ultimately show ?case using Z by (simp add: p)
qed

end

end
