(* ===== verification/Range_Edits.thy ===== *)
theory Range_Edits
  imports Range_Upload Chunk_Windows_Correct Chunking_Edits File_Cleaner_Correct
begin

text \<open>
  What a list of edits means, and that a plan of windows keeps their meaning: the edits are dealt out to the
  windows that contain them, and the chunks of the edited file are those of the gaps and those of the edited
  windows, each cut on its own.
\<close>

section \<open>The edited bytes\<close>

text \<open>The bytes from \<open>a\<close> to \<open>b\<close> of \<open>X\<close> with the edits applied; the positions are those of \<open>X\<close>.\<close>

fun splice :: "bytes \<Rightarrow> nat \<Rightarrow> nat \<Rightarrow> dirty_input list \<Rightarrow> bytes" where
  "splice X a b [] = slice X a b"
| "splice X a b (d # ds) =
     slice X a (unat (di_start d)) @ take (unat (di_new_length d)) (di_reader d) @ splice X (unat (di_end d)) b ds"

definition edited :: "bytes \<Rightarrow> dirty_input list \<Rightarrow> bytes" where
  "edited X ds = splice X 0 (length X) ds"

definition edits_ok :: "nat \<Rightarrow> dirty_input list \<Rightarrow> bool" where
  "edits_ok n ds \<longleftrightarrow> (\<forall>d \<in> set ds. di_start d \<le> di_end d \<and> unat (di_end d) \<le> n) \<and> sorted_wrt (\<lambda>d e. di_end d \<le> di_start e) ds"

lemma edits_ok_Cons:
  "edits_ok n (d # ds) \<longleftrightarrow> unat (di_start d) \<le> unat (di_end d) \<and> unat (di_end d) \<le> n \<and>
     (\<forall>e \<in> set ds. unat (di_end d) \<le> unat (di_start e)) \<and> edits_ok n ds"
  by (auto simp: edits_ok_def word_le_nat_alt)

lemma edits_ok_append: "edits_ok n (ds @ es) \<Longrightarrow> edits_ok n ds \<and> edits_ok n es"
  by (auto simp: edits_ok_def sorted_wrt_append)

lemma edits_ok_Nil [simp]: "edits_ok n []"
  by (simp add: edits_ok_def)

lemma validate_loop_ok:
  "validate_dirty_loop sz i prev ds = Inr () \<Longrightarrow> edits_ok (unat sz) ds \<and> (0 < i \<longrightarrow> (\<forall>d \<in> set ds. unat prev \<le> unat (di_start d)))"
proof (induction ds arbitrary: i prev)
  case (Cons d ds)
  then have d: "unat (di_start d) \<le> unat (di_end d)" "unat (di_end d) \<le> unat sz" "0 < i \<longrightarrow> unat prev \<le> unat (di_start d)"
    and l: "validate_dirty_loop sz (i + 1) (di_end d) ds = Inr ()"
    by (auto simp: word_less_nat_alt split: if_splits)
  then show ?case using Cons.IH [OF l] by (fastforce simp: edits_ok_Cons)
qed simp

lemma slice_join: "a \<le> m \<Longrightarrow> m \<le> b \<Longrightarrow> slice X a m @ slice X m b = slice X a b"
  by (rule slice_split [symmetric])

lemma splice_start:
  "p \<le> a \<Longrightarrow> a \<le> b \<Longrightarrow> \<forall>d \<in> set ds. a \<le> unat (di_start d) \<Longrightarrow> splice X p b ds = slice X p a @ splice X a b ds"
proof (cases ds)
  case (Cons d es)
  moreover assume "p \<le> a" "\<forall>d \<in> set ds. a \<le> unat (di_start d)"
  ultimately have "slice X p (unat (di_start d)) = slice X p a @ slice X a (unat (di_start d))" by (simp add: slice_join)
  then show ?thesis using Cons by simp
qed (simp add: slice_join)

lemma splice_append:
  assumes "\<forall>d \<in> set es. m \<le> unat (di_start d)" and "m \<le> b"
  shows "edits_ok n ds \<Longrightarrow> \<forall>d \<in> set ds. unat (di_end d) \<le> m \<Longrightarrow> p \<le> m \<Longrightarrow> \<forall>d \<in> set ds. p \<le> unat (di_start d) \<Longrightarrow>
    splice X p b (ds @ es) = splice X p m ds @ splice X m b es"
proof (induction ds arbitrary: p)
  case Nil
  then show ?case using splice_start [of p m b es X] assms by simp
next
  case (Cons d ds)
  then show ?case by (simp add: edits_ok_Cons)
qed

section \<open>Edits and windows\<close>

text \<open>The edits that each window gets, and those that are left.\<close>

fun deal_edits :: "u64 \<Rightarrow> chunk_window list \<Rightarrow> dirty_input list \<Rightarrow> dirty_input list list \<times> dirty_input list" where
  "deal_edits sz [] ds = ([], ds)"
| "deal_edits sz (w # ws) ds =
     (let n = length (takeWhile (in_window sz (snd (dirty_byte_range w))) ds);
          (es, left) = deal_edits sz ws (drop n ds)
      in (take n ds # es, left))"

text \<open>No window gets an edit that starts before it.\<close>

definition dealt_inside :: "chunk_window list \<Rightarrow> dirty_input list list \<Rightarrow> bool" where
  "dealt_inside ws es \<longleftrightarrow> list_all2 (\<lambda>w e. \<forall>d \<in> set e. fst (dirty_byte_range w) \<le> di_start d) ws es"

text \<open>An edit inside of a dirty range; one that only inserts is not at its end, unless that is the end of the file.\<close>

definition covered :: "file_range list \<Rightarrow> nat \<Rightarrow> dirty_input \<Rightarrow> bool" where
  "covered rs n d \<longleftrightarrow> (\<exists>r \<in> set rs. fr_start r \<le> di_start d \<and> di_end d \<le> fr_end r \<and> unat (fr_end r) \<le> n \<and>
     (di_start d < fr_end r \<or> unat (di_start d) = n))"

lemma covered_settled:
  assumes c: "covered rs n d" "dirty_ok rs" "di_start d \<le> di_end d" and u: "untouched rs x p" "x < p" "p \<le> n" "n < 2 ^ 64"
  shows "in_window (of_nat n) (of_nat p) d \<longleftrightarrow> unat (di_end d) \<le> x" "\<not> in_window (of_nat n) (of_nat p) d \<Longrightarrow> p \<le> unat (di_start d)"
proof -
  obtain r where r: "r \<in> set rs" "unat (fr_start r) \<le> unat (di_start d)" "unat (di_end d) \<le> unat (fr_end r)" "unat (fr_end r) \<le> n"
    using c(1) by (auto simp: covered_def word_le_nat_alt)
  have r': "unat (fr_start r) < unat (fr_end r)" using c(2) r(1) by (simp add: dirty_ok_def word_less_nat_alt)
  have cut: "unat (fr_end r) \<le> x \<or> p \<le> unat (fr_start r)" using u(1) r(1) by (fastforce simp: untouched_def)
  have un: "unat (of_nat p :: u64) = p" "unat (of_nat n :: u64) = n" using u(3,4) by (simp_all add: u64_of_nat)
  have e: "unat (di_start d) \<le> unat (di_end d)" using c(3) by (simp add: word_le_nat_alt)
  have eqs: "di_start d = di_end d \<longleftrightarrow> unat (di_start d) = unat (di_end d)" "di_start d = of_nat p \<longleftrightarrow> unat (di_start d) = p"
    "(of_nat p :: u64) = of_nat n \<longleftrightarrow> p = n"
    using un by (metis word_unat_eq_iff)+
  have w: "in_window (of_nat n) (of_nat p) d \<longleftrightarrow> (if unat (di_start d) = unat (di_end d)
      then unat (di_start d) < p \<or> unat (di_start d) = p \<and> p = n else unat (di_end d) \<le> p)"
    unfolding in_window_def word_less_nat_alt word_le_nat_alt eqs un ..
  have "(if unat (di_start d) = unat (di_end d) then unat (di_start d) < p \<or> unat (di_start d) = p \<and> p = n else unat (di_end d) \<le> p) \<longleftrightarrow>
      unat (di_end d) \<le> x" "unat (di_end d) \<le> x \<or> p \<le> unat (di_start d)"
    using cut r(2,3,4) r' e u(2) by (simp_all only: split: if_split) linarith+
  then show "in_window (of_nat n) (of_nat p) d \<longleftrightarrow> unat (di_end d) \<le> x" "\<not> in_window (of_nat n) (of_nat p) d \<Longrightarrow> p \<le> unat (di_start d)"
    unfolding w by argo+
qed

lemma covered_gap:
  assumes c: "covered rs n d" "di_start d \<le> di_end d" and u: "untouched rs p a" "a \<le> n" and p: "p \<le> unat (di_start d)"
  shows "a \<le> unat (di_start d)"
proof -
  obtain r where r: "r \<in> set rs" "unat (fr_start r) \<le> unat (di_start d)" "unat (di_end d) \<le> unat (fr_end r)"
    "unat (di_start d) < unat (fr_end r) \<or> unat (di_start d) = n"
    using c(1) by (auto simp: covered_def word_le_nat_alt word_less_nat_alt)
  have "unat (fr_end r) \<le> p \<or> a \<le> unat (fr_start r)" using u(1) r(1) by (fastforce simp: untouched_def)
  then show ?thesis using r c(2) u(2) p by (auto simp: word_le_nat_alt)
qed

lemma in_window_end:
  assumes "di_start d \<le> di_end d" and "di_end d \<le> sz"
  shows "in_window sz sz d"
  using assms by (auto simp: in_window_def)

section \<open>Windows of bytes\<close>

abbreviation bytes_node :: "keyed_hash \<Rightarrow> bytes \<Rightarrow> node" where
  "bytes_node kh b \<equiv> chunk_node (chunk_new kh b)"

abbreviation bytes_window :: "keyed_hash \<Rightarrow> bytes list \<times> bytes list \<Rightarrow> node list \<times> node list" where
  "bytes_window kh \<equiv> map_prod (map (bytes_node kh)) (map (bytes_node kh))"

lemma file_nodes_eq: "file_nodes kh roll d = map (bytes_node kh) (ref_chunks roll demo_chunker d)"
  by (simp add: file_nodes_def file_chunks_def)

lemma node_total_bytes: "length (concat bs) < 2 ^ 64 \<Longrightarrow> node_total (map (bytes_node kh) bs) = length (concat bs)"
proof (induction bs)
  case (Cons b bs)
  then have "unat (snd (bytes_node kh b)) = length b" by (simp add: chunk_node_def chunk_new_def u64_of_nat)
  then show ?case using Cons by simp
qed simp

text \<open>A plan for the nodes of some chunks cuts the chunks themselves.\<close>

lemma plan_bytes:
  "map (bytes_node kh) bs = flat_windows ps @ gap \<Longrightarrow>
     \<exists>qs r. bs = concat (map (\<lambda>(g, w). g @ w) qs) @ r \<and> ps = map (bytes_window kh) qs \<and> gap = map (bytes_node kh) r"
proof (induction ps arbitrary: bs)
  case Nil
  then show ?case by (intro exI [of _ "[]"] exI [of _ bs]) simp
next
  case (Cons p ps)
  obtain g w where p: "p = (g, w)" by (cases p)
  obtain b1 b2 b3 where b: "bs = b1 @ b2 @ b3" "map (bytes_node kh) b1 = g" "map (bytes_node kh) b2 = w" "map (bytes_node kh) b3 = flat_windows ps @ gap"
  proof -
    have "map (bytes_node kh) bs = g @ w @ flat_windows ps @ gap" using Cons.prems by (simp add: p)
    from iffD1 [OF map_eq_append_conv this] obtain b1 c where 1: "bs = b1 @ c" "g = map (bytes_node kh) b1"
      and c: "w @ flat_windows ps @ gap = map (bytes_node kh) c" by blast
    from iffD1 [OF map_eq_append_conv c [symmetric]] obtain b2 b3 where 2: "c = b2 @ b3" "w = map (bytes_node kh) b2"
      "flat_windows ps @ gap = map (bytes_node kh) b3" by blast
    show thesis by (rule that [of b1 b2 b3]) (simp_all only: 1 2)
  qed
  from Cons.IH [OF b(4)] obtain qs r where q: "b3 = concat (map (\<lambda>(g, w). g @ w) qs) @ r" "ps = map (bytes_window kh) qs" "gap = map (bytes_node kh) r"
    by blast
  show ?case using b q by (intro exI [of _ "(b1, b2) # qs"] exI [of _ r]) (simp add: p)
qed

abbreviation window_of :: "file_range \<Rightarrow> chunk_window" where
  "window_of r \<equiv> \<lparr>dirty_byte_range = (fr_start r, fr_end r)\<rparr>"

text \<open>The windows with the bytes that they become.\<close>

fun replacements ::
  "bytes \<Rightarrow> nat \<Rightarrow> (bytes list \<times> bytes list) list \<Rightarrow> dirty_input list list \<Rightarrow> (bytes list \<times> bytes list \<times> bytes) list" where
  "replacements X p ((g, w) # qs) (e # es) =
     (let a = p + length (concat g); b = a + length (concat w) in (g, w, splice X a b e) # replacements X b qs es)"
| "replacements X p _ _ = []"

lemma stable_size_len: "is_stable_chunk_size n \<Longrightarrow> stable_len demo_chunker n"
  by (simp add: is_stable_chunk_size_def stable_len_def demo_chunker_def TARGET_CHUNK_SIZE_def MINIMUM_CHUNK_DIVISOR_def
      MAXIMUM_CHUNK_MULTIPLIER_def)

lemma settled_bytes:
  assumes s: "settled rs a (map (bytes_node kh) w)" and fit: "a + length (concat w) < 2 ^ 64"
  obtains v x y where "w = v @ [x, y]" "stable_len demo_chunker (length x)" "stable_len demo_chunker (length y)"
    "untouched rs (a + length (concat v)) (a + length (concat w))"
proof -
  obtain v' x' y' where n: "map (bytes_node kh) w = v' @ [x', y']" "is_stable_chunk_size (unat (snd x'))" "is_stable_chunk_size (unat (snd y'))"
    "untouched rs (a + node_total v') (a + node_total (map (bytes_node kh) w))"
    using s unfolding settled_def by auto
  obtain v x y where w: "w = v @ [x, y]" "v' = map (bytes_node kh) v" "x' = bytes_node kh x" "y' = bytes_node kh y"
    using n(1) by (auto simp: map_eq_append_conv map_eq_Cons_conv)
  have "unat (snd (bytes_node kh z)) = length z" if "z \<in> {x, y}" for z
    using that fit by (auto simp: w(1) chunk_node_def chunk_new_def u64_of_nat)
  then have "stable_len demo_chunker (length x)" "stable_len demo_chunker (length y)"
    using n(2,3) stable_size_len by (simp_all add: w)
  moreover have "node_total v' = length (concat v)" "node_total (map (bytes_node kh) w) = length (concat w)"
    using node_total_bytes [of v kh] node_total_bytes [of w kh] fit by (simp_all add: w)
  ultimately show thesis using that [OF w(1)] n(4) by simp
qed

text \<open>The edits that a window takes, and what it leaves.\<close>

lemma take_edits:
  fixes n :: nat
  assumes ok: "edits_ok n ds" and cov: "\<forall>d \<in> set ds. covered rs n d" and rs: "dirty_ok rs"
    and u: "untouched rs x b" "x < b" "b \<le> n" "n < 2 ^ 64"
  defines "T \<equiv> takeWhile (in_window (of_nat n) (of_nat b)) ds" and "D \<equiv> dropWhile (in_window (of_nat n) (of_nat b)) ds"
  shows "\<forall>d \<in> set T. unat (di_end d) \<le> x" "\<forall>d \<in> set D. b \<le> unat (di_start d)"
proof -
  have d: "covered rs n d \<and> di_start d \<le> di_end d" if "d \<in> set ds" for d using cov ok that by (auto simp: edits_ok_def)
  have T: "d \<in> set ds \<and> in_window (of_nat n) (of_nat b) d" if "d \<in> set T" for d using that unfolding T_def by (rule set_takeWhileD)
  then show "\<forall>d \<in> set T. unat (di_end d) \<le> x" using covered_settled(1) [OF _ rs _ u] d by blast
  show "\<forall>d \<in> set D. b \<le> unat (di_start d)"
  proof (cases D)
    case (Cons e es)
    then have e: "e \<in> set ds" "\<not> in_window (of_nat n) (of_nat b) e"
      unfolding D_def by (metis list.set_intros(1) set_dropWhileD) (metis Cons D_def dropWhile_eq_Cons_conv)
    have "b \<le> unat (di_start e)" using covered_settled(2) [OF _ rs _ u] d e by blast
    moreover have "edits_ok n (e # es)" using edits_ok_append [of n T D] ok Cons by (simp add: T_def D_def)
    ultimately show ?thesis using Cons by (auto simp: edits_ok_Cons)
  qed simp
qed

lemma deal_edits_Cons:
  "deal_edits sz (\<lparr>dirty_byte_range = (a, b)\<rparr> # ws) ds =
     (case deal_edits sz ws (dropWhile (in_window sz b) ds) of (es, left) \<Rightarrow> (takeWhile (in_window sz b) ds # es, left))"
  by (simp add: Let_def takeWhile_eq_take [symmetric] dropWhile_eq_drop [symmetric])

declare deal_edits.simps(2) [simp del]

lemma deal_edits_concat: "deal_edits sz ws ds = (es, left) \<Longrightarrow> ds = concat es @ left \<and> length es = length ws"
proof (induction ws arbitrary: ds es)
  case (Cons w ws)
  obtain a b where w: "w = \<lparr>dirty_byte_range = (a, b)\<rparr>" by (metis chunk_window.cases surj_pair)
  obtain es' where es: "es = takeWhile (in_window sz b) ds # es'" "deal_edits sz ws (dropWhile (in_window sz b) ds) = (es', left)"
    using Cons.prems by (auto simp: w deal_edits_Cons split: prod.splits)
  then have "dropWhile (in_window sz b) ds = concat es' @ left \<and> length es' = length ws" using Cons.IH by blast
  then show ?case using takeWhile_dropWhile_id [of "in_window sz b" ds] by (simp add: es(1))
qed simp

lemma plan_edits:
  assumes n: "length X < 2 ^ 64" and rs: "dirty_ok rs"
  shows "X = pre @ concat (concat (map (\<lambda>(g, w). g @ w) qs)) @ concat r \<Longrightarrow> p = length pre \<Longrightarrow>
    windows_ok rs live p (map (bytes_window kh) qs) \<Longrightarrow> (live \<Longrightarrow> r = []) \<Longrightarrow> edits_ok (length X) ds \<Longrightarrow>
    \<forall>d \<in> set ds. covered rs (length X) d \<and> p \<le> unat (di_start d) \<Longrightarrow>
    deal_edits (of_nat (length X)) (map window_of (window_ranges p (map (bytes_window kh) qs))) ds = (es, []) \<Longrightarrow>
    splice X p (length X) ds = concat (map (\<lambda>(g, _, w'). concat g @ w') (replacements X p qs es)) @ concat r \<and>
    replaced_ok demo_chunker live (replacements X p qs es) \<and> map (\<lambda>(g, w, _). (g, w)) (replacements X p qs es) = qs \<and>
    dealt_inside (map window_of (window_ranges p (map (bytes_window kh) qs))) es"
proof (induction qs arbitrary: pre p ds es)
  case Nil
  then have "splice X p (length X) ds = concat r" by (simp add: slice_def)
  then show ?case using Nil by (simp add: dealt_inside_def)
next
  case (Cons q qs)
  obtain g w where q: "q = (g, w)" by (cases q)
  define a b where "a = p + length (concat g)" and "b = a + length (concat w)"
  let ?n = "length X" and ?R = "concat (concat (map (\<lambda>(g, w). g @ w) qs)) @ concat r"
  have X: "X = pre @ concat g @ concat w @ ?R" using Cons.prems(1) by (simp add: q)
  have le: "p \<le> a" "a \<le> b" "b \<le> ?n" using arg_cong [OF X, of length] Cons.prems(2) by (simp_all add: a_def b_def)
  have tot: "node_total (map (bytes_node kh) g) = length (concat g)" "node_total (map (bytes_node kh) w) = length (concat w)"
    using node_total_bytes [of g kh] node_total_bytes [of w kh] le n by (simp_all add: a_def b_def)
  have ok: "untouched rs p a" "w \<noteq> []" "qs = [] \<and> live \<or> settled rs a (map (bytes_node kh) w)" "windows_ok rs live b (map (bytes_window kh) qs)"
    using Cons.prems(3) by (auto simp: q tot a_def b_def)
  let ?T = "takeWhile (in_window (of_nat ?n) (of_nat b)) ds" and ?D = "dropWhile (in_window (of_nat ?n) (of_nat b)) ds"
  have wr: "map window_of (window_ranges p (map (bytes_window kh) (q # qs))) =
      \<lparr>dirty_byte_range = (of_nat a, of_nat b)\<rparr> # map window_of (window_ranges b (map (bytes_window kh) qs))"
    by (simp add: q tot a_def b_def file_range_new_def)
  obtain es' where es: "es = ?T # es'"
    "deal_edits (of_nat ?n) (map window_of (window_ranges b (map (bytes_window kh) qs))) ?D = (es', [])"
    using Cons.prems(7) unfolding wr deal_edits_Cons by (auto split: prod.splits)
  have T: "edits_ok ?n ?T" "edits_ok ?n ?D" using edits_ok_append [of ?n ?T ?D] Cons.prems(5) by simp_all
  have start: "\<forall>d \<in> set ds. a \<le> unat (di_start d)"
    using covered_gap [OF _ _ ok(1)] le Cons.prems(5,6) by (auto simp: edits_ok_def)
  then have startT: "\<forall>d \<in> set ?T. a \<le> unat (di_start d)" by (meson set_takeWhileD)
  have slices: "slice X p a = concat g" "slice X a b = concat w" using Cons.prems(2) by (simp_all add: X slice_def a_def b_def)
  have head: "splice X p ?n ds = concat g @ splice X a ?n (?T @ ?D)"
    using splice_start [of p a ?n ds X] start le slices by simp
  have r: "replacements X p (q # qs) es = (g, w, splice X a b ?T) # replacements X b qs es'"
    by (simp add: q es(1) a_def b_def Let_def)
  have step: ?case if D: "\<forall>d \<in> set ?D. b \<le> unat (di_start d)" and T_end: "\<forall>d \<in> set ?T. unat (di_end d) \<le> b"
    and w': "qs = [] \<and> live \<or> (\<exists>v x y P. w = v @ [x, y] \<and> splice X a b ?T = P @ x @ y \<and> stable_len demo_chunker (length x) \<and> stable_len demo_chunker (length y))"
  proof -
    have "\<forall>d \<in> set ?D. covered rs ?n d \<and> b \<le> unat (di_start d)" using D Cons.prems(6) by (meson set_dropWhileD)
    from Cons.IH [OF _ _ ok(4) Cons.prems(4) T(2) this es(2), of "pre @ concat g @ concat w"]
    have IH: "splice X b ?n ?D = concat (map (\<lambda>(g, _, w'). concat g @ w') (replacements X b qs es')) @ concat r"
      "replaced_ok demo_chunker live (replacements X b qs es')" "map (\<lambda>(g, w, _). (g, w)) (replacements X b qs es') = qs"
      "dealt_inside (map window_of (window_ranges b (map (bytes_window kh) qs))) es'"
      using Cons.prems(2) by (auto simp: X a_def b_def)
    have "splice X a ?n (?T @ ?D) = splice X a b ?T @ splice X b ?n ?D"
      by (rule splice_append [OF D le(3) T(1) T_end le(2) startT])
    moreover have "qs = [] \<Longrightarrow> replacements X b qs es' = []" by simp
    moreover have "dealt_inside (map window_of (window_ranges p (map (bytes_window kh) (q # qs)))) es"
      using IH(4) startT le n unfolding wr es(1) dealt_inside_def by (simp add: word_le_nat_alt u64_of_nat)
    ultimately show ?thesis using head IH(1-3) w' ok(2) unfolding r by (auto simp: q es(1))
  qed
  show ?case
  proof (cases "qs = [] \<and> live")
    case True
    then have "b = ?n" using Cons.prems(2,4) arg_cong [OF X, of length] by (simp add: a_def b_def)
    then have "in_window (of_nat ?n) (of_nat b) d" if "d \<in> set ds" for d
      using that Cons.prems(5) n by (auto simp: edits_ok_def word_le_nat_alt u64_of_nat intro!: in_window_end)
    then have "?T = ds" "?D = []" by (simp_all add: takeWhile_eq_all_conv dropWhile_eq_Nil_conv)
    then have "\<forall>d \<in> set ?D. b \<le> unat (di_start d)" "\<forall>d \<in> set ?T. unat (di_end d) \<le> b"
      using Cons.prems(5) \<open>b = ?n\<close> by (simp_all only: edits_ok_def) simp_all
    then show ?thesis using True by (intro step) blast+
  next
    case False
    obtain v x y where v: "w = v @ [x, y]" "stable_len demo_chunker (length x)" "stable_len demo_chunker (length y)"
      "untouched rs (a + length (concat v)) b"
    proof (rule settled_bytes [of rs a kh w])
      show "settled rs a (map (bytes_node kh) w)" using ok(3) False by blast
      show "a + length (concat w) < 2 ^ 64" using le(3) n by (simp add: b_def)
    qed (use that in \<open>simp add: b_def\<close>)
    have x: "a + length (concat v) < b" "slice X (a + length (concat v)) b = x @ y"
    proof -
      show "a + length (concat v) < b" using v(1,3) by (auto simp: b_def stable_len_def demo_chunker_def)
      show "slice X (a + length (concat v)) b = x @ y" using v(1) Cons.prems(2) by (simp add: X slice_def a_def b_def)
    qed
    have "\<forall>d \<in> set ds. covered rs ?n d" using Cons.prems(6) by blast
    note te = take_edits [OF Cons.prems(5) this rs v(4) x(1) le(3) n]
    have T_x: "\<forall>d \<in> set ?T. unat (di_end d) \<le> a + length (concat v)" and D: "\<forall>d \<in> set ?D. b \<le> unat (di_start d)"
      by (fact te)+
    have "splice X a b (?T @ []) = splice X a (a + length (concat v)) ?T @ x @ y"
      using splice_append [of "[]" "a + length (concat v)" b ?n ?T a X] T(1) T_x startT x by simp
    then have w': "\<exists>v x y P. w = v @ [x, y] \<and> splice X a b ?T = P @ x @ y \<and> stable_len demo_chunker (length x) \<and> stable_len demo_chunker (length y)"
      using v(1-3) by (metis append.right_neutral)
    have "\<forall>d \<in> set ?T. unat (di_end d) \<le> b" using T_x x(1) by (meson less_imp_le order.trans)
    from step [OF D this disjI2 [OF w']] show ?thesis .
  qed
qed

end
