(* ===== verification/Range_Snapping.thy ===== *)
theory Range_Snapping
  imports Range_Edits
begin

text \<open>
  The ranges that are asked for: each edit is widened to the segments around it, and ranges that overlap or
  meet are joined. The result is a list of ranges that are apart from each other, and every edit is inside
  of one of them.
\<close>

section \<open>Segment starts\<close>

definition seg_total :: "file_data_sequence_entry list \<Rightarrow> nat" where
  "seg_total segs = sum_list (map (\<lambda>e. unat (fe_unpacked_segment_bytes e)) segs)"

lemma seg_total_simps [simp]:
  "seg_total [] = 0" "seg_total (e # segs) = unat (fe_unpacked_segment_bytes e) + seg_total segs"
  "seg_total (xs @ ys) = seg_total xs + seg_total ys"
  by (simp_all add: seg_total_def)

lemma length_seg_ends [simp]: "length (seg_ends acc segs) = length segs"
  by (induction segs arbitrary: acc) (simp_all add: Let_def)

lemma unat_add_seg:
  fixes acc :: u64
  assumes "unat acc + unat (n :: u32) < 2 ^ 64"
  shows "unat (acc + ucast n) = unat acc + unat n"
  using assms by (simp add: unat_word_ariths unsigned_ucast_eq take_bit_eq_mod)

lemma seg_ends_nth:
  "unat acc + seg_total segs < 2 ^ 64 \<Longrightarrow> i \<le> length segs \<Longrightarrow> unat ((acc # seg_ends acc segs) ! i) = unat acc + seg_total (take i segs)"
proof (induction segs arbitrary: acc i)
  case (Cons e segs)
  let ?a = "acc + ucast (fe_unpacked_segment_bytes e) :: u64"
  have a: "unat ?a = unat acc + unat (fe_unpacked_segment_bytes e)" using Cons.prems(1) by (intro unat_add_seg) simp
  show ?case
  proof (cases i)
    case (Suc j)
    then show ?thesis using Cons.IH [of ?a j] Cons.prems a by (simp add: Let_def)
  qed simp
qed simp

definition full_segments :: "mdb_file_info \<Rightarrow> bool" where
  "full_segments mdb \<longleftrightarrow> seg_total (segments mdb) < 2 ^ 64 \<and> (\<forall>e \<in> set (segments mdb). 0 < unat (fe_unpacked_segment_bytes e))"

lemma seg_total_take_less:
  assumes "\<forall>e \<in> set segs. 0 < unat (fe_unpacked_segment_bytes e)" and "i < j" and "j \<le> length segs"
  shows "seg_total (take i segs) < seg_total (take j segs)"
proof -
  have "take j segs = take i segs @ drop i (take j segs)" using assms(2) by (metis append_take_drop_id min.absorb1 less_imp_le take_take)
  moreover have "drop i (take j segs) \<noteq> []" using assms by simp
  then obtain e es where "drop i (take j segs) = e # es" by (cases "drop i (take j segs)") auto
  moreover from this have "e \<in> set segs" by (metis in_set_dropD in_set_takeD list.set_intros(1))
  ultimately show ?thesis using assms(1) by simp
qed

lemma seg_starts:
  assumes "full_segments mdb"
  shows "length (seg_byte_starts_of mdb) = length (segments mdb) + 1"
    and "i \<le> length (segments mdb) \<Longrightarrow> unat (seg_byte_starts_of mdb ! i) = seg_total (take i (segments mdb))"
    and "i < j \<Longrightarrow> j \<le> length (segments mdb) \<Longrightarrow> seg_byte_starts_of mdb ! i < seg_byte_starts_of mdb ! j"
proof -
  show "length (seg_byte_starts_of mdb) = length (segments mdb) + 1" by (simp add: seg_byte_starts_of_def)
  have n: "unat (seg_byte_starts_of mdb ! i) = seg_total (take i (segments mdb))" if "i \<le> length (segments mdb)" for i
    using seg_ends_nth [of 0 "segments mdb" i] assms that by (simp add: full_segments_def seg_byte_starts_of_def)
  then show "i \<le> length (segments mdb) \<Longrightarrow> unat (seg_byte_starts_of mdb ! i) = seg_total (take i (segments mdb))" .
  show "seg_byte_starts_of mdb ! i < seg_byte_starts_of mdb ! j" if "i < j" "j \<le> length (segments mdb)"
    using n [of i] n [of j] seg_total_take_less [of "segments mdb" i j] assms that by (simp add: full_segments_def word_less_nat_alt)
qed

lemma unat_file_size: "full_segments mdb \<Longrightarrow> unat (file_size mdb) = seg_total (segments mdb)"
proof -
  have "unat acc + seg_total segs < 2 ^ 64 \<Longrightarrow> unat (acc + sum_list (map (\<lambda>e. ucast (fe_unpacked_segment_bytes e)) segs) :: u64) = unat acc + seg_total segs" for acc segs
  proof (induction segs arbitrary: acc)
    case (Cons e segs)
    let ?a = "acc + ucast (fe_unpacked_segment_bytes e) :: u64"
    have "unat ?a = unat acc + unat (fe_unpacked_segment_bytes e)" using Cons.prems by (intro unat_add_seg) simp
    then show ?case using Cons.IH [of ?a] Cons.prems by (simp add: add.assoc)
  qed simp
  from this [of 0 "segments mdb"] show "full_segments mdb \<Longrightarrow> unat (file_size mdb) = seg_total (segments mdb)"
    by (simp add: file_size_def full_segments_def)
qed

section \<open>Snapping\<close>

lemma snap_start:
  assumes "snap_to_segment_start S b = Some s" and "S \<noteq> []" and "hd S \<le> b"
  shows "s \<le> b"
proof -
  let ?i = "length (takeWhile (\<lambda>s. s \<le> b) S)"
  have "0 < ?i" using assms(2,3) by (cases S) auto
  then have "takeWhile (\<lambda>s. s \<le> b) S ! (?i - 1) \<le> b" by (metis (mono_tags, lifting) diff_less nth_mem set_takeWhileD zero_less_one)
  then show ?thesis
    using assms(1) \<open>0 < ?i\<close> takeWhile_nth [of "?i - 1" "\<lambda>s. s \<le> b" S] by (auto simp: snap_to_segment_start_def Let_def split: if_splits)
qed

lemma snap_end:
  assumes "snap_to_segment_end S b = Some e"
  shows "b \<le> e" and "e \<in> set S"
proof -
  let ?i = "length (takeWhile (\<lambda>s. s < b) S)"
  have "?i < length S" "e = S ! ?i" using assms by (auto simp: snap_to_segment_end_def Let_def split: if_splits)
  then show "b \<le> e" "e \<in> set S" using nth_length_takeWhile [of "\<lambda>s. s < b" S] by auto
qed

text \<open>The range of an edit.\<close>

definition range_of_edit :: "u64 \<Rightarrow> dirty_input \<Rightarrow> u64 \<times> u64 \<Rightarrow> bool" where
  "range_of_edit sz d r \<longleftrightarrow> fst r < snd r \<and> snd r \<le> sz \<and> fst r \<le> di_start d \<and> di_end d \<le> snd r \<and>
     (di_start d < snd r \<or> di_start d = sz)"

lemma snap_input_ok:
  assumes full: "full_segments mdb" and sz: "file_size mdb = sz" and d: "di_start d \<le> di_end d" "di_end d \<le> sz"
    and op: "snap_input (seg_byte_starts_of mdb) sz d = Some r"
  shows "range_of_edit sz d r"
proof -
  let ?S = "seg_byte_starts_of mdb" and ?n = "length (segments mdb)"
  have S: "?S \<noteq> []" "hd ?S = 0" "length ?S = ?n + 1" by (simp_all add: seg_byte_starts_of_def)
  have last: "?S ! ?n = sz" using seg_starts(2) [OF full, of ?n] unat_file_size [OF full] sz by (simp add: word_unat_eq_iff)
  have le: "e \<le> sz" if e: "e \<in> set ?S" for e
  proof -
    obtain i where "i \<le> ?n" "e = ?S ! i" using e S(3) by (auto simp: in_set_conv_nth less_Suc_eq_le)
    then show ?thesis using seg_starts(3) [OF full, of i ?n] last by (cases "i = ?n") auto
  qed
  have start: "s \<le> b" if "snap_to_segment_start ?S b = Some s" for s b using snap_start [OF that S(1)] S(2) by simp
  consider (app) "di_start d = di_end d" "di_start d = sz" | (ins) "di_start d = di_end d" "di_start d < sz" | (rep) "di_start d < di_end d"
    using d by fastforce
  then show ?thesis
  proof cases
    case app
    then have "?n \<noteq> 0" "r = (?S ! (?n - 1), ?S ! ?n)" using op S(3) by (auto simp: snap_input_def Let_def split: if_splits)
    then show ?thesis using seg_starts(3) [OF full, of "?n - 1" ?n] last app by (simp add: range_of_edit_def)
  next
    case ins
    then obtain s e where r: "snap_to_segment_start ?S (di_start d) = Some s" "snap_to_segment_end ?S (di_start d + 1) = Some e" "r = (s, e)"
      using op by (auto simp: snap_input_def Let_def bind_eq_Some_conv split: if_splits)
    have "unat (di_start d) + 1 < 2 ^ 64" using ins(2) unsigned_less [of sz, where ?'a = nat] by (simp add: word_less_nat_alt)
    then have "unat (di_start d + 1) = unat (di_start d) + 1" by (simp add: unat_word_ariths)
    then have "di_start d < e" using snap_end(1) [OF r(2)] by (simp add: word_le_nat_alt word_less_nat_alt)
    then show ?thesis using start [OF r(1)] le [OF snap_end(2) [OF r(2)]] ins by (auto simp: range_of_edit_def r(3))
  next
    case rep
    then obtain s e where r: "snap_to_segment_start ?S (di_start d) = Some s" "snap_to_segment_end ?S (di_end d) = Some e" "r = (s, e)"
      using op by (auto simp: snap_input_def Let_def bind_eq_Some_conv split: if_splits)
    then show ?thesis using start [OF r(1)] snap_end(1) [OF r(2)] le [OF snap_end(2) [OF r(2)]] rep by (auto simp: range_of_edit_def)
  qed
qed

lemma snap_inputs_ok:
  assumes "full_segments mdb" and "file_size mdb = sz"
  shows "edits_ok (unat sz) ds \<Longrightarrow> snap_inputs (seg_byte_starts_of mdb) sz ds = Some rs \<Longrightarrow> list_all2 (range_of_edit sz) ds rs"
proof (induction ds arbitrary: rs)
  case (Cons d ds)
  then obtain r rs' where r: "rs = r # rs'" "snap_input (seg_byte_starts_of mdb) sz d = Some r" "snap_inputs (seg_byte_starts_of mdb) sz ds = Some rs'"
    by (auto simp: bind_eq_Some_conv)
  have "di_start d \<le> di_end d" "di_end d \<le> sz" "edits_ok (unat sz) ds" using Cons.prems(1) by (simp_all add: edits_ok_Cons word_le_nat_alt)
  then show ?case using Cons.IH r snap_input_ok [OF assms] by simp
qed simp

section \<open>Joining ranges\<close>

definition apart :: "u64 \<Rightarrow> (u64 \<times> u64) list \<Rightarrow> bool" where
  "apart sz rs \<longleftrightarrow> (\<forall>r \<in> set rs. fst r < snd r \<and> snd r \<le> sz) \<and> sorted_wrt (\<lambda>x y. snd x < fst y) rs"

definition inside :: "u64 \<times> u64 \<Rightarrow> u64 \<times> u64 \<Rightarrow> bool" where
  "inside r q \<longleftrightarrow> fst q \<le> fst r \<and> snd r \<le> snd q"

lemma coalesce_step_ok:
  assumes acc: "apart sz acc" and r: "fst r < snd r" "snd r \<le> sz" and s: "acc \<noteq> [] \<Longrightarrow> fst (last acc) \<le> fst r"
  shows "apart sz (coalesce_step acc r)" "\<forall>x \<in> insert r (set acc). \<exists>q \<in> set (coalesce_step acc r). inside x q"
    "coalesce_step acc r \<noteq> []" "fst (last (coalesce_step acc r)) \<le> fst r"
proof -
  have all: "apart sz (coalesce_step acc r) \<and> (\<forall>x \<in> insert r (set acc). \<exists>q \<in> set (coalesce_step acc r). inside x q) \<and>
    coalesce_step acc r \<noteq> [] \<and> fst (last (coalesce_step acc r)) \<le> fst r"
  proof (cases "acc = []")
    case True
    then show ?thesis using r by (simp add: coalesce_step_def apart_def inside_def)
  next
    case False
    then obtain as l where l: "acc = as @ [l]" by (metis append_butlast_last_id)
    have a: "apart sz as" "\<forall>x \<in> set as. snd x < fst l" "fst l < snd l" "snd l \<le> sz" "fst l \<le> fst r"
      using acc s by (simp_all add: l apart_def sorted_wrt_append)
    show ?thesis
    proof (cases "fst r \<le> snd l")
      case True
      then have "coalesce_step acc r = as @ [(fst l, max (snd l) (snd r))]" by (simp add: coalesce_step_def l)
      then show ?thesis using a r by (auto simp: l apart_def inside_def sorted_wrt_append less_max_iff_disj)
    next
      case False
      then have "coalesce_step acc r = acc @ [r]" by (simp add: coalesce_step_def l)
      moreover have "snd x < fst r" if "x \<in> set as" for x using a(2,3) that False by fastforce
      ultimately show ?thesis using a r False acc by (auto simp: l apart_def inside_def sorted_wrt_append)
    qed
  qed
  then show "apart sz (coalesce_step acc r)" "\<forall>x \<in> insert r (set acc). \<exists>q \<in> set (coalesce_step acc r). inside x q"
    "coalesce_step acc r \<noteq> []" "fst (last (coalesce_step acc r)) \<le> fst r" by blast+
qed

lemma inside_trans: "inside a b \<Longrightarrow> inside b c \<Longrightarrow> inside a c"
  by (auto simp: inside_def)

lemma coalesce_loop:
  "sorted (map fst rs) \<Longrightarrow> \<forall>r \<in> set rs. fst r < snd r \<and> snd r \<le> sz \<Longrightarrow> apart sz acc \<Longrightarrow>
     (acc \<noteq> [] \<Longrightarrow> \<forall>r \<in> set rs. fst (last acc) \<le> fst r) \<Longrightarrow>
     apart sz (foldl coalesce_step acc rs) \<and> (\<forall>x \<in> set rs \<union> set acc. \<exists>q \<in> set (foldl coalesce_step acc rs). inside x q)"
proof (induction rs arbitrary: acc)
  case Nil
  then show ?case by (auto simp: inside_def)
next
  case (Cons r rs)
  note st = coalesce_step_ok [of sz acc r]
  have p: "apart sz (coalesce_step acc r)" "\<forall>x \<in> insert r (set acc). \<exists>q \<in> set (coalesce_step acc r). inside x q" "fst (last (coalesce_step acc r)) \<le> fst r"
    using st Cons.prems by auto
  have "apart sz (foldl coalesce_step (coalesce_step acc r) rs) \<and>
      (\<forall>x \<in> set rs \<union> set (coalesce_step acc r). \<exists>q \<in> set (foldl coalesce_step (coalesce_step acc r) rs). inside x q)"
  proof (rule Cons.IH)
    show "\<forall>x \<in> set rs. fst (last (coalesce_step acc r)) \<le> fst x" using p(3) Cons.prems(1) by (auto intro: order.trans)
  qed (use Cons.prems p in auto)
  then show ?case using p(2) inside_trans by (simp only: foldl_Cons list.set) blast
qed

lemma coalesce_ok:
  assumes "\<forall>r \<in> set rs. fst r < snd r \<and> snd r \<le> sz"
  shows "apart sz (coalesce rs)" "r \<in> set rs \<Longrightarrow> \<exists>q \<in> set (coalesce rs). inside r q"
proof -
  have "apart sz []" by (simp add: apart_def)
  then have "apart sz (coalesce rs) \<and> (\<forall>x \<in> set (sort_key fst rs) \<union> set []. \<exists>q \<in> set (coalesce rs). inside x q)"
    unfolding coalesce_def using assms by (intro coalesce_loop) simp_all
  then show "apart sz (coalesce rs)" "r \<in> set rs \<Longrightarrow> \<exists>q \<in> set (coalesce rs). inside r q" by simp_all
qed

section \<open>The query\<close>

definition query_of :: "(u64 \<times> u64) list \<Rightarrow> file_range list" where
  "query_of rs = map (\<lambda>(s, e). file_range_new s e) rs"

lemma query_ok:
  assumes full: "full_segments mdb" and sz: "file_size mdb = sz" and ds: "edits_ok (unat sz) ds"
    and op: "snap_inputs (seg_byte_starts_of mdb) sz ds = Some rs"
  defines "q \<equiv> query_of (coalesce rs)"
  shows "dirty_ok q" "clamp_dirty_ranges sz q = q" "\<forall>d \<in> set ds. covered q (unat sz) d"
proof -
  have l: "list_all2 (range_of_edit sz) ds rs" by (rule snap_inputs_ok [OF full sz ds op])
  then have rs: "\<forall>r \<in> set rs. fst r < snd r \<and> snd r \<le> sz"
    using list_all2_sets(2) [OF l] by (fastforce simp: range_of_edit_def)
  note c = coalesce_ok [OF rs]
  have ap: "\<forall>r \<in> set (coalesce rs). fst r < snd r \<and> snd r \<le> sz" "sorted_wrt (\<lambda>x y. snd x < fst y) (coalesce rs)"
    using c(1) by (simp_all add: apart_def)
  have "sorted_wrt (\<lambda>x y. snd x \<le> fst y) (coalesce rs)"
    by (rule sorted_wrt_mono_rel [OF _ ap(2)]) (rule less_imp_le)
  then show "dirty_ok q"
    using ap(1) by (simp add: q_def query_of_def dirty_ok_def file_range_new_def sorted_wrt_map case_prod_beta)
  have "map (\<lambda>r. file_range_new (fr_start r) (min (fr_end r) sz)) q = q"
    using ap(1) by (simp add: q_def query_of_def file_range_new_def case_prod_beta)
  then show "clamp_dirty_ranges sz q = q"
    using ap(1) by (simp add: clamp_dirty_ranges_def) (fastforce simp: q_def query_of_def file_range_new_def intro!: filter_True)
  show "\<forall>d \<in> set ds. covered q (unat sz) d"
  proof
    fix d assume "d \<in> set ds"
    then obtain r where r: "r \<in> set rs" "range_of_edit sz d r" using list_all2_sets(1) [OF l] by blast
    then obtain y where y: "y \<in> set (coalesce rs)" "inside r y" using c(2) by blast
    then have "snd y \<le> sz" using ap(1) by blast
    moreover have "file_range_new (fst y) (snd y) \<in> set q" using y(1) by (simp add: q_def query_of_def case_prod_beta)
    ultimately show "covered q (unat sz) d"
      using r(2) y(2) unfolding covered_def
      by (intro bexI [of _ "file_range_new (fst y) (snd y)"]) (auto simp: file_range_new_def inside_def range_of_edit_def word_le_nat_alt word_less_nat_alt)
  qed
qed

end
