(* ===== verification/Range_Compose.thy ===== *)
theory Range_Compose
  imports Range_Snapping
begin

text \<open>
  Composing the description of an edited file: where every window starts and ends with a segment of the
  original file, the composed segments are those in the gaps and those of the windows, in their order, and
  the verification entries are the ones that belong to them.
\<close>

section \<open>Segments in groups\<close>

text \<open>A segment with what it is checked against.\<close>

type_synonym item = "file_data_sequence_entry \<times> merkle_hash"

abbreviation items_total :: "item list \<Rightarrow> nat" where
  "items_total xs \<equiv> seg_total (map fst xs)"

text \<open>The segments before each window and those that it replaces; \<open>p\<close> is the first byte.\<close>

fun item_groups :: "nat \<Rightarrow> (nat \<times> nat) list \<Rightarrow> (item list \<times> item list) list \<Rightarrow> bool" where
  "item_groups p [] [] \<longleftrightarrow> True"
| "item_groups p ((a, b) # ws) ((g, w) # gs) \<longleftrightarrow> a = p + items_total g \<and> b = a + items_total w \<and> w \<noteq> [] \<and> item_groups b ws gs"
| "item_groups p _ _ \<longleftrightarrow> False"

definition full_items :: "item list \<Rightarrow> bool" where
  "full_items xs \<longleftrightarrow> items_total xs < 2 ^ 64 \<and> (\<forall>x \<in> set xs. 0 < unat (fe_unpacked_segment_bytes (fst x)))"

definition original :: "mdb_file_info \<Rightarrow> item list \<Rightarrow> bool" where
  "original mdb xs \<longleftrightarrow> segments mdb = map fst xs \<and> full_items xs"

lemma original_starts:
  assumes "original mdb (pre @ xs)"
  shows "unat (seg_byte_starts_of mdb ! length pre) = items_total pre"
proof -
  have "full_segments mdb" using assms by (auto simp: original_def full_items_def full_segments_def)
  then show ?thesis using seg_starts(2) [of mdb "length pre"] assms by (simp add: original_def)
qed

lemma full_items_append: "full_items (xs @ ys) \<Longrightarrow> full_items xs \<and> full_items ys"
  by (auto simp: full_items_def)

lemma items_total_pos: "full_items xs \<Longrightarrow> xs \<noteq> [] \<Longrightarrow> 0 < items_total xs"
  by (cases xs) (auto simp: full_items_def)

section \<open>The loops\<close>

lemma push_stable:
  "original mdb (pre @ x # xs) \<Longrightarrow> co_seg_idx co = length pre \<Longrightarrow> co_gap_idx co = length gpre \<Longrightarrow>
   push_stable_segment mdb (gpre @ v # gs) co =
     Inr \<lparr>co_segments = co_segments co @ [fst x], co_verification = co_verification co @ [file_verification_new v],
          co_seg_idx = length (pre @ [x]), co_gap_idx = length (gpre @ [v])\<rparr>"
  by (simp add: push_stable_segment_def original_def nth_append)

abbreviation pushed :: "composition \<Rightarrow> item list \<Rightarrow> composition" where
  "pushed co g \<equiv> \<lparr>co_segments = co_segments co @ map fst g, co_verification = co_verification co @ map (\<lambda>x. file_verification_new (snd x)) g,
     co_seg_idx = co_seg_idx co + length g, co_gap_idx = co_gap_idx co + length g\<rparr>"

lemma compose_before_ok:
  "original mdb (pre @ g @ rest) \<Longrightarrow> co_seg_idx co = length pre \<Longrightarrow> co_gap_idx co = length gpre \<Longrightarrow> unat a = items_total (pre @ g) \<Longrightarrow>
     compose_before mdb (seg_byte_starts_of mdb) (gpre @ map snd g @ gs) a co = Inr (pushed co g)"
proof (induction g arbitrary: pre gpre co)
  case Nil
  then have "\<not> seg_byte_starts_of mdb ! co_seg_idx co < a" using original_starts [of mdb pre rest] by (simp add: word_less_nat_alt)
  then show ?case by (simp add: compose_before.simps [of mdb _ _ a co])
next
  case (Cons x g)
  let ?co = "\<lparr>co_segments = co_segments co @ [fst x], co_verification = co_verification co @ [file_verification_new (snd x)],
     co_seg_idx = length (pre @ [x]), co_gap_idx = length (gpre @ [snd x])\<rparr>"
  have x: "0 < unat (fe_unpacked_segment_bytes (fst x))" using Cons.prems(1) by (simp add: original_def full_items_def)
  have "co_seg_idx co < length (segments mdb)" using Cons.prems(1,2) by (simp add: original_def)
  moreover have "seg_byte_starts_of mdb ! co_seg_idx co < a" "\<not> a < seg_byte_starts_of mdb ! (co_seg_idx co + 1)"
    using original_starts [of mdb pre "x # g @ rest"] original_starts [of mdb "pre @ [x]" "g @ rest"] Cons.prems x
    by (simp_all add: word_less_nat_alt)
  moreover have "push_stable_segment mdb (gpre @ snd x # map snd g @ gs) co = Inr ?co"
    using Cons.prems by (intro push_stable) simp_all
  moreover have "compose_before mdb (seg_byte_starts_of mdb) ((gpre @ [snd x]) @ map snd g @ gs) a ?co = Inr (pushed ?co g)"
    using Cons.prems by (intro Cons.IH [of "pre @ [x]"]) simp_all
  ultimately show ?case using Cons.prems(2,3) by (simp add: compose_before.simps [of mdb _ _ a co])
qed

lemma skip_segments_ok:
  "original mdb (pre @ w @ rest) \<Longrightarrow> unat b = items_total (pre @ w) \<Longrightarrow>
     skip_segments (length (segments mdb)) (seg_byte_starts_of mdb) b (length pre) = length (pre @ w)"
proof (induction w arbitrary: pre)
  case Nil
  then show ?case using original_starts [of mdb pre rest] by (simp add: skip_segments.simps word_less_nat_alt)
next
  case (Cons x w)
  have "0 < unat (fe_unpacked_segment_bytes (fst x))" using Cons.prems(1) by (simp add: original_def full_items_def)
  then have "seg_byte_starts_of mdb ! length pre < b" using original_starts [of mdb pre "x # w @ rest"] Cons.prems by (simp add: word_less_nat_alt)
  moreover have "length pre < length (segments mdb)" using Cons.prems(1) by (simp add: original_def)
  moreover have "skip_segments (length (segments mdb)) (seg_byte_starts_of mdb) b (length (pre @ [x])) = length ((pre @ [x]) @ w)"
    using Cons.prems by (intro Cons.IH) simp_all
  ultimately show ?case by (simp add: skip_segments.simps [of _ _ b "length pre"])
qed

lemma compose_after_ok:
  "original mdb (pre @ g) \<Longrightarrow> co_seg_idx co = length pre \<Longrightarrow> co_gap_idx co = length gpre \<Longrightarrow>
     compose_after mdb (gpre @ map snd g) co = Inr (pushed co g)"
proof (induction g arbitrary: pre gpre co)
  case Nil
  then show ?case by (simp add: compose_after.simps [of mdb _ co] original_def)
next
  case (Cons x g)
  let ?co = "\<lparr>co_segments = co_segments co @ [fst x], co_verification = co_verification co @ [file_verification_new (snd x)],
     co_seg_idx = length (pre @ [x]), co_gap_idx = length (gpre @ [snd x])\<rparr>"
  have "co_seg_idx co < length (segments mdb)" using Cons.prems(1,2) by (simp add: original_def)
  moreover have "push_stable_segment mdb (gpre @ snd x # map snd g) co = Inr ?co"
    using Cons.prems by (intro push_stable) simp_all
  moreover have "compose_after mdb ((gpre @ [snd x]) @ map snd g) ?co = Inr (pushed ?co g)"
    using Cons.prems by (intro Cons.IH [of "pre @ [x]"]) simp_all
  ultimately show ?case using Cons.prems(2,3) by (simp add: compose_after.simps [of mdb _ co])
qed

text \<open>All windows: their segments between those of the gaps.\<close>

abbreviation composed_segments :: "(item list \<times> item list) list \<Rightarrow> uploaded_window list \<Rightarrow> file_data_sequence_entry list" where
  "composed_segments gs us \<equiv> concat (map (\<lambda>((g, _), u). map fst g @ segments (uw_mdb u)) (zip gs us))"

abbreviation composed_verification :: "(item list \<times> item list) list \<Rightarrow> uploaded_window list \<Rightarrow> file_verification_entry list" where
  "composed_verification gs us \<equiv> concat (map (\<lambda>((g, _), u). map (\<lambda>x. file_verification_new (snd x)) g @ verification (uw_mdb u)) (zip gs us))"

abbreviation gap_hashes :: "(item list \<times> item list) list \<Rightarrow> merkle_hash list" where
  "gap_hashes gs \<equiv> concat (map (\<lambda>(g, _). map snd g) gs)"

lemma compose_windows_ok:
  "original mdb (pre @ concat (map (\<lambda>(g, w). g @ w) gs) @ rest) \<Longrightarrow> co_seg_idx co = length pre \<Longrightarrow> co_gap_idx co = length gpre \<Longrightarrow>
   item_groups (items_total pre) ws gs \<Longrightarrow> map (\<lambda>u. (unat (uw_start u), unat (uw_end u))) us = ws \<Longrightarrow>
   \<forall>u \<in> set us. length (verification (uw_mdb u)) = length (segments (uw_mdb u)) \<Longrightarrow>
     compose_windows mdb (seg_byte_starts_of mdb) (gpre @ gap_hashes gs @ hs) us co =
       Inr \<lparr>co_segments = co_segments co @ composed_segments gs us, co_verification = co_verification co @ composed_verification gs us,
            co_seg_idx = length (pre @ concat (map (\<lambda>(g, w). g @ w) gs)), co_gap_idx = length (gpre @ gap_hashes gs)\<rparr>"
proof (induction "items_total pre" ws gs arbitrary: pre gpre co us rule: item_groups.induct)
  case 1
  then show ?case by simp
next
  case (2 a b ws g w gs)
  obtain u us' where us: "us = u # us'" "unat (uw_start u) = a" "unat (uw_end u) = b" "map (\<lambda>u. (unat (uw_start u), unat (uw_end u))) us' = ws"
    using "2.prems"(5) by (cases us) auto
  have ab: "a = items_total (pre @ g)" "b = items_total (pre @ g @ w)" "item_groups b ws gs" using "2.prems"(4) by auto
  let ?rest = "concat (map (\<lambda>(g, w). g @ w) gs) @ rest"
  have o: "original mdb (pre @ g @ w @ ?rest)" "original mdb ((pre @ g) @ w @ ?rest)" "original mdb ((pre @ g @ w) @ ?rest)"
    using "2.prems"(1) by simp_all
  have before: "compose_before mdb (seg_byte_starts_of mdb) (gpre @ map snd g @ gap_hashes gs @ hs) (uw_start u) co = Inr (pushed co g)"
    using compose_before_ok [OF o(1) "2.prems"(2,3)] us(2) ab(1) by blast
  have skip: "skip_segments (length (segments mdb)) (seg_byte_starts_of mdb) (uw_end u) (length (pre @ g)) = length ((pre @ g) @ w)"
    using us(3) ab(2) by (intro skip_segments_ok [OF o(2)]) simp
  let ?co = "\<lparr>co_segments = co_segments co @ map fst g @ segments (uw_mdb u),
     co_verification = co_verification co @ map (\<lambda>x. file_verification_new (snd x)) g @ verification (uw_mdb u),
     co_seg_idx = length (pre @ g @ w), co_gap_idx = length (gpre @ map snd g)\<rparr>"
  have "compose_windows mdb (seg_byte_starts_of mdb) ((gpre @ map snd g) @ gap_hashes gs @ hs) us' ?co =
      Inr \<lparr>co_segments = co_segments ?co @ composed_segments gs us', co_verification = co_verification ?co @ composed_verification gs us',
        co_seg_idx = length ((pre @ g @ w) @ concat (map (\<lambda>(g, w). g @ w) gs)), co_gap_idx = length ((gpre @ map snd g) @ gap_hashes gs)\<rparr>"
    using ab us(4) "2.prems"(6) by (intro "2.hyps" [OF _ o(3)]) (simp_all add: us(1))
  then show ?case
    using before skip "2.prems"(2,3,6) by (simp add: us(1) Let_def)
qed auto

lemma compose_mdb_ok:
  assumes o: "original mdb (concat (map (\<lambda>(g, w). g @ w) gs) @ rest)" and g: "item_groups 0 (map (\<lambda>u. (unat (uw_start u), unat (uw_end u))) us) gs"
    and v: "\<forall>u \<in> set us. length (verification (uw_mdb u)) = length (segments (uw_mdb u))"
  shows "compose_mdb mdb (seg_byte_starts_of mdb) us (gap_hashes gs @ map snd rest) h =
    map_option (\<lambda>header. Inr \<lparr>metadata = header, segments = composed_segments gs us @ map fst rest,
        verification = composed_verification gs us @ map (\<lambda>x. file_verification_new (snd x)) rest, metadata_ext = None\<rparr>)
      (file_header_new h (length (composed_segments gs us @ map fst rest)) True False)"
proof -
  let ?co = "\<lparr>co_segments = [], co_verification = [], co_seg_idx = 0, co_gap_idx = 0\<rparr>"
  have w: "compose_windows mdb (seg_byte_starts_of mdb) (gap_hashes gs @ map snd rest) us ?co =
      Inr \<lparr>co_segments = composed_segments gs us, co_verification = composed_verification gs us,
        co_seg_idx = length (concat (map (\<lambda>(g, w). g @ w) gs)), co_gap_idx = length (gap_hashes gs)\<rparr>"
    using compose_windows_ok [of mdb "[]" gs rest ?co "[]" _ us] o g v by simp
  show ?thesis
    unfolding compose_mdb_def w rbind_simps using compose_after_ok [OF o, of _ "gap_hashes gs"] by simp
qed

section \<open>The verification entries of the gaps\<close>

abbreviation positions :: "(nat \<times> nat) list \<Rightarrow> file_range list" where
  "positions ws \<equiv> map (\<lambda>(a, b). file_range_new (of_nat a) (of_nat b)) ws"

abbreviation verified :: "item list \<Rightarrow> (file_data_sequence_entry \<times> file_verification_entry) list" where
  "verified xs \<equiv> map (\<lambda>(e, v). (e, file_verification_new v)) xs"

lemma advance_window_ok:
  "i \<le> j \<Longrightarrow> j \<le> length rs \<Longrightarrow> \<forall>k < j. fr_end (rs ! k) \<le> s \<Longrightarrow> (j < length rs \<Longrightarrow> s < fr_end (rs ! j)) \<Longrightarrow> advance_window rs s i = j"
proof (induction rs s i rule: advance_window.induct)
  case (1 rs s i)
  show ?case
  proof (cases "i = j")
    case True
    then show ?thesis using "1.prems"(4) by (cases "j < length rs") (auto simp: advance_window.simps [of rs s j])
  next
    case False
    then have "i < length rs \<and> fr_end (rs ! i) \<le> s" using "1.prems" by auto
    then show ?thesis using "1.IH" "1.prems" False by (simp add: advance_window.simps [of rs s i])
  qed
qed

text \<open>A run of segments, before the window \<open>j\<close> or inside of it.\<close>

lemma stable_run:
  assumes ws: "\<forall>(a, b) \<in> set ws. a < 2 ^ 64 \<and> b < 2 ^ 64" and j: "j \<le> length ws"
  shows "\<forall>k < j. snd (ws ! k) \<le> p \<Longrightarrow> i \<le> j \<Longrightarrow> full_items xs \<Longrightarrow> p + items_total xs < 2 ^ 64 \<Longrightarrow>
    (j < length ws \<Longrightarrow> p + items_total xs \<le> snd (ws ! j)) \<Longrightarrow>
    (if out then j < length ws \<longrightarrow> p + items_total xs \<le> fst (ws ! j) else j < length ws \<and> fst (ws ! j) \<le> p) \<Longrightarrow>
    stable_segment_hashes (positions ws) (verified xs @ rest) (of_nat p) i =
      (if out then map snd xs else []) @ stable_segment_hashes (positions ws) rest (of_nat (p + items_total xs)) (if xs = [] then i else j)"
proof (induction xs arbitrary: p i)
  case (Cons x xs)
  obtain e v where x: "x = (e, v)" by force
  let ?n = "unat (fe_unpacked_segment_bytes e)" and ?R = "positions ws"
  have n: "0 < ?n" and xs: "full_items xs" using Cons.prems(3) by (auto simp: full_items_def x)
  have fit: "p + ?n < 2 ^ 64" "p < 2 ^ 64" using Cons.prems(4) by (simp_all add: x)
  have un: "unat (of_nat p :: u64) = p" "unat (of_nat (p + ?n) :: u64) = p + ?n" using fit by (intro u64_of_nat, simp)+
  have acc: "of_nat p + ucast (fe_unpacked_segment_bytes e) = (of_nat (p + ?n) :: u64)"
    using unat_add_seg [of "of_nat p" "fe_unpacked_segment_bytes e"] un fit(1) unfolding word_unat_eq_iff by simp
  have R: "unat (fr_start (?R ! k)) = fst (ws ! k)" "unat (fr_end (?R ! k)) = snd (ws ! k)" if "k < length ws" for k
    using ws nth_mem [OF that] that by (auto simp: file_range_new_def case_prod_beta u64_of_nat)
  have adv: "advance_window ?R (of_nat p) i = j"
  proof (rule advance_window_ok)
    show "\<forall>k < j. fr_end (?R ! k) \<le> of_nat p" using Cons.prems(1) j R un(1) by (simp add: word_le_nat_alt del: nth_map)
    show "of_nat p < fr_end (?R ! j)" if "j < length ?R"
      using Cons.prems(5) that R un(1) n by (simp add: word_less_nat_alt x del: nth_map)
  qed (use Cons.prems j in simp_all)
  have ov: "(j < length ?R \<and> fr_start (?R ! j) < of_nat (p + ?n)) \<longleftrightarrow> \<not> out"
    using Cons.prems(6) R un(2) n by (auto simp: word_less_nat_alt x simp del: nth_map of_nat_add split: if_splits)
  have "stable_segment_hashes ?R ((e, file_verification_new v) # verified xs @ rest) (of_nat p) i =
      (if out then [v] else []) @ stable_segment_hashes ?R (verified xs @ rest) (of_nat (p + ?n)) j"
    by (simp only: stable_segment_hashes.simps Let_def adv acc ov) (simp add: file_verification_new_def)
  moreover have "stable_segment_hashes ?R (verified xs @ rest) (of_nat (p + ?n)) j =
      (if out then map snd xs else []) @ stable_segment_hashes ?R rest (of_nat (p + ?n + items_total xs)) (if xs = [] then j else j)"
    using Cons.prems xs by (intro Cons.IH) (auto simp: x add.assoc split: if_splits)
  ultimately show ?case
    by (cases out) (simp_all add: x add.assoc del: of_nat_add stable_segment_hashes.simps)
qed simp

lemma item_groups_bounds:
  "item_groups p ws gs \<Longrightarrow> (a, b) \<in> set ws \<Longrightarrow> p \<le> a \<and> a \<le> b \<and> b \<le> p + items_total (concat (map (\<lambda>(g, w). g @ w) gs))"
  by (induction p ws gs rule: item_groups.induct) fastforce+

lemma stable_hashes_ok:
  assumes ws: "\<forall>(a, b) \<in> set (vs @ ws). a < 2 ^ 64 \<and> b < 2 ^ 64"
  shows "item_groups p ws gs \<Longrightarrow> full_items (concat (map (\<lambda>(g, w). g @ w) gs) @ rest) \<Longrightarrow>
    p + items_total (concat (map (\<lambda>(g, w). g @ w) gs) @ rest) < 2 ^ 64 \<Longrightarrow> \<forall>(a, b) \<in> set vs. b \<le> p \<Longrightarrow> i \<le> length vs \<Longrightarrow>
    stable_segment_hashes (positions (vs @ ws)) (verified (concat (map (\<lambda>(g, w). g @ w) gs) @ rest)) (of_nat p) i = gap_hashes gs @ map snd rest"
  using ws
proof (induction p ws gs arbitrary: vs i rule: item_groups.induct)
  case (1 p)
  have "\<forall>k < length vs. snd (vs ! k) \<le> p" using "1.prems"(4) by (force dest: nth_mem)
  then show ?case
    using stable_run [of vs "length vs" p i rest True "[]"] "1.prems" by simp
next
  case (2 p a b ws g w gs)
  let ?vs = "vs @ [(a, b)]" and ?all = "vs @ (a, b) # ws" and ?rest = "concat (map (\<lambda>(g, w). g @ w) gs) @ rest"
  have ab: "a = p + items_total g" "b = a + items_total w" "w \<noteq> []" "item_groups b ws gs" using "2.prems"(1) by auto
  have f: "full_items g" "full_items w" "full_items ?rest" using "2.prems"(2) full_items_append [of g "w @ ?rest"] full_items_append [of w ?rest] by auto
  have fit: "p + items_total g < 2 ^ 64" "a + items_total w < 2 ^ 64" "b + items_total ?rest < 2 ^ 64" using "2.prems"(3) ab by simp_all
  have len: "length vs \<le> length ?all" and nth: "?all ! length vs = (a, b)" by simp_all
  have done_vs: "\<forall>k < length vs. snd (?all ! k) \<le> y" if "p \<le> y" for y
    using "2.prems"(4) that by (fastforce simp: nth_append dest: nth_mem)
  define i' where "i' = (if g = [] then i else length vs)"
  have gap: "stable_segment_hashes (positions ?all) (verified g @ verified (w @ ?rest)) (of_nat p) i =
      map snd g @ stable_segment_hashes (positions ?all) (verified (w @ ?rest)) (of_nat a) i'"
    using stable_run [OF "2.prems"(6) len done_vs [OF order.refl] "2.prems"(5) f(1) fit(1), of True "verified (w @ ?rest)"] ab by (simp add: i'_def)
  have win: "stable_segment_hashes (positions ?all) (verified w @ verified ?rest) (of_nat a) i' =
      stable_segment_hashes (positions ?all) (verified ?rest) (of_nat b) (length vs)"
    using stable_run [OF "2.prems"(6) len done_vs [of a] _ f(2) fit(2), of i' False "verified ?rest"] ab "2.prems"(5) by (simp add: i'_def)
  have "stable_segment_hashes (positions (?vs @ ws)) (verified ?rest) (of_nat b) (length vs) = gap_hashes gs @ map snd rest"
  proof (rule "2.IH" [OF ab(4) f(3) fit(3)])
    show "\<forall>(a, b') \<in> set ?vs. b' \<le> b" using "2.prems"(4) ab by fastforce
    show "\<forall>(a, b) \<in> set (?vs @ ws). a < 2 ^ 64 \<and> b < 2 ^ 64" using "2.prems"(6) by simp
  qed simp
  then show ?case using gap win by simp
qed simp_all

end
