(* ===== verification/Range_Upload_Correct.thy ===== *)
theory Range_Upload_Correct
  imports Range_Snapping Upload_End_To_End
begin

text \<open>
  An upload of edits against the upload of the edited file: the hash that is merged from the windows and the
  gaps is the one that cleaning the whole edited file gives.
\<close>

section \<open>The merged hash\<close>

fun merge_pieces :: "node list list \<Rightarrow> node list list \<Rightarrow> node list \<Rightarrow> node list list" where
  "merge_pieces (g # gs) (w # ws) gap = (if g = [] then [] else [g]) @ w # merge_pieces gs ws gap"
| "merge_pieces _ _ gap = (if gap = [] then [] else [gap])"

lemma concat_merge_pieces:
  "length gs = length ws \<Longrightarrow> concat (merge_pieces gs ws gap) = concat (map (\<lambda>(g, w). g @ w) (zip gs ws)) @ gap"
  by (induction gs ws rule: list_induct2) auto

lemma merge_pieces_Nil [simp]: "length gs = length ws \<Longrightarrow> merge_pieces gs ws gap = [] \<longleftrightarrow> ws = [] \<and> gap = []"
  by (cases gs; cases ws) auto

abbreviation gap_option :: "keyed_hash \<Rightarrow> node list \<Rightarrow> merkle_hash_subtree list" where
  "gap_option kh gap \<equiv> (case range_to_option (from_chunks kh False gap True) of Some g \<Rightarrow> [g] | None \<Rightarrow> [])"

lemma merge_tail:
  "length gs = length us \<Longrightarrow>
     tail_ranges kh (merge_pieces gs (map uw_chunks us) gap) =
       merge_windows kh False (gap = []) us (gap_ranges kh False gs) @ gap_option kh gap"
  by (induction gs us rule: list_induct2) (auto simp: range_to_option_eq conj_commute)

lemma merge_sequence_eq:
  assumes "length ps = length us" and "us \<noteq> []"
  shows "merge_sequence kh us (all_gap_ranges kh ps gap) = ranges_of kh (merge_pieces (map fst ps) (map uw_chunks us) gap)"
proof -
  obtain p ps' u us' where c: "ps = p # ps'" "us = u # us'" "length ps' = length us'" using assms by (cases ps; cases us) auto
  have t: "(range_to_option (from_chunks kh False gap True) = None) \<longleftrightarrow> gap = []" by (simp add: range_to_option_eq)
  show ?thesis
    using merge_tail [of "map fst ps'" us' kh gap] c(3)
    by (auto simp: c(1,2) merge_sequence_def all_gap_ranges_def Let_def t ranges_of_Cons range_to_option_eq)
qed

lemma zero_salt: "from_bytes (replicate 32 0) = default_hash"
  by (simp add: from_bytes_def default_hash_def eval_nat_numeral)

text \<open>The combined hash is the file hash of the chunks of gaps and windows.\<close>

lemma combined_hash_eq:
  assumes len: "length ps = length us" "us \<noteq> []" and ns: "ns = concat (map (\<lambda>(g, w). g @ w) (zip (map fst ps) (map uw_chunks us))) @ gap"
    and total: "total_size = 0 \<longleftrightarrow> ns = []"
  shows "combined_hash kh us (all_gap_ranges kh ps gap) total_size = Inr (file_hash kh ns)"
proof -
  let ?pieces = "merge_pieces (map fst ps) (map uw_chunks us) gap"
  have "?pieces \<noteq> []" using len by (cases ps; cases us) auto
  then obtain LR where LR: "merge_ranges kh (ranges_of kh ?pieces) = Inr (tree_of LR True True)" "start_rep kh True LR (concat ?pieces)" "trimmed LR"
    using merge_ranges_rep by blast
  have "concat ?pieces = ns" using concat_merge_pieces [of "map fst ps" "map uw_chunks us" gap] len ns by simp
  then have "final_hash (tree_of LR True True) = Some (aggregated_node_hash kh ns)" using final_hash_closed(1) LR(2,3) by metis
  then show ?thesis
    using total by (simp add: combined_hash_def merge_sequence_eq [OF len] LR(1) file_hash_def file_hash_with_salt_def zero_salt)
qed

section \<open>Feeding a window\<close>

lemma cleaner_bind_Inr:
  "cleaner_bind r f = Some (Inr y, c', s') \<longleftrightarrow> (\<exists>x c s. r = Some (Inr x, c, s) \<and> f x c s = Some (Inr y, c', s'))"
  by (auto simp: cleaner_bind_def split: option.splits sum.splits)

lemma session_bind_Inr:
  "session_bind r f = Some (Inr y, s') \<longleftrightarrow> (\<exists>x s. r = Some (Inr x, s) \<and> f x s = Some (Inr y, s'))"
  by (auto simp: session_bind_def split: option.splits sum.splits)

text \<open>The external code: a rolling hash that meets its contract, a server that answers with shards of what it
  stores, and a stored file whose byte ranges are delivered as they are.\<close>

definition upload_setting :: "session_env \<Rightarrow> store \<Rightarrow> (u64 \<Rightarrow> u8 \<Rightarrow> u64) \<Rightarrow> bool" where
  "upload_setting env remote roll \<longleftrightarrow>
     gear_hasher (se_next_match env) roll \<and> honest_server env remote \<and> 0 < se_ingestion_block_size env"

definition serves :: "range_env \<Rightarrow> merkle_hash \<Rightarrow> bytes \<Rightarrow> bool" where
  "serves env h X \<longleftrightarrow> (\<forall>a b blocks. rg_stream env h a b = (blocks, None) \<longrightarrow> concat blocks = slice X (unat a) (unat b))"

text \<open>A cleaner that was given \<open>d\<close> since the session was \<open>b\<close>, unless it has failed.\<close>

definition fed ::
  "session_env \<Rightarrow> store \<Rightarrow> (u64 \<Rightarrow> u8 \<Rightarrow> u64) \<Rightarrow> file_upload_session \<Rightarrow> bytes \<Rightarrow> file_cleaner \<Rightarrow> file_upload_session \<Rightarrow> bool" where
  "fed env remote roll b d c s \<longleftrightarrow> broken c \<or> session_ok env remote s \<and> frame b s \<and> cleaner_ok env remote roll s d c"

lemma fed_add_data:
  assumes "upload_setting env remote roll" and "fed env remote roll b d c s" and "add_data env x c s = Some (Inr (), c', s')"
  shows "fed env remote roll b (d @ x) c' s'"
proof -
  have "broken c \<or> session_ok env remote s \<and> cleaner_ok env remote roll s d c" using assms(2) by (auto simp: fed_def)
  then have "broken c' \<or> \<not> broken c \<and> session_ok env remote s' \<and> frame s s' \<and> cleaner_ok env remote roll s' (d @ x) c'"
    using assms(1,3) by (intro add_data_ok) (simp_all add: upload_setting_def)
  then show ?thesis using assms(2) frame_trans [of b s s'] by (auto simp: fed_def)
qed

lemma fed_add_blocks:
  "upload_setting env remote roll \<Longrightarrow> fed env remote roll b d c s \<Longrightarrow> add_blocks env xs c s = Some (Inr (), c', s') \<Longrightarrow>
     fed env remote roll b (d @ concat xs) c' s'"
proof (induction xs arbitrary: d c s)
  case (Cons x xs)
  then obtain c1 s1 where "add_data env x c s = Some (Inr (), c1, s1)" "add_blocks env xs c1 s1 = Some (Inr (), c', s')"
    by (auto simp: cleaner_bind_Inr)
  then show ?case using Cons.IH [OF Cons.prems(1) fed_add_data [OF Cons.prems(1,2)]] by simp
qed simp

lemma fed_stream:
  assumes "upload_setting (rg_session env) remote roll" and "serves env h X" and "fed (rg_session env) remote roll b d c s"
    and op: "stream_cas_range env h p q c s = Some (Inr (), c', s')"
  shows "fed (rg_session env) remote roll b (d @ slice X (unat p) (unat q)) c' s'"
proof -
  obtain blocks failed where st: "rg_stream env h p q = (blocks, failed)" by force
  then have "add_blocks (rg_session env) blocks c s = Some (Inr (), c', s')" "failed = None"
    using op by (auto simp: stream_cas_range_def cleaner_bind_Inr split: option.splits)
  then show ?thesis using fed_add_blocks [OF assms(1,3)] assms(2) st by (metis serves_def)
qed

lemma fed_reader:
  "upload_setting env remote roll \<Longrightarrow> fed env remote roll b d c s \<Longrightarrow> feed_reader env r n c s = Some (Inr (), c', s') \<Longrightarrow>
     n \<le> length r \<and> fed env remote roll b (d @ take n r) c' s'"
proof (induction env r n c s arbitrary: d rule: feed_reader.induct)
  case (1 env r n c s)
  show ?case
  proof (cases "n = 0")
    case True
    then show ?thesis using "1.prems" by (simp add: feed_reader.simps [of env r 0])
  next
    case False
    define k where "k = min STREAM_BLOCK_SIZE n"
    have k: "k \<le> n" by (simp add: k_def)
    obtain c1 s1 where a: "k \<le> length r" "add_data env (take k r) c s = Some (Inr (), c1, s1)"
      "feed_reader env (drop k r) (n - k) c1 s1 = Some (Inr (), c', s')"
      using "1.prems"(3) False unfolding k_def by (auto simp: feed_reader.simps [of env r n] cleaner_bind_Inr Let_def split: if_splits)
    have "n - k \<le> length (drop k r) \<and> fed env remote roll b ((d @ take k r) @ take (n - k) (drop k r)) c' s'"
      using a fed_add_data [OF "1.prems"(1,2) a(2)] "1.prems"(1) False unfolding k_def
      by (intro "1.IH" [OF False refl]) auto
    moreover have "take k r @ take (n - k) (drop k r) = take n r" using k by (metis le_add_diff_inverse take_add)
    ultimately show ?thesis using a(1) k by (metis append_assoc diff_le_mono2 le_diff_iff length_drop)
  qed
qed

text \<open>A reader can deliver the bytes that its edit announces.\<close>

abbreviation full_reader :: "dirty_input \<Rightarrow> bool" where
  "full_reader d \<equiv> unat (di_new_length d) \<le> length (di_reader d)"

lemma fed_edits:
  assumes set: "upload_setting (rg_session env) remote roll" and X: "serves env h X"
  shows "edits_ok n ds \<Longrightarrow> \<forall>d \<in> set ds. a \<le> di_start d \<Longrightarrow> fed (rg_session env) remote roll b x c s \<Longrightarrow>
    feed_edits env h ds a c s = Some (Inr q, c', s') \<Longrightarrow>
    \<exists>Y. (\<forall>e. splice X (unat a) e ds = Y @ slice X (unat q) e) \<and> fed (rg_session env) remote roll b (x @ Y) c' s' \<and> list_all full_reader ds"
proof (induction ds arbitrary: a x c s)
  case Nil
  then show ?case by (intro exI [of _ "[]"]) auto
next
  case (Cons d ds)
  let ?env = "rg_session env"
  obtain c1 s1 c2 s2 where st: "(if a < di_start d then stream_cas_range env h a (di_start d) c s else Some (Inr (), c, s)) = Some (Inr (), c1, s1)"
    and rd: "feed_reader ?env (di_reader d) (unat (di_new_length d)) c1 s1 = Some (Inr (), c2, s2)"
    and rest: "feed_edits env h ds (di_end d) c2 s2 = Some (Inr q, c', s')"
    using Cons.prems(4) by (auto simp: cleaner_bind_Inr)
  have "fed ?env remote roll b (x @ slice X (unat a) (unat (di_start d))) c1 s1"
  proof (cases "a < di_start d")
    case True
    then show ?thesis using fed_stream [OF set X Cons.prems(3)] st by simp
  next
    case False
    then have "unat (di_start d) \<le> unat a" by (simp add: word_less_nat_alt)
    then have "slice X (unat a) (unat (di_start d)) = []" by (rule slice_empty)
    then show ?thesis using False st Cons.prems(3) by simp
  qed
  note r = fed_reader [OF set this rd]
  have "\<forall>e \<in> set ds. di_end d \<le> di_start e" "edits_ok n ds" using Cons.prems(1) by (simp_all add: edits_ok_Cons word_le_nat_alt)
  from Cons.IH [OF this(2,1) conjunct2 [OF r] rest] obtain Y where Y: "\<And>e. splice X (unat (di_end d)) e ds = Y @ slice X (unat q) e"
    "fed ?env remote roll b (((x @ slice X (unat a) (unat (di_start d))) @ take (unat (di_new_length d)) (di_reader d)) @ Y) c' s'" "list_all full_reader ds"
    by blast
  then show ?case
    using r by (intro exI [of _ "slice X (unat a) (unat (di_start d)) @ take (unat (di_new_length d)) (di_reader d) @ Y"]) simp
qed

text \<open>A cleaner that is finished without registering the file: the chunks are those of the bytes, and the
  description is one of these chunks.\<close>

definition window_done ::
  "session_env \<Rightarrow> store \<Rightarrow> (u64 \<Rightarrow> u8 \<Rightarrow> u64) \<Rightarrow> file_upload_session \<Rightarrow> bytes \<Rightarrow> node list \<Rightarrow> mdb_file_info \<Rightarrow> bool" where
  "window_done env remote roll s d chunks mdb \<longleftrightarrow> chunks = file_nodes (se_keyed_hash env) roll d \<and>
     over env remote {chunks} s (\<lambda>G. describes (se_keyed_hash env) G mdb chunks)"

lemma detached_registers:
  assumes "register_single_file_clean_completion_detached env agg dm s = Some (Inr mdb, s')"
  obtains fis v where "process_aggregated_data_as_xorb_impl env agg False s = Some (Inr fis, v)" "fis \<noteq> []" "mdb = hd fis" "s' = merge_metrics dm v"
proof -
  obtain r v where r: "process_aggregated_data_as_xorb_impl env agg False s = Some (r, v)"
    using assms by (auto simp: register_single_file_clean_completion_detached_def process_aggregated_data_as_xorb_detached_def bind_eq_Some_conv)
  then obtain fis where "r = Inr fis" "fis \<noteq> []" "mdb = hd fis" "s' = merge_metrics dm v"
    using assms by (cases r)
      (auto simp: register_single_file_clean_completion_detached_def process_aggregated_data_as_xorb_detached_def split: list.splits)
  then show thesis using that r by blast
qed

lemma detached_ok:
  assumes set: "upload_setting env remote roll" and s: "session_ok env remote s" and c: "cleaner_ok env remote roll s d c"
    and op: "finish_with_chunks_detached env c s = Some (Inr (info, hs, mdb, dm), s')"
  shows "session_ok env remote s' \<and> frame s s' \<and> window_done env remote roll s' d hs mdb"
proof -
  let ?kh = "se_keyed_hash env" and ?sha = "cleaner_sha256 env c" and ?ns = "file_nodes (se_keyed_hash env) roll d"
  obtain r u where r: "finish_inner env False c s =
      (case r of Inl e \<Rightarrow> Some (Inl e, u) | Inr dd \<Rightarrow> finish_deduper env False ?sha dd u)"
    "\<And>dd. r = Inr dd \<Longrightarrow> session_ok env remote u \<and> frame s u \<and> deduper_ok env remote u (fc_file_id c) (file_chunks ?kh roll d) dd"
    using finish_parts [OF _ _ s c, of False] set unfolding upload_setting_def by blast
  have fin: "finish_inner env False c s = Some (Inr (info, hs, mdb, dm), s')" using op by (simp add: finish_with_chunks_detached_def)
  then obtain dd where dd: "r = Inr dd" using r(1) by (cases r) auto
  then have u: "session_ok env remote u" "frame s u" "fd_wf (se_defrag env) dd" "fd_file_id dd = of_nat (fc_file_id c)"
    "fd_chunk_hashes dd = ?ns" "over env remote {?ns} u (\<lambda>G. fd_spells G dd ?ns)"
    using r(2) by (auto simp: deduper_ok_def file_nodes_def)
  have fd: "finish_deduper env False ?sha dd u = Some (Inr (info, hs, mdb, dm), s')" using fin r(1) dd by simp
  obtain fh hs' agg dm' where agg: "fd_finalize ?kh (map_option file_metadata_ext_new ?sha) dd = Some (fh, hs', agg, dm')"
    using fd by (auto simp: finish_deduper_def bind_eq_Some_conv)
  have "hs' = hs" and reg: "register_single_file_clean_completion_detached env agg dm' u = Some (Inr mdb, s')"
    using fd agg by (auto simp: finish_deduper_def rbind_Inr_iff bind_eq_Some_conv)
  then have hs: "hs = ?ns" using fd_finalize_fields(2) [OF agg] u(5) by simp
  obtain fis v where p: "process_aggregated_data_as_xorb_impl env agg False u = Some (Inr fis, v)" "fis \<noteq> []" "mdb = hd fis" "s' = merge_metrics dm' v"
    using reg by (rule detached_registers)
  have "fc_file_id c < length (ct_files (us_tracker u))" using c u(2) by (simp add: cleaner_ok_def frame_def)
  then have "unat (fd_file_id dd) < length (ct_files (us_tracker u))" using unat_of_nat_le [of "fc_file_id c"] u(4) by (metis le_less_trans)
  then have st: "da_static (length (ct_files (us_tracker u))) agg"
    using fd_finalize_fields(3) [OF agg] u(3) by (auto simp: da_static_def data_aggregator_new_def fd_wf_def)
  from process_data_ok [OF u(1) st p(1)] obtain x rs where x: "da_finalize ?kh agg = Some (x, rs)" "session_ok env remote v"
    "us_registered v = us_registered u @ [x]" "us_data v = us_data u" "us_finalized v = us_finalized u"
    "ss_dry_run (us_shards v) = ss_dry_run (us_shards u)" "length (ct_files (us_tracker v)) = length (ct_files (us_tracker u))"
    "file_content (ss_session_shard (us_shards v)) = file_content (ss_session_shard (us_shards u))" "fis = map (\<lambda>(_, fi, _). fi) rs"
    by (metis (full_types))
  have fr: "frame u v" using x by (auto simp: frame_def)
  have "over env remote {?ns} v (\<lambda>G. describes ?kh G mdb ?ns)"
    unfolding over_def
  proof (intro allI impI)
    fix G assume G: "good_store G" "session_store remote v \<subseteq> G" "\<forall>ns \<in> {?ns}. legible env G ns"
    have "fd_spells G dd ?ns" using u(6) G session_store_mono [OF fr] unfolding over_def by blast
    then have "da_ok ?kh G agg [?ns]" using fd_finalize_da_ok [OF agg u(3), of G] G(3) u(5) by (simp add: legible_def)
    moreover have "xorb_record x \<in> G" using G(2) x(3) by (auto simp: session_store_def)
    ultimately have "list_all2 (describes ?kh G) fis [?ns]" using process_data_describes [OF st x(1) G(1)] x(9) by simp
    then show "describes ?kh G mdb ?ns" using p(2,3) by (cases fis) auto
  qed
  moreover have "frame v s'" "session_ok env remote s'" "session_store remote v = session_store remote s'"
    using x(2) by (simp_all add: p(4)) (simp_all add: merge_metrics_def frame_def session_store_def)
  ultimately show ?thesis
    using frame_trans [OF u(2) frame_trans [OF fr]] hs by (auto simp: window_done_def over_def)
qed

section \<open>The windows\<close>

lemma window_done_grow: "window_done env remote roll s d ns mdb \<Longrightarrow> grow s s' \<Longrightarrow> window_done env remote roll s' d ns mdb"
  unfolding window_done_def using over_mono [OF _ subset_refl grow_store] by blast

text \<open>The window as uploaded: the bytes of the range with the edits that it was given.\<close>

definition uploaded_as ::
  "session_env \<Rightarrow> store \<Rightarrow> (u64 \<Rightarrow> u8 \<Rightarrow> u64) \<Rightarrow> bytes \<Rightarrow> file_upload_session \<Rightarrow> chunk_window \<times> dirty_input list \<Rightarrow> uploaded_window \<Rightarrow> bool" where
  "uploaded_as env remote roll X s we u \<longleftrightarrow> (uw_start u, uw_end u) = dirty_byte_range (fst we) \<and> list_all full_reader (snd we) \<and>
     window_done env remote roll s (splice X (unat (uw_start u)) (unat (uw_end u)) (snd we)) (uw_chunks u) (uw_mdb u)"

lemma upload_window_ok:
  assumes set: "upload_setting (rg_session env) remote roll" and X: "serves env h X" and e: "edits_ok n es" "\<forall>d \<in> set es. a \<le> di_start d"
    and s: "session_ok (rg_session env) remote s" "files_ok (rg_session env) remote F {} s"
    and op: "upload_window env h es a b s = Some (Inr u, s')"
  shows "session_ok (rg_session env) remote s' \<and> files_ok (rg_session env) remote F {} s' \<and> grow s s' \<and>
    uploaded_as (rg_session env) remote roll X s' (\<lparr>dirty_byte_range = (a, b)\<rparr>, es) u"
proof -
  let ?env = "rg_session env"
  obtain n c0 s0 where st: "start_clean (Some n) Skip s = Some (Inr c0, s0)" and r: "(case cleaner_bind (feed_edits env h es a c0 s0) (\<lambda>cursor c s.
        if cursor < b then stream_cas_range env h cursor b c s else Some (Inr (), c, s)) of
      None \<Rightarrow> None | Some (Inl e, c, s) \<Rightarrow> Some (Inl e, s)
    | Some (Inr _, c, s) \<Rightarrow> session_bind (finish_with_chunks_detached ?env c s) (\<lambda>(_, chunks, mdb, _) s.
        Some (Inr \<lparr>uw_start = a, uw_end = b, uw_chunks = chunks, uw_mdb = mdb\<rparr>, s))) = Some (Inr u, s')"
    using op unfolding upload_window_def by (auto simp: session_bind_Inr Let_def split: prod.splits)
  obtain c1 s1 info chunks mdb dm where feed: "cleaner_bind (feed_edits env h es a c0 s0) (\<lambda>cursor c s.
        if cursor < b then stream_cas_range env h cursor b c s else Some (Inr (), c, s)) = Some (Inr (), c1, s1)"
    and fin: "finish_with_chunks_detached ?env c1 s1 = Some (Inr (info, chunks, mdb, dm), s')"
    and u: "u = \<lparr>uw_start = a, uw_end = b, uw_chunks = chunks, uw_mdb = mdb\<rparr>"
    using r by (auto simp: session_bind_Inr split: option.splits prod.splits sum.splits)
  note c0 = start_clean_ok [OF s st, of roll]
  obtain q c2 s2 where q: "feed_edits env h es a c0 s0 = Some (Inr q, c2, s2)"
    "(if q < b then stream_cas_range env h q b c2 s2 else Some (Inr (), c2, s2)) = Some (Inr (), c1, s1)"
    using feed by (auto simp: cleaner_bind_Inr)
  have "fed ?env remote roll s0 [] c0 s0" using c0 by (simp add: fed_def)
  from fed_edits [OF set X e this q(1)] obtain Y where Y: "\<And>e. splice X (unat a) e es = Y @ slice X (unat q) e"
    "fed ?env remote roll s0 Y c2 s2" "list_all full_reader es"
    by auto
  have "fed ?env remote roll s0 (Y @ slice X (unat q) (unat b)) c1 s1"
  proof (cases "q < b")
    case True
    then show ?thesis using fed_stream [OF set X Y(2)] q(2) by simp
  next
    case False
    then have "slice X (unat q) (unat b) = []" by (intro slice_empty) (simp add: word_less_nat_alt)
    then show ?thesis using False q(2) Y(2) by simp
  qed
  moreover have "\<not> broken c1" using finish_broken [of c1 ?env False s1] fin by (auto simp: finish_with_chunks_detached_def)
  ultimately have c1: "session_ok ?env remote s1" "frame s0 s1" "cleaner_ok ?env remote roll s1 (splice X (unat a) (unat b) es) c1"
    by (simp_all add: fed_def Y(1))
  note d = detached_ok [OF set c1(1,3) fin]
  have fr: "frame s0 s'" using frame_trans [OF c1(2)] d by blast
  have "files_ok ?env remote F {} s'" using files_ok_frame [OF _ fr] c0 by blast
  moreover have "grow s s'" using grow_trans [OF _ frame_grow [OF fr]] c0 by blast
  ultimately show ?thesis using d Y(3) by (simp add: uploaded_as_def u)
qed

lemma upload_windows_left:
  "upload_windows env h sz ws ds acc s = Some (Inr (us, left), s') \<Longrightarrow> snd (deal_edits sz ws ds) = left"
proof (induction ws arbitrary: ds acc s)
  case (Cons w ws)
  obtain a b where w: "w = \<lparr>dirty_byte_range = (a, b)\<rparr>" by (metis chunk_window.cases surj_pair)
  obtain u s1 where "upload_windows env h sz ws (dropWhile (in_window sz b) ds) (acc @ [u]) s1 = Some (Inr (us, left), s')"
    using Cons.prems by (auto simp: w session_bind_Inr dropWhile_eq_drop [symmetric])
  then show ?case using Cons.IH by (simp add: w deal_edits_Cons split: prod.split) (metis snd_conv)
qed simp

lemma upload_windows_ok:
  assumes set: "upload_setting (rg_session env) remote roll" and X: "serves env h X"
  shows "edits_ok n ds \<Longrightarrow> deal_edits sz ws ds = (es, left') \<Longrightarrow> dealt_inside ws es \<Longrightarrow>
    session_ok (rg_session env) remote s \<Longrightarrow> files_ok (rg_session env) remote F {} s \<Longrightarrow>
    upload_windows env h sz ws ds acc s = Some (Inr (us, left), s') \<Longrightarrow>
    session_ok (rg_session env) remote s' \<and> files_ok (rg_session env) remote F {} s' \<and> grow s s' \<and> left = left' \<and>
    (\<exists>us'. us = acc @ us' \<and> list_all2 (uploaded_as (rg_session env) remote roll X s') (zip ws es) us')"
proof (induction ws arbitrary: ds es acc s)
  case (Cons w ws)
  let ?env = "rg_session env"
  obtain a b where w: "w = \<lparr>dirty_byte_range = (a, b)\<rparr>" by (metis chunk_window.cases surj_pair)
  let ?T = "takeWhile (in_window sz b) ds" and ?D = "dropWhile (in_window sz b) ds"
  have e: "edits_ok n ?T" "edits_ok n ?D" using edits_ok_append [of n ?T ?D] Cons.prems(1) by simp_all
  obtain es' where es: "es = ?T # es'" "deal_edits sz ws ?D = (es', left')"
    using Cons.prems(2) by (auto simp: w deal_edits_Cons split: prod.splits)
  obtain u s1 where u: "upload_window env h ?T a b s = Some (Inr u, s1)" "upload_windows env h sz ws ?D (acc @ [u]) s1 = Some (Inr (us, left), s')"
    using Cons.prems(6) by (auto simp: w session_bind_Inr takeWhile_eq_take [symmetric] dropWhile_eq_drop [symmetric])
  have "\<forall>d \<in> set ?T. a \<le> di_start d" "dealt_inside ws es'" using Cons.prems(3) by (simp_all add: es(1) dealt_inside_def w)
  note p = upload_window_ok [OF set X e(1) this(1) Cons.prems(4,5) u(1)] and r = Cons.IH [OF e(2) es(2) this(2) _ _ u(2)]
  have r': "session_ok ?env remote s'" "files_ok ?env remote F {} s'" "grow s1 s'" "left = left'"
    "\<exists>us'. us = (acc @ [u]) @ us' \<and> list_all2 (uploaded_as ?env remote roll X s') (zip ws es') us'"
    using r p by blast+
  moreover have "uploaded_as ?env remote roll X s' (w, ?T) u"
    using p window_done_grow [OF _ r'(3)] by (auto simp: uploaded_as_def w)
  ultimately show ?case using p grow_trans [of s s1 s'] by (fastforce simp: es(1))
qed (auto simp: dealt_inside_def)

section \<open>The chunks of the edited file\<close>

text \<open>The plan behind an answer of the server.\<close>

lemma answer_plan:
  assumes n: "length X < 2 ^ 64" and sz: "file_size mdb = of_nat (length X)" and q: "dirty_ok q" "clamp_dirty_ranges (of_nat (length X)) q = q"
    and ans: "build_file_chunk_hashes_response kh mdb q (file_nodes kh roll X) = Some (Inr resp)"
  obtains qs r live where "ref_chunks roll demo_chunker X = concat (map (\<lambda>(g, w). g @ w) qs) @ r"
    "windows_ok q live 0 (map (bytes_window kh) qs)" "live \<longrightarrow> r = []" "qs \<noteq> []"
    "cr_windows resp = map window_of (window_ranges 0 (map (bytes_window kh) qs))"
    "cr_hash_ranges resp = all_gap_ranges kh (map (bytes_window kh) qs) (map (bytes_node kh) r)"
    "cr_gap_verification resp = (if verification mdb = [] then []
       else stable_segment_hashes (window_ranges 0 (map (bytes_window kh) qs)) (zip (segments mdb) (verification mdb)) 0 0)"
proof -
  have total: "node_total (file_nodes kh roll X) < 2 ^ 64"
    using node_total_bytes [of "ref_chunks roll demo_chunker X" kh] n by (simp add: file_nodes_eq)
  obtain b ps gap live where b: "process_chunk_loop kh (file_nodes kh roll X) 0 (window_builder_new q) = Some b"
    "window_plan q (file_nodes kh roll X) ps gap live" "window_builder_finish kh b = (window_ranges 0 ps, all_gap_ranges kh ps gap)"
    using window_builder_result [OF q(1) total] by blast
  have resp: "cr_windows resp = map window_of (window_ranges 0 ps)" "cr_hash_ranges resp = all_gap_ranges kh ps gap" "window_ranges 0 ps \<noteq> []"
    "cr_gap_verification resp = (if verification mdb = [] then [] else stable_segment_hashes (window_ranges 0 ps) (zip (segments mdb) (verification mdb)) 0 0)"
    using ans by (auto simp: build_file_chunk_hashes_response_def Let_def sz q(2) b(1,3) rbind_Inr_iff split: if_splits)
  have "map (bytes_node kh) (ref_chunks roll demo_chunker X) = flat_windows ps @ gap"
    using b(2) by (simp add: window_plan_def file_nodes_eq)
  from plan_bytes [OF this] obtain qs r where qr: "ref_chunks roll demo_chunker X = concat (map (\<lambda>(g, w). g @ w) qs) @ r"
    "ps = map (bytes_window kh) qs" "gap = map (bytes_node kh) r"
    by blast
  show thesis
    using b(2) resp qr(2,3) by (intro that [OF qr(1), of live]) (auto simp: window_plan_def split: if_splits)
qed

text \<open>The windows as uploaded have the chunks of the bytes that replace them.\<close>

lemma uploaded_nodes:
  "length (concat (concat (map (\<lambda>(g, w). g @ w) qs))) + p < 2 ^ 64 \<Longrightarrow> length es = length qs \<Longrightarrow>
   list_all2 (uploaded_as env remote roll X s) (zip (map window_of (window_ranges p (map (bytes_window (se_keyed_hash env)) qs))) es) us \<Longrightarrow>
   length us = length qs \<and>
   concat (map (\<lambda>(g, w). g @ w) (zip (map fst (map (bytes_window (se_keyed_hash env)) qs)) (map uw_chunks us))) =
     concat (map (\<lambda>(g, _, w'). map (bytes_node (se_keyed_hash env)) g @ file_nodes (se_keyed_hash env) roll w') (replacements X p qs es))"
proof (induction qs arbitrary: p es us)
  case (Cons q qs)
  let ?kh = "se_keyed_hash env"
  obtain g w where q: "q = (g, w)" by (cases q)
  obtain e es' where es: "es = e # es'" using Cons.prems(2) by (cases es) auto
  define a b where "a = p + length (concat g)" and "b = a + length (concat w)"
  have fit: "a < 2 ^ 64" "b < 2 ^ 64" "length (concat (concat (map (\<lambda>(g, w). g @ w) qs))) + b < 2 ^ 64"
    using Cons.prems(1) by (simp_all add: q a_def b_def)
  have tot: "node_total (map (bytes_node ?kh) g) = length (concat g)" "node_total (map (bytes_node ?kh) w) = length (concat w)"
    using node_total_bytes [of g ?kh] node_total_bytes [of w ?kh] fit by (simp_all add: a_def b_def)
  have wr: "map window_of (window_ranges p (map (bytes_window ?kh) (q # qs))) =
      \<lparr>dirty_byte_range = (of_nat a, of_nat b)\<rparr> # map window_of (window_ranges b (map (bytes_window ?kh) qs))"
    by (simp add: q tot a_def b_def file_range_new_def)
  obtain u us' where us: "us = u # us'" "uploaded_as env remote roll X s (\<lparr>dirty_byte_range = (of_nat a, of_nat b)\<rparr>, e) u"
    "list_all2 (uploaded_as env remote roll X s) (zip (map window_of (window_ranges b (map (bytes_window ?kh) qs))) es') us'"
    using Cons.prems(3) unfolding wr es by (auto simp: list_all2_Cons1)
  have "uw_chunks u = file_nodes ?kh roll (splice X a b e)"
    using us(2) fit by (auto simp: uploaded_as_def window_done_def u64_of_nat)
  moreover have "replacements X p (q # qs) es = (g, w, splice X a b e) # replacements X b qs es'"
    by (simp add: q es a_def b_def Let_def)
  ultimately show ?case using Cons.IH [OF fit(3) _ us(3)] Cons.prems(2) by (simp add: q us(1) es)
qed simp

lemma edited_nodes:
  assumes gear: "gear_hasher nm roll" and X: "ref_chunks roll demo_chunker X = concat (map (\<lambda>(g, w). g @ w) qs) @ r" and live: "live \<Longrightarrow> r = []"
    and rep: "replaced_ok demo_chunker live ps" "map (\<lambda>(g, w, _). (g, w)) ps = qs"
    and Z: "Z = concat (map (\<lambda>(g, _, w'). concat g @ w') ps) @ concat r"
  shows "file_nodes kh roll Z = concat (map (\<lambda>(g, _, w'). map (bytes_node kh) g @ file_nodes kh roll w') ps) @ map (bytes_node kh) r"
proof -
  have "concat (map (\<lambda>(g, w). g @ w) qs) = concat (map (\<lambda>(g, w, _). g @ w) ps)"
    unfolding rep(2) [symmetric] by (simp add: comp_def split_def)
  then have "ref_chunks roll demo_chunker X = concat (map (\<lambda>(g, w, _). g @ w) ps) @ r" using X by simp
  from gear_hasher.rechunk [OF gear _ this rep(1) live]
  have "ref_chunks roll demo_chunker Z = concat (map (\<lambda>(g, _, w'). g @ ref_chunks roll demo_chunker w') ps) @ r"
    by (simp add: Z demo_chunker_def)
  then show ?thesis by (simp add: file_nodes_eq map_concat comp_def split_def)
qed

end
