(* ===== verification/Range_Upload_Example.thy ===== *)
theory Range_Upload_Example
  imports Range_Upload_Correct
begin

text \<open>
  One small upload of an edit, evaluated: the server holds a file of three bytes, and the edit replaces them by
  three others. It is the instance at which the theorems about uploads of edits are applied.
\<close>

section \<open>The stored file\<close>

definition stored_segment :: file_data_sequence_entry where
  "stored_segment = \<lparr>fe_xorb_hash = small_hash, fe_xorb_flags = 0, fe_unpacked_segment_bytes = 3, fe_chunk_index_start = 0, fe_chunk_index_end = 1\<rparr>"

definition stored_mdb :: mdb_file_info where
  "stored_mdb =
     \<lparr>metadata = the (file_header_new small_hash 1 True False), segments = [stored_segment],
      verification = [file_verification_new (range_hash_from_chunks small_kh [small_hash])], metadata_ext = None\<rparr>"

abbreviation stored_xorbs :: store where
  "stored_xorbs \<equiv> {(small_hash, [(small_hash, 3)])}"

definition small_range_env :: range_env where
  "small_range_env = \<lparr>rg_session = small_env, rg_file_reconstruction_info = \<lambda>_. Inr (Some stored_mdb),
     rg_file_chunk_hashes = \<lambda>_ q. (case build_file_chunk_hashes_response small_kh stored_mdb q [(small_hash, 3)] of
         Some (Inr resp) \<Rightarrow> Inr resp | _ \<Rightarrow> Inl 0),
     rg_stream = \<lambda>_ a b. ([slice [7, 8, 9] (unat a) (unat b)], None)\<rparr>"

definition small_edit :: dirty_input where
  "small_edit = \<lparr>di_start = 0, di_end = 3, di_reader = [1, 2, 3], di_new_length = 3\<rparr>"

lemma small_range_simps:
  "rg_session small_range_env = small_env" "rg_file_reconstruction_info small_range_env h = Inr (Some stored_mdb)"
  by (simp_all add: small_range_env_def)

lemma stored_split: "ref_split r demo_chunker [7, 8, 9] = ([], [7, 8, 9])"
  by (rule ref_split_None) (simp add: first_cut_len_def demo_chunker_def upt_rec cut_at_def)

lemma stored_nodes: "file_nodes small_kh small_roll [7, 8, 9] = [(small_hash, 3)]"
  by (simp add: file_nodes_def file_chunks_def ref_chunks_split stored_split chunk_new_def small_hashes chunk_node_def)

lemma stored_simps:
  "segments stored_mdb = [stored_segment]" "verification stored_mdb = [file_verification_new (range_hash_from_chunks small_kh [small_hash])]"
  "fe_unpacked_segment_bytes stored_segment = 3" "seg_byte_starts_of stored_mdb = [0, 3]" "file_size stored_mdb = 3"
  by (simp_all add: stored_mdb_def stored_segment_def seg_byte_starts_of_def file_size_def Let_def)

lemma stored_describes: "describes small_kh stored_xorbs stored_mdb [(small_hash, 3)]"
  by (simp add: describes_def stored_simps contains_verification_def contains_metadata_ext_def)
    (simp add: stored_mdb_def stored_segment_def file_header_new_def try_u32_def small_agg header_contains_verification_def header_contains_metadata_ext_def
      MDB_FILE_FLAG_WITH_VERIFICATION_def MDB_FILE_FLAG_WITH_METADATA_EXT_def MDB_DEFAULT_FILE_FLAG_def
      MDB_FILE_FLAG_VERIFICATION_MASK_def MDB_FILE_FLAG_METADATA_EXT_MASK_def refers_def slice_def list_all2_Cons1)

definition stored_response :: file_chunk_hashes_response where
  "stored_response = \<lparr>cr_total_chunks = 1, cr_file_size = 3, cr_windows = [\<lparr>dirty_byte_range = (0, 3)\<rparr>], cr_hash_ranges = [None, None], cr_gap_verification = []\<rparr>"

lemma stored_answer: "build_file_chunk_hashes_response small_kh stored_mdb [file_range_new 0 3] [(small_hash, 3)] = Some (Inr stored_response)"
  by (simp add: build_file_chunk_hashes_response_def clamp_dirty_ranges_def stored_simps file_range_new_def Let_def process_chunk_def window_builder_new_def
      overlaps_dirty_at_def open_window_def merge_ahead.simps window_builder_finish_def range_to_option_eq advance_window.simps stored_response_def)

lemma stored_query: "rg_file_chunk_hashes small_range_env h [file_range_new 0 3] = Inr stored_response"
  by (simp add: small_range_env_def stored_answer)

section \<open>The upload\<close>

lemma small_query: "snap_inputs [0, 3] 3 [small_edit] = Some [(0, 3)]" "coalesce [(0, 3)] = [(0, 3)]"
  by (simp_all add: small_edit_def snap_input_def snap_to_segment_start_def snap_to_segment_end_def Let_def coalesce_def coalesce_step_def)

definition edited_window :: uploaded_window where
  "edited_window = \<lparr>uw_start = 0, uw_end = 3, uw_chunks = [(small_hash, 3)], uw_mdb = stored_mdb\<rparr>"

text \<open>The session is finalized without chunks that are left, so its last xorb is empty.\<close>

definition empty_xorb :: raw_xorb_data where
  "empty_xorb =
     \<lparr>rx_data = [],
      rx_xorb_info = \<lparr>xorb_metadata = \<lparr>xh_xorb_hash = default_hash, xh_xorb_flags = 0, xh_num_entries = 0, xh_num_bytes_in_xorb = 0, xh_num_bytes_on_disk = 0\<rparr>,
        xorb_chunks = []\<rparr>,
      rx_file_boundaries = []\<rparr>"

lemma default_not_small: "default_hash \<noteq> small_hash" "small_hash \<noteq> default_hash"
  by (simp add: small_hash_def, code_simp)+

lemma empty_xorb: "raw_xorb_from_chunks small_kh [] [] = Some empty_xorb"
  by (simp add: raw_xorb_from_chunks_def xorb_header_new_def try_u32_def xorb_hash_def empty_xorb_def MDB_DEFAULT_XORB_FLAG_def)

lemma empty_xorb_simps: "raw_xorb_hash empty_xorb = default_hash" "raw_xorb_num_bytes empty_xorb = 0" "xorb_record empty_xorb = (default_hash, [])"
  by (simp_all add: empty_xorb_def raw_xorb_hash_def raw_xorb_num_bytes_def xorb_record_def xorb_nodes_def)

lemmas stored_mdb_eq = stored_mdb_def stored_segment_def file_header_new_def try_u32_def MDB_DEFAULT_FILE_FLAG_def Let_def

lemma small_window:
  "\<exists>s. upload_window small_range_env h [small_edit] 0 3 (upload_session_new False) = Some (Inr edited_window, s) \<and>
     (\<exists>u y s'. register_composed_file stored_mdb s = Some (Inr (), u) \<and> finalize_impl small_env False u = Some (Inr y, s') \<and> us_registered s' = [small_xorb, empty_xorb])"
  by (simp add: upload_window_def edit_totals_def small_edit_def small_range_simps feed_reader.simps cleaner_bind_def session_bind_def STREAM_BLOCK_SIZE_def
      finish_with_chunks_detached_def edited_window_def small_defs)
    (simp add: register_single_file_clean_completion_detached_def process_aggregated_data_as_xorb_detached_def register_composed_file_def check_not_finalized_def
      merge_metrics_def small_end_defs stored_mdb_eq slice_def empty_xorb empty_xorb_simps default_not_small data_aggregator_default_def data_aggregator_new_def)

lemma small_combined: "combined_hash small_kh [edited_window] [None, None] 3 = Inr small_hash"
proof -
  have g: "all_gap_ranges small_kh [([], [])] [] = [None, None]" by (simp add: all_gap_ranges_def range_to_option_eq)
  have "combined_hash small_kh [edited_window] (all_gap_ranges small_kh [([], [])] []) 3 = Inr (file_hash small_kh [(small_hash, 3)])"
    by (rule combined_hash_eq) (simp_all add: edited_window_def)
  then show ?thesis unfolding g small_agg .
qed

lemma small_composed: "compose_mdb stored_mdb [0, 3] [edited_window] [] small_hash = Some (Inr stored_mdb)"
  by (simp add: compose_mdb_def compose_before.simps skip_segments.simps compose_after.simps edited_window_def stored_simps Let_def)
    (simp add: stored_mdb_eq)

lemma small_upload:
  "\<exists>s'. upload_ranges small_range_env small_hash 3 [small_edit] = Some (Inr (xet_file_info_new (hex small_hash) 3), Some s') \<and> us_registered s' = [small_xorb, empty_xorb]"
proof -
  obtain s u y s' where w: "upload_window small_range_env small_hash [small_edit] 0 3 (upload_session_new False) = Some (Inr edited_window, s)"
    "register_composed_file stored_mdb s = Some (Inr (), u)" "finalize_impl small_env False u = Some (Inr y, s')" "us_registered s' = [small_xorb, empty_xorb]"
    using small_window by blast
  have size: "validate_dirty_ranges [small_edit] 3 = Inr ()" "compute_total_size 3 [small_edit] = Inr 3" "in_window 3 3 small_edit"
    by (simp_all add: validate_dirty_ranges_def compute_total_size_def edit_totals_def in_window_def small_edit_def)
  have "upload_edited small_range_env small_hash 3 3 [small_edit] stored_mdb stored_response = Some (Inr (xet_file_info_new (hex small_hash) 3), s')"
    by (simp add: upload_edited_def stored_response_def session_bind_def size w small_range_simps small_env_simps small_combined small_composed stored_simps)
  then show ?thesis
    using w(4) by (simp add: upload_ranges_def size small_range_simps stored_simps small_query stored_query with_session_def del: snap_inputs.simps)
      (simp add: stored_response_def)
qed

end
