(* ===== verification/Range_Upload_End_To_End.thy ===== *)
theory Range_Upload_End_To_End
  imports Range_Upload_Example
begin

text \<open>
  Whole uploads of edits: the returned hash and size are those of the edited file.
\<close>

section \<open>Sizes\<close>

definition removed_bytes :: "dirty_input list \<Rightarrow> nat" where
  "removed_bytes ds = sum_list (map (\<lambda>d. unat (di_end d) - unat (di_start d)) ds)"

definition added_bytes :: "dirty_input list \<Rightarrow> nat" where
  "added_bytes ds = sum_list (map (\<lambda>d. unat (di_new_length d)) ds)"

lemma edit_totals_eq:
  assumes "edits_ok n ds"
  shows "edit_totals ds = (of_nat (removed_bytes ds), of_nat (added_bytes ds))"
proof -
  have "\<forall>d \<in> set ds. di_start d \<le> di_end d \<Longrightarrow>
    foldl (\<lambda>(r, a) d. (r + (di_end d - di_start d), a + di_new_length d)) (r, a) ds = (r + of_nat (removed_bytes ds), a + of_nat (added_bytes ds))" for r a
  proof (induction ds arbitrary: r a)
    case (Cons d ds)
    have "of_nat (unat (di_end d) - unat (di_start d)) = di_end d - di_start d"
      using Cons.prems by (simp add: of_nat_diff word_le_nat_alt)
    then show ?case using Cons by (simp add: removed_bytes_def added_bytes_def add.assoc)
  qed (simp add: removed_bytes_def added_bytes_def)
  then show ?thesis using assms by (simp add: edit_totals_def edits_ok_def)
qed

lemma length_splice:
  "edits_ok n ds \<Longrightarrow> list_all full_reader ds \<Longrightarrow> \<forall>d \<in> set ds. a \<le> unat (di_start d) \<and> unat (di_end d) \<le> b \<Longrightarrow> a \<le> b \<Longrightarrow> b \<le> length X \<Longrightarrow>
     length (splice X a b ds) + removed_bytes ds = (b - a) + added_bytes ds"
proof (induction ds arbitrary: a)
  case (Cons d ds)
  have d: "a \<le> unat (di_start d)" "unat (di_start d) \<le> unat (di_end d)" "unat (di_end d) \<le> b" "full_reader d"
    "\<forall>e \<in> set ds. unat (di_end d) \<le> unat (di_start e)" "edits_ok n ds"
    using Cons.prems by (auto simp: edits_ok_Cons)
  have "length (splice X (unat (di_end d)) b ds) + removed_bytes ds = (b - unat (di_end d)) + added_bytes ds"
    using Cons.prems d by (intro Cons.IH) auto
  then show ?case using d Cons.prems(5) by (simp add: removed_bytes_def added_bytes_def slice_def)
qed (simp add: removed_bytes_def added_bytes_def slice_def)

lemma total_size_ok:
  assumes n: "length X < 2 ^ 64" and ds: "edits_ok (length X) ds" "list_all full_reader ds" and small: "added_bytes ds < 2 ^ 64"
    and op: "compute_total_size (of_nat (length X)) ds = Inr t"
  shows "t = of_nat (length (edited X ds))" "t = 0 \<longleftrightarrow> edited X ds = []"
proof -
  let ?n = "length X" and ?A = "added_bytes ds" and ?R = "removed_bytes ds" and ?l = "length (edited X ds)"
  have t: "t = of_nat ?n + of_nat ?A - of_nat ?R" and fit: "?n + ?A < 2 ^ 64"
    using op n small by (auto simp: compute_total_size_def edit_totals_eq [OF ds(1)] Let_def u64_of_nat split: if_splits)
  have l: "?l + ?R = ?n + ?A" using length_splice [OF ds(1,2), of 0 ?n X] ds(1) by (auto simp: edited_def edits_ok_def)
  have "(of_nat ?n + of_nat ?A :: u64) = of_nat ?l + of_nat ?R" unfolding of_nat_add [symmetric] l ..
  then show t': "t = of_nat ?l" by (simp add: t)
  have "?l < 2 ^ 64" using l fit by linarith
  then have "unat t = ?l" unfolding t' by (rule u64_of_nat)
  then show "t = 0 \<longleftrightarrow> edited X ds = []" by (metis length_0_conv unat_eq_zero)
qed

section \<open>A stored file\<close>

text \<open>The server holds \<open>X\<close>: the description \<open>mdb\<close> is one of its chunks, byte ranges are delivered as they
  are, and requests for chunk hashes are answered as the builder of the windows does.\<close>

definition holds_file :: "range_env \<Rightarrow> store \<Rightarrow> (u64 \<Rightarrow> u8 \<Rightarrow> u64) \<Rightarrow> bytes \<Rightarrow> mdb_file_info \<Rightarrow> bool" where
  "holds_file env remote roll X mdb \<longleftrightarrow>
     (let kh = se_keyed_hash (rg_session env); ns = file_nodes kh roll X; h = file_hash kh ns
      in describes kh remote mdb ns \<and> rg_file_reconstruction_info env h = Inr (Some mdb) \<and> serves env h X \<and>
         (\<forall>q resp. rg_file_chunk_hashes env h q = Inr resp \<longrightarrow> build_file_chunk_hashes_response kh mdb q ns = Some (Inr resp)))"

lemma node_bytes_total: "node_bytes ns = node_total ns"
  by (simp add: node_bytes_def node_total_def split_def)

lemma refers_nonempty: "refers S e p \<Longrightarrow> p \<noteq> []"
  by (auto simp: refers_def slice_def)

lemma segments_total:
  "list_all2 (refers S) segs parts \<Longrightarrow> (\<forall>n \<in> set (concat parts). snd n \<noteq> 0) \<Longrightarrow>
     seg_total segs = node_total (concat parts) \<and> (\<forall>e \<in> set segs. 0 < unat (fe_unpacked_segment_bytes e))"
proof (induction segs parts rule: list_all2_induct)
  case (Cons e segs p parts)
  have b: "unat (fe_unpacked_segment_bytes e) = node_total p" using Cons.hyps(1) by (auto simp: refers_def node_bytes_total)
  obtain x xs where "p = x # xs" using refers_nonempty [OF Cons.hyps(1)] by (cases p) auto
  then have "0 < node_total p" using Cons.prems by (simp add: unat_gt_0)
  then show ?case using Cons b by simp
qed simp

lemma describes_size:
  assumes "describes kh S mdb (file_nodes kh roll X)" and n: "length X < 2 ^ 64"
  shows "full_segments mdb" "file_size mdb = of_nat (length X)"
proof -
  obtain parts where p: "list_all2 (refers S) (segments mdb) parts" "concat parts = file_nodes kh roll X" using assms(1) by (auto simp: describes_def)
  have "node_total (file_nodes kh roll X) = length X"
    using node_total_bytes [of "ref_chunks roll demo_chunker X" kh] n by (simp add: file_nodes_eq)
  then have t: "seg_total (segments mdb) = length X" "\<forall>e \<in> set (segments mdb). 0 < unat (fe_unpacked_segment_bytes e)"
    using segments_total [OF p(1)] p(2) file_nodes_nonzero by auto
  then show "full_segments mdb" using n by (simp add: full_segments_def)
  then show "file_size mdb = of_nat (length X)" using unat_file_size t(1) n by (metis u64_of_nat word_unat_eq_iff)
qed

section \<open>The parts of an upload\<close>

lemma upload_edited_parts:
  assumes "upload_edited env h sz t ds mdb resp = Some (Inr info, s')"
  obtains us s1 hh composed s2 y where
    "upload_windows env h sz (cr_windows resp) ds [] (upload_session_new False) = Some (Inr (us, []), s1)"
    "combined_hash (se_keyed_hash (rg_session env)) us (cr_hash_ranges resp) t = Inr hh"
    "compose_mdb mdb (seg_byte_starts_of mdb) us (cr_gap_verification resp) hh = Some (Inr composed)"
    "register_composed_file composed s1 = Some (Inr (), s2)" "finalize_impl (rg_session env) False s2 = Some (Inr y, s')"
    "info = xet_file_info_new (hex hh) t"
proof -
  obtain us left s1 where w: "upload_windows env h sz (cr_windows resp) ds [] (upload_session_new False) = Some (Inr (us, left), s1)"
    using assms by (auto simp: upload_edited_def session_bind_Inr)
  then have left: "left = []" using assms by (auto simp: upload_edited_def session_bind_Inr split: if_splits)
  obtain hh where hh: "combined_hash (se_keyed_hash (rg_session env)) us (cr_hash_ranges resp) t = Inr hh"
    using assms by (auto simp: upload_edited_def session_bind_Inr w left split: sum.splits)
  obtain composed where c: "compose_mdb mdb (seg_byte_starts_of mdb) us (cr_gap_verification resp) hh = Some (Inr composed)"
    using assms by (auto simp: upload_edited_def session_bind_Inr w left hh split: option.splits sum.splits)
  show thesis
    using assms that [OF _ hh c] by (auto simp: upload_edited_def session_bind_Inr w left hh c)
qed

lemma session_new_parts: "session_ok env remote (upload_session_new b) \<and> files_ok env remote {} {} (upload_session_new b)"
  using session_new_ok [of env remote roll b] by (simp add: run_ok_def closed_nodes_def)

lemma upload_ranges_parts:
  assumes op: "upload_ranges env h sz ds = Some (Inr info, so)" and "ds \<noteq> []" and "sz \<noteq> 0" and info: "rg_file_reconstruction_info env h = Inr (Some mdb)"
  obtains t rs resp s' where "edits_ok (unat sz) ds" "compute_total_size sz ds = Inr t" "file_size mdb = sz"
    "snap_inputs (seg_byte_starts_of mdb) sz ds = Some rs" "rg_file_chunk_hashes env h (query_of (coalesce rs)) = Inr resp"
    "upload_edited env h sz t ds mdb resp = Some (Inr info, s')" "so = Some s'"
proof -
  obtain t where t: "validate_dirty_ranges ds sz = Inr ()" "compute_total_size sz ds = Inr t"
    using op by (auto simp: upload_ranges_def rbind_Inr_iff split: sum.splits)
  have "edits_ok (unat sz) ds" using validate_loop_ok t(1) by (auto simp: validate_dirty_ranges_def)
  moreover obtain rs where rs: "file_size mdb = sz" "snap_inputs (seg_byte_starts_of mdb) sz ds = Some rs"
    using op assms(2,3) by (auto simp: upload_ranges_def t info bind_eq_Some_conv split: if_splits)
  moreover obtain resp where resp: "rg_file_chunk_hashes env h (query_of (coalesce rs)) = Inr resp"
    using op assms(2,3) by (auto simp: upload_ranges_def t info rs query_of_def Let_def split: if_splits sum.splits)
  moreover have "with_session (upload_edited env h sz t ds mdb resp) = Some (Inr info, so)"
    using op assms(2,3) by (auto simp: upload_ranges_def t info rs query_of_def Let_def resp [unfolded query_of_def] split: if_splits)
  ultimately show thesis using that t(2) by (auto simp: with_session_def)
qed

section \<open>The hash\<close>

lemma range_windows:
  assumes set: "upload_setting (rg_session env) remote roll" and f: "holds_file env remote roll X mdb" and n: "length X < 2 ^ 64"
    and small: "added_bytes ds < 2 ^ 64" and ds: "edits_ok (length X) ds" and t: "compute_total_size (of_nat (length X)) ds = Inr t"
    and rs: "snap_inputs (seg_byte_starts_of mdb) (of_nat (length X)) ds = Some rs"
  defines "kh \<equiv> se_keyed_hash (rg_session env)" and "q \<equiv> query_of (coalesce rs)"
  defines "h \<equiv> file_hash kh (file_nodes kh roll X)"
  assumes resp: "rg_file_chunk_hashes env h q = Inr resp"
    and w: "upload_windows env h (of_nat (length X)) (cr_windows resp) ds [] (upload_session_new False) = Some (Inr (us, []), s')"
  obtains qs r es where "ref_chunks roll demo_chunker X = concat (map (\<lambda>(g, w). g @ w) qs) @ r"
    "cr_windows resp = map window_of (window_ranges 0 (map (bytes_window kh) qs))" "length es = length qs" "length us = length qs"
    "session_ok (rg_session env) remote s'" "files_ok (rg_session env) remote {} {} s'"
    "list_all2 (uploaded_as (rg_session env) remote roll X s') (zip (cr_windows resp) es) us"
    "file_nodes kh roll (edited X ds) = concat (map (\<lambda>(g, _, w'). map (bytes_node kh) g @ file_nodes kh roll w') (replacements X 0 qs es)) @ map (bytes_node kh) r"
    "combined_hash kh us (cr_hash_ranges resp) t = Inr (file_hash kh (file_nodes kh roll (edited X ds)))"
    "t = of_nat (length (edited X ds))" "map (\<lambda>(g, w, _). (g, w)) (replacements X 0 qs es) = qs" "\<forall>(g, w) \<in> set qs. concat w \<noteq> []"
    "cr_gap_verification resp = (if verification mdb = [] then []
       else stable_segment_hashes (window_ranges 0 (map (bytes_window kh) qs)) (zip (segments mdb) (verification mdb)) 0 0)" "\<not> ss_dry_run (us_shards s')"
proof -
  let ?env = "rg_session env" and ?n = "of_nat (length X) :: u64"
  note hf = f [unfolded holds_file_def Let_def, folded kh_def, folded h_def]
  have un: "unat ?n = length X" by (rule u64_of_nat [OF n])
  note sz = describes_size [OF conjunct1 [OF hf] n]
  note qk = query_ok [OF sz(1,2) _ rs, folded q_def, unfolded un, OF ds]
  have ans: "build_file_chunk_hashes_response kh mdb q (file_nodes kh roll X) = Some (Inr resp)" using hf resp by blast
  obtain qs r live where p: "ref_chunks roll demo_chunker X = concat (map (\<lambda>(g, w). g @ w) qs) @ r"
    "windows_ok q live 0 (map (bytes_window kh) qs)" "live \<longrightarrow> r = []" "qs \<noteq> []"
    "cr_windows resp = map window_of (window_ranges 0 (map (bytes_window kh) qs))"
    "cr_hash_ranges resp = all_gap_ranges kh (map (bytes_window kh) qs) (map (bytes_node kh) r)"
    "cr_gap_verification resp = (if verification mdb = [] then []
       else stable_segment_hashes (window_ranges 0 (map (bytes_window kh) qs)) (zip (segments mdb) (verification mdb)) 0 0)"
    by (rule answer_plan [OF n sz(2) qk(1,2) ans])
  have X: "X = [] @ concat (concat (map (\<lambda>(g, w). g @ w) qs)) @ concat r" using arg_cong [OF p(1), of concat] by simp
  obtain es where deal: "deal_edits ?n (cr_windows resp) ds = (es, [])" using upload_windows_left [OF w] by (metis prod.collapse)
  have len: "length (window_ranges a ps) = length ps" for a ps by (induction a ps rule: window_ranges.induct) auto
  note dc = deal_edits_concat [OF deal]
  have les: "length es = length qs" using dc by (simp add: p(5) len)
  have plan: "edited X ds = concat (map (\<lambda>(g, _, w'). concat g @ w') (replacements X 0 qs es)) @ concat r"
      "replaced_ok demo_chunker live (replacements X 0 qs es)" "map (\<lambda>(g, w, _). (g, w)) (replacements X 0 qs es) = qs"
      "dealt_inside (cr_windows resp) es"
    using plan_edits [OF n qk(1) X _ p(2) p(3) [rule_format] ds _ deal [unfolded p(5)]] qk(3) by (auto simp: edited_def p(5))
  have serv: "serves env h X" using hf by blast
  from upload_windows_ok [OF set serv ds deal plan(4) conjunct1 [OF session_new_parts] conjunct2 [OF session_new_parts] w]
  have u: "session_ok ?env remote s'" "files_ok ?env remote {} {} s'" "list_all2 (uploaded_as ?env remote roll X s') (zip (cr_windows resp) es) us"
    "\<not> ss_dry_run (us_shards s')"
    by (auto simp: grow_def upload_session_new_def session_shard_interface_new_def)
  have "length (concat (concat (map (\<lambda>(g, w). g @ w) qs))) + 0 < 2 ^ 64" using arg_cong [OF X, of length] n by simp
  note un = uploaded_nodes [OF this les u(3) [unfolded p(5) kh_def], folded kh_def]
  have gear: "gear_hasher (se_next_match ?env) roll" using set by (simp add: upload_setting_def)
  note en = edited_nodes [OF gear p(1) p(3) [rule_format] plan(2,3,1), of kh]
  have "full_reader d" if d: "d \<in> set ds" for d
  proof -
    obtain e where e: "e \<in> set es" "d \<in> set e" using dc d by auto
    then obtain wd where "(wd, e) \<in> set (zip (cr_windows resp) es)" using dc by (metis in_set_impl_in_set_zip2)
    then obtain v where "uploaded_as ?env remote roll X s' (wd, e) v" using list_all2_sets(1) [OF u(3)] by blast
    then show ?thesis using e(2) by (auto simp: uploaded_as_def list_all_iff)
  qed
  then have "list_all full_reader ds" by (simp add: list_all_iff)
  note tot = total_size_ok [OF n ds this small t]
  have "combined_hash kh us (cr_hash_ranges resp) t = Inr (file_hash kh (file_nodes kh roll (edited X ds)))"
    unfolding p(6)
  proof (rule combined_hash_eq)
    show "us \<noteq> []" using un p(4) by auto
    have "file_nodes kh roll Z = [] \<longleftrightarrow> Z = []" for Z by (metis file_nodes_eq list.map_disc_iff concat_ref_chunks concat.simps(1) ref_Nil(2))
    then show "t = 0 \<longleftrightarrow> file_nodes kh roll (edited X ds) = []" using tot(2) by simp
  qed (use un en in simp_all)
  moreover have "\<forall>(g, w) \<in> set qs. concat w \<noteq> []"
  proof -
    have "w \<noteq> []" if "(g, w) \<in> set qs" for g w using windows_ok_nonempty [OF p(2), of "map (bytes_node kh) g" "map (bytes_node kh) w"] that by force
    moreover have "c \<noteq> []" if "(g, w) \<in> set qs" "c \<in> set w" for g w c
    proof -
      have "c \<in> set (ref_chunks roll demo_chunker X)" using that by (force simp: p(1))
      then show ?thesis using file_chunks_bounds [of kh roll X] by (force simp: file_chunks_def list_all_iff chunk_new_def)
    qed
    ultimately show ?thesis by (fastforce simp: neq_Nil_conv)
  qed
  ultimately show thesis using that [OF p(1,5) les _ u(1-3) en _ tot(1) plan(3) _ p(7) u(4)] un by blast
qed

text \<open>A file that was empty is uploaded as the new bytes.\<close>

lemma fed_fresh:
  "upload_setting env remote roll \<Longrightarrow> fed env remote roll b x c s \<Longrightarrow> feed_fresh env ds c s = Some (Inr (), c', s') \<Longrightarrow>
     fed env remote roll b (x @ concat (map (\<lambda>d. take (unat (di_new_length d)) (di_reader d)) ds)) c' s'"
proof (induction ds arbitrary: x c s)
  case (Cons d ds)
  then obtain c1 s1 where "feed_reader env (di_reader d) (unat (di_new_length d)) c s = Some (Inr (), c1, s1)"
    "feed_fresh env ds c1 s1 = Some (Inr (), c', s')"
    by (auto simp: cleaner_bind_Inr)
  then show ?case using Cons.IH [OF Cons.prems(1) conjunct2 [OF fed_reader [OF Cons.prems(1,2)]]] by simp
qed simp

lemma edited_empty: "edited [] ds = concat (map (\<lambda>d. take (unat (di_new_length d)) (di_reader d)) ds)"
proof -
  have "splice [] a b ds = concat (map (\<lambda>d. take (unat (di_new_length d)) (di_reader d)) ds)" for a b
    by (induction ds arbitrary: a) (simp_all add: slice_def)
  then show ?thesis by (simp add: edited_def)
qed

lemma upload_fresh_ok:
  assumes set: "upload_setting env remote roll" and op: "upload_fresh_file env ds t = Some (Inr info, s')"
  shows "xf_hash info = hex (file_hash (se_keyed_hash env) (file_nodes (se_keyed_hash env) roll (edited [] ds)))"
proof -
  obtain c0 s0 c1 s1 m s2 where st: "start_clean (Some t) Skip (upload_session_new False) = Some (Inr c0, s0)"
    and fd: "feed_fresh env ds c0 s0 = Some (Inr (), c1, s1)" and fin: "finish env c1 s1 = Some (Inr (info, m), s2)"
    using op by (auto simp: upload_fresh_file_def session_bind_Inr split: option.splits prod.splits sum.splits)
  note c0 = start_clean_ok [OF conjunct1 [OF session_new_parts] conjunct2 [OF session_new_parts] st, of env remote roll]
  have "fed env remote roll s0 [] c0 s0" using c0 by (simp add: fed_def)
  note f = fed_fresh [OF set this fd]
  have "\<not> broken c1" using finish_broken [of c1 env True s1] fin by (fastforce simp: finish_def finish_with_chunks_def rbind_Inr_iff)
  then have c1: "session_ok env remote s1" "frame s0 s1" "cleaner_ok env remote roll s1 (edited [] ds) c1"
    using f by (simp_all add: fed_def edited_empty)
  have "gear_hasher (se_next_match env) roll" "honest_server env remote" using set by (simp_all add: upload_setting_def)
  from finish_ok [OF this c1(1,3) files_ok_frame [OF _ c1(2)] fin] c0 show ?thesis by blast
qed

text \<open>
  (C5) An upload of edits gives the file that a full upload of the edited bytes gives. Let the server hold a
  file, and let any list of edits (replacements, insertions, deletions) be uploaded by its ranges without
  an error. Then the returned hash is the hash of the chunks of the edited file, although only the windows
  around the edits were cut into chunks and the rest entered the hash as subtrees; the returned size is the
  size of the edited file.
\<close>

theorem range_upload_hash:
  assumes set: "upload_setting (rg_session env) remote roll" and f: "holds_file env remote roll X mdb" and n: "length X < 2 ^ 64"
    and small: "added_bytes ds < 2 ^ 64"
    and op: "upload_ranges env (file_hash (se_keyed_hash (rg_session env)) (file_nodes (se_keyed_hash (rg_session env)) roll X))
      (of_nat (length X)) ds = Some (Inr info, so)"
  shows "xf_hash info = hex (file_hash (se_keyed_hash (rg_session env)) (file_nodes (se_keyed_hash (rg_session env)) roll (edited X ds))) \<and>
    (X \<noteq> [] \<longrightarrow> xf_file_size info = Some (of_nat (length (edited X ds))))"
proof -
  let ?kh = "se_keyed_hash (rg_session env)" and ?n = "of_nat (length X) :: u64"
  let ?h = "file_hash ?kh (file_nodes ?kh roll X)"
  have un: "unat ?n = length X" by (rule u64_of_nat [OF n])
  consider (none) "ds = []" | (fresh) "ds \<noteq> []" "X = []" | (edit) "ds \<noteq> []" "X \<noteq> []" by blast
  then show ?thesis
  proof cases
    case none
    have "edited X [] = X" by (simp add: edited_def slice_def)
    then show ?thesis using op none by (auto simp: upload_ranges_def xet_file_info_new_def split: sum.splits)
  next
    case fresh
    obtain t s' where "upload_fresh_file (rg_session env) ds t = Some (Inr info, s')"
      using op fresh by (auto simp: upload_ranges_def with_session_def split: sum.splits)
    then show ?thesis using upload_fresh_ok [OF set] fresh(2) by simp
  next
    case edit
    then have nz: "?n \<noteq> 0" using un by (metis length_0_conv unat_0)
    have info: "rg_file_reconstruction_info env ?h = Inr (Some mdb)" using f by (simp add: holds_file_def Let_def)
    obtain t rs resp s' where p: "edits_ok (length X) ds" "compute_total_size ?n ds = Inr t" "file_size mdb = ?n"
      "snap_inputs (seg_byte_starts_of mdb) ?n ds = Some rs" "rg_file_chunk_hashes env ?h (query_of (coalesce rs)) = Inr resp"
      "upload_edited env ?h ?n t ds mdb resp = Some (Inr info, s')"
      using upload_ranges_parts [OF op edit(1) nz info] unfolding un by metis
    obtain us s1 hh where e: "upload_windows env ?h ?n (cr_windows resp) ds [] (upload_session_new False) = Some (Inr (us, []), s1)"
      "combined_hash ?kh us (cr_hash_ranges resp) t = Inr hh" "info = xet_file_info_new (hex hh) t"
      using p(6) by (rule upload_edited_parts)
    have "hh = file_hash ?kh (file_nodes ?kh roll (edited X ds))" "t = of_nat (length (edited X ds))"
      by (rule range_windows [OF set f n small p(1,2,4,5) e(1)], use e(2) in simp)+
    then show ?thesis by (simp add: e(3) xet_file_info_new_def)
  qed
qed

lemma small_holds: "holds_file small_range_env stored_xorbs small_roll [7, 8, 9] stored_mdb" "upload_setting small_env stored_xorbs small_roll"
  using stored_describes gear.gear_hasher_axioms
  by (simp_all add: holds_file_def upload_setting_def small_range_simps small_env_simps stored_nodes small_agg Let_def honest_server_def honest_answer_def)
    (auto simp: small_range_env_def serves_def split: option.splits sum.splits)

lemma small_edited: "edited [7, 8, 9] [small_edit] = [1, 2, 3]" "added_bytes [small_edit] = 3"
  by (simp_all add: edited_def small_edit_def slice_def added_bytes_def)

theorem range_upload_hash_witness:
  "\<exists>info s'. upload_ranges small_range_env (file_hash small_kh (file_nodes small_kh small_roll [7, 8, 9])) 3 [small_edit] = Some (Inr info, Some s') \<and>
     xf_hash info = hex (file_hash small_kh (file_nodes small_kh small_roll [1, 2, 3])) \<and> xf_file_size info = Some 3"
proof -
  obtain info s' where up: "upload_ranges small_range_env (file_hash small_kh (file_nodes small_kh small_roll [7, 8, 9])) 3 [small_edit] = Some (Inr info, Some s')"
    using small_upload by (auto simp: stored_nodes small_agg)
  show ?thesis
    using range_upload_hash [of small_range_env stored_xorbs small_roll "[7, 8, 9]" stored_mdb "[small_edit]" info "Some s'"] up small_holds
    by (auto simp: small_range_simps small_env_simps small_edited)
qed

end
