(* ===== verification/Range_Describes.thy ===== *)
theory Range_Describes
  imports Range_Compose Range_Upload_End_To_End
begin

text \<open>
  The description that an upload of edits registers: where the windows start and end with segments of the
  original file, the composed segments refer to the chunks of the edited file, and the whole upload leaves a
  file on the server that is the edited one.
\<close>

section \<open>Segments and the chunks they stand for\<close>

definition spelled :: "keyed_hash \<Rightarrow> store \<Rightarrow> file_data_sequence_entry list \<Rightarrow> file_verification_entry list \<Rightarrow> node list \<Rightarrow> bool" where
  "spelled kh S es vs ns \<longleftrightarrow> (\<exists>parts. list_all2 (refers S) es parts \<and> concat parts = ns \<and>
     vs = map (\<lambda>p. file_verification_new (range_hash_from_chunks kh (map fst p))) parts)"

lemma spelled_Nil [simp]: "spelled kh S [] [] []"
  by (simp add: spelled_def)

lemma spelled_append: "spelled kh S es vs ns \<Longrightarrow> spelled kh S es' vs' ns' \<Longrightarrow> spelled kh S (es @ es') (vs @ vs') (ns @ ns')"
  unfolding spelled_def by (metis concat_append list_all2_appendI map_append)

lemma spelled_split:
  assumes "spelled kh S (es @ es') (vs @ vs') ns" and "length vs = length es"
  obtains n1 n2 where "ns = n1 @ n2" "spelled kh S es vs n1" "spelled kh S es' vs' n2"
proof -
  obtain parts where p: "list_all2 (refers S) (es @ es') parts" "concat parts = ns"
    "vs @ vs' = map (\<lambda>p. file_verification_new (range_hash_from_chunks kh (map fst p))) parts"
    using assms(1) by (auto simp: spelled_def)
  obtain p1 p2 where q: "parts = p1 @ p2" "list_all2 (refers S) es p1" "list_all2 (refers S) es' p2"
    using p(1) by (auto simp: list_all2_append1)
  have "length p1 = length vs" using q(2) assms(2) by (simp add: list_all2_lengthD)
  then have "vs = map (\<lambda>p. file_verification_new (range_hash_from_chunks kh (map fst p))) p1"
    "vs' = map (\<lambda>p. file_verification_new (range_hash_from_chunks kh (map fst p))) p2"
    using p(3) by (simp_all add: q(1))
  then show thesis using that [of "concat p1" "concat p2"] p(2) q by (auto simp: spelled_def)
qed

lemma spelled_mono: "spelled kh S es vs ns \<Longrightarrow> S \<subseteq> G \<Longrightarrow> spelled kh G es vs ns"
  unfolding spelled_def refers_def by (blast intro: list_all2_mono)

lemma spelled_lengths: "spelled kh S es vs ns \<Longrightarrow> length vs = length es"
  by (auto simp: spelled_def list_all2_lengthD)

lemma spelled_total: "spelled kh S es vs ns \<Longrightarrow> seg_total es = node_total ns"
proof -
  have "list_all2 (refers S) es parts \<Longrightarrow> seg_total es = node_total (concat parts)" for parts
    by (induction es parts rule: list_all2_induct) (auto simp: refers_def node_bytes_total)
  then show "spelled kh S es vs ns \<Longrightarrow> seg_total es = node_total ns" by (auto simp: spelled_def)
qed

lemma describes_spelled: "describes kh S mdb ns \<Longrightarrow> spelled kh S (segments mdb) (verification mdb) ns"
  by (auto simp: describes_def spelled_def)

text \<open>Lists of nonempty chunks are equal up to a byte position.\<close>

lemma node_prefix:
  "xs @ ys = us @ vs \<Longrightarrow> node_total xs = node_total us \<Longrightarrow> \<forall>n \<in> set (xs @ ys). snd n \<noteq> 0 \<Longrightarrow> xs = us \<and> ys = vs"
proof (induction xs arbitrary: us)
  case Nil
  then have "us = []" by (cases us) (auto simp: unat_eq_zero)
  then show ?case using Nil by simp
next
  case (Cons x xs)
  then obtain us' where "us = x # us'" by (cases us) (auto simp: unat_eq_zero)
  then show ?case using Cons by simp
qed

section \<open>Windows that are made of segments\<close>

fun chain :: "nat \<Rightarrow> (nat \<times> nat) list \<Rightarrow> bool" where
  "chain p [] \<longleftrightarrow> True"
| "chain p ((a, b) # ws) \<longleftrightarrow> p \<le> a \<and> a < b \<and> chain b ws"

lemma split_items:
  assumes o: "original mdb (pre @ xs)" and y: "y \<in> unat ` set (seg_byte_starts_of mdb)" "items_total pre \<le> y"
  obtains g rest where "xs = g @ rest" "y = items_total (pre @ g)"
proof -
  have full: "full_segments mdb" using o by (auto simp: original_def full_items_def full_segments_def)
  obtain i where i: "i \<le> length (segments mdb)" "y = unat (seg_byte_starts_of mdb ! i)"
    using y(1) seg_starts(1) [OF full] by (auto simp: in_set_conv_nth less_Suc_eq_le)
  have t: "y = items_total (take i (pre @ xs))" using seg_starts(2) [OF full i(1)] i(2) o by (simp add: original_def take_map)
  have "length pre \<le> i"
  proof (rule ccontr)
    assume less: "\<not> length pre \<le> i"
    then have "drop i pre \<noteq> []" "take i (pre @ xs) = take i pre" by simp_all
    moreover have "items_total pre = items_total (take i pre) + items_total (drop i pre)"
      by (metis append_take_drop_id map_append seg_total_simps(3))
    moreover have "full_items (drop i pre)"
      using o full_items_append [of "take i pre" "drop i pre"] full_items_append [of pre xs] by (simp add: original_def)
    ultimately have "items_total (take i pre) < items_total pre"
      using items_total_pos [of "drop i pre"] by linarith
    moreover have "y = items_total (take i pre)" using t less by simp
    ultimately show False using y(2) by simp
  qed
  then show thesis using that [of "take (i - length pre) xs" "drop (i - length pre) xs"] t by simp
qed

lemma groups_exist:
  "original mdb (pre @ xs) \<Longrightarrow> chain (items_total pre) ws \<Longrightarrow>
     \<forall>(a, b) \<in> set ws. a \<in> unat ` set (seg_byte_starts_of mdb) \<and> b \<in> unat ` set (seg_byte_starts_of mdb) \<Longrightarrow>
     \<exists>gs rest. xs = concat (map (\<lambda>(g, w). g @ w) gs) @ rest \<and> item_groups (items_total pre) ws gs"
proof (induction ws arbitrary: pre xs)
  case Nil
  then show ?case by (intro exI [of _ "[]"] exI [of _ xs]) simp
next
  case (Cons ab ws)
  obtain a b where ab: "ab = (a, b)" by force
  obtain g ys where g: "xs = g @ ys" "a = items_total (pre @ g)" using split_items [OF Cons.prems(1), of a] Cons.prems(2,3) by (auto simp: ab)
  have o: "original mdb ((pre @ g) @ ys)" using Cons.prems(1) g(1) by simp
  obtain w zs where w: "ys = w @ zs" "b = items_total ((pre @ g) @ w)" using split_items [OF o, of b] Cons.prems(2,3) g(2) by (auto simp: ab)
  have "original mdb ((pre @ g @ w) @ zs)" using o w(1) by simp
  from Cons.IH [OF this] obtain gs rest where "zs = concat (map (\<lambda>(g, w). g @ w) gs) @ rest" "item_groups (items_total (pre @ g @ w)) ws gs"
    using Cons.prems(2,3) w(2) by (auto simp: ab)
  moreover have "w \<noteq> []" using Cons.prems(2) w(2) g(2) by (auto simp: ab)
  ultimately show ?case using g w by (intro exI [of _ "(g, w) # gs"] exI [of _ rest]) (simp add: ab add.assoc)
qed

text \<open>The positions of windows of bytes.\<close>

fun byte_positions :: "nat \<Rightarrow> (bytes list \<times> bytes list) list \<Rightarrow> (nat \<times> nat) list" where
  "byte_positions p [] = []"
| "byte_positions p ((g, w) # qs) =
     (let a = p + length (concat g); b = a + length (concat w) in (a, b) # byte_positions b qs)"

lemma positions_windows:
  "p + length (concat (concat (map (\<lambda>(g, w). g @ w) qs))) < 2 ^ 64 \<Longrightarrow>
     positions (byte_positions p qs) = window_ranges p (map (bytes_window kh) qs) \<and> (\<forall>(a, b) \<in> set (byte_positions p qs). a < 2 ^ 64 \<and> b < 2 ^ 64)"
proof (induction p qs rule: byte_positions.induct)
  case (2 p g w qs)
  let ?a = "p + length (concat g)"
  have tot: "node_total (map (bytes_node kh) g) = length (concat g)" "node_total (map (bytes_node kh) w) = length (concat w)"
    using node_total_bytes [of g kh] node_total_bytes [of w kh] "2.prems" by simp_all
  have "positions (byte_positions (?a + length (concat w)) qs) = window_ranges (?a + length (concat w)) (map (bytes_window kh) qs) \<and>
      (\<forall>(a, b) \<in> set (byte_positions (?a + length (concat w)) qs). a < 2 ^ 64 \<and> b < 2 ^ 64)"
    using "2.prems" by (intro "2.IH" [OF refl refl]) (simp add: add.assoc)
  then show ?case using "2.prems" by (simp add: Let_def tot)
qed simp

lemma positions_chain: "\<forall>(g, w) \<in> set qs. concat w \<noteq> [] \<Longrightarrow> chain p (byte_positions p qs)"
  by (induction p qs rule: byte_positions.induct) (auto simp: Let_def)

abbreviation item_verification :: "item list \<Rightarrow> file_verification_entry list" where
  "item_verification xs \<equiv> map (\<lambda>x. file_verification_new (snd x)) xs"

text \<open>The segments of a gap spell the chunks of the gap.\<close>

lemma group_nodes:
  "item_groups p (byte_positions p qs) gs \<Longrightarrow>
   spelled kh S (map fst (concat (map (\<lambda>(g, w). g @ w) gs) @ rest)) (item_verification (concat (map (\<lambda>(g, w). g @ w) gs) @ rest))
     (map (bytes_node kh) (concat (map (\<lambda>(g, w). g @ w) qs) @ r)) \<Longrightarrow>
   length (concat (concat (map (\<lambda>(g, w). g @ w) qs))) < 2 ^ 64 \<Longrightarrow> \<forall>n \<in> set (map (bytes_node kh) (concat (map (\<lambda>(g, w). g @ w) qs) @ r)). snd n \<noteq> 0 \<Longrightarrow>
   list_all2 (\<lambda>(x, _) (g, _). spelled kh S (map fst x) (item_verification x) (map (bytes_node kh) g)) gs qs \<and>
   spelled kh S (map fst rest) (item_verification rest) (map (bytes_node kh) r)"
proof (induction p qs arbitrary: gs rule: byte_positions.induct)
  case (1 p)
  then show ?case by (cases gs) auto
next
  case (2 p g w qs)
  let ?nd = "map (bytes_node kh)" and ?q = "concat (map (\<lambda>(g, w). g @ w) qs) @ r"
  obtain x y gs' where gs: "gs = (x, y) # gs'" using "2.prems"(1) by (cases gs) (auto simp: Let_def)
  let ?g = "concat (map (\<lambda>(g, w). g @ w) gs') @ rest"
  have pos: "items_total x = length (concat g)" "items_total y = length (concat w)"
    "item_groups (p + length (concat g) + length (concat w)) (byte_positions (p + length (concat g) + length (concat w)) qs) gs'"
    using "2.prems"(1) by (auto simp: gs Let_def)
  have fit: "length (concat g) < 2 ^ 64" "length (concat w) < 2 ^ 64" using "2.prems"(3) by simp_all
  have sp: "spelled kh S (map fst x @ map fst (y @ ?g)) (item_verification x @ item_verification (y @ ?g)) (?nd g @ ?nd (w @ ?q))"
    using "2.prems"(2) by (simp add: gs)
  obtain n1 m where n1: "?nd g @ ?nd (w @ ?q) = n1 @ m" "spelled kh S (map fst x) (item_verification x) n1"
    "spelled kh S (map fst (y @ ?g)) (item_verification (y @ ?g)) m"
    by (rule spelled_split [OF sp]) simp_all
  have nz: "\<forall>n \<in> set (?nd g @ ?nd (w @ ?q)). snd n \<noteq> 0" using "2.prems"(4) by auto
  have "?nd g = n1 \<and> ?nd (w @ ?q) = m"
    using spelled_total [OF n1(2)] pos(1) node_total_bytes [OF fit(1)] by (intro node_prefix [OF n1(1) _ nz]) simp
  then have g: "spelled kh S (map fst x) (item_verification x) (?nd g)" and m: "m = ?nd w @ ?nd ?q" using n1(2) by auto
  obtain n2 k where n2: "?nd w @ ?nd ?q = n2 @ k" "spelled kh S (map fst y) (item_verification y) n2"
    "spelled kh S (map fst ?g) (item_verification ?g) k"
    by (rule spelled_split [of kh S "map fst y" "map fst ?g" "item_verification y" "item_verification ?g" m]) (use n1(3) m in simp_all)
  have "?nd w = n2 \<and> ?nd ?q = k"
    using spelled_total [OF n2(2)] pos(2) node_total_bytes [OF fit(2)] nz by (intro node_prefix [OF n2(1)]) simp_all
  then have "spelled kh S (map fst ?g) (item_verification ?g) (?nd ?q)" using n2(3) by simp
  from "2.IH" [OF refl refl pos(3) this] show ?case using "2.prems"(3) nz g by (auto simp: gs)
qed

lemma composed_spelled:
  "list_all2 (\<lambda>(x, _) (g, _). spelled kh G (map fst x) (item_verification x) (map (bytes_node kh) g)) gs qs \<Longrightarrow>
   list_all2 (\<lambda>u (_, _, w'). spelled kh G (segments (uw_mdb u)) (verification (uw_mdb u)) (file_nodes kh roll w')) us ps \<Longrightarrow>
   map (\<lambda>(g, w, _). (g, w)) ps = qs \<Longrightarrow>
   spelled kh G (composed_segments gs us) (composed_verification gs us) (concat (map (\<lambda>(g, _, w'). map (bytes_node kh) g @ file_nodes kh roll w') ps))"
proof (induction gs qs arbitrary: us ps rule: list_all2_induct)
  case Nil
  then show ?case by simp
next
  case (Cons x gs q qs)
  obtain xg xw g w where x: "x = (xg, xw)" "q = (g, w)" by force
  obtain p' ps' w' where ps: "ps = (g, w, w') # ps'" "map (\<lambda>(g, w, _). (g, w)) ps' = qs" using Cons.prems(2) by (auto simp: x)
  obtain u us' where us: "us = u # us'" "spelled kh G (segments (uw_mdb u)) (verification (uw_mdb u)) (file_nodes kh roll w')"
    "list_all2 (\<lambda>u (_, _, w'). spelled kh G (segments (uw_mdb u)) (verification (uw_mdb u)) (file_nodes kh roll w')) us' ps'"
    using Cons.prems(1) by (auto simp: ps(1) list_all2_Cons2)
  show ?case
    using spelled_append [OF spelled_append [OF _ us(2)] Cons.IH [OF us(3) ps(2)], of "map fst xg" "item_verification xg" "map (bytes_node kh) g"]
      Cons.hyps(1) by (simp add: x ps(1) us(1))
qed

section \<open>The composed description\<close>

definition segment_windows :: "mdb_file_info \<Rightarrow> file_chunk_hashes_response \<Rightarrow> bool" where
  "segment_windows mdb resp \<longleftrightarrow> (\<forall>w \<in> set (cr_windows resp).
     fst (dirty_byte_range w) \<in> set (seg_byte_starts_of mdb) \<and> snd (dirty_byte_range w) \<in> set (seg_byte_starts_of mdb))"

definition mdb_items :: "mdb_file_info \<Rightarrow> item list" where
  "mdb_items mdb = zip (segments mdb) (map fv_range_hash (verification mdb))"

lemma mdb_items_ok:
  assumes "describes kh S mdb ns" and "full_segments mdb"
  shows "original mdb (mdb_items mdb)" "item_verification (mdb_items mdb) = verification mdb" "verified (mdb_items mdb) = zip (segments mdb) (verification mdb)"
proof -
  obtain parts where p: "list_all2 (refers S) (segments mdb) parts" "verification mdb = map (\<lambda>p. file_verification_new (range_hash_from_chunks kh (map fst p))) parts"
    using assms(1) by (auto simp: describes_def)
  have len: "length (verification mdb) = length (segments mdb)" using p by (simp add: list_all2_lengthD)
  have v: "map (\<lambda>v. file_verification_new (fv_range_hash v)) (verification mdb) = verification mdb"
    by (simp add: p(2) file_verification_new_def)
  have f: "map fst (mdb_items mdb) = segments mdb" "map snd (mdb_items mdb) = map fv_range_hash (verification mdb)" using len by (simp_all add: mdb_items_def)
  have "(\<forall>x \<in> set (mdb_items mdb). 0 < unat (fe_unpacked_segment_bytes (fst x))) \<longleftrightarrow> (\<forall>e \<in> set (segments mdb). 0 < unat (fe_unpacked_segment_bytes e))"
    unfolding f(1) [symmetric] by simp
  then show "original mdb (mdb_items mdb)" using assms(2) f(1) by (simp add: original_def full_items_def full_segments_def)
  have iv: "item_verification xs = map file_verification_new (map snd xs)" for xs by simp
  show iv': "item_verification (mdb_items mdb) = verification mdb" unfolding iv f(2) using v by (simp add: comp_def)
  have "verified xs = zip (map fst xs) (item_verification xs)" for xs by (induction xs) auto
  then show "verified (mdb_items mdb) = zip (segments mdb) (verification mdb)" by (simp only: f(1) iv')
qed

lemma file_header_describes:
  assumes "file_header_new h k True False = Some header"
  shows "fh_file_hash header = h" "unat (fh_num_entries header) = k" "header_contains_verification header" "\<not> header_contains_metadata_ext header"
  using assms by (auto simp: file_header_new_def try_u32_eq_Some header_contains_verification_def header_contains_metadata_ext_def
      MDB_DEFAULT_FILE_FLAG_def MDB_FILE_FLAG_WITH_VERIFICATION_def MDB_FILE_FLAG_VERIFICATION_MASK_def MDB_FILE_FLAG_METADATA_EXT_MASK_def)

lemma legible_subset: "legible env G ns \<Longrightarrow> set ms \<subseteq> set ns \<Longrightarrow> length ms \<le> length ns \<Longrightarrow> legible env G ms"
  by (auto simp: legible_def intro: collision_free_mono)

text \<open>The windows as uploaded, each with the description of its chunks.\<close>

lemma uploaded_spelled:
  assumes G: "good_store G" "session_store remote s \<subseteq> G"
  shows "length (concat (concat (map (\<lambda>(g, w). g @ w) qs))) + p < 2 ^ 64 \<Longrightarrow> length es = length qs \<Longrightarrow>
   list_all2 (uploaded_as env remote roll X s) (zip (map window_of (positions (byte_positions p qs))) es) us \<Longrightarrow>
   \<forall>(_, _, w') \<in> set (replacements X p qs es). legible env G (file_nodes (se_keyed_hash env) roll w') \<Longrightarrow>
   map (\<lambda>u. (unat (uw_start u), unat (uw_end u))) us = byte_positions p qs \<and>
   list_all2 (\<lambda>u (_, _, w'). describes (se_keyed_hash env) G (uw_mdb u) (file_nodes (se_keyed_hash env) roll w')) us (replacements X p qs es)"
proof (induction qs arbitrary: p es us)
  case (Cons q qs)
  let ?kh = "se_keyed_hash env"
  obtain g w where q: "q = (g, w)" by (cases q)
  obtain e es' where es: "es = e # es'" using Cons.prems(2) by (cases es) auto
  define a b where "a = p + length (concat g)" and "b = a + length (concat w)"
  have fit: "a < 2 ^ 64" "b < 2 ^ 64" "length (concat (concat (map (\<lambda>(g, w). g @ w) qs))) + b < 2 ^ 64"
    using Cons.prems(1) by (simp_all add: q a_def b_def)
  have bp: "byte_positions p (q # qs) = (a, b) # byte_positions b qs" by (simp add: q a_def b_def Let_def)
  have r: "replacements X p (q # qs) es = (g, w, splice X a b e) # replacements X b qs es'" by (simp add: q es a_def b_def Let_def)
  obtain u us' where us: "us = u # us'" "uploaded_as env remote roll X s (\<lparr>dirty_byte_range = (of_nat a, of_nat b)\<rparr>, e) u"
    "list_all2 (uploaded_as env remote roll X s) (zip (map window_of (positions (byte_positions b qs))) es') us'"
    using Cons.prems(3) unfolding bp es by (auto simp: list_all2_Cons1 file_range_new_def)
  have u: "unat (uw_start u) = a" "unat (uw_end u) = b" "window_done env remote roll s (splice X a b e) (uw_chunks u) (uw_mdb u)"
    using us(2) fit by (auto simp: uploaded_as_def u64_of_nat)
  have "describes ?kh G (uw_mdb u) (file_nodes ?kh roll (splice X a b e))"
    using u(3) Cons.prems(4) G unfolding r window_done_def over_def by auto
  moreover have "\<forall>(_, _, w') \<in> set (replacements X b qs es'). legible env G (file_nodes ?kh roll w')" using Cons.prems(4) unfolding r by auto
  ultimately show ?case using Cons.IH [OF fit(3) _ us(3)] Cons.prems(2) u unfolding r bp by (simp add: us(1) es)
qed simp

lemma composed_describes:
  fixes X :: bytes
  assumes d: "describes kh remote mdb (file_nodes kh roll X)" and n: "length X < 2 ^ 64" and kh: "kh = se_keyed_hash env"
    and q: "ref_chunks roll demo_chunker X = concat (map (\<lambda>(g, w). g @ w) qs) @ r" "cr_windows resp = map window_of (window_ranges 0 (map (bytes_window kh) qs))"
      "\<forall>(g, w) \<in> set qs. concat w \<noteq> []" "length es = length qs"
    and up: "list_all2 (uploaded_as env remote roll X s) (zip (cr_windows resp) es) us"
    and ps: "map (\<lambda>(g, w, _). (g, w)) (replacements X 0 qs es) = qs"
    and ns: "ns = concat (map (\<lambda>(g, _, w'). map (bytes_node kh) g @ file_nodes kh roll w') (replacements X 0 qs es)) @ map (bytes_node kh) r"
    and gv: "cr_gap_verification resp = (if verification mdb = [] then []
       else stable_segment_hashes (window_ranges 0 (map (bytes_window kh) qs)) (zip (segments mdb) (verification mdb)) 0 0)"
    and seg: "segment_windows mdb resp"
    and comp: "compose_mdb mdb (seg_byte_starts_of mdb) us (cr_gap_verification resp) (file_hash kh ns) = Some (Inr composed)"
    and G: "good_store G" "session_store remote s \<subseteq> G" "legible env G ns"
  shows "describes kh G composed ns"
proof -
  note sz = describes_size [OF d n]
  note it = mdb_items_ok [OF d sz(1)]
  have bytes: "length (concat (concat (map (\<lambda>(g, w). g @ w) qs))) < 2 ^ 64" using arg_cong [OF q(1), of "\<lambda>x. length (concat x)"] n by simp
  let ?ws = "byte_positions 0 qs"
  have pos: "positions ?ws = window_ranges 0 (map (bytes_window kh) qs)" "\<forall>(a, b) \<in> set ?ws. a < 2 ^ 64 \<and> b < 2 ^ 64"
    using positions_windows [of 0 qs kh] bytes by simp_all
  have al: "a \<in> unat ` set (seg_byte_starts_of mdb) \<and> b \<in> unat ` set (seg_byte_starts_of mdb)" if ab: "(a, b) \<in> set ?ws" for a b
  proof -
    have "window_of (file_range_new (of_nat a) (of_nat b)) \<in> set (cr_windows resp)" using ab unfolding q(2) pos(1) [symmetric] by force
    then have "of_nat a \<in> set (seg_byte_starts_of mdb)" "of_nat b \<in> set (seg_byte_starts_of mdb)" using seg by (auto simp: segment_windows_def file_range_new_def)
    moreover have "unat (of_nat a :: u64) = a" "unat (of_nat b :: u64) = b" using pos(2) ab by (auto intro!: u64_of_nat)
    ultimately show ?thesis by (metis imageI)
  qed
  then have al': "\<forall>(a, b) \<in> set ?ws. a \<in> unat ` set (seg_byte_starts_of mdb) \<and> b \<in> unat ` set (seg_byte_starts_of mdb)" by blast
  obtain gs rest where gs: "mdb_items mdb = concat (map (\<lambda>(g, w). g @ w) gs) @ rest" "item_groups 0 ?ws gs"
    using groups_exist [of mdb "[]" "mdb_items mdb" ?ws] it(1) positions_chain [OF q(3), of 0] al' by auto
  have leg: "legible env G (file_nodes kh roll w')" if "(g, w, w') \<in> set (replacements X 0 qs es)" for g w w'
  proof (rule legible_subset [OF G(3)])
    show "set (file_nodes kh roll w') \<subseteq> set ns" using that by (force simp: ns)
    have "length (map (bytes_node kh) g @ file_nodes kh roll w') \<le> length (concat (map (\<lambda>(g, _, w'). map (bytes_node kh) g @ file_nodes kh roll w') (replacements X 0 qs es)))"
      unfolding length_concat by (rule member_le_sum_list, use that in force) simp
    then show "length (file_nodes kh roll w') \<le> length ns" by (simp add: ns)
  qed
  have up': "list_all2 (uploaded_as env remote roll X s) (zip (map window_of (positions ?ws)) es) us" using up unfolding q(2) pos(1) .
  have leg': "\<forall>(_, _, w') \<in> set (replacements X 0 qs es). legible env G (file_nodes (se_keyed_hash env) roll w')" using leg kh by auto
  have us: "map (\<lambda>u. (unat (uw_start u), unat (uw_end u))) us = ?ws"
    "list_all2 (\<lambda>u (_, _, w'). describes kh G (uw_mdb u) (file_nodes kh roll w')) us (replacements X 0 qs es)"
    using uploaded_spelled [OF G(1,2) _ q(4) up'] bytes leg' unfolding kh by auto
  have sp: "list_all2 (\<lambda>u (_, _, w'). spelled kh G (segments (uw_mdb u)) (verification (uw_mdb u)) (file_nodes kh roll w')) us (replacements X 0 qs es)"
    by (rule list_all2_mono [OF us(2)]) (auto simp: describes_spelled)
  have len: "\<forall>u \<in> set us. length (verification (uw_mdb u)) = length (segments (uw_mdb u))"
    using list_all2_sets(1) [OF sp] spelled_lengths by fastforce
  have f: "full_items (mdb_items mdb)" using it(1) by (simp add: original_def)
  have hashes: "cr_gap_verification resp = gap_hashes gs @ map snd rest"
  proof -
    have "cr_gap_verification resp = stable_segment_hashes (positions ([] @ ?ws)) (verified (mdb_items mdb)) (of_nat 0) 0"
      using gv pos(1) it(3) by (simp split: if_splits)
    also have "\<dots> = gap_hashes gs @ map snd rest"
      unfolding gs(1) by (rule stable_hashes_ok) (use gs f pos(2) in \<open>simp_all add: full_items_def\<close>)
    finally show ?thesis .
  qed
  have "original mdb (concat (map (\<lambda>(g, w). g @ w) gs) @ rest)" using it(1) gs(1) by simp
  from compose_mdb_ok [OF this _ len, of "file_hash kh ns", unfolded us(1), OF gs(2), folded hashes, unfolded comp, symmetric] obtain header where
    header: "file_header_new (file_hash kh ns) (length (composed_segments gs us @ map fst rest)) True False = Some header"
    and c: "composed = \<lparr>metadata = header, segments = composed_segments gs us @ map fst rest,
        verification = composed_verification gs us @ item_verification rest, metadata_ext = None\<rparr>"
    by auto
  have "spelled kh remote (map fst (mdb_items mdb)) (item_verification (mdb_items mdb)) (map (bytes_node kh) (concat (map (\<lambda>(g, w). g @ w) qs) @ r))"
    using describes_spelled [OF d] it(1,2) q(1) by (simp add: original_def file_nodes_eq)
  from group_nodes [OF gs(2) this [unfolded gs(1)] bytes] file_nodes_nonzero [of _ kh roll X] q(1)
  have g: "list_all2 (\<lambda>(x, _) (g, _). spelled kh remote (map fst x) (item_verification x) (map (bytes_node kh) g)) gs qs"
    "spelled kh remote (map fst rest) (item_verification rest) (map (bytes_node kh) r)"
    by (auto simp: file_nodes_eq)
  have sub: "remote \<subseteq> G" using G(2) by (auto simp: session_store_def)
  have "list_all2 (\<lambda>(x, _) (g, _). spelled kh G (map fst x) (item_verification x) (map (bytes_node kh) g)) gs qs"
    by (rule list_all2_mono [OF g(1)]) (auto intro: spelled_mono [OF _ sub])
  from spelled_append [OF composed_spelled [OF this sp ps] spelled_mono [OF g(2) sub]]
  have "spelled kh G (segments composed) (verification composed) ns" by (simp add: c ns)
  then show ?thesis
    using file_header_describes [OF header]
    by (auto simp: describes_def spelled_def c contains_verification_def contains_metadata_ext_def)
qed

section \<open>The upload\<close>

text \<open>The composed description is registered with the session.\<close>

lemma register_composed_ok:
  assumes s: "session_ok env remote s" "files_ok env remote {} {} s" and op: "register_composed_file fi s = Some (Inr (), s')"
    and d: "over env remote {ns} s (\<lambda>G. describes (se_keyed_hash env) G fi ns)"
  shows "session_ok env remote s'" "files_ok env remote {ns} {} s'"
proof -
  let ?kh = "se_keyed_hash env" and ?h = "fh_file_hash (metadata fi)"
  have s': "s' = s\<lparr>us_shards := session_add_file_info fi (us_shards s)\<rparr>"
    using op by (auto simp: register_composed_file_def check_not_finalized_def split: if_splits)
  show "session_ok env remote s'" using s(1) shards_ok_add_file by (auto simp: s' session_inv_def queued_def)
  have o: "over env remote {ns} s' P = over env remote {ns} s P" for P by (simp add: s' over_def session_store_def)
  have files: "session_files s' = (session_files s)(?h \<mapsto> fi)" by (simp add: s' session_add_file_info_def add_file_reconstruction_info_def)
  note f = files_ok_insert [OF s(2), of ns]
  have h: "over env remote {ns} s (\<lambda>_. file_hash ?kh ns = ?h)" by (rule over_subset [OF d subset_refl]) (simp add: describes_def)
  obtain nss where nss: "set nss \<subseteq> {ns}" "over env remote {ns} s (\<lambda>G. da_ok ?kh G (us_data s) nss)" using f by (auto simp: files_ok_def)
  have "over env remote {ns} s (file_described ?kh {ns} (session_files s'))"
    using f d unfolding files_ok_def over_def files by (auto simp: file_described_def describes_def split: if_splits)
  moreover have "over env remote {ns} s (\<lambda>_. \<forall>m \<in> {ns}. m \<in> set nss \<or> m \<in> {} \<or> file_hash ?kh m \<in> dom (session_files s'))"
    by (rule over_subset [OF h subset_refl]) (simp add: files)
  ultimately show "files_ok env remote {ns} {} s'"
    using f nss unfolding files_ok_def o by (auto simp: s')
qed

text \<open>
  (C6) An upload of edits stores the edited file. Let the server hold a nonempty file, let an upload of edits
  return without an error, and let the windows that the server planned for it start and end with segments of
  the original file. Then the session shard has a file info for the hash of the chunks of the edited file,
  composed of segments of the original file and of segments of the windows; it describes exactly those
  chunks, every segment refers to a xorb that is on the server, and the server accepted the shard.
\<close>

theorem range_upload_describes:
  fixes X :: bytes
  assumes set: "upload_setting (rg_session env) remote roll" and kh: "kh = se_keyed_hash (rg_session env)"
    and f: "holds_file env remote roll X mdb" and X: "X \<noteq> []" "length X < 2 ^ 64" and ds: "ds \<noteq> []" and small: "added_bytes ds < 2 ^ 64"
    and op: "upload_ranges env (file_hash kh (file_nodes kh roll X)) (of_nat (length X)) ds = Some (Inr info, Some s')"
    and seg: "\<And>rs resp. snap_inputs (seg_byte_starts_of mdb) (of_nat (length X)) ds = Some rs \<Longrightarrow>
      rg_file_chunk_hashes env (file_hash kh (file_nodes kh roll X)) (query_of (coalesce rs)) = Inr resp \<Longrightarrow> segment_windows mdb resp"
    and G: "good_store (session_store remote s')" "legible (rg_session env) (session_store remote s') (file_nodes kh roll (edited X ds))"
  shows "(\<exists>fi. session_files s' (file_hash kh (file_nodes kh roll (edited X ds))) = Some fi \<and>
      describes kh (uploaded_store (rg_session env) remote s') fi (file_nodes kh roll (edited X ds))) \<and>
    (\<exists>t. se_upload_shard (rg_session env) t (shard_to_bytes (se_sort (rg_session env)) (ss_session_shard (us_shards s'))) = Inr ())"
proof -
  let ?env = "rg_session env" and ?n = "of_nat (length X) :: u64"
  let ?h = "file_hash kh (file_nodes kh roll X)" and ?ns = "file_nodes kh roll (edited X ds)"
  have un: "unat ?n = length X" by (rule u64_of_nat [OF X(2)])
  have nz: "?n \<noteq> 0" using un X(1) by (metis length_0_conv unat_0)
  have hf: "describes kh remote mdb (file_nodes kh roll X)" "rg_file_reconstruction_info env ?h = Inr (Some mdb)" using f by (simp_all add: holds_file_def Let_def kh)
  obtain t rs resp where p: "edits_ok (length X) ds" "compute_total_size ?n ds = Inr t"
    "snap_inputs (seg_byte_starts_of mdb) ?n ds = Some rs" "rg_file_chunk_hashes env ?h (query_of (coalesce rs)) = Inr resp"
    "upload_edited env ?h ?n t ds mdb resp = Some (Inr info, s')"
    using upload_ranges_parts [OF op ds nz hf(2)] unfolding un by (metis option.inject)
  obtain us s1 hh composed s2 y where e: "upload_windows env ?h ?n (cr_windows resp) ds [] (upload_session_new False) = Some (Inr (us, []), s1)"
    "combined_hash (se_keyed_hash ?env) us (cr_hash_ranges resp) t = Inr hh" "compose_mdb mdb (seg_byte_starts_of mdb) us (cr_gap_verification resp) hh = Some (Inr composed)"
    "register_composed_file composed s1 = Some (Inr (), s2)" "finalize_impl ?env False s2 = Some (Inr y, s')"
    using p(5) by (rule upload_edited_parts)
  obtain qs r es where w: "ref_chunks roll demo_chunker X = concat (map (\<lambda>(g, w). g @ w) qs) @ r"
    "cr_windows resp = map window_of (window_ranges 0 (map (bytes_window kh) qs))" "length es = length qs"
    "session_ok ?env remote s1" "files_ok ?env remote {} {} s1" "list_all2 (uploaded_as ?env remote roll X s1) (zip (cr_windows resp) es) us"
    "?ns = concat (map (\<lambda>(g, _, w'). map (bytes_node kh) g @ file_nodes kh roll w') (replacements X 0 qs es)) @ map (bytes_node kh) r"
    "hh = file_hash kh ?ns" "map (\<lambda>(g, w, _). (g, w)) (replacements X 0 qs es) = qs" "\<forall>(g, w) \<in> set qs. concat w \<noteq> []"
    "cr_gap_verification resp = (if verification mdb = [] then []
       else stable_segment_hashes (window_ranges 0 (map (bytes_window kh) qs)) (zip (segments mdb) (verification mdb)) 0 0)" "\<not> ss_dry_run (us_shards s1)"
    by (rule range_windows [OF set f X(2) small p(1-3) p(4) [unfolded kh] e(1) [unfolded kh], folded kh], use e(2) in \<open>simp add: kh\<close>)
  have "over ?env remote {?ns} s1 (\<lambda>G. describes kh G composed ?ns)"
    unfolding over_def
    using composed_describes [OF hf(1) X(2) kh w(1,2,10,3,6,9,7,11) seg [OF p(3,4)] e(3) [unfolded w(8)]] by simp
  note s2 = register_composed_ok [OF w(4,5) e(4) this [unfolded kh], folded kh]
  obtain y1 y2 y3 where "y = (y1, y2, y3)" by (cases y)
  note z = finalize_ok [OF s2 e(5) [unfolded this], folded kh]
  have all: "file_hash kh ?ns \<in> dom (session_files s')" "file_described kh {?ns} (session_files s') (session_store remote s')"
    using z(2,3) G by (auto simp: over_def)
  then obtain fi where fi: "session_files s' (file_hash kh ?ns) = Some fi" "describes kh (session_store remote s') fi ?ns"
    by (auto simp: file_described_def)
  have "describes kh (uploaded_store ?env remote s') fi ?ns"
    using describes_uploaded [OF z(1) G(1) fi(2)] file_nodes_nonzero by blast
  moreover have "\<not> ss_dry_run (us_shards s')"
    using w(12) e(4) z(6) by (auto simp: register_composed_file_def session_add_file_info_def split: sum.splits)
  ultimately show ?thesis using z(4) fi(1) by (metis option.distinct(1))
qed

theorem range_upload_describes_witness:
  "\<exists>info s'. upload_ranges small_range_env (file_hash small_kh (file_nodes small_kh small_roll [7, 8, 9])) 3 [small_edit] = Some (Inr info, Some s') \<and>
     (\<exists>fi. session_files s' small_hash = Some fi \<and> describes small_kh (uploaded_store small_env stored_xorbs s') fi [(small_hash, 3)])"
proof -
  obtain info s' where up: "upload_ranges small_range_env (file_hash small_kh (file_nodes small_kh small_roll [7, 8, 9])) 3 [small_edit] = Some (Inr info, Some s')"
    and reg: "us_registered s' = [small_xorb, empty_xorb]"
    using small_upload by (auto simp: stored_nodes small_agg)
  have st: "session_store stored_xorbs s' = {(small_hash, [(small_hash, 3)]), (default_hash, [])}"
    by (auto simp: session_store_def reg small_xorb_simps empty_xorb_simps)
  have "good_store (session_store stored_xorbs s')"
    by (auto simp: st good_store_def single_valued_def small_hashes default_not_small xorb_ok_def MAX_XORB_vals)
  moreover have "legible small_env (session_store stored_xorbs s') [(small_hash, 3)]"
    by (auto simp: st legible_def collision_free_def single_valued_def small_keys)
  moreover have "segment_windows stored_mdb resp" if "snap_inputs [0, 3] 3 [small_edit] = Some rs" "rg_file_chunk_hashes small_range_env h (query_of (coalesce rs)) = Inr resp" for rs resp h
    using that unfolding small_query by (auto simp: small_query query_of_def stored_query segment_windows_def stored_simps stored_response_def)
  ultimately have "\<exists>fi. session_files s' small_hash = Some fi \<and> describes small_kh (uploaded_store small_env stored_xorbs s') fi [(small_hash, 3)]"
    using range_upload_describes [of small_range_env stored_xorbs small_roll small_kh "[7, 8, 9]" stored_mdb "[small_edit]" info s'] up small_holds
    by (simp add: small_range_simps small_env_simps small_edited small_nodes stored_nodes small_agg stored_simps del: snap_inputs.simps)
  then show ?thesis using up by blast
qed

end
