(* ===== verification/Range_Errors.thy ===== *)
theory Range_Errors
  imports Range_Snapping
begin

text \<open>
  Where the composed description goes wrong: the windows of the server do not end with segments in general,
  because the builder extends them behind the edit until two chunks of a stable size were passed.
\<close>

definition run_segment :: "merkle_hash \<Rightarrow> u32 \<Rightarrow> u32 \<Rightarrow> file_data_sequence_entry" where
  "run_segment h first n =
     \<lparr>fe_xorb_hash = h, fe_xorb_flags = 0, fe_unpacked_segment_bytes = n * 65536, fe_chunk_index_start = first, fe_chunk_index_end = first + n\<rparr>"

text \<open>A file of six chunks of 64 KiB: two in a first segment, four in a second one; and its first four chunks.\<close>

definition six_chunks :: "merkle_hash \<Rightarrow> mdb_file_info" where
  "six_chunks h = \<lparr>metadata = the (file_header_new h 2 True False), segments = [run_segment h 0 2, run_segment h 2 4],
     verification = [file_verification_new h, file_verification_new h], metadata_ext = None\<rparr>"

definition four_chunks :: "merkle_hash \<Rightarrow> uploaded_window" where
  "four_chunks h = \<lparr>uw_start = 0, uw_end = 262144, uw_chunks = replicate 4 (h, 65536),
     uw_mdb = \<lparr>metadata = the (file_header_new h 1 True False), segments = [run_segment h 0 4], verification = [file_verification_new h], metadata_ext = None\<rparr>\<rparr>"

definition first_byte :: dirty_input where
  "first_byte = \<lparr>di_start = 0, di_end = 1, di_reader = [0], di_new_length = 1\<rparr>"

lemma six_simps:
  "segments (six_chunks h) = [run_segment h 0 2, run_segment h 2 4]" "verification (six_chunks h) = [file_verification_new h, file_verification_new h]"
  "fe_unpacked_segment_bytes (run_segment h a n) = n * 65536" "seg_byte_starts_of (six_chunks h) = [0, 131072, 393216]" "file_size (six_chunks h) = 393216"
  by (simp_all add: six_chunks_def run_segment_def seg_byte_starts_of_def file_size_def Let_def)

lemma six_query: "map_option (\<lambda>rs. query_of (coalesce rs)) (snap_inputs [0, 131072, 393216] 393216 [first_byte]) = Some [file_range_new 0 131072]"
  by (simp add: first_byte_def snap_input_def snap_to_segment_start_def snap_to_segment_end_def Let_def coalesce_def coalesce_step_def query_of_def)

lemma stable_64k: "is_stable_chunk_size 65536"
  by (simp add: is_stable_chunk_size_def TARGET_CHUNK_SIZE_def MINIMUM_CHUNK_DIVISOR_def MAXIMUM_CHUNK_MULTIPLIER_def)

abbreviation six_nodes :: "merkle_hash \<Rightarrow> node list" where
  "six_nodes h \<equiv> [(h, 65536), (h, 65536), (h, 65536), (h, 65536), (h, 65536), (h, 65536)]"

lemma six_loop:
  "process_chunk_loop kh (six_nodes h) 0 (window_builder_new [file_range_new 0 131072]) = Some
     \<lparr>cw_dirty_ranges = [file_range_new 0 131072], cw_dirty_idx = 1, cw_in_dirty_zone = False, cw_gap_is_first = False, cw_cursor = 393216,
      cw_gap_chunks = [(h, 65536), (h, 65536)], cw_windows = [file_range_new 0 262144], cw_hash_ranges = [None], cw_tail_prev_size = None\<rparr>"
  by (simp add: process_chunk_def window_builder_new_def file_range_new_def overlaps_dirty_at_def open_window_def extend_open_window_def merge_ahead.simps
      range_to_option_eq stable_64k)

lemma six_answer:
  "build_file_chunk_hashes_response kh (six_chunks h) [file_range_new 0 131072] (six_nodes h) = Some (Inr
     \<lparr>cr_total_chunks = 6, cr_file_size = 393216, cr_windows = [\<lparr>dirty_byte_range = (0, 262144)\<rparr>],
      cr_hash_ranges = [None, Some (from_chunks kh False [(h, 65536), (h, 65536)] True)], cr_gap_verification = []\<rparr>)"
proof -
  have "clamp_dirty_ranges 393216 [file_range_new 0 131072] = [file_range_new 0 131072]" by (simp add: clamp_dirty_ranges_def file_range_new_def)
  then show ?thesis
    by (simp add: build_file_chunk_hashes_response_def six_simps six_loop del: process_chunk_loop.simps)
      (simp add: window_builder_finish_def range_to_option_eq advance_window.simps file_range_new_def Let_def six_simps)
qed

text \<open>
  (C37) The composed description of an edited file can miss data. Take a file of six chunks of 64 KiB in two
  segments, of two and of four chunks, and an edit of its first byte. The requested range is the first
  segment, and the window in the answer of the server goes on to the middle of the second segment; there is
  no range hash for a stable segment. The composition then succeeds, with the segments of the window only:
  the description has the first four chunks of the file, and the last two are lost.
\<close>

theorem composition_loses_data:
  "\<exists>resp composed.
     map_option (\<lambda>rs. query_of (coalesce rs)) (snap_inputs (seg_byte_starts_of (six_chunks h)) (file_size (six_chunks h)) [first_byte]) = Some [file_range_new 0 131072] \<and>
     build_file_chunk_hashes_response kh (six_chunks h) [file_range_new 0 131072] (six_nodes h) = Some (Inr resp) \<and>
     map dirty_byte_range (cr_windows resp) = [(uw_start (four_chunks h), uw_end (four_chunks h))] \<and>
     compose_mdb (six_chunks h) (seg_byte_starts_of (six_chunks h)) [four_chunks h] (cr_gap_verification resp) h' = Some (Inr composed) \<and>
     segments composed = [run_segment h 0 4] \<and> file_size composed = 262144 \<and> file_size (six_chunks h) = 393216"
proof -
  let ?c = "\<lparr>metadata = the (file_header_new h' 1 True False), segments = [run_segment h 0 4], verification = [file_verification_new h], metadata_ext = None\<rparr>"
  have "compose_mdb (six_chunks h) [0, 131072, 393216] [four_chunks h] [] h' = Some (Inr ?c)"
    by (simp add: compose_mdb_def compose_before.simps skip_segments.simps compose_after.simps four_chunks_def six_simps Let_def file_header_new_def try_u32_def)
  moreover have "file_size ?c = 262144" by (simp add: file_size_def six_simps)
  ultimately show ?thesis
    unfolding six_answer six_simps(4,5) six_query by (simp add: four_chunks_def six_simps)
qed

end
