(* ===== verification/Spec2Isabelle.thy ===== *)
theory Spec2Isabelle
  imports Subtree_Correct Xorb_Structs Interpolation_Search Chunking_Partitions Chunk_Format
    Aggregator_Correct Upload_Tracking_Correct Set_Operations_Correct Xorb_Object_Correct
    Upload_End_To_End Upload_Errors Range_Describes Range_Errors
begin

text \<open>
  A verification library for the storage core of xet: how a file is cut into chunks, how chunks are
  hashed, grouped into xorbs, deduplicated and described by metadata shards, and how an upload keeps
  count of what is done. Each theory models the source files named below (paths under \<open>src/\<close>) and
  proves what makes that part correct.

  \<^bold>\<open>Conventions.\<close> \<open>u8\<close>, \<open>u32\<close>, \<open>u64\<close> and \<open>u128\<close> are words and wrap as in a release build; \<open>usize\<close> counts
  are natural numbers. Bytes are little-endian lists; a reader is the list of bytes not yet read, a
  seek drops from the bytes of the file. A fallible function returns a sum whose left side is the
  error, a panic or a loop that does not end is \<open>None\<close>. Methods that change their receiver return the
  new receiver. Code that is not in the repository is a parameter: the keyed BLAKE3 hash (\<open>kh\<close>), the
  gear hash crate (\<open>nm\<close>, with its documented behaviour as the locale \<open>gear_hasher\<close>), the LZ4 frame codec
  (\<open>enc\<close>, \<open>dec\<close>), base64. Every floating-point decision is a parameter as well, so the theorems hold
  however it rounds.

  \<^bold>\<open>Hashes\<close> (\<open>xet_core_structures/src/merklehash\<close>). \<open>Data_Hash\<close>: the 256-bit hash, its order, its byte,
  hexadecimal and base64 forms. \<open>Aggregated_Hashes\<close>: group cuts and the in-place aggregation to a root
  (\<open>xorb_hash\<close>, \<open>file_hash\<close>). \<open>Stable_Cuts\<close>, \<open>Merkle_Subtree\<close>, \<open>Subtree_Correct\<close>: the partial trees of
  \<open>merkle_hash_subtree.rs\<close> as flat arrays; merging the subtrees of consecutive chunk ranges from left to
  right gives the aggregated hash of all chunks, merging in another order may not.

  \<^bold>\<open>Chunking\<close> (\<open>xet_data/src/deduplication/chunking.rs\<close>). \<open>Chunking\<close> is the chunker state machine;
  \<open>Chunking_Correct\<close> shows that it computes a reference definition however the input is blocked, within
  the size bounds; \<open>Chunking_Stable\<close> that a stable boundary stays one whatever precedes it;
  \<open>Chunking_Partitions\<close> that \<open>find_partitions\<close> ends.

  \<^bold>\<open>Chunk storage\<close> (\<open>xet_core_structures/src/xorb_object\<close>). \<open>Byte_Grouping\<close> and \<open>Bg4_Prediction\<close>: the unsafe
  byte-grouping loops stay in their buffers and are inverted by each other, the SWAR histogram equals
  the reference one. \<open>Chunk_Format\<close>: chunk headers, compression schemes, both readers of chunk
  sequences; round trips, bounds on accepted input, and where the two readers differ. \<open>Xorb_Object\<close>: the
  xorb file, its footer in both versions, validation, range reads and the writer;
  \<open>Xorb_Object_Correct\<close>: a written xorb is read back chunk by chunk, a footer rebuilt from the chunks is
  the written one, and which malformed objects the validation reports.

  \<^bold>\<open>Metadata\<close> (\<open>xet_core_structures/src/metadata_shard\<close>, \<open>utils\<close>). \<open>Serialization_Utils\<close>, \<open>File_Structs\<close>,
  \<open>Xorb_Structs\<close>: the records of a shard and the zero-copy views of them. \<open>Interpolation_Search\<close>: the
  search in a sorted table. \<open>Shard_In_Memory\<close>: the shard under construction, its invariant and its chunk
  query. \<open>Shard_Format\<close>, \<open>Shard_Format_Correct\<close>: the file format with its lookup tables; a serialized
  shard loads back, and looking up files and chunks in the bytes refines the in-memory shard.
  \<open>Set_Operations\<close>, \<open>Set_Operations_Correct\<close>: union and difference of shard files, merged entry by entry
  from the sorted sections (\<open>set_operations.rs\<close>); they write the files of the union and the difference of
  the shards in memory.

  \<^bold>\<open>Deduplication\<close> (\<open>xet_data/src/deduplication\<close>). \<open>File_Dedup\<close>: \<open>FileDeduper\<close> and \<open>DataAggregator\<close> over a data
  manager that is a record of operations. \<open>File_Dedup_Correct\<close>: for every manager that meets the
  contract \<open>dedup_store\<close>, processing returns, and the file entries together with the stored xorbs and
  the pending data spell the chunks of the file. \<open>Aggregator_Correct\<close>: finalizing, merging and cutting
  the aggregated xorb keep this.

  \<^bold>\<open>Progress\<close> (\<open>xet_data/src/progress_tracking/upload_tracking.rs\<close>). \<open>Upload_Tracking\<close>,
  \<open>Upload_Tracking_Correct\<close>: the completion tracker as a state machine, its invariant over all reachable
  states, conservation of bytes and completion.

  \<^bold>\<open>Uploads\<close> (\<open>xet_data/src/processing\<close>). \<open>Session_Shards\<close>: the session shard and the cache of shards from
  the server (\<open>shard_interface/wasm.rs\<close>); whatever bytes arrive, an accepted shard is well-formed.
  \<open>Upload_Session\<close>: \<open>FileUploadSession\<close>; \<open>File_Cleaner\<close>: \<open>SingleFileCleaner\<close>, the data manager behind the
  deduper, SHA-256 and file infos. The client is a record of answers indexed by a counter of moments, so
  the same request may be answered differently later; a background task runs at whatever moment the
  environment chooses, at the latest where the code joins it. Two history fields that no operation
  reads record what was registered and what the client confirmed. \<open>Upload_Session_Correct\<close>: the tracker
  never panics, and every registered xorb is uploaded or waiting unless an error is still to be joined.
  \<open>File_Cleaner_Correct\<close>: the upload manager meets the contract \<open>dedup_store\<close> that \<open>File_Dedup_Correct\<close>
  is proved from, and a cleaner spells the chunks of the bytes it was given. \<open>Upload_End_To_End\<close>: the
  runs of any number of interleaved files, their invariant, and what a successful finalization
  guarantees. \<open>Upload_Example\<close> is one small run, evaluated; \<open>Upload_Errors\<close> shows three cases in which the
  code does not do what it means to.

  \<^bold>\<open>Edits of stored files.\<close> \<open>Chunk_Windows\<close>: the builder of dirty windows of \<open>xet_client/src/cas_client\<close> and
  the answer to a request for chunk hashes; \<open>Chunk_Windows_Correct\<close>: it cuts the chunks of a file into gaps
  that no dirty range touches and windows that end at a stable boundary or with the file.
  \<open>Range_Upload\<close>: \<open>xet_data/src/processing/range_upload.rs\<close>, the upload of an edited file by its windows.
  \<open>Chunking_Edits\<close>: chunking an edited file gives the chunks of the gaps and those of each window on its
  own; \<open>Range_Edits\<close>: what the edits mean, and that they are dealt out to the windows that contain them;
  \<open>Range_Snapping\<close>: the ranges sent to the server cover the edits. \<open>Range_Upload_Correct\<close>: the windows are
  uploaded with their edited bytes, and the hash merged from gaps and windows is the one of all chunks.
  \<open>Range_Upload_End_To_End\<close>: the returned hash and size are those of the edited file. \<open>Range_Compose\<close> and
  \<open>Range_Describes\<close>: if the windows end with segments, the registered description is one of the edited file,
  over xorbs on the server. \<open>Range_Errors\<close>: if a window ends inside a segment, the rest of the segment is lost.
  \<open>Range_Upload_Example\<close> evaluates one small upload of an edit.

  \<^bold>\<open>Fuel.\<close> No definition takes fuel. Loops whose end depends on external code (the deduper's passes, the
  partitioner, the chunker) are partial functions with values in \<open>option\<close>, and the theorems about them
  state that they return.

  \<^bold>\<open>Not modelled.\<close> Asynchronous readers that repeat a synchronous one, serde and debug printing, debug
  assertions (the release build drops them), file system access (shard files on disk, the chunk cache
  on disk), HTTP clients and servers, the runtime, logging, language bindings and the measuring
  programs: their behaviour is input and output. Adaptive concurrency, moving averages and speed
  estimates are floating-point statistics without a discrete contract.
\<close>

end
